(* ===== verification/Prelude.thy ===== *)
theory Prelude
  imports Main "HOL-Library.Word"
begin

text \<open>
  Shared vocabulary of the development.  The engine is C code over byte buffers: a buffer is a
  list of bytes, a machine integer a word of its width, a pointer into a buffer an offset.  This
  theory names the types, gives the loads and stores that the C macros define, the memory moves
  (\<open>mslice\<close> reads \<open>n\<close> bytes at an offset, \<open>blit\<close> is a \<open>memcpy\<close> into a buffer), the result
  codes, and the lemmas about them that every component uses.
\<close>

unbundle bit_operations_syntax

named_theorems mem_simps \<open>reads and writes of byte buffers\<close>

section \<open>Machine types\<close>

type_synonym u8 = "8 word"
type_synonym u16 = "16 word"
type_synonym u32 = "32 word"
type_synonym u64 = "64 word"
type_synonym bytes = "8 word list"

section \<open>Result codes\<close>

text \<open>The primary result codes of \<open>sqlite3.h\<close> that the modelled functions return.\<close>

datatype rc =
    SQLITE_OK | SQLITE_ERROR | SQLITE_BUSY | SQLITE_LOCKED | SQLITE_NOMEM | SQLITE_READONLY
  | SQLITE_IOERR | SQLITE_IOERR_SHORT_READ | SQLITE_IOERR_WRITE | SQLITE_CORRUPT | SQLITE_NOTFOUND
  | SQLITE_FULL | SQLITE_CANTOPEN | SQLITE_PROTOCOL | SQLITE_NOTADB | SQLITE_MISUSE
  | SQLITE_IOERR_LOCK | SQLITE_IOERR_UNLOCK | SQLITE_IOERR_RDLOCK | SQLITE_DONE
  | SQLITE_IOERR_READ | SQLITE_IOERR_FSYNC | SQLITE_IOERR_TRUNCATE | SQLITE_IOERR_FSTAT
  | SQLITE_IOERR_NOMEM | SQLITE_IOERR_DELETE | SQLITE_TOOBIG | SQLITE_ABORT | SQLITE_INTERNAL | SQLITE_PERM | SQLITE_INTERRUPT

section \<open>Byte buffers\<close>

text \<open>\<open>mslice i n xs\<close> is the \<open>n\<close> bytes from offset \<open>i\<close>; \<open>blit i src dst\<close> is \<open>memcpy(dst + i, src)\<close>.\<close>

definition mslice :: "nat \<Rightarrow> nat \<Rightarrow> 'a list \<Rightarrow> 'a list" where
  "mslice i n xs = take n (drop i xs)"

definition blit :: "nat \<Rightarrow> 'a list \<Rightarrow> 'a list \<Rightarrow> 'a list" where
  "blit i src dst = take i dst @ src @ drop (i + length src) dst"

lemma length_mslice [simp, mem_simps]: "length (mslice i n xs) = min n (length xs - i)"
  by (simp add: mslice_def)

lemma length_blit [mem_simps]:
  "i + length src \<le> length dst \<Longrightarrow> length (blit i src dst) = length dst"
  by (simp add: blit_def)

lemma nth_mslice [mem_simps]:
  "k < n \<Longrightarrow> i + k < length xs \<Longrightarrow> mslice i n xs ! k = xs ! (i + k)"
  by (simp add: mslice_def)

lemma nth_blit [mem_simps]:
  assumes "i + length src \<le> length dst" and "k < length dst"
  shows "blit i src dst ! k =
    (if i \<le> k \<and> k < i + length src then src ! (k - i) else dst ! k)"
  using assms by (auto simp: blit_def nth_append min_def)

lemma mslice_blit_same [mem_simps]:
  "i + length src \<le> length dst \<Longrightarrow> n = length src \<Longrightarrow> mslice i n (blit i src dst) = src"
  by (simp add: mslice_def blit_def)

lemma mslice_blit_before [mem_simps]:
  assumes "i + length src \<le> length dst" and "j + n \<le> i"
  shows "mslice j n (blit i src dst) = mslice j n dst"
  using assms by (intro nth_equalityI) (auto simp: mem_simps)

lemma mslice_blit_after [mem_simps]:
  assumes "i + length src \<le> length dst" and "i + length src \<le> j" and "j + n \<le> length dst"
  shows "mslice j n (blit i src dst) = mslice j n dst"
  using assms by (intro nth_equalityI) (auto simp: mem_simps)

lemma mslice_mslice [mem_simps]:
  "i + n \<le> m \<Longrightarrow> mslice i n (mslice j m xs) = mslice (j + i) n xs"
  by (simp add: mslice_def drop_take take_take min_def ac_simps)

lemma mslice_all [simp, mem_simps]: "length xs \<le> n \<Longrightarrow> mslice 0 n xs = xs"
  by (simp add: mslice_def)

lemma mslice_append_left [mem_simps]:
  "i + n \<le> length xs \<Longrightarrow> mslice i n (xs @ ys) = mslice i n xs"
  by (simp add: mslice_def)

lemma mslice_append_right [mem_simps]:
  "length xs \<le> i \<Longrightarrow> mslice i n (xs @ ys) = mslice (i - length xs) n ys"
  by (simp add: mslice_def)

lemma blit_mslice_id [mem_simps]:
  "i + n \<le> length xs \<Longrightarrow> blit i (mslice i n xs) xs = xs"
  by (intro nth_equalityI) (auto simp: mem_simps)

lemma blit_blit_same [mem_simps]:
  assumes "i + length ys \<le> length dst" and "length xs = length ys"
  shows "blit i xs (blit i ys dst) = blit i xs dst"
  using assms by (intro nth_equalityI) (auto simp: mem_simps)

section \<open>Exclusive or\<close>

text \<open>Bytewise exclusive or of a buffer with a pad of at least its length.\<close>

definition xor_bytes :: "bytes \<Rightarrow> bytes \<Rightarrow> bytes" where
  "xor_bytes xs ys = map2 (XOR) xs ys"

lemma length_xor_bytes [simp]: "length (xor_bytes xs ys) = min (length xs) (length ys)"
  by (simp add: xor_bytes_def)

lemma nth_xor_bytes [simp]:
  "k < length xs \<Longrightarrow> k < length ys \<Longrightarrow> xor_bytes xs ys ! k = xs ! k XOR ys ! k"
  by (simp add: xor_bytes_def)

lemma xor_twice [simp]: "(a XOR b) XOR b = (a :: 'a::len word)"
  by (simp add: xor.assoc)

section \<open>Words as numbers\<close>

named_theorems unat_simps \<open>the value of a word operation\<close>

lemma unat_drop [unat_simps]: "unat (drop_bit n (w :: 'a::len word)) = unat w div 2 ^ n"
  by (simp only: unat_drop_bit_eq drop_bit_eq_div [where 'a = nat])

lemma unat_ucast_mod [unat_simps]:
  "unat (ucast (w :: 'a::len word) :: 'b::len word) = unat w mod 2 ^ LENGTH('b)"
  by (simp add: unsigned_ucast_eq take_bit_eq_mod)

lemma unat_and_mask [unat_simps]: "unat (w AND mask n) = unat (w :: 'a::len word) mod 2 ^ n"
  by (simp only: take_bit_eq_mask [symmetric] unsigned_take_bit_eq take_bit_eq_mod [where 'a = nat])

lemma unat_less: "unat (w :: 'a::len word) < 2 ^ LENGTH('a)"
  by (rule unsigned_less)

lemma unat_add_eq [unat_simps]:
  "unat (a :: 'a::len word) + unat b < 2 ^ LENGTH('a) \<Longrightarrow> unat (a + b) = unat a + unat b"
  by (simp add: unat_word_ariths)

lemma unat_mult_eq [unat_simps]:
  "unat (a :: 'a::len word) * unat b < 2 ^ LENGTH('a) \<Longrightarrow> unat (a * b) = unat a * unat b"
  by (simp add: unat_word_ariths)

section \<open>Little- and big-endian loads and stores\<close>

text \<open>
  The macros \<open>LOAD32_LE\<close>, \<open>STORE32_LE\<close>, and their big-endian twins: the loads combine four bytes
  with shifts and \<open>OR\<close>, the stores truncate shifted copies of the word.
\<close>

definition load32_le :: "bytes \<Rightarrow> u32" where
  "load32_le p = (ucast (p ! 0) :: u32) OR push_bit 8 (ucast (p ! 1))
     OR push_bit 16 (ucast (p ! 2)) OR push_bit 24 (ucast (p ! 3))"

definition store32_le :: "u32 \<Rightarrow> bytes" where
  "store32_le v = [ucast v, ucast (drop_bit 8 v), ucast (drop_bit 16 v), ucast (drop_bit 24 v)]"

definition load32_be :: "bytes \<Rightarrow> u32" where
  "load32_be p = push_bit 24 (ucast (p ! 0) :: u32) OR push_bit 16 (ucast (p ! 1))
     OR push_bit 8 (ucast (p ! 2)) OR ucast (p ! 3)"

definition store32_be :: "u32 \<Rightarrow> bytes" where
  "store32_be v = [ucast (drop_bit 24 v), ucast (drop_bit 16 v), ucast (drop_bit 8 v), ucast v]"

lemma length_store32 [simp]: "length (store32_le v) = 4" "length (store32_be v) = 4"
  by (simp_all add: store32_le_def store32_be_def)

lemma word32_of_bytes:
  "(ucast (ucast (v :: u32) :: u8) :: u32) OR push_bit 8 (ucast (ucast (drop_bit 8 v) :: u8))
     OR push_bit 16 (ucast (ucast (drop_bit 16 v) :: u8))
     OR push_bit 24 (ucast (ucast (drop_bit 24 v) :: u8)) = v" (is "?w = v")
proof (rule bit_word_eqI)
  fix n assume "n < LENGTH(32)"
  then consider "n < 8" | "8 \<le> n" "n < 16" | "16 \<le> n" "n < 24" | "24 \<le> n" "n < 32"
    by fastforce
  then show "bit ?w n \<longleftrightarrow> bit v n"
    by cases (auto simp: bit_simps)
qed

lemma load_store32_le [simp]: "load32_le (store32_le v @ rest) = v"
  using word32_of_bytes [of v] by (simp add: load32_le_def store32_le_def numeral_3_eq_3 numeral_2_eq_2)

lemma load_store32_le' [simp]: "load32_le (store32_le v) = v"
  using load_store32_le [of v "[]"] by simp

lemma load_store32_be [simp]: "load32_be (store32_be v @ rest) = v"
  using word32_of_bytes [of v]
  by (simp add: load32_be_def store32_be_def numeral_3_eq_3 numeral_2_eq_2 ac_simps)

lemma load_store32_be' [simp]: "load32_be (store32_be v) = v"
  using load_store32_be [of v "[]"] by simp

lemma store_load32_le:
  assumes "length p = 4" shows "store32_le (load32_le p) = p"
proof -
  obtain a b c d where p: "p = [a, b, c, d]"
    using assms by (auto simp: numeral_eq_Suc length_Suc_conv)
  have "(ucast (ucast a OR push_bit 8 (ucast b) OR push_bit 16 (ucast c)
           OR push_bit 24 (ucast d) :: u32) :: u8) = a"
    by (rule bit_word_eqI) (auto simp: bit_simps)
  moreover have "(ucast (drop_bit 8 (ucast a OR push_bit 8 (ucast b) OR push_bit 16 (ucast c)
           OR push_bit 24 (ucast d) :: u32)) :: u8) = b"
    by (rule bit_word_eqI) (auto simp: bit_simps dest: bit_imp_le_length)
  moreover have "(ucast (drop_bit 16 (ucast a OR push_bit 8 (ucast b) OR push_bit 16 (ucast c)
           OR push_bit 24 (ucast d) :: u32)) :: u8) = c"
    by (rule bit_word_eqI) (auto simp: bit_simps dest: bit_imp_le_length)
  moreover have "(ucast (drop_bit 24 (ucast a OR push_bit 8 (ucast b) OR push_bit 16 (ucast c)
           OR push_bit 24 (ucast d) :: u32)) :: u8) = d"
    by (rule bit_word_eqI) (auto simp: bit_simps dest: bit_imp_le_length)
  ultimately show ?thesis
    by (simp add: p load32_le_def store32_le_def numeral_3_eq_3 numeral_2_eq_2)
qed

lemma nth_concat_chunks:
  assumes "\<And>x. x \<in> set xs \<Longrightarrow> length (f x) = w" and "0 < w" and "k < w * length xs"
  shows "concat (map f xs) ! k = f (xs ! (k div w)) ! (k mod w)"
  using assms
proof (induction xs arbitrary: k)
  case Nil
  then show ?case by simp
next
  case (Cons x xs)
  show ?case
  proof (cases "k < w")
    case True
    then show ?thesis using Cons.prems(1) by (simp add: nth_append)
  next
    case False
    then have "concat (map f (x # xs)) ! k = concat (map f xs) ! (k - w)"
      using Cons.prems(1) by (simp add: nth_append)
    also have "\<dots> = f (xs ! ((k - w) div w)) ! ((k - w) mod w)"
      using Cons.prems False by (intro Cons.IH) auto
    also have "\<dots> = f ((x # xs) ! (k div w)) ! (k mod w)"
    proof -
      have "k div w = Suc ((k - w) div w)" using False Cons.prems(2) by (simp add: le_div_geq)
      moreover have "(k - w) mod w = k mod w" using False by (simp add: le_mod_geq)
      ultimately show ?thesis by simp
    qed
    finally show ?thesis .
  qed
qed

lemma length_concat_chunks:
  "(\<And>x. x \<in> set xs \<Longrightarrow> length (f x) = w) \<Longrightarrow> length (concat (map f xs)) = w * length xs"
  by (induction xs) auto

end
