(* ===== verification/Bitvec.thy ===== *)
theory Bitvec
  imports Prelude
begin

text \<open>
  Bitmaps of a fixed size (\<open>bitvec.c\<close>), which record the pages a transaction has journalled.  A
  \<open>Bitvec\<close> is a bitmap when it is small, a hash table of up to 123 values while it is sparse, and
  otherwise a node with 62 smaller ones.  The union of the C structure is a datatype; the sizes
  are those of a machine with 8-byte pointers.  An allocation takes the next answer of a list of
  booleans and succeeds when the list is used up.
\<close>

definition BITVEC_SZ :: nat where "BITVEC_SZ = 512"
definition BITVEC_USIZE :: nat where "BITVEC_USIZE = (BITVEC_SZ - 3 * 4) div 8 * 8"
definition BITVEC_SZELEM :: nat where "BITVEC_SZELEM = 8"
definition BITVEC_NELEM :: nat where "BITVEC_NELEM = BITVEC_USIZE"
definition BITVEC_NBIT :: nat where "BITVEC_NBIT = BITVEC_NELEM * BITVEC_SZELEM"
definition BITVEC_NINT :: nat where "BITVEC_NINT = BITVEC_USIZE div 4"
definition BITVEC_MXHASH :: nat where "BITVEC_MXHASH = BITVEC_NINT div 2"
definition BITVEC_NPTR :: nat where "BITVEC_NPTR = BITVEC_USIZE div 8"
definition BITVEC_HASH :: "nat \<Rightarrow> nat" where "BITVEC_HASH x = (x * 1) mod BITVEC_NINT"

lemma bitvec_sizes:
  "BITVEC_NELEM = 496" "BITVEC_NBIT = 3968" "BITVEC_NINT = 124" "BITVEC_MXHASH = 62" "BITVEC_NPTR = 62" "BITVEC_SZELEM = 8"
  by (simp_all add: BITVEC_SZ_def BITVEC_USIZE_def BITVEC_SZELEM_def BITVEC_NELEM_def BITVEC_NBIT_def
      BITVEC_NINT_def BITVEC_MXHASH_def BITVEC_NPTR_def)

datatype bitvec =
    Bitmap (bv_size: nat) "u8 list"
  | Hashed (bv_size: nat) nat "nat list"
  | Divided (bv_size: nat) nat "bitvec option list"

section \<open>Operations\<close>

text \<open>A zeroed structure is a bitmap or an empty hash table, by its size.\<close>

definition sqlite3BitvecCreate :: "nat \<Rightarrow> bitvec" where
  "sqlite3BitvecCreate n =
    (if n \<le> BITVEC_NBIT then Bitmap n (replicate BITVEC_NELEM 0) else Hashed n 0 (replicate BITVEC_NINT 0))"

fun take_alloc :: "bool list \<Rightarrow> bool \<times> bool list" where
  "take_alloc [] = (True, [])"
| "take_alloc (b # m) = (b, m)"

definition bitmap_at :: "u8 list \<Rightarrow> nat \<Rightarrow> bool" where
  "bitmap_at a i \<longleftrightarrow> a ! (i div BITVEC_SZELEM) AND push_bit (i mod BITVEC_SZELEM) 1 \<noteq> 0"

text \<open>The first slot from \<open>h\<close> on that is free or holds \<open>v\<close>; \<open>None\<close> once all have been tried, where the
  loop of the code would not end.\<close>

fun probe :: "nat \<Rightarrow> nat list \<Rightarrow> nat \<Rightarrow> nat \<Rightarrow> nat option" where
  "probe 0 a h v = None"
| "probe (Suc k) a h v =
    (if a ! h = 0 \<or> a ! h = v then Some h else probe k a ((h + 1) mod BITVEC_NINT) v)"

definition sub_at :: "'a option list \<Rightarrow> nat \<Rightarrow> 'a option" where
  "sub_at subs bin = (if bin < length subs then subs ! bin else None)"

lemma sub_at_smaller [termination_simp]: "sub_at subs bin = Some c \<Longrightarrow> size c < Suc (size_list (size_option size) subs)"
proof -
  assume s: "sub_at subs bin = Some c"
  then have "Some c \<in> set subs" by (auto simp: sub_at_def split: if_splits) (metis nth_mem)
  then have "size_option size (Some c) \<le> size_list (size_option size) subs" by (rule size_list_estimation') simp
  then show ?thesis by simp
qed

text \<open>\<open>i\<close> counts from 0 here, as after the \<open>i--\<close> of each operation.\<close>

fun test_loop :: "bitvec \<Rightarrow> nat \<Rightarrow> bool option" where
  "test_loop (Divided n d subs) i =
    (case sub_at subs (i div d) of None \<Rightarrow> Some False | Some p \<Rightarrow> test_loop p (i mod d))"
| "test_loop (Bitmap n a) i = Some (bitmap_at a i)"
| "test_loop (Hashed n c a) i =
    map_option (\<lambda>h. a ! h = i + 1) (probe BITVEC_NINT a (BITVEC_HASH i) (i + 1))"

definition sqlite3BitvecTestNotNull :: "bitvec \<Rightarrow> nat \<Rightarrow> bool option" where
  "sqlite3BitvecTestNotNull p i = (if i = 0 \<or> i - 1 \<ge> bv_size p then Some False else test_loop p (i - 1))"

definition sqlite3BitvecTest :: "bitvec option \<Rightarrow> nat \<Rightarrow> bool option" where
  "sqlite3BitvecTest p i = (case p of None \<Rightarrow> Some False | Some p \<Rightarrow> sqlite3BitvecTestNotNull p i)"

text \<open>The number of values each of the 62 parts takes.\<close>

definition divisor :: "nat \<Rightarrow> nat" where
  "divisor n =
    (let d = n div BITVEC_NPTR;
         d = (if n mod BITVEC_NPTR \<noteq> 0 then d + 1 else d)
     in if d < BITVEC_NBIT then BITVEC_NBIT else d)"

definition or_rc :: "rc \<Rightarrow> rc \<Rightarrow> rc" where
  "or_rc a b = (if a = SQLITE_OK then b else a)"

text \<open>Setting a bit; the first argument is fuel: a rehash calls the operation again on the same structure,
  now divided, and that calls it on a part.\<close>

fun set_loop :: "nat \<Rightarrow> bool list \<Rightarrow> bitvec \<Rightarrow> nat \<Rightarrow> (rc \<times> bitvec \<times> bool list) option"
  and set_values :: "nat \<Rightarrow> rc \<Rightarrow> bool list \<Rightarrow> bitvec \<Rightarrow> nat list \<Rightarrow> (rc \<times> bitvec \<times> bool list) option"
where
  "set_loop 0 m p i = None"
| "set_loop (Suc k) m (Divided n d subs) i =
    (let bin = i div d;
         (c, ok, m) = (case subs ! bin of Some c \<Rightarrow> (c, True, m)
                       | None \<Rightarrow> (case take_alloc m of (ok, m) \<Rightarrow> (sqlite3BitvecCreate d, ok, m)))
     in if \<not> ok then Some (SQLITE_NOMEM, Divided n d subs, m)
        else map_option (\<lambda>(rc, c, m). (rc, Divided n d (subs[bin := Some c]), m)) (set_loop k m c (i mod d)))"
| "set_loop (Suc k) m (Bitmap n a) i =
    Some (SQLITE_OK, Bitmap n (a[i div BITVEC_SZELEM := a ! (i div BITVEC_SZELEM) OR push_bit (i mod BITVEC_SZELEM) 1]), m)"
| "set_loop (Suc k) m (Hashed n c a) i =
    (case probe BITVEC_NINT a (BITVEC_HASH i) (i + 1) of
       None \<Rightarrow> None
     | Some h \<Rightarrow>
         if a ! h = i + 1 then Some (SQLITE_OK, Hashed n c a, m)
         else if (h = BITVEC_HASH i \<and> c < BITVEC_NINT - 1) \<or> c < BITVEC_MXHASH
         then Some (SQLITE_OK, Hashed n (c + 1) (a[h := i + 1]), m)
         else case take_alloc m of (ok, m) \<Rightarrow>
           (if \<not> ok then Some (SQLITE_NOMEM, Hashed n c a, m)
            else set_values k SQLITE_OK m (Divided n (divisor n) (replicate BITVEC_NPTR None)) ((i + 1) # a)))"
| "set_values k rc m p [] = Some (rc, p, m)"
| "set_values k rc m p (v # vs) =
    (if v = 0 then set_values k rc m p vs
     else case set_loop k m p (v - 1) of
            None \<Rightarrow> None
          | Some (r, p, m) \<Rightarrow> set_values k (or_rc rc r) m p vs)"

definition BITVEC_FUEL :: nat where "BITVEC_FUEL = 9"

definition sqlite3BitvecSet :: "bool list \<Rightarrow> bitvec option \<Rightarrow> nat \<Rightarrow> (rc \<times> bitvec option \<times> bool list) option" where
  "sqlite3BitvecSet m p i =
    (case p of None \<Rightarrow> Some (SQLITE_OK, None, m)
     | Some p \<Rightarrow> map_option (\<lambda>(rc, p, m). (rc, Some p, m)) (set_loop BITVEC_FUEL m p (i - 1)))"

text \<open>Clearing a bit of a hash table rebuilds it.\<close>

fun rebuild :: "nat list \<Rightarrow> nat \<Rightarrow> nat \<Rightarrow> nat list \<Rightarrow> (nat \<times> nat list) option" where
  "rebuild [] i c a = Some (c, a)"
| "rebuild (v # vs) i c a =
    (if v \<noteq> 0 \<and> v \<noteq> i + 1 then
       (case probe BITVEC_NINT a (BITVEC_HASH (v - 1)) 0 of
          None \<Rightarrow> None
        | Some h \<Rightarrow> rebuild vs i (c + 1) (a[h := v]))
     else rebuild vs i c a)"

fun clear_loop :: "bitvec \<Rightarrow> nat \<Rightarrow> bitvec option" where
  "clear_loop (Divided n d subs) i =
    (case sub_at subs (i div d) of None \<Rightarrow> Some (Divided n d subs)
     | Some p \<Rightarrow> map_option (\<lambda>p. Divided n d (subs[i div d := Some p])) (clear_loop p (i mod d)))"
| "clear_loop (Bitmap n a) i =
    Some (Bitmap n (a[i div BITVEC_SZELEM := a ! (i div BITVEC_SZELEM) AND NOT (push_bit (i mod BITVEC_SZELEM) 1)]))"
| "clear_loop (Hashed n c a) i =
    map_option (\<lambda>(c, a). Hashed n c a) (rebuild a i 0 (replicate BITVEC_NINT 0))"

definition sqlite3BitvecClear :: "bitvec option \<Rightarrow> nat \<Rightarrow> bitvec option option" where
  "sqlite3BitvecClear p i =
    (case p of None \<Rightarrow> Some None | Some p \<Rightarrow> map_option Some (clear_loop p (i - 1)))"

definition sqlite3BitvecSize :: "bitvec \<Rightarrow> nat" where
  "sqlite3BitvecSize p = bv_size p"

section \<open>The set a bitmap stands for, and its invariant\<close>

fun has_bit :: "bitvec \<Rightarrow> nat \<Rightarrow> bool" where
  "has_bit (Bitmap n a) i \<longleftrightarrow> i < n \<and> bitmap_at a i"
| "has_bit (Hashed n c a) i \<longleftrightarrow> i + 1 \<in> set a"
| "has_bit (Divided n d subs) i \<longleftrightarrow> (case sub_at subs (i div d) of None \<Rightarrow> False | Some p \<Rightarrow> has_bit p (i mod d))"

text \<open>Every value of a hash table is found by probing, and a free slot is left.\<close>

definition found :: "nat list \<Rightarrow> nat \<Rightarrow> bool" where
  "found a v \<longleftrightarrow> (case probe BITVEC_NINT a (BITVEC_HASH (v - 1)) v of None \<Rightarrow> False | Some h \<Rightarrow> a ! h = v)"

definition used :: "nat list \<Rightarrow> nat" where
  "used a = length (filter (\<lambda>v. v \<noteq> 0) a)"

definition table_ok :: "nat list \<Rightarrow> bool" where
  "table_ok a \<longleftrightarrow> length a = BITVEC_NINT \<and> list_all (\<lambda>v. v \<noteq> 0 \<longrightarrow> found a v) a"

fun bv_ok :: "bitvec \<Rightarrow> bool" where
  "bv_ok (Bitmap n a) \<longleftrightarrow> n \<le> BITVEC_NBIT \<and> length a = BITVEC_NELEM"
| "bv_ok (Hashed n c a) \<longleftrightarrow> BITVEC_NBIT < n \<and> table_ok a \<and> c = used a \<and> c < BITVEC_NINT \<and> list_all (\<lambda>v. v \<le> n) a"
| "bv_ok (Divided n d subs) \<longleftrightarrow> BITVEC_NBIT < n \<and> d = divisor n \<and> length subs = BITVEC_NPTR
     \<and> list_all (\<lambda>s. case s of None \<Rightarrow> True | Some p \<Rightarrow> bv_ok p \<and> bv_size p = d) subs"

section \<open>Probing\<close>

lemma probe_slot: "probe k a h v = Some s \<Longrightarrow> a ! s = 0 \<or> a ! s = v"
  by (induction k a h v rule: probe.induct) (auto split: if_splits)

lemma probe_range: "probe k a h v = Some s \<Longrightarrow> h < BITVEC_NINT \<Longrightarrow> s < BITVEC_NINT"
  by (induction k a h v rule: probe.induct) (auto simp: bitvec_sizes split: if_splits)

lemma probe_other:
  "probe k a h w = Some s' \<Longrightarrow> a ! s' = w \<Longrightarrow> w \<noteq> 0 \<Longrightarrow> a ! s = 0 \<Longrightarrow>
     probe k (a[s := v]) h w = Some s' \<and> a[s := v] ! s' = w"
proof (induction k a h w rule: probe.induct)
  case (2 k a h w)
  have "h \<noteq> s"
  proof
    assume "h = s"
    then have "s' = h" using "2.prems"(1,4) by simp
    then show False using "2.prems"(2,3,4) \<open>h = s\<close> by simp
  qed
  then have same: "a[s := v] ! h = a ! h" by simp
  show ?case
  proof (cases "a ! h = 0 \<or> a ! h = w")
    case True
    then show ?thesis using "2.prems" same by auto
  next
    case False
    then show ?thesis using "2.IH" "2.prems" same by simp
  qed
qed simp

lemma probe_new:
  "probe k a h u = Some s \<Longrightarrow> u = 0 \<or> u = v \<Longrightarrow> a ! s = 0 \<Longrightarrow> s < length a \<Longrightarrow>
     \<exists>s'. probe k (a[s := v]) h v = Some s' \<and> a[s := v] ! s' = v"
proof (induction k a h u rule: probe.induct)
  case (2 k a h u)
  show ?case
  proof (cases "h = s")
    case True
    then have "a[s := v] ! h = v" using "2.prems"(4) by simp
    then show ?thesis by simp
  next
    case False
    then have same: "a[s := v] ! h = a ! h" by simp
    have step: "\<not> (a ! h = 0 \<or> a ! h = u)" using "2.prems"(1,2,3) False by (auto split: if_splits)
    show ?thesis
    proof (cases "a ! h = v")
      case True
      then show ?thesis using same by simp
    next
      case False
      then show ?thesis using "2.IH" [OF step] "2.prems" step same by simp
    qed
  qed
qed simp

lemma probe_none: "probe k a h v = None \<Longrightarrow> h < BITVEC_NINT \<Longrightarrow> j < k \<Longrightarrow> a ! ((h + j) mod BITVEC_NINT) \<noteq> 0"
proof (induction k a h v arbitrary: j rule: probe.induct)
  case (2 k a h v)
  have stop: "a ! h \<noteq> 0" "probe k a ((h + 1) mod BITVEC_NINT) v = None" using "2.prems"(1) by (auto split: if_splits)
  show ?case
  proof (cases j)
    case 0
    then show ?thesis using stop(1) "2.prems"(2) by simp
  next
    case (Suc i)
    have "(h + 1) mod BITVEC_NINT < BITVEC_NINT" by (simp add: bitvec_sizes)
    then have "a ! (((h + 1) mod BITVEC_NINT + i) mod BITVEC_NINT) \<noteq> 0"
      using "2.IH" [of i] stop "2.prems"(1,3) Suc by (auto split: if_splits)
    then show ?thesis using Suc by (simp add: mod_add_left_eq)
  qed
qed simp

lemma probe_total:
  assumes "s < BITVEC_NINT" and "a ! s = 0" and "h < BITVEC_NINT"
  shows "probe BITVEC_NINT a h v \<noteq> None"
proof
  assume n: "probe BITVEC_NINT a h v = None"
  define j where "j = (if h \<le> s then s - h else s + BITVEC_NINT - h)"
  have "j < BITVEC_NINT" "(h + j) mod BITVEC_NINT = s" using assms(1,3) by (auto simp: j_def bitvec_sizes)
  then show False using probe_none [OF n assms(3), of j] assms(2) by simp
qed

lemma free_slot: "used a < BITVEC_NINT \<Longrightarrow> length a = BITVEC_NINT \<Longrightarrow> \<exists>s<BITVEC_NINT. a ! s = 0"
proof (rule ccontr)
  assume a: "used a < BITVEC_NINT" "length a = BITVEC_NINT" and "\<not> (\<exists>s<BITVEC_NINT. a ! s = 0)"
  then have "list_all (\<lambda>v. v \<noteq> 0) a" by (auto simp: list_all_length)
  then have "filter (\<lambda>v. v \<noteq> 0) a = a" by (simp add: list_all_iff filter_id_conv)
  then show False using a by (simp add: used_def)
qed

lemma hash_range: "BITVEC_HASH i < BITVEC_NINT"
  by (simp add: BITVEC_HASH_def bitvec_sizes)

lemma used_insert: "s < length a \<Longrightarrow> a ! s = 0 \<Longrightarrow> v \<noteq> 0 \<Longrightarrow> used (a[s := v]) = used a + 1"
proof -
  assume s: "s < length a" "a ! s = 0" "v \<noteq> 0"
  have "{i. i < length a \<and> a[s := v] ! i \<noteq> 0} = insert s {i. i < length a \<and> a ! i \<noteq> 0}"
    using s by (auto simp: nth_list_update)
  then show ?thesis using s by (simp add: used_def length_filter_conv_card)
qed

lemma set_insert: "s < length a \<Longrightarrow> a ! s = 0 \<Longrightarrow> w \<noteq> 0 \<Longrightarrow> w \<in> set (a[s := v]) \<longleftrightarrow> w \<in> set a \<or> w = v"
proof
  assume s: "s < length a" "a ! s = 0" "w \<noteq> 0"
  show "w \<in> set (a[s := v]) \<Longrightarrow> w \<in> set a \<or> w = v" using set_update_subset_insert [of a s v] by auto
  assume "w \<in> set a \<or> w = v"
  then show "w \<in> set (a[s := v])"
  proof
    assume "w \<in> set a"
    then obtain i where i: "i < length a" "a ! i = w" by (auto simp: in_set_conv_nth)
    then have "a[s := v] ! i = w" using s by (cases "i = s") auto
    then show ?thesis using i(1) by (auto simp: in_set_conv_nth)
  qed (use s set_update_memI in simp)
qed

lemma table_insert:
  assumes "table_ok a" and "v \<noteq> 0" and "probe BITVEC_NINT a (BITVEC_HASH (v - 1)) u = Some s" and "u = 0 \<or> u = v" and "a ! s = 0"
  shows "table_ok (a[s := v])" and "s < length a"
proof -
  have len: "length a = BITVEC_NINT" using assms(1) by (simp add: table_ok_def)
  show s: "s < length a" using probe_range [OF assms(3) hash_range] len by simp
  have old: "found (a[s := v]) w" if w: "w \<in> set a" "w \<noteq> 0" for w
  proof -
    have "found a w" using assms(1) w by (auto simp: table_ok_def list_all_iff)
    then obtain h where "probe BITVEC_NINT a (BITVEC_HASH (w - 1)) w = Some h" "a ! h = w"
      by (auto simp: found_def split: option.splits)
    from probe_other [OF this w(2) assms(5), of v] show ?thesis by (simp add: found_def)
  qed
  have new: "found (a[s := v]) v" using probe_new [OF assms(3,4,5) s] by (auto simp: found_def)
  have "found (a[s := v]) w" if "w \<in> set (a[s := v])" "w \<noteq> 0" for w
    using set_insert [OF s assms(5) that(2), of v] that(1) old [OF _ that(2)] new by auto
  then show "table_ok (a[s := v])" using len by (simp add: table_ok_def list_all_iff)
qed

lemma table_member:
  assumes "table_ok a" and "used a < BITVEC_NINT" and "v \<noteq> 0"
  obtains h where "probe BITVEC_NINT a (BITVEC_HASH (v - 1)) v = Some h" and "v \<in> set a \<longleftrightarrow> a ! h = v"
    and "v \<notin> set a \<longrightarrow> a ! h = 0" and "h < length a"
proof -
  have len: "length a = BITVEC_NINT" using assms(1) by (simp add: table_ok_def)
  obtain s where "s < BITVEC_NINT" "a ! s = 0" using free_slot [OF assms(2) len] by blast
  then obtain h where h: "probe BITVEC_NINT a (BITVEC_HASH (v - 1)) v = Some h"
    using probe_total [of s a] hash_range by blast
  have r: "h < length a" using probe_range [OF h hash_range] len by simp
  have "v \<in> set a \<longrightarrow> a ! h = v"
    using assms(1,3) h by (auto simp: table_ok_def list_all_iff found_def split: option.splits)
  then show ?thesis using that [OF h] probe_slot [OF h] r nth_mem [OF r] by metis
qed

section \<open>Testing\<close>

lemma divisor_facts:
  "BITVEC_NBIT \<le> divisor n" "n \<le> BITVEC_NPTR * divisor n" "BITVEC_NBIT < n \<Longrightarrow> divisor n < n"
proof -
  have m: "n = n div 62 * 62 + n mod 62" "n mod 62 < 62" by simp_all
  show "BITVEC_NBIT \<le> divisor n" by (simp add: divisor_def Let_def)
  show "n \<le> BITVEC_NPTR * divisor n" using m by (auto simp: divisor_def bitvec_sizes Let_def)
  show "BITVEC_NBIT < n \<Longrightarrow> divisor n < n" using m by (auto simp: divisor_def bitvec_sizes Let_def)
qed

lemma part_range: "BITVEC_NBIT < n \<Longrightarrow> i < n \<Longrightarrow> i div divisor n < BITVEC_NPTR \<and> i mod divisor n < divisor n"
proof
  assume n: "BITVEC_NBIT < n" "i < n"
  have d: "0 < divisor n" using divisor_facts(1) [of n] by (simp add: bitvec_sizes)
  show "i mod divisor n < divisor n" using d by simp
  have "i < BITVEC_NPTR * divisor n" using n(2) divisor_facts(2) [of n] by simp
  then show "i div divisor n < BITVEC_NPTR" using d by (simp add: div_less_iff_less_mult)
qed

lemma sub_ok: "bv_ok (Divided n d subs) \<Longrightarrow> sub_at subs b = Some p \<Longrightarrow> bv_ok p \<and> bv_size p = d"
  by (auto simp: sub_at_def list_all_length split: if_splits option.splits)

lemma bitvec_test_correct: "bv_ok p \<Longrightarrow> i < bv_size p \<Longrightarrow> test_loop p i = Some (has_bit p i)"
proof (induction p i rule: test_loop.induct)
  case (1 n d subs i)
  then have "i mod d < d" using part_range [of n i] by simp
  then show ?case using 1 sub_ok [OF "1.prems"(1)] by (auto split: option.splits)
next
  case (3 n c a i)
  then have "table_ok a" "used a < BITVEC_NINT" by auto
  from table_member [OF this, of "i + 1"] show ?case by auto
qed simp

section \<open>Setting\<close>

lemma bitmap_at_bit: "bitmap_at a i \<longleftrightarrow> bit (a ! (i div BITVEC_SZELEM)) (i mod BITVEC_SZELEM)"
  by (simp add: bitmap_at_def bit_iff_and_push_bit_not_eq_0)

lemma same_bit: "i div BITVEC_SZELEM = j div BITVEC_SZELEM \<and> i mod BITVEC_SZELEM = j mod BITVEC_SZELEM \<longleftrightarrow> i = j"
  by (metis div_mult_mod_eq)

lemma mod_range: "i mod BITVEC_SZELEM < LENGTH(8)"
  by (simp add: bitvec_sizes)

lemma bitmap_set:
  assumes "i div BITVEC_SZELEM < length a"
  shows "bitmap_at (a[i div BITVEC_SZELEM := a ! (i div BITVEC_SZELEM) OR push_bit (i mod BITVEC_SZELEM) 1]) j
    \<longleftrightarrow> bitmap_at a j \<or> j = i"
proof (cases "i div BITVEC_SZELEM = j div BITVEC_SZELEM")
  case True
  then show ?thesis using assms same_bit [of i j] mod_range [of j]
    by (auto simp: bitmap_at_bit bit_or_iff bit_exp_iff)
next
  case False
  then show ?thesis by (auto simp: bitmap_at_bit)
qed

lemma bitmap_clear:
  assumes "i div BITVEC_SZELEM < length a"
  shows "bitmap_at (a[i div BITVEC_SZELEM := a ! (i div BITVEC_SZELEM) AND NOT (push_bit (i mod BITVEC_SZELEM) 1)]) j
    \<longleftrightarrow> bitmap_at a j \<and> j \<noteq> i"
proof (cases "i div BITVEC_SZELEM = j div BITVEC_SZELEM")
  case True
  then show ?thesis using assms same_bit [of i j] mod_range [of j]
    by (auto simp: bitmap_at_bit bit_and_iff bit_not_iff bit_exp_iff)
next
  case False
  then show ?thesis by (auto simp: bitmap_at_bit)
qed

text \<open>The fuel a structure of a size needs.\<close>

function need :: "nat \<Rightarrow> nat" where
  "need n = (if n \<le> BITVEC_NBIT then 1 else 2 + need (divisor n))"
  by pat_completeness auto
termination
  by (relation "measure id") (use divisor_facts(3) in auto)

declare need.simps [simp del]

fun need_of :: "bitvec \<Rightarrow> nat" where
  "need_of (Divided n d subs) = 1 + need d"
| "need_of p = need (bv_size p)"

fun divided :: "bitvec \<Rightarrow> bool" where
  "divided (Divided n d subs) = True"
| "divided p = False"

lemma need_of_le: "bv_ok p \<Longrightarrow> need_of p \<le> need (bv_size p)"
proof (cases p)
  case (Divided n d subs)
  then show "bv_ok p \<Longrightarrow> need_of p \<le> need (bv_size p)" using need.simps [of n] by auto
qed simp_all

lemma need_pos: "1 \<le> need n"
  by (subst need.simps) simp

text \<open>The outcome of setting a list of bits: with a code other than OK some may be lost.\<close>

definition set_outcome :: "bitvec \<Rightarrow> nat set \<Rightarrow> bool list \<Rightarrow> (rc \<times> bitvec \<times> bool list) option \<Rightarrow> bool" where
  "set_outcome p is m r \<longleftrightarrow>
    (case r of None \<Rightarrow> False
     | Some (rc, p', m') \<Rightarrow> bv_ok p' \<and> bv_size p' = bv_size p \<and> (divided p \<longrightarrow> divided p')
         \<and> (\<forall>j. has_bit p' j \<longrightarrow> has_bit p j \<or> j \<in> is)
         \<and> (rc = SQLITE_OK \<longrightarrow> (\<forall>j. has_bit p' j \<longleftrightarrow> has_bit p j \<or> j \<in> is))
         \<and> rc \<in> {SQLITE_OK, SQLITE_NOMEM} \<and> (m = [] \<longrightarrow> rc = SQLITE_OK \<and> m' = []))"

lemma create_ok: "bv_ok (sqlite3BitvecCreate n)" "bv_size (sqlite3BitvecCreate n) = n" "\<not> has_bit (sqlite3BitvecCreate n) j"
proof -
  have at: "\<not> bitmap_at (replicate BITVEC_NELEM 0) j" if "j < BITVEC_NBIT"
    using that by (simp add: bitmap_at_def bitvec_sizes less_mult_imp_div_less)
  have "list_all (\<lambda>v. v \<noteq> 0 \<longrightarrow> found (replicate BITVEC_NINT 0) v) (replicate BITVEC_NINT 0)" by (simp add: list_all_iff)
  then show "bv_ok (sqlite3BitvecCreate n)"
    by (simp add: sqlite3BitvecCreate_def table_ok_def used_def bitvec_sizes list_all_iff)
  show "bv_size (sqlite3BitvecCreate n) = n" by (simp add: sqlite3BitvecCreate_def)
  show "\<not> has_bit (sqlite3BitvecCreate n) j" using at by (auto simp: sqlite3BitvecCreate_def)
qed

lemma divided_update:
  assumes "bv_ok (Divided n d subs)" and "b < length subs" and "bv_ok c" and "bv_size c = d"
  shows "bv_ok (Divided n d (subs[b := Some c]))"
  using assms by (auto simp: list_all_length nth_list_update)

lemma divided_bits:
  assumes "b < length subs"
  shows "has_bit (Divided n d (subs[b := Some c])) j \<longleftrightarrow>
    (if j div d = b then has_bit c (j mod d) else has_bit (Divided n d subs) j)"
  using assms by (auto simp: sub_at_def)

lemma part_of: "0 < d \<Longrightarrow> j div d = i div d \<and> j mod d = i mod d \<longleftrightarrow> j = i" for d i j :: nat
  by (metis div_mult_mod_eq)

lemma set_divided:
  assumes ok: "bv_ok (Divided n d subs)" and i: "i < n"
    and c: "case subs ! (i div d) of Some c' \<Rightarrow> c = c' | None \<Rightarrow> c = sqlite3BitvecCreate d"
    and r: "set_outcome c {i mod d} m (Some (rc, c', m'))"
  shows "set_outcome (Divided n d subs) {i} m (Some (rc, Divided n d (subs[i div d := Some c']), m'))"
proof -
  have d: "0 < d" using ok divisor_facts(1) [of n] by (auto simp: bitvec_sizes)
  have b: "i div d < length subs" using ok i part_range [of n i] by auto
  have child: "has_bit c j \<longleftrightarrow> (case sub_at subs (i div d) of None \<Rightarrow> False | Some p \<Rightarrow> has_bit p j)" for j
    using c b create_ok(3) by (auto simp: sub_at_def split: option.splits)
  have size: "bv_size c = d"
    using c ok b create_ok(2) by (auto simp: list_all_length split: option.splits)
  have o: "bv_ok c'" "bv_size c' = bv_size c" "\<And>j. has_bit c' j \<Longrightarrow> has_bit c j \<or> j = i mod d"
      "rc = SQLITE_OK \<Longrightarrow> has_bit c' j \<longleftrightarrow> has_bit c j \<or> j = i mod d" for j
    using r by (auto simp: set_outcome_def)
  let ?q = "Divided n d (subs[i div d := Some c'])"
  have whole: "has_bit (Divided n d subs) j \<longleftrightarrow> has_bit c (j mod d)" if "j div d = i div d" for j
    using child [of "j mod d"] that by simp
  have "has_bit ?q j \<Longrightarrow> has_bit (Divided n d subs) j \<or> j = i" for j
    using divided_bits [OF b, of n d c' j] whole [of j] o(3) [of "j mod d"] part_of [OF d, of j i]
    by (auto split: if_splits)
  moreover have "rc = SQLITE_OK \<Longrightarrow> has_bit ?q j \<longleftrightarrow> has_bit (Divided n d subs) j \<or> j = i" for j
    using divided_bits [OF b, of n d c' j] whole [of j] o(4) [of "j mod d"] part_of [OF d, of j i]
    by (auto split: if_splits)
  moreover have "bv_ok ?q" using divided_update [OF ok b o(1)] o(2) size by (simp del: bv_ok.simps)
  ultimately show ?thesis using r by (auto simp: set_outcome_def simp del: has_bit.simps bv_ok.simps)
qed

lemma or_rc_simps: "or_rc a b = SQLITE_OK \<longleftrightarrow> a = SQLITE_OK \<and> b = SQLITE_OK" "or_rc (or_rc a b) c = or_rc a (or_rc b c)"
    "or_rc SQLITE_OK b = b" "or_rc a SQLITE_OK = a"
  by (auto simp: or_rc_def)

lemma outcome_then:
  assumes "set_outcome p is m (Some (r, q, m1))" and "set_outcome q js m1 (Some (r2, q2, m2))"
  shows "set_outcome p (is \<union> js) m (Some (or_rc r r2, q2, m2))"
proof -
  have "or_rc r r2 \<in> {SQLITE_OK, SQLITE_NOMEM}" using assms by (auto simp: set_outcome_def or_rc_def)
  then show ?thesis using assms by (auto simp: set_outcome_def or_rc_simps)
qed

lemma fresh_divided:
  assumes "BITVEC_NBIT < n" defines "q \<equiv> Divided n (divisor n) (replicate BITVEC_NPTR None)"
  shows "bv_ok q" "\<not> has_bit q j" "need_of q + 1 = need n"
proof -
  show "bv_ok q" using assms by (simp add: list_all_iff)
  show "\<not> has_bit q j" using assms by (simp add: sub_at_def)
  show "need_of q + 1 = need n" using assms need.simps [of n] by simp
qed

lemma set_hashed:
  assumes "bv_ok (Hashed n c a)" and "probe BITVEC_NINT a (BITVEC_HASH i) (i + 1) = Some h" and "a ! h \<noteq> i + 1"
    and "c < BITVEC_NINT - 1" and "i < n"
  shows "set_outcome (Hashed n c a) {i} m (Some (SQLITE_OK, Hashed n (c + 1) (a[h := i + 1]), m))"
proof -
  have t: "table_ok a" "used a = c" "list_all (\<lambda>v. v \<le> n) a" "BITVEC_NBIT < n" using assms(1) by auto
  have free: "a ! h = 0" using probe_slot [OF assms(2)] assms(3) by simp
  have p: "probe BITVEC_NINT a (BITVEC_HASH (i + 1 - 1)) (i + 1) = Some h" using assms(2) by simp
  have ins: "table_ok (a[h := i + 1])" "h < length a" using table_insert [OF t(1) _ p _ free] by simp_all
  have "list_all (\<lambda>v. v \<le> n) (a[h := i + 1])"
    using t(3) assms(5) set_update_subset_insert [of a h "i + 1"] by (fastforce simp: list_all_iff)
  moreover have "used (a[h := i + 1]) = c + 1" using used_insert [OF ins(2) free, of "i + 1"] t(2) by simp
  ultimately show ?thesis using ins(1) t(4) assms(4) set_insert [OF ins(2) free, of "j + 1" "i + 1" for j]
    by (auto simp: set_outcome_def)
qed

lemma set_correct:
  "bv_ok p \<Longrightarrow> i < bv_size p \<Longrightarrow> need_of p \<le> k \<Longrightarrow> set_outcome p {i} m (set_loop k m p i)"
  "bv_ok p \<Longrightarrow> divided p \<Longrightarrow> (\<forall>v\<in>set vs. v \<le> bv_size p) \<Longrightarrow> need_of p \<le> k \<Longrightarrow>
     \<exists>r p' m'. set_values k rc m p vs = Some (or_rc rc r, p', m') \<and> set_outcome p {j. j + 1 \<in> set vs} m (Some (r, p', m'))"
proof (induction k m p i and k rc m p vs rule: set_loop_set_values.induct)
  case (1 m p i)
  then show ?case using need_pos [of "bv_size p"] by (cases p) (auto simp: need_pos)
next
  case (2 k m n d subs i)
  obtain c ok m1 where c: "(case subs ! (i div d) of Some c \<Rightarrow> (c, True, m)
      | None \<Rightarrow> (case take_alloc m of (ok, m) \<Rightarrow> (sqlite3BitvecCreate d, ok, m))) = (c, ok, m1)" by (metis prod_cases3)
  have m1: "m = [] \<longrightarrow> ok \<and> m1 = []" using c by (auto split: option.splits)
  have b: "i div d < length subs" using "2.prems"(1,2) part_range [of n i] by auto
  have cc: "case subs ! (i div d) of Some c' \<Rightarrow> c = c' | None \<Rightarrow> c = sqlite3BitvecCreate d"
    using c by (auto split: option.splits prod.splits)
  have d: "d = divisor n" "BITVEC_NBIT < n" using "2.prems"(1) by auto
  have cok: "bv_ok c" "bv_size c = d"
    using cc "2.prems"(1) b create_ok by (auto simp: list_all_length split: option.splits)
  show ?case
  proof (cases ok)
    case False
    then show ?thesis using c m1 "2.prems"(1) by (auto simp: set_outcome_def)
  next
    case True
    have "i mod d < d" using part_range [OF d(2), of i] "2.prems"(2) d(1) by simp
    then have "set_outcome c {i mod d} m1 (set_loop k m1 c (i mod d))"
      using "2.IH" [OF refl c [symmetric]] True cok need_of_le [OF cok(1)] "2.prems"(3) by simp
    moreover obtain rc c' m' where l: "set_loop k m1 c (i mod d) = Some (rc, c', m')"
      using calculation by (cases "set_loop k m1 c (i mod d)") (auto simp: set_outcome_def)
    ultimately have "set_outcome c {i mod d} m (Some (rc, c', m'))" using m1 by (auto simp: set_outcome_def)
    from set_divided [OF "2.prems"(1) _ cc this] show ?thesis using "2.prems"(2) c True l by simp
  qed
next
  case (3 k m n a i)
  then have "i div BITVEC_SZELEM < length a" by (auto simp: bitvec_sizes less_mult_imp_div_less)
  then show ?case using 3 bitmap_set [of i a] by (auto simp: set_outcome_def)
next
  case (4 k m n c a i)
  have t: "table_ok a" "used a < BITVEC_NINT" "c = used a" "BITVEC_NBIT < n" "list_all (\<lambda>v. v \<le> n) a"
    using "4.prems"(1) by auto
  obtain h where h: "probe BITVEC_NINT a (BITVEC_HASH i) (i + 1) = Some h" "i + 1 \<in> set a \<longleftrightarrow> a ! h = i + 1"
    using table_member [OF t(1,2), of "i + 1"] by auto
  show ?case
  proof (cases "a ! h = i + 1")
    case True
    then show ?thesis using h "4.prems"(1) by (auto simp: set_outcome_def)
  next
    case miss: False
    show ?thesis
    proof (cases "(h = BITVEC_HASH i \<and> c < BITVEC_NINT - 1) \<or> c < BITVEC_MXHASH")
      case True
      then have "c < BITVEC_NINT - 1" by (auto simp: bitvec_sizes)
      then show ?thesis using set_hashed [OF "4.prems"(1) h(1) miss] "4.prems"(2) True miss h(1) by simp
    next
      case False
      obtain ok m1 where m1: "take_alloc m = (ok, m1)" by fastforce
      show ?thesis
      proof (cases ok)
        case nomem: False
        then have "set_outcome (Hashed n c a) {i} m (Some (SQLITE_NOMEM, Hashed n c a, m1))"
          using m1 "4.prems"(1) by (auto simp: set_outcome_def)
        moreover have "set_loop (Suc k) m (Hashed n c a) i = Some (SQLITE_NOMEM, Hashed n c a, m1)"
          using h(1) miss m1 nomem
          by (simp only: set_loop.simps option.case if_False if_True not_False_eq_True prod.case if_not_P [OF False])
        ultimately show ?thesis by (simp only:)
      next
        case True
        let ?q = "Divided n (divisor n) (replicate BITVEC_NPTR None)"
        note q = fresh_divided [OF t(4)]
        have "\<forall>v\<in>set ((i + 1) # a). v \<le> bv_size ?q" using t(5) "4.prems"(2) by (simp add: list_all_iff)
        moreover have "need_of ?q \<le> k" using q(3) "4.prems"(3) by simp
        ultimately obtain r p' m' where
          s: "set_values k SQLITE_OK m1 ?q ((i + 1) # a) = Some (or_rc SQLITE_OK r, p', m')"
          "set_outcome ?q {j. j + 1 \<in> set ((i + 1) # a)} m1 (Some (r, p', m'))"
          using "4.IH" [OF h(1) miss False m1 [symmetric] not_not [THEN iffD2, OF True]] q(1)
          by (metis divided.simps(1))
        have "m = [] \<longrightarrow> m1 = []" using m1 by auto
        then have "set_outcome (Hashed n c a) {i} m (Some (r, p', m'))"
          using s(2) q(2) by (auto simp: set_outcome_def simp del: has_bit.simps(3) bv_ok.simps)
        moreover have "set_loop (Suc k) m (Hashed n c a) i = Some (r, p', m')"
          using h(1) miss m1 True s(1)
          by (simp only: set_loop.simps option.case if_False not_not if_not_P not_False_eq_True prod.case if_not_P [OF False]
              or_rc_simps not_True_eq_False)
        ultimately show ?thesis by (simp only:)
      qed
    qed
  qed
next
  case (5 k rc m p)
  then show ?case by (intro exI [of _ SQLITE_OK]) (simp add: or_rc_simps set_outcome_def)
next
  case (6 k rc m p v vs)
  show ?case
  proof (cases "v = 0")
    case True
    then show ?thesis using 6 by simp
  next
    case False
    have "v - 1 < bv_size p" using "6.prems"(3) False by auto
    then have "set_outcome p {v - 1} m (set_loop k m p (v - 1))" using "6.IH"(2) [OF False "6.prems"(1)] "6.prems"(4) by simp
    then obtain r1 q m1 where l: "set_loop k m p (v - 1) = Some (r1, q, m1)"
        and o: "set_outcome p {v - 1} m (Some (r1, q, m1))"
      by (cases "set_loop k m p (v - 1)") (auto simp: set_outcome_def)
    have q: "bv_ok q" "bv_size q = bv_size p" "divided q" using o "6.prems"(2) by (auto simp: set_outcome_def)
    have "need_of q = need_of p" using q "6.prems"(1,2) by (cases p; cases q) auto
    then obtain r2 p' m' where v: "set_values k (or_rc rc r1) m1 q vs = Some (or_rc (or_rc rc r1) r2, p', m')"
        "set_outcome q {j. j + 1 \<in> set vs} m1 (Some (r2, p', m'))"
      using "6.IH"(3) [OF False l refl refl] q "6.prems"(3,4) by auto
    have "{v - 1} \<union> {j. j + 1 \<in> set vs} = {j. j + 1 \<in> set (v # vs)}" using False by auto
    then have "set_outcome p {j. j + 1 \<in> set (v # vs)} m (Some (or_rc r1 r2, p', m'))"
      using outcome_then [OF o v(2)] by simp
    then show ?thesis using False l v(1) by (auto simp: or_rc_simps)
  qed
qed


text \<open>The fuel is enough for every size of 32 bits.\<close>

lemma divisor_mono:
  assumes "n \<le> m"
  shows "divisor n \<le> divisor m"
proof -
  define q r q' r' where "q = n div 62" and "r = n mod 62" and "q' = m div 62" and "r' = m mod 62"
  have "62 * q + r \<le> 62 * q' + r'" "r' < 62" using assms by (simp_all add: q_def r_def q'_def r'_def)
  then show ?thesis
    unfolding divisor_def bitvec_sizes q_def [symmetric] r_def [symmetric] q'_def [symmetric] r'_def [symmetric]
    by (auto simp: Let_def)
qed

lemma need_mono: "n \<le> m \<Longrightarrow> need n \<le> need m"
proof (induction m arbitrary: n rule: need.induct)
  case (1 m)
  show ?case
  proof (cases "n \<le> BITVEC_NBIT")
    case True
    then show ?thesis using need_pos [of m] by (simp add: need.simps [of n])
  next
    case False
    then show ?thesis using 1 divisor_mono [OF "1.prems"] by (simp add: need.simps [of n] need.simps [of m])
  qed
qed

lemma fuel_enough: "n < 2 ^ 32 \<Longrightarrow> need n \<le> BITVEC_FUEL"
proof -
  have "need 4294967295 = 9"
    by (simp add: need.simps [of 4294967295] need.simps [of 69273667] need.simps [of 1117318] need.simps [of 18022]
        need.simps [of 3968] divisor_def bitvec_sizes Let_def)
  then show "n < 2 ^ 32 \<Longrightarrow> need n \<le> BITVEC_FUEL" using need_mono [of n 4294967295] by (simp add: BITVEC_FUEL_def)
qed

section \<open>Clearing\<close>

lemma rebuild_correct:
  "table_ok a \<Longrightarrow> used a = c \<Longrightarrow> c + used vs < BITVEC_NINT \<Longrightarrow>
     \<exists>c' a'. rebuild vs i c a = Some (c', a') \<and> table_ok a' \<and> used a' = c' \<and> c' < BITVEC_NINT
       \<and> (\<forall>w. w \<noteq> 0 \<longrightarrow> (w \<in> set a' \<longleftrightarrow> w \<in> set a \<or> w \<in> set vs \<and> w \<noteq> i + 1))"
proof (induction vs i c a rule: rebuild.induct)
  case (2 v vs i c a)
  show ?case
  proof (cases "v \<noteq> 0 \<and> v \<noteq> i + 1")
    case False
    then have "c + used vs < BITVEC_NINT" using "2.prems"(3) by (auto simp: used_def split: if_splits)
    then show ?thesis using "2.IH"(2) [OF False] "2.prems"(1,2) False by auto
  next
    case True
    have len: "length a = BITVEC_NINT" using "2.prems"(1) by (simp add: table_ok_def)
    have room: "c + 1 + used vs < BITVEC_NINT" using "2.prems"(3) True by (simp add: used_def)
    then obtain s where "s < BITVEC_NINT" "a ! s = 0" using free_slot [OF _ len] "2.prems"(2) by auto
    then obtain h where h: "probe BITVEC_NINT a (BITVEC_HASH (v - 1)) 0 = Some h"
      using probe_total [of s a] hash_range by blast
    have free: "a ! h = 0" using probe_slot [OF h] by simp
    have ins: "table_ok (a[h := v])" "h < length a" using table_insert [OF "2.prems"(1) _ h _ free] True by simp_all
    have "used (a[h := v]) = c + 1" using used_insert [OF ins(2) free] True "2.prems"(2) by simp
    from "2.IH"(1) [OF True h ins(1) this room] show ?thesis
      using h True set_insert [OF ins(2) free] by auto
  qed
qed auto

lemma empty_table: "table_ok (replicate BITVEC_NINT 0)" "used (replicate BITVEC_NINT 0) = 0"
  by (simp_all add: table_ok_def list_all_iff used_def)

lemma clear_hashed:
  assumes "bv_ok (Hashed n c a)"
  obtains c' a' where "rebuild a i 0 (replicate BITVEC_NINT 0) = Some (c', a')" and "bv_ok (Hashed n c' a')"
    and "\<And>w. w + 1 \<in> set a' \<longleftrightarrow> w + 1 \<in> set a \<and> w \<noteq> i"
proof -
  have "0 + used a < BITVEC_NINT" using assms by simp
  from rebuild_correct [OF empty_table this, of i]
  obtain c' a' where r: "rebuild a i 0 (replicate BITVEC_NINT 0) = Some (c', a')"
      and ok: "table_ok a'" "used a' = c'" "c' < BITVEC_NINT"
      and mem: "w \<in> set a' \<longleftrightarrow> w \<in> set a \<and> w \<noteq> i + 1" if "w \<noteq> 0" for w
    by auto
  have "w \<le> n" if "w \<in> set a'" for w using mem [of w] that assms by (cases "w = 0") (auto simp: list_all_iff)
  then have "bv_ok (Hashed n c' a')" using ok assms by (auto simp: list_all_iff)
  moreover have "w + 1 \<in> set a' \<longleftrightarrow> w + 1 \<in> set a \<and> w \<noteq> i" for w using mem [of "w + 1"] by simp
  ultimately show ?thesis using that [OF r] by blast
qed

lemma clear_correct:
  "bv_ok p \<Longrightarrow> i < bv_size p \<Longrightarrow>
     \<exists>p'. clear_loop p i = Some p' \<and> bv_ok p' \<and> bv_size p' = bv_size p \<and> (\<forall>j. has_bit p' j \<longleftrightarrow> has_bit p j \<and> j \<noteq> i)"
proof (induction p i rule: clear_loop.induct)
  case (1 n d subs i)
  have d: "0 < d" using "1.prems"(1) divisor_facts(1) [of n] by (auto simp: bitvec_sizes)
  have b: "i div d < length subs" "i mod d < d" using "1.prems" part_range [of n i] by auto
  show ?case
  proof (cases "sub_at subs (i div d)")
    case None
    then show ?thesis using "1.prems"(1) by auto
  next
    case (Some c)
    have c: "bv_ok c" "bv_size c = d" using sub_ok [OF "1.prems"(1) Some] by auto
    then obtain c' where c': "clear_loop c (i mod d) = Some c'" "bv_ok c'" "bv_size c' = d"
        "\<And>j. has_bit c' j \<longleftrightarrow> has_bit c j \<and> j \<noteq> i mod d"
      using "1.IH" [OF Some] b(2) by auto
    let ?q = "Divided n d (subs[i div d := Some c'])"
    have "has_bit ?q j \<longleftrightarrow> has_bit (Divided n d subs) j \<and> j \<noteq> i" for j
      using divided_bits [OF b(1), of n d c' j] c'(4) [of "j mod d"] Some part_of [OF d, of j i] by auto
    moreover have "bv_ok ?q" using divided_update [OF "1.prems"(1) b(1) c'(2,3)] .
    ultimately show ?thesis using Some c'(1) by (simp del: has_bit.simps bv_ok.simps)
  qed
next
  case (2 n a i)
  then have "i div BITVEC_SZELEM < length a" by (auto simp: bitvec_sizes less_mult_imp_div_less)
  then show ?case using 2 bitmap_clear [of i a] by auto
next
  case (3 n c a i)
  obtain c' a' where r: "rebuild a i 0 (replicate BITVEC_NINT 0) = Some (c', a')" "bv_ok (Hashed n c' a')"
      "\<And>w. w + 1 \<in> set a' \<longleftrightarrow> w + 1 \<in> set a \<and> w \<noteq> i"
    using clear_hashed [OF "3.prems"(1)] by metis
  then show ?case by (auto simp del: bv_ok.simps)
qed

section \<open>The interface of the pager\<close>

definition bits :: "bitvec \<Rightarrow> nat set" where
  "bits p = {i. 0 < i \<and> i \<le> bv_size p \<and> has_bit p (i - 1)}"

lemma pred_eq: "0 < j \<Longrightarrow> 0 < i \<Longrightarrow> j - 1 = i - 1 \<longleftrightarrow> j = i" for i j :: nat
  by auto

lemma test_bits: "bv_ok p \<Longrightarrow> sqlite3BitvecTest (Some p) i = Some (i \<in> bits p)"
proof (cases "i = 0 \<or> bv_size p \<le> i - 1")
  case False
  moreover assume "bv_ok p"
  ultimately show ?thesis using bitvec_test_correct [of p "i - 1"]
    by (auto simp: sqlite3BitvecTest_def sqlite3BitvecTestNotNull_def bits_def)
qed (auto simp: sqlite3BitvecTest_def sqlite3BitvecTestNotNull_def bits_def)

lemma set_bits:
  assumes "bv_ok p" and "bv_size p < 2 ^ 32" and "0 < i" and "i \<le> bv_size p"
  obtains rc p' m' where "sqlite3BitvecSet m (Some p) i = Some (rc, Some p', m')"
    and "bv_ok p'" and "bv_size p' = bv_size p" and "bits p' \<subseteq> insert i (bits p)"
    and "rc = SQLITE_OK \<Longrightarrow> bits p' = insert i (bits p)"
    and "rc = SQLITE_OK \<or> rc = SQLITE_NOMEM" and "m = [] \<Longrightarrow> rc = SQLITE_OK \<and> m' = []"
proof -
  have "need_of p \<le> BITVEC_FUEL" using need_of_le [OF assms(1)] fuel_enough [OF assms(2)] by simp
  moreover have "i - 1 < bv_size p" using assms(3,4) by simp
  ultimately have "set_outcome p {i - 1} m (set_loop BITVEC_FUEL m p (i - 1))" using set_correct(1) assms(1) by blast
  then obtain rc p' m' where l: "set_loop BITVEC_FUEL m p (i - 1) = Some (rc, p', m')"
      and o: "set_outcome p {i - 1} m (Some (rc, p', m'))"
    by (cases "set_loop BITVEC_FUEL m p (i - 1)") (auto simp: set_outcome_def)
  have "sqlite3BitvecSet m (Some p) i = Some (rc, Some p', m')" using l by (simp add: sqlite3BitvecSet_def)
  moreover have "bits p' \<subseteq> insert i (bits p)"
  proof
    fix j assume j: "j \<in> bits p'"
    then have "has_bit p (j - 1) \<or> j - 1 = i - 1" using o by (auto simp: set_outcome_def bits_def)
    then show "j \<in> insert i (bits p)" using j o pred_eq [of j i] assms(3) by (auto simp: set_outcome_def bits_def)
  qed
  moreover have "bits p' = insert i (bits p)" if "rc = SQLITE_OK"
  proof (rule set_eqI)
    fix j
    have "has_bit p' (j - 1) \<longleftrightarrow> has_bit p (j - 1) \<or> j - 1 = i - 1" "bv_size p' = bv_size p"
      using o that by (auto simp: set_outcome_def)
    then show "j \<in> bits p' \<longleftrightarrow> j \<in> insert i (bits p)" using pred_eq [of j i] assms(3,4) by (auto simp: bits_def)
  qed
  moreover have "bv_ok p'" "bv_size p' = bv_size p" "rc = SQLITE_OK \<or> rc = SQLITE_NOMEM" "m = [] \<Longrightarrow> rc = SQLITE_OK \<and> m' = []"
    using o by (auto simp: set_outcome_def)
  ultimately show ?thesis using that by blast
qed

lemma clear_bits:
  assumes "bv_ok p" and "0 < i" and "i \<le> bv_size p"
  obtains p' where "sqlite3BitvecClear (Some p) i = Some (Some p')" and "bv_ok p'" and "bv_size p' = bv_size p"
    and "bits p' = bits p - {i}"
proof -
  have "i - 1 < bv_size p" using assms(2,3) by simp
  then obtain p' where p': "clear_loop p (i - 1) = Some p'" "bv_ok p'" "bv_size p' = bv_size p"
      "\<And>j. has_bit p' j \<longleftrightarrow> has_bit p j \<and> j \<noteq> i - 1"
    using clear_correct [OF assms(1)] by metis
  have "bits p' = bits p - {i}"
  proof (rule set_eqI)
    fix j
    show "j \<in> bits p' \<longleftrightarrow> j \<in> bits p - {i}" using p'(3) p'(4) [of "j - 1"] pred_eq [of j i] assms(2) by (auto simp: bits_def)
  qed
  moreover have "sqlite3BitvecClear (Some p) i = Some (Some p')" using p'(1) by (simp add: sqlite3BitvecClear_def)
  ultimately show ?thesis using that p'(2,3) by blast
qed

end
