(* ===== verification/BitvecTest.thy ===== *)
theory BitvecTest
  imports Bitvec
begin

text \<open>
  A bitmap as its users see it, an interface of test, set and clear, and SQLite's own check of it
  (\<open>sqlite3BitvecBuiltinTest\<close>, \<open>bitvec.c\<close>): a program of opcodes is run on a bitmap and on a linear
  array of bits, which are compared at the end.  Both are instances of the interface.
\<close>

section \<open>The interface\<close>

datatype bit_update = Put nat | Del nat

fun update_at :: "bit_update \<Rightarrow> nat" where
  "update_at (Put i) = i"
| "update_at (Del i) = i"

fun updates :: "('s \<Rightarrow> nat \<Rightarrow> 's option) \<Rightarrow> ('s \<Rightarrow> nat \<Rightarrow> 's option) \<Rightarrow> bit_update list \<Rightarrow> 's \<Rightarrow> 's option" where
  "updates put del [] s = Some s"
| "updates put del (Put i # us) s = (case put s i of None \<Rightarrow> None | Some s \<Rightarrow> updates put del us s)"
| "updates put del (Del i # us) s = (case del s i of None \<Rightarrow> None | Some s \<Rightarrow> updates put del us s)"

fun replay :: "bit_update list \<Rightarrow> nat set \<Rightarrow> nat set" where
  "replay [] B = B"
| "replay (Put i # us) B = replay us (insert i B)"
| "replay (Del i # us) B = replay us (B - {i})"

locale bit_set =
  fixes ok :: "'s \<Rightarrow> bool" and top :: "'s \<Rightarrow> nat" and test :: "'s \<Rightarrow> nat \<Rightarrow> bool option"
    and put :: "'s \<Rightarrow> nat \<Rightarrow> 's option" and del :: "'s \<Rightarrow> nat \<Rightarrow> 's option" and elems :: "'s \<Rightarrow> nat set"
  assumes test_law: "ok s \<Longrightarrow> 0 < i \<Longrightarrow> i \<le> top s \<Longrightarrow> test s i = Some (i \<in> elems s)"
    and put_law: "ok s \<Longrightarrow> 0 < i \<Longrightarrow> i \<le> top s \<Longrightarrow>
      \<exists>s'. put s i = Some s' \<and> ok s' \<and> top s' = top s \<and> elems s' = insert i (elems s)"
    and del_law: "ok s \<Longrightarrow> 0 < i \<Longrightarrow> i \<le> top s \<Longrightarrow>
      \<exists>s'. del s i = Some s' \<and> ok s' \<and> top s' = top s \<and> elems s' = elems s - {i}"
begin

lemma updates_law:
  "ok s \<Longrightarrow> \<forall>u\<in>set us. 0 < update_at u \<and> update_at u \<le> top s \<Longrightarrow>
     \<exists>s'. updates put del us s = Some s' \<and> ok s' \<and> top s' = top s \<and> elems s' = replay us (elems s)"
proof (induction us arbitrary: s)
  case (Cons u us)
  show ?case
  proof (cases u)
    case (Put i)
    then obtain t where "put s i = Some t" "ok t" "top t = top s" "elems t = insert i (elems s)"
      using put_law [of s i] Cons.prems by auto
    then show ?thesis using Cons.IH [of t] Cons.prems(2) Put by simp
  next
    case (Del i)
    then obtain t where "del s i = Some t" "ok t" "top t = top s" "elems t = elems s - {i}"
      using del_law [of s i] Cons.prems by auto
    then show ?thesis using Cons.IH [of t] Cons.prems(2) Del by simp
  qed
qed simp

lemma updates_test:
  assumes "ok s" and "\<forall>u\<in>set us. 0 < update_at u \<and> update_at u \<le> top s" and "0 < i" and "i \<le> top s"
  shows "\<exists>s'. updates put del us s = Some s' \<and> test s' i = Some (i \<in> replay us (elems s))"
  using updates_law [OF assms(1,2)] test_law assms(3,4) by metis

end

text \<open>Two implementations that are kept in step answer alike.\<close>

locale bit_sets = impl: bit_set ok top test put del elems + ref: bit_set ok' top' test' put' del' elems'
  for ok :: "'s \<Rightarrow> bool" and top and test and put and del and elems
    and ok' :: "'t \<Rightarrow> bool" and top' and test' and put' and del' and elems'
begin

definition agree :: "'s \<Rightarrow> 't \<Rightarrow> bool" where
  "agree s t \<longleftrightarrow> ok s \<and> ok' t \<and> top s = top' t \<and> elems s = elems' t"

lemma agree_test: "agree s t \<Longrightarrow> 0 < i \<Longrightarrow> i \<le> top s \<Longrightarrow> test s i = test' t i"
  using impl.test_law [of s i] ref.test_law [of t i] by (simp add: agree_def)

lemma agree_put:
  "agree s t \<Longrightarrow> 0 < i \<Longrightarrow> i \<le> top s \<Longrightarrow> \<exists>s' t'. put s i = Some s' \<and> put' t i = Some t' \<and> agree s' t' \<and> top s' = top s"
  using impl.put_law [of s i] ref.put_law [of t i] unfolding agree_def by metis

lemma agree_del:
  "agree s t \<Longrightarrow> 0 < i \<Longrightarrow> i \<le> top s \<Longrightarrow> \<exists>s' t'. del s i = Some s' \<and> del' t i = Some t' \<and> agree s' t' \<and> top s' = top s"
  using impl.del_law [of s i] ref.del_law [of t i] unfolding agree_def by metis

end

section \<open>The bitmap is an instance\<close>

definition bv_ready :: "bitvec \<Rightarrow> bool" where
  "bv_ready p \<longleftrightarrow> bv_ok p \<and> bv_size p < 2 ^ 32"

text \<open>Setting while memory lasts.\<close>

definition bv_put :: "bitvec \<Rightarrow> nat \<Rightarrow> bitvec option" where
  "bv_put p i = (case sqlite3BitvecSet [] (Some p) i of
     None \<Rightarrow> None | Some (rc, p', m) \<Rightarrow> if rc = SQLITE_OK then p' else None)"

definition bv_del :: "bitvec \<Rightarrow> nat \<Rightarrow> bitvec option" where
  "bv_del p i = (case sqlite3BitvecClear (Some p) i of None \<Rightarrow> None | Some p' \<Rightarrow> p')"

interpretation bv: bit_set bv_ready bv_size "\<lambda>p. sqlite3BitvecTest (Some p)" bv_put bv_del bits
proof
  fix p i assume p: "bv_ready p" "0 < i" "i \<le> bv_size p"
  then have ok: "bv_ok p" "bv_size p < 2 ^ 32" by (auto simp: bv_ready_def)
  show "sqlite3BitvecTest (Some p) i = Some (i \<in> bits p)" by (rule test_bits [OF ok(1)])
  show "\<exists>s'. bv_put p i = Some s' \<and> bv_ready s' \<and> bv_size s' = bv_size p \<and> bits s' = insert i (bits p)"
    by (rule set_bits [OF ok p(2,3), where m = "[]"]) (use ok(2) in \<open>auto simp: bv_put_def bv_ready_def\<close>)
  show "\<exists>s'. bv_del p i = Some s' \<and> bv_ready s' \<and> bv_size s' = bv_size p \<and> bits s' = bits p - {i}"
    by (rule clear_bits [OF ok(1) p(2,3)]) (use ok(2) in \<open>auto simp: bv_del_def bv_ready_def\<close>)
qed

section \<open>The linear array\<close>

definition SETBIT :: "u8 list \<Rightarrow> nat \<Rightarrow> u8 list" where
  "SETBIT V i = V[i div 8 := V ! (i div 8) OR push_bit (i mod 8) 1]"

definition CLEARBIT :: "u8 list \<Rightarrow> nat \<Rightarrow> u8 list" where
  "CLEARBIT V i = V[i div 8 := V ! (i div 8) AND NOT (push_bit (i mod 8) 1)]"

definition TESTBIT :: "u8 list \<Rightarrow> nat \<Rightarrow> bool" where
  "TESTBIT V i \<longleftrightarrow> V ! (i div 8) AND push_bit (i mod 8) 1 \<noteq> 0"

lemma array_bit: "TESTBIT V i = bitmap_at V i"
  by (simp add: TESTBIT_def bitmap_at_def BITVEC_SZELEM_def)

lemma array_set: "i div 8 < length V \<Longrightarrow> TESTBIT (SETBIT V i) j \<longleftrightarrow> TESTBIT V j \<or> j = i"
  using bitmap_set [of i V j] by (simp add: array_bit SETBIT_def BITVEC_SZELEM_def)

lemma array_clear: "i div 8 < length V \<Longrightarrow> TESTBIT (CLEARBIT V i) j \<longleftrightarrow> TESTBIT V j \<and> j \<noteq> i"
  using bitmap_clear [of i V j] by (simp add: array_bit CLEARBIT_def BITVEC_SZELEM_def)

text \<open>An array with the number of its bits.\<close>

definition arr_ok :: "nat \<times> u8 list \<Rightarrow> bool" where
  "arr_ok a = (length (snd a) = (7 + fst a) div 8 + 1)"

definition arr_elems :: "nat \<times> u8 list \<Rightarrow> nat set" where
  "arr_elems a = {i. 0 < i \<and> i \<le> fst a \<and> TESTBIT (snd a) i}"

lemma arr_index: "arr_ok a \<Longrightarrow> i \<le> fst a \<Longrightarrow> i div 8 < length (snd a)"
proof -
  assume "arr_ok a" "i \<le> fst a"
  moreover have "i div 8 \<le> (7 + fst a) div 8" using \<open>i \<le> fst a\<close> by (simp add: div_le_mono)
  ultimately show ?thesis by (simp add: arr_ok_def)
qed

interpretation arr: bit_set arr_ok fst "\<lambda>a i. Some (TESTBIT (snd a) i)"
  "\<lambda>a i. Some (fst a, SETBIT (snd a) i)" "\<lambda>a i. Some (fst a, CLEARBIT (snd a) i)" arr_elems
proof
  fix a :: "nat \<times> u8 list" and i assume a: "arr_ok a" "0 < i" "i \<le> fst a"
  have ix: "i div 8 < length (snd a)" using arr_index a by blast
  show "Some (TESTBIT (snd a) i) = Some (i \<in> arr_elems a)" using a by (simp add: arr_elems_def)
  show "\<exists>s'. Some (fst a, SETBIT (snd a) i) = Some s' \<and> arr_ok s' \<and> fst s' = fst a \<and> arr_elems s' = insert i (arr_elems a)"
    using a array_set [OF ix] by (auto simp: arr_elems_def arr_ok_def SETBIT_def)
  show "\<exists>s'. Some (fst a, CLEARBIT (snd a) i) = Some s' \<and> arr_ok s' \<and> fst s' = fst a \<and> arr_elems s' = arr_elems a - {i}"
    using a array_clear [OF ix] by (auto simp: arr_elems_def arr_ok_def CLEARBIT_def)
qed

interpretation both: bit_sets bv_ready bv_size "\<lambda>p. sqlite3BitvecTest (Some p)" bv_put bv_del bits
  arr_ok fst "\<lambda>a i. Some (TESTBIT (snd a) i)"
  "\<lambda>a i. Some (fst a, SETBIT (snd a) i)" "\<lambda>a i. Some (fst a, CLEARBIT (snd a) i)" arr_elems
  by unfold_locales

section \<open>The check\<close>

text \<open>The answers of \<open>sqlite3_randomness\<close>, 4 bytes at a time.\<close>

fun take_random :: "int list \<Rightarrow> int \<times> int list" where
  "take_random [] = (0, [])"
| "take_random (r # rnd) = (r, rnd)"

text \<open>What an opcode reads: the number of integers it takes up, the bit, the program with its start
  moved on.\<close>

definition operands :: "int list \<Rightarrow> nat \<Rightarrow> int list \<Rightarrow> nat \<times> int \<times> int list \<times> int list" where
  "operands aOp pc rnd =
    (if aOp ! pc \<in> {1, 2, 5} then (4, aOp ! (pc + 2) - 1, aOp[pc + 2 := aOp ! (pc + 2) + aOp ! (pc + 3)], rnd)
     else case take_random rnd of (i, rnd) \<Rightarrow> (2, i, aOp, rnd))"

text \<open>What the loop carries: the program and the place in it, the answers to come, the bitmap and, when
  one is kept, the array.\<close>

record test_state =
  aOp :: "int list"
  pc :: nat
  rnd :: "int list"
  mem :: "bool list"
  pBitvec :: "bitvec option"
  pV :: "u8 list option"

definition bit_op :: "int \<Rightarrow> nat \<Rightarrow> test_state \<Rightarrow> (int + test_state) option" where
  "bit_op op i s =
    (if odd op then
       (let s = s\<lparr>pV := map_option (\<lambda>V. SETBIT V (i + 1)) (pV s)\<rparr>
        in if op \<noteq> 5 then
             (case sqlite3BitvecSet (mem s) (pBitvec s) (i + 1) of None \<Rightarrow> None
              | Some (rc, p, m) \<Rightarrow> if rc \<noteq> SQLITE_OK then Some (Inl (-1)) else Some (Inr (s\<lparr>pBitvec := p, mem := m\<rparr>)))
           else Some (Inr s))
     else
       (let s = s\<lparr>pV := map_option (\<lambda>V. CLEARBIT V (i + 1)) (pV s)\<rparr>
        in case sqlite3BitvecClear (pBitvec s) (i + 1) of None \<Rightarrow> None
           | Some p \<Rightarrow> Some (Inr (s\<lparr>pBitvec := p\<rparr>))))"

text \<open>One turn of the loop.  \<open>None\<close> is a read past the end of the program; a failed set ends the loop with
  \<open>Inl\<close> of the result.\<close>

definition one_op :: "int \<Rightarrow> test_state \<Rightarrow> (int + test_state) option" where
  "one_op sz s =
    (let op = aOp s ! pc s
     in if 6 \<le> op then Some (Inr (s\<lparr>pc := pc s + 1\<rparr>))
        else if length (aOp s) \<le> pc s + (if op \<in> {1, 2, 5} then 3 else 1) then None
        else case operands (aOp s) (pc s) (rnd s) of (nx, i, ops, rs) \<Rightarrow>
          (let ops = ops[pc s + 1 := ops ! (pc s + 1) - 1];
               nx = (if 0 < ops ! (pc s + 1) then 0 else nx)
           in bit_op op (nat ((i AND 0x7fffffff) mod \<bar>sz\<bar>)) (s\<lparr>aOp := ops, rnd := rs, pc := pc s + nx\<rparr>)))"

text \<open>The loop, with fuel.\<close>

primrec run_ops :: "nat \<Rightarrow> int \<Rightarrow> test_state \<Rightarrow> (int + test_state) option" where
  "run_ops 0 sz s = None"
| "run_ops (Suc k) sz s =
    (if length (aOp s) \<le> pc s then None
     else if aOp s ! pc s = 0 then Some (Inr s)
     else case one_op sz s of
            None \<Rightarrow> None
          | Some (Inl rc) \<Rightarrow> Some (Inl rc)
          | Some (Inr s) \<Rightarrow> run_ops k sz s)"

text \<open>The comparison at the end.\<close>

fun first_difference :: "int \<Rightarrow> bitvec option \<Rightarrow> u8 list \<Rightarrow> nat list \<Rightarrow> int option" where
  "first_difference rc p V [] = Some rc"
| "first_difference rc p V (i # is) =
    (case sqlite3BitvecTest p i of None \<Rightarrow> None
     | Some b \<Rightarrow> if TESTBIT V i \<noteq> b then Some (int i) else first_difference rc p V is)"

definition compare_bits :: "int \<Rightarrow> bitvec \<Rightarrow> u8 list \<Rightarrow> int option" where
  "compare_bits sz p V =
    (case (sqlite3BitvecTest None 0, sqlite3BitvecTest (Some p) (nat (sz + 1)), sqlite3BitvecTest (Some p) 0) of
       (Some a, Some b, Some c) \<Rightarrow>
         first_difference (of_bool a + of_bool b + of_bool c + (int (sqlite3BitvecSize p) - sz)) (Some p) V [1..<nat sz + 1]
     | _ \<Rightarrow> None)"

definition sqlite3BitvecBuiltinTest :: "nat \<Rightarrow> bool list \<Rightarrow> int list \<Rightarrow> int \<Rightarrow> int list \<Rightarrow> int option" where
  "sqlite3BitvecBuiltinTest k m rs sz ops =
    (let (ok1, m) = take_alloc m;
         p = sqlite3BitvecCreate (if sz \<le> 0 then nat (2 * - sz mod 2 ^ 32) else nat sz);
         (ok2, V, m) = (if sz \<le> 0 then (True, None, m)
           else case take_alloc m of (ok, m) \<Rightarrow> (ok, Some (replicate ((7 + nat sz) div 8 + 1) 0), m));
         (ok3, m) = take_alloc m
     in if \<not> ok1 \<or> \<not> ok3 \<or> \<not> ok2 then Some (-1)
        else case run_ops k sz \<lparr>aOp = ops, pc = 0, rnd = rs, mem = m, pBitvec = Some p, pV = V\<rparr> of
               None \<Rightarrow> None
             | Some (Inl rc) \<Rightarrow> Some rc
             | Some (Inr s) \<Rightarrow>
                 (case (pBitvec s, pV s) of (Some p, Some V) \<Rightarrow> compare_bits sz p V | _ \<Rightarrow> Some 0))"

text \<open>Programs of the opcodes that set and clear: bits of a range, or chosen at random.\<close>

datatype test_op = SetRange int int int | ClearRange int int int | SetRandom int | ClearRandom int | Show

fun encode_op :: "test_op \<Rightarrow> int list" where
  "encode_op (SetRange n s x) = [1, n, s, x]"
| "encode_op (ClearRange n s x) = [2, n, s, x]"
| "encode_op (SetRandom n) = [3, n]"
| "encode_op (ClearRandom n) = [4, n]"
| "encode_op Show = [6]"

fun op_steps :: "test_op \<Rightarrow> nat" where
  "op_steps (SetRange n s x) = max 1 (nat n)"
| "op_steps (ClearRange n s x) = max 1 (nat n)"
| "op_steps (SetRandom n) = max 1 (nat n)"
| "op_steps (ClearRandom n) = max 1 (nat n)"
| "op_steps Show = 1"

definition encode_ops :: "test_op list \<Rightarrow> int list" where
  "encode_ops ops = concat (map encode_op ops) @ [0]"

definition all_steps :: "test_op list \<Rightarrow> nat" where
  "all_steps ops = sum_list (map op_steps ops) + 1"

section \<open>The check passes\<close>

definition in_step :: "nat \<Rightarrow> test_state \<Rightarrow> bool" where
  "in_step n s \<longleftrightarrow> mem s = [] \<and> (\<exists>p V. pBitvec s = Some p \<and> pV s = Some V \<and> both.agree p (n, V))"

lemma in_step_update: "in_step n (s\<lparr>aOp := ops, rnd := rs, pc := q\<rparr>) = in_step n s" "in_step n (s\<lparr>pc := q\<rparr>) = in_step n s"
  by (simp_all add: in_step_def)

lemma bv_put_SomeD:
  "bv_ready p \<Longrightarrow> 0 < i \<Longrightarrow> i \<le> bv_size p \<Longrightarrow> bv_put p i = Some p' \<Longrightarrow> sqlite3BitvecSet [] (Some p) i = Some (SQLITE_OK, Some p', [])"
  by (rule set_bits [of p i "[]"]) (auto simp: bv_ready_def bv_put_def)

lemma bv_del_SomeD:
  "bv_ready p \<Longrightarrow> 0 < i \<Longrightarrow> i \<le> bv_size p \<Longrightarrow> bv_del p i = Some p' \<Longrightarrow> sqlite3BitvecClear (Some p) i = Some (Some p')"
  by (rule clear_bits [of p i]) (auto simp: bv_ready_def bv_del_def)

lemma bit_op_in_step:
  assumes "in_step n s" and "i < n" and "op \<noteq> 5"
  obtains s' where "bit_op op i s = Some (Inr s')" and "in_step n s'" and "aOp s' = aOp s" and "pc s' = pc s"
proof -
  obtain p V where s: "mem s = []" "pBitvec s = Some p" "pV s = Some V" and a: "both.agree p (n, V)"
    using assms(1) by (auto simp: in_step_def)
  have p: "bv_ready p" "bv_size p = n" using a by (auto simp: both.agree_def)
  then have i: "0 < i + 1" "i + 1 \<le> bv_size p" using assms(2) by auto
  show ?thesis
  proof (cases "odd op")
    case True
    obtain q where q: "bv_put p (i + 1) = Some q" "both.agree q (n, SETBIT V (i + 1))"
      using both.agree_put [OF a i] by auto
    have "bit_op op i s = Some (Inr (s\<lparr>pV := Some (SETBIT V (i + 1)), pBitvec := Some q, mem := []\<rparr>))"
      using True assms(3) s bv_put_SomeD [OF p(1) i q(1)] by (simp add: bit_op_def Let_def)
    from that [OF this] show ?thesis using q(2) by (simp add: in_step_def)
  next
    case False
    obtain q where q: "bv_del p (i + 1) = Some q" "both.agree q (n, CLEARBIT V (i + 1))"
      using both.agree_del [OF a i] by auto
    have "bit_op op i s = Some (Inr (s\<lparr>pV := Some (CLEARBIT V (i + 1)), pBitvec := Some q\<rparr>))"
      using False s bv_del_SomeD [OF p(1) i q(1)] by (simp add: bit_op_def Let_def)
    from that [OF this] show ?thesis using q(2) s(1) by (simp add: in_step_def)
  qed
qed

lemma bit_range: "0 < n \<Longrightarrow> nat ((i AND 0x7fffffff) mod \<bar>int n\<bar>) < n"
  by (simp add: nat_less_iff)

lemma one_range:
  assumes "in_step n s" and "0 < n" and "c \<in> {1, 2}" and "aOp s = pre @ [c, t, b, x] @ rest" and "pc s = length pre"
  obtains s' where "one_op (int n) s = Some (Inr s')" and "in_step n s'" and "aOp s' = pre @ [c, t - 1, b + x, x] @ rest"
    and "pc s' = length pre + (if 0 < t - 1 then 0 else 4)"
proof -
  let ?s = "s\<lparr>aOp := pre @ [c, t - 1, b + x, x] @ rest, rnd := rnd s, pc := length pre + (if 0 < t - 1 then 0 else 4)\<rparr>"
  have "c \<noteq> 5" "in_step n ?s" using assms(1,3) by (auto simp: in_step_def)
  then obtain s' where "bit_op c (nat ((b - 1 AND 0x7fffffff) mod \<bar>int n\<bar>)) ?s = Some (Inr s')" and s': "in_step n s'"
      "aOp s' = aOp ?s" "pc s' = pc ?s"
    using bit_op_in_step [OF _ bit_range [OF assms(2)]] by metis
  moreover have "one_op (int n) s = bit_op c (nat ((b - 1 AND 0x7fffffff) mod \<bar>int n\<bar>)) ?s"
    using assms(3-5) by (auto simp: one_op_def operands_def nth_append list_update_append Let_def)
  ultimately show ?thesis using that [of s'] by simp
qed

lemma one_random:
  assumes "in_step n s" and "0 < n" and "c \<in> {3, 4}" and "aOp s = pre @ [c, t] @ rest" and "pc s = length pre"
  obtains s' where "one_op (int n) s = Some (Inr s')" and "in_step n s'" and "aOp s' = pre @ [c, t - 1] @ rest"
    and "pc s' = length pre + (if 0 < t - 1 then 0 else 2)"
proof -
  obtain i rs where r: "take_random (rnd s) = (i, rs)" by fastforce
  let ?s = "s\<lparr>aOp := pre @ [c, t - 1] @ rest, rnd := rs, pc := length pre + (if 0 < t - 1 then 0 else 2)\<rparr>"
  have "c \<noteq> 5" "in_step n ?s" using assms(1,3) by (auto simp: in_step_def)
  then obtain s' where "bit_op c (nat ((i AND 0x7fffffff) mod \<bar>int n\<bar>)) ?s = Some (Inr s')" and s': "in_step n s'"
      "aOp s' = aOp ?s" "pc s' = pc ?s"
    using bit_op_in_step [OF _ bit_range [OF assms(2)]] by metis
  moreover have "one_op (int n) s = bit_op c (nat ((i AND 0x7fffffff) mod \<bar>int n\<bar>)) ?s"
    using assms(3-5) r by (auto simp: one_op_def operands_def nth_append list_update_append Let_def)
  ultimately show ?thesis using that [of s'] by simp
qed

text \<open>An opcode runs as often as its count says, and at least once.\<close>

lemma repeat_range:
  assumes "0 < n" and "c \<in> {1, 2}"
  shows "in_step n s \<Longrightarrow> aOp s = pre @ [c, t, b, x] @ rest \<Longrightarrow> pc s = length pre \<Longrightarrow>
    \<exists>s' pre'. run_ops (max 1 (nat t) + k) (int n) s = run_ops k (int n) s' \<and> in_step n s'
      \<and> aOp s' = pre' @ rest \<and> pc s' = length pre'"
proof (induction "nat t" arbitrary: s t b rule: less_induct)
  case less
  obtain s1 where s1: "one_op (int n) s = Some (Inr s1)" "in_step n s1" "aOp s1 = pre @ [c, t - 1, b + x, x] @ rest"
      "pc s1 = length pre + (if 0 < t - 1 then 0 else 4)"
    by (rule one_range [OF less.prems(1) assms less.prems(2,3)]) blast
  have "c \<noteq> 0" using assms(2) by auto
  then have run: "run_ops (Suc j) (int n) s = run_ops j (int n) s1" for j using s1(1) less.prems(2,3) by (simp add: nth_append)
  show ?case
  proof (cases "1 < t")
    case True
    then have "max 1 (nat t) + k = Suc (max 1 (nat (t - 1)) + k)" by linarith
    moreover have "nat (t - 1) < nat t" using True by linarith
    ultimately show ?thesis using less.hyps [OF _ s1(2,3)] s1(4) run True by simp
  next
    case False
    then have "max 1 (nat t) + k = Suc k" by linarith
    moreover have "pc s1 = length (pre @ [c, t - 1, b + x, x])" using s1(4) False by simp
    moreover have "aOp s1 = (pre @ [c, t - 1, b + x, x]) @ rest" using s1(3) by simp
    ultimately show ?thesis using run s1(2) by metis
  qed
qed

lemma repeat_random:
  assumes "0 < n" and "c \<in> {3, 4}"
  shows "in_step n s \<Longrightarrow> aOp s = pre @ [c, t] @ rest \<Longrightarrow> pc s = length pre \<Longrightarrow>
    \<exists>s' pre'. run_ops (max 1 (nat t) + k) (int n) s = run_ops k (int n) s' \<and> in_step n s'
      \<and> aOp s' = pre' @ rest \<and> pc s' = length pre'"
proof (induction "nat t" arbitrary: s t rule: less_induct)
  case less
  obtain s1 where s1: "one_op (int n) s = Some (Inr s1)" "in_step n s1" "aOp s1 = pre @ [c, t - 1] @ rest"
      "pc s1 = length pre + (if 0 < t - 1 then 0 else 2)"
    by (rule one_random [OF less.prems(1) assms less.prems(2,3)]) blast
  have "c \<noteq> 0" using assms(2) by auto
  then have run: "run_ops (Suc j) (int n) s = run_ops j (int n) s1" for j using s1(1) less.prems(2,3) by (simp add: nth_append)
  show ?case
  proof (cases "1 < t")
    case True
    then have "max 1 (nat t) + k = Suc (max 1 (nat (t - 1)) + k)" by linarith
    moreover have "nat (t - 1) < nat t" using True by linarith
    ultimately show ?thesis using less.hyps [OF _ s1(2,3)] s1(4) run True by simp
  next
    case False
    then have "max 1 (nat t) + k = Suc k" by linarith
    moreover have "pc s1 = length (pre @ [c, t - 1])" using s1(4) False by simp
    moreover have "aOp s1 = (pre @ [c, t - 1]) @ rest" using s1(3) by simp
    ultimately show ?thesis using run s1(2) by metis
  qed
qed

lemma run_op_once:
  assumes "0 < n" and "in_step n s" and "aOp s = pre @ encode_op op @ rest" and "pc s = length pre"
  shows "\<exists>s' pre'. run_ops (op_steps op + k) (int n) s = run_ops k (int n) s' \<and> in_step n s'
      \<and> aOp s' = pre' @ rest \<and> pc s' = length pre'"
proof (cases op)
  case Show
  have "run_ops (op_steps op + k) (int n) s = run_ops k (int n) (s\<lparr>pc := pc s + 1\<rparr>)"
    using Show assms(3,4) by (simp add: one_op_def nth_append)
  moreover have "in_step n (s\<lparr>pc := pc s + 1\<rparr>)" using assms(2) in_step_update(2) by simp
  moreover have "aOp (s\<lparr>pc := pc s + 1\<rparr>) = (pre @ [6]) @ rest" using Show assms(3) by simp
  moreover have "pc (s\<lparr>pc := pc s + 1\<rparr>) = length (pre @ [6])" using assms(4) by simp
  ultimately show ?thesis by metis
qed (use repeat_range [OF assms(1) _ assms(2)] repeat_random [OF assms(1) _ assms(2)] assms(3,4) in auto)

lemma run_all_ops:
  assumes "0 < n"
  shows "in_step n s \<Longrightarrow> aOp s = pre @ encode_ops ops \<Longrightarrow> pc s = length pre \<Longrightarrow>
    \<exists>s'. run_ops (all_steps ops + k) (int n) s = Some (Inr s') \<and> in_step n s'"
proof (induction ops arbitrary: s pre)
  case Nil
  then show ?case by (simp add: encode_ops_def all_steps_def nth_append)
next
  case (Cons op ops)
  have "aOp s = pre @ encode_op op @ encode_ops ops" using Cons.prems(2) by (simp add: encode_ops_def)
  from run_op_once [OF assms Cons.prems(1) this Cons.prems(3), of "all_steps ops + k"]
  obtain s' pre' where "run_ops (op_steps op + (all_steps ops + k)) (int n) s = run_ops (all_steps ops + k) (int n) s'"
      "in_step n s'" "aOp s' = pre' @ encode_ops ops" "pc s' = length pre'"
    by blast
  then show ?case using Cons.IH by (simp add: all_steps_def add.assoc)
qed

lemma no_difference:
  assumes "both.agree p (n, V)"
  shows "\<forall>i\<in>set is. 0 < i \<and> i \<le> n \<Longrightarrow> first_difference rc (Some p) V is = Some rc"
proof (induction "is")
  case (Cons i "is")
  have "bv_size p = n" using assms by (simp add: both.agree_def)
  then have "sqlite3BitvecTest (Some p) i = Some (TESTBIT V i)" using both.agree_test [OF assms, of i] Cons.prems by simp
  then show ?case using Cons by simp
qed simp

lemma compare_in_step: "both.agree p (n, V) \<Longrightarrow> compare_bits (int n) p V = Some 0"
proof -
  assume a: "both.agree p (n, V)"
  have p: "bv_size p = n" using a by (auto simp: both.agree_def)
  then have "sqlite3BitvecTest None 0 = Some False" "sqlite3BitvecTest (Some p) (n + 1) = Some False"
      "sqlite3BitvecTest (Some p) 0 = Some False"
    by (simp_all add: sqlite3BitvecTest_def sqlite3BitvecTestNotNull_def)
  moreover have "first_difference 0 (Some p) V [1..<n + 1] = Some 0" by (rule no_difference [OF a]) auto
  moreover have "nat (int n + 1) = n + 1" by simp
  ultimately show ?thesis using p by (simp add: compare_bits_def sqlite3BitvecSize_def del: upt_Suc)
qed

lemma fresh_agree: "n < 2 ^ 32 \<Longrightarrow> both.agree (sqlite3BitvecCreate n) (n, replicate ((7 + n) div 8 + 1) 0)"
proof -
  have "\<not> TESTBIT (replicate ((7 + n) div 8 + 1) 0) i" if "i \<le> n" for i
  proof -
    have "i div 8 < (7 + n) div 8 + 1"
      using that arr_index [of "(n, replicate ((7 + n) div 8 + 1) 0)" i] by (simp add: arr_ok_def)
    then show ?thesis unfolding TESTBIT_def by (simp only: nth_replicate) simp
  qed
  then show "n < 2 ^ 32 \<Longrightarrow> ?thesis"
    using create_ok by (auto simp: both.agree_def bv_ready_def arr_ok_def arr_elems_def bits_def)
qed

section \<open>Properties\<close>

text \<open>C10.
  A bitmap is a set.  From a new bitmap of a size of 32 bits, any sequence of sets and clears of bits
  in its range ends (the probing of the hash tables, the rehashing into 62 parts, the recursion over
  them) and afterwards a test answers for every number whether the last of them that named it was a
  set.
\<close>

theorem bitvec_is_a_set:
  assumes "n < 2 ^ 32" and "\<forall>u\<in>set us. 0 < update_at u \<and> update_at u \<le> n"
  shows "\<exists>p. updates bv_put bv_del us (sqlite3BitvecCreate n) = Some p \<and> bv_ok p \<and> sqlite3BitvecSize p = n
    \<and> sqlite3BitvecTest (Some p) i = Some (i \<in> replay us {})"
proof -
  have "bits (sqlite3BitvecCreate n) = {}" "bv_ready (sqlite3BitvecCreate n)" "bv_size (sqlite3BitvecCreate n) = n"
    using create_ok assms(1) by (auto simp: bits_def bv_ready_def)
  then obtain p where "updates bv_put bv_del us (sqlite3BitvecCreate n) = Some p" "bv_ready p" "bv_size p = n"
      "bits p = replay us {}"
    using bv.updates_law [of "sqlite3BitvecCreate n" us] assms(2) by auto
  then show ?thesis using test_bits [of p i] by (auto simp: bv_ready_def sqlite3BitvecSize_def)
qed

theorem bitvec_is_a_set_witness:
  "\<exists>p. updates bv_put bv_del [Put 7, Put 130, Del 7, Put 5000] (sqlite3BitvecCreate 5000) = Some p \<and> bv_ok p
    \<and> sqlite3BitvecSize p = 5000 \<and> sqlite3BitvecTest (Some p) 130 = Some (130 \<in> replay [Put 7, Put 130, Del 7, Put 5000] {})"
  by (rule bitvec_is_a_set) simp_all

text \<open>
  A set that runs out of memory keeps the structure.  Whichever allocations fail, the result is OK
  or out of memory, the bitmap keeps its invariant and its size, and holds no number that was
  not in it or the one to be set; with OK it holds exactly these.  (A failure while a hash table is divided
  may lose some of them.)
\<close>

theorem bitvec_set_failure:
  assumes "bv_ok p" and "bv_size p < 2 ^ 32" and "0 < i" and "i \<le> bv_size p"
  shows "\<exists>rc p' m'. sqlite3BitvecSet m (Some p) i = Some (rc, Some p', m') \<and> rc \<in> {SQLITE_OK, SQLITE_NOMEM}
    \<and> bv_ok p' \<and> bv_size p' = bv_size p \<and> bits p' \<subseteq> insert i (bits p) \<and> (rc = SQLITE_OK \<longrightarrow> bits p' = insert i (bits p))"
  by (rule set_bits [OF assms, of m]) blast

theorem bitvec_set_failure_witness:
  "\<exists>rc p' m'. sqlite3BitvecSet [False] (Some (Divided 5000 (divisor 5000) (replicate BITVEC_NPTR None))) 4000 = Some (rc, Some p', m')
    \<and> rc \<in> {SQLITE_OK, SQLITE_NOMEM} \<and> bv_ok p' \<and> bv_size p' = 5000
    \<and> bits p' \<subseteq> insert 4000 (bits (Divided 5000 (divisor 5000) (replicate BITVEC_NPTR None)))
    \<and> (rc = SQLITE_OK \<longrightarrow> bits p' = insert 4000 (bits (Divided 5000 (divisor 5000) (replicate BITVEC_NPTR None))))"
  using bitvec_set_failure [of "Divided 5000 (divisor 5000) (replicate BITVEC_NPTR None)" 4000 "[False]"]
    fresh_divided(1) [of 5000] by (simp add: bitvec_sizes)

text \<open>
  SQLite's own check of the bitmap passes.  For every program of opcodes that set and clear bits, in
  a range or at random, as often as their counts say, and every size and sequence of random numbers, the
  check ends within the steps the program asks for and returns 0: the bitmap agrees with the linear array on
  every bit.
\<close>

theorem bitvec_test_passes:
  assumes "0 < sz" and "sz < 2 ^ 31" and "all_steps ops \<le> k"
  shows "sqlite3BitvecBuiltinTest k [] rs sz (encode_ops ops) = Some 0"
proof -
  define n where "n = nat sz"
  have n: "sz = int n" "0 < n" "n < 2 ^ 32" using assms(1,2) by (auto simp: n_def nat_less_iff)
  obtain k' where k: "k = all_steps ops + k'" using assms(3) le_Suc_ex by blast
  let ?V = "replicate ((7 + n) div 8 + 1) 0"
  let ?s = "\<lparr>aOp = encode_ops ops, pc = 0, rnd = rs, mem = [], pBitvec = Some (sqlite3BitvecCreate n), pV = Some ?V\<rparr>"
  have "in_step n ?s" using fresh_agree [OF n(3)] by (simp add: in_step_def)
  then obtain s' where r: "run_ops k (int n) ?s = Some (Inr s')" and "in_step n s'"
    using run_all_ops [OF n(2), of ?s "[]" ops k'] k by auto
  then obtain p V where "pBitvec s' = Some p" "pV s' = Some V" "both.agree p (n, V)" by (auto simp: in_step_def)
  then show ?thesis using r n(2) compare_in_step [of p n V]
    by (simp add: sqlite3BitvecBuiltinTest_def n(1) del: replicate_Suc)
qed

theorem bitvec_test_passes_witness:
  "sqlite3BitvecBuiltinTest 100 [] [12345, -3] 5000 (encode_ops [SetRange 10 4 7, Show, SetRandom 2, ClearRange 2 11 7]) = Some 0"
  by (rule bitvec_test_passes) (simp_all add: all_steps_def)

end
