(* ===== verification/ChaCha20.thy ===== *)
theory ChaCha20
  imports Prelude
begin

text \<open>
  The stream cipher of \<open>chacha20poly1305.c\<close> (inside \<open>sqlite3.c\<close>): the block function
  \<open>chacha20_block\<close>, the in-place stream \<open>chacha20_xor\<close>, and the process-wide generator
  \<open>chacha20_rng\<close> that supplies page nonces and salts.  The lemmas show that the two loops of
  \<open>chacha20_xor\<close> (whole blocks, then the tail) combine the buffer with one keystream indexed by
  the byte position, that the stream is its own inverse, and that the generator hands out one
  output stream whatever the sizes of the requests.
\<close>

section \<open>The block function\<close>

text \<open>The macro \<open>CC20QR\<close>: four add-xor-rotate steps on the words \<open>a\<close>, \<open>b\<close>, \<open>c\<close>, \<open>d\<close> of the state.\<close>

definition rol32 :: "u32 \<Rightarrow> nat \<Rightarrow> u32" where
  "rol32 x c = push_bit c x OR drop_bit (32 - c) x"

definition qr_half :: "nat \<Rightarrow> nat \<Rightarrow> nat \<Rightarrow> nat \<Rightarrow> u32 list \<Rightarrow> u32 list" where
  "qr_half i j k c x =
    (let x = x[i := x ! i + x ! j];
         x = x[k := x ! k XOR x ! i]
     in x[k := rol32 (x ! k) c])"

definition cc20qr :: "nat \<Rightarrow> nat \<Rightarrow> nat \<Rightarrow> nat \<Rightarrow> u32 list \<Rightarrow> u32 list" where
  "cc20qr a b c d x =
    qr_half c d b 7 (qr_half a b d 8 (qr_half c d b 12 (qr_half a b d 16 x)))"

definition chacha20_double_round :: "u32 list \<Rightarrow> u32 list" where
  "chacha20_double_round x =
    (let x = cc20qr 0 4 8 12 x; x = cc20qr 1 5 9 13 x;
         x = cc20qr 2 6 10 14 x; x = cc20qr 3 7 11 15 x;
         x = cc20qr 0 5 10 15 x; x = cc20qr 1 6 11 12 x;
         x = cc20qr 2 7 8 13 x
     in cc20qr 3 4 9 14 x)"

definition chacha20_block :: "u32 list \<Rightarrow> u32 list" where
  "chacha20_block x = (chacha20_double_round ^^ 10) x"

lemma length_cc20qr [simp]: "length (cc20qr a b c d x) = length x"
  by (simp add: cc20qr_def qr_half_def Let_def)

lemma length_double_round [simp]: "length (chacha20_double_round x) = length x"
  by (simp add: chacha20_double_round_def Let_def)

lemma length_funpow:
  fixes f :: "'a list \<Rightarrow> 'a list"
  assumes "\<And>x. length (f x) = length x"
  shows "length ((f ^^ n) x) = length x"
  by (induction n) (simp_all add: assms)

lemma length_chacha20_block [simp]: "length (chacha20_block x) = length x"
  by (simp add: chacha20_block_def length_funpow)

section \<open>The stream\<close>

definition chacha20_init :: "bytes \<Rightarrow> bytes \<Rightarrow> u32 \<Rightarrow> u32 list" where
  "chacha20_init key nonce counter =
    [0x61707865, 0x3320646e, 0x79622d32, 0x6b206574]
    @ map (\<lambda>i. load32_le (mslice (4 * i) 4 key)) [0..<8]
    @ [counter] @ map (\<lambda>i. load32_le (mslice (4 * i) 4 nonce)) [0..<3]"

text \<open>
  The two loops over the buffer.  While more than 64 bytes are left the code combines sixteen
  words in place (\<open>block.words[i] += state[i]; block.words[i] ^= LOAD32_LE(buf); STORE32_LE(buf, \<dots>)\<close>)
  and steps the counter \<open>state[12]\<close>; the last one to sixty-four bytes are combined bytewise.
\<close>

function chacha20_loop :: "u32 list \<Rightarrow> bytes \<Rightarrow> bytes" where
  "chacha20_loop state buf =
    (if 64 < length buf then
       let words = map2 (+) (chacha20_block state) state;
           out = concat (map (\<lambda>i. store32_le (words ! i XOR load32_le (mslice (4 * i) 4 buf))) [0..<16])
       in out @ chacha20_loop (state[12 := state ! 12 + 1]) (drop 64 buf)
     else
       let pad = concat (map store32_le (map2 (+) (chacha20_block state) state))
       in map2 (XOR) buf pad)"
  by pat_completeness auto
termination
  by (relation "measure (\<lambda>(state, buf). length buf)") auto

declare chacha20_loop.simps [simp del]

definition chacha20_xor :: "bytes \<Rightarrow> bytes \<Rightarrow> bytes \<Rightarrow> u32 \<Rightarrow> bytes" where
  "chacha20_xor buf key nonce counter = chacha20_loop (chacha20_init key nonce counter) buf"

text \<open>The keystream as a function of the byte position: the reference the loops are compared with.\<close>

definition keystream_block :: "u32 list \<Rightarrow> bytes" where
  "keystream_block state = concat (map store32_le (map2 (+) (chacha20_block state) state))"

definition keystream :: "u32 list \<Rightarrow> nat \<Rightarrow> u8" where
  "keystream state k =
    keystream_block (state[12 := state ! 12 + word_of_nat (k div 64)]) ! (k mod 64)"

lemma length_chacha20_init [simp]: "length (chacha20_init key nonce counter) = 16"
  by (simp add: chacha20_init_def)

lemma length_keystream_block [simp]: "length state = 16 \<Longrightarrow> length (keystream_block state) = 64"
  by (simp add: keystream_block_def length_concat_chunks [where w = 4])

lemma store32_le_xor: "store32_le (a XOR b) = map2 (XOR) (store32_le a) (store32_le b)"
proof -
  have *: "(ucast (drop_bit n (a XOR b)) :: u8) = ucast (drop_bit n a) XOR ucast (drop_bit n b)" for n
    by (rule bit_word_eqI) (auto simp: bit_simps)
  show ?thesis using * [of 0] * [of 8] * [of 16] * [of 24] by (simp add: store32_le_def)
qed

text \<open>One whole block: sixteen word stores are the bytewise combination with the block.\<close>

lemma chacha20_words_bytes:
  assumes "length state = 16" and "64 \<le> length buf"
  shows "concat (map (\<lambda>i. store32_le (map2 (+) (chacha20_block state) state ! i
             XOR load32_le (mslice (4 * i) 4 buf))) [0..<16])
    = map2 (XOR) (take 64 buf) (keystream_block state)"
    (is "concat (map ?f _) = _")
proof (rule nth_equalityI)
  let ?w = "map2 (+) (chacha20_block state) state"
  show "length (concat (map ?f [0..<16])) = length (map2 (XOR) (take 64 buf) (keystream_block state))"
    using assms by (simp add: length_concat_chunks [where w = 4])
  fix k assume "k < length (concat (map ?f [0..<16]))"
  then have k: "k < 64" by (simp add: length_concat_chunks [where w = 4])
  then have kd: "k div 4 < 16" by simp
  have len4: "length (mslice (4 * (k div 4)) 4 buf) = 4" using kd assms by simp
  have kk: "4 * (k div 4) + k mod 4 = k" by simp
  have "concat (map ?f [0..<16]) ! k = ?f (k div 4) ! (k mod 4)"
    using k kd by (subst nth_concat_chunks [where w = 4]) auto
  also have "\<dots> = (map2 (XOR) (store32_le (?w ! (k div 4))) (mslice (4 * (k div 4)) 4 buf)) ! (k mod 4)"
    using assms kd by (simp add: store32_le_xor store_load32_le)
  also have "\<dots> = store32_le (?w ! (k div 4)) ! (k mod 4) XOR buf ! k"
    using assms k kk len4 by (simp add: nth_mslice)
  also have "store32_le (?w ! (k div 4)) ! (k mod 4) = keystream_block state ! k"
    unfolding keystream_block_def using assms k
    by (subst nth_concat_chunks [where w = 4]) auto
  finally show "concat (map ?f [0..<16]) ! k = map2 (XOR) (take 64 buf) (keystream_block state) ! k"
    using assms k by (simp add: xor.commute)
qed

lemma keystream_shift:
  assumes "length state = 16"
  shows "keystream (state[12 := state ! 12 + 1]) k = keystream state (64 + k)"
  using assms by (simp add: keystream_def add.assoc div_add_self1)

lemma length_chacha20_loop [simp]:
  "length state = 16 \<Longrightarrow> length (chacha20_loop state buf) = length buf"
proof (induction state buf rule: chacha20_loop.induct)
  case (1 state buf)
  then show ?case
    by (subst chacha20_loop.simps)
      (simp add: Let_def length_concat_chunks [where w = 4])
qed

lemma nth_chacha20_loop:
  "length state = 16 \<Longrightarrow> k < length buf \<Longrightarrow> chacha20_loop state buf ! k = buf ! k XOR keystream state k"
proof (induction state buf arbitrary: k rule: chacha20_loop.induct)
  case (1 state buf)
  show ?case
  proof (cases "64 < length buf")
    case False
    with "1.prems" have "k < 64" by simp
    with False "1.prems" show ?thesis
      by (subst chacha20_loop.simps) (simp add: keystream_def keystream_block_def
            length_concat_chunks [where w = 4])
  next
    case True
    have eq: "chacha20_loop state buf = map2 (XOR) (take 64 buf) (keystream_block state)
        @ chacha20_loop (state[12 := state ! 12 + 1]) (drop 64 buf)"
      using True "1.prems" by (subst chacha20_loop.simps) (simp add: Let_def chacha20_words_bytes)
    show ?thesis
    proof (cases "k < 64")
      case True
      then show ?thesis using \<open>64 < length buf\<close> "1.prems"
        by (simp add: eq nth_append keystream_def)
    next
      case False
      then have "chacha20_loop state buf ! k
          = chacha20_loop (state[12 := state ! 12 + 1]) (drop 64 buf) ! (k - 64)"
        using \<open>64 < length buf\<close> "1.prems" by (simp add: eq nth_append)
      also have "\<dots> = drop 64 buf ! (k - 64) XOR keystream (state[12 := state ! 12 + 1]) (k - 64)"
        using "1.prems" False True by (intro "1.IH") (auto simp: Let_def)
      finally show ?thesis using False \<open>64 < length buf\<close> "1.prems" by (simp add: keystream_shift)
    qed
  qed
qed

lemma length_chacha20_xor [simp]: "length (chacha20_xor buf key nonce counter) = length buf"
  by (simp add: chacha20_xor_def)

lemma chacha20_xor_self_inverse:
  "chacha20_xor (chacha20_xor buf key nonce counter) key nonce counter = buf"
  by (rule nth_equalityI) (simp_all add: chacha20_xor_def nth_chacha20_loop)

section \<open>The random generator\<close>

text \<open>
  The static variables of \<open>chacha20_rng\<close>.  The operating system's entropy source is code outside
  the repository: \<open>ent i n\<close> is what the \<open>i\<close>-th call for \<open>n\<close> bytes returns, \<open>None\<close> when it returns
  another length than asked for, where the code aborts.  \<open>rng_calls\<close> counts the calls.
\<close>

record rng =
  rng_key :: bytes
  rng_nonce :: bytes
  rng_buffer :: bytes
  rng_counter :: u32
  rng_available :: nat
  rng_calls :: nat

definition rng_start :: rng where
  "rng_start = \<lparr>rng_key = replicate 32 0, rng_nonce = replicate 12 0, rng_buffer = replicate 64 0,
     rng_counter = 0, rng_available = 0, rng_calls = 0\<rparr>"

definition rng_reseed :: "(nat \<Rightarrow> nat \<Rightarrow> bytes option) \<Rightarrow> rng \<Rightarrow> rng option" where
  "rng_reseed ent s =
    (if rng_counter s \<noteq> 0 then Some s
     else case ent (rng_calls s) 32 of
       None \<Rightarrow> None
     | Some k \<Rightarrow> (case ent (rng_calls s + 1) 12 of
         None \<Rightarrow> None
       | Some v \<Rightarrow> Some (s\<lparr>rng_key := k, rng_nonce := v, rng_calls := rng_calls s + 2\<rparr>)))"

text \<open>
  The refill when no bytes are left.  The new block is combined with what the buffer held, because
  \<open>chacha20_xor\<close> works in place and the buffer is not cleared.
\<close>

definition rng_refill :: "(nat \<Rightarrow> nat \<Rightarrow> bytes option) \<Rightarrow> rng \<Rightarrow> rng option" where
  "rng_refill ent s =
    (if rng_available s \<noteq> 0 then Some s
     else map_option
       (\<lambda>s. s\<lparr>rng_buffer := chacha20_xor (rng_buffer s) (rng_key s) (rng_nonce s) (rng_counter s),
              rng_counter := rng_counter s + 1, rng_available := 64\<rparr>)
       (rng_reseed ent s))"

lemma rng_refill_available: "rng_refill ent s = Some t \<Longrightarrow> 0 < rng_available t"
  by (auto simp: rng_refill_def split: if_splits)

function chacha20_rng :: "(nat \<Rightarrow> nat \<Rightarrow> bytes option) \<Rightarrow> nat \<Rightarrow> rng \<Rightarrow> (bytes \<times> rng) option" where
  "chacha20_rng ent n s =
    (if n = 0 then Some ([], s)
     else case rng_refill ent s of
       None \<Rightarrow> None
     | Some t \<Rightarrow>
         (let m = (if rng_available t < n then rng_available t else n);
              out = mslice (64 - rng_available t) m (rng_buffer t)
          in map_option (\<lambda>(rest, u). (out @ rest, u))
               (chacha20_rng ent (n - m) (t\<lparr>rng_available := rng_available t - m\<rparr>))))"
  by pat_completeness auto
termination
  by (relation "measure (\<lambda>(ent, n, s). n)") (auto dest: rng_refill_available split: if_splits)

declare chacha20_rng.simps [simp del]

text \<open>The generator as a stream of single bytes, the reference for requests of any size.\<close>

definition rng_byte :: "(nat \<Rightarrow> nat \<Rightarrow> bytes option) \<Rightarrow> rng \<Rightarrow> (u8 \<times> rng) option" where
  "rng_byte ent s = map_option
     (\<lambda>t. (rng_buffer t ! (64 - rng_available t), t\<lparr>rng_available := rng_available t - 1\<rparr>))
     (rng_refill ent s)"

fun rng_stream :: "(nat \<Rightarrow> nat \<Rightarrow> bytes option) \<Rightarrow> nat \<Rightarrow> rng \<Rightarrow> (bytes \<times> rng) option" where
  "rng_stream ent 0 s = Some ([], s)"
| "rng_stream ent (Suc n) s =
    (case rng_byte ent s of
       None \<Rightarrow> None
     | Some (b, t) \<Rightarrow> map_option (\<lambda>(bs, u). (b # bs, u)) (rng_stream ent n t))"

definition rng_inv :: "rng \<Rightarrow> bool" where
  "rng_inv s \<longleftrightarrow> length (rng_buffer s) = 64 \<and> rng_available s \<le> 64"

lemma rng_inv_start: "rng_inv rng_start"
  by (simp add: rng_inv_def rng_start_def)

lemma rng_refill_inv: "rng_inv s \<Longrightarrow> rng_refill ent s = Some t \<Longrightarrow> rng_inv t"
  by (auto simp: rng_refill_def rng_reseed_def rng_inv_def split: if_splits option.splits)

lemma rng_refill_idem: "0 < rng_available s \<Longrightarrow> rng_refill ent s = Some s"
  by (simp add: rng_refill_def)

lemma rng_stream_add:
  "rng_stream ent (m + n) s =
     (case rng_stream ent m s of None \<Rightarrow> None
      | Some (bs, t) \<Rightarrow> map_option (\<lambda>(cs, u). (bs @ cs, u)) (rng_stream ent n t))"
  by (induction m arbitrary: s)
    (auto split: option.splits prod.splits simp: option.map_comp o_def option.map_id0 split_def option.map_ident)

lemma rng_stream_within:
  "rng_inv s \<Longrightarrow> m \<le> rng_available s \<Longrightarrow>
    rng_stream ent m s = Some (mslice (64 - rng_available s) m (rng_buffer s),
      s\<lparr>rng_available := rng_available s - m\<rparr>)"
proof (induction m arbitrary: s)
  case 0
  then show ?case by (simp add: mslice_def)
next
  case (Suc m)
  let ?t = "s\<lparr>rng_available := rng_available s - 1\<rparr>"
  have "rng_stream ent m ?t = Some (mslice (65 - rng_available s) m (rng_buffer s),
      ?t\<lparr>rng_available := rng_available s - 1 - m\<rparr>)"
  proof -
    have "rng_inv ?t" and "m \<le> rng_available ?t" and "64 - rng_available ?t = 65 - rng_available s"
      using Suc.prems by (auto simp: rng_inv_def)
    then show ?thesis using Suc.IH [of ?t] by simp
  qed
  moreover have "mslice (64 - rng_available s) (Suc m) (rng_buffer s)
      = rng_buffer s ! (64 - rng_available s) # mslice (65 - rng_available s) m (rng_buffer s)"
    using Suc.prems by (simp add: mslice_def rng_inv_def Cons_nth_drop_Suc [symmetric] Suc_diff_le [symmetric])
  ultimately show ?case
    using Suc.prems by (simp add: rng_byte_def rng_refill_idem)
qed

lemma rng_stream_refill:
  assumes "rng_refill ent s = Some t" and "0 < n"
  shows "rng_stream ent n s = rng_stream ent n t"
proof -
  obtain k where "n = Suc k" using assms(2) by (cases n) auto
  with assms(1) show ?thesis
    by (simp add: rng_byte_def rng_refill_idem [OF rng_refill_available])
qed

lemma chacha20_rng_stream: "rng_inv s \<Longrightarrow> chacha20_rng ent n s = rng_stream ent n s"
proof (induction ent n s rule: chacha20_rng.induct)
  case (1 ent n s)
  show ?case
  proof (cases "n = 0 \<or> rng_refill ent s = None")
    case True
    then show ?thesis
      by (subst chacha20_rng.simps, cases n) (auto simp: rng_byte_def)
  next
    case False
    then obtain t where t: "rng_refill ent s = Some t" and n: "n \<noteq> 0" by auto
    define m where "m = min (rng_available t) n"
    have m_if: "(if rng_available t < n then rng_available t else n) = m" by (simp add: m_def)
    define u where "u = t\<lparr>rng_available := rng_available t - m\<rparr>"
    have inv: "rng_inv t" using "1.prems" t by (rule rng_refill_inv)
    have "chacha20_rng ent n s = map_option (\<lambda>(rest, v). (mslice (64 - rng_available t) m (rng_buffer t) @ rest, v))
        (chacha20_rng ent (n - m) u)"
      using n t by (simp add: chacha20_rng.simps [of ent n s] m_if u_def Let_def)
    also have "chacha20_rng ent (n - m) u = rng_stream ent (n - m) u"
    proof -
      have "rng_inv u" using inv by (auto simp: u_def rng_inv_def)
      then show ?thesis using "1.IH" [OF n t refl refl] by (simp add: m_if u_def)
    qed
    also have "map_option (\<lambda>(rest, v). (mslice (64 - rng_available t) m (rng_buffer t) @ rest, v))
        (rng_stream ent (n - m) u) = rng_stream ent (m + (n - m)) t"
    proof -
      have "m \<le> rng_available t" by (simp add: m_def)
      then show ?thesis by (subst rng_stream_add) (simp add: rng_stream_within inv u_def)
    qed
    also have "\<dots> = rng_stream ent n s"
      using rng_stream_refill [OF t] n by (simp add: m_def)
    finally show ?thesis .
  qed
qed

lemma rng_stream_length: "rng_stream ent n s = Some (bs, t) \<Longrightarrow> length bs = n"
  by (induction n arbitrary: s bs) (auto split: option.splits)

lemma rng_byte_inv: "rng_inv s \<Longrightarrow> rng_byte ent s = Some (b, t) \<Longrightarrow> rng_inv t"
  using rng_refill_inv [of s ent] by (auto simp: rng_byte_def rng_inv_def)

lemma rng_stream_inv: "rng_inv s \<Longrightarrow> rng_stream ent n s = Some (bs, t) \<Longrightarrow> rng_inv t"
  by (induction n arbitrary: s bs) (auto split: option.splits dest: rng_byte_inv)

section \<open>Properties\<close>

text \<open>Byte \<open>k\<close> of the output of \<open>chacha20_xor\<close> is byte \<open>k\<close> of the buffer combined with byte
  \<open>k mod 64\<close> of the block whose counter is the initial counter plus \<open>k div 64\<close>, modulo \<open>2 ^ 32\<close>,
  whatever the length of the buffer: the word loop and the byte tail read one keystream, and no byte
  beyond the buffer is written.\<close>

theorem chacha20_xor_keystream:
  "length (chacha20_xor buf key nonce counter) = length buf \<and>
   (\<forall>k < length buf. chacha20_xor buf key nonce counter ! k
      = buf ! k XOR keystream (chacha20_init key nonce counter) k)"
  by (simp add: chacha20_xor_def nth_chacha20_loop)

lemma chacha20_xor_keystream_witness:
  "chacha20_xor [7] (replicate 32 0) (replicate 12 0) 1 ! 0
    = 7 XOR keystream (chacha20_init (replicate 32 0) (replicate 12 0) 1) 0"
  using chacha20_xor_keystream [of "[7]" "replicate 32 0" "replicate 12 0" 1] by simp

text \<open>The generator hands out one stream: drawing \<open>m\<close> and then \<open>n\<close> bytes gives the bytes, and
  leaves the state, of one request for \<open>m + n\<close> bytes, across refills, reseeds and the abort.\<close>

theorem chacha20_rng_split:
  "rng_inv s \<Longrightarrow> chacha20_rng ent (m + n) s =
     (case chacha20_rng ent m s of None \<Rightarrow> None
      | Some (bs, t) \<Rightarrow> map_option (\<lambda>(cs, u). (bs @ cs, u)) (chacha20_rng ent n t))"
  by (auto simp: chacha20_rng_stream rng_stream_add rng_stream_inv split: option.splits)

lemma chacha20_rng_split_witness:
  "chacha20_rng (\<lambda>i n. Some (replicate n 3)) (5 + 70) rng_start =
     (case chacha20_rng (\<lambda>i n. Some (replicate n 3)) 5 rng_start of None \<Rightarrow> None
      | Some (bs, t) \<Rightarrow> map_option (\<lambda>(cs, u). (bs @ cs, u)) (chacha20_rng (\<lambda>i n. Some (replicate n 3)) 70 t))"
  by (rule chacha20_rng_split [OF rng_inv_start])

end
