(* ===== verification/Poly1305_Correct.thy ===== *)
theory Poly1305_Correct
  imports Poly1305
begin

text \<open>
  The limb arithmetic of \<open>poly1305\<close> against the polynomial of RFC 8439: one multiplication step,
  one pass over a block, the loop, the final reduction.  The invariant \<open>limbs_ok\<close> bounds the limbs
  between two passes; the bounds leave every 64-bit sum and every 32-bit carry without wrap-around.
\<close>

section \<open>One multiplication\<close>

lemma unat_times5: "unat (r :: u32) < 2 ^ 26 \<Longrightarrow> unat (r * 5) = unat r * 5"
  by (simp add: unat_simps)

lemma unat_low26: "unat (ucast (d AND 0x03FFFFFF) :: u32) = unat (d :: u64) mod 2 ^ 26"
proof -
  have m: "(0x03FFFFFF :: u64) = mask 26" by (simp add: mask_eq_exp_minus_1)
  have "unat d mod 2 ^ 26 < 2 ^ 26" by simp
  then have "unat d mod 2 ^ 26 mod 2 ^ 32 = unat d mod 2 ^ 26" by simp
  then show ?thesis unfolding m unat_ucast_mod unat_and_mask by simp
qed

lemma unat_carry:
  assumes "unat (d :: u64) \<le> 5 * 2 ^ 61" and "unat (e :: u64) \<le> 5 * 2 ^ 61 + 2 ^ 40"
  shows "unat (d + drop_bit 26 e) = unat d + unat e div 2 ^ 26"
    and "unat (d + drop_bit 26 e) \<le> 5 * 2 ^ 61 + 2 ^ 40"
proof -
  have b: "unat e div 2 ^ 26 \<le> (5 * 2 ^ 61 + 2 ^ 40) div 2 ^ 26"
    using assms(2) by (rule div_le_mono)
  show eq: "unat (d + drop_bit 26 e) = unat d + unat e div 2 ^ 26"
    using assms(1) b by (subst unat_add_eq) (simp_all add: unat_drop)
  show "unat (d + drop_bit 26 e) \<le> 5 * 2 ^ 61 + 2 ^ 40"
    unfolding eq using assms(1) b by simp
qed

definition pre_mul :: "limbs \<Rightarrow> bool" where
  "pre_mul h = (case h of (h0, h1, h2, h3, h4) \<Rightarrow>
     unat h0 \<le> 45 * 2 ^ 26 \<and> unat h1 \<le> 2 ^ 27 \<and> unat h2 \<le> 2 ^ 27 \<and> unat h3 \<le> 2 ^ 27
     \<and> unat h4 \<le> 2 ^ 26 + 2 ^ 25)"

lemma unat_u32_less: "unat (w :: u32) < 2 ^ 32"
  using unat_less [of w] by simp

lemma fold_bound: "a < 2 ^ 26 \<Longrightarrow> q \<le> 8 * 2 ^ 26 + 2 ^ 24 \<Longrightarrow> a + q * 5 < (44 :: nat) * 2 ^ 26"
  by simp

lemma poly1305_mul_correct:
  assumes r: "r_ok r" and h: "pre_mul h"
  shows "limbs_ok (poly1305_mul r h) \<and> val (poly1305_mul r h) mod poly_p = val h * val r mod poly_p"
proof -
  obtain r0 r1 r2 r3 r4 where [simp]: "r = (r0, r1, r2, r3, r4)" by (cases r) auto
  obtain h0 h1 h2 h3 h4 where [simp]: "h = (h0, h1, h2, h3, h4)" by (cases h) auto
  have rb: "unat r0 < 2 ^ 26" "unat r1 < 2 ^ 26" "unat r2 < 2 ^ 26" "unat r3 < 2 ^ 26" "unat r4 < 2 ^ 20"
    using r by (simp_all add: r_ok_def)
  have r29: "unat r0 < 2 ^ 29" "unat r1 < 2 ^ 29" "unat r2 < 2 ^ 29" "unat r3 < 2 ^ 29" "unat r4 < 2 ^ 29"
    using rb by simp_all
  have r4': "unat r4 < 2 ^ 26" using rb(5) by simp
  note s = unat_times5 [OF rb(2)] unat_times5 [OF rb(3)] unat_times5 [OF rb(4)] unat_times5 [OF r4']
  have s29: "unat (r1 * 5) < 2 ^ 29" "unat (r2 * 5) < 2 ^ 29" "unat (r3 * 5) < 2 ^ 29" "unat (r4 * 5) < 2 ^ 29"
    unfolding s using rb r4' by simp_all
  define d0 where "d0 = mul64 h0 r0 + mul64 h1 (r4 * 5) + mul64 h2 (r3 * 5) + mul64 h3 (r2 * 5) + mul64 h4 (r1 * 5)"
  define d1 where "d1 = mul64 h0 r1 + mul64 h1 r0 + mul64 h2 (r4 * 5) + mul64 h3 (r3 * 5) + mul64 h4 (r2 * 5)"
  define d2 where "d2 = mul64 h0 r2 + mul64 h1 r1 + mul64 h2 r0 + mul64 h3 (r4 * 5) + mul64 h4 (r3 * 5)"
  define d3 where "d3 = mul64 h0 r3 + mul64 h1 r2 + mul64 h2 r1 + mul64 h3 r0 + mul64 h4 (r4 * 5)"
  define d4 where "d4 = mul64 h0 r4 + mul64 h1 r3 + mul64 h2 r2 + mul64 h3 r1 + mul64 h4 r0"
  note dots = dot5_less [OF unat_u32_less unat_u32_less unat_u32_less unat_u32_less unat_u32_less]
  note D0 = dots [OF r29(1) s29(4,3,2,1), of h0 h1 h2 h3 h4, folded d0_def, unfolded s]
  note D1 = dots [OF r29(2,1) s29(4,3,2), of h0 h1 h2 h3 h4, folded d1_def, unfolded s]
  note D2 = dots [OF r29(3,2,1) s29(4,3), of h0 h1 h2 h3 h4, folded d2_def, unfolded s]
  note D3 = dots [OF r29(4,3,2,1) s29(4), of h0 h1 h2 h3 h4, folded d3_def, unfolded s]
  note D4 = dots [OF r29(5,4,3,2,1), of h0 h1 h2 h3 h4, folded d4_def]
  define e1 where "e1 = d1 + drop_bit 26 d0"
  define e2 where "e2 = d2 + drop_bit 26 e1"
  define e3 where "e3 = d3 + drop_bit 26 e2"
  define e4 where "e4 = d4 + drop_bit 26 e3"
  have D0': "unat d0 \<le> 5 * 2 ^ 61 + 2 ^ 40" using D0(2) by simp
  note E1 = unat_carry [OF D1(2) D0', folded e1_def]
  note E2 = unat_carry [OF D2(2) E1(2), folded e2_def]
  note E3 = unat_carry [OF D3(2) E2(2), folded e3_def]
  note E4 = unat_carry [OF D4(2) E3(2), folded e4_def]
  have hb: "unat h0 \<le> 45 * 2 ^ 26" "unat h1 \<le> 2 ^ 27" "unat h2 \<le> 2 ^ 27" "unat h3 \<le> 2 ^ 27"
      "unat h4 \<le> 2 ^ 26 + 2 ^ 25"
    using h by (simp_all add: pre_mul_def)
  have "unat d4 \<le> (45 * 2 ^ 26) * 2 ^ 20 + 2 ^ 27 * 2 ^ 26 + 2 ^ 27 * 2 ^ 26 + 2 ^ 27 * 2 ^ 26
      + (2 ^ 26 + 2 ^ 25) * 2 ^ 26"
    unfolding D4(1) using hb rb by (intro add_mono mul_le) simp_all
  moreover have "unat e3 div 2 ^ 26 \<le> (5 * 2 ^ 61 + 2 ^ 40) div 2 ^ 26"
    using E3(2) by (rule div_le_mono)
  ultimately have "unat e4 \<le> 8 * 2 ^ 52 + 2 ^ 50"
    unfolding E4(1) by simp
  then have c4: "unat e4 div 2 ^ 26 \<le> (8 * 2 ^ 52 + 2 ^ 50) div 2 ^ 26"
    by (rule div_le_mono)
  have "unat (ucast (drop_bit 26 e4) :: u32) = unat e4 div 2 ^ 26"
    using c4 by (simp add: unat_ucast_mod unat_drop)
  moreover from this c4 have "unat (ucast (drop_bit 26 e4) * 5 :: u32) = unat e4 div 2 ^ 26 * 5"
    by (subst unat_mult_eq) simp_all
  moreover have low: "unat d0 mod 2 ^ 26 < 2 ^ 26" by simp
  moreover have h0_less: "unat d0 mod 2 ^ 26 + unat e4 div 2 ^ 26 * 5 < 44 * 2 ^ 26"
    by (rule fold_bound [OF low]) (use c4 in simp)
  ultimately have h0': "unat (ucast (d0 AND 0x03FFFFFF) + ucast (drop_bit 26 e4) * 5 :: u32)
      = unat d0 mod 2 ^ 26 + unat e4 div 2 ^ 26 * 5"
    by (subst unat_add_eq) (simp_all add: unat_low26)
  have res: "poly1305_mul r h =
      (ucast (d0 AND 0x03FFFFFF) + ucast (drop_bit 26 e4) * 5, ucast (e1 AND 0x03FFFFFF),
       ucast (e2 AND 0x03FFFFFF), ucast (e3 AND 0x03FFFFFF), ucast (e4 AND 0x03FFFFFF))"
    by (simp add: poly1305_mul_def Let_def d0_def d1_def d2_def d3_def d4_def e1_def e2_def e3_def e4_def)
  have ok: "limbs_ok (poly1305_mul r h)"
    unfolding res limbs_ok_def using h0_less by (simp add: h0' unat_low26)
  have "val h * val r = unat d0 + unat d1 * 2 ^ 26 + unat d2 * (2 ^ 26)^2 + unat d3 * (2 ^ 26)^3
      + unat d4 * (2 ^ 26)^4 + poly_p *
      (unat h1 * unat r4 + unat h2 * unat r3 + unat h3 * unat r2 + unat h4 * unat r1
       + (unat h2 * unat r4 + unat h3 * unat r3 + unat h4 * unat r2) * 2 ^ 26
       + (unat h3 * unat r4 + unat h4 * unat r3) * (2 ^ 26)^2 + unat h4 * unat r4 * (2 ^ 26)^3)"
    (is "_ = ?D + poly_p * ?Q")
    unfolding D0(1) D1(1) D2(1) D3(1) D4(1) limb_ring [OF poly_p_eq, symmetric]
    by (simp add: val_def)
  also have "?D = val (poly1305_mul r h) + poly_p * (unat e4 div 2 ^ 26)"
    using carry_chain [OF refl E1(1) E2(1) E3(1) E4(1)]
    unfolding res val_def by (simp add: h0' unat_low26)
  finally have "val h * val r = val (poly1305_mul r h) + poly_p * (unat e4 div 2 ^ 26 + ?Q)"
    by (simp only: distrib_left add.assoc)
  then have "val h * val r mod poly_p = val (poly1305_mul r h) mod poly_p"
    by (simp only: mod_mult_self2)
  with ok show ?thesis by simp
qed

section \<open>Adding a block\<close>

lemma load_at_take: "i + 4 \<le> n \<Longrightarrow> load_at i (take n p) = load_at i p"
  by (simp add: load_at_def mslice_def drop_take take_take min_def)

lemma unat_load_top:
  assumes "length p = 16"
  shows "unat (drop_bit 8 (load_at 12 p)) = limb 4 (le_nat p)" and "limb 4 (le_nat p) < 2 ^ 24"
proof -
  have n: "le_nat p < 2 ^ 128" using le_nat_less [of p] assms by (simp add: power_mult [symmetric])
  have "unat (drop_bit 8 (load_at 12 p)) = drop_bit 8 (take_bit 32 (drop_bit 96 (le_nat p)))"
    using assms by (simp only: unat_drop_bit_eq) (simp add: unat_load_at)
  also have "\<dots> = take_bit 24 (drop_bit 104 (le_nat p))"
    by (simp add: drop_bit_take_bit drop_bit_drop_bit)
  also have "take_bit 24 (drop_bit 104 (le_nat p)) = drop_bit 104 (le_nat p)"
    using n by (simp add: take_bit_nat_eq_self_iff drop_bit_eq_div div_less_iff_less_mult)
  finally have top: "unat (drop_bit 8 (load_at 12 p)) = drop_bit 104 (le_nat p)" .
  have d: "drop_bit 104 (le_nat p) < 2 ^ 24"
    using n by (simp add: drop_bit_eq_div div_less_iff_less_mult)
  then have "limb 4 (le_nat p) = drop_bit 104 (le_nat p)"
    by (simp add: limb_def take_bit_nat_eq_self_iff)
  with top d show "unat (drop_bit 8 (load_at 12 p)) = limb 4 (le_nat p)" and "limb 4 (le_nat p) < 2 ^ 24"
    by simp_all
qed

lemma limb_loads:
  assumes "length p = 16"
  shows "unat (load_at 0 p AND 0x03FFFFFF) = limb 0 (le_nat p)"
    and "unat (drop_bit 2 (load_at 3 p) AND 0x03FFFFFF) = limb 1 (le_nat p)"
    and "unat (drop_bit 4 (load_at 6 p) AND 0x03FFFFFF) = limb 2 (le_nat p)"
    and "unat (drop_bit 6 (load_at 9 p) AND 0x03FFFFFF) = limb 3 (le_nat p)"
  using limb_load [of 0 p 0 0] limb_load [of 3 p 1 2] limb_load [of 6 p 2 4] limb_load [of 9 p 3 6] assms
  by simp_all

lemma le_nat_16: "length p = 16 \<Longrightarrow> le_nat p < 2 ^ 130"
  using le_nat_less [of p] by simp

lemma poly1305_add_val:
  assumes h: "limbs_ok h" and p: "length p = 16" and hb: "unat hibit \<le> 2 ^ 24"
  shows "pre_mul (poly1305_add hibit h p)"
    and "val (poly1305_add hibit h p) = val h + le_nat p + unat hibit * 2 ^ 104"
proof -
  obtain h0 h1 h2 h3 h4 where [simp]: "h = (h0, h1, h2, h3, h4)" by (cases h) auto
  have b: "unat h0 < 44 * 2 ^ 26" "unat h1 < 2 ^ 26" "unat h2 < 2 ^ 26" "unat h3 < 2 ^ 26" "unat h4 < 2 ^ 26"
    using h by (simp_all add: limbs_ok_def)
  note l = limb_loads [OF p] unat_load_top(1) [OF p]
  note lb = limb_less [of 0 "le_nat p"] limb_less [of 1 "le_nat p"] limb_less [of 2 "le_nat p"]
    limb_less [of 3 "le_nat p"] unat_load_top(2) [OF p]
  have u: "unat (h0 + (load_at 0 p AND 0x03FFFFFF)) = unat h0 + limb 0 (le_nat p)"
    "unat (h1 + (drop_bit 2 (load_at 3 p) AND 0x03FFFFFF)) = unat h1 + limb 1 (le_nat p)"
    "unat (h2 + (drop_bit 4 (load_at 6 p) AND 0x03FFFFFF)) = unat h2 + limb 2 (le_nat p)"
    "unat (h3 + (drop_bit 6 (load_at 9 p) AND 0x03FFFFFF)) = unat h3 + limb 3 (le_nat p)"
    using b lb by (simp_all add: unat_add_eq l)
  have u4: "unat (h4 + hibit + drop_bit 8 (load_at 12 p)) = unat h4 + unat hibit + limb 4 (le_nat p)"
    using b(5) lb(5) hb by (simp add: unat_add_eq l)
  show "pre_mul (poly1305_add hibit h p)"
    unfolding pre_mul_def poly1305_add_def using b lb hb by (simp add: u u4)
  show "val (poly1305_add hibit h p) = val h + le_nat p + unat hibit * 2 ^ 104"
    using limbs_sum [OF le_nat_16 [OF p]]
    by (simp add: val_def poly1305_add_def u u4)
qed

text \<open>The clamped key half.\<close>

lemma clamp_limbs:
  "limb 0 clamp_mask = 0x03FFFFFF" "limb 1 clamp_mask = 0x03FFFF03" "limb 2 clamp_mask = 0x03FFC0FF"
  "limb 3 clamp_mask = 0x03F03FFF" "limb 4 clamp_mask = 0x000FFFFF"
  by (simp_all add: limb_def clamp_mask_def take_bit_eq_mod drop_bit_eq_div)

lemma unat_and_sub:
  assumes "(m :: u32) = 0x03FFFFFF AND m"
  shows "unat (w AND m) = unat (w AND 0x03FFFFFF) AND unat m"
proof -
  have "w AND m = (w AND 0x03FFFFFF) AND m" using assms by (metis and.assoc)
  then show ?thesis by (simp only: unsigned_and_eq)
qed

lemma and_le: "a AND b \<le> (b :: nat)"
  by (metis and.commute and_nat_def nat_le_eq_zle AND_upper2 of_nat_0_le_iff nat_int zle_int int_nat_eq)

lemma poly1305_r_val:
  assumes "16 \<le> length key"
  shows "r_ok (poly1305_r key)" and "val (poly1305_r key) = le_nat (take 16 key) AND clamp_mask"
proof -
  define p where "p = take 16 key"
  have p: "length p = 16" using assms by (simp add: p_def)
  have r: "poly1305_r key = (load_at 0 p AND 0x03FFFFFF, drop_bit 2 (load_at 3 p) AND 0x03FFFF03,
      drop_bit 4 (load_at 6 p) AND 0x03FFC0FF, drop_bit 6 (load_at 9 p) AND 0x03F03FFF,
      drop_bit 8 (load_at 12 p) AND 0x000FFFFF)"
    by (simp add: poly1305_r_def p_def load_at_take)
  note l = limb_loads [OF p] unat_load_top(1) [OF p]
  have u: "unat (load_at 0 p AND 0x03FFFFFF) = limb 0 (le_nat p AND clamp_mask)"
    "unat (drop_bit 2 (load_at 3 p) AND 0x03FFFF03) = limb 1 (le_nat p AND clamp_mask)"
    "unat (drop_bit 4 (load_at 6 p) AND 0x03FFC0FF) = limb 2 (le_nat p AND clamp_mask)"
    "unat (drop_bit 6 (load_at 9 p) AND 0x03F03FFF) = limb 3 (le_nat p AND clamp_mask)"
    "unat (drop_bit 8 (load_at 12 p) AND 0x000FFFFF) = limb 4 (le_nat p AND clamp_mask)"
    unfolding limb_and clamp_limbs l [symmetric]
    by (simp_all add: unat_and_sub [of "0x03FFFF03"] unat_and_sub [of "0x03FFC0FF"]
        unat_and_sub [of "0x03F03FFF"] unsigned_and_eq and.assoc)
  have "limb 4 (le_nat p AND clamp_mask) < 2 ^ 20"
    unfolding limb_and clamp_limbs using and_le [of "limb 4 (le_nat p)" "0x000FFFFF"] by simp
  then show "r_ok (poly1305_r key)"
    unfolding r r_ok_def by (simp add: u del: limb_and) (simp add: limb_less [simplified])
  have "le_nat p AND clamp_mask \<le> clamp_mask" by (rule and_le)
  then have "le_nat p AND clamp_mask < 2 ^ 130" by (simp add: clamp_mask_def)
  then show "val (poly1305_r key) = le_nat (take 16 key) AND clamp_mask"
    unfolding r val_def p_def [symmetric] using limbs_sum by (simp add: u)
qed

section \<open>The loop\<close>

lemma poly1305_pass_correct:
  assumes "r_ok r" and "limbs_ok h" and "length p = 16" and "unat hibit \<le> 2 ^ 24"
  shows "limbs_ok (poly1305_pass r hibit h p)"
    and "val (poly1305_pass r hibit h p) mod poly_p
      = (val h mod poly_p + (le_nat p + unat hibit * 2 ^ 104)) * val r mod poly_p"
proof -
  note m = poly1305_mul_correct [OF assms(1) poly1305_add_val(1) [OF assms(2-4)]]
  show "limbs_ok (poly1305_pass r hibit h p)"
    using m by (simp add: poly1305_pass_def)
  have "val (poly1305_pass r hibit h p) mod poly_p
      = (val h + (le_nat p + unat hibit * 2 ^ 104)) * val r mod poly_p"
    using m by (simp add: poly1305_pass_def poly1305_add_val(2) [OF assms(2-4)] add.assoc)
  also have "\<dots> = (val h mod poly_p + (le_nat p + unat hibit * 2 ^ 104)) * val r mod poly_p"
    by (metis mod_add_left_eq mod_mult_left_eq)
  finally show "val (poly1305_pass r hibit h p) mod poly_p
      = (val h mod poly_p + (le_nat p + unat hibit * 2 ^ 104)) * val r mod poly_p" .
qed

lemma poly1305_pass_take: "poly1305_pass r hibit h (take 16 p) = poly1305_pass r hibit h p"
  by (simp add: poly1305_pass_def poly1305_add_def load_at_take)

lemma le_nat_zeros: "le_nat (replicate n 0) = 0"
  by (induction n) auto

lemma poly1305_loop_correct:
  "r_ok r \<Longrightarrow> limbs_ok h \<Longrightarrow>
    limbs_ok (poly1305_loop r h msg)
    \<and> val (poly1305_loop r h msg) mod poly_p = poly1305_eval (val r) (val h mod poly_p) msg"
proof (induction r h msg rule: poly1305_loop.induct)
  case (1 r h msg)
  consider (full) "16 \<le> length msg" | (part) "length msg < 16" "msg \<noteq> []" | (nil) "msg = []"
    by fastforce
  then show ?case
  proof cases
    case full
    then have len: "length (take 16 msg) = 16" by simp
    note pass = poly1305_pass_correct [OF "1.prems" len, where hibit = "0x01000000", unfolded poly1305_pass_take]
    have "le_nat (take 16 msg @ [1]) = le_nat (take 16 msg) + unat (0x01000000 :: u32) * 2 ^ 104"
      using full by (simp add: le_nat_append)
    moreover have "msg \<noteq> []" using full by auto
    ultimately show ?thesis using full "1.IH"(1) [OF full "1.prems"(1)] pass
      by (simp add: poly1305_loop.simps [of r h msg] poly1305_eval.simps [of "val r" _ msg])
  next
    case part
    let ?p = "msg @ [1] @ replicate (15 - length msg) 0"
    have len: "length ?p = 16" using part by simp
    note pass = poly1305_pass_correct [OF "1.prems" len, where hibit = 0]
    have "le_nat ?p = le_nat (take 16 msg @ [1])"
      using part by (simp add: le_nat_append le_nat_zeros)
    with part pass show ?thesis
      by (simp add: poly1305_loop.simps [of r h msg] poly1305_eval.simps [of "val r" _ msg]
          poly1305_eval.simps [of "val r" _ "[]"])
  next
    case nil
    with "1.prems" show ?thesis
      by (simp add: poly1305_loop.simps [of r h "[]"] poly1305_eval.simps [of "val r" _ "[]"])
  qed
qed

section \<open>The final reduction\<close>

text \<open>Adding 5 carries out of the top limb exactly when the value reaches \<open>2 ^ 130 - 5\<close>.\<close>

lemma final_carry:
  fixes H :: nat
  assumes "H < 2 ^ 130 + 2 ^ 32" and "c = (H + 5) div 2 ^ 130"
  shows "H + 5 * c = H mod poly_p + c * 2 ^ 130" and "c \<le> 1"
proof -
  show c1: "c \<le> 1"
    using assms by (simp add: less_Suc_eq_le [symmetric] div_less_iff_less_mult)
  have p: "poly_p + 5 = 2 ^ 130" by (simp add: poly_p_def)
  show "H + 5 * c = H mod poly_p + c * 2 ^ 130"
  proof (cases "H + 5 < 2 ^ 130")
    case True
    with assms have "c = 0" by simp
    moreover from True p have "H < poly_p" by simp
    ultimately show ?thesis by simp
  next
    case False
    then have "c \<noteq> 0" using assms(2) by (simp add: div_eq_0_iff)
    with c1 have c: "c = 1" by simp
    from False p have "poly_p \<le> H" by simp
    moreover have "H - poly_p < poly_p" using assms(1) by (simp add: poly_p_def)
    ultimately have "H mod poly_p = H - poly_p" by (metis le_mod_geq mod_less)
    with \<open>poly_p \<le> H\<close> p c show ?thesis by simp
  qed
qed

lemma sum4_carry:
  fixes W :: nat
  assumes "E2 = D2 + D1 div W" and "E3 = D3 + E2 div W" and "E4 = D4 + E3 div W" and "0 < W"
  shows "D1 mod W + W * (E2 mod W) + W^2 * (E3 mod W) + W^3 * (E4 mod W)
    = (D1 + D2 * W + D3 * W^2 + D4 * W^3) mod W^4" (is "?R = _")
proof -
  have "D1 + D2 * W + D3 * W^2 + D4 * W^3 + 0 * W^4
    = D1 mod W + (E2 mod W) * W + (E3 mod W) * W^2 + (E4 mod W) * W^3 + 0 * W^4 + 0 * W^5
      + (E4 div W) * W^4"
    using carry_ring [of D1 "D1 mod W" "D1 div W" W D2 "E2 mod W" "E2 div W" D3 "E3 mod W" "E3 div W"
        D4 "E4 mod W" "E4 div W" 0 "E4 div W" 0] assms by (simp add: algebra_simps)
  then have "D1 + D2 * W + D3 * W^2 + D4 * W^3 = ?R + (E4 div W) * W^4"
    by (simp add: algebra_simps)
  moreover have "?R < W^4"
  proof -
    have le: "x mod W \<le> W - 1" for x using assms(4) by (simp add: Suc_leI less_imp_le_nat le_diff_conv2 Suc_le_eq)
    have "?R \<le> (W - 1) + W * (W - 1) + W^2 * (W - 1) + W^3 * (W - 1)"
      by (intro add_mono mult_le_mono2 le)
    also have "\<dots> < W ^ 4"
      using assms(4) by (cases W) (simp_all add: eval_nat_numeral algebra_simps)
    finally show ?thesis .
  qed
  ultimately show ?thesis by simp
qed

lemma unat_shl: "unat (push_bit n (w :: u32)) = unat w * 2 ^ n mod 2 ^ 32"
  by (simp only: unsigned_push_bit_eq take_bit_eq_mod [where 'a = nat] push_bit_eq_mult [where 'a = nat]) simp

lemma shift_split:
  assumes "n \<le> 32"
  shows "w * 2 ^ n mod 2 ^ 32 + (w div 2 ^ (32 - n)) * 2 ^ 32 = (w :: nat) * 2 ^ n"
proof -
  have "w div 2 ^ (32 - n) = w * 2 ^ n div 2 ^ 32"
    using assms by (metis div_mult_mult1 le_add_diff_inverse mult.commute power_add power_not_zero zero_neq_numeral)
  then show ?thesis by simp
qed

lemma unat_ucast64: "unat (ucast (w :: u32) :: u64) = unat w"
  using unat_u32_less [of w] by (simp add: unat_ucast_mod)

lemma le_nat_mslice16:
  assumes "length key = 32"
  shows "le_nat (mslice 16 16 key) = unat (load_at 16 key) + unat (load_at 20 key) * 2 ^ 32
    + unat (load_at 24 key) * (2 ^ 32)^2 + unat (load_at 28 key) * (2 ^ 32)^3"
proof -
  have "mslice 16 16 key = mslice 16 4 key @ mslice 20 4 key @ mslice 24 4 key @ mslice 28 4 key"
    using take_add [of 4 12 "drop 16 key"] take_add [of 4 8 "drop 20 key"] take_add [of 4 4 "drop 24 key"]
    by (simp add: mslice_def)
  then show ?thesis using assms
    by (simp add: le_nat_append load_at_def unat_load32_le)
qed

lemma add4:
  fixes a b c d :: u64
  assumes "unat a < 2 ^ 32" "unat b < 2 ^ 32" "unat c < 2 ^ 32" "unat d < 2 ^ 32"
  shows "unat (a + b + c) = unat a + unat b + unat c" and "unat (a + b + c + d) = unat a + unat b + unat c + unat d"
    and "unat (a + b + c + d) < 2 ^ 34"
  using assms by (simp_all add: unat_add_eq)

lemma unat_shr32: "unat (d :: u64) div 2 ^ 32 < 2 ^ 32"
  using unat_less [of d] by (simp add: div_less_iff_less_mult)

lemma le_nat_store64: "le_nat (store32_le (ucast (d :: u64))) = unat d mod 2 ^ 32"
  by (simp add: le_nat_store32 unat_ucast_mod)

lemma poly1305_finish_val:
  assumes h: "limbs_ok h" and key: "length key = 32"
  shows "le_nat (poly1305_finish key h) = (val h mod poly_p + le_nat (mslice 16 16 key)) mod 2 ^ 128"
proof -
  obtain h0 h1 h2 h3 h4 where [simp]: "h = (h0, h1, h2, h3, h4)" by (cases h) auto
  have b: "unat h0 < 44 * 2 ^ 26" "unat h1 < 2 ^ 26" "unat h2 < 2 ^ 26" "unat h3 < 2 ^ 26" "unat h4 < 2 ^ 26"
    using h by (simp_all add: limbs_ok_def)
  define c0 c1 c2 c3 c4 where "c0 = drop_bit 26 (h0 + 5)" and "c1 = drop_bit 26 (h1 + c0)"
    and "c2 = drop_bit 26 (h2 + c1)" and "c3 = drop_bit 26 (h3 + c2)" and "c4 = drop_bit 26 (h4 + c3)"
  have cc: "unat (drop_bit 26 (x + y)) = (unat x + unat y) div 2 ^ 26 \<and> unat (drop_bit 26 (x + y)) \<le> 45"
    if "unat x < 44 * 2 ^ 26" "unat y \<le> 45" for x y :: u32
  proof -
    have "unat (x + y) = unat x + unat y" using that by (simp add: unat_add_eq)
    moreover have "(unat x + unat y) div 2 ^ 26 \<le> (44 * 2 ^ 26 + 45) div 2 ^ 26"
      using that by (intro div_le_mono) simp
    ultimately show ?thesis by (simp add: unat_drop)
  qed
  have C0: "unat c0 = (unat h0 + 5) div 2 ^ 26" "unat c0 \<le> 45"
    using cc [of h0 5] b by (simp_all add: c0_def)
  have C1: "unat c1 = (unat h1 + unat c0) div 2 ^ 26" "unat c1 \<le> 45"
    using cc [of h1 c0] b C0(2) by (simp_all add: c1_def)
  have C2: "unat c2 = (unat h2 + unat c1) div 2 ^ 26" "unat c2 \<le> 45"
    using cc [of h2 c1] b C1(2) by (simp_all add: c2_def)
  have C3: "unat c3 = (unat h3 + unat c2) div 2 ^ 26" "unat c3 \<le> 45"
    using cc [of h3 c2] b C2(2) by (simp_all add: c3_def)
  have C4: "unat c4 = (unat h4 + unat c3) div 2 ^ 26" "unat c4 \<le> 45"
    using cc [of h4 c3] b C3(2) by (simp_all add: c4_def)
  define V where "V = val h"
  have sum5: "(unat h0 + 5) + unat h1 * 2^26 + unat h2 * (2^26)^2 + unat h3 * (2^26)^3 + unat h4 * (2^26)^4
    = (unat h0 + 5) mod 2^26 + (unat h1 + unat c0) mod 2^26 * 2^26 + (unat h2 + unat c1) mod 2^26 * (2^26)^2
      + (unat h3 + unat c2) mod 2^26 * (2^26)^3 + (unat h4 + unat c3) mod 2^26 * (2^26)^4
      + unat c4 * (2^26)^5"
    by (rule carry_ring [where ?q0.0 = "unat c0" and ?q1.0 = "unat c1" and ?q2.0 = "unat c2" and ?q3.0 = "unat c3"])
      (simp_all only: C0(1) C1(1) C2(1) C3(1) C4(1) mod_div_mult_eq)
  have top: "limb5 < (2::nat)^130" if "limb5 = x0 mod 2^26 + x1 mod 2^26 * 2^26 + x2 mod 2^26 * (2^26)^2
      + x3 mod 2^26 * (2^26)^3 + x4 mod 2^26 * (2^26)^4" for x0 x1 x2 x3 x4 limb5
  proof -
    have "x mod 2^26 \<le> 2^26 - 1" for x :: nat by (simp add: less_Suc_eq_le [symmetric])
    note m = this [of x0] this [of x1] this [of x2] this [of x3] this [of x4]
    then show ?thesis unfolding that by simp
  qed
  have "V + 5 = (unat h0 + 5) mod 2^26 + (unat h1 + unat c0) mod 2^26 * 2^26 + (unat h2 + unat c1) mod 2^26 * (2^26)^2
      + (unat h3 + unat c2) mod 2^26 * (2^26)^3 + (unat h4 + unat c3) mod 2^26 * (2^26)^4
      + unat c4 * 2^130" (is "_ = ?M + _")
    unfolding V_def val_def using sum5 by simp
  moreover have "?M < 2 ^ 130" by (rule top) (rule refl)
  ultimately have c4: "unat c4 = (V + 5) div 2 ^ 130" by simp
  have "V < 2 ^ 130 + 2 ^ 32" unfolding V_def val_def using b by simp
  note fin = final_carry [OF this c4]
  define g where "g = h0 + c4 * 5"
  have "unat (c4 * 5) = unat c4 * 5" using fin(2) by (subst unat_mult_eq) simp_all
  then have g: "unat g = unat h0 + 5 * unat c4" unfolding g_def using fin(2) b by (subst unat_add_eq) simp_all
  define d1 where "d1 = (ucast (load_at 16 key) :: u64) + ucast g + ucast (push_bit 26 h1)"
  define d2 where "d2 = (ucast (load_at 20 key) :: u64) + ucast (drop_bit 6 h1) + ucast (push_bit 20 h2) + drop_bit 32 d1"
  define d3 where "d3 = (ucast (load_at 24 key) :: u64) + ucast (drop_bit 12 h2) + ucast (push_bit 14 h3) + drop_bit 32 d2"
  define d4 where "d4 = (ucast (load_at 28 key) :: u64) + ucast (drop_bit 18 h3) + ucast (push_bit 8 h4) + drop_bit 32 d3"
  have w: "unat (ucast (x :: u32) :: u64) < 2 ^ 32" for x using unat_u32_less [of x] by (simp add: unat_ucast64)
  have sh: "unat (drop_bit 32 (d :: u64)) < 2 ^ 32" for d using unat_shr32 [of d] by (simp only: unat_drop)
  have E: "unat d1 = unat (load_at 16 key) + unat g + unat h1 * 2 ^ 26 mod 2 ^ 32"
    "unat d2 = (unat (load_at 20 key) + unat h1 div 2 ^ 6 + unat h2 * 2 ^ 20 mod 2 ^ 32) + unat d1 div 2 ^ 32"
    "unat d3 = (unat (load_at 24 key) + unat h2 div 2 ^ 12 + unat h3 * 2 ^ 14 mod 2 ^ 32) + unat d2 div 2 ^ 32"
    "unat d4 = (unat (load_at 28 key) + unat h3 div 2 ^ 18 + unat h4 * 2 ^ 8 mod 2 ^ 32) + unat d3 div 2 ^ 32"
    unfolding d1_def d2_def d3_def d4_def
    by (simp_all only: add4 [OF w w w sh] unat_ucast64 unat_drop unat_shl)
  have "le_nat (poly1305_finish key h) = unat d1 mod 2 ^ 32 + 2 ^ 32 * (unat d2 mod 2 ^ 32)
      + (2 ^ 32)^2 * (unat d3 mod 2 ^ 32) + (2 ^ 32)^3 * (unat d4 mod 2 ^ 32)"
    by (simp add: poly1305_finish_def Let_def le_nat_append le_nat_store64
        flip: c0_def c1_def c2_def c3_def c4_def g_def d1_def d2_def d3_def d4_def)
  also have "\<dots> = (unat d1 + (unat (load_at 20 key) + unat h1 div 2 ^ 6 + unat h2 * 2 ^ 20 mod 2 ^ 32) * 2 ^ 32
      + (unat (load_at 24 key) + unat h2 div 2 ^ 12 + unat h3 * 2 ^ 14 mod 2 ^ 32) * (2 ^ 32)^2
      + (unat (load_at 28 key) + unat h3 div 2 ^ 18 + unat h4 * 2 ^ 8 mod 2 ^ 32) * (2 ^ 32)^3) mod (2 ^ 32) ^ 4"
    (is "_ = ?T mod _")
    by (rule sum4_carry [OF E(2-4)]) simp
  also have "\<dots> = (?T + (unat h4 div 2 ^ 24) * (2 ^ 32) ^ 4) mod (2 ^ 32) ^ 4" by simp
  also have "?T + (unat h4 div 2 ^ 24) * (2 ^ 32) ^ 4 = le_nat (mslice 16 16 key) + (V + 5 * unat c4)"
    using shift_split [of 26 "unat h1"] shift_split [of 20 "unat h2"] shift_split [of 14 "unat h3"]
      shift_split [of 8 "unat h4"]
    unfolding le_nat_mslice16 [OF key] E(1) g V_def val_def by simp
  also have "(le_nat (mslice 16 16 key) + (V + 5 * unat c4)) mod (2 ^ 32) ^ 4
      = (V mod poly_p + le_nat (mslice 16 16 key)) mod 2 ^ 128"
  proof -
    have "le_nat (mslice 16 16 key) + (V + 5 * unat c4)
        = (V mod poly_p + le_nat (mslice 16 16 key)) + (unat c4 * 4) * 2 ^ 128"
      unfolding fin(1) by simp
    moreover have "((2::nat) ^ 32) ^ 4 = 2 ^ 128" by simp
    ultimately show ?thesis by (simp only: mod_mult_self1)
  qed
  finally show ?thesis by (simp only: V_def)
qed

lemma poly1305_refines:
  assumes "length key = 32"
  shows "le_nat (poly1305 msg key) = poly1305_ref msg key"
proof -
  have "16 \<le> length key" using assms by simp
  note r = poly1305_r_val [OF this]
  have z: "limbs_ok (0, 0, 0, 0, 0)" "val (0, 0, 0, 0, 0) = 0"
    by (simp_all add: limbs_ok_def val_def)
  note loop = poly1305_loop_correct [OF r(1) z(1), of msg]
  show ?thesis
    using poly1305_finish_val [OF conjunct1 [OF loop] assms] loop
    by (simp add: poly1305_def poly1305_ref_def r(2) z(2))
qed

section \<open>Tag comparison\<close>

lemma foldl_or_zero: "foldl (\<lambda>d i. d OR f i) d is = (0 :: u8) \<longleftrightarrow> d = 0 \<and> (\<forall>i \<in> set is. f i = 0)"
  by (induction "is" arbitrary: d) (auto simp: or_eq_0_iff)

lemma xor_zero_iff: "a XOR b = 0 \<longleftrightarrow> a = (b :: 'a::len word)"
  by (metis xor_self_eq xor.right_neutral xor.assoc xor.left_neutral)

lemma poly1305_tagcmp_zero:
  assumes "length t1 = 16" and "length t2 = 16"
  shows "poly1305_tagcmp t1 t2 = 0 \<longleftrightarrow> t1 = t2"
  using assms unfolding poly1305_tagcmp_def foldl_or_zero xor_zero_iff
  by (auto simp: list_eq_iff_nth_eq)

section \<open>Properties\<close>

text \<open>The limb arithmetic of \<open>poly1305\<close> computes the authenticator of RFC 8439: the polynomial of
  the message blocks at the clamped \<open>r\<close>, modulo \<open>2 ^ 130 - 5\<close>, plus \<open>s\<close>, modulo \<open>2 ^ 128\<close>, with no
  intermediate 32- or 64-bit word losing a carry, for every message and every 32-byte key.\<close>

theorem poly1305_authenticator:
  "length key = 32 \<Longrightarrow> le_nat (poly1305 msg key) = poly1305_ref msg key"
  by (rule poly1305_refines)

lemma poly1305_authenticator_witness:
  "le_nat (poly1305 [1, 2, 3] (replicate 32 255)) = poly1305_ref [1, 2, 3] (replicate 32 255)"
  by (rule poly1305_authenticator) simp

text \<open>The comparison of tags without an early exit is zero exactly when the tags agree.\<close>

theorem poly1305_tagcmp_equal:
  "length t1 = 16 \<Longrightarrow> length t2 = 16 \<Longrightarrow> poly1305_tagcmp t1 t2 = 0 \<longleftrightarrow> t1 = t2"
  by (rule poly1305_tagcmp_zero)

lemma poly1305_tagcmp_equal_witness:
  "poly1305_tagcmp (replicate 16 1) (replicate 16 0) = 0 \<longleftrightarrow> replicate 16 (1 :: u8) = replicate 16 0"
  by (rule poly1305_tagcmp_equal) simp_all

end
