(* ===== verification/Md5.thy ===== *)
theory Md5
  imports Prelude
begin

text \<open>
  The MD5 message digest inside \<open>sqlite3.c\<close> (\<open>MD5_Init\<close>, \<open>MD5_Update\<close>, \<open>MD5_Final\<close>, the block loop
  \<open>body\<close>), from which the page ciphers derive initial vectors.  The context buffers a partial block
  and counts bytes in a 29-bit word with a carry word; the lemmas show that a context represents the
  concatenation of everything fed to it, so that the digest is the compression of the padded message
  of RFC 1321 however the message was cut into updates.
\<close>

section \<open>The compression function\<close>

datatype md5_fun = MD5_F | MD5_G | MD5_H | MD5_H2 | MD5_I

fun md5_f :: "md5_fun \<Rightarrow> u32 \<Rightarrow> u32 \<Rightarrow> u32 \<Rightarrow> u32" where
  "md5_f MD5_F x y z = z XOR (x AND (y XOR z))"
| "md5_f MD5_G x y z = y XOR (z AND (x XOR y))"
| "md5_f MD5_H x y z = (x XOR y) XOR z"
| "md5_f MD5_H2 x y z = x XOR (y XOR z)"
| "md5_f MD5_I x y z = y XOR (x OR NOT z)"

type_synonym md5_regs = "u32 \<times> u32 \<times> u32 \<times> u32"

text \<open>
  The macro \<open>STEP\<close>.  The code names the registers \<open>a\<close>, \<open>d\<close>, \<open>c\<close>, \<open>b\<close> in turn as the one that changes;
  the model rotates the tuple instead, so every fourth step is back in the order \<open>a, b, c, d\<close>.
\<close>

definition md5_step :: "bytes \<Rightarrow> md5_regs \<Rightarrow> md5_fun \<times> nat \<times> u32 \<times> nat \<Rightarrow> md5_regs" where
  "md5_step ptr r st =
    (let (a, b, c, d) = r; (f, n, t, s) = st;
         a = a + (md5_f f b c d + load32_le (mslice (4 * n) 4 ptr) + t);
         a = push_bit s a OR drop_bit (32 - s) (a AND 0xffffffff);
         a = a + b
     in (d, a, b, c))"

definition md5_steps :: "(md5_fun \<times> nat \<times> u32 \<times> nat) list" where
  "md5_steps = [
    (MD5_F, 0, 0xd76aa478, 7), (MD5_F, 1, 0xe8c7b756, 12), (MD5_F, 2, 0x242070db, 17), (MD5_F, 3, 0xc1bdceee, 22),
    (MD5_F, 4, 0xf57c0faf, 7), (MD5_F, 5, 0x4787c62a, 12), (MD5_F, 6, 0xa8304613, 17), (MD5_F, 7, 0xfd469501, 22),
    (MD5_F, 8, 0x698098d8, 7), (MD5_F, 9, 0x8b44f7af, 12), (MD5_F, 10, 0xffff5bb1, 17), (MD5_F, 11, 0x895cd7be, 22),
    (MD5_F, 12, 0x6b901122, 7), (MD5_F, 13, 0xfd987193, 12), (MD5_F, 14, 0xa679438e, 17), (MD5_F, 15, 0x49b40821, 22),
    (MD5_G, 1, 0xf61e2562, 5), (MD5_G, 6, 0xc040b340, 9), (MD5_G, 11, 0x265e5a51, 14), (MD5_G, 0, 0xe9b6c7aa, 20),
    (MD5_G, 5, 0xd62f105d, 5), (MD5_G, 10, 0x02441453, 9), (MD5_G, 15, 0xd8a1e681, 14), (MD5_G, 4, 0xe7d3fbc8, 20),
    (MD5_G, 9, 0x21e1cde6, 5), (MD5_G, 14, 0xc33707d6, 9), (MD5_G, 3, 0xf4d50d87, 14), (MD5_G, 8, 0x455a14ed, 20),
    (MD5_G, 13, 0xa9e3e905, 5), (MD5_G, 2, 0xfcefa3f8, 9), (MD5_G, 7, 0x676f02d9, 14), (MD5_G, 12, 0x8d2a4c8a, 20),
    (MD5_H, 5, 0xfffa3942, 4), (MD5_H2, 8, 0x8771f681, 11), (MD5_H, 11, 0x6d9d6122, 16), (MD5_H2, 14, 0xfde5380c, 23),
    (MD5_H, 1, 0xa4beea44, 4), (MD5_H2, 4, 0x4bdecfa9, 11), (MD5_H, 7, 0xf6bb4b60, 16), (MD5_H2, 10, 0xbebfbc70, 23),
    (MD5_H, 13, 0x289b7ec6, 4), (MD5_H2, 0, 0xeaa127fa, 11), (MD5_H, 3, 0xd4ef3085, 16), (MD5_H2, 6, 0x04881d05, 23),
    (MD5_H, 9, 0xd9d4d039, 4), (MD5_H2, 12, 0xe6db99e5, 11), (MD5_H, 15, 0x1fa27cf8, 16), (MD5_H2, 2, 0xc4ac5665, 23),
    (MD5_I, 0, 0xf4292244, 6), (MD5_I, 7, 0x432aff97, 10), (MD5_I, 14, 0xab9423a7, 15), (MD5_I, 5, 0xfc93a039, 21),
    (MD5_I, 12, 0x655b59c3, 6), (MD5_I, 3, 0x8f0ccc92, 10), (MD5_I, 10, 0xffeff47d, 15), (MD5_I, 1, 0x85845dd1, 21),
    (MD5_I, 8, 0x6fa87e4f, 6), (MD5_I, 15, 0xfe2ce6e0, 10), (MD5_I, 6, 0xa3014314, 15), (MD5_I, 13, 0x4e0811a1, 21),
    (MD5_I, 4, 0xf7537e82, 6), (MD5_I, 11, 0xbd3af235, 10), (MD5_I, 2, 0x2ad7d2bb, 15), (MD5_I, 9, 0xeb86d391, 21)]"

definition md5_compress :: "md5_regs \<Rightarrow> bytes \<Rightarrow> md5_regs" where
  "md5_compress r ptr =
    (let (sa, sb, sc, sd) = r; (a, b, c, d) = foldl (md5_step ptr) r md5_steps
     in (a + sa, b + sb, c + sc, d + sd))"

text \<open>The loop of \<open>body\<close> over the whole blocks of its input.\<close>

function md5_body :: "md5_regs \<Rightarrow> bytes \<Rightarrow> md5_regs" where
  "md5_body r ptr = (if length ptr < 64 then r else md5_body (md5_compress r (take 64 ptr)) (drop 64 ptr))"
  by pat_completeness auto
termination
  by (relation "measure (\<lambda>(r, ptr). length ptr)") auto

declare md5_body.simps [simp del]

section \<open>Contexts\<close>

record md5_ctx =
  md5_lo :: u32
  md5_hi :: u32
  md5_regs :: md5_regs
  md5_buffer :: bytes

definition MD5_Init :: "bytes \<Rightarrow> md5_ctx" where
  "MD5_Init buf = \<lparr>md5_lo = 0, md5_hi = 0,
     md5_regs = (0x67452301, 0xefcdab89, 0x98badcfe, 0x10325476), md5_buffer = buf\<rparr>"

text \<open>The end of \<open>MD5_Update\<close>: the whole blocks of the data, then the rest into the buffer.\<close>

definition md5_update_rest :: "md5_ctx \<Rightarrow> bytes \<Rightarrow> md5_ctx" where
  "md5_update_rest ctx data =
    (let n = length data - length data mod 64;
         ctx = (if 64 \<le> length data
                then ctx\<lparr>md5_regs := md5_body (md5_regs ctx) (take n data)\<rparr> else ctx);
         rest = (if 64 \<le> length data then drop n data else data)
     in ctx\<lparr>md5_buffer := blit 0 rest (md5_buffer ctx)\<rparr>)"

definition MD5_Update :: "md5_ctx \<Rightarrow> bytes \<Rightarrow> md5_ctx" where
  "MD5_Update ctx data =
    (let size = (word_of_nat (length data) :: u64);
         saved_lo = md5_lo ctx;
         lo = (ucast ((ucast saved_lo + size) AND 0x1fffffff) :: u32);
         hi = (if lo < saved_lo then md5_hi ctx + 1 else md5_hi ctx) + ucast (drop_bit 29 size);
         ctx = ctx\<lparr>md5_lo := lo, md5_hi := hi\<rparr>;
         used = unat (saved_lo AND 0x3f)
     in if used \<noteq> 0 then
          (let available = 64 - used
           in if length data < available then ctx\<lparr>md5_buffer := blit used data (md5_buffer ctx)\<rparr>
              else
                (let buf = blit used (take available data) (md5_buffer ctx);
                     ctx = ctx\<lparr>md5_buffer := buf, md5_regs := md5_body (md5_regs ctx) buf\<rparr>
                 in md5_update_rest ctx (drop available data)))
        else md5_update_rest ctx data)"

definition MD5_Final :: "md5_ctx \<Rightarrow> bytes" where
  "MD5_Final ctx =
    (let used = unat (md5_lo ctx AND 0x3f);
         buf = (md5_buffer ctx)[used := 0x80];
         used = used + 1;
         available = 64 - used;
         (regs, buf, used, available) =
           (if available < 8 then
              (let buf = blit used (replicate available 0) buf
               in (md5_body (md5_regs ctx) buf, buf, 0, 64))
            else (md5_regs ctx, buf, used, available));
         buf = blit used (replicate (available - 8) 0) buf;
         lo = push_bit 3 (md5_lo ctx);
         buf = blit 56 (store32_le lo) buf;
         buf = blit 60 (store32_le (md5_hi ctx)) buf;
         (a, b, c, d) = md5_body regs buf
     in store32_le a @ store32_le b @ store32_le c @ store32_le d)"

text \<open>\<open>sqlite3mcGetMD5Binary\<close>: the context is a fresh local, whose buffer holds arbitrary bytes.\<close>

definition sqlite3mcGetMD5Binary :: "bytes \<Rightarrow> bytes \<Rightarrow> bytes" where
  "sqlite3mcGetMD5Binary junk data = MD5_Final (MD5_Update (MD5_Init junk) data)"

section \<open>The reference\<close>

definition md5_pad :: "bytes \<Rightarrow> bytes" where
  "md5_pad m = m @ [0x80] @ replicate ((119 - length m mod 64) mod 64) 0
     @ store32_le (word_of_nat (8 * length m)) @ store32_le (word_of_nat (8 * length m div 2 ^ 32))"

definition md5_iv :: md5_regs where
  "md5_iv = (0x67452301, 0xefcdab89, 0x98badcfe, 0x10325476)"

definition md5_ref :: "bytes \<Rightarrow> bytes" where
  "md5_ref m = (let (a, b, c, d) = md5_body md5_iv (md5_pad m)
     in store32_le a @ store32_le b @ store32_le c @ store32_le d)"

lemma md5_body_append:
  "64 dvd length x \<Longrightarrow> md5_body r (x @ y) = md5_body (md5_body r x) y"
proof (induction r x rule: md5_body.induct)
  case (1 r x)
  show ?case
  proof (cases "length x < 64")
    case True
    with "1.prems" have "x = []" by (auto elim: dvdE)
    then show ?thesis by (simp add: md5_body.simps [of r "[]"])
  next
    case False
    then have "64 dvd length (drop 64 x)" using "1.prems" by (simp add: dvd_diff_nat)
    with False "1.IH" show ?thesis
      by (simp add: md5_body.simps [of r "x @ y"] md5_body.simps [of r x])
  qed
qed

lemma md5_body_short: "length y < 64 \<Longrightarrow> md5_body r y = r"
  by (simp add: md5_body.simps)

lemma md5_body_take:
  "md5_body r (take (length x - length x mod 64) x) = md5_body r x"
proof -
  have "md5_body r x = md5_body r (take (length x - length x mod 64) x @ drop (length x - length x mod 64) x)"
    by simp
  also have "\<dots> = md5_body (md5_body r (take (length x - length x mod 64) x)) (drop (length x - length x mod 64) x)"
    by (rule md5_body_append) (simp add: minus_mod_eq_mult_div)
  also have "\<dots> = md5_body r (take (length x - length x mod 64) x)"
    by (rule md5_body_short) (simp add: minus_mod_eq_mult_div)
  finally show ?thesis ..
qed

section \<open>Contexts represent messages\<close>

definition md5_rep :: "md5_ctx \<Rightarrow> bytes \<Rightarrow> bool" where
  "md5_rep ctx m \<longleftrightarrow>
     md5_regs ctx = md5_body md5_iv m \<and> length (md5_buffer ctx) = 64
     \<and> take (length m mod 64) (md5_buffer ctx) = drop (length m - length m mod 64) m
     \<and> unat (md5_lo ctx) = length m mod 2 ^ 29 \<and> unat (md5_hi ctx) = length m div 2 ^ 29 mod 2 ^ 32"

lemma md5_rep_init: "length buf = 64 \<Longrightarrow> md5_rep (MD5_Init buf) []"
  by (simp add: md5_rep_def MD5_Init_def md5_iv_def md5_body_short)

lemma md5_whole: "64 dvd length m - length m mod 64" for m :: "'a list"
  by (simp add: minus_mod_eq_mult_div)

text \<open>Feeding \<open>d\<close> when no partial block is pending: \<open>m\<close> is the message up to a block boundary.\<close>

lemma md5_update_rest_rep:
  assumes "md5_regs ctx = md5_body md5_iv m" and "length (md5_buffer ctx) = 64" and "64 dvd length m"
  shows "md5_regs (md5_update_rest ctx d) = md5_body md5_iv (m @ d)"
    and "length (md5_buffer (md5_update_rest ctx d)) = 64"
    and "take (length (m @ d) mod 64) (md5_buffer (md5_update_rest ctx d))
      = drop (length (m @ d) - length (m @ d) mod 64) (m @ d)"
    and "md5_lo (md5_update_rest ctx d) = md5_lo ctx" and "md5_hi (md5_update_rest ctx d) = md5_hi ctx"
proof -
  obtain q where q: "length m = 64 * q" using assms(3) by (rule dvdE)
  have len: "length (m @ d) mod 64 = length d mod 64"
    and whole: "length (m @ d) - length (m @ d) mod 64 = length m + (length d - length d mod 64)"
    using q by simp_all
  have "md5_body md5_iv (m @ d) = md5_body (md5_body md5_iv m) d"
    by (rule md5_body_append [OF assms(3)])
  then show "md5_regs (md5_update_rest ctx d) = md5_body md5_iv (m @ d)"
    using assms(1) by (simp add: md5_update_rest_def Let_def md5_body_take md5_body_short)
  show "length (md5_buffer (md5_update_rest ctx d)) = 64"
    using assms(2) by (simp add: md5_update_rest_def Let_def length_blit)
  show "take (length (m @ d) mod 64) (md5_buffer (md5_update_rest ctx d))
      = drop (length (m @ d) - length (m @ d) mod 64) (m @ d)"
    unfolding len whole using assms(2)
    by (cases "64 \<le> length d") (simp_all add: md5_update_rest_def Let_def blit_def)
  show "md5_lo (md5_update_rest ctx d) = md5_lo ctx" and "md5_hi (md5_update_rest ctx d) = md5_hi ctx"
    by (simp_all add: md5_update_rest_def Let_def)
qed

text \<open>A partial block that stays partial, and one that is filled.\<close>

lemma md5_rep_pending:
  assumes "md5_regs ctx = md5_body md5_iv m" and "length (md5_buffer ctx) = 64"
    and "take (length m mod 64) (md5_buffer ctx) = drop (length m - length m mod 64) m"
    and "length d < 64 - length m mod 64"
  shows "md5_regs ctx = md5_body md5_iv (m @ d)"
    and "length (blit (length m mod 64) d (md5_buffer ctx)) = 64"
    and "take (length (m @ d) mod 64) (blit (length m mod 64) d (md5_buffer ctx))
      = drop (length (m @ d) - length (m @ d) mod 64) (m @ d)"
proof -
  let ?w = "length m - length m mod 64"
  have mod: "length (m @ d) mod 64 = length m mod 64 + length d"
  proof -
    have "length (m @ d) mod 64 = (length m mod 64 + length d) mod 64" by (simp add: mod_simps)
    then show ?thesis using assms(4) by simp
  qed
  have w: "length (m @ d) - length (m @ d) mod 64 = ?w" unfolding mod by simp
  have "take ?w (m @ d) = take ?w m" by simp
  then have "md5_body md5_iv (take ?w (m @ d)) = md5_body md5_iv m" by (simp add: md5_body_take)
  then show "md5_regs ctx = md5_body md5_iv (m @ d)"
    using assms(1) md5_body_take [of md5_iv "m @ d"] unfolding w by simp
  show "length (blit (length m mod 64) d (md5_buffer ctx)) = 64"
    using assms by (simp add: length_blit)
  show "take (length (m @ d) mod 64) (blit (length m mod 64) d (md5_buffer ctx))
      = drop (length (m @ d) - length (m @ d) mod 64) (m @ d)"
    unfolding w unfolding mod using assms by (simp add: blit_def)
qed

lemma md5_rep_filled:
  assumes "md5_regs ctx = md5_body md5_iv m" and "length (md5_buffer ctx) = 64"
    and "take (length m mod 64) (md5_buffer ctx) = drop (length m - length m mod 64) m"
    and "64 - length m mod 64 \<le> length d"
  defines "e \<equiv> take (64 - length m mod 64) d"
  shows "length (blit (length m mod 64) e (md5_buffer ctx)) = 64"
    and "md5_body (md5_regs ctx) (blit (length m mod 64) e (md5_buffer ctx)) = md5_body md5_iv (m @ e)"
    and "64 dvd length (m @ e)"
proof -
  let ?u = "length m mod 64" and ?w = "length m - length m mod 64"
  have u: "?u < 64" by simp
  have e: "length e = 64 - ?u" using assms(4) by (simp add: e_def)
  then show "length (blit ?u e (md5_buffer ctx)) = 64" using assms(2) u by (simp add: length_blit)
  have "blit ?u e (md5_buffer ctx) = drop ?w m @ e"
    using assms(2,3) e u by (simp add: blit_def)
  moreover have "md5_body md5_iv (take ?w m @ (drop ?w m @ e)) = md5_body (md5_body md5_iv (take ?w m)) (drop ?w m @ e)"
    by (rule md5_body_append) (simp add: minus_mod_eq_mult_div)
  then have "md5_body md5_iv (m @ e) = md5_body (md5_regs ctx) (drop ?w m @ e)"
    unfolding md5_body_take assms(1) by (simp only: append_assoc [symmetric] append_take_drop_id)
  ultimately show "md5_body (md5_regs ctx) (blit ?u e (md5_buffer ctx)) = md5_body md5_iv (m @ e)"
    by (simp only:)
  have "length (m @ e) = ?w + 64" using e u by simp
  moreover have "64 dvd ?w + 64" by (rule dvd_add [OF md5_whole dvd_refl])
  ultimately show "64 dvd length (m @ e)" by (simp only:)
qed

text \<open>The byte counter of 29 plus 32 bits.\<close>

lemma md5_carry:
  fixes a b c d :: nat
  assumes "a < 2 ^ 29" and "b < 2 ^ 29"
  shows "(a + 2 ^ 29 * c + (b + 2 ^ 29 * d)) div 2 ^ 29
    = c + d + (if (a + b) mod 2 ^ 29 < a then 1 else 0)"
proof -
  have e: "a + 2 ^ 29 * c + (b + 2 ^ 29 * d) = (a + b) + 2 ^ 29 * (c + d)" by simp
  have "(a + b) div 2 ^ 29 = (if (a + b) mod 2 ^ 29 < a then 1 else 0)"
  proof (cases "a + b < 2 ^ 29")
    case True
    then show ?thesis by simp
  next
    case False
    then have "(a + b) div 2 ^ 29 = 1" and "(a + b) mod 2 ^ 29 = a + b - 2 ^ 29"
      using assms by (auto intro: div_nat_eqI simp: le_mod_geq)
    then show ?thesis using False assms by simp
  qed
  then show ?thesis unfolding e by simp
qed

lemma md5_count:
  fixes lo hi lo' :: u32 and sz :: u64 and n k :: nat
  assumes sz: "unat sz = n" and lo: "unat lo = k mod 2 ^ 29" and hi: "unat hi = k div 2 ^ 29 mod 2 ^ 32"
    and lo'_def: "lo' = ucast ((ucast lo + sz) AND 0x1fffffff)"
  shows "unat lo' = (k + n) mod 2 ^ 29"
    and "unat ((if lo' < lo then hi + 1 else hi) + ucast (drop_bit 29 sz)) = (k + n) div 2 ^ 29 mod 2 ^ 32"
proof -
  have len32: "LENGTH(32) = 32" by simp
  have m: "(0x1fffffff :: u64) = mask 29" by (simp add: mask_eq_exp_minus_1)
  have ulo: "unat (ucast lo :: u64) = k mod 2 ^ 29" using unat_less [of lo] by (simp add: unat_ucast_mod lo)
  have "unat (ucast lo + sz) mod 2 ^ 29 = (k mod 2 ^ 29 + n) mod 2 ^ 29"
    by (simp add: unat_word_ariths sz ulo mod_mod_cancel)
  then have and29: "unat ((ucast lo + sz) AND 0x1fffffff) = (k + n) mod 2 ^ 29"
    unfolding m unat_and_mask by (simp add: mod_simps)
  have "(k + n) mod 2 ^ 29 < (2::nat) ^ 29" by simp
  then have "(k + n) mod 2 ^ 29 < (2::nat) ^ 32" by (rule less_le_trans) simp
  then show lo': "unat lo' = (k + n) mod 2 ^ 29"
    unfolding lo'_def unat_ucast_mod and29 by simp
  define a b c d where "a = k mod 2 ^ 29" and "b = n mod 2 ^ 29" and "c = k div 2 ^ 29" and "d = n div 2 ^ 29"
  have k: "k = a + 2 ^ 29 * c" and n: "n = b + 2 ^ 29 * d" and ab: "a < 2 ^ 29" "b < 2 ^ 29"
    by (simp_all add: a_def b_def c_def d_def)
  have "k + n = (a + b) + 2 ^ 29 * (c + d)" unfolding k n by simp
  then have "unat lo' = (a + b) mod 2 ^ 29" unfolding lo' by (simp only: mod_mult_self2)
  then have carry: "lo' < lo \<longleftrightarrow> (a + b) mod 2 ^ 29 < a"
    unfolding word_less_nat_alt lo a_def by simp
  have hi': "unat (if lo' < lo then hi + 1 else hi) = (c + (if (a + b) mod 2 ^ 29 < a then 1 else 0)) mod 2 ^ 32"
    unfolding carry by (simp add: unat_word_ariths hi c_def mod_simps)
  have sz': "unat (ucast (drop_bit 29 sz) :: u32) = d mod 2 ^ 32"
    unfolding unat_ucast_mod unat_drop sz by (simp add: d_def)
  show "unat ((if lo' < lo then hi + 1 else hi) + ucast (drop_bit 29 sz)) = (k + n) div 2 ^ 29 mod 2 ^ 32"
    unfolding unat_word_ariths hi' sz' unfolding k n md5_carry [OF ab]
    by (simp only: mod_add_eq len32) (simp only: ac_simps)
qed

text \<open>One update: the context goes on representing everything it was fed.\<close>

lemma md5_update_rep:
  assumes rep: "md5_rep ctx m" and d: "length d < 2 ^ 64"
  shows "md5_rep (MD5_Update ctx d) (m @ d)"
proof -
  define sz :: u64 where "sz = word_of_nat (length d)"
  define lo :: u32 where "lo = ucast ((ucast (md5_lo ctx) + sz) AND 0x1fffffff)"
  define hi :: u32 where "hi = (if lo < md5_lo ctx then md5_hi ctx + 1 else md5_hi ctx) + ucast (drop_bit 29 sz)"
  define c where "c = ctx\<lparr>md5_lo := lo, md5_hi := hi\<rparr>"
  have sz: "unat sz = length d" using d by (simp add: sz_def unat_of_nat)
  have regs: "md5_regs ctx = md5_body md5_iv m" and buf: "length (md5_buffer ctx) = 64"
    and pend: "take (length m mod 64) (md5_buffer ctx) = drop (length m - length m mod 64) m"
    and ulo: "unat (md5_lo ctx) = length m mod 2 ^ 29"
    and uhi: "unat (md5_hi ctx) = length m div 2 ^ 29 mod 2 ^ 32"
    using rep by (simp_all add: md5_rep_def)
  have cnt: "unat lo = length (m @ d) mod 2 ^ 29" "unat hi = length (m @ d) div 2 ^ 29 mod 2 ^ 32"
    using md5_count [OF sz ulo uhi lo_def] by (simp_all add: hi_def)
  define used where "used = length m mod 64"
  have u: "unat (md5_lo ctx AND 0x3f) = used"
  proof -
    have "(0x3f :: u32) = mask 6" by (simp add: mask_eq_exp_minus_1)
    then have "unat (md5_lo ctx AND 0x3f) = length m mod 2 ^ 29 mod 2 ^ 6" by (simp only: unat_and_mask ulo)
    also have "\<dots> = used" by (simp add: used_def mod_mod_cancel)
    finally show ?thesis .
  qed
  have used: "used < 64" by (simp add: used_def)
  have upd: "MD5_Update ctx d =
      (if used \<noteq> 0 then
         if length d < 64 - used then c\<lparr>md5_buffer := blit used d (md5_buffer ctx)\<rparr>
         else md5_update_rest (c\<lparr>md5_buffer := blit used (take (64 - used) d) (md5_buffer ctx),
                md5_regs := md5_body (md5_regs ctx) (blit used (take (64 - used) d) (md5_buffer ctx))\<rparr>)
                (drop (64 - used) d)
       else md5_update_rest c d)"
    unfolding MD5_Update_def Let_def u sz_def [symmetric] lo_def [symmetric] hi_def [symmetric]
    by (simp add: c_def)
  consider "used = 0" | "used \<noteq> 0" "length d < 64 - used" | "used \<noteq> 0" "64 - used \<le> length d"
    by fastforce
  then show ?thesis
  proof cases
    case 1
    then have "64 dvd length m" by (simp add: used_def dvd_eq_mod_eq_0)
    moreover have "md5_regs c = md5_body md5_iv m" "length (md5_buffer c) = 64"
      using regs buf by (simp_all add: c_def)
    ultimately show ?thesis
      using md5_update_rest_rep [of c m d] cnt 1 by (simp add: upd md5_rep_def c_def del: length_append)
  next
    case 2
    show ?thesis using md5_rep_pending [OF regs buf pend] 2 cnt
      by (simp add: upd md5_rep_def c_def used_def del: length_append)
  next
    case 3
    define b where "b = blit used (take (64 - used) d) (md5_buffer ctx)"
    define m' where "m' = m @ take (64 - used) d"
    have b: "length b = 64" "md5_body (md5_regs ctx) b = md5_body md5_iv m'" "64 dvd length m'"
      using md5_rep_filled [OF regs buf pend] 3 by (simp_all add: b_def m'_def used_def)
    define c' where "c' = c\<lparr>md5_buffer := b, md5_regs := md5_body (md5_regs ctx) b\<rparr>"
    have "md5_regs c' = md5_body md5_iv m'" "length (md5_buffer c') = 64" using b by (simp_all add: c'_def)
    moreover have md: "m' @ drop (64 - used) d = m @ d" by (simp add: m'_def)
    moreover have "md5_lo c' = lo" "md5_hi c' = hi" by (simp_all add: c'_def c_def)
    ultimately have "md5_rep (md5_update_rest c' (drop (64 - used) d)) (m @ d)"
      using md5_update_rest_rep [of c' m' "drop (64 - used) d", unfolded md] b(3) cnt
      unfolding md5_rep_def by (simp only:)
    moreover have "MD5_Update ctx d = md5_update_rest c' (drop (64 - used) d)"
      using 3 by (simp only: upd if_True if_False not_less [symmetric] b_def [symmetric] c'_def [symmetric] not_False_eq_True simp_thms)
    ultimately show ?thesis by (simp only:)
  qed
qed

section \<open>The digest\<close>

text \<open>The closing of a message: a one bit, zeros up to eight bytes before a block boundary, the bit count.\<close>

lemma blit_append:
  "length p = i \<Longrightarrow> length src + length q = length r \<Longrightarrow> blit i src (p @ r) = p @ src @ drop (length src) r"
  by (simp add: blit_def)

lemma md5_final_count:
  assumes "unat (lo :: u32) = n mod 2 ^ 29" and "unat (hi :: u32) = n div 2 ^ 29 mod 2 ^ 32"
  shows "push_bit 3 lo = word_of_nat (8 * n)" and "hi = word_of_nat (8 * n div 2 ^ 32)"
proof -
  have "unat (push_bit 3 lo) = unat lo * 8 mod 2 ^ 32"
    by (simp add: push_bit_eq_mult unat_word_ariths)
  also have "\<dots> = 8 * n mod 2 ^ 32"
  proof -
    have "(n mod 2 ^ 29) * 8 = (n * 8) mod (2 ^ 29 * 8)" by (rule mod_mult_mult2 [symmetric])
    then show ?thesis by (simp add: assms ac_simps)
  qed
  also have "\<dots> = unat (word_of_nat (8 * n) :: u32)" by (simp add: unat_of_nat del: of_nat_mult)
  finally show "push_bit 3 lo = word_of_nat (8 * n)" by (simp only: word_eq_iff_unsigned [where ?'a = nat])
  have "8 * n div 2 ^ 32 = n div (2 ^ 29 :: nat)"
    by (simp add: div_mult2_eq [of n "2 ^ 29" 1] flip: div_mult_mult1 [of 8 n "2 ^ 29"])
  then have "unat hi = unat (word_of_nat (8 * n div 2 ^ 32) :: u32)" by (simp add: assms unat_of_nat)
  then show "hi = word_of_nat (8 * n div 2 ^ 32)" by (simp only: word_eq_iff_unsigned [where ?'a = nat])
qed

lemma md5_final_ref:
  assumes rep: "md5_rep ctx m"
  shows "MD5_Final ctx = md5_ref m"
proof -
  define u w where "u = length m mod 64" and "w = length m - length m mod 64"
  have u: "u < 64" by (simp add: u_def)
  define p where "p = drop w m"
  have p: "length p = u" by (simp add: p_def w_def u_def)
  have whole: "64 dvd length (take w m)" by (simp add: w_def minus_mod_eq_mult_div)
  have regs: "md5_regs ctx = md5_body md5_iv (take w m)" and buf: "length (md5_buffer ctx) = 64"
    and pend: "take u (md5_buffer ctx) = p"
    and lo: "unat (md5_lo ctx) = length m mod 2 ^ 29"
    and hi: "unat (md5_hi ctx) = length m div 2 ^ 29 mod 2 ^ 32"
    using rep by (simp_all add: md5_rep_def u_def w_def p_def md5_body_take)
  define cnt where "cnt = store32_le (push_bit 3 (md5_lo ctx)) @ store32_le (md5_hi ctx)"
  have cnt8: "length cnt = 8" by (simp add: cnt_def)
  have pad: "md5_pad m = take w m @ p @ [0x80] @ replicate ((119 - u) mod 64) 0 @ cnt"
    unfolding md5_pad_def cnt_def md5_final_count [OF lo hi] u_def [symmetric] p_def by simp
  have used: "unat (md5_lo ctx AND 0x3f) = u"
  proof -
    have "(0x3f :: u32) = mask 6" by (simp add: mask_eq_exp_minus_1)
    then show ?thesis by (simp only: unat_and_mask lo) (simp add: u_def mod_mod_cancel)
  qed
  obtain r where r: "md5_buffer ctx = p @ r" and lr: "length r = 64 - u"
    using pend buf by (metis append_take_drop_id length_drop)
  have b1: "(md5_buffer ctx)[u := 0x80] = p @ [0x80] @ drop 1 r"
    using p lr u by (cases r) (auto simp: r list_update_append)
  have last: "blit 60 (store32_le (md5_hi ctx)) (blit 56 (store32_le (push_bit 3 (md5_lo ctx)))
      (blit v (replicate (56 - v) 0) b)) = take v b @ replicate (56 - v) 0 @ cnt"
    if "length b = 64" "v \<le> 56" for v b
    using that by (simp add: blit_def cnt_def min_def)
  have "(let (a, b, c, d) = md5_body md5_iv (md5_pad m)
      in store32_le a @ store32_le b @ store32_le c @ store32_le d) = MD5_Final ctx"
  proof (cases "u < 56")
    case True
    then have "(119 - u) mod 64 = 55 - u" by (simp add: mod_if)
    then have "md5_body md5_iv (md5_pad m) = md5_body (md5_regs ctx) (p @ [0x80] @ replicate (55 - u) 0 @ cnt)"
      unfolding pad by (simp only: md5_body_append [OF whole] regs)
    moreover have "\<not> 63 - u < 8" using True by simp
    moreover have "length (p @ [0x80] @ drop 1 r) = 64" "take (u + 1) (p @ [0x80] @ drop 1 r) = p @ [0x80]"
      using p lr u by simp_all
    ultimately show ?thesis using last [of "p @ [0x80] @ drop 1 r" "u + 1"] True
      by (simp add: MD5_Final_def Let_def used b1)
  next
    case False
    then have n: "(119 - u) mod 64 = (63 - u) + 56" using u by (simp add: mod_if)
    have "md5_body md5_iv (md5_pad m)
        = md5_body (md5_body (md5_regs ctx) (p @ [0x80] @ replicate (63 - u) 0)) (replicate 56 0 @ cnt)"
    proof -
      have "md5_pad m = take w m @ (p @ [0x80] @ replicate (63 - u) 0) @ replicate 56 0 @ cnt"
        unfolding pad n replicate_add by simp
      moreover have "64 dvd length (p @ [0x80] @ replicate (63 - u) 0)" using p u by simp
      ultimately show ?thesis by (simp only: md5_body_append [OF whole] md5_body_append regs)
    qed
    moreover have "63 - u < 8" using False by simp
    moreover have "blit (u + 1) (replicate (63 - u) 0) (p @ [0x80] @ drop 1 r) = p @ [0x80] @ replicate (63 - u) 0"
      using p lr u by (simp add: blit_def)
    ultimately show ?thesis using last [of "p @ [0x80] @ replicate (63 - u) 0" 0] False u p
      by (simp add: MD5_Final_def Let_def used b1)
  qed
  then show ?thesis by (simp only: md5_ref_def)
qed

lemma md5_updates_rep:
  "md5_rep ctx m \<Longrightarrow> \<forall>d\<in>set ds. length d < 2 ^ 64 \<Longrightarrow> md5_rep (foldl MD5_Update ctx ds) (m @ concat ds)"
proof (induction ds arbitrary: ctx m)
  case Nil
  then show ?case by simp
next
  case (Cons d ds)
  then show ?case using Cons.IH [of "MD5_Update ctx d" "m @ d"] md5_update_rep [of ctx m d] by simp
qed

section \<open>Properties\<close>

text \<open>However a message is cut into updates (each shorter than \<open>2 ^ 64\<close> bytes), the digest of the
  context is the compression of the padded whole message, and what the fresh context's buffer held
  does not matter.\<close>

theorem md5_digest_of_updates:
  "length junk = 64 \<Longrightarrow> (\<forall>d \<in> set ds. length d < 2 ^ 64) \<Longrightarrow>
     MD5_Final (foldl MD5_Update (MD5_Init junk) ds) = md5_ref (concat ds)"
  using md5_final_ref [OF md5_updates_rep [OF md5_rep_init]] by simp

lemma md5_digest_of_updates_witness:
  "MD5_Final (foldl MD5_Update (MD5_Init (replicate 64 9)) [[1, 2], replicate 100 3])
    = md5_ref ([1, 2] @ replicate 100 3)"
  using md5_digest_of_updates [of "replicate 64 9" "[[1, 2], replicate 100 3]"] by simp

end
