(* ===== verification/Sha256.thy ===== *)
theory Sha256
  imports Prelude
begin

text \<open>
  SHA-256 (\<open>sha2.c\<close> inside \<open>sqlite3.c\<close>), on which key derivation rests: the compression of whole
  blocks (\<open>sha256_transf\<close>), and contexts that buffer a partial block.  A context represents the
  concatenation of everything fed to it, so a digest does not depend on how a message was cut into
  updates.  The code keeps the length in 32 bits: the padding is that of the standard below
  \<open>2 ^ 29\<close> bytes.
\<close>

section \<open>The compression function\<close>

definition ROTR :: "u32 \<Rightarrow> nat \<Rightarrow> u32" where
  "ROTR x n = drop_bit n x OR push_bit (32 - n) x"

definition SHFR :: "u32 \<Rightarrow> nat \<Rightarrow> u32" where "SHFR x n = drop_bit n x"
definition CH :: "u32 \<Rightarrow> u32 \<Rightarrow> u32 \<Rightarrow> u32" where "CH x y z = (x AND y) XOR (NOT x AND z)"
definition MAJ :: "u32 \<Rightarrow> u32 \<Rightarrow> u32 \<Rightarrow> u32" where "MAJ x y z = (x AND y) XOR (x AND z) XOR (y AND z)"
definition SHA256_F1 :: "u32 \<Rightarrow> u32" where "SHA256_F1 x = ROTR x 2 XOR ROTR x 13 XOR ROTR x 22"
definition SHA256_F2 :: "u32 \<Rightarrow> u32" where "SHA256_F2 x = ROTR x 6 XOR ROTR x 11 XOR ROTR x 25"
definition SHA256_F3 :: "u32 \<Rightarrow> u32" where "SHA256_F3 x = ROTR x 7 XOR ROTR x 18 XOR SHFR x 3"
definition SHA256_F4 :: "u32 \<Rightarrow> u32" where "SHA256_F4 x = ROTR x 17 XOR ROTR x 19 XOR SHFR x 10"

definition sha256_h0 :: "u32 list" where
  "sha256_h0 = [0x6a09e667, 0xbb67ae85, 0x3c6ef372, 0xa54ff53a, 0x510e527f, 0x9b05688c, 0x1f83d9ab, 0x5be0cd19]"

definition sha256_k :: "u32 list" where
  "sha256_k = concat
    [[0x428a2f98, 0x71374491, 0xb5c0fbcf, 0xe9b5dba5], [0x3956c25b, 0x59f111f1, 0x923f82a4, 0xab1c5ed5],
     [0xd807aa98, 0x12835b01, 0x243185be, 0x550c7dc3], [0x72be5d74, 0x80deb1fe, 0x9bdc06a7, 0xc19bf174],
     [0xe49b69c1, 0xefbe4786, 0x0fc19dc6, 0x240ca1cc], [0x2de92c6f, 0x4a7484aa, 0x5cb0a9dc, 0x76f988da],
     [0x983e5152, 0xa831c66d, 0xb00327c8, 0xbf597fc7], [0xc6e00bf3, 0xd5a79147, 0x06ca6351, 0x14292967],
     [0x27b70a85, 0x2e1b2138, 0x4d2c6dfc, 0x53380d13], [0x650a7354, 0x766a0abb, 0x81c2c92e, 0x92722c85],
     [0xa2bfe8a1, 0xa81a664b, 0xc24b8b70, 0xc76c51a3], [0xd192e819, 0xd6990624, 0xf40e3585, 0x106aa070],
     [0x19a4c116, 0x1e376c08, 0x2748774c, 0x34b0bcb5], [0x391c0cb3, 0x4ed8aa4a, 0x5b9cca4f, 0x682e6ff3],
     [0x748f82ee, 0x78a5636f, 0x84c87814, 0x8cc70208], [0x90befffa, 0xa4506ceb, 0xbef9a3f7, 0xc67178f2]]"

text \<open>The message schedule: sixteen big-endian words, then \<open>SHA256_SCR\<close> for \<open>j = 16, \<dots>, 63\<close>.\<close>

definition sha256_w :: "bytes \<Rightarrow> u32 list" where
  "sha256_w sub_block =
    foldl (\<lambda>w j. w @ [SHA256_F4 (w ! (j - 2)) + w ! (j - 7) + SHA256_F3 (w ! (j - 15)) + w ! (j - 16)])
      (map (\<lambda>j. load32_be (mslice (4 * j) 4 sub_block)) [0..<16]) [16..<64]"

definition sha256_round :: "u32 list \<Rightarrow> u32 list \<Rightarrow> nat \<Rightarrow> u32 list" where
  "sha256_round w wv j =
    (let t1 = wv ! 7 + SHA256_F2 (wv ! 4) + CH (wv ! 4) (wv ! 5) (wv ! 6) + sha256_k ! j + w ! j;
         t2 = SHA256_F1 (wv ! 0) + MAJ (wv ! 0) (wv ! 1) (wv ! 2)
     in [t1 + t2, wv ! 0, wv ! 1, wv ! 2, wv ! 3 + t1, wv ! 4, wv ! 5, wv ! 6])"

definition sha256_block :: "u32 list \<Rightarrow> bytes \<Rightarrow> u32 list" where
  "sha256_block h sub_block = map2 (+) h (foldl (sha256_round (sha256_w sub_block)) h [0..<64])"

text \<open>\<open>sha256_transf\<close> on the state words: \<open>block_nb\<close> blocks of the message.\<close>

fun sha256_transf :: "u32 list \<Rightarrow> bytes \<Rightarrow> nat \<Rightarrow> u32 list" where
  "sha256_transf h message 0 = h"
| "sha256_transf h message (Suc n) = sha256_transf (sha256_block h (take 64 message)) (drop 64 message) n"

section \<open>Contexts\<close>

text \<open>\<open>sha_block\<close> has room for two blocks, as the padding may need.\<close>

record sha256_ctx =
  sha_tot_len :: u32
  sha_len :: u32
  sha_block :: bytes
  sha_h :: "u32 list"

definition sha256_init :: "sha256_ctx \<Rightarrow> sha256_ctx" where
  "sha256_init ctx = ctx\<lparr>sha_h := sha256_h0, sha_len := 0, sha_tot_len := 0\<rparr>"

definition sha256_update :: "sha256_ctx \<Rightarrow> bytes \<Rightarrow> u32 \<Rightarrow> sha256_ctx" where
  "sha256_update ctx message len =
    (let tmp_len = 64 - sha_len ctx;
         rem_len = (if len < tmp_len then len else tmp_len);
         ctx = ctx\<lparr>sha_block := blit (unat (sha_len ctx)) (take (unat rem_len) message) (sha_block ctx)\<rparr>
     in if sha_len ctx + len < 64 then ctx\<lparr>sha_len := sha_len ctx + len\<rparr>
        else
          (let new_len = len - rem_len;
               block_nb = new_len div 64;
               shifted = drop (unat rem_len) message;
               h = sha256_transf (sha256_transf (sha_h ctx) (sha_block ctx) 1) shifted (unat block_nb);
               rem_len = new_len mod 64
           in ctx\<lparr>sha_h := h,
                  sha_block := blit 0 (mslice (64 * unat block_nb) (unat rem_len) shifted) (sha_block ctx),
                  sha_len := rem_len,
                  sha_tot_len := sha_tot_len ctx + push_bit 6 (block_nb + 1)\<rparr>))"

definition sha256_extract :: "sha256_ctx \<Rightarrow> bytes" where
  "sha256_extract ctx = concat (map store32_be (sha_h ctx))"

definition sha256_final :: "sha256_ctx \<Rightarrow> bytes \<times> sha256_ctx" where
  "sha256_final ctx =
    (let block_nb = (if 64 - 9 < sha_len ctx mod 64 then 2 else 1 :: nat);
         len_b = push_bit 3 (sha_tot_len ctx + sha_len ctx);
         pm_len = 64 * block_nb;
         len = unat (sha_len ctx);
         block = blit len (replicate (pm_len - len) 0) (sha_block ctx);
         block = block[len := 0x80];
         block = blit (pm_len - 4) (store32_be len_b) block;
         ctx = ctx\<lparr>sha_block := block, sha_h := sha256_transf (sha_h ctx) block block_nb\<rparr>
     in (sha256_extract ctx, ctx))"

definition sha256_transform :: "sha256_ctx \<Rightarrow> bytes \<Rightarrow> sha256_ctx" where
  "sha256_transform ctx message = ctx\<lparr>sha_h := sha256_transf (sha_h ctx) message 1\<rparr>"

text \<open>\<open>sha256\<close>: the context is a fresh local, whose fields hold arbitrary values.\<close>

definition sha256 :: "sha256_ctx \<Rightarrow> bytes \<Rightarrow> u32 \<Rightarrow> bytes" where
  "sha256 junk message len = fst (sha256_final (sha256_update (sha256_init junk) message len))"

lemma word_unat_inverse: "word_of_nat (unat w) = (w :: 'a::len word)"
  by simp

section \<open>The reference\<close>

definition sha256_pad :: "bytes \<Rightarrow> bytes" where
  "sha256_pad m = m @ [0x80] @ replicate ((119 - length m mod 64) mod 64) 0
     @ store32_be (word_of_nat (8 * length m div 2 ^ 32)) @ store32_be (word_of_nat (8 * length m))"

definition sha256_ref :: "bytes \<Rightarrow> bytes" where
  "sha256_ref m = concat (map store32_be
     (sha256_transf sha256_h0 (sha256_pad m) (length (sha256_pad m) div 64)))"

lemma transf_take: "sha256_transf h (take (64 * n) m) n = sha256_transf h m n"
proof (induction n arbitrary: h m)
  case (Suc n)
  have "drop 64 (take (64 * Suc n) m) = take (64 * n) (drop 64 m)" by (simp add: drop_take)
  moreover have "take 64 (take (64 * Suc n) m) = take 64 m" by (simp add: min_def)
  ultimately show ?case using Suc.IH by simp
qed simp

lemma transf_append:
  "length x = 64 * a \<Longrightarrow> sha256_transf h (x @ y) (a + b) = sha256_transf (sha256_transf h x a) y b"
proof (induction a arbitrary: h x)
  case (Suc a)
  then have "length (drop 64 x) = 64 * a" and "64 \<le> length x" by simp_all
  then show ?case using Suc.IH [of "drop 64 x" "sha256_block h (take 64 x)"] by simp
qed simp

lemma transf_one: "64 \<le> length x \<Longrightarrow> sha256_transf h (x @ y) 1 = sha256_transf h x 1"
  by simp

definition sha256_rep :: "sha256_ctx \<Rightarrow> bytes \<Rightarrow> bool" where
  "sha256_rep ctx m \<longleftrightarrow>
     sha_h ctx = sha256_transf sha256_h0 m (length m div 64) \<and> length (sha_block ctx) = 128
     \<and> take (length m mod 64) (sha_block ctx) = drop (64 * (length m div 64)) m
     \<and> unat (sha_len ctx) = length m mod 64
     \<and> sha_tot_len ctx = word_of_nat (64 * (length m div 64))"

lemma sha256_rep_init: "length (sha_block ctx) = 128 \<Longrightarrow> sha256_rep (sha256_init ctx) []"
  by (simp add: sha256_rep_def sha256_init_def)

lemma sha256_update_rep:
  assumes rep: "sha256_rep ctx m" and d: "length d + 64 < 2 ^ 32"
  shows "sha256_rep (sha256_update ctx d (word_of_nat (length d))) (m @ d)"
proof -
  define len :: u32 where "len = word_of_nat (length d)"
  define q r where "q = length m div 64" and "r = length m mod 64"
  have mqr: "length m = 64 * q + r" and r: "r < 64" by (simp_all add: q_def r_def)
  have h: "sha_h ctx = sha256_transf sha256_h0 m q" and buf: "length (sha_block ctx) = 128"
    and pend: "take r (sha_block ctx) = drop (64 * q) m" and ur: "unat (sha_len ctx) = r"
    and tot: "sha_tot_len ctx = word_of_nat (64 * q)"
    using rep by (simp_all add: sha256_rep_def q_def r_def)
  have ulen: "unat len = length d" using d by (simp add: len_def unat_of_nat)
  have usum: "unat (sha_len ctx + len) = r + length d" using d r by (simp add: unat_add_eq ur ulen)
  have utmp: "unat (64 - sha_len ctx) = 64 - r" using r ur by (simp add: unat_sub word_le_nat_alt)
  have lt: "sha_len ctx + len < 64 \<longleftrightarrow> r + length d < 64" by (simp add: word_less_nat_alt usum)
  show ?thesis
  proof (cases "r + length d < 64")
    case True
    then have "len < 64 - sha_len ctx" by (simp add: word_less_nat_alt ulen utmp)
    then have upd: "sha256_update ctx d len = ctx\<lparr>sha_block := blit r d (sha_block ctx), sha_len := sha_len ctx + len\<rparr>"
      using True lt by (simp add: sha256_update_def Let_def ur ulen)
    have e: "length (m @ d) = (r + length d) + 64 * q" using mqr by simp
    have "(r + length d) mod 64 = r + length d" "(r + length d) div 64 = 0" using True by simp_all
    then have "length (m @ d) div 64 = q" "length (m @ d) mod 64 = r + length d"
      unfolding e by (simp_all only: mod_mult_self2 div_mult_self2 zero_neq_numeral not_False_eq_True add_0_right)
    then show ?thesis
      using True h buf pend tot usum mqr r transf_take [of sha256_h0 q "m @ d"] transf_take [of sha256_h0 q m]
      unfolding len_def [symmetric] upd
      by (simp add: sha256_rep_def length_blit blit_def)
  next
    case False
    define x y where "x = take (64 - r) d" and "y = drop (64 - r) d"
    have d_xy: "d = x @ y" and x: "length x = 64 - r" using False by (simp_all add: x_def y_def)
    have nlt: "\<not> length d < 64 - r" using False by linarith
    have rem: "unat (if len < 64 - sha_len ctx then len else 64 - sha_len ctx) = 64 - r"
      using nlt by (simp add: word_less_nat_alt ulen utmp)
    have le: "(if len < 64 - sha_len ctx then len else 64 - sha_len ctx) \<le> len"
      using nlt by (simp add: word_le_nat_alt rem ulen)
    define nl where "nl = len - (if len < 64 - sha_len ctx then len else 64 - sha_len ctx)"
    have unl: "unat nl = length y"
      unfolding nl_def unat_sub [OF le] rem ulen by (simp add: y_def)
    have b: "unat (nl div 64) = length y div 64" "unat (nl mod 64) = length y mod 64"
      by (simp_all add: unat_div unat_mod unl)
    define blk where "blk = blit r x (sha_block ctx)"
    have blk: "length blk = 128" "take 64 blk = drop (64 * q) m @ x"
      using buf x r mqr by (simp_all add: blk_def length_blit) (simp add: blit_def pend)
    have upd: "sha256_update ctx d len = ctx\<lparr>sha_block := blit 0 (mslice (64 * (length y div 64)) (length y mod 64) y) blk,
        sha_h := sha256_transf (sha256_transf (sha_h ctx) blk 1) y (length y div 64),
        sha_len := nl mod 64, sha_tot_len := sha_tot_len ctx + push_bit 6 (nl div 64 + 1)\<rparr>"
      using False lt by (simp add: sha256_update_def Let_def ur rem b x_def [symmetric] y_def [symmetric]
          blk_def [symmetric] nl_def [symmetric])
    define m' where "m' = m @ x"
    have m': "length m' = 64 * (q + 1)" using mqr x r by (simp add: m'_def)
    have "sha256_transf (sha_h ctx) blk 1 = sha256_transf (sha_h ctx) (drop (64 * q) m @ x) 1"
      using transf_take [of "sha_h ctx" 1 blk] blk by simp
    also have "\<dots> = sha256_transf sha256_h0 m' (q + 1)"
    proof -
      have "m' = take (64 * q) m @ (drop (64 * q) m @ x)" by (simp add: m'_def)
      moreover have "length (take (64 * q) m) = 64 * q" using mqr by simp
      ultimately show ?thesis using transf_append [of "take (64 * q) m" q sha256_h0 _ 1] transf_take [of sha256_h0 q m]
        by (metis h)
    qed
    finally have h1: "sha256_transf (sha_h ctx) blk 1 = sha256_transf sha256_h0 m' (q + 1)" .
    have md: "m @ d = m' @ y" by (simp add: m'_def d_xy)
    have "length (m @ d) = length y + 64 * (q + 1)" using m' by (simp add: md)
    then have dm: "length (m @ d) div 64 = (q + 1) + length y div 64" "length (m @ d) mod 64 = length y mod 64"
      by (simp_all only: mod_mult_self2 div_mult_self2 zero_neq_numeral not_False_eq_True)
    have "sha_tot_len ctx + push_bit 6 (nl div 64 + 1) = word_of_nat (64 * ((q + 1) + length y div 64))"
    proof -
      have "nl div 64 = word_of_nat (length y div 64)" unfolding b(1) [symmetric] by (simp only: word_unat_inverse)
      then show ?thesis by (simp add: tot push_bit_eq_mult algebra_simps)
    qed
    then have tot': "sha_tot_len ctx + push_bit 6 (nl div 64 + 1) = word_of_nat (64 * (length (m @ d) div 64))"
      unfolding dm .
    have h2: "sha256_transf (sha256_transf sha256_h0 m' (q + 1)) y (length y div 64)
        = sha256_transf sha256_h0 (m @ d) (length (m @ d) div 64)"
      unfolding dm unfolding md using transf_append [OF m'] by simp
    define e where "e = mslice (64 * (length y div 64)) (length y mod 64) y"
    have e: "e = drop (64 * (length (m @ d) div 64)) (m @ d)"
      unfolding e_def dm unfolding md using m' by (simp add: mslice_def minus_mult_div_eq_mod)
    have le': "length e = length (m @ d) mod 64"
      unfolding e length_drop by (simp only: minus_mult_div_eq_mod)
    have "length (blit 0 e blk) = 128" using blk(1) le' by (simp add: length_blit)
    moreover have "take (length (m @ d) mod 64) (blit 0 e blk) = e" unfolding le' [symmetric] by (simp add: blit_def)
    ultimately show ?thesis
      unfolding len_def [symmetric] upd sha256_rep_def h1 h2 e_def [symmetric]
      using b(2) by (simp add: tot' dm(2) e del: length_append drop_append take_append)
  qed
qed

section \<open>The digest\<close>

lemma sha256_final_ref:
  assumes rep: "sha256_rep ctx m" and m: "length m < 2 ^ 29"
  shows "fst (sha256_final ctx) = sha256_ref m"
proof -
  define q r where "q = length m div 64" and "r = length m mod 64"
  have mqr: "length m = 64 * q + r" and r: "r < 64" by (simp_all add: q_def r_def)
  have h: "sha_h ctx = sha256_transf sha256_h0 m q" and buf: "length (sha_block ctx) = 128"
    and pend: "take r (sha_block ctx) = drop (64 * q) m" and ur: "unat (sha_len ctx) = r"
    and tot: "sha_tot_len ctx = word_of_nat (64 * q)"
    using rep by (simp_all add: sha256_rep_def q_def r_def)
  define p where "p = drop (64 * q) m"
  have p: "length p = r" using mqr by (simp add: p_def)
  define nb where "nb = (if 55 < r then 2 else 1 :: nat)"
  have nb: "(if 64 - 9 < sha_len ctx mod 64 then 2 else 1) = nb"
    by (simp add: nb_def word_less_nat_alt unat_mod ur mod_less [OF r])
  have pm: "r + 9 \<le> 64 * nb" "64 * nb \<le> 128" "nb = 1 \<or> nb = 2" using r by (auto simp: nb_def)
  define cnt where "cnt = store32_be (word_of_nat (8 * length m))"
  have cnt: "length cnt = 4" "store32_be (push_bit 3 (sha_tot_len ctx + sha_len ctx)) = cnt"
  proof -
    have "sha_len ctx = word_of_nat r" by (simp add: ur [symmetric])
    then show "store32_be (push_bit 3 (sha_tot_len ctx + sha_len ctx)) = cnt"
      by (simp add: cnt_def tot mqr push_bit_eq_mult algebra_simps)
  qed (simp add: cnt_def)
  obtain t where t: "sha_block ctx = p @ t" and lt: "length t = 128 - r"
    using pend buf by (metis append_take_drop_id length_drop p_def)
  define z where "z = 64 * nb - r - 1 - 4"
  define blk where "blk = blit (64 * nb - 4) cnt ((blit r (replicate (64 * nb - r) 0) (sha_block ctx))[r := 0x80])"
  have blk: "take (64 * nb) blk = p @ [0x80] @ replicate z 0 @ cnt"
  proof -
    have rs: "replicate (5 + z) (0 :: u8) = 0 # replicate (z + 4) 0" by (simp add: eval_nat_numeral)
    have z5: "64 * nb - r = 5 + z" using pm by (simp add: z_def)
    have "(blit r (replicate (64 * nb - r) 0) (sha_block ctx))[r := 0x80]
        = p @ 0x80 # replicate (z + 4) 0 @ drop (64 * nb - r) t"
      using p by (simp add: t rs blit_def list_update_append z5)
    then have "blk = blit (64 * nb - 4) cnt (p @ 0x80 # replicate (z + 4) 0 @ drop (64 * nb - r) t)"
      by (simp add: blk_def)
    then show ?thesis using p pm cnt lt
      by (simp add: blit_def z_def take_Cons' replicate_add [symmetric])
  qed
  define pad where "pad = p @ [0x80] @ replicate z (0 :: u8) @ cnt"
  have lpad: "length pad = 64 * nb" using p pm cnt by (simp add: pad_def z_def)
  have "sha256_pad m = take (64 * q) m @ pad"
  proof -
    have "8 * length m div 2 ^ 32 = 0" using m by simp
    moreover have "store32_be 0 = replicate 4 0" by (simp add: store32_be_def numeral_eq_Suc)
    moreover have "z = (119 - r) mod 64 + 4" using r by (simp add: z_def nb_def mod_if)
    ultimately show ?thesis
      unfolding sha256_pad_def r_def [symmetric] pad_def cnt_def [symmetric] p_def
      by (simp add: replicate_add)
  qed
  moreover have "length (take (64 * q) m) = 64 * q" using mqr by simp
  ultimately have "sha256_ref m = concat (map store32_be (sha256_transf (sha256_transf sha256_h0 m q) pad nb))"
    using transf_append [of "take (64 * q) m" q sha256_h0 pad nb] lpad
    by (simp add: sha256_ref_def transf_take)
  moreover have "fst (sha256_final ctx) = concat (map store32_be (sha256_transf (sha_h ctx) blk nb))"
    unfolding sha256_final_def Let_def nb ur cnt(2) by (simp add: sha256_extract_def blk_def)
  ultimately show ?thesis
    using transf_take [of "sha_h ctx" nb blk] unfolding blk h pad_def [symmetric] by simp
qed

lemma length_sha256_block: "length h = 8 \<Longrightarrow> length (sha256_block h m) = 8"
proof -
  have "length (foldl (sha256_round w) h js) = 8" if "length h = 8" for w js and h :: "u32 list"
    using that by (induction js rule: rev_induct) (simp_all add: sha256_round_def Let_def)
  then show "length h = 8 \<Longrightarrow> length (sha256_block h m) = 8" by (simp add: sha256_block_def)
qed

lemma length_sha256_transf: "length h = 8 \<Longrightarrow> length (sha256_transf h m n) = 8"
  by (induction n arbitrary: h m) (simp_all add: length_sha256_block)

lemma sha256_updates_rep:
  "sha256_rep ctx m \<Longrightarrow> \<forall>d\<in>set ds. length d + 64 < 2 ^ 32 \<Longrightarrow>
     sha256_rep (foldl (\<lambda>c d. sha256_update c d (word_of_nat (length d))) ctx ds) (m @ concat ds)"
proof (induction ds arbitrary: ctx m)
  case (Cons d ds)
  then show ?case
    using Cons.IH [of "sha256_update ctx d (word_of_nat (length d))" "m @ d"] sha256_update_rep [of ctx m d] by simp
qed simp

section \<open>Properties\<close>

text \<open>The digest of a context is the SHA-256 of everything fed to it since \<open>sha256_init\<close>, however
  it was cut into updates and whatever the context held before, for messages below \<open>2 ^ 29\<close> bytes.\<close>

theorem sha256_of_updates:
  "length (sha_block ctx) = 128 \<Longrightarrow> length (concat ds) < 2 ^ 29 \<Longrightarrow>
     fst (sha256_final (foldl (\<lambda>c d. sha256_update c d (word_of_nat (length d))) (sha256_init ctx) ds))
       = sha256_ref (concat ds)"
proof -
  assume ctx: "length (sha_block ctx) = 128" and len: "length (concat ds) < 2 ^ 29"
  have "length d \<le> length (concat ds)" if "d \<in> set ds" for d
    using that by (simp add: length_concat member_le_sum_list)
  then have "\<forall>d\<in>set ds. length d + 64 < 2 ^ 32" using len by fastforce
  from sha256_final_ref [OF sha256_updates_rep [OF sha256_rep_init [OF ctx] this]] len
  show ?thesis by simp
qed

definition sha256_blank :: sha256_ctx where
  "sha256_blank = \<lparr>sha_tot_len = 3, sha_len = 9, sha_block = replicate 128 7, sha_h = replicate 8 1\<rparr>"

lemma sha256_of_updates_witness:
  "fst (sha256_final (foldl (\<lambda>c d. sha256_update c d (word_of_nat (length d))) (sha256_init sha256_blank)
       [[1, 2, 3], replicate 100 4])) = sha256_ref ([1, 2, 3] @ replicate 100 4)"
  using sha256_of_updates [of sha256_blank "[[1, 2, 3], replicate 100 4]"] by (simp add: sha256_blank_def)

end
