(* ===== verification/Pbkdf2.thy ===== *)
theory Pbkdf2
  imports Sha256
begin

text \<open>
  HMAC and PBKDF2 (\<open>fastpbkdf2.c\<close> inside \<open>sqlite3.c\<close>).  The code is one macro, \<open>DECL_PBKDF2\<close>, over the
  operations of a hash function; the model is one group of definitions over a record of those
  operations.  The inner loop never pads and never restarts a hash: it copies the state left by the
  key block and compresses one prepared block.  The locale \<open>md_hash\<close> states what the macro needs of
  a hash, proves once that the loop computes PBKDF2 as RFC 8018 defines it, and is interpreted on
  SHA-256.
\<close>

section \<open>The macro\<close>

text \<open>The arguments \<open>_init\<close>, \<open>_update\<close>, \<open>_xform\<close>, \<open>_final\<close>, \<open>_xcpy\<close>, \<open>_xtract\<close>, \<open>_xxor\<close>, and the two sizes.\<close>

record 'c md_ops =
  md_init :: "'c \<Rightarrow> 'c"
  md_update :: "'c \<Rightarrow> bytes \<Rightarrow> 'c"
  md_xform :: "'c \<Rightarrow> bytes \<Rightarrow> 'c"
  md_final :: "'c \<Rightarrow> bytes \<times> 'c"
  md_xcpy :: "'c \<Rightarrow> 'c \<Rightarrow> 'c"
  md_xtract :: "'c \<Rightarrow> bytes"
  md_xxor :: "'c \<Rightarrow> 'c \<Rightarrow> 'c"
  md_blocksz :: nat
  md_hashsz :: nat

record 'c hmac_ctx =
  hmac_inner :: 'c
  hmac_outer :: 'c

definition md_pad :: "bytes \<Rightarrow> nat \<Rightarrow> nat \<Rightarrow> nat \<Rightarrow> bytes" where
  "md_pad block blocksz used msg =
    (let block = blit used (replicate (blocksz - used - 4) 0) block;
         block = block[used := 0x80]
     in blit (blocksz - 4) (store32_be (word_of_nat (msg * 8))) block)"

definition HMAC_init :: "'c md_ops \<Rightarrow> 'c hmac_ctx \<Rightarrow> bytes \<Rightarrow> 'c hmac_ctx" where
  "HMAC_init ops ctx key =
    (let (inner, k) =
           (if length key > md_blocksz ops then
              (let (d, c) = md_final ops (md_update ops (md_init ops (hmac_inner ctx)) key)
               in (c, take (md_hashsz ops) d))
            else (hmac_inner ctx, key));
         k = k @ replicate (md_blocksz ops - length k) 0;
         blk_inner = map (\<lambda>b. 0x36 XOR b) k;
         blk_outer = map (\<lambda>b. 0x5c XOR b) k
     in \<lparr>hmac_inner = md_update ops (md_init ops inner) blk_inner,
         hmac_outer = md_update ops (md_init ops (hmac_outer ctx)) blk_outer\<rparr>)"

definition HMAC_update :: "'c md_ops \<Rightarrow> 'c hmac_ctx \<Rightarrow> bytes \<Rightarrow> 'c hmac_ctx" where
  "HMAC_update ops ctx data = ctx\<lparr>hmac_inner := md_update ops (hmac_inner ctx) data\<rparr>"

definition HMAC_final :: "'c md_ops \<Rightarrow> 'c hmac_ctx \<Rightarrow> bytes \<times> 'c hmac_ctx" where
  "HMAC_final ops ctx =
    (let (d, inner) = md_final ops (hmac_inner ctx);
         (d', outer) = md_final ops (md_update ops (hmac_outer ctx) (take (md_hashsz ops) d))
     in (d', \<lparr>hmac_inner = inner, hmac_outer = outer\<rparr>))"

text \<open>The loop state of \<open>PBKDF2_F\<close>: the working context, the prepared block, the accumulated result.\<close>

definition pbkdf2_step :: "'c md_ops \<Rightarrow> 'c hmac_ctx \<Rightarrow> 'c hmac_ctx \<times> bytes \<times> 'c \<Rightarrow> 'c hmac_ctx \<times> bytes \<times> 'c" where
  "pbkdf2_step ops startctx st =
    (let (ctx, ublock, result) = st;
         inner = md_xform ops (md_xcpy ops (hmac_inner ctx) (hmac_inner startctx)) ublock;
         ublock = blit 0 (md_xtract ops inner) ublock;
         outer = md_xform ops (md_xcpy ops (hmac_outer ctx) (hmac_outer startctx)) ublock;
         ublock = blit 0 (md_xtract ops outer) ublock
     in (\<lparr>hmac_inner = inner, hmac_outer = outer\<rparr>, ublock, md_xxor ops result outer))"

definition pbkdf2_f :: "'c md_ops \<Rightarrow> bytes \<Rightarrow> 'c hmac_ctx \<Rightarrow> u32 \<Rightarrow> bytes \<Rightarrow> nat \<Rightarrow> bytes" where
  "pbkdf2_f ops junk startctx counter salt iterations =
    (let ublock = md_pad junk (md_blocksz ops) (md_hashsz ops) (md_blocksz ops + md_hashsz ops);
         ctx = HMAC_update ops (HMAC_update ops startctx salt) (store32_be counter);
         (d, ctx) = HMAC_final ops ctx;
         ublock = blit 0 d ublock;
         (ctx, ublock, result) = (pbkdf2_step ops startctx ^^ (iterations - 1)) (ctx, ublock, hmac_outer ctx)
     in md_xtract ops result)"

definition pbkdf2 :: "'c md_ops \<Rightarrow> bytes \<Rightarrow> 'c hmac_ctx \<Rightarrow> bytes \<Rightarrow> bytes \<Rightarrow> nat \<Rightarrow> nat \<Rightarrow> bytes" where
  "pbkdf2 ops junk ctx pw salt iterations nout =
    (let start = HMAC_init ops ctx pw;
         blocks_needed = (nout + md_hashsz ops - 1) div md_hashsz ops
     in concat (map (\<lambda>counter.
          let block = pbkdf2_f ops junk start (word_of_nat counter) salt iterations;
              offset = (counter - 1) * md_hashsz ops;
              taken = (if nout - offset > md_hashsz ops then md_hashsz ops else nout - offset)
          in take taken block) [1..<blocks_needed + 1]))"

section \<open>The reference\<close>

definition hmac_key :: "(bytes \<Rightarrow> bytes) \<Rightarrow> nat \<Rightarrow> bytes \<Rightarrow> bytes" where
  "hmac_key H blocksz key =
    (let k = (if length key > blocksz then H key else key) in k @ replicate (blocksz - length k) 0)"

definition hmac_ref :: "(bytes \<Rightarrow> bytes) \<Rightarrow> nat \<Rightarrow> bytes \<Rightarrow> bytes \<Rightarrow> bytes" where
  "hmac_ref H blocksz key m =
    (let k = hmac_key H blocksz key
     in H (map (\<lambda>b. 0x5c XOR b) k @ H (map (\<lambda>b. 0x36 XOR b) k @ m)))"

text \<open>RFC 8018, section 5.2: \<open>U 0\<close> is the first iterate, and a block is the exclusive or of all of them.\<close>

fun pbkdf2_u :: "(bytes \<Rightarrow> bytes) \<Rightarrow> bytes \<Rightarrow> u32 \<Rightarrow> nat \<Rightarrow> bytes" where
  "pbkdf2_u prf salt counter 0 = prf (salt @ store32_be counter)"
| "pbkdf2_u prf salt counter (Suc n) = prf (pbkdf2_u prf salt counter n)"

fun pbkdf2_t :: "(bytes \<Rightarrow> bytes) \<Rightarrow> bytes \<Rightarrow> u32 \<Rightarrow> nat \<Rightarrow> bytes" where
  "pbkdf2_t prf salt counter 0 = pbkdf2_u prf salt counter 0"
| "pbkdf2_t prf salt counter (Suc n) = xor_bytes (pbkdf2_t prf salt counter n) (pbkdf2_u prf salt counter (Suc n))"

definition pbkdf2_ref :: "(bytes \<Rightarrow> bytes) \<Rightarrow> nat \<Rightarrow> nat \<Rightarrow> bytes \<Rightarrow> bytes \<Rightarrow> nat \<Rightarrow> nat \<Rightarrow> bytes" where
  "pbkdf2_ref H blocksz hashsz pw salt iterations nout =
    take nout (concat (map (\<lambda>counter. pbkdf2_t (hmac_ref H blocksz pw) salt (word_of_nat counter) (iterations - 1))
      [1..<(nout + hashsz - 1) div hashsz + 1]))"

section \<open>What the macro needs of a hash\<close>

text \<open>
  \<open>wf\<close> is the shape of a context, \<open>rep c m\<close> says that \<open>c\<close> was fed \<open>m\<close>, \<open>H\<close> is the hash, \<open>lim\<close> bounds
  the messages.  \<open>pad_block\<close> is the law behind the fast loop: after one whole block, compressing the
  prepared block over a digest finishes the hash of both.
\<close>

locale md_hash =
  fixes ops :: "'c md_ops" and wf :: "'c \<Rightarrow> bool" and rep :: "'c \<Rightarrow> bytes \<Rightarrow> bool"
    and H :: "bytes \<Rightarrow> bytes" and lim :: nat
  assumes init: "wf c \<Longrightarrow> rep (md_init ops c) []"
    and rep_wf: "rep c m \<Longrightarrow> wf c"
    and update: "rep c m \<Longrightarrow> length m + length d < lim \<Longrightarrow> rep (md_update ops c d) (m @ d)"
    and final: "rep c m \<Longrightarrow> length m < lim \<Longrightarrow> fst (md_final ops c) = H m
          \<and> wf (snd (md_final ops c)) \<and> md_xtract ops (snd (md_final ops c)) = H m"
    and length_hash: "length (H m) = md_hashsz ops"
    and sizes: "md_hashsz ops + 5 \<le> md_blocksz ops" "0 < md_hashsz ops"
          "2 * md_blocksz ops < lim"
    and pad_block: "rep c m \<Longrightarrow> length m = md_blocksz ops \<Longrightarrow> length u = md_hashsz ops \<Longrightarrow> wf c' \<Longrightarrow>
          length junk = md_blocksz ops \<Longrightarrow>
          wf (md_xform ops (md_xcpy ops c' c) (blit 0 u (md_pad junk (md_blocksz ops) (md_hashsz ops) (md_blocksz ops + md_hashsz ops))))
          \<and> md_xtract ops (md_xform ops (md_xcpy ops c' c)
              (blit 0 u (md_pad junk (md_blocksz ops) (md_hashsz ops) (md_blocksz ops + md_hashsz ops)))) = H (m @ u)"
    and xxor: "wf c \<Longrightarrow> wf c' \<Longrightarrow> wf (md_xxor ops c c')
          \<and> md_xtract ops (md_xxor ops c c') = xor_bytes (md_xtract ops c) (md_xtract ops c')"
begin

abbreviation "bsz \<equiv> md_blocksz ops"
abbreviation "hsz \<equiv> md_hashsz ops"

definition ipad :: "bytes \<Rightarrow> bytes" where "ipad pw = map (\<lambda>b. 0x36 XOR b) (hmac_key H bsz pw)"
definition opad :: "bytes \<Rightarrow> bytes" where "opad pw = map (\<lambda>b. 0x5c XOR b) (hmac_key H bsz pw)"

lemma hmac_ref_pads: "hmac_ref H bsz pw m = H (opad pw @ H (ipad pw @ m))"
  by (simp add: hmac_ref_def ipad_def opad_def Let_def)

lemma length_hmac_ref: "length (hmac_ref H bsz pw m) = hsz"
  by (simp add: hmac_ref_pads length_hash)

lemma length_pads: "length (ipad pw) = bsz" "length (opad pw) = bsz"
  using sizes by (simp_all add: ipad_def opad_def hmac_key_def Let_def length_hash)

lemma hmac_init_rep:
  assumes "wf (hmac_inner ctx)" and "wf (hmac_outer ctx)" and "length pw < lim"
  shows "rep (hmac_inner (HMAC_init ops ctx pw)) (ipad pw)" "rep (hmac_outer (HMAC_init ops ctx pw)) (opad pw)"
proof -
  define inner where "inner = (if length pw > bsz then snd (md_final ops (md_update ops (md_init ops (hmac_inner ctx)) pw)) else hmac_inner ctx)"
  have f: "rep (md_update ops (md_init ops (hmac_inner ctx)) pw) pw"
    using update [OF init [OF assms(1)], of pw] assms(3) by simp
  have wfi: "wf inner" using final [OF f] assms by (simp add: inner_def)
  have ini: "HMAC_init ops ctx pw = \<lparr>hmac_inner = md_update ops (md_init ops inner) (ipad pw),
      hmac_outer = md_update ops (md_init ops (hmac_outer ctx)) (opad pw)\<rparr>"
    using final [OF f] assms(3) length_hash [of pw]
    by (auto simp: HMAC_init_def ipad_def opad_def inner_def hmac_key_def Let_def split_def)
  have "rep (md_update ops (md_init ops c) d) d" if "wf c" "length d = bsz" for c d
    using update [OF init [OF that(1)], of d] that(2) sizes by simp
  then show "rep (hmac_inner (HMAC_init ops ctx pw)) (ipad pw)" "rep (hmac_outer (HMAC_init ops ctx pw)) (opad pw)"
    using wfi assms(2) length_pads by (simp_all add: ini)
qed

lemma hmac_final_ref:
  assumes "rep (hmac_inner ctx) (ipad pw @ m)" and "rep (hmac_outer ctx) (opad pw)"
    and "bsz + length m < lim"
  shows "fst (HMAC_final ops ctx) = hmac_ref H bsz pw m"
    and "md_xtract ops (hmac_outer (snd (HMAC_final ops ctx))) = hmac_ref H bsz pw m"
    and "wf (hmac_inner (snd (HMAC_final ops ctx)))" and "wf (hmac_outer (snd (HMAC_final ops ctx)))"
proof -
  let ?d = "H (ipad pw @ m)"
  have i: "fst (md_final ops (hmac_inner ctx)) = ?d" "wf (snd (md_final ops (hmac_inner ctx)))"
    using final [OF assms(1)] assms(3) length_pads by simp_all
  have "rep (md_update ops (hmac_outer ctx) ?d) (opad pw @ ?d)"
    using update [OF assms(2), of ?d] length_pads length_hash sizes by simp
  moreover have "length (opad pw @ ?d) < lim" using length_pads length_hash sizes by simp
  ultimately have o: "fst (md_final ops (md_update ops (hmac_outer ctx) ?d)) = H (opad pw @ ?d)"
    "wf (snd (md_final ops (md_update ops (hmac_outer ctx) ?d)))"
    "md_xtract ops (snd (md_final ops (md_update ops (hmac_outer ctx) ?d))) = H (opad pw @ ?d)"
    using final by simp_all
  have e: "HMAC_final ops ctx = (fst (md_final ops (md_update ops (hmac_outer ctx) ?d)),
      \<lparr>hmac_inner = snd (md_final ops (hmac_inner ctx)), hmac_outer = snd (md_final ops (md_update ops (hmac_outer ctx) ?d))\<rparr>)"
    using i length_hash [of "ipad pw @ m"] by (simp add: HMAC_final_def split_def Let_def)
  show "fst (HMAC_final ops ctx) = hmac_ref H bsz pw m"
    "md_xtract ops (hmac_outer (snd (HMAC_final ops ctx))) = hmac_ref H bsz pw m"
    "wf (hmac_inner (snd (HMAC_final ops ctx)))" "wf (hmac_outer (snd (HMAC_final ops ctx)))"
    using i o by (simp_all add: e hmac_ref_pads)
qed

lemma length_md_pad: "length junk = bsz \<Longrightarrow> length (md_pad junk bsz hsz n) = bsz"
  using sizes by (simp add: md_pad_def Let_def length_blit)

abbreviation "prepared junk u \<equiv> blit 0 u (md_pad junk bsz hsz (bsz + hsz))"

text \<open>One pass of the loop, from the block that holds \<open>u\<close> to the block that holds the HMAC of \<open>u\<close>.\<close>

lemma pbkdf2_step_ref:
  assumes start: "rep (hmac_inner start) (ipad pw)" "rep (hmac_outer start) (opad pw)"
    and ctx: "wf (hmac_inner ctx)" "wf (hmac_outer ctx)" "wf result"
    and u: "length u = hsz" and junk: "length junk = bsz"
    and step: "pbkdf2_step ops start (ctx, prepared junk u, result) = (ctx', block', result')"
  shows "wf (hmac_inner ctx')" "wf (hmac_outer ctx')" "wf result'"
    and "block' = prepared junk (hmac_ref H bsz pw u)"
    and "md_xtract ops result' = xor_bytes (md_xtract ops result) (hmac_ref H bsz pw u)"
proof -
  define ic where "ic = md_xform ops (md_xcpy ops (hmac_inner ctx) (hmac_inner start)) (prepared junk u)"
  have i: "wf ic" "md_xtract ops ic = H (ipad pw @ u)"
    using pad_block [OF start(1) length_pads(1) u ctx(1) junk] by (simp_all add: ic_def)
  have again: "blit 0 v (prepared junk w) = prepared junk v" if "length v = hsz" "length w = hsz" for v w
    using that sizes length_md_pad [OF junk] by (simp add: blit_blit_same)
  define oc where "oc = md_xform ops (md_xcpy ops (hmac_outer ctx) (hmac_outer start)) (prepared junk (H (ipad pw @ u)))"
  have o: "wf oc" "md_xtract ops oc = hmac_ref H bsz pw u"
    using pad_block [OF start(2) length_pads(2) length_hash ctx(2) junk, of "ipad pw @ u"]
    by (simp_all add: oc_def hmac_ref_pads)
  have "pbkdf2_step ops start (ctx, prepared junk u, result)
      = (\<lparr>hmac_inner = ic, hmac_outer = oc\<rparr>, prepared junk (hmac_ref H bsz pw u), md_xxor ops result oc)"
    using i o u by (simp add: pbkdf2_step_def Let_def ic_def [symmetric] again length_hash oc_def [symmetric] length_hmac_ref)
  then show "wf (hmac_inner ctx')" "wf (hmac_outer ctx')" "wf result'"
    "block' = prepared junk (hmac_ref H bsz pw u)"
    "md_xtract ops result' = xor_bytes (md_xtract ops result) (hmac_ref H bsz pw u)"
    using step i o xxor [OF ctx(3) o(1)] by auto
qed

lemma length_pbkdf2_u: "length (pbkdf2_u (hmac_ref H bsz pw) salt counter n) = hsz"
  by (cases n) (simp_all add: length_hmac_ref)

lemma length_pbkdf2_t: "length (pbkdf2_t (hmac_ref H bsz pw) salt counter n) = hsz"
  by (induction n) (simp_all add: length_pbkdf2_u length_hmac_ref)

lemma pbkdf2_loop_ref:
  assumes start: "rep (hmac_inner start) (ipad pw)" "rep (hmac_outer start) (opad pw)"
    and ctx: "wf (hmac_inner ctx)" "wf (hmac_outer ctx)" "wf result"
    and junk: "length junk = bsz"
    and res: "md_xtract ops result = pbkdf2_u (hmac_ref H bsz pw) salt counter 0"
  shows "\<exists>ctx' result'. (pbkdf2_step ops start ^^ n)
        (ctx, prepared junk (pbkdf2_u (hmac_ref H bsz pw) salt counter 0), result)
      = (ctx', prepared junk (pbkdf2_u (hmac_ref H bsz pw) salt counter n), result')
    \<and> wf (hmac_inner ctx') \<and> wf (hmac_outer ctx') \<and> wf result'
    \<and> md_xtract ops result' = pbkdf2_t (hmac_ref H bsz pw) salt counter n"
proof (induction n)
  case 0
  then show ?case using ctx res by simp
next
  case (Suc n)
  let ?u = "pbkdf2_u (hmac_ref H bsz pw) salt counter n"
  from Suc obtain ctx1 result1 where one: "(pbkdf2_step ops start ^^ n)
        (ctx, prepared junk (pbkdf2_u (hmac_ref H bsz pw) salt counter 0), result) = (ctx1, prepared junk ?u, result1)"
    and wf1: "wf (hmac_inner ctx1)" "wf (hmac_outer ctx1)" "wf result1"
    and res1: "md_xtract ops result1 = pbkdf2_t (hmac_ref H bsz pw) salt counter n" by auto
  obtain ctx2 block2 result2 where two: "pbkdf2_step ops start (ctx1, prepared junk ?u, result1) = (ctx2, block2, result2)"
    by (metis prod_cases3)
  show ?case
    using pbkdf2_step_ref [OF start wf1 length_pbkdf2_u junk two] one two res1 by simp
qed

lemma pbkdf2_f_ref:
  assumes start: "rep (hmac_inner start) (ipad pw)" "rep (hmac_outer start) (opad pw)"
    and junk: "length junk = bsz" and salt: "bsz + length salt + 4 < lim"
  shows "pbkdf2_f ops junk start counter salt iterations
    = pbkdf2_t (hmac_ref H bsz pw) salt counter (iterations - 1)"
proof -
  define ctx where "ctx = HMAC_update ops (HMAC_update ops start salt) (store32_be counter)"
  have 1: "rep (md_update ops (hmac_inner start) salt) (ipad pw @ salt)"
    using update [OF start(1)] length_pads salt by simp
  have 2: "rep (hmac_inner ctx) (ipad pw @ (salt @ store32_be counter))"
    using update [OF 1, of "store32_be counter"] length_pads salt by (simp add: ctx_def HMAC_update_def)
  have 3: "rep (hmac_outer ctx) (opad pw)" using start by (simp add: ctx_def HMAC_update_def)
  have lim: "bsz + length (salt @ store32_be counter) < lim" using salt by simp
  note fin = hmac_final_ref [OF 2 3 lim]
  obtain ctx' result' where "(pbkdf2_step ops start ^^ (iterations - 1))
        (snd (HMAC_final ops ctx), prepared junk (pbkdf2_u (hmac_ref H bsz pw) salt counter 0),
          hmac_outer (snd (HMAC_final ops ctx)))
      = (ctx', prepared junk (pbkdf2_u (hmac_ref H bsz pw) salt counter (iterations - 1)), result')"
    and "md_xtract ops result' = pbkdf2_t (hmac_ref H bsz pw) salt counter (iterations - 1)"
    using pbkdf2_loop_ref [OF start fin(3,4,4) junk, of salt counter "iterations - 1"] fin by auto
  then show ?thesis
    using fin(1) by (simp add: pbkdf2_f_def Let_def ctx_def [symmetric] split_def)
qed

text \<open>The whole macro: only the last block may be cut, and it is cut where the reference cuts.\<close>

lemma concat_take_blocks:
  assumes "\<And>i. length (f i) = h" and "0 < h"
  shows "concat (map (\<lambda>i. take (if nout - (i - 1) * h > h then h else nout - (i - 1) * h) (f i))
      [1..<(nout + h - 1) div h + 1]) = take nout (concat (map f [1..<(nout + h - 1) div h + 1]))"
proof -
  have "concat (map (\<lambda>i. take (if nout - (i - 1) * h > h then h else nout - (i - 1) * h) (f i)) [1..<n + 1])
      = take nout (concat (map f [1..<n + 1]))" for n
  proof (induction n)
    case (Suc n)
    have "length (concat (map f [1..<n + 1])) = h * n" using assms by (simp add: length_concat_chunks)
    then show ?case using Suc assms by (simp add: mult.commute)
  qed simp
  then show ?thesis .
qed

lemma pbkdf2_is_ref:
  assumes "wf (hmac_inner ctx)" "wf (hmac_outer ctx)" "length junk = bsz"
    and "length pw < lim" "bsz + length salt + 4 < lim"
  shows "pbkdf2 ops junk ctx pw salt iterations nout = pbkdf2_ref H bsz hsz pw salt iterations nout"
proof -
  have "pbkdf2_f ops junk (HMAC_init ops ctx pw) counter salt iterations
      = pbkdf2_t (hmac_ref H bsz pw) salt counter (iterations - 1)" for counter
    using pbkdf2_f_ref [OF hmac_init_rep [OF assms(1,2,4)] assms(3,5)] .
  then show ?thesis
    unfolding pbkdf2_def pbkdf2_ref_def Let_def
    using concat_take_blocks [of "\<lambda>i. pbkdf2_t (hmac_ref H bsz pw) salt (word_of_nat i) (iterations - 1)" hsz nout]
      length_pbkdf2_t sizes by simp
qed

end

section \<open>SHA-256\<close>

definition sha256_cpy :: "sha256_ctx \<Rightarrow> sha256_ctx \<Rightarrow> sha256_ctx" where
  "sha256_cpy out inp = out\<lparr>sha_h := sha_h inp\<rparr>"

definition sha256_xor :: "sha256_ctx \<Rightarrow> sha256_ctx \<Rightarrow> sha256_ctx" where
  "sha256_xor out inp = out\<lparr>sha_h := map2 (XOR) (sha_h out) (sha_h inp)\<rparr>"

definition sha256_ops :: "sha256_ctx md_ops" where
  "sha256_ops = \<lparr>md_init = sha256_init, md_update = (\<lambda>c d. sha256_update c d (word_of_nat (length d))),
     md_xform = sha256_transform, md_final = sha256_final, md_xcpy = sha256_cpy,
     md_xtract = sha256_extract, md_xxor = sha256_xor, md_blocksz = 64, md_hashsz = 32\<rparr>"

definition fastpbkdf2_hmac_sha256 :: "bytes \<Rightarrow> sha256_ctx hmac_ctx \<Rightarrow> bytes \<Rightarrow> bytes \<Rightarrow> nat \<Rightarrow> nat \<Rightarrow> bytes" where
  "fastpbkdf2_hmac_sha256 junk ctx pw salt iterations nout = pbkdf2 sha256_ops junk ctx pw salt iterations nout"

definition sha256_wf :: "sha256_ctx \<Rightarrow> bool" where
  "sha256_wf c \<longleftrightarrow> length (sha_block c) = 128 \<and> length (sha_h c) = 8"

lemma length_sha256_h0: "length sha256_h0 = 8"
  by (simp add: sha256_h0_def)

lemma length_sha256_ref: "length (sha256_ref m) = 32"
  by (simp add: sha256_ref_def length_concat_chunks [where w = 4] length_sha256_transf length_sha256_h0)

lemma sha256_rep_wf: "sha256_rep c m \<Longrightarrow> sha256_wf c"
  by (simp add: sha256_rep_def sha256_wf_def length_sha256_transf length_sha256_h0)

lemma sha256_xtract_xor:
  "length (sha_h a) = length (sha_h b) \<Longrightarrow>
    sha256_extract (sha256_xor a b) = xor_bytes (sha256_extract a) (sha256_extract b)"
proof -
  have one: "store32_be (x XOR y) = xor_bytes (store32_be x) (store32_be y)" for x y
  proof -
    have *: "(ucast (drop_bit n (x XOR y)) :: u8) = ucast (drop_bit n x) XOR ucast (drop_bit n y)" for n
      by (rule bit_word_eqI) (auto simp: bit_simps)
    show ?thesis using * [of 0] * [of 8] * [of 16] * [of 24] by (simp add: store32_be_def xor_bytes_def)
  qed
  have "length xs = length ys \<Longrightarrow> concat (map store32_be (map2 (XOR) xs ys))
      = xor_bytes (concat (map store32_be xs)) (concat (map store32_be ys))" for xs ys
    by (induction xs ys rule: list_induct2) (simp_all add: one xor_bytes_def zip_append)
  then show "length (sha_h a) = length (sha_h b) \<Longrightarrow>
    sha256_extract (sha256_xor a b) = xor_bytes (sha256_extract a) (sha256_extract b)"
    by (simp add: sha256_extract_def sha256_xor_def)
qed

text \<open>After one whole block, the prepared block over a digest is the padded rest of the message.\<close>

lemma sha256_pad_block:
  assumes rep: "sha256_rep c m" and m: "length m = 64" and u: "length u = 32" and junk: "length junk = 64"
  shows "sha256_extract (sha256_transform (sha256_cpy c' c) (blit 0 u (md_pad junk 64 32 (64 + 32)))) = sha256_ref (m @ u)"
proof -
  define rest :: bytes where "rest = 0x80 # replicate 27 0 @ store32_be 768"
  have "length (blit 32 (replicate 28 0) junk) = 64" using junk by (simp add: length_blit)
  moreover have "blit 32 (replicate 28 0) junk = take 32 junk @ replicate 28 0 @ drop 60 junk" by (simp add: blit_def)
  ultimately have "md_pad junk 64 32 96 = take 32 junk @ rest"
    using junk by (simp add: md_pad_def Let_def rest_def list_update_append blit_def) (simp add: numeral_eq_Suc)
  then have blk: "blit 0 u (md_pad junk 64 32 (64 + 32)) = u @ rest"
    using u junk by (simp add: blit_def)
  have z: "replicate 27 0 = replicate 23 (0 :: u8) @ store32_be 0"
    by (simp add: store32_be_def numeral_eq_Suc)
  have pad: "sha256_pad (m @ u) = m @ (u @ rest)"
    using m u by (simp add: sha256_pad_def rest_def z)
  have len: "length (u @ rest) = 64" using u by (simp add: rest_def)
  have h: "sha_h c = sha256_transf sha256_h0 m 1" using rep m by (simp add: sha256_rep_def)
  have "sha256_ref (m @ u) = concat (map store32_be (sha256_transf sha256_h0 (m @ (u @ rest)) (1 + 1)))"
  proof -
    have "length (m @ (u @ rest)) div 64 = 1 + 1" unfolding length_append [of m] m len by simp
    then show ?thesis by (simp only: sha256_ref_def pad)
  qed
  also have "sha256_transf sha256_h0 (m @ (u @ rest)) (1 + 1) = sha256_transf (sha_h c) (u @ rest) 1"
    unfolding h using m by (intro transf_append) simp
  finally show ?thesis unfolding blk by (simp add: sha256_extract_def sha256_transform_def sha256_cpy_def)
qed

interpretation sha: md_hash sha256_ops sha256_wf sha256_rep sha256_ref "2 ^ 29"
proof (unfold_locales, goal_cases)
  case (1 c)
  then show ?case by (simp add: sha256_ops_def sha256_rep_init sha256_wf_def)
next
  case (2 c m)
  then show ?case by (rule sha256_rep_wf)
next
  case (3 c m d)
  then show ?case by (simp add: sha256_ops_def sha256_update_rep)
next
  case (4 c m)
  have "unat (sha_len c) < 64" using 4(1) by (simp add: sha256_rep_def)
  then have "sha256_wf (snd (sha256_final c))"
    using sha256_rep_wf [OF 4(1)] by (simp add: sha256_final_def Let_def sha256_wf_def length_blit length_sha256_transf)
  moreover have "sha256_extract (snd (sha256_final c)) = fst (sha256_final c)"
    by (simp add: sha256_final_def Let_def)
  ultimately show ?case using sha256_final_ref [OF 4] by (simp add: sha256_ops_def)
next
  case (5 m)
  then show ?case by (simp add: sha256_ops_def length_sha256_ref)
next
  case (9 c m u c' junk)
  then show ?case using sha256_rep_wf [OF 9(1)] sha256_pad_block
    by (simp add: sha256_ops_def sha256_transform_def sha256_cpy_def sha256_wf_def length_sha256_block)
next
  case (10 c c')
  then show ?case using sha256_xtract_xor [of c c'] by (simp add: sha256_ops_def sha256_wf_def sha256_xor_def)
qed (simp_all add: sha256_ops_def)

section \<open>Properties\<close>

text \<open>\<open>fastpbkdf2_hmac_sha256\<close>, whose loop compresses one prepared block per hash and never pads,
  derives the key that RFC 8018 defines (PBKDF2 over HMAC-SHA-256), for every passphrase, salt,
  number of iterations and key length, whatever the uninitialised locals held, as long as passphrase
  and salt are shorter than half a gigabyte.\<close>

theorem pbkdf2_is_rfc8018:
  "sha256_wf (hmac_inner ctx) \<Longrightarrow> sha256_wf (hmac_outer ctx) \<Longrightarrow> length junk = 64 \<Longrightarrow>
   length pw < 2 ^ 29 \<Longrightarrow> length salt + 68 < 2 ^ 29 \<Longrightarrow>
     fastpbkdf2_hmac_sha256 junk ctx pw salt iterations nout
       = pbkdf2_ref sha256_ref 64 32 pw salt iterations nout"
  using sha.pbkdf2_is_ref [of ctx junk pw salt iterations nout]
  by (simp add: fastpbkdf2_hmac_sha256_def sha256_ops_def)

definition hmac_blank :: "sha256_ctx hmac_ctx" where
  "hmac_blank = \<lparr>hmac_inner = sha256_blank, hmac_outer = sha256_blank\<rparr>"

lemma pbkdf2_is_rfc8018_witness:
  "fastpbkdf2_hmac_sha256 (replicate 64 5) hmac_blank [112, 119] (replicate 16 1) 64007 32
     = pbkdf2_ref sha256_ref 64 32 [112, 119] (replicate 16 1) 64007 32"
  by (rule pbkdf2_is_rfc8018) (simp_all add: hmac_blank_def sha256_blank_def sha256_wf_def)

end
