(* ===== verification/CString.thy ===== *)
theory CString
  imports Prelude
begin

text \<open>
  NUL-terminated strings (\<open>util.c\<close> and \<open>global.c\<close> inside \<open>sqlite3.c\<close>).  A C string is the list of its
  bytes before the terminator; reading at the terminator gives zero (\<open>chr0\<close>).  The theory holds the
  two character tables, the case-insensitive comparisons and the hash on which the symbol tables
  rest, dequoting, and hexadecimal digits.
\<close>

section \<open>Character tables\<close>

definition sqlite3UpperToLower :: "nat list" where
  "sqlite3UpperToLower =
    [0, 1, 2, 3, 4, 5, 6, 7, 8, 9, 10, 11, 12, 13, 14, 15, 16, 17, 18, 19, 20, 21, 22, 23,
     24, 25, 26, 27, 28, 29, 30, 31, 32, 33, 34, 35, 36, 37, 38, 39, 40, 41, 42, 43, 44, 45, 46, 47,
     48, 49, 50, 51, 52, 53, 54, 55, 56, 57, 58, 59, 60, 61, 62, 63, 64, 97, 98, 99, 100, 101, 102, 103,
     104, 105, 106, 107, 108, 109, 110, 111, 112, 113, 114, 115, 116, 117, 118, 119, 120, 121, 122, 91, 92, 93, 94, 95,
     96, 97, 98, 99, 100, 101, 102, 103, 104, 105, 106, 107, 108, 109, 110, 111, 112, 113, 114, 115, 116, 117, 118, 119,
     120, 121, 122, 123, 124, 125, 126, 127, 128, 129, 130, 131, 132, 133, 134, 135, 136, 137, 138, 139, 140, 141, 142, 143,
     144, 145, 146, 147, 148, 149, 150, 151, 152, 153, 154, 155, 156, 157, 158, 159, 160, 161, 162, 163, 164, 165, 166, 167,
     168, 169, 170, 171, 172, 173, 174, 175, 176, 177, 178, 179, 180, 181, 182, 183, 184, 185, 186, 187, 188, 189, 190, 191,
     192, 193, 194, 195, 196, 197, 198, 199, 200, 201, 202, 203, 204, 205, 206, 207, 208, 209, 210, 211, 212, 213, 214, 215,
     216, 217, 218, 219, 220, 221, 222, 223, 224, 225, 226, 227, 228, 229, 230, 231, 232, 233, 234, 235, 236, 237, 238, 239,
     240, 241, 242, 243, 244, 245, 246, 247, 248, 249, 250, 251, 252, 253, 254, 255]"

definition sqlite3CtypeMap :: "u8 list" where
  "sqlite3CtypeMap =
    [0, 0, 0, 0, 0, 0, 0, 0, 0, 1, 1, 1, 1, 1, 0, 0, 0, 0, 0, 0, 0, 0, 0, 0,
     0, 0, 0, 0, 0, 0, 0, 0, 1, 0, 128, 0, 64, 0, 0, 128, 0, 0, 0, 0, 0, 0, 0, 0,
     12, 12, 12, 12, 12, 12, 12, 12, 12, 12, 0, 0, 0, 0, 0, 0, 0, 10, 10, 10, 10, 10, 10, 2,
     2, 2, 2, 2, 2, 2, 2, 2, 2, 2, 2, 2, 2, 2, 2, 2, 2, 2, 2, 128, 0, 0, 0, 64,
     128, 42, 42, 42, 42, 42, 42, 34, 34, 34, 34, 34, 34, 34, 34, 34, 34, 34, 34, 34, 34, 34, 34, 34,
     34, 34, 34, 0, 0, 0, 0, 0, 64, 64, 64, 64, 64, 64, 64, 64, 64, 64, 64, 64, 64, 64, 64, 64,
     64, 64, 64, 64, 64, 64, 64, 64, 64, 64, 64, 64, 64, 64, 64, 64, 64, 64, 64, 64, 64, 64, 64, 64,
     64, 64, 64, 64, 64, 64, 64, 64, 64, 64, 64, 64, 64, 64, 64, 64, 64, 64, 64, 64, 64, 64, 64, 64,
     64, 64, 64, 64, 64, 64, 64, 64, 64, 64, 64, 64, 64, 64, 64, 64, 64, 64, 64, 64, 64, 64, 64, 64,
     64, 64, 64, 64, 64, 64, 64, 64, 64, 64, 64, 64, 64, 64, 64, 64, 64, 64, 64, 64, 64, 64, 64, 64,
     64, 64, 64, 64, 64, 64, 64, 64, 64, 64, 64, 64, 64, 64, 64, 64]"

definition ctype :: "u8 \<Rightarrow> u8" where
  "ctype x = sqlite3CtypeMap ! unat x"

definition sqlite3Isspace :: "u8 \<Rightarrow> bool" where "sqlite3Isspace x \<longleftrightarrow> ctype x AND 0x01 \<noteq> 0"
definition sqlite3Isalnum :: "u8 \<Rightarrow> bool" where "sqlite3Isalnum x \<longleftrightarrow> ctype x AND 0x06 \<noteq> 0"
definition sqlite3Isdigit :: "u8 \<Rightarrow> bool" where "sqlite3Isdigit x \<longleftrightarrow> ctype x AND 0x04 \<noteq> 0"
definition sqlite3Isxdigit :: "u8 \<Rightarrow> bool" where "sqlite3Isxdigit x \<longleftrightarrow> ctype x AND 0x08 \<noteq> 0"
definition sqlite3Isquote :: "u8 \<Rightarrow> bool" where "sqlite3Isquote x \<longleftrightarrow> ctype x AND 0x80 \<noteq> 0"

text \<open>The table lookup \<open>UpperToLower[c]\<close>, as the \<open>int\<close> the comparisons subtract.\<close>

definition UpperToLower :: "u8 \<Rightarrow> int" where
  "UpperToLower c = int (sqlite3UpperToLower ! unat c)"

lemma UpperToLower_table:
  "sqlite3UpperToLower = map (\<lambda>k. if 65 \<le> k \<and> k \<le> 90 then k + 32 else k) [0..<256]"
  by code_simp

lemma UpperToLower_eq:
  "UpperToLower c = (if 65 \<le> unat c \<and> unat c \<le> 90 then int (unat c) + 32 else int (unat c))"
  using unat_less [of c] by (simp add: UpperToLower_def UpperToLower_table)

lemma ctype_bits:
  "map (\<lambda>c. c AND 0x04 \<noteq> 0) sqlite3CtypeMap = map (\<lambda>k. 48 \<le> k \<and> k \<le> 57) [0..<256]"
  "map (\<lambda>c. c AND 0x80 \<noteq> 0) sqlite3CtypeMap = map (\<lambda>k. k \<in> {34, 39, 91, 96}) [0..<256]"
  "map (\<lambda>c. c AND 0x01 \<noteq> 0) sqlite3CtypeMap = map (\<lambda>k. k = 32 \<or> 9 \<le> k \<and> k \<le> 13) [0..<256]"
  by code_simp+

lemma length_ctype [simp]: "length sqlite3CtypeMap = 256"
  by code_simp

lemma ctype_class:
  assumes "map f sqlite3CtypeMap = map g [0..<256]" shows "f (ctype x) = g (unat x)"
proof -
  have u: "unat x < 256" using unat_less [of x] by simp
  have "map f sqlite3CtypeMap ! unat x = map g [0..<256] ! unat x" using assms by simp
  then show ?thesis using u by (simp add: ctype_def)
qed

lemma isdigit_iff: "sqlite3Isdigit x \<longleftrightarrow> 48 \<le> unat x \<and> unat x \<le> 57"
  unfolding sqlite3Isdigit_def by (rule ctype_class [OF ctype_bits(1)])

lemma isquote_iff: "sqlite3Isquote x \<longleftrightarrow> x \<in> {34, 39, 91, 96}"
  unfolding sqlite3Isquote_def ctype_class [OF ctype_bits(2)]
  by (auto simp: word_eq_iff_unsigned [where ?'a = nat])

lemma isspace_iff: "sqlite3Isspace x \<longleftrightarrow> unat x = 32 \<or> 9 \<le> unat x \<and> unat x \<le> 13"
  unfolding sqlite3Isspace_def by (rule ctype_class [OF ctype_bits(3)])

section \<open>Strings\<close>

text \<open>The byte \<open>z[i]\<close>; at and past the terminator it reads as zero.\<close>

definition zat :: "bytes \<Rightarrow> nat \<Rightarrow> u8" where
  "zat z i = (if i < length z then z ! i else 0)"

lemma zat_inside: "zat z i \<noteq> 0 \<Longrightarrow> i < length z"
  by (auto simp: zat_def split: if_splits)


definition chr0 :: "bytes \<Rightarrow> u8" where
  "chr0 z = (case z of [] \<Rightarrow> 0 | c # _ \<Rightarrow> c)"

text \<open>The list is the string of a pointer: no byte of it is the terminator.\<close>

definition cstr :: "bytes \<Rightarrow> bool" where
  "cstr z \<longleftrightarrow> 0 \<notin> set z"

lemma chr0_simps [simp]: "chr0 [] = 0" "chr0 (c # z) = c"
  by (simp_all add: chr0_def)

lemma cstr_simps [simp]: "cstr []" "cstr (c # z) \<longleftrightarrow> c \<noteq> 0 \<and> cstr z" "cstr (x @ y) \<longleftrightarrow> cstr x \<and> cstr y"
  by (auto simp: cstr_def)

definition sqlite3Strlen30 :: "bytes \<Rightarrow> u32" where
  "sqlite3Strlen30 z = 0x3fffffff AND word_of_nat (length z)"

section \<open>Case-insensitive comparison\<close>

function sqlite3StrICmp :: "bytes \<Rightarrow> bytes \<Rightarrow> int" where
  "sqlite3StrICmp a b =
    (let c = chr0 a; x = chr0 b
     in if c = x then (if c = 0 then 0 else sqlite3StrICmp (tl a) (tl b))
        else let d = UpperToLower c - UpperToLower x
             in if d \<noteq> 0 then d else sqlite3StrICmp (tl a) (tl b))"
  by pat_completeness auto
termination
  by (relation "measure (\<lambda>(a, b). length a + length b)") (auto simp: chr0_def split: list.splits)

declare sqlite3StrICmp.simps [simp del]

text \<open>\<open>while( N-- > 0 && *a!=0 && UpperToLower[*a]==UpperToLower[*b]){ a++; b++; }\<close>\<close>

fun sqlite3_strnicmp :: "bytes \<Rightarrow> bytes \<Rightarrow> nat \<Rightarrow> int" where
  "sqlite3_strnicmp a b 0 = 0"
| "sqlite3_strnicmp a b (Suc n) =
    (if chr0 a \<noteq> 0 \<and> UpperToLower (chr0 a) = UpperToLower (chr0 b)
     then sqlite3_strnicmp (tl a) (tl b) n
     else UpperToLower (chr0 a) - UpperToLower (chr0 b))"

definition sqlite3StrIHash :: "bytes \<Rightarrow> u8" where
  "sqlite3StrIHash z = foldl (\<lambda>h c. h + word_of_int (UpperToLower c)) 0 z"

definition lower :: "bytes \<Rightarrow> int list" where
  "lower z = map UpperToLower z"

lemma lower_simps [simp]: "lower [] = []" "lower (c # z) = UpperToLower c # lower z"
  by (simp_all add: lower_def)

lemma UpperToLower_zero [simp]: "UpperToLower c = 0 \<longleftrightarrow> c = 0"
proof -
  have "int (unat c) = 0 \<longleftrightarrow> c = 0" by (simp only: of_nat_eq_0_iff unsigned_eq_0_iff)
  then show ?thesis unfolding UpperToLower_eq by (auto simp del: of_nat_unat)
qed

lemma UpperToLower_pos: "c \<noteq> 0 \<Longrightarrow> 0 < UpperToLower c" "\<not> UpperToLower c < 0"
proof -
  show ge: "\<not> UpperToLower c < 0" unfolding UpperToLower_eq by (simp del: of_nat_unat)
  show "c \<noteq> 0 \<Longrightarrow> 0 < UpperToLower c" using ge UpperToLower_zero [of c] by linarith
qed

lemma UpperToLower_0 [simp]: "UpperToLower 0 = 0"
  by simp

text \<open>The comparison steps through the strings by their lower-case bytes.\<close>

lemma StrICmp_simps [simp]:
  "sqlite3StrICmp [] [] = 0"
  "c \<noteq> 0 \<Longrightarrow> sqlite3StrICmp (c # a) [] = UpperToLower c"
  "x \<noteq> 0 \<Longrightarrow> sqlite3StrICmp [] (x # b) = - UpperToLower x"
  "c \<noteq> 0 \<Longrightarrow> x \<noteq> 0 \<Longrightarrow> sqlite3StrICmp (c # a) (x # b) =
     (if UpperToLower c = UpperToLower x then sqlite3StrICmp a b else UpperToLower c - UpperToLower x)"
  by (subst sqlite3StrICmp.simps, simp add: Let_def)+

lemma StrICmp_zero: "cstr a \<Longrightarrow> cstr b \<Longrightarrow> sqlite3StrICmp a b = 0 \<longleftrightarrow> lower a = lower b"
proof (induction a arbitrary: b)
  case Nil
  then show ?case by (cases b) auto
next
  case (Cons c a)
  then show ?case by (cases b) auto
qed

lemma StrICmp_lex:
  "cstr a \<Longrightarrow> cstr b \<Longrightarrow> sqlite3StrICmp a b < 0 \<longleftrightarrow> (lower a, lower b) \<in> lexord {(x, y). x < y}"
proof (induction a arbitrary: b)
  case Nil
  then show ?case by (cases b) (auto simp: UpperToLower_pos)
next
  case (Cons c a)
  then show ?case by (cases b) (auto simp: UpperToLower_pos)
qed

lemma StrICmp_anti: "cstr a \<Longrightarrow> cstr b \<Longrightarrow> sqlite3StrICmp b a = - sqlite3StrICmp a b"
proof (induction a arbitrary: b)
  case Nil
  then show ?case by (cases b) auto
next
  case (Cons c a)
  then show ?case by (cases b) auto
qed

lemma strnicmp_zero:
  "cstr a \<Longrightarrow> cstr b \<Longrightarrow> sqlite3_strnicmp a b n = 0 \<longleftrightarrow> lower (take n a) = lower (take n b)"
proof (induction n arbitrary: a b)
  case (Suc n)
  then show ?case by (cases a; cases b) auto
qed simp

lemma StrIHash_lower: "lower a = lower b \<Longrightarrow> sqlite3StrIHash a = sqlite3StrIHash b"
proof -
  have "sqlite3StrIHash z = foldl (\<lambda>h c. h + word_of_int c) 0 (lower z)" for z
    by (simp add: sqlite3StrIHash_def lower_def foldl_map)
  then show "lower a = lower b \<Longrightarrow> sqlite3StrIHash a = sqlite3StrIHash b" by simp
qed

section \<open>Quotes\<close>

text \<open>
  The loop of \<open>sqlite3Dequote\<close>, from index 1 on.  It writes in place at an index at most its read index,
  so the source bytes it has still to read are the original ones.  \<open>None\<close> is a string that ends
  before the closing quote, where the code asserts.
\<close>

fun dequote_loop :: "u8 \<Rightarrow> bytes \<Rightarrow> bytes option" where
  "dequote_loop q [] = None"
| "dequote_loop q [c] = (if c = q then Some [] else None)"
| "dequote_loop q (c # d # z) =
    (if c = q then (if d = q then map_option ((#) q) (dequote_loop q z) else Some [])
     else map_option ((#) c) (dequote_loop q (d # z)))"

definition sqlite3Dequote :: "bytes \<Rightarrow> bytes option" where
  "sqlite3Dequote z =
    (if \<not> sqlite3Isquote (chr0 z) then Some z
     else dequote_loop (if chr0 z = 91 then 93 else chr0 z) (tl z))"

text \<open>A token is a pointer and a length; the dequoted token starts one byte later and is two shorter.\<close>

definition sqlite3DequoteToken :: "bytes \<Rightarrow> bytes" where
  "sqlite3DequoteToken p =
    (if length p < 2 then p
     else if \<not> sqlite3Isquote (p ! 0) then p
     else if list_ex sqlite3Isquote (mslice 1 (length p - 2) p) then p
     else mslice 1 (length p - 2) p)"

fun double_quote :: "u8 \<Rightarrow> bytes \<Rightarrow> bytes" where
  "double_quote q [] = []"
| "double_quote q (c # z) = (if c = q then [q, q] else [c]) @ double_quote q z"

lemma dequote_loop_cons: "c \<noteq> q \<Longrightarrow> z \<noteq> [] \<Longrightarrow> dequote_loop q (c # z) = map_option ((#) c) (dequote_loop q z)"
  by (cases z) auto

lemma dequote_double:
  "chr0 rest \<noteq> q \<Longrightarrow> dequote_loop q (double_quote q z @ q # rest) = Some z"
proof (induction z)
  case Nil
  then show ?case by (cases rest) auto
next
  case (Cons c z)
  then show ?case by (cases "c = q") (auto simp: dequote_loop_cons)
qed

section \<open>Hexadecimal digits\<close>

definition sqlite3HexToInt :: "u32 \<Rightarrow> u8" where
  "sqlite3HexToInt h = (let h = h + 9 * (1 AND drop_bit 6 h) in ucast (h AND 0xf))"

text \<open>
  The digits of a literal \<open>x'\<dots>'\<close>: \<open>n\<close> counts them and the closing quote.  The terminator that the code
  puts after the bytes is not part of the value.
\<close>

definition sqlite3HexToBlob :: "bytes \<Rightarrow> nat \<Rightarrow> bytes" where
  "sqlite3HexToBlob z n = map (\<lambda>k. push_bit 4 (sqlite3HexToInt (ucast (z ! (2 * k))))
     OR sqlite3HexToInt (ucast (z ! (2 * k + 1)))) [0..<n div 2]"

section \<open>Properties\<close>

text \<open>\<open>sqlite3StrICmp\<close> is a total order on strings up to ASCII case: it is zero exactly when the
  lower-case bytes agree, negative exactly when they are lexicographically smaller, it changes sign
  when the arguments are swapped, and equal strings have equal hashes.\<close>

theorem StrICmp_order:
  "cstr a \<Longrightarrow> cstr b \<Longrightarrow>
     (sqlite3StrICmp a b = 0 \<longleftrightarrow> lower a = lower b)
     \<and> (sqlite3StrICmp a b < 0 \<longleftrightarrow> (lower a, lower b) \<in> lexord {(x, y). x < y})
     \<and> sqlite3StrICmp b a = - sqlite3StrICmp a b
     \<and> (sqlite3StrICmp a b = 0 \<longrightarrow> sqlite3StrIHash a = sqlite3StrIHash b)"
  using StrICmp_zero [of a b] StrICmp_lex [of a b] StrICmp_anti [of a b] StrIHash_lower [of a b] by blast

lemma StrICmp_order_witness:
  "sqlite3StrICmp [84, 49] [116, 49] = 0 \<longleftrightarrow> lower [84, 49] = lower [116, 49]"
  using StrICmp_order [of "[84, 49]" "[116, 49]"] by simp

text \<open>A string put between quotes with the quote character doubled comes back from \<open>sqlite3Dequote\<close>,
  for each of the four kinds of quotes (brackets close with \<open>]\<close>).\<close>

theorem Dequote_quoted:
  "(q, q') \<in> {(34, 34), (39, 39), (96, 96), (91, 93)} \<Longrightarrow>
     sqlite3Dequote (q # double_quote q' z @ [q']) = Some z"
proof -
  assume q: "(q, q') \<in> {(34, 34), (39, 39), (96, 96), (91, 93)}"
  then have "chr0 [] \<noteq> q'" "sqlite3Isquote q" "(if q = 91 then 93 else q) = q'"
    by (elim insertE emptyE; simp add: isquote_iff)+
  then show ?thesis using dequote_double [of "[]" q' z]
    by (simp only: sqlite3Dequote_def chr0_simps list.sel not_True_eq_False not_False_eq_True if_False simp_thms)
qed

lemma Dequote_quoted_witness: "sqlite3Dequote (34 # double_quote 34 [97, 34, 98] @ [34]) = Some [97, 34, 98]"
  by (rule Dequote_quoted) simp

end
