(* ===== verification/RawKey.thy ===== *)
theory RawKey
  imports CString
begin

text \<open>
  Raw keys (\<open>codec_algos.c\<close> inside \<open>sqlite3.c\<close>).  A passphrase of the form \<open>raw:\<dots>\<close> or \<open>x'\<dots>'\<close> is the key
  itself, and optionally the salt, in binary or hexadecimal; \<open>sqlite3mcExtractRawKey\<close> recognises the
  forms by length and prefix and says whether key derivation is bypassed.  Springtale passes its
  256-bit keys this way.
\<close>

section \<open>Hexadecimal keys\<close>

definition hex_char :: "u8 \<Rightarrow> bool" where
  "hex_char c \<longleftrightarrow> \<not> ((c < 48 \<or> c > 57) \<and> (c < 65 \<or> c > 70) \<and> (c < 97 \<or> c > 102))"

definition sqlite3mcIsHexKey :: "bytes \<Rightarrow> nat \<Rightarrow> bool" where
  "sqlite3mcIsHexKey hex n \<longleftrightarrow> list_all hex_char (take n hex)"

text \<open>The argument is a plain \<open>char\<close>, signed on the platforms of the build; bytes from 128 on give zero
  either way.\<close>

definition sqlite3mcConvertHex2Int :: "u8 \<Rightarrow> u32" where
  "sqlite3mcConvertHex2Int c =
    (if c \<ge> 48 \<and> c \<le> 57 then ucast c - 48
     else if c \<ge> 65 \<and> c \<le> 70 then ucast c - 65 + 10
     else if c \<ge> 97 \<and> c \<le> 102 then ucast c - 97 + 10 else 0)"

definition sqlite3mcConvertHex2Bin :: "bytes \<Rightarrow> nat \<Rightarrow> bytes" where
  "sqlite3mcConvertHex2Bin hex n = map (\<lambda>k. ucast (push_bit 4 (sqlite3mcConvertHex2Int (hex ! (2 * k)))
     OR sqlite3mcConvertHex2Int (hex ! (2 * k + 1)))) [0..<(n + 1) div 2]"

section \<open>The forms of a raw key\<close>

text \<open>
  The result says whether derivation is bypassed, and gives the key and salt buffers after the call.
  \<open>password\<close> has exactly \<open>passwordLength\<close> bytes.  The two branches, after the prefix \<open>raw:\<close> and for
  the SQLCipher syntax:
\<close>

definition raw_prefixed_key ::
    "bytes \<Rightarrow> bool \<Rightarrow> nat \<Rightarrow> nat \<Rightarrow> bytes \<Rightarrow> bytes \<Rightarrow> bool \<times> bytes \<times> bytes" where
  "raw_prefixed_key zRaw keyOnly keyLength saltLength key salt =
    (let nRaw = length zRaw in
     if nRaw = keyLength + saltLength then
       (True, blit 0 (take keyLength zRaw) key,
        if \<not> keyOnly then blit 0 (mslice keyLength saltLength zRaw) salt else salt)
     else if nRaw = keyLength then (True, blit 0 (take keyLength zRaw) key, salt)
     else if nRaw = 2 * keyLength then
       (if sqlite3mcIsHexKey zRaw nRaw
        then (True, blit 0 (sqlite3mcConvertHex2Bin zRaw nRaw) key, salt) else (False, key, salt))
     else if nRaw = 2 * (keyLength + saltLength) then
       (if sqlite3mcIsHexKey zRaw nRaw
        then (True, blit 0 (sqlite3mcConvertHex2Bin zRaw (2 * keyLength)) key,
          if \<not> keyOnly
          then blit 0 (sqlite3mcConvertHex2Bin (drop (2 * keyLength) zRaw) (2 * saltLength)) salt
          else salt)
        else (False, key, salt))
     else (False, key, salt))"

definition sqlcipher_raw_key ::
    "bytes \<Rightarrow> bool \<Rightarrow> nat \<Rightarrow> nat \<Rightarrow> bytes \<Rightarrow> bytes \<Rightarrow> bool \<times> bytes \<times> bytes" where
  "sqlcipher_raw_key password keyOnly keyLength saltLength key salt =
    (let passwordLength = length password in
     if passwordLength = keyLength * 2 + 3 \<and> sqlite3_strnicmp password [120, 39] 2 = 0
        \<and> sqlite3mcIsHexKey (drop 2 password) (keyLength * 2) then
       (True, blit 0 (sqlite3mcConvertHex2Bin (drop 2 password) (passwordLength - 3)) key, salt)
     else if passwordLength = (keyLength + saltLength) * 2 + 3 \<and> sqlite3_strnicmp password [120, 39] 2 = 0
        \<and> sqlite3mcIsHexKey (drop 2 password) ((keyLength + saltLength) * 2) then
       (True, blit 0 (sqlite3mcConvertHex2Bin (drop 2 password) (keyLength * 2)) key,
        if \<not> keyOnly
        then blit 0 (sqlite3mcConvertHex2Bin (drop (2 + keyLength * 2) password) (saltLength * 2)) salt
        else salt)
     else (False, key, salt))"

definition sqlite3mcExtractRawKey ::
    "bytes \<Rightarrow> bool \<Rightarrow> nat \<Rightarrow> nat \<Rightarrow> bytes \<Rightarrow> bytes \<Rightarrow> bool \<times> bytes \<times> bytes" where
  "sqlite3mcExtractRawKey password keyOnly keyLength saltLength key salt =
    (if length password > 4 \<and> take 4 password = [114, 97, 119, 58]
     then raw_prefixed_key (drop 4 password) keyOnly keyLength saltLength key salt
     else sqlcipher_raw_key password keyOnly keyLength saltLength key salt)"

section \<open>Encoding back\<close>

definition hex_digit :: "nat \<Rightarrow> u8" where
  "hex_digit n = (if n < 10 then 48 + word_of_nat n else 87 + word_of_nat n)"

definition hex_encode :: "bytes \<Rightarrow> bytes" where
  "hex_encode bs = concat (map (\<lambda>b. [hex_digit (unat b div 16), hex_digit (unat b mod 16)]) bs)"

lemma length_hex_encode [simp]: "length (hex_encode bs) = 2 * length bs"
  by (simp add: hex_encode_def length_concat_chunks [where w = 2])

lemma upto16: "n < 16 \<Longrightarrow> n \<in> {0, 1, 2, 3, 4, 5, 6, 7, 8, 9, 10, 11, 12, 13, 14, 15 :: nat}"
proof -
  have "[0..<16] = [0, 1, 2, 3, 4, 5, 6, 7, 8, 9, 10, 11, 12, 13, 14, 15]" by code_simp
  then have "set [0..<16] = {0, 1, 2, 3, 4, 5, 6, 7, 8, 9, 10, 11, 12, 13, 14, 15}" by (simp only: list.set)
  moreover assume "n < 16"
  then have "n \<in> set [0..<16]" by simp
  ultimately show ?thesis by (simp only:)
qed

lemma hex_digit_ok: "n < 16 \<Longrightarrow> hex_char (hex_digit n)"
  by (drule upto16) (elim insertE emptyE; simp add: hex_char_def hex_digit_def)

lemma hex_digit_value: "n < 16 \<Longrightarrow> sqlite3mcConvertHex2Int (hex_digit n) = word_of_nat n"
  by (drule upto16) (elim insertE emptyE; simp add: sqlite3mcConvertHex2Int_def hex_digit_def)

lemma nth_hex_encode:
  assumes "k < length bs"
  shows "hex_encode bs ! (2 * k) = hex_digit (unat (bs ! k) div 16)"
    and "hex_encode bs ! (2 * k + 1) = hex_digit (unat (bs ! k) mod 16)"
  unfolding hex_encode_def using assms by (subst nth_concat_chunks [where w = 2]; simp)+

lemma nibbles: "(ucast (push_bit 4 (word_of_nat (unat b div 16)) OR word_of_nat (unat b mod 16) :: u32) :: u8) = b"
proof -
  have hi: "(word_of_nat (unat b div 16) :: u32) = ucast (drop_bit 4 b)"
    by (simp add: word_eq_iff_unsigned [where ?'a = nat] unat_of_nat unat_ucast_mod unat_drop)
  have lo: "(word_of_nat (unat b mod 16) :: u32) = ucast (b AND mask 4)"
    using unat_and_mask [of b 4]
    by (simp add: word_eq_iff_unsigned [where ?'a = nat] unat_of_nat unat_ucast_mod)
  show ?thesis unfolding hi lo
  proof (rule bit_word_eqI)
    fix n show "n < LENGTH(8) \<Longrightarrow> bit (ucast (push_bit 4 (ucast (drop_bit 4 b)) OR ucast (b AND mask 4) :: u32) :: u8) n
        \<longleftrightarrow> bit b n"
      by (cases "n < 4") (auto simp: bit_simps)
  qed
qed

lemma hex_decode_encode: "sqlite3mcConvertHex2Bin (hex_encode bs @ rest) (2 * length bs) = bs"
proof (rule nth_equalityI)
  show "length (sqlite3mcConvertHex2Bin (hex_encode bs @ rest) (2 * length bs)) = length bs"
    by (simp add: sqlite3mcConvertHex2Bin_def)
  fix k assume "k < length (sqlite3mcConvertHex2Bin (hex_encode bs @ rest) (2 * length bs))"
  then have k: "k < length bs" by (simp add: sqlite3mcConvertHex2Bin_def)
  have "unat (bs ! k) div 16 < 16" using unat_less [of "bs ! k"] by simp
  then show "sqlite3mcConvertHex2Bin (hex_encode bs @ rest) (2 * length bs) ! k = bs ! k"
    using k nth_hex_encode [OF k] nibbles [of "bs ! k"]
    by (simp add: sqlite3mcConvertHex2Bin_def nth_append hex_digit_value)
qed

lemma hex_encode_is_hex: "sqlite3mcIsHexKey (hex_encode bs @ rest) (2 * length bs)"
proof -
  have "list_all hex_char (hex_encode bs)"
    unfolding hex_encode_def list_all_iff
    using unat_less [where 'a = 8] by (auto intro!: hex_digit_ok simp: less_mult_imp_div_less)
  then show ?thesis by (simp add: sqlite3mcIsHexKey_def)
qed

lemma ConvertHex2Bin_length [simp]: "length (sqlite3mcConvertHex2Bin hex n) = (n + 1) div 2"
  by (simp add: sqlite3mcConvertHex2Bin_def)

lemma hex_prefix: "sqlite3_strnicmp (120 # 39 # z) [120, 39] 2 = 0" "sqlite3_strnicmp (88 # 39 # z) [120, 39] 2 = 0"
proof -
  have "UpperToLower 120 = 120" "UpperToLower 88 = 120" "UpperToLower 39 = 39" by (simp_all add: UpperToLower_eq)
  moreover have "(120 :: u8) \<noteq> 0" "(88 :: u8) \<noteq> 0" "(39 :: u8) \<noteq> 0" by simp_all
  ultimately show "sqlite3_strnicmp (120 # 39 # z) [120, 39] 2 = 0" "sqlite3_strnicmp (88 # 39 # z) [120, 39] 2 = 0"
    unfolding numeral_2_eq_2 by (simp_all del: UpperToLower_zero)
qed

lemma not_raw_prefix: "take 4 (120 # z) \<noteq> [114, 97, 119, (58 :: u8)]"
proof -
  have "(120 :: u8) \<noteq> 114" by simp
  then show ?thesis by (simp only: take_Cons_numeral list.inject simp_thms)
qed

lemma raw_prefixed_frame:
  "raw_prefixed_key z ko n m key salt = (bypass, key', salt') \<Longrightarrow> length key = n \<Longrightarrow> length salt = m \<Longrightarrow>
     (\<not> bypass \<longrightarrow> key' = key \<and> salt' = salt) \<and> (ko \<longrightarrow> salt' = salt) \<and> length key' = n \<and> length salt' = m"
  by (auto simp: raw_prefixed_key_def Let_def length_blit split: if_splits)

lemma sqlcipher_raw_frame:
  "sqlcipher_raw_key z ko n m key salt = (bypass, key', salt') \<Longrightarrow> length key = n \<Longrightarrow> length salt = m \<Longrightarrow>
     (\<not> bypass \<longrightarrow> key' = key \<and> salt' = salt) \<and> (ko \<longrightarrow> salt' = salt) \<and> length key' = n \<and> length salt' = m"
  by (auto simp: sqlcipher_raw_key_def Let_def length_blit split: if_splits)

lemma extract_hex_key:
  "length key = n \<Longrightarrow> length salt = m \<Longrightarrow> length k = n \<Longrightarrow> length s = m \<Longrightarrow> 0 < m \<Longrightarrow>
     sqlite3mcExtractRawKey ([120, 39] @ hex_encode k @ [39]) ko n m key salt = (True, k, salt)
     \<and> sqlite3mcExtractRawKey ([120, 39] @ hex_encode (k @ s) @ [39]) ko n m key salt
         = (True, k, if ko then salt else s)"
proof -
  assume len: "length key = n" "length salt = m" "length k = n" "length s = m" "0 < m"
  have "hex_encode (k @ s) = hex_encode k @ hex_encode s" by (simp add: hex_encode_def)
  then have "sqlcipher_raw_key ([120, 39] @ hex_encode k @ [39]) ko n m key salt = (True, k, salt)"
    and "sqlcipher_raw_key ([120, 39] @ hex_encode (k @ s) @ [39]) ko n m key salt
         = (True, k, if ko then salt else s)"
    using len hex_decode_encode [of k "[39]"] hex_encode_is_hex [of k "[39]"]
      hex_encode_is_hex [of "k @ s" "[39]"] hex_decode_encode [of k "hex_encode s @ [39]"]
      hex_decode_encode [of s "[39]"]
    by (simp_all add: sqlcipher_raw_key_def hex_prefix blit_def ac_simps)
  then show ?thesis
    using not_raw_prefix by (simp only: sqlite3mcExtractRawKey_def append_Cons append_Nil if_False simp_thms)
qed

lemma extract_frame:
  "length key = n \<Longrightarrow> length salt = m \<Longrightarrow> sqlite3mcExtractRawKey password ko n m key salt = (bypass, key', salt') \<Longrightarrow>
     (\<not> bypass \<longrightarrow> key' = key \<and> salt' = salt) \<and> (ko \<longrightarrow> salt' = salt) \<and> length key' = n \<and> length salt' = m"
proof -
  assume len: "length key = n" "length salt = m"
    and r: "sqlite3mcExtractRawKey password ko n m key salt = (bypass, key', salt')"
  then consider "raw_prefixed_key (drop 4 password) ko n m key salt = (bypass, key', salt')"
    | "sqlcipher_raw_key password ko n m key salt = (bypass, key', salt')"
    unfolding sqlite3mcExtractRawKey_def by metis
  then show ?thesis by cases (use len raw_prefixed_frame sqlcipher_raw_frame in blast)+
qed

section \<open>Properties\<close>

text \<open>A key given in hexadecimal between \<open>x'\<close> and a quote (the form Springtale uses) reaches the key
  buffer byte for byte and leaves the salt alone; with the salt appended to it, both come back, the
  salt only when the caller wants it.\<close>

theorem raw_hex_key:
  "length key = n \<Longrightarrow> length salt = m \<Longrightarrow> length k = n \<Longrightarrow> length s = m \<Longrightarrow> 0 < m \<Longrightarrow>
     sqlite3mcExtractRawKey ([120, 39] @ hex_encode k @ [39]) ko n m key salt = (True, k, salt)
     \<and> sqlite3mcExtractRawKey ([120, 39] @ hex_encode (k @ s) @ [39]) ko n m key salt
         = (True, k, if ko then salt else s)"
  by (rule extract_hex_key)

lemma raw_hex_key_witness:
  "sqlite3mcExtractRawKey ([120, 39] @ hex_encode [171, 2] @ [39]) False 2 1 [0, 0] [9] = (True, [171, 2], [9])"
  by (rule raw_hex_key [of "[0, 0]" 2 "[9]" 1 "[171, 2]" "[7]" False, THEN conjunct1]) simp_all

text \<open>Whatever the passphrase, a refused form leaves key and salt as they were, the salt is never
  written when only the key is asked for, and the buffers keep their lengths.\<close>

theorem raw_key_frame:
  "length key = n \<Longrightarrow> length salt = m \<Longrightarrow> sqlite3mcExtractRawKey password ko n m key salt = (bypass, key', salt') \<Longrightarrow>
     (\<not> bypass \<longrightarrow> key' = key \<and> salt' = salt) \<and> (ko \<longrightarrow> salt' = salt) \<and> length key' = n \<and> length salt' = m"
  by (rule extract_frame)

lemma raw_key_frame_witness:
  "sqlite3mcExtractRawKey [120] True 1 1 [0] [9] = (False, [0], [9])
   \<and> length [9 :: u8] = 1"
  using raw_key_frame [where key = "[0]" and n = 1 and salt = "[9]" and m = 1 and password = "[120]"
    and ko = True and bypass = False and key' = "[0]" and salt' = "[9]"]
  by (simp add: sqlite3mcExtractRawKey_def sqlcipher_raw_key_def)

end
