(* ===== verification/Config.thy ===== *)
theory Config
  imports CString
begin

text \<open>
  Cipher configuration (\<open>cipher_common.c\<close> and \<open>cipher_config.c\<close> inside \<open>sqlite3.c\<close>).  A connection has a
  table of cipher schemes, each with its parameters; a parameter has a current (transient) value, a
  default, and a range.  Reading a parameter when a cipher is set up consumes the transient value.
  The first table is the global one (\<open>cipher\<close>, \<open>hmac_check\<close>, \<open>mc_legacy_wal\<close>).  The lists below hold the
  entries before the sentinel.
\<close>

definition str :: "string \<Rightarrow> bytes" where
  "str s = map of_char s"

section \<open>Parameters\<close>

record cipher_param =
  p_name :: bytes
  p_value :: int
  p_default :: int
  p_min :: int
  p_max :: int

record codec_param =
  c_name :: bytes
  c_id :: int
  c_params :: "cipher_param list"

text \<open>The search loops: the index of the first entry whose name is equal up to case.\<close>

fun find_param :: "bytes \<Rightarrow> cipher_param list \<Rightarrow> nat option" where
  "find_param name [] = None"
| "find_param name (p # ps) =
    (if sqlite3StrICmp name (p_name p) = 0 then Some 0 else map_option Suc (find_param name ps))"

fun find_codec :: "bytes \<Rightarrow> codec_param list \<Rightarrow> nat option" where
  "find_codec name [] = None"
| "find_codec name (c # cs) =
    (if sqlite3StrICmp name (c_name c) = 0 then Some 0 else map_option Suc (find_codec name cs))"

definition sqlite3mcGetCipherParameter :: "cipher_param list \<Rightarrow> bytes \<Rightarrow> int \<times> cipher_param list" where
  "sqlite3mcGetCipherParameter ps name =
    (case find_param name ps of
       None \<Rightarrow> (-1, ps)
     | Some i \<Rightarrow> (p_value (ps ! i), ps[i := (ps ! i)\<lparr>p_value := p_default (ps ! i)\<rparr>]))"

definition sqlite3mcGetCipherType :: "codec_param list \<Rightarrow> int \<times> codec_param list" where
  "sqlite3mcGetCipherType tab =
    (case find_param (str ''cipher'') (c_params (tab ! 0)) of
       None \<Rightarrow> (0, tab)
     | Some i \<Rightarrow>
         (let ps = c_params (tab ! 0)
          in (p_value (ps ! i), tab[0 := (tab ! 0)\<lparr>c_params := ps[i := (ps ! i)\<lparr>p_value := p_default (ps ! i)\<rparr>]\<rparr>])))"

section \<open>Setting parameters\<close>

text \<open>The optional prefixes, tested one after the other: a name may carry several.\<close>

definition strip :: "string \<Rightarrow> bytes \<Rightarrow> bool \<times> bytes" where
  "strip pre name =
    (if sqlite3_strnicmp name (str pre) (length pre) = 0 then (True, drop (length pre) name) else (False, name))"

definition param_prefixes :: "bytes \<Rightarrow> bool \<times> bool \<times> bool \<times> bytes" where
  "param_prefixes name =
    (let (d, name) = strip ''default:'' name; (mn, name) = strip ''min:'' name; (mx, name) = strip ''max:'' name
     in (d, mn, mx, name))"

definition param_read :: "bool \<Rightarrow> bool \<Rightarrow> bool \<Rightarrow> cipher_param \<Rightarrow> int" where
  "param_read hasDefault hasMin hasMax p =
    (if hasDefault then p_default p else if hasMin then p_min p else if hasMax then p_max p else p_value p)"

text \<open>The update of one parameter by \<open>sqlite3mc_config\<close>: the value returned and the entry after the call.\<close>

definition config_param :: "int \<Rightarrow> bytes \<Rightarrow> int \<Rightarrow> cipher_param \<Rightarrow> int \<times> cipher_param" where
  "config_param cipherCount paramName newValue p =
    (let (hasDefault, hasMin, hasMax, name) = param_prefixes paramName;
         value = param_read hasDefault hasMin hasMax p
     in if \<not> hasMin \<and> \<not> hasMax \<and> newValue \<ge> 0 \<and> newValue \<ge> p_min p \<and> newValue \<le> p_max p then
          (let allowChange = (if sqlite3StrICmp name (str ''cipher'') = 0
                              then newValue > 0 \<and> newValue \<le> cipherCount else True)
           in if allowChange then
                (newValue, (if hasDefault \<and> sqlite3StrICmp name (str ''hmac_check'') \<noteq> 0
                            then p\<lparr>p_default := newValue\<rparr> else p)\<lparr>p_value := newValue\<rparr>)
              else (value, p))
        else (value, p))"

text \<open>\<open>db\<close> says whether a connection was given, \<open>tab\<close> is its table or the global one.\<close>

definition sqlite3mc_config :: "bool \<Rightarrow> int \<Rightarrow> codec_param list \<Rightarrow> bytes \<Rightarrow> int \<Rightarrow> int \<times> codec_param list" where
  "sqlite3mc_config db cipherCount tab paramName newValue =
    (if \<not> db \<and> newValue \<ge> 0 then (-1, tab)
     else let (_, _, _, name) = param_prefixes paramName; ps = c_params (tab ! 0)
          in case find_param name ps of
               None \<Rightarrow> (-1, tab)
             | Some i \<Rightarrow>
                 (let (value, p) = config_param cipherCount paramName newValue (ps ! i)
                  in (value, tab[0 := (tab ! 0)\<lparr>c_params := ps[i := p]\<rparr>])))"

text \<open>\<open>((value - 1) & value) == 0\<close> on a positive \<open>int\<close>.\<close>

definition checkParameterValue :: "bytes \<Rightarrow> int \<Rightarrow> bytes \<Rightarrow> bool" where
  "checkParameterValue paramName value cipherName =
    (let ok = (if sqlite3StrICmp paramName (str ''legacy_page_size'') = 0 \<and> value > 0
               then value \<ge> 512 \<and> value \<le> 65536 \<and> (value - 1) AND value = 0 else True)
     in if ok \<and> sqlite3StrICmp paramName (str ''plaintext_header_size'') = 0 \<and> value > 0
        then (if sqlite3StrICmp cipherName (str ''sqlcipher'') = 0 then value mod 16 = 0 else ok)
        else ok)"

definition config_cipher_param :: "bytes \<Rightarrow> bytes \<Rightarrow> int \<Rightarrow> cipher_param \<Rightarrow> int \<times> cipher_param" where
  "config_cipher_param cipherName paramName newValue p =
    (let (hasDefault, hasMin, hasMax, name) = param_prefixes paramName;
         value = param_read hasDefault hasMin hasMax p
     in if \<not> hasMin \<and> \<not> hasMax \<and> newValue \<ge> 0 \<and> newValue \<ge> p_min p \<and> newValue \<le> p_max p
           \<and> checkParameterValue name newValue cipherName
        then (newValue, (if hasDefault then p\<lparr>p_default := newValue\<rparr> else p)\<lparr>p_value := newValue\<rparr>)
        else (value, p))"

text \<open>The table of the cipher \<open>j\<close> with the parameter updated: the end of \<open>sqlite3mc_config_cipher\<close>.\<close>

definition config_cipher_at :: "nat \<Rightarrow> codec_param list \<Rightarrow> bytes \<Rightarrow> bytes \<Rightarrow> int \<Rightarrow> int \<times> codec_param list" where
  "config_cipher_at j tab cipherName paramName newValue =
    (let (_, _, _, name) = param_prefixes paramName; ps = c_params (tab ! j)
     in case find_param name ps of
          None \<Rightarrow> (-1, tab)
        | Some i \<Rightarrow>
            (let (value, p) = config_cipher_param cipherName paramName newValue (ps ! i)
             in (value, tab[j := (tab ! j)\<lparr>c_params := ps[i := p]\<rparr>])))"

section \<open>SQLCipher versions\<close>

definition version_params :: "int list list" where
  "version_params = [[1024, 4000, 0, 0, 0], [1024, 4000, 1, 0, 0], [1024, 64000, 1, 0, 0], [4096, 256000, 1, 2, 2]]"

definition std_names :: "string list" where
  "std_names = [''legacy_page_size'', ''kdf_iter'', ''hmac_use'', ''kdf_algorithm'', ''hmac_algorithm'']"

text \<open>
  \<open>sqlite3mcConfigureSQLCipherVersion\<close> calls \<open>sqlite3mc_config_cipher\<close> back, with names other than
  \<open>legacy\<close>, so only the end of that function runs.  \<open>j\<close> is the place of \<open>sqlcipher\<close> in the table.
\<close>

definition sqlite3mcConfigureSQLCipherVersion :: "nat \<Rightarrow> bool \<Rightarrow> int \<Rightarrow> codec_param list \<Rightarrow> codec_param list" where
  "sqlite3mcConfigureSQLCipherVersion j configDefault legacyVersion tab =
    (if legacyVersion > 0 \<and> legacyVersion \<le> 4 then
       foldl (\<lambda>t (name, v). snd (config_cipher_at j t (str ''sqlcipher'')
           (str ((if configDefault then ''default:'' else '''') @ name)) v))
         tab (zip std_names (version_params ! nat (legacyVersion - 1)))
     else tab)"

definition config_cipher_legacy :: "nat \<Rightarrow> bool \<Rightarrow> codec_param list \<Rightarrow> bytes \<Rightarrow> bytes \<Rightarrow> int \<Rightarrow> codec_param list" where
  "config_cipher_legacy j db tab cipherName paramName newValue =
    (let (hasDefault, hasMin, hasMax, name) = param_prefixes paramName
     in if db \<and> sqlite3StrICmp cipherName (str ''sqlcipher'') = 0 \<and> sqlite3StrICmp name (str ''legacy'') = 0
           \<and> \<not> hasMin \<and> \<not> hasMax \<and> newValue > 0 \<and> newValue \<le> 4
        then sqlite3mcConfigureSQLCipherVersion j hasDefault newValue tab else tab)"

definition sqlite3mc_config_cipher ::
    "bool \<Rightarrow> codec_param list \<Rightarrow> bytes \<Rightarrow> bytes \<Rightarrow> int \<Rightarrow> int \<times> codec_param list" where
  "sqlite3mc_config_cipher db tab cipherName paramName newValue =
    (if \<not> db \<and> newValue \<ge> 0 then (-1, tab)
     else case find_codec cipherName tab of
       None \<Rightarrow> (-1, tab)
     | Some j \<Rightarrow> config_cipher_at j (config_cipher_legacy j db tab cipherName paramName newValue)
                   cipherName paramName newValue)"

section \<open>The range invariant\<close>

definition param_ok :: "cipher_param \<Rightarrow> bool" where
  "param_ok p \<longleftrightarrow> p_min p \<le> p_value p \<and> p_value p \<le> p_max p \<and> p_min p \<le> p_default p \<and> p_default p \<le> p_max p"

definition params_ok :: "cipher_param list \<Rightarrow> bool" where
  "params_ok ps \<longleftrightarrow> list_all param_ok ps"

definition table_ok :: "codec_param list \<Rightarrow> bool" where
  "table_ok tab \<longleftrightarrow> tab \<noteq> [] \<and> list_all (\<lambda>c. params_ok (c_params c)) tab"

text \<open>What no operation changes: the names, the identifiers, the ranges.\<close>

definition param_shape :: "cipher_param \<Rightarrow> bytes \<times> int \<times> int" where
  "param_shape p = (p_name p, p_min p, p_max p)"

definition table_shape :: "codec_param list \<Rightarrow> (bytes \<times> int \<times> (bytes \<times> int \<times> int) list) list" where
  "table_shape tab = map (\<lambda>c. (c_name c, c_id c, map param_shape (c_params c))) tab"

lemma find_param_bound: "find_param name ps = Some i \<Longrightarrow> i < length ps \<and> sqlite3StrICmp name (p_name (ps ! i)) = 0"
  by (induction name ps arbitrary: i rule: find_param.induct) (auto split: if_splits)

lemma find_codec_bound: "find_codec name tab = Some j \<Longrightarrow> j < length tab"
  by (induction name tab arbitrary: j rule: find_codec.induct) (auto split: if_splits)

lemma params_ok_update: "params_ok ps \<Longrightarrow> param_ok p \<Longrightarrow> params_ok (ps[i := p])"
  unfolding params_ok_def list_all_iff using set_update_subset_insert by fastforce

lemma table_ok_update:
  assumes "table_ok tab" and "params_ok ps" shows "table_ok (tab[j := (tab ! j)\<lparr>c_params := ps\<rparr>])"
  unfolding table_ok_def list_all_iff
proof
  show "tab[j := (tab ! j)\<lparr>c_params := ps\<rparr>] \<noteq> []" using assms by (simp add: table_ok_def)
  show "\<forall>c \<in> set (tab[j := (tab ! j)\<lparr>c_params := ps\<rparr>]). params_ok (c_params c)"
    using assms set_update_subset_insert [of tab j "(tab ! j)\<lparr>c_params := ps\<rparr>"]
    by (auto simp: table_ok_def list_all_iff)
qed

lemma map_shape_update: "param_shape p = param_shape (ps ! i) \<Longrightarrow> map param_shape (ps[i := p]) = map param_shape ps"
  by (cases "i < length ps"; rule nth_equalityI) (auto simp: nth_list_update list_update_beyond simp del: map_update)

lemma table_shape_update:
  assumes "i < length (c_params (tab ! j))" and "param_shape p = param_shape (c_params (tab ! j) ! i)"
  shows "table_shape (tab[j := (tab ! j)\<lparr>c_params := (c_params (tab ! j))[i := p]\<rparr>]) = table_shape tab"
proof (cases "j < length tab")
  case True
  have "map param_shape ((c_params (tab ! j))[i := p]) = map param_shape (c_params (tab ! j))"
    by (rule map_shape_update) (rule assms(2))
  then show ?thesis using True unfolding table_shape_def
    by (intro nth_equalityI) (auto simp: nth_list_update simp del: map_update)
qed (simp add: list_update_beyond)

lemma param_read_range: "param_ok p \<Longrightarrow> p_min p \<le> p_max p \<and> p_min p \<le> param_read d mn mx p \<and> param_read d mn mx p \<le> p_max p"
  by (auto simp: param_ok_def param_read_def)

lemma config_param_ok:
  assumes "param_ok p" and "config_param n name v p = (r, p')"
  shows "param_ok p'" and "param_shape p' = param_shape p" and "p_min p \<le> r \<and> r \<le> p_max p"
  using assms param_read_range [OF assms(1)] unfolding config_param_def
  by (auto simp: param_ok_def param_shape_def Let_def split: if_splits prod.splits)

lemma config_cipher_param_ok:
  assumes "param_ok p" and "config_cipher_param c name v p = (r, p')"
  shows "param_ok p'" and "param_shape p' = param_shape p" and "p_min p \<le> r \<and> r \<le> p_max p"
  using assms param_read_range [OF assms(1)] unfolding config_cipher_param_def
  by (auto simp: param_ok_def param_shape_def Let_def split: if_splits prod.splits)

lemma table_param_ok: "table_ok tab \<Longrightarrow> j < length tab \<Longrightarrow> params_ok (c_params (tab ! j))"
  by (simp add: table_ok_def list_all_length)

lemma params_nth_ok: "params_ok ps \<Longrightarrow> i < length ps \<Longrightarrow> param_ok (ps ! i)"
  by (simp add: params_ok_def list_all_length)

lemma config_cipher_at_ok:
  assumes ok: "table_ok tab" and j: "j < length tab" and r: "config_cipher_at j tab c name v = (r, tab')"
  shows "table_ok tab' \<and> table_shape tab' = table_shape tab"
proof (cases "find_param (snd (snd (snd (param_prefixes name)))) (c_params (tab ! j))")
  case None
  then show ?thesis using ok r by (auto simp: config_cipher_at_def Let_def split: prod.splits)
next
  case (Some i)
  let ?ps = "c_params (tab ! j)"
  have i: "i < length ?ps" using find_param_bound [OF Some] by simp
  obtain val p where p: "config_cipher_param c name v (?ps ! i) = (val, p)" by fastforce
  note okp = config_cipher_param_ok [OF params_nth_ok [OF table_param_ok [OF ok j] i] p]
  have "tab' = tab[j := (tab ! j)\<lparr>c_params := ?ps[i := p]\<rparr>]"
    using r Some p by (auto simp: config_cipher_at_def Let_def split: prod.splits)
  then show ?thesis
    using table_ok_update [OF ok params_ok_update [OF table_param_ok [OF ok j] okp(1)]]
      table_shape_update [OF i okp(2)] by simp
qed

lemma length_table_shape: "table_shape tab' = table_shape tab \<Longrightarrow> length tab' = length tab"
  by (drule arg_cong [where f = length]) (simp add: table_shape_def)

lemma config_cipher_at_snd:
  "table_ok tab \<Longrightarrow> j < length tab \<Longrightarrow> table_ok (snd (config_cipher_at j tab c name v))
    \<and> table_shape (snd (config_cipher_at j tab c name v)) = table_shape tab"
  by (rule config_cipher_at_ok [where r = "fst (config_cipher_at j tab c name v)"]) simp_all

lemma config_cipher_fold_ok:
  "table_ok tab \<Longrightarrow> j < length tab \<Longrightarrow>
     table_ok (foldl (\<lambda>t (name, v). snd (config_cipher_at j t c (g name) v)) tab nvs)
     \<and> table_shape (foldl (\<lambda>t (name, v). snd (config_cipher_at j t c (g name) v)) tab nvs) = table_shape tab"
proof (induction nvs arbitrary: tab)
  case Nil
  then show ?case by simp
next
  case (Cons nv nvs)
  obtain name v where nv: "nv = (name, v)" by fastforce
  define t where "t = snd (config_cipher_at j tab c (g name) v)"
  have t: "table_ok t" "table_shape t = table_shape tab"
    using config_cipher_at_snd [OF Cons.prems] by (simp_all add: t_def)
  then have "j < length t" using length_table_shape [OF t(2)] Cons.prems by simp
  from Cons.IH [OF t(1) this] show ?case
    by (simp only: nv foldl_Cons split_conv t_def [symmetric] t(2))
qed

lemma sqlcipher_version_ok:
  assumes "table_ok tab" and "j < length tab"
  shows "table_ok (sqlite3mcConfigureSQLCipherVersion j d v tab)
    \<and> table_shape (sqlite3mcConfigureSQLCipherVersion j d v tab) = table_shape tab"
proof (cases "v > 0 \<and> v \<le> 4")
  case True
  then show ?thesis
    using config_cipher_fold_ok [OF assms, where g = "\<lambda>n. str ((if d then ''default:'' else '''') @ n)"]
    by (simp only: sqlite3mcConfigureSQLCipherVersion_def if_True simp_thms)
next
  case False
  then show ?thesis using assms by (simp only: sqlite3mcConfigureSQLCipherVersion_def if_False simp_thms)
qed

lemma config_cipher_legacy_ok:
  assumes "table_ok tab" and "j < length tab"
  shows "table_ok (config_cipher_legacy j db tab c name v)
    \<and> table_shape (config_cipher_legacy j db tab c name v) = table_shape tab"
  unfolding config_cipher_legacy_def Let_def using assms sqlcipher_version_ok [OF assms]
  by (simp split: prod.split)

lemma config_cipher_ok:
  assumes ok: "table_ok tab" and r: "sqlite3mc_config_cipher db tab c name v = (r, tab')"
  shows "table_ok tab' \<and> table_shape tab' = table_shape tab"
proof (cases "(\<not> db \<and> v \<ge> 0) \<or> find_codec c tab = None")
  case True
  then show ?thesis using ok r by (auto simp: sqlite3mc_config_cipher_def split: if_splits)
next
  case False
  then obtain j where j: "find_codec c tab = Some j" by auto
  have jl: "j < length tab" using find_codec_bound [OF j] .
  define t where "t = config_cipher_legacy j db tab c name v"
  have "config_cipher_at j t c name v = (r, tab')"
  proof -
    have "(\<not> db \<and> v \<ge> 0) = False" using False by blast
    then show ?thesis using r j by (simp only: sqlite3mc_config_cipher_def t_def if_False option.simps)
  qed
  moreover have t: "table_ok t" "table_shape t = table_shape tab"
    using config_cipher_legacy_ok [OF ok jl] by (simp_all add: t_def)
  ultimately show ?thesis using config_cipher_at_ok [of t j] length_table_shape [OF t(2)] jl by simp
qed

lemma config_ok:
  assumes ok: "table_ok tab" and r: "sqlite3mc_config db n tab name v = (r, tab')"
  shows "table_ok tab' \<and> table_shape tab' = table_shape tab"
proof (cases "(\<not> db \<and> v \<ge> 0) \<or> find_param (snd (snd (snd (param_prefixes name)))) (c_params (tab ! 0)) = None")
  case True
  then show ?thesis using ok r by (auto simp: sqlite3mc_config_def Let_def split: prod.splits if_splits)
next
  case False
  let ?ps = "c_params (tab ! 0)"
  have j: "0 < length tab" using ok by (simp add: table_ok_def)
  from False obtain i where Some: "find_param (snd (snd (snd (param_prefixes name)))) ?ps = Some i" by auto
  have i: "i < length ?ps" using find_param_bound [OF Some] by simp
  obtain val p where p: "config_param n name v (?ps ! i) = (val, p)" by fastforce
  note okp = config_param_ok [OF params_nth_ok [OF table_param_ok [OF ok j] i] p]
  have "tab' = tab[0 := (tab ! 0)\<lparr>c_params := ?ps[i := p]\<rparr>]"
    using r False Some p by (auto simp: sqlite3mc_config_def Let_def split: prod.splits)
  then show ?thesis
    using table_ok_update [OF ok params_ok_update [OF table_param_ok [OF ok j] okp(1)]]
      table_shape_update [OF i okp(2)] by simp
qed

lemma get_param_ok:
  assumes "params_ok ps" and "sqlite3mcGetCipherParameter ps name = (v, ps')"
  shows "params_ok ps'" and "map param_shape ps' = map param_shape ps"
proof -
  have "param_ok (ps ! i) \<Longrightarrow> param_ok ((ps ! i)\<lparr>p_value := p_default (ps ! i)\<rparr>)" for i by (simp add: param_ok_def)
  then show "params_ok ps'" using assms params_ok_update params_nth_ok find_param_bound
    by (fastforce simp: sqlite3mcGetCipherParameter_def split: option.splits)
  show "map param_shape ps' = map param_shape ps"
    using assms by (auto simp: sqlite3mcGetCipherParameter_def split: option.splits
      intro!: map_shape_update) (simp add: param_shape_def)
qed

lemma find_param_update:
  "p_name q = p_name (ps ! i) \<Longrightarrow> find_param name (ps[i := q]) = find_param name ps"
  by (induction ps arbitrary: i) (auto split: nat.splits)

lemma get_param_twice:
  assumes "find_param name ps = Some i"
  shows "sqlite3mcGetCipherParameter ps name = (p_value (ps ! i), ps[i := (ps ! i)\<lparr>p_value := p_default (ps ! i)\<rparr>])"
    and "fst (sqlite3mcGetCipherParameter (ps[i := (ps ! i)\<lparr>p_value := p_default (ps ! i)\<rparr>]) name) = p_default (ps ! i)"
  using assms find_param_bound [OF assms] by (simp_all add: sqlite3mcGetCipherParameter_def find_param_update)

section \<open>Properties\<close>

text \<open>No sequence of configuration calls takes a parameter or its default out of its range, or changes a
  name, an identifier or a range: \<open>sqlite3mc_config\<close>, \<open>sqlite3mc_config_cipher\<close> with its SQLCipher
  versions, for every name, prefix and value.\<close>

theorem config_keeps_ranges:
  "table_ok tab \<Longrightarrow>
     (\<forall>db n name v. let tab' = snd (sqlite3mc_config db n tab name v) in table_ok tab' \<and> table_shape tab' = table_shape tab)
     \<and> (\<forall>db c name v. let tab' = snd (sqlite3mc_config_cipher db tab c name v) in table_ok tab' \<and> table_shape tab' = table_shape tab)"
  unfolding Let_def using config_ok config_cipher_ok by (metis prod.collapse)

definition sample_table :: "codec_param list" where
  "sample_table = [\<lparr>c_name = str ''global'', c_id = 0,
      c_params = [\<lparr>p_name = str ''hmac_check'', p_value = 1, p_default = 1, p_min = 0, p_max = 1\<rparr>]\<rparr>,
    \<lparr>c_name = str ''chacha20'', c_id = 3,
      c_params = [\<lparr>p_name = str ''kdf_iter'', p_value = 64007, p_default = 64007, p_min = 1, p_max = 0x7fffffff\<rparr>]\<rparr>]"

lemma config_keeps_ranges_witness:
  "table_ok (snd (sqlite3mc_config_cipher True sample_table (str ''chacha20'') (str ''kdf_iter'') 12345))"
proof -
  have "table_ok sample_table" by (simp add: table_ok_def params_ok_def param_ok_def sample_table_def)
  from config_keeps_ranges [OF this] show ?thesis by (simp add: Let_def)
qed

text \<open>A value set for a cipher without the prefix \<open>default:\<close> is transient: setting up the next cipher
  reads it, and the read after that gives the old default again.\<close>

theorem config_value_is_transient:
  "find_codec c tab = Some j \<Longrightarrow> find_param name (c_params (tab ! j)) = Some i \<Longrightarrow> p = c_params (tab ! j) ! i \<Longrightarrow>
   param_prefixes name = (False, False, False, name) \<Longrightarrow> sqlite3StrICmp c (str ''sqlcipher'') \<noteq> 0 \<Longrightarrow>
   0 \<le> v \<Longrightarrow> p_min p \<le> v \<Longrightarrow> v \<le> p_max p \<Longrightarrow> checkParameterValue name v c \<Longrightarrow>
     (let (r, tab') = sqlite3mc_config_cipher True tab c name v;
          (v1, ps1) = sqlite3mcGetCipherParameter (c_params (tab' ! j)) name;
          (v2, _) = sqlite3mcGetCipherParameter ps1 name
      in r = v \<and> v1 = v \<and> v2 = p_default p)"
proof -
  assume j: "find_codec c tab = Some j" and i: "find_param name (c_params (tab ! j)) = Some i"
    and p: "p = c_params (tab ! j) ! i" and pre: "param_prefixes name = (False, False, False, name)"
    and c: "sqlite3StrICmp c (str ''sqlcipher'') \<noteq> 0"
    and v: "0 \<le> v" "p_min p \<le> v" "v \<le> p_max p" "checkParameterValue name v c"
  define q where "q = p\<lparr>p_value := v\<rparr>"
  define ps where "ps = (c_params (tab ! j))[i := q]"
  have jl: "j < length tab" and il: "i < length (c_params (tab ! j))"
    using find_codec_bound [OF j] find_param_bound [OF i] by simp_all
  have "sqlite3mc_config_cipher True tab c name v = (v, tab[j := (tab ! j)\<lparr>c_params := ps\<rparr>])"
    using j i p pre c v
    by (simp add: sqlite3mc_config_cipher_def config_cipher_legacy_def config_cipher_at_def
        config_cipher_param_def param_read_def q_def ps_def Let_def)
  moreover have "find_param name ps = Some i" "ps ! i = q"
    using i il p by (simp_all add: ps_def q_def find_param_update)
  ultimately show ?thesis
    using get_param_twice [of name ps i] jl by (auto simp: q_def split_def)
qed

lemma config_value_is_transient_witness:
  "fst (sqlite3mc_config_cipher True sample_table (str ''chacha20'') (str ''kdf_iter'') 12345) = 12345"
proof -
  have pre: "param_prefixes (str ''kdf_iter'') = (False, False, False, str ''kdf_iter'')" by code_simp
  have j: "find_codec (str ''chacha20'') sample_table = Some 1" by code_simp
  have i: "find_param (str ''kdf_iter'') (c_params (sample_table ! 1)) = Some 0" by code_simp
  have c: "sqlite3StrICmp (str ''chacha20'') (str ''sqlcipher'') \<noteq> 0" by code_simp
  have k: "checkParameterValue (str ''kdf_iter'') 12345 (str ''chacha20'')" by code_simp
  show ?thesis
    using config_value_is_transient [OF j i refl pre c _ _ _ k] by (simp add: sample_table_def split_def Let_def)
qed

end
