(* ===== verification/CipherChaCha20.thy ===== *)
theory CipherChaCha20
  imports ChaCha20 Poly1305_Correct Md5 Pbkdf2 RawKey Config
begin

text \<open>
  The page cipher Springtale's databases use (\<open>cipher_chacha20.c\<close> inside \<open>sqlite3.c\<close>).  A page is
  encrypted with a one-time key drawn from the page nonce and number and authenticated with Poly1305;
  nonce and tag live in the 32 reserved bytes at its end.  The first 16 bytes of page 1 hold the
  salt in place of the file header.  Without reserved bytes a page is only encrypted, with a nonce
  that depends on the page number alone.
\<close>

section \<open>The nonce of pages without reserved bytes\<close>

text \<open>\<open>MODMULT\<close> on a C \<open>int\<close>: division and the implied remainder truncate towards zero.\<close>

definition modmult :: "int \<Rightarrow> int \<Rightarrow> int \<Rightarrow> int \<Rightarrow> int \<Rightarrow> int" where
  "modmult a b c m s =
    (let q = (if s < 0 then - ((- s) div a) else s div a); s = b * (s - a * q) - c * q
     in if s < 0 then s + m else s)"

definition initial_z :: "nat \<Rightarrow> int \<Rightarrow> int" where
  "initial_z j seed = ((modmult 52774 40692 3791 2147483399) ^^ j) (seed + 1)"

definition sqlite3mcGenerateInitialVector :: "bytes \<Rightarrow> int \<Rightarrow> bytes" where
  "sqlite3mcGenerateInitialVector junk seed =
    sqlite3mcGetMD5Binary junk (concat (map (\<lambda>j. store32_le (word_of_int (initial_z (Suc j) seed))) [0..<4]))"

section \<open>The cipher object\<close>

record chacha20_cipher =
  m_legacy :: int
  m_legacyPageSize :: int
  m_kdfIter :: int
  m_plaintextHeaderSize :: int
  m_keyLength :: int
  m_key :: bytes
  m_salt :: bytes

definition mcChaCha20Params :: "cipher_param list" where
  "mcChaCha20Params = [
    \<lparr>p_name = str ''legacy'', p_value = 0, p_default = 0, p_min = 0, p_max = 1\<rparr>,
    \<lparr>p_name = str ''legacy_page_size'', p_value = 4096, p_default = 4096, p_min = 0, p_max = 65536\<rparr>,
    \<lparr>p_name = str ''kdf_iter'', p_value = 64007, p_default = 64007, p_min = 1, p_max = 0x7fffffff\<rparr>,
    \<lparr>p_name = str ''plaintext_header_size'', p_value = 0, p_default = 0, p_min = 0, p_max = 100\<rparr>]"

text \<open>Allocation reads the parameters, and so consumes their transient values.\<close>

definition AllocateChaCha20Cipher :: "cipher_param list \<Rightarrow> chacha20_cipher \<times> cipher_param list" where
  "AllocateChaCha20Cipher ps =
    (let (legacy, ps) = sqlite3mcGetCipherParameter ps (str ''legacy'');
         (pageSize, ps) = sqlite3mcGetCipherParameter ps (str ''legacy_page_size'');
         (iter, ps) = sqlite3mcGetCipherParameter ps (str ''kdf_iter'');
         iter = (if legacy \<noteq> 0 then 12345 else iter);
         (header, ps) = sqlite3mcGetCipherParameter ps (str ''plaintext_header_size'')
     in (\<lparr>m_legacy = legacy, m_legacyPageSize = pageSize, m_kdfIter = iter, m_plaintextHeaderSize = header,
          m_keyLength = 32, m_key = replicate 32 0, m_salt = replicate 16 0\<rparr>, ps))"

definition CloneChaCha20Cipher :: "chacha20_cipher \<Rightarrow> chacha20_cipher \<Rightarrow> chacha20_cipher" where
  "CloneChaCha20Cipher to from = to\<lparr>m_legacy := m_legacy from, m_legacyPageSize := m_legacyPageSize from,
     m_kdfIter := m_kdfIter from, m_plaintextHeaderSize := m_plaintextHeaderSize from,
     m_keyLength := m_keyLength from, m_key := blit 0 (take 32 (m_key from)) (m_key to),
     m_salt := blit 0 (take 16 (m_salt from)) (m_salt to)\<rparr>"

definition GetLegacyChaCha20Cipher :: "chacha20_cipher \<Rightarrow> int" where
  "GetLegacyChaCha20Cipher c = m_legacy c"

definition GetPageSizeChaCha20Cipher :: "chacha20_cipher \<Rightarrow> int" where
  "GetPageSizeChaCha20Cipher c =
    (if m_legacy c \<noteq> 0 then
       (let pageSize = m_legacyPageSize c
        in if pageSize < 512 \<or> pageSize > 65536 \<or> (pageSize - 1) AND pageSize \<noteq> 0 then 0 else pageSize)
     else 0)"

definition GetReservedChaCha20Cipher :: "chacha20_cipher \<Rightarrow> int" where
  "GetReservedChaCha20Cipher c = 32"

definition GetSaltChaCha20Cipher :: "chacha20_cipher \<Rightarrow> bytes" where
  "GetSaltChaCha20Cipher c = m_salt c"

section \<open>Keys\<close>

text \<open>
  \<open>None\<close> is the abort of the generator.  \<open>kdf\<close> holds the arbitrary contents of the uninitialised locals of
  the key derivation.
\<close>

type_synonym kdf_junk = "bytes \<times> sha256_ctx hmac_ctx"

definition GenerateKeyChaCha20Cipher ::
    "(nat \<Rightarrow> nat \<Rightarrow> bytes option) \<Rightarrow> kdf_junk \<Rightarrow> chacha20_cipher \<Rightarrow> bytes \<Rightarrow> bool \<Rightarrow> bytes option
     \<Rightarrow> rng \<Rightarrow> (chacha20_cipher \<times> rng) option" where
  "GenerateKeyChaCha20Cipher ent kdf c userPassword rekey cipherSalt s =
    (case (if rekey \<or> cipherSalt = None
           then map_option (\<lambda>(salt, s). (c\<lparr>m_salt := salt\<rparr>, False, s)) (chacha20_rng ent 16 s)
           else Some (c\<lparr>m_salt := take 16 (the cipherSalt)\<rparr>, \<not> m_plaintextHeaderSize c > 0, s)) of
       None \<Rightarrow> None
     | Some (c, keyOnly, s) \<Rightarrow>
         (let (bypass, key, salt) = sqlite3mcExtractRawKey userPassword keyOnly 32 16 (m_key c) (m_salt c);
              c = c\<lparr>m_key := key, m_salt := salt\<rparr>
          in if bypass then Some (c, s)
             else Some (c\<lparr>m_key := fastpbkdf2_hmac_sha256 (fst kdf) (snd kdf) userPassword (m_salt c)
                                     (nat (m_kdfIter c)) 32\<rparr>, s)))"

section \<open>Pages\<close>

text \<open>\<open>offset\<close> and \<open>usePlaintextHeader\<close>: where encryption starts on a page.\<close>

definition chacha20_offset :: "chacha20_cipher \<Rightarrow> int \<Rightarrow> int \<times> bool" where
  "chacha20_offset c page =
    (if page = 1 then
       (let hs = m_plaintextHeaderSize c
        in if hs > 0 then (if m_legacy c \<noteq> 0 then hs else if hs > 24 then hs else 24, True)
           else (if m_legacy c \<noteq> 0 then 0 else 24, False))
     else (0, False))"

definition chacha20_nReserved :: "chacha20_cipher \<Rightarrow> int \<Rightarrow> int" where
  "chacha20_nReserved c reserved = (if reserved = 0 \<and> m_legacy c = 0 then 0 else GetReservedChaCha20Cipher c)"

definition chacha20_reserved_bad :: "chacha20_cipher \<Rightarrow> int \<Rightarrow> bool" where
  "chacha20_reserved_bad c reserved \<longleftrightarrow>
    (m_legacy c = 0 \<and> chacha20_nReserved c reserved > reserved)
    \<or> (m_legacy c \<noteq> 0 \<and> chacha20_nReserved c reserved \<noteq> reserved)"

text \<open>The one-time keys: 32 bytes for the authenticator, 32 for the stream, and the block counter.\<close>

definition page_counter :: "bytes \<Rightarrow> int \<Rightarrow> u32" where
  "page_counter nonce page = load32_le (mslice 12 4 nonce) XOR word_of_int page"

definition page_otk :: "chacha20_cipher \<Rightarrow> bytes \<Rightarrow> int \<Rightarrow> bytes" where
  "page_otk c nonce page = chacha20_xor (replicate 64 0) (m_key c) nonce (page_counter nonce page)"

text \<open>\<open>chacha20_xor(data + offset, n - offset, otk + 32, nonce, counter + 1)\<close>\<close>

definition page_stream :: "bytes \<Rightarrow> bytes \<Rightarrow> int \<Rightarrow> nat \<Rightarrow> nat \<Rightarrow> bytes \<Rightarrow> bytes" where
  "page_stream otk nonce page offset n data =
    blit offset (chacha20_xor (mslice offset (n - offset) data) (drop 32 otk) nonce (page_counter nonce page + 1)) data"

definition file_header :: bytes where
  "file_header = str ''SQLite format 3'' @ [0]"

definition EncryptPageChaCha20Cipher ::
    "(nat \<Rightarrow> nat \<Rightarrow> bytes option) \<Rightarrow> bytes \<Rightarrow> chacha20_cipher \<Rightarrow> int \<Rightarrow> bytes \<Rightarrow> int
     \<Rightarrow> rng \<Rightarrow> (rc \<times> bytes \<times> rng) option" where
  "EncryptPageChaCha20Cipher ent junk c page data reserved s =
    (let nReserved = chacha20_nReserved c reserved;
         n = length data - nat nReserved;
         (offset, usePlaintextHeader) = chacha20_offset c page
     in if chacha20_reserved_bad c reserved then Some (SQLITE_CORRUPT, data, s)
        else if nReserved > 0 then
          (case chacha20_rng ent 16 s of
             None \<Rightarrow> None
           | Some (nonce, s) \<Rightarrow>
               (let data = blit n nonce data;
                    otk = page_otk c nonce page;
                    data = page_stream otk nonce page (nat offset) n data;
                    data = (if page = 1 \<and> \<not> usePlaintextHeader then blit 0 (take 16 (m_salt c)) data else data);
                    data = blit (n + 16) (poly1305 (take (n + 16) data) otk) data
                in Some (SQLITE_OK, data, s)))
        else
          (let nonce = sqlite3mcGenerateInitialVector junk page;
               otk = page_otk c nonce page;
               data = page_stream otk nonce page (nat offset) n data;
               data = (if page = 1 \<and> \<not> usePlaintextHeader then blit 0 (take 16 (m_salt c)) data else data)
           in Some (SQLITE_OK, data, s)))"

definition chacha20_ismemset :: "bytes \<Rightarrow> u8 \<Rightarrow> int" where
  "chacha20_ismemset v b = (if foldl (\<lambda>r a. r OR (a XOR b)) 0 v \<noteq> 0 then 1 else 0)"

text \<open>\<open>allzero\<close>, the result of \<open>chacha20_ismemset\<close>, is not used by the code.\<close>

definition DecryptPageChaCha20Cipher ::
    "bytes \<Rightarrow> chacha20_cipher \<Rightarrow> int \<Rightarrow> bytes \<Rightarrow> int \<Rightarrow> int \<Rightarrow> rc \<times> bytes" where
  "DecryptPageChaCha20Cipher junk c page data reserved hmacCheck =
    (let nReserved = chacha20_nReserved c reserved;
         n = length data - nat nReserved;
         (offset, usePlaintextHeader) = chacha20_offset c page
     in if chacha20_reserved_bad c reserved then (if page = 1 then SQLITE_NOTADB else SQLITE_CORRUPT, data)
        else if nReserved > 0 then
          (let nonce = mslice n 16 data;
               otk = page_otk c nonce page;
               tag = poly1305 (take (n + 16) data) otk;
               stored = mslice (n + 16) 16 data;
               data = page_stream otk nonce page (nat offset) n data;
               rc = (if hmacCheck \<noteq> 0 \<and> poly1305_tagcmp stored tag \<noteq> 0
                     then (if page = 1 then SQLITE_NOTADB else SQLITE_CORRUPT) else SQLITE_OK);
               data = (if page = 1 \<and> \<not> usePlaintextHeader \<and> rc = SQLITE_OK then blit 0 file_header data else data)
           in (rc, data))
        else
          (let nonce = sqlite3mcGenerateInitialVector junk page;
               otk = page_otk c nonce page;
               data = page_stream otk nonce page (nat offset) n data;
               data = (if page = 1 \<and> \<not> usePlaintextHeader then blit 0 file_header data else data)
           in (SQLITE_OK, data)))"

section \<open>Decryption undoes encryption\<close>

lemma nth_page_stream:
  assumes "off \<le> n" and "n \<le> length data" and "k < length data"
  shows "page_stream otk nonce page off n data ! k =
    (if off \<le> k \<and> k < n
     then data ! k XOR keystream (chacha20_init (drop 32 otk) nonce (page_counter nonce page + 1)) (k - off)
     else data ! k)"
  using assms by (auto simp: page_stream_def nth_blit nth_mslice chacha20_xor_def nth_chacha20_loop)

lemma length_page_stream [simp]:
  "off \<le> n \<Longrightarrow> n \<le> length data \<Longrightarrow> length (page_stream otk nonce page off n data) = length data"
  by (simp add: page_stream_def length_blit)

lemma mslice_page_stream:
  "off \<le> n \<Longrightarrow> n \<le> length data \<Longrightarrow> n \<le> i \<Longrightarrow> i + m \<le> length data \<Longrightarrow>
    mslice i m (page_stream otk nonce page off n data) = mslice i m data"
  by (intro nth_equalityI) (auto simp: nth_mslice nth_page_stream)

text \<open>Streaming, writing the salt over the first 16 bytes, streaming again, writing the header back.\<close>

lemma page_stream_twice:
  assumes "off \<le> n" "n \<le> length data" "length e = length data"
    and "\<And>k. k < n \<Longrightarrow> e ! k = page_stream otk nonce page off n data ! k" and "k < n"
  shows "page_stream otk nonce page off n e ! k = data ! k"
  using assms by (simp add: nth_page_stream)

lemma page_stream_twice_salt:
  assumes "off \<le> n" "n \<le> length data" "length e = length data" "16 \<le> n" "take 16 data = hdr" "length hdr = 16"
    and "\<And>k. 16 \<le> k \<Longrightarrow> k < n \<Longrightarrow> e ! k = page_stream otk nonce page off n data ! k" and "k < n"
  shows "blit 0 hdr (page_stream otk nonce page off n e) ! k = data ! k"
  using assms by (auto simp: nth_page_stream nth_blit)

lemma rng_draw:
  assumes "rng_inv s" and "chacha20_rng ent n s = Some (bs, t)"
  shows "length bs = n" and "rng_inv t"
  using assms chacha20_rng_stream [OF assms(1)] rng_stream_length rng_stream_inv by metis+

lemma length_file_header: "length file_header = 16"
  by (simp add: file_header_def str_def)

text \<open>The pages the codec passes: an offset inside the encrypted part, and a file header to restore.\<close>

definition page_ok :: "chacha20_cipher \<Rightarrow> int \<Rightarrow> bytes \<Rightarrow> int \<Rightarrow> bool" where
  "page_ok c page data reserved \<longleftrightarrow>
     (let n = length data - nat (chacha20_nReserved c reserved); (offset, plain) = chacha20_offset c page
      in nat (chacha20_nReserved c reserved) \<le> length data \<and> 16 \<le> n \<and> nat offset \<le> n \<and> length (m_salt c) = 16
         \<and> (page = 1 \<and> \<not> plain \<longrightarrow> take 16 data = file_header))"

lemma nReserved_cases: "chacha20_nReserved c reserved = 0 \<or> chacha20_nReserved c reserved = 32"
  by (simp add: chacha20_nReserved_def GetReservedChaCha20Cipher_def)

text \<open>An encrypted page in its parts: content, nonce, tag.\<close>

lemma encrypted_parts:
  assumes ok: "page_ok c page data reserved" and good: "\<not> chacha20_reserved_bad c reserved"
    and res: "chacha20_nReserved c reserved = 32" and inv: "rng_inv s"
    and enc: "EncryptPageChaCha20Cipher ent junk c page data reserved s = Some (rc, d, t)"
    and n: "n = length data - 32" and off: "chacha20_offset c page = (offset, plain)"
  obtains nonce e where "rc = SQLITE_OK" "length nonce = 16" "length d = length data" "rng_inv t"
    "mslice n 16 d = nonce"
    "mslice (n + 16) 16 d = poly1305 (take (n + 16) d) (page_otk c nonce page)"
    "\<And>k. k < n \<Longrightarrow> d ! k = e ! k"
    "e = (let x = page_stream (page_otk c nonce page) nonce page (nat offset) n (blit n nonce data)
          in if page = 1 \<and> \<not> plain then blit 0 (m_salt c) x else x)"
proof -
  have len: "32 \<le> length data" "16 \<le> n" "nat offset \<le> n" "length (m_salt c) = 16" "n + 32 = length data"
    using ok off n res by (auto simp: page_ok_def Let_def)
  obtain nonce t' where r: "chacha20_rng ent 16 s = Some (nonce, t')"
    using enc good res by (auto simp: EncryptPageChaCha20Cipher_def Let_def split: option.splits prod.splits)
  have nl: "length nonce = 16" "rng_inv t'" using rng_draw [OF inv r] by simp_all
  define otk where "otk = page_otk c nonce page"
  define x where "x = page_stream otk nonce page (nat offset) n (blit n nonce data)"
  define e where "e = (if page = 1 \<and> \<not> plain then blit 0 (m_salt c) x else x)"
  have lx: "length x = length data" using len nl by (simp add: x_def length_blit)
  have le: "length e = length data" using lx len by (simp add: e_def length_blit)
  have d: "d = blit (n + 16) (poly1305 (take (n + 16) e) otk) e" "rc = SQLITE_OK" "t = t'"
    using enc good res r off n len(4) by (auto simp: EncryptPageChaCha20Cipher_def Let_def e_def x_def otk_def)
  have "mslice n 16 x = nonce"
    unfolding x_def using len nl by (subst mslice_page_stream) (simp_all add: length_blit mslice_blit_same)
  then have en: "mslice n 16 e = nonce"
    using lx len by (simp add: e_def mslice_blit_after)
  have "mslice n 16 d = nonce" unfolding d using le len en by (simp add: mslice_blit_before)
  moreover have "take (n + 16) d = take (n + 16) e" unfolding d using le len by (simp add: blit_def)
  moreover have "mslice (n + 16) 16 d = poly1305 (take (n + 16) e) otk"
    unfolding d using le len by (simp add: mslice_blit_same)
  moreover have "d ! k = e ! k" if "k < n" for k
    unfolding d using le len that by (simp add: nth_blit)
  moreover have "length d = length data" unfolding d using le len by (simp add: length_blit)
  ultimately show thesis
    using that [of nonce e] d nl by (simp add: otk_def e_def x_def Let_def)
qed

lemma decrypt_encrypt_reserved:
  assumes ok: "page_ok c page data reserved" and good: "\<not> chacha20_reserved_bad c reserved"
    and res: "chacha20_nReserved c reserved = 32" and inv: "rng_inv s"
    and enc: "EncryptPageChaCha20Cipher ent junk c page data reserved s = Some (rc, d, t)"
  shows "\<exists>d'. DecryptPageChaCha20Cipher junk' c page d reserved h = (SQLITE_OK, d')
    \<and> length d' = length data \<and> take (length data - 32) d' = take (length data - 32) data"
proof -
  define n where "n = length data - 32"
  obtain offset plain where off: "chacha20_offset c page = (offset, plain)" by fastforce
  from encrypted_parts [OF ok good res inv enc n_def off] obtain nonce e
    where parts: "rc = SQLITE_OK" "length nonce = 16" "length d = length data" "rng_inv t"
    "mslice n 16 d = nonce"
    "mslice (n + 16) 16 d = poly1305 (take (n + 16) d) (page_otk c nonce page)"
    and same: "\<And>k. k < n \<Longrightarrow> d ! k = e ! k"
    and e: "e = (let x = page_stream (page_otk c nonce page) nonce page (nat offset) n (blit n nonce data)
          in if page = 1 \<and> \<not> plain then blit 0 (m_salt c) x else x)" by blast
  have len: "32 \<le> length data" "16 \<le> n" "nat offset \<le> n" "length (m_salt c) = 16" "n + 32 = length data"
    and hdr: "page = 1 \<and> \<not> plain \<longrightarrow> take 16 data = file_header"
    using ok off res by (auto simp: page_ok_def Let_def n_def)
  define otk where "otk = page_otk c nonce page"
  define y where "y = page_stream otk nonce page (nat offset) n d"
  define d' where "d' = (if page = 1 \<and> \<not> plain then blit 0 file_header y else y)"
  have dec: "DecryptPageChaCha20Cipher junk' c page d reserved h = (SQLITE_OK, d')"
    using good res parts off n_def
    by (simp add: DecryptPageChaCha20Cipher_def Let_def y_def d'_def otk_def poly1305_tagcmp_zero)
  have ly: "length y = length data" using parts len by (simp add: y_def)
  have ld: "length d' = length data" using ly len by (simp add: d'_def length_blit length_file_header)
  define b where "b = blit n nonce data"
  have b: "length b = length data" "\<And>k. k < n \<Longrightarrow> b ! k = data ! k"
    using len parts by (simp_all add: b_def length_blit nth_blit)
  have e': "e = (let x = page_stream otk nonce page (nat offset) n b in if page = 1 \<and> \<not> plain then blit 0 (m_salt c) x else x)"
    unfolding e otk_def b_def ..
  have "d' ! k = data ! k" if k: "k < n" for k
  proof (cases "page = 1 \<and> \<not> plain")
    case True
    have "take 16 b = take 16 data" using b len by (intro nth_equalityI) auto
    then have "take 16 b = file_header" using hdr True by simp
    moreover have "d ! k = page_stream otk nonce page (nat offset) n b ! k" if "16 \<le> k" "k < n" for k
      using that same e' True len b by (simp add: nth_blit Let_def)
    ultimately show ?thesis
      using page_stream_twice_salt [of "nat offset" n b d file_header otk nonce page k] len b parts k True
      by (simp add: d'_def y_def length_file_header)
  next
    case False
    have "d ! k = page_stream otk nonce page (nat offset) n b ! k" if "k < n" for k
      using that same e' False by auto
    then show ?thesis
      using page_stream_twice [of "nat offset" n b d otk nonce page k] len b parts k False
      by (auto simp: d'_def y_def)
  qed
  then have "take n d' = take n data" using ld len by (intro nth_equalityI) auto
  then show ?thesis using dec ld by (auto simp: n_def)
qed

text \<open>Without reserved bytes the whole page comes back.\<close>

lemma length_md5: "length (sqlite3mcGetMD5Binary junk m) = 16"
  by (simp add: sqlite3mcGetMD5Binary_def MD5_Final_def Let_def split: prod.splits)

lemma initial_vector_junk:
  assumes "length junk = 64" and "length junk' = 64"
  shows "sqlite3mcGenerateInitialVector junk page = sqlite3mcGenerateInitialVector junk' page"
proof -
  have "sqlite3mcGetMD5Binary j m = md5_ref m" if "length j = 64" "length m < 2 ^ 64" for j m
    using md5_final_ref [OF md5_update_rep [OF md5_rep_init [OF that(1)] that(2)]]
    by (simp add: sqlite3mcGetMD5Binary_def)
  moreover have "length (concat (map (\<lambda>j. store32_le (word_of_int (initial_z (Suc j) page))) [0..<4])) = 16"
    by (simp add: length_concat_chunks [where w = 4])
  ultimately show ?thesis using assms by (simp add: sqlite3mcGenerateInitialVector_def)
qed

lemma decrypt_encrypt_plain:
  assumes ok: "page_ok c page data reserved" and good: "\<not> chacha20_reserved_bad c reserved"
    and res: "chacha20_nReserved c reserved = 0"
    and junk: "length junk = 64" "length junk' = 64"
    and enc: "EncryptPageChaCha20Cipher ent junk c page data reserved s = Some (rc, d, t)"
  shows "rc = SQLITE_OK \<and> DecryptPageChaCha20Cipher junk' c page d reserved h = (SQLITE_OK, data)"
proof -
  obtain offset plain where off: "chacha20_offset c page = (offset, plain)" by fastforce
  define n where "n = length data"
  have len: "16 \<le> n" "nat offset \<le> n" "length (m_salt c) = 16"
    and hdr: "page = 1 \<and> \<not> plain \<longrightarrow> take 16 data = file_header"
    using ok off res by (auto simp: page_ok_def Let_def n_def)
  define nonce where "nonce = sqlite3mcGenerateInitialVector junk page"
  have nonce': "sqlite3mcGenerateInitialVector junk' page = nonce"
    using initial_vector_junk [OF junk] by (simp add: nonce_def)
  define otk where "otk = page_otk c nonce page"
  define x where "x = page_stream otk nonce page (nat offset) n data"
  have lx: "length x = n" using len by (simp add: x_def n_def)
  have d: "rc = SQLITE_OK" "d = (if page = 1 \<and> \<not> plain then blit 0 (m_salt c) x else x)"
    using enc good res off len(3) by (auto simp: EncryptPageChaCha20Cipher_def Let_def x_def otk_def nonce_def n_def)
  have ld: "length d = n" using lx len by (simp add: d length_blit)
  define y where "y = page_stream otk nonce page (nat offset) n d"
  define d' where "d' = (if page = 1 \<and> \<not> plain then blit 0 file_header y else y)"
  have dec: "DecryptPageChaCha20Cipher junk' c page d reserved h = (SQLITE_OK, d')"
    using good res off ld by (auto simp: DecryptPageChaCha20Cipher_def Let_def y_def d'_def otk_def nonce' n_def)
  have ly: "length y = n" using ld len by (simp add: y_def)
  have ld': "length d' = n" using ly len by (simp add: d'_def length_blit length_file_header)
  have "d' ! k = data ! k" if k: "k < n" for k
  proof (cases "page = 1 \<and> \<not> plain")
    case True
    have "d ! k = page_stream otk nonce page (nat offset) n data ! k" if "16 \<le> k" "k < n" for k
      using that lx len True by (simp add: d x_def nth_blit)
    then show ?thesis
      using page_stream_twice_salt [of "nat offset" n data d file_header otk nonce page k] len ld k True hdr
      by (simp add: d'_def y_def length_file_header n_def)
  next
    case False
    then have "d = x" "d' = y" by (auto simp: d d'_def)
    then show ?thesis
      using page_stream_twice [of "nat offset" n data d otk nonce page k] len ld k by (simp add: y_def x_def n_def)
  qed
  then have "d' = data" using ld' by (intro nth_equalityI) (auto simp: n_def)
  then show ?thesis using dec d by simp
qed

section \<open>Properties\<close>

definition sample_cipher :: chacha20_cipher where
  "sample_cipher = \<lparr>m_legacy = 0, m_legacyPageSize = 4096, m_kdfIter = 64007, m_plaintextHeaderSize = 0,
     m_keyLength = 32, m_key = replicate 32 7, m_salt = replicate 16 9\<rparr>"

definition sample_rng :: rng where
  "sample_rng = rng_start\<lparr>rng_available := 64\<rparr>"

lemma sample_rng_inv: "rng_inv sample_rng"
  by (simp add: rng_inv_def sample_rng_def rng_start_def)

lemma sample_rng_draw: "chacha20_rng ent 16 sample_rng = Some (mslice 0 16 (rng_buffer sample_rng), sample_rng\<lparr>rng_available := 48\<rparr>)"
  by (simp add: chacha20_rng.simps [of ent 16] chacha20_rng.simps [of ent 0] rng_refill_def sample_rng_def rng_start_def)

lemma sample_page:
  "page_ok sample_cipher 2 (replicate 512 1) 32" "\<not> chacha20_reserved_bad sample_cipher 32"
  "chacha20_nReserved sample_cipher 32 = 32"
  by (simp_all add: page_ok_def chacha20_nReserved_def chacha20_reserved_bad_def sample_cipher_def
      GetReservedChaCha20Cipher_def chacha20_offset_def)

lemma sample_encrypts:
  "\<exists>rc d t. EncryptPageChaCha20Cipher ent junk sample_cipher 2 (replicate 512 1) 32 sample_rng = Some (rc, d, t)"
  using sample_page by (auto simp: EncryptPageChaCha20Cipher_def Let_def sample_rng_draw split: prod.split)

text \<open>Decrypting an encrypted page gives its content back, for every page number, legacy mode, header
  size and reserved size the cipher accepts, whatever nonce the generator drew: all of the page
  without reserved bytes, and everything before the reserved bytes otherwise.  On page 1 the salt in
  the first 16 bytes becomes the SQLite file header again.\<close>

theorem chacha20_page_round_trip:
  "rng_inv s \<Longrightarrow> length junk = 64 \<Longrightarrow> length junk' = 64 \<Longrightarrow>
   page_ok c page data reserved \<Longrightarrow> \<not> chacha20_reserved_bad c reserved \<Longrightarrow>
   EncryptPageChaCha20Cipher ent junk c page data reserved s = Some (rc, d, t) \<Longrightarrow>
   n = length data - nat (chacha20_nReserved c reserved) \<Longrightarrow>
     rc = SQLITE_OK \<and> (\<exists>d'. DecryptPageChaCha20Cipher junk' c page d reserved h = (SQLITE_OK, d')
       \<and> length d' = length data \<and> take n d' = take n data)"
proof -
  assume a: "rng_inv s" "length junk = 64" "length junk' = 64" "page_ok c page data reserved"
    "\<not> chacha20_reserved_bad c reserved"
    "EncryptPageChaCha20Cipher ent junk c page data reserved s = Some (rc, d, t)"
    "n = length data - nat (chacha20_nReserved c reserved)"
  show ?thesis
  proof (cases "chacha20_nReserved c reserved = 0")
    case True
    then show ?thesis using decrypt_encrypt_plain [OF a(4,5) True a(2,3,6)] by auto
  next
    case False
    then have res: "chacha20_nReserved c reserved = 32" using nReserved_cases by metis
    obtain offset plain where off: "chacha20_offset c page = (offset, plain)" by fastforce
    have "rc = SQLITE_OK" using encrypted_parts [OF a(4,5) res a(1,6) refl off] by blast
    then show ?thesis using decrypt_encrypt_reserved [OF a(4,5) res a(1,6)] a(7) by (simp add: res)
  qed
qed

lemma chacha20_page_round_trip_witness:
  "\<exists>rc d t d'. EncryptPageChaCha20Cipher (\<lambda>i n. None) (replicate 64 0) sample_cipher 2 (replicate 512 1) 32 sample_rng
      = Some (rc, d, t)
    \<and> DecryptPageChaCha20Cipher (replicate 64 0) sample_cipher 2 d 32 1 = (SQLITE_OK, d')
    \<and> take 480 d' = replicate 480 1"
proof -
  obtain rc d t where e: "EncryptPageChaCha20Cipher (\<lambda>i n. None) (replicate 64 0) sample_cipher 2 (replicate 512 1) 32 sample_rng
      = Some (rc, d, t)" using sample_encrypts by blast
  from chacha20_page_round_trip [OF sample_rng_inv _ _ sample_page(1,2) e refl, of "replicate 64 0" 1]
  show ?thesis using e by (auto simp: sample_page)
qed

text \<open>With authentication on, a page is accepted exactly when its stored tag is the Poly1305 tag, under
  the one-time key of the page's nonce and number, of everything before the tag; otherwise, and when
  the reserved size does not fit the cipher, the result is \<open>SQLITE_NOTADB\<close> for page 1 and
  \<open>SQLITE_CORRUPT\<close> for any other page.\<close>

theorem chacha20_page_acceptance:
  "32 \<le> length d \<Longrightarrow> hmacCheck \<noteq> 0 \<Longrightarrow> chacha20_nReserved c reserved = 32 \<Longrightarrow> n = length d - 32 \<Longrightarrow>
     fst (DecryptPageChaCha20Cipher junk c page d reserved hmacCheck) =
       (if \<not> chacha20_reserved_bad c reserved
           \<and> mslice (n + 16) 16 d = poly1305 (take (n + 16) d) (page_otk c (mslice n 16 d) page)
        then SQLITE_OK else if page = 1 then SQLITE_NOTADB else SQLITE_CORRUPT)"
  by (auto simp: DecryptPageChaCha20Cipher_def Let_def poly1305_tagcmp_zero split: prod.split)

lemma chacha20_page_acceptance_witness:
  "fst (DecryptPageChaCha20Cipher [] sample_cipher 2 (replicate 512 0) 32 1) =
     (if mslice 496 16 (replicate 512 0) = poly1305 (take 496 (replicate 512 0)) (page_otk sample_cipher (mslice 480 16 (replicate 512 0)) 2)
      then SQLITE_OK else SQLITE_CORRUPT)"
  using chacha20_page_acceptance [of "replicate 512 0" 1 sample_cipher 32 480 "[]" 2] sample_page by simp

text \<open>No other tag passes on an encrypted page: replacing the tag of a page the cipher wrote by any
  other sixteen bytes makes decryption fail.\<close>

theorem chacha20_forged_tag:
  "rng_inv s \<Longrightarrow> page_ok c page data reserved \<Longrightarrow> \<not> chacha20_reserved_bad c reserved \<Longrightarrow>
   chacha20_nReserved c reserved = 32 \<Longrightarrow>
   EncryptPageChaCha20Cipher ent junk c page data reserved s = Some (rc, d, t) \<Longrightarrow>
   n = length data - 32 \<Longrightarrow> length tag = 16 \<Longrightarrow> tag \<noteq> mslice (n + 16) 16 d \<Longrightarrow> hmacCheck \<noteq> 0 \<Longrightarrow>
     fst (DecryptPageChaCha20Cipher junk' c page (blit (n + 16) tag d) reserved hmacCheck)
       = (if page = 1 then SQLITE_NOTADB else SQLITE_CORRUPT)"
proof -
  assume inv: "rng_inv s" and ok: "page_ok c page data reserved" "\<not> chacha20_reserved_bad c reserved"
    and res: "chacha20_nReserved c reserved = 32"
    and enc: "EncryptPageChaCha20Cipher ent junk c page data reserved s = Some (rc, d, t)"
    and n: "n = length data - 32" and tag: "length tag = 16" "tag \<noteq> mslice (n + 16) 16 d" and h: "hmacCheck \<noteq> 0"
  obtain offset plain where off: "chacha20_offset c page = (offset, plain)" by fastforce
  from encrypted_parts [OF ok res inv enc n off] obtain nonce where p: "length d = length data"
    "mslice n 16 d = nonce" "mslice (n + 16) 16 d = poly1305 (take (n + 16) d) (page_otk c nonce page)" by blast
  have len: "n + 32 = length data" using ok res n by (auto simp: page_ok_def Let_def split: prod.splits)
  define d1 where "d1 = blit (n + 16) tag d"
  have "length d1 = length data" "mslice n 16 d1 = nonce" "mslice (n + 16) 16 d1 = tag" "take (n + 16) d1 = take (n + 16) d"
    using len p tag by (simp_all add: d1_def length_blit mslice_blit_before mslice_blit_same) (simp add: blit_def)
  then show ?thesis using ok res h n p tag unfolding d1_def [symmetric]
    by (auto simp: DecryptPageChaCha20Cipher_def Let_def poly1305_tagcmp_zero split: prod.split)
qed

lemma chacha20_forged_tag_witness:
  "\<exists>rc d t. EncryptPageChaCha20Cipher (\<lambda>i n. None) (replicate 64 0) sample_cipher 2 (replicate 512 1) 32 sample_rng
      = Some (rc, d, t)
    \<and> fst (DecryptPageChaCha20Cipher [] sample_cipher 2 (blit 496 ((mslice 496 16 d)[0 := mslice 496 16 d ! 0 + 1]) d) 32 1)
        = SQLITE_CORRUPT"
proof -
  obtain rc d t where e: "EncryptPageChaCha20Cipher (\<lambda>i n. None) (replicate 64 0) sample_cipher 2 (replicate 512 1) 32 sample_rng
      = Some (rc, d, t)" using sample_encrypts by blast
  have off: "chacha20_offset sample_cipher 2 = (0, False)" by (simp add: chacha20_offset_def)
  have "length d = 512"
    using encrypted_parts [OF sample_page sample_rng_inv e refl off] by (metis length_replicate)
  then have l: "length (mslice 496 16 d) = 16" by simp
  define tag where "tag = (mslice 496 16 d)[0 := mslice 496 16 d ! 0 + 1]"
  have "tag ! 0 = mslice 496 16 d ! 0 + 1" "length tag = 16" using l by (simp_all add: tag_def)
  then have "tag \<noteq> mslice 496 16 d" "length tag = 16" by auto
  then show ?thesis
    using chacha20_forged_tag [OF sample_rng_inv sample_page e, of 480 tag 1 "[]"] e by (auto simp: tag_def)
qed

text \<open>A raw hexadecimal key (Springtale's form) becomes the page key unchanged, whatever the iteration
  count, and the salt is the one in the file header; any passphrase that is not a raw key is run
  through PBKDF2 over the stored salt; a rekey draws a fresh salt from the generator.\<close>

theorem chacha20_generate_key:
  "length (m_key c) = 32 \<Longrightarrow> length (m_salt c) = 16 \<Longrightarrow> length k = 32 \<Longrightarrow> length hdr = 16 \<Longrightarrow>
   length (fst kdf) = 64 \<Longrightarrow> sha256_wf (hmac_inner (snd kdf)) \<Longrightarrow> sha256_wf (hmac_outer (snd kdf)) \<Longrightarrow>
   length pw < 2 ^ 29 \<Longrightarrow> rng_inv s \<Longrightarrow> \<not> fst (sqlite3mcExtractRawKey pw (\<not> m_plaintextHeaderSize c > 0) 32 16 (m_key c) hdr) \<Longrightarrow>
     GenerateKeyChaCha20Cipher ent kdf c ([120, 39] @ hex_encode k @ [39]) False (Some hdr) s
       = Some (c\<lparr>m_key := k, m_salt := hdr\<rparr>, s)
     \<and> GenerateKeyChaCha20Cipher ent kdf c pw False (Some hdr) s
       = Some (c\<lparr>m_key := pbkdf2_ref sha256_ref 64 32 pw hdr (nat (m_kdfIter c)) 32, m_salt := hdr\<rparr>, s)
     \<and> GenerateKeyChaCha20Cipher ent kdf c ([120, 39] @ hex_encode k @ [39]) True cs s
       = map_option (\<lambda>(salt, s'). (c\<lparr>m_key := k, m_salt := salt\<rparr>, s')) (chacha20_rng ent 16 s)"
proof -
  assume len: "length (m_key c) = 32" "length (m_salt c) = 16" "length k = 32" "length hdr = 16"
    and kdf: "length (fst kdf) = 64" "sha256_wf (hmac_inner (snd kdf))" "sha256_wf (hmac_outer (snd kdf))"
    and pw: "length pw < 2 ^ 29" and inv: "rng_inv s" and raw: "\<not> fst (sqlite3mcExtractRawKey pw (\<not> m_plaintextHeaderSize c > 0) 32 16 (m_key c) hdr)"
  have hex: "sqlite3mcExtractRawKey ([120, 39] @ hex_encode k @ [39]) ko 32 16 (m_key c) salt = (True, k, salt)"
    if "length salt = 16" for ko salt using extract_hex_key [OF len(1) that len(3) that] by simp
  obtain key' salt' where x: "sqlite3mcExtractRawKey pw (\<not> m_plaintextHeaderSize c > 0) 32 16 (m_key c) hdr = (False, key', salt')"
    using raw by (metis (full_types) fst_conv prod_cases3)
  have x': "sqlite3mcExtractRawKey pw (\<not> m_plaintextHeaderSize c > 0) 32 16 (m_key c) hdr = (False, m_key c, hdr)"
    using x extract_frame [OF len(1,4) x] by simp
  have "fastpbkdf2_hmac_sha256 (fst kdf) (snd kdf) pw hdr (nat (m_kdfIter c)) 32
      = pbkdf2_ref sha256_ref 64 32 pw hdr (nat (m_kdfIter c)) 32"
    using sha.pbkdf2_is_ref [of "snd kdf" "fst kdf" pw hdr] kdf pw len
    by (simp add: fastpbkdf2_hmac_sha256_def sha256_ops_def)
  then show ?thesis
    using hex x' len rng_draw(1) [OF inv]
    by (auto simp: GenerateKeyChaCha20Cipher_def Let_def split: option.split)
qed

lemma chacha20_generate_key_witness:
  "GenerateKeyChaCha20Cipher (\<lambda>i n. None) (replicate 64 0, hmac_blank) sample_cipher ([120, 39] @ hex_encode (replicate 32 5) @ [39])
      False (Some (replicate 16 1)) sample_rng
    = Some (sample_cipher\<lparr>m_key := replicate 32 5, m_salt := replicate 16 1\<rparr>, sample_rng)"
proof -
  have "\<not> fst (sqlite3mcExtractRawKey [] (\<not> m_plaintextHeaderSize sample_cipher > 0) 32 16 (m_key sample_cipher) (replicate 16 1))"
    by (simp add: sqlite3mcExtractRawKey_def sqlcipher_raw_key_def)
  from chacha20_generate_key [OF _ _ _ _ _ _ _ _ sample_rng_inv this] show ?thesis
    by (simp add: sample_cipher_def hmac_blank_def sha256_blank_def sha256_wf_def)
qed

end
