(* ===== verification/IoFile.thy ===== *)
theory IoFile
  imports Prelude
begin

text \<open>
  The contract of an open file (\<open>sqlite3_io_methods\<close>): what \<open>xRead\<close>, \<open>xWrite\<close> and \<open>xTruncate\<close> do to
  the bytes of the file.  A file is the list of its bytes; a write past the end fills the gap with
  zeros.  The locale states the laws; the in-memory file systems of the engine are interpretations.
\<close>

section \<open>The bytes of a file\<close>

definition file_write :: "nat \<Rightarrow> bytes \<Rightarrow> bytes \<Rightarrow> bytes" where
  "file_write off d f = blit off d (f @ replicate (off + length d - length f) 0)"

lemma length_file_write [simp]: "length (file_write off d f) = max (length f) (off + length d)"
  by (simp add: file_write_def length_blit)

lemma nth_file_write:
  assumes "k < max (length f) (off + length d)"
  shows "file_write off d f ! k =
    (if off \<le> k \<and> k < off + length d then d ! (k - off) else if k < length f then f ! k else 0)"
  using assms by (auto simp: file_write_def nth_blit nth_append)

lemma file_write_same: "mslice off (length d) (file_write off d f) = d"
  by (simp add: file_write_def mem_simps)

lemma file_write_other:
  assumes "i + n \<le> off \<or> off + length d \<le> i" and "i + n \<le> length f"
  shows "mslice i n (file_write off d f) = mslice i n f"
  using assms by (intro nth_equalityI) (auto simp: nth_mslice nth_file_write)

lemma file_write_commute:
  assumes "a + length x \<le> b \<or> b + length y \<le> a"
  shows "file_write a x (file_write b y f) = file_write b y (file_write a x f)"
proof (rule nth_equalityI)
  fix k assume "k < length (file_write a x (file_write b y f))"
  then show "file_write a x (file_write b y f) ! k = file_write b y (file_write a x f) ! k"
    using assms by (cases "k < length (file_write a x f)"; cases "k < length (file_write b y f)")
      (auto simp: nth_file_write)
qed (simp add: max.left_commute max.commute)

lemma file_write_append: "file_write (length f) d f = f @ d"
  by (simp add: file_write_def blit_def)

lemma file_write_chunks: "file_write (i + length x) y (file_write i x f) = file_write i (x @ y) f"
  by (rule nth_equalityI) (auto simp: nth_file_write nth_append)

section \<open>The contract\<close>

locale io_file =
  fixes xread :: "'s \<Rightarrow> nat \<Rightarrow> nat \<Rightarrow> rc \<times> bytes"
    and xwrite :: "'s \<Rightarrow> nat \<Rightarrow> bytes \<Rightarrow> rc \<times> 's"
    and content :: "'s \<Rightarrow> bytes"
    and ok :: "'s \<Rightarrow> bool"
  assumes read_inside: "ok s \<Longrightarrow> off + n \<le> length (content s) \<Longrightarrow> xread s off n = (SQLITE_OK, mslice off n (content s))"
    and read_short: "ok s \<Longrightarrow> length (content s) < off + n \<Longrightarrow> fst (xread s off n) = SQLITE_IOERR_SHORT_READ"
    and write_ok: "ok s \<Longrightarrow> xwrite s off d = (SQLITE_OK, s') \<Longrightarrow> ok s' \<and> content s' = file_write off d (content s)"
    and write_error: "ok s \<Longrightarrow> xwrite s off d = (rc, s') \<Longrightarrow> rc \<noteq> SQLITE_OK \<Longrightarrow> ok s' \<and> content s' = content s"
begin

lemma read_after_write:
  assumes "ok s" and "xwrite s off d = (SQLITE_OK, s')"
  shows "xread s' off (length d) = (SQLITE_OK, d)"
proof -
  from write_ok [OF assms] have w: "ok s'" "content s' = file_write off d (content s)" by auto
  have "xread s' off (length d) = (SQLITE_OK, mslice off (length d) (content s'))"
    by (rule read_inside [OF w(1)]) (simp add: w(2))
  then show ?thesis by (simp only: w(2) file_write_same)
qed

lemma read_other_after_write:
  assumes "ok s" and "xwrite s off d = (SQLITE_OK, s')" and "i + n \<le> off \<or> off + length d \<le> i"
    and "i + n \<le> length (content s)"
  shows "xread s' i n = xread s i n"
proof -
  from write_ok [OF assms(1,2)] have w: "ok s'" "content s' = file_write off d (content s)" by auto
  have "xread s' i n = (SQLITE_OK, mslice i n (content s'))"
    by (rule read_inside [OF w(1)]) (use assms(4) in \<open>simp add: w(2)\<close>)
  then show ?thesis
    unfolding read_inside [OF assms(1,4)] w(2) file_write_other [OF assms(3,4)] .
qed

lemma write_keeps_ok: "ok s \<Longrightarrow> ok (snd (xwrite s off d))"
  using write_ok [of s off d] write_error [of s off d] by (metis prod.collapse)

text \<open>A sequence of writes, stopped by the first error.\<close>

fun writes :: "'s \<Rightarrow> (nat \<times> bytes) list \<Rightarrow> rc \<times> 's" where
  "writes s [] = (SQLITE_OK, s)"
| "writes s ((off, d) # ws) =
    (case xwrite s off d of (rc, s') \<Rightarrow> if rc = SQLITE_OK then writes s' ws else (rc, s'))"

lemma writes_content:
  "ok s \<Longrightarrow> writes s ws = (SQLITE_OK, s') \<Longrightarrow>
     ok s' \<and> content s' = fold (\<lambda>(off, d). file_write off d) ws (content s)"
proof (induction ws arbitrary: s)
  case (Cons w ws)
  obtain off d where w: "w = (off, d)" by fastforce
  obtain rc t where x: "xwrite s off d = (rc, t)" by fastforce
  with Cons.prems have "rc = SQLITE_OK" and "writes t ws = (SQLITE_OK, s')" by (auto simp: w split: if_splits)
  then show ?case using Cons.IH [of t] write_ok [OF Cons.prems(1)] x by (simp add: w)
qed simp

end

end
