(* ===== verification/DemoVfs.thy ===== *)
theory DemoVfs
  imports IoFile
begin

text \<open>
  The VFS for WASI (\<open>wasm32-wasi-vfs.c\<close>).  A journal file has a write buffer: consecutive writes
  gather in it, and it is flushed when it is full, when a write does not continue it, and before the
  file is read, synced, measured or closed.  The operating system is a parameter, a record of the
  system calls over its own state; \<open>posix_file\<close> states what the documentation of those calls
  promises for one descriptor of a regular file.
\<close>

section \<open>The system calls\<close>

text \<open>A call returns its result and the new state of the system; \<open>px_read\<close> also the bytes read, \<open>px_fstat\<close>
  the size, \<open>px_unlink\<close> whether \<open>errno\<close> is \<open>ENOENT\<close>.\<close>

record 'o posix =
  px_lseek :: "int \<Rightarrow> nat \<Rightarrow> 'o \<Rightarrow> int \<times> 'o"
  px_write :: "int \<Rightarrow> bytes \<Rightarrow> 'o \<Rightarrow> int \<times> 'o"
  px_read :: "int \<Rightarrow> nat \<Rightarrow> 'o \<Rightarrow> int \<times> bytes \<times> 'o"
  px_fsync :: "int \<Rightarrow> 'o \<Rightarrow> int \<times> 'o"
  px_fstat :: "int \<Rightarrow> 'o \<Rightarrow> int \<times> nat \<times> 'o"
  px_close :: "int \<Rightarrow> 'o \<Rightarrow> 'o"
  px_open :: "bytes \<Rightarrow> bool \<times> bool \<times> bool \<times> bool \<Rightarrow> 'o \<Rightarrow> int \<times> 'o"
  px_unlink :: "bytes \<Rightarrow> 'o \<Rightarrow> int \<times> bool \<times> 'o"
  px_access :: "bytes \<Rightarrow> nat \<Rightarrow> 'o \<Rightarrow> int"

definition posix_file :: "('o, 'z) posix_scheme \<Rightarrow> int \<Rightarrow> ('o \<Rightarrow> bytes) \<Rightarrow> ('o \<Rightarrow> nat) \<Rightarrow> bool" where
  "posix_file os fd content pos \<longleftrightarrow>
     (\<forall>n w r w'. px_lseek os fd n w = (r, w') \<longrightarrow> content w' = content w \<and> (r = int n \<longrightarrow> pos w' = n))
     \<and> (\<forall>d w r w'. px_write os fd d w = (r, w') \<longrightarrow>
          (if r = int (length d) then content w' = file_write (pos w) d (content w)
           else \<exists>k. content w' = file_write (pos w) (take k d) (content w)))
     \<and> (\<forall>n w r b w'. px_read os fd n w = (r, b, w') \<longrightarrow> content w' = content w
          \<and> (0 \<le> r \<longrightarrow> r \<le> int n \<and> b = mslice (pos w) (nat r) (content w) \<and> length b = nat r
               \<and> (r < int n \<longrightarrow> length (content w) \<le> pos w + nat r)))
     \<and> (\<forall>w r w'. px_fsync os fd w = (r, w') \<longrightarrow> content w' = content w)
     \<and> (\<forall>w r n w'. px_fstat os fd w = (r, n, w') \<longrightarrow> content w' = content w \<and> (r = 0 \<longrightarrow> n = length (content w)))"

section \<open>Files\<close>

definition SQLITE_DEMOVFS_BUFFERSZ :: nat where "SQLITE_DEMOVFS_BUFFERSZ = 8192"

text \<open>\<open>df_aBuffer\<close> is the null pointer for a file without buffer.\<close>

record DemoFile =
  df_fd :: int
  df_aBuffer :: "bytes option"
  df_nBuffer :: nat
  df_iBufferOfst :: nat

definition demoDirectWrite :: "('o, 'z) posix_scheme \<Rightarrow> DemoFile \<Rightarrow> bytes \<Rightarrow> nat \<Rightarrow> 'o \<Rightarrow> rc \<times> 'o" where
  "demoDirectWrite os p zBuf iOfst w =
    (case px_lseek os (df_fd p) iOfst w of
       (ofst, w) \<Rightarrow>
         if ofst \<noteq> int iOfst then (SQLITE_IOERR_WRITE, w)
         else (case px_write os (df_fd p) zBuf w of
                 (nWrite, w) \<Rightarrow> ((if nWrite \<noteq> int (length zBuf) then SQLITE_IOERR_WRITE else SQLITE_OK), w)))"

definition demoFlushBuffer :: "('o, 'z) posix_scheme \<Rightarrow> DemoFile \<Rightarrow> 'o \<Rightarrow> rc \<times> DemoFile \<times> 'o" where
  "demoFlushBuffer os p w =
    (if df_nBuffer p \<noteq> 0 then
       (case demoDirectWrite os p (take (df_nBuffer p) (the (df_aBuffer p))) (df_iBufferOfst p) w of
          (rc, w) \<Rightarrow> (rc, p\<lparr>df_nBuffer := 0\<rparr>, w))
     else (SQLITE_OK, p, w))"

definition demoClose :: "('o, 'z) posix_scheme \<Rightarrow> DemoFile \<Rightarrow> 'o \<Rightarrow> rc \<times> 'o" where
  "demoClose os p w = (case demoFlushBuffer os p w of (rc, p, w) \<Rightarrow> (rc, px_close os (df_fd p) w))"

text \<open>\<open>zBuf\<close> is the caller's buffer before the call; \<open>read\<close> overwrites its first bytes.\<close>

definition demoRead :: "('o, 'z) posix_scheme \<Rightarrow> DemoFile \<Rightarrow> bytes \<Rightarrow> nat \<Rightarrow> 'o \<Rightarrow> rc \<times> bytes \<times> DemoFile \<times> 'o" where
  "demoRead os p zBuf iOfst w =
    (case demoFlushBuffer os p w of
       (rc, p, w) \<Rightarrow>
         if rc \<noteq> SQLITE_OK then (rc, zBuf, p, w)
         else (case px_lseek os (df_fd p) iOfst w of
                 (ofst, w) \<Rightarrow>
                   if ofst \<noteq> int iOfst then (SQLITE_IOERR_READ, zBuf, p, w)
                   else (case px_read os (df_fd p) (length zBuf) w of
                           (nRead, b, w) \<Rightarrow>
                             let zBuf' = (if nRead \<ge> 0 then blit 0 b zBuf else zBuf)
                             in if nRead = int (length zBuf) then (SQLITE_OK, zBuf', p, w)
                                else if nRead \<ge> 0 then (SQLITE_IOERR_SHORT_READ, zBuf', p, w)
                                else (SQLITE_IOERR_READ, zBuf', p, w))))"

text \<open>The loop of \<open>demoWrite\<close>; it may fail to return only if the buffer is over-full.\<close>

partial_function (option) demo_write_loop ::
    "('o, 'z) posix_scheme \<Rightarrow> DemoFile \<Rightarrow> bytes \<Rightarrow> nat \<Rightarrow> 'o \<Rightarrow> (rc \<times> DemoFile \<times> 'o) option" where
  "demo_write_loop os p z i w =
    (if z = [] then Some (SQLITE_OK, p, w)
     else
       (case (if df_nBuffer p = SQLITE_DEMOVFS_BUFFERSZ \<or> df_iBufferOfst p + df_nBuffer p \<noteq> i
              then demoFlushBuffer os p w else (SQLITE_OK, p, w)) of
          (rc, p, w) \<Rightarrow>
            if rc \<noteq> SQLITE_OK then Some (rc, p, w)
            else
              (let p = p\<lparr>df_iBufferOfst := i - df_nBuffer p\<rparr>;
                   nCopy = SQLITE_DEMOVFS_BUFFERSZ - df_nBuffer p;
                   nCopy = (if nCopy > length z then length z else nCopy);
                   p = p\<lparr>df_aBuffer := map_option (blit (df_nBuffer p) (take nCopy z)) (df_aBuffer p),
                         df_nBuffer := df_nBuffer p + nCopy\<rparr>
               in demo_write_loop os p (drop nCopy z) (i + nCopy) w)))"

definition demoWrite :: "('o, 'z) posix_scheme \<Rightarrow> DemoFile \<Rightarrow> bytes \<Rightarrow> nat \<Rightarrow> 'o \<Rightarrow> (rc \<times> DemoFile \<times> 'o) option" where
  "demoWrite os p zBuf iOfst w =
    (if df_aBuffer p \<noteq> None then demo_write_loop os p zBuf iOfst w
     else (case demoDirectWrite os p zBuf iOfst w of (rc, w) \<Rightarrow> Some (rc, p, w)))"

definition demoTruncate :: "DemoFile \<Rightarrow> nat \<Rightarrow> rc" where "demoTruncate p size' = SQLITE_OK"

definition demoSync :: "('o, 'z) posix_scheme \<Rightarrow> DemoFile \<Rightarrow> 'o \<Rightarrow> rc \<times> DemoFile \<times> 'o" where
  "demoSync os p w =
    (case demoFlushBuffer os p w of
       (rc, p, w) \<Rightarrow>
         if rc \<noteq> SQLITE_OK then (rc, p, w)
         else (case px_fsync os (df_fd p) w of (r, w) \<Rightarrow> ((if r = 0 then SQLITE_OK else SQLITE_IOERR_FSYNC), p, w)))"

definition demoFileSize :: "('o, 'z) posix_scheme \<Rightarrow> DemoFile \<Rightarrow> 'o \<Rightarrow> rc \<times> nat option \<times> DemoFile \<times> 'o" where
  "demoFileSize os p w =
    (case demoFlushBuffer os p w of
       (rc, p, w) \<Rightarrow>
         if rc \<noteq> SQLITE_OK then (rc, None, p, w)
         else (case px_fstat os (df_fd p) w of
                 (r, n, w) \<Rightarrow> if r \<noteq> 0 then (SQLITE_IOERR_FSTAT, None, p, w) else (SQLITE_OK, Some n, p, w)))"

definition demoLock :: "nat \<Rightarrow> rc" where "demoLock eLock = SQLITE_OK"
definition demoUnlock :: "nat \<Rightarrow> rc" where "demoUnlock eLock = SQLITE_OK"
definition demoCheckReservedLock :: "rc \<times> nat" where "demoCheckReservedLock = (SQLITE_OK, 0)"
definition demoFileControl :: "nat \<Rightarrow> rc" where "demoFileControl op' = SQLITE_OK"
definition demoSectorSize :: nat where "demoSectorSize = 0"
definition demoDeviceCharacteristics :: nat where "demoDeviceCharacteristics = 0"

section \<open>The file system\<close>

text \<open>The flags of \<open>xOpen\<close>.\<close>

definition SQLITE_OPEN_READONLY :: u32 where "SQLITE_OPEN_READONLY = 0x1"
definition SQLITE_OPEN_READWRITE :: u32 where "SQLITE_OPEN_READWRITE = 0x2"
definition SQLITE_OPEN_CREATE :: u32 where "SQLITE_OPEN_CREATE = 0x4"
definition SQLITE_OPEN_EXCLUSIVE :: u32 where "SQLITE_OPEN_EXCLUSIVE = 0x10"
definition SQLITE_OPEN_MAIN_JOURNAL :: u32 where "SQLITE_OPEN_MAIN_JOURNAL = 0x800"

text \<open>\<open>buf\<close> is the freshly allocated buffer, or \<open>None\<close> when the allocation fails.\<close>

definition demoOpen :: "('o, 'z) posix_scheme \<Rightarrow> bytes option \<Rightarrow> bytes option \<Rightarrow> u32 \<Rightarrow> 'o
    \<Rightarrow> rc \<times> (DemoFile \<times> u32) option \<times> 'o" where
  "demoOpen os buf zName flags w =
    (case zName of
       None \<Rightarrow> (SQLITE_IOERR, None, w)
     | Some zName \<Rightarrow>
         let journal = (flags AND SQLITE_OPEN_MAIN_JOURNAL \<noteq> 0)
         in if journal \<and> buf = None then (SQLITE_NOMEM, None, w)
            else (case px_open os zName (flags AND SQLITE_OPEN_EXCLUSIVE \<noteq> 0, flags AND SQLITE_OPEN_CREATE \<noteq> 0,
                         flags AND SQLITE_OPEN_READONLY \<noteq> 0, flags AND SQLITE_OPEN_READWRITE \<noteq> 0) w of
                    (fd, w) \<Rightarrow>
                      if fd < 0 then (SQLITE_CANTOPEN, None, w)
                      else (SQLITE_OK, Some (\<lparr>df_fd = fd, df_aBuffer = (if journal then buf else None), df_nBuffer = 0,
                              df_iBufferOfst = 0\<rparr>, flags), w)))"

text \<open>The directory that \<open>demoDelete\<close> derives from the path: \<open>zDir\<close> is an uninitialised array of 513 bytes
  into which at most 511 bytes of the path and a terminator are printed.  The scan goes up from the
  end of the string; reading past the array is \<open>None\<close>.\<close>

definition MAXPATHNAME :: nat where "MAXPATHNAME = 512"

definition demo_print_path :: "bytes \<Rightarrow> bytes \<Rightarrow> bytes" where
  "demo_print_path zPath junk =
    (let s = take (MAXPATHNAME - 1) zPath
     in (s @ [0] @ drop (length s + 1) (take (MAXPATHNAME + 1) (junk @ replicate (MAXPATHNAME + 1) 0)))[MAXPATHNAME := 0])"

function demo_scan :: "bytes \<Rightarrow> nat \<Rightarrow> nat option" where
  "demo_scan zDir i =
    (if \<not> i > 1 then Some i
     else if i \<ge> length zDir then None
     else if zDir ! i = 47 then Some i
     else demo_scan zDir (i + 1))"
  by pat_completeness auto
termination by (relation "measure (\<lambda>(zDir, i). length zDir - i)") auto

declare demo_scan.simps [simp del]

definition demo_cstr :: "bytes \<Rightarrow> bytes" where "demo_cstr = takeWhile (\<lambda>c. c \<noteq> 0)"

definition demo_directory :: "bytes \<Rightarrow> bytes \<Rightarrow> bytes option" where
  "demo_directory zPath junk =
    (let zDir = demo_print_path zPath junk
     in case demo_scan zDir (length (demo_cstr zDir)) of
          None \<Rightarrow> None
        | Some i \<Rightarrow> Some (demo_cstr (zDir[i := 0])))"

definition demoDelete :: "('o, 'z) posix_scheme \<Rightarrow> bytes \<Rightarrow> bytes \<Rightarrow> bool \<Rightarrow> 'o \<Rightarrow> (rc \<times> 'o) option" where
  "demoDelete os junk zPath dirSync w =
    (case px_unlink os zPath w of
       (rc, enoent, w) \<Rightarrow>
         if rc \<noteq> 0 \<and> enoent then Some (SQLITE_OK, w)
         else if rc = 0 \<and> dirSync then
           (case demo_directory zPath junk of
              None \<Rightarrow> None
            | Some zDir \<Rightarrow>
                (case px_open os zDir (False, False, True, False) w of
                   (dfd, w) \<Rightarrow>
                     if dfd < 0 then Some (SQLITE_IOERR_DELETE, w)
                     else (case px_fsync os dfd w of
                             (rc, w) \<Rightarrow> Some ((if rc = 0 then SQLITE_OK else SQLITE_IOERR_DELETE), px_close os dfd w))))
         else Some ((if rc = 0 then SQLITE_OK else SQLITE_IOERR_DELETE), w))"

definition demoAccess :: "('o, 'z) posix_scheme \<Rightarrow> bytes \<Rightarrow> nat \<Rightarrow> 'o \<Rightarrow> rc \<times> bool" where
  "demoAccess os zPath flags w =
    (let eAccess = (if flags = 1 then 6 else if flags = 2 then 4 else 0)
     in (SQLITE_OK, px_access os zPath eAccess w = 0))"

definition demoFullPathname :: "bytes \<Rightarrow> bytes \<Rightarrow> rc \<times> bytes" where
  "demoFullPathname zPath zPathOut =
    (let nPathOut = length zPathOut
     in (SQLITE_OK, (blit 0 (take (nPathOut - 1) zPath @ [0]) zPathOut)[nPathOut - 1 := 0]))"

section \<open>The buffer is transparent\<close>

text \<open>The bytes of the file as the engine sees them: those of the disk, overwritten by the pending buffer.\<close>

definition df_ok :: "DemoFile \<Rightarrow> bool" where
  "df_ok p \<longleftrightarrow> (case df_aBuffer p of None \<Rightarrow> df_nBuffer p = 0
     | Some b \<Rightarrow> length b = SQLITE_DEMOVFS_BUFFERSZ \<and> df_nBuffer p \<le> SQLITE_DEMOVFS_BUFFERSZ)"

definition df_content :: "('o \<Rightarrow> bytes) \<Rightarrow> DemoFile \<Rightarrow> 'o \<Rightarrow> bytes" where
  "df_content content p w =
    (if df_nBuffer p = 0 then content w
     else file_write (df_iBufferOfst p) (take (df_nBuffer p) (the (df_aBuffer p))) (content w))"

lemma posix_fileD:
  assumes "posix_file os fd content pos"
  shows "px_lseek os fd n w = (r, w') \<Longrightarrow> content w' = content w \<and> (r = int n \<longrightarrow> pos w' = n)"
    and "px_write os fd d w = (r, w') \<Longrightarrow> r = int (length d) \<Longrightarrow> content w' = file_write (pos w) d (content w)"
    and "px_read os fd n w = (r, b, w') \<Longrightarrow> content w' = content w
      \<and> (0 \<le> r \<longrightarrow> r \<le> int n \<and> b = mslice (pos w) (nat r) (content w) \<and> length b = nat r
          \<and> (r < int n \<longrightarrow> length (content w) \<le> pos w + nat r))"
    and "px_fsync os fd w = (r, w') \<Longrightarrow> content w' = content w"
    and "px_fstat os fd w = (r, k, w') \<Longrightarrow> content w' = content w \<and> (r = 0 \<longrightarrow> k = length (content w))"
  using assms unfolding posix_file_def by (metis, metis, metis, metis, metis)

lemma demoDirectWrite_ok:
  assumes "posix_file os (df_fd p) content pos" and "demoDirectWrite os p d i w = (SQLITE_OK, w')"
  shows "content w' = file_write i d (content w)"
proof -
  obtain r w1 where l: "px_lseek os (df_fd p) i w = (r, w1)" by fastforce
  obtain r2 w2 where x: "px_write os (df_fd p) d w1 = (r2, w2)" by fastforce
  have "r = int i" "r2 = int (length d)" "w' = w2" using assms(2) l x by (auto simp: demoDirectWrite_def split: if_splits)
  then show ?thesis using posix_fileD(1) [OF assms(1) l] posix_fileD(2) [OF assms(1) x] by simp
qed

lemma demoFlushBuffer_ok:
  assumes os: "posix_file os (df_fd p) content pos" and ok: "df_ok p" and f: "demoFlushBuffer os p w = (rc, p', w')"
  shows "df_ok p'" and "df_nBuffer p' = 0" and "df_fd p' = df_fd p" and "df_aBuffer p' = df_aBuffer p"
    and "rc = SQLITE_OK \<Longrightarrow> content w' = df_content content p w"
proof -
  show "df_ok p'" "df_nBuffer p' = 0" "df_fd p' = df_fd p" "df_aBuffer p' = df_aBuffer p"
    using ok f by (auto simp: demoFlushBuffer_def df_ok_def split: if_splits prod.splits option.splits)
  show "content w' = df_content content p w" if "rc = SQLITE_OK"
    using f that demoDirectWrite_ok [OF os]
    by (auto simp: demoFlushBuffer_def df_content_def split: if_splits prod.splits)
qed

text \<open>Copying the next bytes into the buffer.\<close>

lemma df_content_copy:
  assumes b: "df_aBuffer p = Some b" "length b = SQLITE_DEMOVFS_BUFFERSZ"
    and at: "df_nBuffer p = 0 \<or> df_iBufferOfst p + df_nBuffer p = i"
    and fit: "df_nBuffer p + length x \<le> SQLITE_DEMOVFS_BUFFERSZ" and x: "x \<noteq> []"
  shows "df_content content (p\<lparr>df_iBufferOfst := i - df_nBuffer p, df_aBuffer := Some (blit (df_nBuffer p) x b),
      df_nBuffer := df_nBuffer p + length x\<rparr>) w = file_write i x (df_content content p w)"
proof -
  let ?n = "df_nBuffer p"
  have t: "take (?n + length x) (blit ?n x b) = take ?n b @ x" using b fit by (simp add: blit_def)
  show ?thesis
  proof (cases "?n = 0")
    case True
    then show ?thesis using x t b by (simp add: df_content_def)
  next
    case False
    then have i: "i = df_iBufferOfst p + length (take ?n b)" and ofst: "i - ?n = df_iBufferOfst p"
      using at b fit by auto
    have "df_content content (p\<lparr>df_iBufferOfst := i - ?n, df_aBuffer := Some (blit ?n x b), df_nBuffer := ?n + length x\<rparr>) w
        = file_write (df_iBufferOfst p) (take ?n b @ x) (content w)"
      using False ofst t by (simp add: df_content_def)
    also have "\<dots> = file_write i x (file_write (df_iBufferOfst p) (take ?n b) (content w))"
      unfolding i by (rule file_write_chunks [symmetric])
    finally show ?thesis using False b by (simp add: df_content_def)
  qed
qed

lemma demo_write_loop_ok:
  assumes "posix_file os (df_fd p) content pos" and "df_ok p" and "df_aBuffer p \<noteq> None"
  shows "\<exists>rc p' w'. demo_write_loop os p z i w = Some (rc, p', w') \<and> df_ok p' \<and> df_fd p' = df_fd p \<and> df_aBuffer p' \<noteq> None
    \<and> (rc = SQLITE_OK \<longrightarrow> df_content content p' w' = (if z = [] then df_content content p w else file_write i z (df_content content p w)))"
  using assms
proof (induction "length z" arbitrary: z i p w rule: less_induct)
  case less
  note os = less.prems(1)
  show ?case
  proof (cases "z = []")
    case True
    then show ?thesis using less.prems by (simp add: demo_write_loop.simps)
  next
    case z: False
    let ?c = "df_nBuffer p = SQLITE_DEMOVFS_BUFFERSZ \<or> df_iBufferOfst p + df_nBuffer p \<noteq> i"
    obtain rc p1 w1 where f: "(if ?c then demoFlushBuffer os p w else (SQLITE_OK, p, w)) = (rc, p1, w1)"
      by (metis prod_cases3)
    have p1: "df_ok p1" "df_fd p1 = df_fd p" "df_aBuffer p1 = df_aBuffer p"
      and at: "df_nBuffer p1 = 0 \<or> df_nBuffer p1 < SQLITE_DEMOVFS_BUFFERSZ \<and> df_iBufferOfst p1 + df_nBuffer p1 = i"
      and c1: "rc = SQLITE_OK \<Longrightarrow> df_content content p1 w1 = df_content content p w"
      using f demoFlushBuffer_ok [OF os less.prems(2), of w rc p1 w1] less.prems(2,3)
      by (auto simp: df_ok_def df_content_def split: if_splits)
    show ?thesis
    proof (cases "rc = SQLITE_OK")
      case False
      then show ?thesis using f z p1 less.prems(3) by (auto simp: demo_write_loop.simps [of os p z])
    next
      case True
      obtain b where b: "df_aBuffer p1 = Some b" "length b = SQLITE_DEMOVFS_BUFFERSZ"
        using p1 less.prems(3) by (auto simp: df_ok_def)
      define n where "n = (if SQLITE_DEMOVFS_BUFFERSZ - df_nBuffer p1 > length z then length z else SQLITE_DEMOVFS_BUFFERSZ - df_nBuffer p1)"
      define x where "x = take n z"
      have n: "0 < n" "n \<le> length z" "df_nBuffer p1 + n \<le> SQLITE_DEMOVFS_BUFFERSZ"
        using at z by (auto simp: n_def SQLITE_DEMOVFS_BUFFERSZ_def)
      have x: "length x = n" "x \<noteq> []" using n z by (auto simp: x_def)
      define p2 where "p2 = p1\<lparr>df_iBufferOfst := i - df_nBuffer p1, df_aBuffer := Some (blit (df_nBuffer p1) x b),
          df_nBuffer := df_nBuffer p1 + n\<rparr>"
      have c2: "df_content content p2 w1 = file_write i x (df_content content p w)"
        unfolding c1 [OF True, symmetric] p2_def x(1) [symmetric]
        by (rule df_content_copy [OF b]) (use at n x in auto)
      have loop: "demo_write_loop os p z i w = demo_write_loop os p2 (drop n z) (i + n) w1"
        unfolding demo_write_loop.simps [of os p z i w] f using z True b
        by (auto simp: Let_def n_def p2_def x_def)
      have p2: "posix_file os (df_fd p2) content pos" "df_ok p2" "df_aBuffer p2 \<noteq> None" "df_fd p2 = df_fd p"
        using os p1 b n x by (auto simp: p2_def df_ok_def length_blit)
      have "length (drop n z) < length z" using n by simp
      from less.hyps [OF this p2(1-3), of "i + n" w1] obtain rc' p' w' where
        r: "demo_write_loop os p2 (drop n z) (i + n) w1 = Some (rc', p', w')" "df_ok p'" "df_fd p' = df_fd p2" "df_aBuffer p' \<noteq> None"
        and c: "rc' = SQLITE_OK \<longrightarrow> df_content content p' w' = (if drop n z = [] then df_content content p2 w1
            else file_write (i + n) (drop n z) (df_content content p2 w1))" by blast
      have "df_content content p' w' = file_write i z (df_content content p w)" if "rc' = SQLITE_OK"
      proof (cases "drop n z = []")
        case True
        then show ?thesis using c that c2 n by (simp add: x_def)
      next
        case False
        then show ?thesis using c that c2 file_write_chunks [of i x "drop n z"] x(1) by (simp add: x_def)
      qed
      then show ?thesis using loop r p2(4) z by simp
    qed
  qed
qed

text \<open>A system with one file in memory, for the samples below: the bytes and the file position.\<close>

definition ram_posix :: "(bytes \<times> nat) posix" where
  "ram_posix = \<lparr>px_lseek = (\<lambda>fd n (c, k). (int n, (c, n))),
     px_write = (\<lambda>fd d (c, k). (int (length d), (file_write k d c, k + length d))),
     px_read = (\<lambda>fd n (c, k). (int (min n (length c - k)), mslice k n c, (c, k + min n (length c - k)))),
     px_fsync = (\<lambda>fd w. (0, w)), px_fstat = (\<lambda>fd (c, k). (0, length c, (c, k))),
     px_close = (\<lambda>fd w. w), px_open = (\<lambda>z f w. (3, w)), px_unlink = (\<lambda>z w. (0, False, w)),
     px_access = (\<lambda>z n w. 0)\<rparr>"

lemma ram_posix_file: "posix_file ram_posix fd fst snd"
  unfolding posix_file_def ram_posix_def by (auto simp: mslice_def min_def)

definition sample_demo :: DemoFile where
  "sample_demo = \<lparr>df_fd = 3, df_aBuffer = Some (replicate 8192 0), df_nBuffer = 0, df_iBufferOfst = 0\<rparr>"

lemma sample_demo_ok: "df_ok sample_demo" "df_content fst sample_demo w = fst w"
  by (simp_all add: sample_demo_def df_ok_def SQLITE_DEMOVFS_BUFFERSZ_def df_content_def)

section \<open>Properties\<close>

text \<open>C29. The write buffer is transparent: \<open>demoWrite\<close> always returns, keeps the buffer within bounds, and
  when it reports success the file, disk and buffer together, is the old file with the bytes
  written at the offset, however the write is cut by the buffer's end and by flushes.\<close>

theorem demo_write_transparent:
  "posix_file os (df_fd p) content pos \<Longrightarrow> df_ok p \<Longrightarrow> z \<noteq> [] \<Longrightarrow>
     \<exists>rc p' w'. demoWrite os p z i w = Some (rc, p', w') \<and> df_ok p' \<and> df_fd p' = df_fd p
       \<and> (rc = SQLITE_OK \<longrightarrow> df_content content p' w' = file_write i z (df_content content p w))"
proof -
  assume os: "posix_file os (df_fd p) content pos" and ok: "df_ok p" and z: "z \<noteq> []"
  show ?thesis
  proof (cases "df_aBuffer p")
    case None
    obtain rc w' where d: "demoDirectWrite os p z i w = (rc, w')" by fastforce
    have "df_nBuffer p = 0" using ok None by (simp add: df_ok_def)
    then show ?thesis using d None ok demoDirectWrite_ok [OF os] by (auto simp: demoWrite_def df_content_def)
  next
    case (Some b)
    then show ?thesis using demo_write_loop_ok [OF os ok, of z i w] z by (auto simp: demoWrite_def)
  qed
qed

lemma demo_write_transparent_witness:
  "\<exists>rc p' w'. demoWrite ram_posix sample_demo [1, 2] 5 ([9], 0) = Some (rc, p', w') \<and> df_ok p' \<and> df_fd p' = df_fd sample_demo
     \<and> (rc = SQLITE_OK \<longrightarrow> df_content fst p' w' = file_write 5 [1, 2] (df_content fst sample_demo ([9], 0 :: nat)))"
  by (rule demo_write_transparent [OF ram_posix_file sample_demo_ok(1)]) simp

text \<open>Reading goes through the buffer: a successful \<open>demoRead\<close> returns the bytes of the file as written,
  a short read returns what the file has from the offset on, and leaves the rest of the caller's
  buffer as it was.\<close>

theorem demo_read_contents:
  "posix_file os (df_fd p) content pos \<Longrightarrow> df_ok p \<Longrightarrow> demoRead os p zBuf i w = (rc, zBuf', p', w') \<Longrightarrow>
   f = df_content content p w \<Longrightarrow>
     (rc = SQLITE_OK \<longrightarrow> zBuf' = mslice i (length zBuf) f \<and> (zBuf \<noteq> [] \<longrightarrow> i + length zBuf \<le> length f)
        \<and> content w' = f)
     \<and> (rc = SQLITE_IOERR_SHORT_READ \<longrightarrow>
          (\<exists>n<length zBuf. zBuf' = mslice i n f @ drop n zBuf \<and> length (mslice i n f) = n \<and> length f \<le> i + n))"
proof -
  assume os: "posix_file os (df_fd p) content pos" and ok: "df_ok p"
    and r: "demoRead os p zBuf i w = (rc, zBuf', p', w')" and f: "f = df_content content p w"
  obtain rc1 p1 w1 where fl: "demoFlushBuffer os p w = (rc1, p1, w1)" by (metis prod_cases3)
  note p1 = demoFlushBuffer_ok [OF os ok fl]
  have rc1: "rc1 \<noteq> SQLITE_IOERR_SHORT_READ"
    using fl by (auto simp: demoFlushBuffer_def demoDirectWrite_def split: if_splits prod.splits)
  obtain o1 w2 where l: "px_lseek os (df_fd p1) i w1 = (o1, w2)" by fastforce
  obtain nr b w3 where x: "px_read os (df_fd p1) (length zBuf) w2 = (nr, b, w3)" by (metis prod_cases3)
  show ?thesis
  proof (cases "rc1 = SQLITE_OK \<and> o1 = int i \<and> 0 \<le> nr")
    case True
    have c: "content w1 = f" using p1(5) True f by simp
    have w2: "content w2 = f" "pos w2 = i" using posix_fileD(1) [OF os, of i w1 o1 w2] l p1(3) True c by simp_all
    have x': "px_read os (df_fd p) (length zBuf) w2 = (nr, b, w3)" using x p1(3) by simp
    have rd: "content w3 = f" "nr \<le> int (length zBuf)" "b = mslice i (nat nr) f" "length b = nat nr"
      "nr < int (length zBuf) \<longrightarrow> length f \<le> i + nat nr"
      using posix_fileD(3) [OF os x', unfolded w2] True by blast+
    have z: "zBuf' = b @ drop (nat nr) zBuf" and w': "w' = w3"
      and rc: "rc = (if nr = int (length zBuf) then SQLITE_OK else SQLITE_IOERR_SHORT_READ)"
      using r fl l x True rd(4) by (auto simp: demoRead_def Let_def blit_def split: if_splits)
    show ?thesis
    proof (cases "nr = int (length zBuf)")
      case True
      then have "length (mslice i (length zBuf) f) = length zBuf" using rd by simp
      then have "zBuf \<noteq> [] \<longrightarrow> i + length zBuf \<le> length f" by (cases zBuf) auto
      then show ?thesis using True z w' rc rd by simp
    next
      case False
      then have n: "nat nr < length zBuf" using rd(2) \<open>_ \<and> _ \<and> 0 \<le> nr\<close> by linarith
      then have "length f \<le> i + nat nr" using rd(5) False rd(2) by linarith
      then show ?thesis using n z rc rd False by auto
    qed
  next
    case False
    then show ?thesis using r fl l x rc1 by (auto simp: demoRead_def Let_def split: if_splits)
  qed
qed

lemma demo_read_contents_witness:
  "demoRead ram_posix sample_demo [7, 7, 7] 1 ([4, 5], 0) = (SQLITE_IOERR_SHORT_READ, [5, 7, 7], sample_demo, ([4, 5], 2))
     \<and> (\<exists>n<length [7, 7, 7 :: u8]. [5, 7, 7] = mslice 1 n [4, 5 :: u8] @ drop n [7, 7, 7])"
proof -
  have r: "demoRead ram_posix sample_demo [7, 7, 7] 1 ([4, 5], 0)
      = (SQLITE_IOERR_SHORT_READ, [5, 7, 7], sample_demo, ([4, 5], 2))"
    by (simp add: demoRead_def demoFlushBuffer_def sample_demo_def ram_posix_def mslice_def blit_def Let_def)
  from demo_read_contents [OF ram_posix_file sample_demo_ok(1) r refl] r show ?thesis
    by (auto simp: sample_demo_ok(2))
qed

text \<open>A successful \<open>demoSync\<close> leaves nothing in the buffer: the disk holds the file as written.\<close>

theorem demo_sync_flushes:
  "posix_file os (df_fd p) content pos \<Longrightarrow> df_ok p \<Longrightarrow> demoSync os p w = (SQLITE_OK, p', w') \<Longrightarrow>
     content w' = df_content content p w \<and> df_nBuffer p' = 0"
proof -
  assume os: "posix_file os (df_fd p) content pos" and ok: "df_ok p" and s: "demoSync os p w = (SQLITE_OK, p', w')"
  obtain rc1 p1 w1 where fl: "demoFlushBuffer os p w = (rc1, p1, w1)" by (metis prod_cases3)
  obtain r w2 where x: "px_fsync os (df_fd p1) w1 = (r, w2)" by fastforce
  have "rc1 = SQLITE_OK" "p' = p1" "w' = w2" using s fl x by (auto simp: demoSync_def split: if_splits)
  then show ?thesis
    using demoFlushBuffer_ok [OF os ok fl] posix_fileD(4) [OF os, of w1 r w2] x by simp
qed

lemma demo_sync_flushes_witness:
  "demoSync ram_posix sample_demo ([4, 5], 0) = (SQLITE_OK, sample_demo, ([4, 5], 0))
     \<and> fst ([4, 5 :: u8], 0 :: nat) = df_content fst sample_demo ([4, 5], 0 :: nat) \<and> df_nBuffer sample_demo = 0"
proof -
  have r: "demoSync ram_posix sample_demo ([4, 5], 0) = (SQLITE_OK, sample_demo, ([4, 5], 0))"
    by (simp add: demoSync_def demoFlushBuffer_def sample_demo_def ram_posix_def)
  from demo_sync_flushes [OF ram_posix_file sample_demo_ok(1) r] r show ?thesis by blast
qed

lemma demo_scan_up: "demo_scan z i = Some j \<Longrightarrow> i \<le> j"
  by (induction z i rule: demo_scan.induct) (subst (asm) demo_scan.simps, fastforce split: if_splits)

text \<open>C40. \<open>demoDelete\<close> never finds the parent directory: scanning up from the end of the path, it either runs
  off the array (always so for a path of 511 bytes or more) or comes back with the whole path as the directory to sync.\<close>

theorem demo_directory_is_the_path:
  "cstr' = take 511 zPath \<Longrightarrow> 0 \<notin> set zPath \<Longrightarrow> demo_directory zPath junk = Some d \<Longrightarrow> d = cstr'"
proof -
  assume s: "cstr' = take 511 zPath" and nz: "0 \<notin> set zPath" and d: "demo_directory zPath junk = Some d"
  define z where "z = demo_print_path zPath junk"
  obtain t where t: "z = cstr' @ 0 # t"
  proof -
    have l: "length cstr' \<le> 511" unfolding s by simp
    have "MAXPATHNAME - 1 = 511" by (simp add: MAXPATHNAME_def)
    then obtain r where "z = (cstr' @ 0 # r)[512 := 0]"
      unfolding z_def demo_print_path_def Let_def by (simp only: s [symmetric] append_Cons append_Nil) (simp only: MAXPATHNAME_def)
    moreover have "512 - length cstr' = Suc (511 - length cstr')" and "\<not> 512 < length cstr'" using l by simp_all
    ultimately have "z = cstr' @ 0 # r[511 - length cstr' := 0]"
      by (simp only: list_update_append if_False list_update_code)
    then show thesis using that by blast
  qed
  have nz': "\<forall>c\<in>set cstr'. c \<noteq> 0" using nz by (auto simp: s dest: in_set_takeD)
  have str: "demo_cstr (cstr' @ 0 # u) = cstr'" for u using nz' by (simp add: demo_cstr_def)
  obtain i where i: "demo_scan z (length cstr') = Some i" and di: "d = demo_cstr (z[i := 0])"
    using d by (auto simp: demo_directory_def z_def [symmetric] Let_def t str split: option.splits)
  have "length cstr' \<le> i" by (rule demo_scan_up [OF i])
  then have "z[i := 0] = cstr' @ (0 # t)[i - length cstr' := 0]" by (simp add: t list_update_append)
  then have "\<exists>u. z[i := 0] = cstr' @ 0 # u" by (cases "i - length cstr'") auto
  then show ?thesis using di str by auto
qed

lemma demo_directory_is_the_path_witness:
  "demo_directory [47, 97, 47, 98] (replicate 513 47) = Some [47, 97, 47, 98] \<and> [47, 97, 47, 98 :: u8] = take 511 [47, 97, 47, 98]"
proof -
  have "demo_directory [47, 97, 47, 98] (replicate 513 47) = Some [47, 97, 47, 98]" by code_simp
  from demo_directory_is_the_path [OF refl _ this] this show ?thesis by simp
qed

end
