(* ===== verification/HashTable.thy ===== *)
theory HashTable
  imports CString "HOL-Library.Multiset"
begin

text \<open>
  The generic symbol table (\<open>hash.c\<close>).  All elements are on one doubly linked list, here the list
  of the elements in their order (\<open>next\<close> and \<open>prev\<close> are its neighbours); a bucket points at an element of
  that list by its address and owns the \<open>count\<close> elements from there on.  Without a bucket array the
  whole list is searched.  What the allocator answers is an argument: the address of a new element,
  and the usable size of a new array for each request.
\<close>

section \<open>Elements, buckets, tables\<close>

record 'd hash_elem =
  e_addr :: nat
  e_data :: 'd
  e_pKey :: bytes
  e_h :: u32

record ht_bucket =
  b_count :: nat
  b_chain :: "nat option"

record 'd hash =
  htsize :: nat
  hcount :: nat
  hfirst :: "'d hash_elem list"
  ht :: "ht_bucket list option"

definition SQLITE_MALLOC_SOFT_LIMIT :: nat where "SQLITE_MALLOC_SOFT_LIMIT = 1024"
definition sizeof_ht :: nat where "sizeof_ht = 16"

text \<open>Counters are \<open>unsigned int\<close>.\<close>

definition uint32 :: "nat \<Rightarrow> nat" where
  "uint32 n = n mod 2 ^ 32"

lemma uint32_small [simp]: "n < 4294967296 \<Longrightarrow> uint32 n = n"
  by (simp add: uint32_def)

definition sqlite3HashInit :: "'d hash" where
  "sqlite3HashInit = \<lparr>htsize = 0, hcount = 0, hfirst = [], ht = None\<rparr>"

definition sqlite3HashClear :: "'d hash \<Rightarrow> 'd hash" where
  "sqlite3HashClear pH = pH\<lparr>hfirst := [], ht := None, htsize := 0, hcount := 0\<rparr>"

definition strHash :: "bytes \<Rightarrow> u32" where
  "strHash z = foldl (\<lambda>h c. (h + (0xdf AND ucast c)) * 0x9e3779b1) 0 z"

text \<open>\<open>at_elem a xs\<close> is the list from the element with address \<open>a\<close> on; \<open>pNew\<close> goes before it.\<close>

definition at_elem :: "nat \<Rightarrow> 'd hash_elem list \<Rightarrow> 'd hash_elem list" where
  "at_elem a xs = dropWhile (\<lambda>e. e_addr e \<noteq> a) xs"

definition link_before :: "nat \<Rightarrow> 'd hash_elem \<Rightarrow> 'd hash_elem list \<Rightarrow> 'd hash_elem list" where
  "link_before a pNew xs = takeWhile (\<lambda>e. e_addr e \<noteq> a) xs @ pNew # at_elem a xs"

definition next_elem :: "nat \<Rightarrow> 'd hash_elem list \<Rightarrow> nat option" where
  "next_elem a xs = (case tl (at_elem a xs) of [] \<Rightarrow> None | y # _ \<Rightarrow> Some (e_addr y))"

definition unlink :: "nat \<Rightarrow> 'd hash_elem list \<Rightarrow> 'd hash_elem list" where
  "unlink a xs = takeWhile (\<lambda>e. e_addr e \<noteq> a) xs @ tl (at_elem a xs)"

definition insertElement :: "'d hash \<Rightarrow> nat option \<Rightarrow> 'd hash_elem \<Rightarrow> 'd hash" where
  "insertElement pH pEntry pNew =
    (case pEntry of
       None \<Rightarrow> pH\<lparr>hfirst := pNew # hfirst pH\<rparr>
     | Some k \<Rightarrow>
         let b = the (ht pH) ! k;
             pHead = (if b_count b \<noteq> 0 then b_chain b else None);
             b = \<lparr>b_count = uint32 (b_count b + 1), b_chain = Some (e_addr pNew)\<rparr>
         in pH\<lparr>ht := Some ((the (ht pH))[k := b]),
               hfirst := (case pHead of Some a \<Rightarrow> link_before a pNew (hfirst pH) | None \<Rightarrow> pNew # hfirst pH)\<rparr>)"

definition bucket_of :: "'d hash \<Rightarrow> u32 \<Rightarrow> nat" where
  "bucket_of pH h = unat h mod htsize pH"

definition rehash :: "(nat \<Rightarrow> nat option) \<Rightarrow> 'd hash \<Rightarrow> nat \<Rightarrow> bool \<times> 'd hash" where
  "rehash malloc pH new_size =
    (let new_size = (if new_size * sizeof_ht > SQLITE_MALLOC_SOFT_LIMIT
                     then SQLITE_MALLOC_SOFT_LIMIT div sizeof_ht else new_size)
     in if new_size = htsize pH then (False, pH)
        else case malloc (new_size * sizeof_ht) of
               None \<Rightarrow> (False, pH)
             | Some usable \<Rightarrow>
                 let new_size = uint32 (usable div sizeof_ht);
                     empty = pH\<lparr>htsize := new_size, ht := Some (replicate new_size \<lparr>b_count = 0, b_chain = None\<rparr>), hfirst := []\<rparr>
                 in (True, foldl (\<lambda>pH e. insertElement pH (Some (bucket_of pH (e_h e))) e) empty (hfirst pH)))"

text \<open>The loop of \<open>findElementWithHash\<close>: \<open>count\<close> elements of the list from the start of the bucket.\<close>

fun find_loop :: "u32 \<Rightarrow> bytes \<Rightarrow> nat \<Rightarrow> 'd hash_elem list \<Rightarrow> 'd hash_elem option" where
  "find_loop h pKey 0 xs = None"
| "find_loop h pKey (Suc n) [] = None"
| "find_loop h pKey (Suc n) (e # xs) =
    (if h = e_h e \<and> sqlite3StrICmp (e_pKey e) pKey = 0 then Some e else find_loop h pKey n xs)"

definition findElementWithHash :: "'d hash \<Rightarrow> bytes \<Rightarrow> 'd hash_elem option \<times> u32" where
  "findElementWithHash pH pKey =
    (let h = strHash pKey
     in (case ht pH of
           Some bs \<Rightarrow>
             let pEntry = bs ! bucket_of pH h
             in find_loop h pKey (b_count pEntry)
                  (case b_chain pEntry of None \<Rightarrow> [] | Some a \<Rightarrow> at_elem a (hfirst pH))
         | None \<Rightarrow> find_loop h pKey (hcount pH) (hfirst pH), h))"

definition removeElement :: "'d hash \<Rightarrow> 'd hash_elem \<Rightarrow> 'd hash" where
  "removeElement pH e =
    (let bs = (case ht pH of
                 None \<Rightarrow> None
               | Some bs \<Rightarrow>
                   let k = bucket_of pH (e_h e); b = bs ! k
                   in Some (bs[k := \<lparr>b_count = b_count b - 1,
                          b_chain = (if b_chain b = Some (e_addr e) then next_elem (e_addr e) (hfirst pH) else b_chain b)\<rparr>]));
         pH = pH\<lparr>hfirst := unlink (e_addr e) (hfirst pH), ht := bs, hcount := hcount pH - 1\<rparr>
     in if hcount pH = 0 then sqlite3HashClear pH else pH)"

definition sqlite3HashFind :: "'d hash \<Rightarrow> bytes \<Rightarrow> 'd option" where
  "sqlite3HashFind pH pKey = map_option e_data (fst (findElementWithHash pH pKey))"

text \<open>
  \<open>sqlite3HashInsert\<close>: the pointer returned and the table; NULL data is \<open>None\<close>.  An element found is
  overwritten in place at its address.
\<close>

definition set_elem :: "nat \<Rightarrow> 'd \<Rightarrow> bytes \<Rightarrow> 'd hash_elem list \<Rightarrow> 'd hash_elem list" where
  "set_elem a d pKey xs = map (\<lambda>e. if e_addr e = a then e\<lparr>e_data := d, e_pKey := pKey\<rparr> else e) xs"

definition sqlite3HashInsert ::
  "(nat \<Rightarrow> nat option) \<Rightarrow> nat option \<Rightarrow> 'd hash \<Rightarrow> bytes \<Rightarrow> 'd option \<Rightarrow> 'd option \<times> 'd hash" where
  "sqlite3HashInsert malloc new_elem pH pKey data =
    (case findElementWithHash pH pKey of
       (Some e, h) \<Rightarrow>
         (Some (e_data e),
          case data of
            None \<Rightarrow> removeElement pH e
          | Some d \<Rightarrow> pH\<lparr>hfirst := set_elem (e_addr e) d pKey (hfirst pH)\<rparr>)
     | (None, h) \<Rightarrow>
         (case data of
            None \<Rightarrow> (None, pH)
          | Some d \<Rightarrow>
              (case new_elem of
                 None \<Rightarrow> (Some d, pH)
               | Some a \<Rightarrow>
                   let e = \<lparr>e_addr = a, e_data = d, e_pKey = pKey, e_h = h\<rparr>;
                       pH = pH\<lparr>hcount := uint32 (hcount pH + 1)\<rparr>;
                       pH = (if hcount pH \<ge> 5 \<and> hcount pH > uint32 (2 * htsize pH)
                             then snd (rehash malloc pH (uint32 (hcount pH * 3))) else pH)
                   in (None, insertElement pH
                        (case ht pH of None \<Rightarrow> None | Some _ \<Rightarrow> Some (bucket_of pH h)) e))))"

section \<open>Groups\<close>

text \<open>The elements with a property are neighbours.\<close>

fun grouped :: "('a \<Rightarrow> bool) \<Rightarrow> 'a list \<Rightarrow> bool" where
  "grouped P [] = True"
| "grouped P (x # xs) = (if P x then list_all (\<lambda>y. \<not> P y) (dropWhile P xs) else grouped P xs)"

lemma grouped_none: "list_all (\<lambda>y. \<not> P y) xs \<Longrightarrow> grouped P xs"
  by (induction xs) auto

lemma none_dropWhile: "list_all (\<lambda>y. \<not> P y) xs \<Longrightarrow> dropWhile P xs = xs"
  by (cases xs) auto

lemma grouped_none_left: "list_all (\<lambda>y. \<not> P y) A \<Longrightarrow> grouped P (A @ B) = grouped P B"
  by (induction A) auto

lemma rest_split: "list_all (\<lambda>y. \<not> P y) (dropWhile P (A @ e # B)) \<Longrightarrow> \<not> P e \<Longrightarrow> list_all (\<lambda>y. \<not> P y) B"
  by (induction A) (auto split: if_splits)

lemma grouped_split:
  "grouped P (A @ e # B) \<Longrightarrow> \<not> P e \<Longrightarrow> list_all (\<lambda>y. \<not> P y) A \<or> list_all (\<lambda>y. \<not> P y) B"
proof (induction A)
  case (Cons a A)
  then show ?case using rest_split [of P A e B] by (auto split: if_splits)
qed simp

lemma rest_remove: "list_all (\<lambda>y. \<not> P y) (dropWhile P (A @ e # B)) \<Longrightarrow> list_all (\<lambda>y. \<not> P y) (dropWhile P (A @ B))"
proof (induction A)
  case Nil
  then show ?case by (auto split: if_splits simp: none_dropWhile)
next
  case (Cons a A)
  then show ?case by (auto split: if_splits)
qed

lemma grouped_remove: "grouped P (A @ e # B) \<Longrightarrow> grouped P (A @ B)"
proof (induction A)
  case Nil
  then show ?case by (cases B) (auto split: if_splits intro: grouped_none)
next
  case (Cons a A)
  then show ?case using rest_remove [of P A e B] by (auto split: if_splits)
qed

lemma rest_insert:
  "list_all (\<lambda>y. \<not> P y) (dropWhile P (A @ e # B)) \<Longrightarrow> \<not> P e \<Longrightarrow> \<not> P n \<Longrightarrow>
     list_all (\<lambda>y. \<not> P y) (dropWhile P (A @ n # e # B))"
  by (induction A) (auto split: if_splits)

lemma grouped_insert: "grouped P (A @ e # B) \<Longrightarrow> \<not> P e \<Longrightarrow> \<not> P n \<Longrightarrow> grouped P (A @ n # e # B)"
proof (induction A)
  case (Cons a A)
  then show ?case using rest_insert [of P A e B n] by (auto split: if_splits)
qed simp

lemma grouped_take:
  "grouped P xs \<Longrightarrow> take (length (filter P xs)) (dropWhile (\<lambda>x. \<not> P x) xs) = filter P xs"
proof (induction xs)
  case (Cons x xs)
  have r: "list_all (\<lambda>y. \<not> P y) (dropWhile P ys) \<Longrightarrow> take (length (filter P ys)) ys = filter P ys" for ys
  proof (induction ys)
    case (Cons y ys)
    then show ?case by (cases "P y") (simp_all add: list_all_iff)
  qed simp
  show ?case
  proof (cases "P x")
    case True
    then show ?thesis using Cons.prems r [of xs] by simp
  next
    case False
    then show ?thesis using Cons by simp
  qed
qed simp

section \<open>The invariant\<close>

definition bucket_ok :: "('d hash_elem \<Rightarrow> bool) \<Rightarrow> 'd hash_elem list \<Rightarrow> ht_bucket \<Rightarrow> bool" where
  "bucket_ok P xs b \<longleftrightarrow> b_count b = length (filter P xs) \<and> grouped P xs
     \<and> (filter P xs \<noteq> [] \<longrightarrow> b_chain b = Some (e_addr (hd (filter P xs))))"

definition in_slot :: "nat \<Rightarrow> nat \<Rightarrow> 'd hash_elem \<Rightarrow> bool" where
  "in_slot n k e \<longleftrightarrow> unat (e_h e) mod n = k"

definition addrs :: "'d hash_elem list \<Rightarrow> nat set" where "addrs xs = e_addr ` set xs"

definition table_ok :: "nat \<Rightarrow> ht_bucket list \<Rightarrow> 'd hash_elem list \<Rightarrow> bool" where
  "table_ok n bs xs \<longleftrightarrow> length bs = n \<and> 0 < n \<and> distinct (map e_addr xs)
     \<and> (\<forall>k<n. bucket_ok (in_slot n k) xs (bs ! k))"

definition elems_ok :: "'d hash_elem list \<Rightarrow> bool" where
  "elems_ok xs \<longleftrightarrow> distinct (map e_addr xs) \<and> distinct (map (\<lambda>e. lower (e_pKey e)) xs)
     \<and> (\<forall>e\<in>set xs. cstr (e_pKey e) \<and> e_h e = strHash (e_pKey e))"

definition hash_ok :: "'d hash \<Rightarrow> bool" where
  "hash_ok pH \<longleftrightarrow> elems_ok (hfirst pH) \<and> hcount pH = length (hfirst pH)
     \<and> (case ht pH of None \<Rightarrow> htsize pH = 0 | Some bs \<Rightarrow> table_ok (htsize pH) bs (hfirst pH))"

lemma at_elem_split:
  assumes "distinct (map e_addr xs)" and "xs = A @ e # B"
  shows "at_elem (e_addr e) xs = e # B" and "takeWhile (\<lambda>x. e_addr x \<noteq> e_addr e) xs = A"
proof -
  have "e_addr e \<notin> e_addr ` set A" using assms by simp
  then have n: "\<And>x. x \<in> set A \<Longrightarrow> e_addr x \<noteq> e_addr e" by (metis imageI)
  show "at_elem (e_addr e) xs = e # B" "takeWhile (\<lambda>x. e_addr x \<noteq> e_addr e) xs = A"
    unfolding assms(2) at_elem_def
    using dropWhile_append2 [of A "\<lambda>x. e_addr x \<noteq> e_addr e" "e # B"]
      takeWhile_append2 [of A "\<lambda>x. e_addr x \<noteq> e_addr e" "e # B"] n by auto
qed

lemma filter_first:
  assumes "filter P xs \<noteq> []"
  obtains A B where "xs = A @ hd (filter P xs) # B" and "list_all (\<lambda>x. \<not> P x) A" and "P (hd (filter P xs))"
proof -
  obtain e r where f: "filter P xs = e # r" using assms by (cases "filter P xs") auto
  then obtain A B where "xs = A @ e # B" "\<forall>x\<in>set A. \<not> P x" "P e" by (auto simp: filter_eq_Cons_iff)
  then show ?thesis using f that [of A B] by (auto simp: list_all_iff)
qed

lemma first_is_drop:
  assumes "distinct (map e_addr xs)" and "filter P xs \<noteq> []"
  shows "at_elem (e_addr (hd (filter P xs))) xs = dropWhile (\<lambda>x. \<not> P x) xs"
proof -
  obtain A B where ab: "xs = A @ hd (filter P xs) # B" "list_all (\<lambda>x. \<not> P x) A" "P (hd (filter P xs))"
    using filter_first [OF assms(2)] .
  have "dropWhile (\<lambda>x. \<not> P x) (A @ e # B) = e # B" if "P e" for e
    using ab(2) that by (induction A) auto
  then show ?thesis using at_elem_split(1) [OF assms(1) ab(1)] ab(1,3) by metis
qed

lemma bucket_walk:
  assumes "distinct (map e_addr xs)" and "bucket_ok P xs b"
  shows "take (b_count b) (case b_chain b of None \<Rightarrow> [] | Some a \<Rightarrow> at_elem a xs) = filter P xs"
proof (cases "filter P xs = []")
  case True
  then show ?thesis using assms(2) by (simp add: bucket_ok_def)
next
  case False
  then show ?thesis
    using assms(2) first_is_drop [OF assms(1) False] grouped_take [of P xs] by (simp add: bucket_ok_def)
qed

section \<open>Insertion\<close>

lemma bucket_other:
  assumes "bucket_ok Q (A @ B) b" and "\<not> Q n" and "B = [] \<or> \<not> Q (hd B) \<or> A = []"
  shows "bucket_ok Q (A @ n # B) b"
proof -
  have "grouped Q (A @ n # B)"
  proof (cases "A = []")
    case True
    then show ?thesis using assms by (simp add: bucket_ok_def)
  next
    case False
    have "grouped Q (A @ [n])" if "grouped Q A"
      using that assms(2) by (induction A) (auto simp: list_all_iff dropWhile_append)
    then show ?thesis using assms False grouped_insert [of Q A "hd B" "tl B" n]
      by (cases B) (auto simp: bucket_ok_def)
  qed
  then show ?thesis using assms(1,2) by (simp add: bucket_ok_def)
qed

lemma bucket_own:
  assumes "bucket_ok P (A @ B) b" and "P n" and "list_all (\<lambda>x. \<not> P x) A" and "filter P B = [] \<or> P (hd B) \<and> B \<noteq> []"
  shows "bucket_ok P (A @ n # B) \<lparr>b_count = b_count b + 1, b_chain = Some (e_addr n)\<rparr>"
proof -
  have fa: "filter P A = []" using assms(3) by (simp add: list_all_iff filter_empty_conv)
  have g: "grouped P B" using assms(1,3) by (simp add: bucket_ok_def grouped_none_left)
  have "list_all (\<lambda>y. \<not> P y) (dropWhile P B)"
  proof (cases B)
    case (Cons y ys)
    then show ?thesis using assms(4) g by (auto simp: list_all_iff filter_empty_conv)
  qed simp
  then show ?thesis using assms(1,2,3) fa by (simp add: bucket_ok_def grouped_none_left)
qed

lemma insertElement_ok:
  assumes t: "table_ok (htsize pH) bs (hfirst pH)" "ht pH = Some bs"
    and new: "e_addr e \<notin> addrs (hfirst pH)" and small: "length (hfirst pH) + 1 < 2 ^ 32"
  shows "\<exists>bs' ys. insertElement pH (Some (bucket_of pH (e_h e))) e = pH\<lparr>ht := Some bs', hfirst := ys\<rparr>
    \<and> table_ok (htsize pH) bs' ys \<and> mset ys = add_mset e (mset (hfirst pH))"
proof -
  let ?n = "htsize pH" and ?xs = "hfirst pH"
  define k where "k = bucket_of pH (e_h e)"
  have k: "k < ?n" "k < length bs" "in_slot ?n k e" using t(1) by (auto simp: k_def bucket_of_def in_slot_def table_ok_def)
  have d: "distinct (map e_addr ?xs)" and bk: "\<And>j. j < ?n \<Longrightarrow> bucket_ok (in_slot ?n j) ?xs (bs ! j)"
    using t(1) by (auto simp: table_ok_def)
  define b where "b = \<lparr>b_count = b_count (bs ! k) + 1, b_chain = Some (e_addr e)\<rparr>"
  have "b_count (bs ! k) \<le> length ?xs" using bk [OF k(1)] by (simp add: bucket_ok_def)
  then have cnt: "uint32 (b_count (bs ! k) + 1) = b_count (bs ! k) + 1" using small by simp
  obtain A B where ys: "?xs = A @ B" "list_all (\<lambda>x. \<not> in_slot ?n k x) A"
      "filter (in_slot ?n k) B = [] \<or> in_slot ?n k (hd B) \<and> B \<noteq> []" "B = [] \<or> in_slot ?n k (hd B) \<or> A = []"
      "insertElement pH (Some k) e = pH\<lparr>ht := Some (bs[k := b]), hfirst := A @ e # B\<rparr>"
  proof (cases "filter (in_slot ?n k) ?xs = []")
    case True
    then have "insertElement pH (Some k) e = pH\<lparr>ht := Some (bs[k := b]), hfirst := [] @ e # ?xs\<rparr>"
      using bk [OF k(1)] cnt by (simp add: insertElement_def t(2) b_def bucket_ok_def Let_def)
    then show ?thesis using that [of "[]" ?xs] True by simp
  next
    case False
    obtain A B where ab: "?xs = A @ hd (filter (in_slot ?n k) ?xs) # B" "list_all (\<lambda>x. \<not> in_slot ?n k x) A"
        "in_slot ?n k (hd (filter (in_slot ?n k) ?xs))"
      using filter_first [OF False] .
    let ?f = "hd (filter (in_slot ?n k) ?xs)"
    have "link_before (e_addr ?f) e ?xs = A @ e # ?f # B"
      using at_elem_split [OF d ab(1)] by (simp add: link_before_def)
    then have "insertElement pH (Some k) e = pH\<lparr>ht := Some (bs[k := b]), hfirst := A @ e # ?f # B\<rparr>"
      using bk [OF k(1)] False unfolding insertElement_def t(2) b_def option.case option.sel Let_def cnt by (simp add: bucket_ok_def)
    then show ?thesis using that [of A "?f # B"] ab by simp
  qed
  have "bucket_ok (in_slot ?n j) (A @ e # B) (bs[k := b] ! j)" if "j < ?n" for j
  proof (cases "j = k")
    case True
    then show ?thesis using bucket_own [OF bk [OF k(1), unfolded ys(1)] k(3) ys(2,3)] k(2) by (simp add: b_def)
  next
    case False
    then have "\<not> in_slot ?n j e" "B = [] \<or> \<not> in_slot ?n j (hd B) \<or> A = []"
      using k(3) ys(4) by (auto simp: in_slot_def)
    then show ?thesis using bucket_other [OF bk [OF that, unfolded ys(1)]] False by simp
  qed
  moreover have "distinct (map e_addr (A @ e # B))" using d new ys(1) by (auto simp: addrs_def)
  ultimately have "table_ok ?n (bs[k := b]) (A @ e # B)" using t(1) by (simp add: table_ok_def)
  moreover have "mset (A @ e # B) = add_mset e (mset ?xs)" by (simp add: ys(1))
  ultimately show ?thesis using ys(5) unfolding k_def [symmetric] by blast
qed

section \<open>Rehashing\<close>

text \<open>The allocator: it refuses empty requests and returns at least the size asked for, below 2 GB.\<close>

definition malloc_ok :: "(nat \<Rightarrow> nat option) \<Rightarrow> bool" where
  "malloc_ok malloc \<longleftrightarrow> (\<forall>n m. malloc n = Some m \<longrightarrow> 0 < n \<and> n \<le> m \<and> m < 2 ^ 31)"

definition ht_ok :: "'d hash \<Rightarrow> bool" where
  "ht_ok pH \<longleftrightarrow> (case ht pH of None \<Rightarrow> htsize pH = 0 | Some bs \<Rightarrow> table_ok (htsize pH) bs (hfirst pH))"

lemma refill_ok:
  assumes "ht pH = Some bs" and "table_ok (htsize pH) bs (hfirst pH)" and "distinct (map e_addr ys)"
    and "addrs ys \<inter> addrs (hfirst pH) = {}" and "length ys + length (hfirst pH) < 2 ^ 32"
  shows "\<exists>bs' zs. foldl (\<lambda>pH e. insertElement pH (Some (bucket_of pH (e_h e))) e) pH ys
      = pH\<lparr>ht := Some bs', hfirst := zs\<rparr>
    \<and> table_ok (htsize pH) bs' zs \<and> mset zs = mset ys + mset (hfirst pH)"
  using assms
proof (induction ys arbitrary: pH bs)
  case Nil
  then show ?case by (intro exI [of _ bs] exI [of _ "hfirst pH"]) simp
next
  case (Cons e ys)
  from Cons.prems(4) have new: "e_addr e \<notin> addrs (hfirst pH)" by (auto simp: addrs_def)
  have "length (hfirst pH) + 1 < 2 ^ 32" using Cons.prems(5) by simp
  from insertElement_ok [OF Cons.prems(2,1) new this] obtain b1 zs where i: "insertElement pH (Some (bucket_of pH (e_h e))) e = pH\<lparr>ht := Some b1, hfirst := zs\<rparr>"
      "table_ok (htsize pH) b1 zs" "mset zs = add_mset e (mset (hfirst pH))"
    by blast
  from i(3) have z: "set zs = insert e (set (hfirst pH))" "length zs = Suc (length (hfirst pH))"
    using mset_eq_setD [of zs "e # hfirst pH"] mset_eq_length [of zs "e # hfirst pH"] by auto
  have "addrs ys \<inter> addrs zs = {}" using Cons.prems(3,4) z(1) by (auto simp: addrs_def)
  then have "\<exists>bs' ws. foldl (\<lambda>pH e. insertElement pH (Some (bucket_of pH (e_h e))) e) (pH\<lparr>ht := Some b1, hfirst := zs\<rparr>) ys
      = pH\<lparr>ht := Some bs', hfirst := ws\<rparr> \<and> table_ok (htsize pH) bs' ws \<and> mset ws = mset ys + mset zs"
    using Cons.IH [of "pH\<lparr>ht := Some b1, hfirst := zs\<rparr>" b1] i(2) Cons.prems(3,5) z(2) by simp
  then show ?case using i(1,3) by auto
qed

lemma rehash_ok:
  assumes "ht_ok pH" and "malloc_ok malloc" and "distinct (map e_addr (hfirst pH))" and "length (hfirst pH) < 2 ^ 32"
  shows "\<exists>n t xs. snd (rehash malloc pH sz) = pH\<lparr>htsize := n, ht := t, hfirst := xs\<rparr>
    \<and> ht_ok (pH\<lparr>htsize := n, ht := t, hfirst := xs\<rparr>) \<and> mset xs = mset (hfirst pH)"
proof -
  have same: "\<exists>n t xs. pH = pH\<lparr>htsize := n, ht := t, hfirst := xs\<rparr>
    \<and> ht_ok (pH\<lparr>htsize := n, ht := t, hfirst := xs\<rparr>) \<and> mset xs = mset (hfirst pH)"
    using assms(1) by (intro exI [of _ "htsize pH"] exI [of _ "ht pH"] exI [of _ "hfirst pH"]) simp
  define n where "n = (if sz * sizeof_ht > SQLITE_MALLOC_SOFT_LIMIT
      then SQLITE_MALLOC_SOFT_LIMIT div sizeof_ht else sz)"
  show ?thesis
  proof (cases "n = htsize pH \<or> malloc (n * sizeof_ht) = None")
    case True
    then have "snd (rehash malloc pH sz) = pH" by (auto simp: rehash_def n_def Let_def)
    then show ?thesis using same by simp
  next
    case False
    then obtain u where u: "malloc (n * sizeof_ht) = Some u" by auto
    define m where "m = uint32 (u div sizeof_ht)"
    have b: "0 < n * sizeof_ht" "n * sizeof_ht \<le> u" "u < 2 ^ 31" using assms(2) u unfolding malloc_ok_def by blast+
    then have m: "m = u div 16" "0 < m" by (auto simp: m_def sizeof_ht_def)
    define empty where "empty = pH\<lparr>htsize := m, ht := Some (replicate m \<lparr>b_count = 0, b_chain = None\<rparr>), hfirst := []\<rparr>"
    have "table_ok m (replicate m \<lparr>b_count = 0, b_chain = None\<rparr>) []" using m(2) by (simp add: table_ok_def bucket_ok_def)
    then obtain bs zs where f: "foldl (\<lambda>pH e. insertElement pH (Some (bucket_of pH (e_h e))) e) empty (hfirst pH)
        = empty\<lparr>ht := Some bs, hfirst := zs\<rparr>" "table_ok m bs zs" "mset zs = mset (hfirst pH)"
      using refill_ok [of empty "replicate m \<lparr>b_count = 0, b_chain = None\<rparr>" "hfirst pH"] assms(3,4)
      by (auto simp: empty_def addrs_def)
    have "snd (rehash malloc pH sz) = empty\<lparr>ht := Some bs, hfirst := zs\<rparr>"
      using False u f(1) unfolding rehash_def n_def [symmetric] Let_def empty_def m_def by (simp add: n_def)
    then show ?thesis using f(2,3)
      by (intro exI [of _ m] exI [of _ "Some bs"] exI [of _ zs]) (simp add: empty_def ht_ok_def)
  qed
qed

section \<open>Lookup\<close>

lemma hash_mask: "\<forall>k\<in>set [65..<91]. 223 AND (k + 32 :: nat) = 223 AND k"
  by code_simp

lemma hash_mask_lower: "0xdf AND (ucast c :: u32) = 0xdf AND word_of_int (UpperToLower c)"
proof (cases "65 \<le> unat c \<and> unat c \<le> 90")
  case True
  then have "unat c \<in> set [65..<91]" unfolding set_upt atLeastLessThan_iff by linarith
  then have "223 AND (unat c + 32) = 223 AND unat c" by (rule bspec [OF hash_mask])
  then have "of_nat (223 AND (unat c + 32)) = (of_nat (223 AND unat c) :: u32)" by simp
  then have "0xdf AND (of_nat (unat c + 32) :: u32) = 0xdf AND of_nat (unat c)" by (simp only: of_nat_and_eq of_nat_numeral)
  then show ?thesis using True by (simp add: UpperToLower_eq)
next
  case False
  then have "UpperToLower c = int (unat c)" unfolding UpperToLower_eq by (rule if_not_P)
  then show ?thesis by simp
qed

lemma strHash_lower: "lower a = lower b \<Longrightarrow> strHash a = strHash b"
proof -
  have "strHash z = foldl (\<lambda>h i. (h + (0xdf AND word_of_int i)) * 0x9e3779b1) 0 (lower z)" for z
    by (simp add: strHash_def lower_def foldl_map hash_mask_lower)
  then show "lower a = lower b \<Longrightarrow> strHash a = strHash b" by simp
qed

lemma find_loop_find:
  "find_loop h key n xs = find (\<lambda>e. h = e_h e \<and> sqlite3StrICmp (e_pKey e) key = 0) (take n xs)"
  by (induction h key n xs rule: find_loop.induct) auto

lemma find_filter: "(\<And>x. x \<in> set xs \<Longrightarrow> Q x \<Longrightarrow> P x) \<Longrightarrow> find Q (filter P xs) = find Q xs"
  by (induction xs) auto

lemma findElement_correct:
  assumes "hash_ok pH" and "cstr pKey"
  shows "findElementWithHash pH pKey = (find (\<lambda>e. lower (e_pKey e) = lower pKey) (hfirst pH), strHash pKey)"
proof -
  have e: "strHash pKey = e_h e \<and> sqlite3StrICmp (e_pKey e) pKey = 0 \<longleftrightarrow> lower (e_pKey e) = lower pKey"
    if "e \<in> set (hfirst pH)" for e
    using that assms StrICmp_zero [of "e_pKey e" pKey] strHash_lower [of "e_pKey e" pKey]
    by (auto simp: hash_ok_def elems_ok_def)
  then have c: "find (\<lambda>e. strHash pKey = e_h e \<and> sqlite3StrICmp (e_pKey e) pKey = 0) (hfirst pH)
      = find (\<lambda>e. lower (e_pKey e) = lower pKey) (hfirst pH)" by (intro find_cong) auto
  show ?thesis
  proof (cases "ht pH")
    case None
    then show ?thesis using assms(1) c by (simp add: findElementWithHash_def Let_def find_loop_find hash_ok_def)
  next
    case (Some bs)
    then have t: "table_ok (htsize pH) bs (hfirst pH)" using assms(1) by (simp add: hash_ok_def)
    define k where "k = bucket_of pH (strHash pKey)"
    have "k < htsize pH" using t by (simp add: k_def bucket_of_def table_ok_def)
    then have "take (b_count (bs ! k)) (case b_chain (bs ! k) of None \<Rightarrow> [] | Some a \<Rightarrow> at_elem a (hfirst pH))
        = filter (in_slot (htsize pH) k) (hfirst pH)"
      using t by (intro bucket_walk) (auto simp: table_ok_def)
    moreover have "find (\<lambda>e. strHash pKey = e_h e \<and> sqlite3StrICmp (e_pKey e) pKey = 0)
          (filter (in_slot (htsize pH) k) (hfirst pH))
        = find (\<lambda>e. lower (e_pKey e) = lower pKey) (hfirst pH)"
      unfolding c [symmetric] by (rule find_filter) (auto simp: in_slot_def k_def bucket_of_def)
    ultimately show ?thesis using Some
      by (simp add: findElementWithHash_def Let_def find_loop_find k_def)
  qed
qed

section \<open>Removal\<close>

lemma bucket_other_removed:
  "bucket_ok Q (A @ e # B) b \<Longrightarrow> \<not> Q e \<Longrightarrow> bucket_ok Q (A @ B) b"
  using grouped_remove [of Q A e B] by (simp add: bucket_ok_def)

lemma own_rest:
  assumes "bucket_ok P (A @ e # B) b" and "P e" and "filter P A = []" and "filter P B \<noteq> []"
  shows "\<exists>y ys. B = y # ys \<and> P y"
proof -
  have none: "filter P xs = [] \<longleftrightarrow> list_all (\<lambda>x. \<not> P x) xs" for xs
    by (simp only: list_all_iff filter_empty_conv)
  then have "list_all (\<lambda>y. \<not> P y) (dropWhile P B)"
    using assms(1,2,3) by (simp add: bucket_ok_def grouped_none_left)
  moreover from assms(4) obtain y ys where B: "B = y # ys" by (cases B) auto
  ultimately have "P y" using assms(4) none [of B] by (cases "P y") auto
  then show ?thesis using B by blast
qed

lemma bucket_own_removed:
  assumes "bucket_ok P (A @ e # B) b" and "P e" and "distinct (map e_addr (A @ e # B))"
    and ch: "ch = (if b_chain b = Some (e_addr e) then (case B of [] \<Rightarrow> None | y # _ \<Rightarrow> Some (e_addr y)) else b_chain b)"
  shows "bucket_ok P (A @ B) \<lparr>b_count = b_count b - 1, b_chain = ch\<rparr>"
proof -
  have g: "grouped P (A @ B)" using assms(1) grouped_remove [of P A e B] by (simp add: bucket_ok_def)
  have c: "b_count b - 1 = length (filter P (A @ B))" using assms(1,2) by (simp add: bucket_ok_def)
  have "ch = Some (e_addr (hd (filter P (A @ B))))" if ne: "filter P (A @ B) \<noteq> []"
  proof (cases "filter P A = []")
    case True
    then have "b_chain b = Some (e_addr e)" using assms(1,2) by (simp add: bucket_ok_def)
    moreover have "filter P B \<noteq> []" using ne True by simp
    then obtain y ys where "B = y # ys" "P y" using own_rest [OF assms(1,2) True] by blast
    ultimately show ?thesis using True by (simp add: ch)
  next
    case False
    then obtain f fs where f: "filter P A = f # fs" by (cases "filter P A") auto
    then have "f \<in> set (filter P A)" by simp
    then have "f \<in> set A" by simp
    moreover have "e_addr e \<notin> e_addr ` set A" using assms(3) by simp
    ultimately have "e_addr f \<noteq> e_addr e" by (metis imageI)
    moreover have "b_chain b = Some (e_addr f)" using assms(1) f by (simp add: bucket_ok_def)
    ultimately show ?thesis using f by (simp add: ch)
  qed
  with g c show ?thesis unfolding bucket_ok_def by simp
qed

lemma removeElement_correct:
  assumes "hash_ok pH" and "e \<in> set (hfirst pH)"
  shows "hash_ok (removeElement pH e) \<and> mset (hfirst (removeElement pH e)) = mset (hfirst pH) - {#e#}"
proof -
  obtain A B where ab: "hfirst pH = A @ e # B" using assms(2) by (meson split_list)
  have d: "distinct (map e_addr (hfirst pH))" using assms(1) by (simp add: hash_ok_def elems_ok_def)
  have u: "unlink (e_addr e) (hfirst pH) = A @ B"
      "next_elem (e_addr e) (hfirst pH) = (case B of [] \<Rightarrow> None | y # _ \<Rightarrow> Some (e_addr y))"
    using at_elem_split [OF d ab] by (simp_all add: unlink_def next_elem_def)
  have el: "elems_ok (A @ B)" "hcount pH = Suc (length (A @ B))"
    using assms(1) ab by (auto simp: hash_ok_def elems_ok_def)
  show ?thesis
  proof (cases "A @ B = []")
    case True
    then have "removeElement pH e = sqlite3HashClear pH"
      using el by (auto simp: removeElement_def Let_def sqlite3HashClear_def)
    then show ?thesis using True ab by (simp add: hash_ok_def elems_ok_def sqlite3HashClear_def)
  next
    case False
    show ?thesis
    proof (cases "ht pH")
      case None
      then show ?thesis using assms(1) False el ab u
        by (auto simp: removeElement_def Let_def hash_ok_def)
    next
      case (Some bs)
      define n where "n = htsize pH"
      define k where "k = bucket_of pH (e_h e)"
      define b where "b = \<lparr>b_count = b_count (bs ! k) - 1,
        b_chain = (if b_chain (bs ! k) = Some (e_addr e) then (case B of [] \<Rightarrow> None | y # _ \<Rightarrow> Some (e_addr y)) else b_chain (bs ! k))\<rparr>"
      have t: "table_ok n bs (A @ e # B)" using assms(1) Some ab by (simp add: hash_ok_def n_def)
      then have k: "k < n" "k < length bs" "in_slot n k e" by (auto simp: table_ok_def k_def bucket_of_def n_def in_slot_def)
      have "bucket_ok (in_slot n j) (A @ B) (bs[k := b] ! j)" if "j < n" for j
      proof (cases "j = k")
        case True
        then show ?thesis using t k d ab bucket_own_removed [of "in_slot n k" A e B "bs ! k", OF _ _ _ refl]
          by (simp add: table_ok_def b_def)
      next
        case False
        then have "\<not> in_slot n j e" using k(3) by (simp add: in_slot_def)
        then show ?thesis using t that False bucket_other_removed [of "in_slot n j" A e B "bs ! j"]
          by (simp add: table_ok_def)
      qed
      then have "table_ok n (bs[k := b]) (A @ B)" using t by (auto simp: table_ok_def)
      moreover have "removeElement pH e = pH\<lparr>hfirst := A @ B, ht := Some (bs[k := b]), hcount := length (A @ B)\<rparr>"
        using Some u el(2) False by (auto simp: removeElement_def Let_def k_def b_def)
      ultimately show ?thesis using el(1) ab by (simp add: hash_ok_def n_def)
    qed
  qed
qed

section \<open>The table as a map\<close>

definition table_map :: "'d hash \<Rightarrow> int list \<Rightarrow> 'd option" where
  "table_map pH = map_of (map (\<lambda>e. (lower (e_pKey e), e_data e)) (hfirst pH))"

lemma option_ext: "(\<And>v. a = Some v \<longleftrightarrow> b = Some v) \<Longrightarrow> a = b"
  by (cases a; cases b) auto

lemma table_map_eq:
  assumes "elems_ok (hfirst pH)" 
  shows "table_map pH k = Some d \<longleftrightarrow> (\<exists>e\<in>set (hfirst pH). lower (e_pKey e) = k \<and> e_data e = d)"
proof -
  have "distinct (map fst (map (\<lambda>e. (lower (e_pKey e), e_data e)) (hfirst pH)))"
    using assms by (simp add: elems_ok_def comp_def)
  then show ?thesis by (auto simp: table_map_def map_of_eq_Some_iff)
qed

lemma find_table_map:
  "map_option e_data (find (\<lambda>e. lower (e_pKey e) = k) xs) = map_of (map (\<lambda>e. (lower (e_pKey e), e_data e)) xs) k"
  by (induction xs) auto

lemma elems_ok_mset: "mset xs = mset ys \<Longrightarrow> elems_ok xs \<Longrightarrow> elems_ok ys"
proof -
  assume m: "mset xs = mset ys" and "elems_ok xs"
  have "mset (map e_addr xs) = mset (map e_addr ys)" using m by simp
  then have "distinct (map e_addr xs) = distinct (map e_addr ys)" by (rule mset_eq_imp_distinct_iff)
  moreover have "mset (map (\<lambda>e. lower (e_pKey e)) xs) = mset (map (\<lambda>e. lower (e_pKey e)) ys)" using m by simp
  then have "distinct (map (\<lambda>e. lower (e_pKey e)) xs) = distinct (map (\<lambda>e. lower (e_pKey e)) ys)"
    by (rule mset_eq_imp_distinct_iff)
  ultimately show "elems_ok ys" using \<open>elems_ok xs\<close> mset_eq_setD [OF m] by (simp add: elems_ok_def)
qed

lemma grouped_map: "(\<And>x. P (f x) = P x) \<Longrightarrow> grouped P (map f xs) = grouped P xs"
  by (induction xs) (auto simp: dropWhile_map comp_def list_all_iff)

lemma table_ok_map:
  fixes f :: "'d hash_elem \<Rightarrow> 'd hash_elem"
  assumes "table_ok n bs xs" and "\<And>e. e_h (f e) = e_h e" and "\<And>e. e_addr (f e) = e_addr e"
  shows "table_ok n bs (map f xs)"
proof -
  have p: "in_slot n k (f e) = in_slot n k e" for k e by (simp add: in_slot_def assms(2))
  have "bucket_ok (in_slot n k) (map f xs) b" if "bucket_ok (in_slot n k) xs b" for k b
    using that grouped_map [of "in_slot n k" f xs] p
    by (auto simp: bucket_ok_def filter_map comp_def hd_map assms(3))
  moreover have a: "map e_addr (map f xs) = map e_addr xs" using assms(3) by simp
  ultimately show ?thesis using assms(1) unfolding table_ok_def a by simp
qed

lemma image_replace: "e \<in> S \<Longrightarrow> (\<lambda>x. if x = e then c else x) ` S = insert c (S - {e})"
  by (auto simp: image_iff)

lemma replaced_lookup:
  assumes "\<And>x. x \<in> S \<Longrightarrow> lower (e_pKey x) = lower key \<Longrightarrow> x = e" and "lower (e_pKey e) = lower key"
    and "\<And>v. m k = Some v \<longleftrightarrow> (\<exists>x\<in>S. lower (e_pKey x) = k \<and> e_data x = v)"
  shows "(\<exists>x\<in>insert (e\<lparr>e_data := d, e_pKey := key\<rparr>) (S - {e}). lower (e_pKey x) = k \<and> e_data x = v)
    \<longleftrightarrow> (m(lower key \<mapsto> d)) k = Some v"
proof (cases "k = lower key")
  case True
  then show ?thesis using assms(1) by auto
next
  case False
  then show ?thesis using assms(2,3) by auto
qed

lemma set_elem_correct:
  assumes "hash_ok pH" and e: "e \<in> set (hfirst pH)" and "lower (e_pKey e) = lower pKey" and "cstr pKey"
  shows "hash_ok (pH\<lparr>hfirst := set_elem (e_addr e) d pKey (hfirst pH)\<rparr>)
    \<and> table_map (pH\<lparr>hfirst := set_elem (e_addr e) d pKey (hfirst pH)\<rparr>) = (table_map pH)(lower pKey \<mapsto> d)"
proof -
  let ?f = "\<lambda>x. if e_addr x = e_addr e then x\<lparr>e_data := d, e_pKey := pKey\<rparr> else x"
  have ok: "elems_ok (hfirst pH)" using assms(1) by (simp add: hash_ok_def)
  have same: "x = e" if "x \<in> set (hfirst pH)" "e_addr x = e_addr e \<or> lower (e_pKey x) = lower pKey" for x
    using ok that assms(2,3) by (auto simp: elems_ok_def distinct_map inj_on_def)
  have "lower (e_pKey (?f x)) = lower (e_pKey x)" if "x \<in> set (hfirst pH)" for x
    using same [OF that] assms(3) by (cases "e_addr x = e_addr e") auto
  then have l: "map (\<lambda>e. lower (e_pKey e)) (map ?f (hfirst pH)) = map (\<lambda>e. lower (e_pKey e)) (hfirst pH)"
    by simp
  have a: "map e_addr (map ?f (hfirst pH)) = map e_addr (hfirst pH)" by (auto simp: comp_def)
  have h: "\<forall>x\<in>set (map ?f (hfirst pH)). cstr (e_pKey x) \<and> e_h x = strHash (e_pKey x)"
    using ok assms(4) e strHash_lower [OF assms(3)] same by (auto simp: elems_ok_def split: if_splits) (metis+)
  have ok': "elems_ok (map ?f (hfirst pH))" unfolding elems_ok_def l a using ok h by (simp add: elems_ok_def)
  have "case ht pH of None \<Rightarrow> htsize pH = 0 | Some bs \<Rightarrow> table_ok (htsize pH) bs (map ?f (hfirst pH))"
    using assms(1) by (auto simp: hash_ok_def intro!: table_ok_map split: option.splits)
  then have "hash_ok (pH\<lparr>hfirst := map ?f (hfirst pH)\<rparr>)" using assms(1) ok' by (simp add: hash_ok_def split: option.splits)
  moreover have st: "set (map ?f (hfirst pH)) = insert (e\<lparr>e_data := d, e_pKey := pKey\<rparr>) (set (hfirst pH) - {e})"
  proof -
    have "?f x = (if x = e then e\<lparr>e_data := d, e_pKey := pKey\<rparr> else x)" if "x \<in> set (hfirst pH)" for x
      using same [OF that] by auto
    then have "?f ` set (hfirst pH) = (\<lambda>x. if x = e then e\<lparr>e_data := d, e_pKey := pKey\<rparr> else x) ` set (hfirst pH)"
      by (rule image_cong [OF refl])
    then show ?thesis by (simp only: list.set_map image_replace [OF e])
  qed
  moreover have "table_map (pH\<lparr>hfirst := map ?f (hfirst pH)\<rparr>) k = ((table_map pH)(lower pKey \<mapsto> d)) k" for k
  proof -
    have "table_map (pH\<lparr>hfirst := map ?f (hfirst pH)\<rparr>) k = Some v \<longleftrightarrow> ((table_map pH)(lower pKey \<mapsto> d)) k = Some v" for v
    proof -
      have "table_map (pH\<lparr>hfirst := map ?f (hfirst pH)\<rparr>) k = Some v
          \<longleftrightarrow> (\<exists>x\<in>insert (e\<lparr>e_data := d, e_pKey := pKey\<rparr>) (set (hfirst pH) - {e}). lower (e_pKey x) = k \<and> e_data x = v)"
        using table_map_eq [of "pH\<lparr>hfirst := map ?f (hfirst pH)\<rparr>" k v] ok' unfolding st [symmetric] by simp
      also have "\<dots> \<longleftrightarrow> ((table_map pH)(lower pKey \<mapsto> d)) k = Some v"
        by (rule replaced_lookup [OF _ assms(3)]) (use same in blast, rule table_map_eq [OF ok])
      finally show ?thesis .
    qed
    then show ?thesis by (rule option_ext)
  qed
  ultimately show ?thesis unfolding set_elem_def by blast
qed

lemma remove_map:
  assumes "hash_ok pH" and "e \<in> set (hfirst pH)"
  shows "table_map (removeElement pH e) = (table_map pH)(lower (e_pKey e) := None)"
proof
  fix k
  note r = removeElement_correct [OF assms]
  have ok: "elems_ok (hfirst pH)" "elems_ok (hfirst (removeElement pH e))" using assms(1) r by (auto simp: hash_ok_def)
  have d: "distinct (hfirst pH)" using ok(1) by (simp add: elems_ok_def distinct_map)
  have s: "set (hfirst (removeElement pH e)) = set (hfirst pH) - {e}"
  proof -
    have "mset (hfirst (removeElement pH e)) = mset (remove1 e (hfirst pH))" using r by simp
    then have "set (hfirst (removeElement pH e)) = set (remove1 e (hfirst pH))" by (rule mset_eq_setD)
    then show ?thesis using d by (simp add: set_remove1_eq)
  qed
  have same: "x = e" if "x \<in> set (hfirst pH)" "lower (e_pKey x) = lower (e_pKey e)" for x
    using ok(1) that assms(2) by (auto simp: elems_ok_def distinct_map inj_on_def)
  have "table_map (removeElement pH e) k = Some v \<longleftrightarrow> ((table_map pH)(lower (e_pKey e) := None)) k = Some v" for v
    using table_map_eq [OF ok(2), of k v] table_map_eq [OF ok(1), of k v] s same by auto
  then show "table_map (removeElement pH e) k = ((table_map pH)(lower (e_pKey e) := None)) k" by (rule option_ext)
qed

lemma insertElement_hash:
  assumes "ht_ok pH" and "elems_ok (hfirst pH)" and "e_addr e \<notin> addrs (hfirst pH)" and "length (hfirst pH) + 1 < 2 ^ 32"
  shows "\<exists>t ys. insertElement pH (case ht pH of None \<Rightarrow> None | Some _ \<Rightarrow> Some (bucket_of pH (e_h e))) e
      = pH\<lparr>ht := t, hfirst := ys\<rparr> \<and> ht_ok (pH\<lparr>ht := t, hfirst := ys\<rparr>) \<and> mset ys = add_mset e (mset (hfirst pH))"
proof (cases "ht pH")
  case None
  then show ?thesis using assms(1)
    by (intro exI [of _ "ht pH"] exI [of _ "e # hfirst pH"]) (simp add: insertElement_def ht_ok_def)
next
  case (Some bs)
  then have "table_ok (htsize pH) bs (hfirst pH)" using assms(1) by (simp add: ht_ok_def)
  from insertElement_ok [OF this Some assms(3,4)] obtain bs' ys where
      "insertElement pH (Some (bucket_of pH (e_h e))) e = pH\<lparr>ht := Some bs', hfirst := ys\<rparr>"
      "table_ok (htsize pH) bs' ys" "mset ys = add_mset e (mset (hfirst pH))" by blast
  then show ?thesis using Some by (intro exI [of _ "Some bs'"] exI [of _ ys]) (simp add: ht_ok_def)
qed

section \<open>The contract of a symbol table\<close>

text \<open>A run of updates, and that each of them has what it draws on.\<close>

fun run_updates :: "('r \<Rightarrow> 's \<Rightarrow> bytes \<Rightarrow> 'd option \<Rightarrow> 'd option \<times> 's) \<Rightarrow> 's \<Rightarrow> ('r \<times> bytes \<times> 'd option) list \<Rightarrow> 's" where
  "run_updates upd s [] = s"
| "run_updates upd s ((r, k, d) # us) = run_updates upd (snd (upd r s k d)) us"

fun room_for :: "('r \<Rightarrow> 's \<Rightarrow> bool) \<Rightarrow> ('r \<Rightarrow> 's \<Rightarrow> bytes \<Rightarrow> 'd option \<Rightarrow> 'd option \<times> 's) \<Rightarrow> 's
    \<Rightarrow> ('r \<times> bytes \<times> 'd option) list \<Rightarrow> bool" where
  "room_for room upd s [] = True"
| "room_for room upd s ((r, k, d) # us) = (room r s \<and> cstr k \<and> room_for room upd (snd (upd r s k d)) us)"

text \<open>
  A finite map on names up to case.  \<open>upd\<close> stores or, without data, deletes; it returns the previous data.
  \<open>res\<close> is what an operation draws on, \<open>room\<close> says that it suffices.
\<close>

locale symbol_table =
  fixes find :: "'s \<Rightarrow> bytes \<Rightarrow> 'd option"
    and upd :: "'r \<Rightarrow> 's \<Rightarrow> bytes \<Rightarrow> 'd option \<Rightarrow> 'd option \<times> 's"
    and content :: "'s \<Rightarrow> int list \<Rightarrow> 'd option"
    and ok :: "'s \<Rightarrow> bool"
    and room :: "'r \<Rightarrow> 's \<Rightarrow> bool"
  assumes find_law: "ok s \<Longrightarrow> cstr k \<Longrightarrow> find s k = content s (lower k)"
    and upd_law: "ok s \<Longrightarrow> room r s \<Longrightarrow> cstr k \<Longrightarrow> upd r s k d = (v, s') \<Longrightarrow>
      ok s' \<and> v = content s (lower k) \<and> content s' = (content s)(lower k := d)"
begin

lemma find_after:
  assumes "ok s" and "room r s" and "cstr k" and "cstr k'"
  shows "find (snd (upd r s k d)) k' = (if sqlite3StrICmp k k' = 0 then d else find s k')"
proof -
  obtain v s' where u: "upd r s k d = (v, s')" by fastforce
  note l = upd_law [OF assms(1-3) u]
  then have "find s' k' = content s' (lower k')" using find_law assms(4) by blast
  then show ?thesis using l u find_law [OF assms(1,4)] StrICmp_zero [OF assms(3,4)] by simp
qed

lemma previous:
  assumes "ok s" and "room r s" and "cstr k"
  shows "fst (upd r s k d) = find s k \<and> ok (snd (upd r s k d))"
  using upd_law [OF assms, of d] find_law [OF assms(1,3)] by (metis prod.collapse)

lemma updates_content:
  "ok s \<Longrightarrow> room_for room upd s us \<Longrightarrow>
     ok (run_updates upd s us) \<and> content (run_updates upd s us) = foldl (\<lambda>m (r, k, d). m(lower k := d)) (content s) us"
proof (induction us arbitrary: s)
  case (Cons u us)
  obtain r k d where u: "u = (r, k, d)" by (cases u) auto
  obtain v s' where s': "upd r s k d = (v, s')" by fastforce
  then have "ok s' \<and> content s' = (content s)(lower k := d)" using upd_law [of s r k d v s'] Cons.prems by (simp add: u)
  then show ?case using Cons.IH [of s'] Cons.prems by (simp add: u s')
qed simp

end

section \<open>The hash table provides it\<close>

definition hash_insert :: "(nat \<Rightarrow> nat option) \<times> nat \<Rightarrow> 'd hash \<Rightarrow> bytes \<Rightarrow> 'd option \<Rightarrow> 'd option \<times> 'd hash" where
  "hash_insert r pH pKey data = sqlite3HashInsert (fst r) (Some (snd r)) pH pKey data"

definition hash_room :: "(nat \<Rightarrow> nat option) \<times> nat \<Rightarrow> 'd hash \<Rightarrow> bool" where
  "hash_room r pH \<longleftrightarrow> malloc_ok (fst r) \<and> snd r \<notin> addrs (hfirst pH) \<and> length (hfirst pH) + 1 < 2 ^ 32"

lemma find_none_map: "find (\<lambda>e. lower (e_pKey e) = k) (hfirst pH) = None \<Longrightarrow> table_map pH k = None"
  using find_table_map [of k "hfirst pH"] by (simp add: table_map_def)

lemma find_some_map:
  assumes "find (\<lambda>e. lower (e_pKey e) = k) (hfirst pH) = Some e"
  shows "table_map pH k = Some (e_data e)" and "e \<in> set (hfirst pH)" and "lower (e_pKey e) = k"
  using find_table_map [of k "hfirst pH"] assms by (auto simp: table_map_def find_Some_iff)

lemma new_elem_correct:
  assumes "hash_ok pH" and "hash_room (malloc, a) pH" and "cstr pKey"
    and none: "find (\<lambda>e. lower (e_pKey e) = lower pKey) (hfirst pH) = None"
  shows "\<exists>q. sqlite3HashInsert malloc (Some a) pH pKey (Some d) = (None, q) \<and> hash_ok q
    \<and> table_map q = (table_map pH)(lower pKey \<mapsto> d)"
proof -
  let ?e = "\<lparr>e_addr = a, e_data = d, e_pKey = pKey, e_h = strHash pKey\<rparr>"
  have room: "malloc_ok malloc" "a \<notin> addrs (hfirst pH)" "length (hfirst pH) + 1 < 2 ^ 32"
    using assms(2) by (auto simp: hash_room_def)
  have h: "elems_ok (hfirst pH)" "hcount pH = length (hfirst pH)" "ht_ok pH" using assms(1) by (auto simp: hash_ok_def ht_ok_def)
  define p1 where "p1 = pH\<lparr>hcount := length (hfirst pH) + 1\<rparr>"
  have p1: "ht_ok p1" using h(3) by (simp add: p1_def ht_ok_def split: option.splits)
  define p2 where "p2 = (if hcount p1 \<ge> 5 \<and> hcount p1 > uint32 (2 * htsize p1)
      then snd (rehash malloc p1 (uint32 (hcount p1 * 3))) else p1)"
  have "\<exists>n t xs. p2 = p1\<lparr>htsize := n, ht := t, hfirst := xs\<rparr>
      \<and> ht_ok (p1\<lparr>htsize := n, ht := t, hfirst := xs\<rparr>) \<and> mset xs = mset (hfirst p1)"
  proof (cases "hcount p1 \<ge> 5 \<and> hcount p1 > uint32 (2 * htsize p1)")
    case True
    then show ?thesis
      using rehash_ok [OF p1 room(1), of "uint32 (hcount p1 * 3)"] h(1) room(3)
      by (simp add: p2_def p1_def elems_ok_def)
  next
    case False
    then have "p2 = p1" unfolding p2_def by (rule if_not_P)
    then show ?thesis using p1
      by (intro exI [of _ "htsize p1"] exI [of _ "ht p1"] exI [of _ "hfirst p1"]) simp
  qed
  then obtain n t xs where p2: "p2 = p1\<lparr>htsize := n, ht := t, hfirst := xs\<rparr>" "ht_ok p2" "mset xs = mset (hfirst pH)"
    by (auto simp: p1_def)
  have x: "elems_ok xs" "set xs = set (hfirst pH)" "length xs = length (hfirst pH)"
    using elems_ok_mset [OF p2(3) [symmetric] h(1)] mset_eq_setD [OF p2(3)] mset_eq_length [OF p2(3)] by auto
  have f2: "hfirst p2 = xs" "hcount p2 = length xs + 1" using p2(1) x(3) by (simp_all add: p1_def)
  obtain t' ys where q: "insertElement p2 (case ht p2 of None \<Rightarrow> None | Some _ \<Rightarrow> Some (bucket_of p2 (e_h ?e))) ?e
      = p2\<lparr>ht := t', hfirst := ys\<rparr>" "ht_ok (p2\<lparr>ht := t', hfirst := ys\<rparr>)" "mset ys = add_mset ?e (mset xs)"
    using insertElement_hash [OF p2(2), of ?e] x room(2,3) f2 by (auto simp: addrs_def)
  define r where "r = p2\<lparr>ht := t', hfirst := ys\<rparr>"
  have ins: "sqlite3HashInsert malloc (Some a) pH pKey (Some d) = (None, r)"
  proof -
    have fe: "findElementWithHash pH pKey = (None, strHash pKey)"
      using findElement_correct [OF assms(1,3)] none by simp
    have c: "uint32 (hcount pH + 1) = length (hfirst pH) + 1" using room(3) h(2) by simp
    show ?thesis
      unfolding sqlite3HashInsert_def fe prod.case option.case Let_def c p1_def [symmetric] p2_def [symmetric] r_def
      using q(1) by (cases "ht p2") simp_all
  qed
  have ys: "set ys = insert ?e (set (hfirst pH))" "length ys = Suc (length xs)"
    using mset_eq_setD [of ys "?e # xs"] mset_eq_length [of ys "?e # xs"] q(3) x(2) by auto
  have "elems_ok (?e # hfirst pH)"
    using h(1) none assms(3) room(2) by (auto simp: elems_ok_def addrs_def find_None_iff)
  then have ey: "elems_ok ys" using elems_ok_mset [of "?e # hfirst pH" ys] q(3) p2(3) by simp
  have "hash_ok r" using q(2) ey ys(2) f2 by (simp add: r_def hash_ok_def ht_ok_def)
  moreover have "table_map r k = ((table_map pH)(lower pKey \<mapsto> d)) k" for k
  proof -
    have "table_map r k = Some v \<longleftrightarrow> ((table_map pH)(lower pKey \<mapsto> d)) k = Some v" for v
      using table_map_eq [of r k v] table_map_eq [OF h(1), of k v] ey ys(1) none
      by (auto simp: r_def find_None_iff)
    then show ?thesis by (rule option_ext)
  qed
  ultimately show ?thesis using ins by blast
qed

lemma hash_insert_law:
  assumes "hash_ok pH" and "hash_room r pH" and "cstr pKey" and "hash_insert r pH pKey data = (v, q)"
  shows "hash_ok q \<and> v = table_map pH (lower pKey) \<and> table_map q = (table_map pH)(lower pKey := data)"
proof -
  obtain malloc a where r: "r = (malloc, a)" by fastforce
  note f = findElement_correct [OF assms(1,3)]
  note ins = assms(4) [unfolded hash_insert_def sqlite3HashInsert_def f prod.case]
  show ?thesis
  proof (cases "find (\<lambda>e. lower (e_pKey e) = lower pKey) (hfirst pH)")
    case (Some e)
    note e = find_some_map [OF Some]
    show ?thesis
    proof (cases data)
      case None
      then have "v = Some (e_data e)" "q = removeElement pH e" using ins Some by auto
      then show ?thesis using removeElement_correct [OF assms(1) e(2)] remove_map [OF assms(1) e(2)] e None by simp
    next
      case (Some d)
      then have "v = Some (e_data e)" "q = pH\<lparr>hfirst := set_elem (e_addr e) d pKey (hfirst pH)\<rparr>"
        using ins \<open>find _ _ = Some e\<close> by auto
      then show ?thesis using set_elem_correct [OF assms(1) e(2,3) assms(3), of d] e(1) Some by simp
    qed
  next
    case None
    note n = find_none_map [OF None]
    show ?thesis
    proof (cases data)
      case None
      then have "v = None" "q = pH" using ins \<open>find _ _ = None\<close> by auto
      then show ?thesis using n assms(1) None by (simp add: fun_upd_idem)
    next
      case (Some d)
      obtain q' where q': "sqlite3HashInsert malloc (Some a) pH pKey (Some d) = (None, q')" "hash_ok q'"
          "table_map q' = (table_map pH)(lower pKey \<mapsto> d)"
        using new_elem_correct [OF assms(1) assms(2)[unfolded r] assms(3) None, of d] by blast
      then have "v = None" "q = q'" using assms(4) Some by (simp_all add: hash_insert_def r)
      then show ?thesis using q' n Some by simp
    qed
  qed
qed

interpretation table: symbol_table sqlite3HashFind hash_insert table_map hash_ok hash_room
proof unfold_locales
  fix pH :: "'a hash" and k assume "hash_ok pH" "cstr k"
  then show "sqlite3HashFind pH k = table_map pH (lower k)"
    by (simp add: sqlite3HashFind_def findElement_correct find_table_map table_map_def)
qed (rule hash_insert_law)

lemma hash_init: "hash_ok sqlite3HashInit" "table_map sqlite3HashInit = Map.empty"
  by (simp_all add: hash_ok_def elems_ok_def sqlite3HashInit_def table_map_def)

lemma hash_clear: "hash_ok (sqlite3HashClear pH)" "table_map (sqlite3HashClear pH) = Map.empty"
  by (simp_all add: hash_ok_def elems_ok_def sqlite3HashClear_def table_map_def)

section \<open>Properties\<close>

text \<open>C11. From an empty table, any run of insertions, replacements and deletions (whatever sizes the
  allocator gives the bucket array, and whether or not it gives one) leaves a table in which a lookup
  returns the last data stored for the name, letters compared without case, and nothing after a
  deletion.\<close>
theorem hash_table_is_a_map:
  assumes "room_for hash_room hash_insert sqlite3HashInit us" and "cstr pKey"
  shows "sqlite3HashFind (run_updates hash_insert sqlite3HashInit us) pKey
    = foldl (\<lambda>m (r, k, d). m(lower k := d)) Map.empty us (lower pKey)"
proof -
  note u = table.updates_content [OF hash_init(1) assms(1)]
  show ?thesis using table.find_law [OF conjunct1 [OF u] assms(2)] u by (simp add: hash_init(2))
qed

lemma hash_table_is_a_map_witness:
  "sqlite3HashFind (run_updates hash_insert sqlite3HashInit
      [((\<lambda>n. None, 1), [84, 49], Some (5 :: nat)), ((\<lambda>n. None, 2), [116, 49], Some 7)]) [84, 49]
    = Some 7"
proof -
  have room: "room_for hash_room hash_insert sqlite3HashInit
      [((\<lambda>n. None, 1), [84, 49], Some (5 :: nat)), ((\<lambda>n. None, 2), [116, 49], Some 7)]"
    by (simp add: hash_room_def malloc_ok_def hash_insert_def sqlite3HashInsert_def findElementWithHash_def
        sqlite3HashInit_def insertElement_def addrs_def)
  have "cstr [84, 49]" by simp
  from hash_table_is_a_map [OF room this] show ?thesis by (simp add: UpperToLower_eq)
qed

text \<open>C39. \<open>sqlite3HashInsert\<close> keeps the invariant of the table: every bucket owns exactly the elements
  that hash to it, which are neighbours on the list and start where the bucket points; elements are
  distinct and counted.  It returns the data that a lookup gave before.  When no element can be
  allocated for new data it returns that data and leaves the table as it was.\<close>
theorem hash_insert_keeps_table:
  assumes "hash_ok pH" and "cstr pKey" and "malloc_ok malloc" and "length (hfirst pH) + 1 < 2 ^ 32"
  shows "(a \<notin> addrs (hfirst pH) \<longrightarrow>
      hash_ok (snd (sqlite3HashInsert malloc (Some a) pH pKey data))
      \<and> fst (sqlite3HashInsert malloc (Some a) pH pKey data) = sqlite3HashFind pH pKey)
    \<and> (sqlite3HashFind pH pKey = None \<longrightarrow> sqlite3HashInsert malloc None pH pKey (Some d) = (Some d, pH))"
proof (intro conjI impI)
  assume "a \<notin> addrs (hfirst pH)"
  then have room: "hash_room (malloc, a) pH" using assms by (simp add: hash_room_def)
  note prev = table.previous [OF assms(1) room assms(2), of data]
  show "hash_ok (snd (sqlite3HashInsert malloc (Some a) pH pKey data))"
    using prev by (simp add: hash_insert_def)
  show "fst (sqlite3HashInsert malloc (Some a) pH pKey data) = sqlite3HashFind pH pKey"
    using prev by (simp add: hash_insert_def)
next
  assume "sqlite3HashFind pH pKey = None"
  then show "sqlite3HashInsert malloc None pH pKey (Some d) = (Some d, pH)"
    by (simp add: sqlite3HashFind_def sqlite3HashInsert_def findElement_correct [OF assms(1,2)])
qed

lemma hash_insert_keeps_table_witness:
  "fst (sqlite3HashInsert (\<lambda>n. None) (Some 1) sqlite3HashInit [97] (Some (4 :: nat)))
    = sqlite3HashFind (sqlite3HashInit :: nat hash) [97]"
  using hash_insert_keeps_table [OF hash_init(1), of "[97]" "\<lambda>n. None" 1 "Some (4 :: nat)"]
  by (simp add: malloc_ok_def sqlite3HashInit_def addrs_def)

end
