(* ===== verification/Integers.thy ===== *)
theory Integers
  imports CString "HOL-Library.Signed_Division"
begin

text \<open>
  The integers of \<open>util.c\<close>: 64-bit arithmetic that reports overflow, integers read from text in the
  three encodings and written as text, 32-bit readers, and the logarithmic estimates of the query
  planner.  An \<open>i64\<close> or \<open>int\<close> is an \<open>int\<close> here.  Signed overflow and a division by zero are
  undefined in C, so the arithmetic functions are written over operations that return \<open>None\<close> there;
  that \<open>None\<close> never comes out is part of what is proved.
\<close>

section \<open>Ranges\<close>

definition LARGEST_INT64 :: int where "LARGEST_INT64 = 0x7fffffffffffffff"
definition SMALLEST_INT64 :: int where "SMALLEST_INT64 = - 1 - LARGEST_INT64"

lemmas INT64_defs = LARGEST_INT64_def SMALLEST_INT64_def

definition in_i64 :: "int \<Rightarrow> bool" where
  "in_i64 x \<longleftrightarrow> SMALLEST_INT64 \<le> x \<and> x \<le> LARGEST_INT64"

definition i64 :: "int \<Rightarrow> int option" where
  "i64 x = (if in_i64 x then Some x else None)"

definition add64 :: "int option \<Rightarrow> int option \<Rightarrow> int option" where
  "add64 a b = Option.bind a (\<lambda>a. Option.bind b (\<lambda>b. i64 (a + b)))"

definition sub64 :: "int option \<Rightarrow> int option \<Rightarrow> int option" where
  "sub64 a b = Option.bind a (\<lambda>a. Option.bind b (\<lambda>b. i64 (a - b)))"

definition neg64 :: "int option \<Rightarrow> int option" where
  "neg64 a = Option.bind a (\<lambda>a. i64 (- a))"

definition mul64 :: "int option \<Rightarrow> int option \<Rightarrow> int option" where
  "mul64 a b = Option.bind a (\<lambda>a. Option.bind b (\<lambda>b. i64 (a * b)))"

text \<open>The division of C truncates towards zero.\<close>

definition div64 :: "int option \<Rightarrow> int option \<Rightarrow> int option" where
  "div64 a b = Option.bind a (\<lambda>a. Option.bind b (\<lambda>b. if b = 0 then None else i64 (a sdiv b)))"

definition gt64 :: "int option \<Rightarrow> int option \<Rightarrow> bool option" where
  "gt64 a b = Option.bind a (\<lambda>a. map_option (\<lambda>b. a > b) b)"

text \<open>\<open>if (c) return 1; rest\<close>\<close>

definition return1_if :: "bool option \<Rightarrow> int \<Rightarrow> (bool \<times> int) option \<Rightarrow> (bool \<times> int) option" where
  "return1_if c pA rest = Option.bind c (\<lambda>c. if c then Some (True, pA) else rest)"

lemmas checked_defs = i64_def add64_def sub64_def neg64_def mul64_def div64_def gt64_def return1_if_def

section \<open>Arithmetic that reports overflow\<close>

definition sqlite3AddInt64 :: "int \<Rightarrow> int \<Rightarrow> (bool \<times> int) option" where
  "sqlite3AddInt64 iA iB =
    (let store = map_option (\<lambda>s. (False, s)) (add64 (Some iA) (Some iB))
     in if iB \<ge> 0 then
          (if iA > 0
           then return1_if (gt64 (Some iB) (sub64 (Some LARGEST_INT64) (Some iA))) iA store
           else store)
        else
          (if iA < 0
           then return1_if (gt64 (neg64 (add64 (Some iA) (Some LARGEST_INT64))) (add64 (Some iB) (Some 1))) iA store
           else store))"

definition sqlite3SubInt64 :: "int \<Rightarrow> int \<Rightarrow> (bool \<times> int) option" where
  "sqlite3SubInt64 iA iB =
    (if iB = SMALLEST_INT64 then
       (if iA \<ge> 0 then Some (True, iA)
        else map_option (\<lambda>s. (False, s)) (sub64 (Some iA) (Some iB)))
     else Option.bind (neg64 (Some iB)) (\<lambda>b. sqlite3AddInt64 iA b))"

definition sqlite3MulInt64 :: "int \<Rightarrow> int \<Rightarrow> (bool \<times> int) option" where
  "sqlite3MulInt64 iA iB =
    (let store = map_option (\<lambda>s. (False, s)) (mul64 (Some iA) (Some iB))
     in if iB > 0 then
          return1_if (gt64 (Some iA) (div64 (Some LARGEST_INT64) (Some iB))) iA
            (return1_if (gt64 (div64 (Some SMALLEST_INT64) (Some iB)) (Some iA)) iA store)
        else if iB < 0 then
          (if iA > 0 then
             return1_if (gt64 (div64 (Some SMALLEST_INT64) (Some iA)) (Some iB)) iA store
           else if iA < 0 then
             (if iB = SMALLEST_INT64 \<or> iA = SMALLEST_INT64 then Some (True, iA)
              else return1_if (gt64 (neg64 (Some iA)) (div64 (Some LARGEST_INT64) (neg64 (Some iB)))) iA store)
           else store)
        else store)"

definition sqlite3AbsInt32 :: "int \<Rightarrow> int" where
  "sqlite3AbsInt32 x = (if x \<ge> 0 then x else if x = - 0x80000000 then 0x7fffffff else - x)"

text \<open>What each of the three does: the exact result, or 1 and the old value.\<close>

definition exact_or_flag :: "int \<Rightarrow> int \<Rightarrow> (bool \<times> int) option" where
  "exact_or_flag pA r = Some (if in_i64 r then (False, r) else (True, pA))"

lemma add_exact: "in_i64 a \<Longrightarrow> in_i64 b \<Longrightarrow> sqlite3AddInt64 a b = exact_or_flag a (a + b)"
  by (simp add: sqlite3AddInt64_def exact_or_flag_def checked_defs in_i64_def INT64_defs Let_def)

lemma sub_exact: "in_i64 a \<Longrightarrow> in_i64 b \<Longrightarrow> sqlite3SubInt64 a b = exact_or_flag a (a - b)"
proof -
  assume a: "in_i64 a" and b: "in_i64 b"
  show ?thesis
  proof (cases "b = SMALLEST_INT64")
    case True
    then show ?thesis using a
      by (auto simp: sqlite3SubInt64_def exact_or_flag_def sub64_def i64_def in_i64_def INT64_defs)
  next
    case False
    then have "in_i64 (- b)" using b by (simp add: in_i64_def INT64_defs)
    then show ?thesis using False a add_exact [of a "- b"]
      by (simp add: sqlite3SubInt64_def neg64_def i64_def)
  qed
qed

lemma sdiv_pos: "0 < b \<Longrightarrow> 0 \<le> a \<Longrightarrow> a sdiv b = a div b" "0 < b \<Longrightarrow> a \<le> 0 \<Longrightarrow> a sdiv b = - (- a div b)" for a b :: int
  by (auto simp: signed_divide_int_def sgn_if)

lemma product_above: "0 < b \<Longrightarrow> m div b < a \<longleftrightarrow> m < a * b" for a b m :: int
proof
  assume b: "0 < b" and "m div b < a"
  then have "(m div b + 1) * b \<le> a * b" by (intro mult_right_mono) auto
  moreover have "(m div b + 1) * b = m div b * b + b" by (simp add: distrib_right)
  moreover have "m < m div b * b + b" using pos_mod_bound [OF b, of m] div_mult_mod_eq [of m b] by linarith
  ultimately show "m < a * b" by linarith
next
  assume b: "0 < b" and "m < a * b"
  show "m div b < a"
  proof (rule ccontr)
    assume "\<not> m div b < a"
    then have "a * b \<le> m div b * b" using b by (intro mult_right_mono) auto
    also have "\<dots> \<le> m" using b pos_mod_sign [of b m] div_mult_mod_eq [of m b] by linarith
    finally show False using \<open>m < a * b\<close> by simp
  qed
qed

lemma div_small: "0 < b \<Longrightarrow> 0 \<le> m \<Longrightarrow> 0 \<le> m div b \<and> m div b \<le> m" for b m :: int
  using zdiv_mono2 [of m 1 b] by (simp add: pos_imp_zdiv_nonneg_iff)

lemma div64_pos: "0 < b \<Longrightarrow> 0 \<le> a \<Longrightarrow> in_i64 a \<Longrightarrow> div64 (Some a) (Some b) = Some (a div b)"
  using div_small [of b a] by (simp add: div64_def i64_def in_i64_def INT64_defs sdiv_pos)

lemma div64_neg: "0 < b \<Longrightarrow> div64 (Some SMALLEST_INT64) (Some b) = Some (- (0x8000000000000000 div b))"
  using div_small [of b "0x8000000000000000"] by (simp add: div64_def i64_def in_i64_def INT64_defs sdiv_pos)

lemma mul_exact: "in_i64 a \<Longrightarrow> in_i64 b \<Longrightarrow> sqlite3MulInt64 a b = exact_or_flag a (a * b)"
proof -
  assume a: "in_i64 a" and b: "in_i64 b"
  have L: "in_i64 LARGEST_INT64" "0 \<le> LARGEST_INT64" by (simp_all add: in_i64_def INT64_defs)
  have top: "LARGEST_INT64 div d < c \<longleftrightarrow> LARGEST_INT64 < c * d" if "0 < d" for c d
    using product_above [OF that] .
  have bot: "c < - (0x8000000000000000 div d) \<longleftrightarrow> c * d < SMALLEST_INT64" if "0 < d" for c d :: int
  proof -
    have "c < - (0x8000000000000000 div d) \<longleftrightarrow> 0x8000000000000000 div d < - c" by linarith
    also have "\<dots> \<longleftrightarrow> 0x8000000000000000 < - c * d" using product_above [OF that] .
    also have "\<dots> \<longleftrightarrow> c * d < SMALLEST_INT64" by (simp add: INT64_defs) linarith
    finally show ?thesis .
  qed
  consider "0 < b" | "b < 0" "0 < a" | "b < 0" "a < 0" | "b < 0" "a = 0" | "b = 0" by linarith
  then show ?thesis
  proof cases
    case 1
    then show ?thesis using top [of b a] bot [of b a]
      by (simp add: sqlite3MulInt64_def Let_def div64_pos [OF 1 L(2,1)] div64_neg gt64_def return1_if_def
          exact_or_flag_def mul64_def i64_def in_i64_def)
  next
    case 2
    have "a * b \<le> 0" using 2 by (simp add: mult_nonneg_nonpos)
    then show ?thesis using 2 bot [of a b]
      by (simp add: sqlite3MulInt64_def Let_def div64_neg gt64_def return1_if_def
          exact_or_flag_def mul64_def i64_def in_i64_def mult.commute) (simp add: INT64_defs)
  next
    case 3
    show ?thesis
    proof (cases "b = SMALLEST_INT64 \<or> a = SMALLEST_INT64")
      case True
      have "LARGEST_INT64 < a * b"
      proof -
        have "0x8000000000000000 * 1 \<le> - a * - b" using True
        proof
          assume "b = SMALLEST_INT64"
          then show ?thesis using 3(2) by (simp add: INT64_defs)
        next
          assume "a = SMALLEST_INT64"
          then show ?thesis using 3(1) by (simp add: INT64_defs)
        qed
        then show ?thesis by (simp add: INT64_defs)
      qed
      then show ?thesis using 3 True
        by (simp add: sqlite3MulInt64_def exact_or_flag_def in_i64_def)
    next
      case False
      then have n: "in_i64 (- a)" "in_i64 (- b)" using a b by (auto simp: in_i64_def INT64_defs)
      have "0 < a * b" using 3 by (simp add: mult_neg_neg)
      then have r: "in_i64 (a * b) \<longleftrightarrow> a * b \<le> LARGEST_INT64" by (simp add: in_i64_def INT64_defs)
      have "LARGEST_INT64 div (- b) < - a \<longleftrightarrow> LARGEST_INT64 < a * b" using top [of "- b" "- a"] 3 by simp
      then show ?thesis using 3 False n r div64_pos [OF _ L(2,1), of "- b"]
        by (simp add: sqlite3MulInt64_def Let_def neg64_def gt64_def return1_if_def
            exact_or_flag_def mul64_def i64_def)
    qed
  next
    case 4
    then show ?thesis
      by (simp add: sqlite3MulInt64_def exact_or_flag_def mul64_def i64_def in_i64_def INT64_defs)
  next
    case 5
    then show ?thesis
      by (simp add: sqlite3MulInt64_def exact_or_flag_def mul64_def i64_def in_i64_def INT64_defs)
  qed
qed

section \<open>Integers as text\<close>

text \<open>The digits are written from the last one backwards.\<close>

function digits_loop :: "nat \<Rightarrow> bytes \<Rightarrow> bytes" where
  "digits_loop x acc =
    (let acc = word_of_nat (x mod 10 + 48) # acc in if x div 10 = 0 then acc else digits_loop (x div 10) acc)"
  by pat_completeness auto
termination
  by (relation "measure fst") auto

declare digits_loop.simps [simp del]

definition sqlite3Int64ToText :: "int \<Rightarrow> bytes" where
  "sqlite3Int64ToText v =
    (let x = (if v < 0 then (if v = SMALLEST_INT64 then 2 ^ 63 else nat (- v)) else nat v);
         z = digits_loop x []
     in if v < 0 then 45 # z else z)"

text \<open>A text is read at a position with a step of one or two bytes: \<open>SQLITE_UTF8\<close> is 1,
  \<open>SQLITE_UTF16LE\<close> 2 and \<open>SQLITE_UTF16BE\<close> 3.\<close>

function skip_while :: "(u8 \<Rightarrow> bool) \<Rightarrow> bytes \<Rightarrow> nat \<Rightarrow> bool \<Rightarrow> nat \<Rightarrow> nat" where
  "skip_while P z zEnd wide p =
    (if p < zEnd \<and> P (zat z p) then skip_while P z zEnd wide (p + (if wide then 2 else 1)) else p)"
  by pat_completeness auto
termination
  by (relation "measure (\<lambda>(P, z, zEnd, wide, p). zEnd - p)") auto

declare skip_while.simps [simp del]

function decimal_loop :: "bytes \<Rightarrow> nat \<Rightarrow> bool \<Rightarrow> nat \<Rightarrow> u64 \<Rightarrow> nat \<times> u64" where
  "decimal_loop z zEnd wide p u =
    (if p < zEnd \<and> 48 \<le> zat z p \<and> zat z p \<le> 57
     then decimal_loop z zEnd wide (p + (if wide then 2 else 1)) (u * 10 + ucast (zat z p) - 48)
     else (p, u))"
  by pat_completeness auto
termination
  by (relation "measure (\<lambda>(z, zEnd, wide, p, u). zEnd - p)") auto

declare decimal_loop.simps [simp del]

definition pow63 :: bytes where
  "pow63 = [57, 50, 50, 51, 51, 55, 50, 48, 51, 54, 56, 53, 52, 55, 55, 53, 56, 48]"

fun compare_digits :: "bytes \<Rightarrow> bool \<Rightarrow> nat \<Rightarrow> bytes \<Rightarrow> int" where
  "compare_digits z wide p [] = 0"
| "compare_digits z wide p (d # ds) =
    (let c = (uint (zat z p) - uint d) * 10
     in if c = 0 then compare_digits z wide (p + (if wide then 2 else 1)) ds else c)"

definition compare2pow63 :: "bytes \<Rightarrow> bool \<Rightarrow> nat \<Rightarrow> int" where
  "compare2pow63 z wide p =
    (let c = compare_digits z wide p pow63
     in if c = 0 then uint (zat z (p + 18 * (if wide then 2 else 1))) - 56 else c)"

text \<open>The limits of the text of an encoding: where it starts, where it ends, and whether a high byte that
  is not zero cut it short.\<close>

definition text_bounds :: "bytes \<Rightarrow> nat \<Rightarrow> nat \<Rightarrow> nat \<times> nat \<times> bool" where
  "text_bounds z n enc =
    (if enc = 1 then (0, n, False)
     else let n = n - n mod 2;
              i = skip_while (\<lambda>c. c = 0) z n True (3 - enc)
          in (enc AND 1, i XOR 1, i < n))"

definition atoi_digits :: "bytes \<Rightarrow> nat \<Rightarrow> bool \<Rightarrow> bool \<Rightarrow> bool \<Rightarrow> nat \<Rightarrow> int \<times> int" where
  "atoi_digits z zEnd wide nonNum neg zStart =
    (let incr = (if wide then 2 else 1);
         p = skip_while (\<lambda>c. c = 48) z zEnd wide zStart;
         (q, u) = decimal_loop z zEnd wide p 0;
         i = q - p;
         limit = (if neg then SMALLEST_INT64 else LARGEST_INT64);
         pNum = (if uint u > LARGEST_INT64 then limit else if neg then - uint u else uint u);
         rc = (if i = 0 \<and> zStart = p then - 1
               else if nonNum then 1
               else if skip_while sqlite3Isspace z zEnd wide q < zEnd then 1 else 0)
     in if i < 19 * incr then (pNum, rc)
        else let c = (if i > 19 * incr then 1 else compare2pow63 z wide p)
             in if c < 0 then (pNum, rc)
                else if c > 0 then (limit, 2)
                else (limit, if neg then rc else 3))"

definition sqlite3Atoi64 :: "bytes \<Rightarrow> nat \<Rightarrow> nat \<Rightarrow> int \<times> int" where
  "sqlite3Atoi64 z n enc =
    (let wide = (enc \<noteq> 1); incr = (if wide then 2 else 1);
         (p, zEnd, nonNum) = text_bounds z n enc;
         p = skip_while sqlite3Isspace z zEnd wide p
     in if p < zEnd \<and> zat z p = 45 then atoi_digits z zEnd wide nonNum True (p + incr)
        else if p < zEnd \<and> zat z p = 43 then atoi_digits z zEnd wide nonNum False (p + incr)
        else atoi_digits z zEnd wide nonNum False p)"

section \<open>Reading at a position\<close>

text \<open>\<open>view z wide p zEnd s\<close>: the characters of the text from position \<open>p\<close> up to \<open>zEnd\<close> are \<open>s\<close>.\<close>

definition view :: "bytes \<Rightarrow> bool \<Rightarrow> nat \<Rightarrow> nat \<Rightarrow> bytes \<Rightarrow> bool" where
  "view z wide p zEnd s \<longleftrightarrow>
    (\<forall>k. p + k * (if wide then 2 else 1) < zEnd \<longleftrightarrow> k < length s) \<and>
    (\<forall>k < length s. zat z (p + k * (if wide then 2 else 1)) = s ! k)"

lemma view_nil: "view z wide p zEnd [] \<Longrightarrow> \<not> p < zEnd"
  by (simp add: view_def) (metis add.right_neutral mult_0)

lemma view_cons:
  assumes "view z wide p zEnd (c # s)"
  shows "p < zEnd" "zat z p = c" "view z wide (p + (if wide then 2 else 1)) zEnd s"
proof -
  let ?w = "if wide then 2 else 1 :: nat"
  have a: "\<And>k. p + k * ?w < zEnd \<longleftrightarrow> k < Suc (length s)" "\<And>k. k < Suc (length s) \<Longrightarrow> zat z (p + k * ?w) = (c # s) ! k"
    using assms by (simp_all add: view_def)
  show "p < zEnd" using a(1) [of 0] by simp
  show "zat z p = c" using a(2) [of 0] by simp
  have "p + ?w + k * ?w = p + Suc k * ?w" for k by simp
  then show "view z wide (p + ?w) zEnd s"
    unfolding view_def using a(1) [of "Suc k" for k] a(2) [of "Suc k" for k] by (metis Suc_less_eq nth_Cons_Suc)
qed

lemma view_drop:
  "view z wide p zEnd (s @ t) \<Longrightarrow> view z wide (p + length s * (if wide then 2 else 1)) zEnd t"
proof (induction s arbitrary: p)
  case (Cons c s)
  show ?case using Cons.IH [OF view_cons(3) [OF Cons.prems [unfolded append_Cons]]]
    by (simp add: algebra_simps split: if_splits)
qed simp

lemma view_skip:
  "view z wide p zEnd (s @ t) \<Longrightarrow> list_all P s \<Longrightarrow> (t \<noteq> [] \<Longrightarrow> \<not> P (hd t)) \<Longrightarrow>
     skip_while P z zEnd wide p = p + length s * (if wide then 2 else 1)"
proof (induction s arbitrary: p)
  case Nil
  then show ?case
    by (cases t) (use view_nil [of z wide p zEnd] view_cons [of z wide p zEnd] in \<open>auto simp: skip_while.simps\<close>)
next
  case (Cons c s)
  note v = view_cons [OF Cons.prems(1) [unfolded append_Cons]]
  have "skip_while P z zEnd wide p = skip_while P z zEnd wide (p + (if wide then 2 else 1))"
    using v(1,2) Cons.prems(2) by (subst skip_while.simps) simp
  also have "\<dots> = p + (if wide then 2 else 1) + length s * (if wide then 2 else 1)"
    using Cons.IH [OF v(3)] Cons.prems(2,3) by simp
  finally show ?case by simp
qed

definition decimal :: "u8 \<Rightarrow> bool" where
  "decimal c \<longleftrightarrow> 48 \<le> c \<and> c \<le> 57"

definition digit_value :: "u8 \<Rightarrow> nat" where
  "digit_value c = unat c - 48"

definition dval :: "nat \<Rightarrow> bytes \<Rightarrow> nat" where
  "dval = foldl (\<lambda>a d. 10 * a + digit_value d)"

lemma dval_simps [simp]: "dval a [] = a" "dval a (d # ds) = dval (10 * a + digit_value d) ds"
  by (simp_all add: dval_def)

lemma dval_append: "dval a (xs @ ys) = dval (dval a xs) ys"
  by (simp add: dval_def)

lemma zeros_value: "list_all (\<lambda>c. c = 48) zs \<Longrightarrow> dval 0 zs = 0"
  by (induction zs) (auto simp: digit_value_def)

lemma decimal_unat: "decimal c \<longleftrightarrow> 48 \<le> unat c \<and> unat c \<le> 57"
  by (simp add: decimal_def word_le_nat_alt)

lemma digit_less: "decimal c \<Longrightarrow> digit_value c < 10"
  unfolding decimal_unat digit_value_def by linarith

lemma dval_bounds: "list_all decimal ds \<Longrightarrow> a * 10 ^ length ds \<le> dval a ds \<and> dval a ds < (a + 1) * 10 ^ length ds"
proof (induction ds arbitrary: a)
  case (Cons d ds)
  let ?b = "10 * a + digit_value d" and ?n = "10 ^ length ds :: nat"
  have d: "digit_value d < 10" using Cons.prems digit_less by simp
  have "?b * ?n \<le> dval ?b ds \<and> dval ?b ds < (?b + 1) * ?n" using Cons by simp
  moreover have "a * (10 * ?n) \<le> ?b * ?n" by (simp add: algebra_simps)
  moreover have "(?b + 1) * ?n \<le> (a + 1) * (10 * ?n)"
  proof -
    have "(?b + 1) * ?n \<le> ((a + 1) * 10) * ?n" using d by (intro mult_right_mono) simp_all
    then show ?thesis by (simp only: mult.assoc)
  qed
  ultimately have "a * (10 * ?n) \<le> dval ?b ds \<and> dval ?b ds < (a + 1) * (10 * ?n)" by linarith
  then show ?case by simp
qed simp

lemma digit_step: "decimal d \<Longrightarrow> word_of_nat a * 10 + ucast d - 48 = (word_of_nat (10 * a + digit_value d) :: u64)"
proof -
  assume "decimal d"
  then have d: "unat d = digit_value d + 48" unfolding decimal_unat digit_value_def by linarith
  have "ucast d = (word_of_nat (unat d) :: u64)" by (rule sym) (rule of_nat_unat)
  also have "\<dots> = word_of_nat (digit_value d) + 48" unfolding d by simp
  finally show ?thesis by (simp add: algebra_simps)
qed

text \<open>Modulo \<open>2 ^ 64\<close> the loop computes the value of the digits; for fewer than twenty it is exact.\<close>

lemma decimal_loop_view:
  "view z wide p zEnd (ds @ t) \<Longrightarrow> list_all decimal ds \<Longrightarrow> (t \<noteq> [] \<Longrightarrow> \<not> decimal (hd t)) \<Longrightarrow>
     decimal_loop z zEnd wide p (word_of_nat a) = (p + length ds * (if wide then 2 else 1), word_of_nat (dval a ds))"
proof (induction ds arbitrary: p a)
  case Nil
  note prems = Nil.prems
  show ?case
  proof (cases t)
    case Nil
    then show ?thesis using view_nil [of z wide p zEnd] prems by (simp add: decimal_loop.simps)
  next
    case (Cons c r)
    then have stop: "\<not> (p < zEnd \<and> 48 \<le> zat z p \<and> zat z p \<le> 57)"
      using view_cons(2) [of z wide p zEnd c r] prems by (auto simp: decimal_def)
    show ?thesis by (subst decimal_loop.simps) (simp only: stop if_False, simp)
  qed
next
  case (Cons d ds)
  note v = view_cons [OF Cons.prems(1) [unfolded append_Cons]]
  have d: "decimal d" using Cons.prems(2) by simp
  have "decimal_loop z zEnd wide p (word_of_nat a)
      = decimal_loop z zEnd wide (p + (if wide then 2 else 1)) (word_of_nat (10 * a + digit_value d))"
  proof -
    have go: "48 \<le> d" "d \<le> 57" using d by (simp_all add: decimal_def)
    show ?thesis by (subst decimal_loop.simps) (simp only: go v(1,2) simp_thms if_True digit_step [OF d])
  qed
  also have "\<dots> = (p + (if wide then 2 else 1) + length ds * (if wide then 2 else 1), word_of_nat (dval (10 * a + digit_value d) ds))"
    using Cons.prems(2,3) by (intro Cons.IH [OF v(3)]) simp_all
  finally show ?case by simp
qed

lemma compare_digits_view:
  "view z wide p zEnd (xs @ t) \<Longrightarrow> length xs = length ys \<Longrightarrow> list_all decimal xs \<Longrightarrow> list_all decimal ys \<Longrightarrow>
     (compare_digits z wide p ys = 0 \<longleftrightarrow> xs = ys)
     \<and> (compare_digits z wide p ys < 0 \<longrightarrow> dval a xs < dval a ys)
     \<and> (compare_digits z wide p ys > 0 \<longrightarrow> dval a ys < dval a xs)"
proof (induction xs arbitrary: ys p a)
  case (Cons x xs)
  obtain y us where ys: "ys = y # us" using Cons.prems(2) by (cases ys) auto
  note v = view_cons [OF Cons.prems(1) [unfolded append_Cons]]
  show ?case
  proof (cases "x = y")
    case True
    then show ?thesis using Cons.IH [OF v(3), of us "10 * a + digit_value x"] Cons.prems ys v(2) by simp
  next
    case False
    have d: "unat x = digit_value x + 48" "unat y = digit_value y + 48"
      using Cons.prems(3,4) ys by (auto simp: decimal_unat digit_value_def)
    have diff: "compare_digits z wide p ys = (int (digit_value x) - int (digit_value y)) * 10"
    proof -
      have "uint x - uint y = int (digit_value x) - int (digit_value y)"
        by (simp only: uint_nat d)
      moreover have "uint x \<noteq> uint y" using False by (simp add: word_uint_eq_iff)
      ultimately show ?thesis using ys v(2) by (simp add: Let_def)
    qed
    have ne: "digit_value x \<noteq> digit_value y" using d False by (metis word_unat_eq_iff)
    have less: "dval (10 * a + m) us1 < dval (10 * a + n) us2"
      if "m < n" "length us1 = length us2" "list_all decimal us1" "list_all decimal us2" for m n us1 us2
    proof -
      have "dval (10 * a + m) us1 < (10 * a + m + 1) * 10 ^ length us1" using dval_bounds that(3) by blast
      also have "\<dots> \<le> (10 * a + n) * 10 ^ length us2" using that(1,2) by (intro mult_mono) auto
      also have "\<dots> \<le> dval (10 * a + n) us2" using dval_bounds that(4) by blast
      finally show ?thesis .
    qed
    show ?thesis using diff ne less [of "digit_value x" "digit_value y" xs us] less [of "digit_value y" "digit_value x" us xs]
        Cons.prems ys False by auto
  qed
qed simp

lemma dval_pow63: "dval 0 pow63 = 922337203685477580"
  by (simp add: pow63_def digit_value_def)

lemma compare2pow63_view:
  assumes "view z wide p zEnd (ds @ t)" and "length ds = 19" and "list_all decimal ds"
  shows "(compare2pow63 z wide p < 0 \<longleftrightarrow> dval 0 ds < 2 ^ 63) \<and> (compare2pow63 z wide p > 0 \<longleftrightarrow> dval 0 ds > 2 ^ 63)"
proof -
  obtain xs x where ds: "ds = xs @ [x]" using assms(2) by (cases ds rule: rev_cases) auto
  have len: "length xs = 18" "length pow63 = 18" using assms(2) ds by (simp_all add: pow63_def)
  have dec: "list_all decimal xs" "decimal x" "list_all decimal pow63" using assms(3) ds by (auto, code_simp)
  have x: "unat x = digit_value x + 48" "digit_value x < 10"
    using dec(2) digit_less by (auto simp: decimal_unat digit_value_def)
  have v: "view z wide p zEnd (xs @ x # t)" using assms(1) ds by simp
  have at: "zat z (p + 18 * (if wide then 2 else 1)) = x" using view_cons(2) [OF view_drop [OF v]] len by simp
  have val: "dval 0 ds = 10 * dval 0 xs + digit_value x" using ds by (simp add: dval_append)
  have cmp: "(compare_digits z wide p pow63 = 0 \<longleftrightarrow> xs = pow63)"
      "compare_digits z wide p pow63 < 0 \<Longrightarrow> dval 0 xs < dval 0 pow63"
      "compare_digits z wide p pow63 > 0 \<Longrightarrow> dval 0 pow63 < dval 0 xs"
    using compare_digits_view [OF v, of pow63 0] len dec by auto
  show ?thesis
  proof (cases "compare_digits z wide p pow63" "0 :: int" rule: linorder_cases)
    case less
    then show ?thesis using cmp(2) val x(2) dval_pow63 by (simp add: compare2pow63_def Let_def)
  next
    case equal
    have "uint x = int (digit_value x) + 48" by (simp add: uint_nat x(1) del: of_nat_unat)
    then show ?thesis using equal cmp(1) val at dval_pow63 by (simp add: compare2pow63_def Let_def)
  next
    case greater
    then show ?thesis using cmp(3) val x(2) dval_pow63 by (simp add: compare2pow63_def Let_def)
  qed
qed

text \<open>The value of the digits, saturated, and the code.\<close>

definition read_i64 :: "bool \<Rightarrow> nat \<Rightarrow> int \<times> int" where
  "read_i64 neg n =
    (let v = (if neg then - int n else int n)
     in if in_i64 v then (v, 0)
        else (if neg then SMALLEST_INT64 else LARGEST_INT64, if v = 2 ^ 63 then 3 else 2))"

lemma atoi_digits_value:
  assumes "view z wide p zEnd (ds @ ws)" and "ds \<noteq> []" and "list_all decimal ds" and "list_all sqlite3Isspace ws"
  shows "atoi_digits z zEnd wide False neg p = read_i64 neg (dval 0 ds)"
proof -
  let ?w = "if wide then 2 else 1 :: nat"
  define zs where "zs = takeWhile (\<lambda>c. c = 48) ds"
  define es where "es = dropWhile (\<lambda>c. c = 48) ds"
  have split: "ds = zs @ es" by (simp add: zs_def es_def)
  have zs: "list_all (\<lambda>c. c = 48) zs" by (auto simp: zs_def list_all_iff dest: set_takeWhileD)
  have es: "list_all decimal es" using assms(3) split by simp
  have no: "ws \<noteq> [] \<Longrightarrow> \<not> decimal (hd ws) \<and> hd ws \<noteq> 48"
    using assms(4) by (cases ws) (auto simp: isspace_iff decimal_unat)
  have hd: "es @ ws \<noteq> [] \<Longrightarrow> hd (es @ ws) \<noteq> 48"
  proof (cases "es = []")
    case False
    then show "hd (es @ ws) \<noteq> 48" using hd_dropWhile [of "\<lambda>c. c = 48" ds] by (simp add: es_def)
  qed (use no in simp)
  have v0: "view z wide p zEnd (zs @ es @ ws)" using assms(1) split by simp
  define q where "q = p + length zs * ?w"
  have v1: "view z wide q zEnd (es @ ws)" unfolding q_def by (rule view_drop [OF v0])
  have skip: "skip_while (\<lambda>c. c = 48) z zEnd wide p = q" unfolding q_def by (rule view_skip [OF v0 zs hd])
  define r where "r = q + length es * ?w"
  have loop: "decimal_loop z zEnd wide q 0 = (r, word_of_nat (dval 0 es))"
    using decimal_loop_view [OF v1 es, of 0] no by (simp add: r_def)
  have v2: "view z wide r zEnd (ws @ [])" unfolding r_def using view_drop [OF v1] by simp
  have "skip_while sqlite3Isspace z zEnd wide r = r + length ws * ?w" by (rule view_skip [OF v2 assms(4)]) simp
  then have rest: "\<not> skip_while sqlite3Isspace z zEnd wide r < zEnd" using view_nil [OF view_drop [OF v2]] by simp
  have some: "r \<le> q \<Longrightarrow> p \<noteq> q" using assms(2) split by (auto simp: q_def r_def split: if_splits)
  have zero: "dval 0 zs = 0" using zs by (rule zeros_value)
  have val: "dval 0 ds = dval 0 es" using split zero by (simp add: dval_append)
  have bound: "dval 0 es < 10 ^ length es" using dval_bounds [OF es, of 0] by simp
  have len: "r - q < 19 * ?w \<longleftrightarrow> length es < 19" "r - q > 19 * ?w \<longleftrightarrow> length es > 19"
    by (auto simp: r_def)
  note unfolded = atoi_digits_def Let_def skip loop rest some len prod.case
  have exact: "uint (word_of_nat (dval 0 es) :: u64) = int (dval 0 es)" if "length es \<le> 19"
  proof -
    have "(10 :: nat) ^ length es \<le> 10 ^ 19" using that by (intro power_increasing) auto
    then have "dval 0 es < 2 ^ 64" using bound by simp
    then show ?thesis by (simp add: uint_nat unat_of_nat del: of_nat_unat)
  qed
  consider "length es < 19" | "length es = 19" | "length es > 19" by linarith
  then show ?thesis
  proof cases
    case 1
    have "(10 :: nat) ^ length es \<le> 10 ^ 18" using 1 by (intro power_increasing) auto
    then have "dval 0 es < 2 ^ 63" using bound by simp
    then show ?thesis using 1 exact
      by (simp add: unfolded read_i64_def val in_i64_def INT64_defs)
  next
    case 2
    have c: "(compare2pow63 z wide q < 0 \<longleftrightarrow> dval 0 es < 2 ^ 63)" "(compare2pow63 z wide q > 0 \<longleftrightarrow> dval 0 es > 2 ^ 63)"
      using compare2pow63_view [OF v1 2 es] by auto
    moreover have "\<not> r \<le> q" using 2 by (simp add: r_def)
    ultimately show ?thesis using 2 exact
      by (simp add: unfolded read_i64_def val in_i64_def INT64_defs)
  next
    case 3
    obtain e fs where e: "es = e # fs" using 3 by (cases es) auto
    have "e \<noteq> 48" using hd e by simp
    have "unat e \<noteq> 48"
    proof
      assume "unat e = 48"
      then have "word_of_nat (unat e) = (48 :: u8)" by (simp only: of_nat_numeral)
      then show False using \<open>e \<noteq> 48\<close> by simp
    qed
    then have "1 \<le> digit_value e" using es e by (auto simp: decimal_unat digit_value_def)
    moreover have "digit_value e * 10 ^ length fs \<le> dval 0 es" using dval_bounds [of fs "digit_value e"] es e by simp
    moreover have "(10 :: nat) ^ 19 \<le> 10 ^ length fs" using 3 e by (intro power_increasing) auto
    ultimately have "1 * 10 ^ 19 \<le> dval 0 es" using mult_le_mono [of 1 "digit_value e" "10 ^ 19" "10 ^ length fs"] by linarith
    then have "2 ^ 63 < dval 0 es" by simp
    then show ?thesis using 3
      by (simp add: unfolded read_i64_def val in_i64_def INT64_defs)
  qed
qed

section \<open>Encodings\<close>

definition encode :: "nat \<Rightarrow> bytes \<Rightarrow> bytes" where
  "encode enc s =
    (if enc = 1 then s
     else if enc = 2 then concat (map (\<lambda>c. [c, 0]) s)
     else concat (map (\<lambda>c. [0, c]) s))"

lemma length_pairs: "length (concat (map (\<lambda>c. [f c, g c]) s)) = 2 * length s"
  by (induction s) auto

lemma nth_pairs: "k < length s \<Longrightarrow> concat (map (\<lambda>c. [f c, g c]) s) ! (2 * k) = f (s ! k)
    \<and> concat (map (\<lambda>c. [f c, g c]) s) ! (2 * k + 1) = g (s ! k)"
proof (induction s arbitrary: k)
  case (Cons c s)
  then show ?case by (cases k) auto
qed simp

lemma xor_one: "(2 * m) XOR 1 = 2 * m + 1" "(2 * m + 1) XOR 1 = (2 * m :: nat)"
  by (simp_all add: xor_Suc_0_eq)

text \<open>A text encoded with zero high bytes is seen as its characters.\<close>

lemma text_bounds_encode:
  assumes "enc \<in> {1, 2, 3}"
  obtains p zEnd where "text_bounds (encode enc s) (length (encode enc s)) enc = (p, zEnd, False)"
    and "view (encode enc s) (enc \<noteq> 1) p zEnd s"
proof -
  consider "enc = 1" | "enc = 2" | "enc = 3" using assms by auto
  then show ?thesis
  proof cases
    case 1
    have "view s False 0 (length s) s" by (auto simp: view_def zat_def)
    then show ?thesis using 1 by (intro that [of 0 "length s"]) (simp_all add: text_bounds_def encode_def)
  next
    case 2
    let ?z = "concat (map (\<lambda>c. [c, 0]) s)"
    have z: "zat ?z (2 * k) = s ! k" "zat ?z (2 * k + 1) = 0" if "k < length s" for k
      using nth_pairs [OF that, of "\<lambda>c. c" "\<lambda>c. 0"] that by (simp_all add: zat_def length_pairs)
    have "view ?z True 1 (2 * length s) (replicate (length s) 0 @ [])"
      using z(2) by (auto simp: view_def mult.commute)
    from view_skip [OF this, of "\<lambda>c. c = 0"]
    have "skip_while (\<lambda>c. c = 0) ?z (2 * length s) True 1 = 2 * length s + 1" by (simp add: list_all_iff)
    then have "text_bounds (encode enc s) (length (encode enc s)) enc = (0, 2 * length s, False)"
      using 2 xor_one by (simp add: text_bounds_def encode_def length_pairs)
    moreover have "view ?z True 0 (2 * length s) s" using z(1) by (auto simp: view_def mult.commute)
    ultimately show ?thesis using 2 by (intro that [of 0 "2 * length s"]) (simp_all add: encode_def)
  next
    case 3
    let ?z = "concat (map (\<lambda>c. [0, c]) s)"
    have z: "zat ?z (2 * k) = 0" "zat ?z (2 * k + 1) = s ! k" if "k < length s" for k
      using nth_pairs [OF that, of "\<lambda>c. 0" "\<lambda>c. c"] that by (simp_all add: zat_def length_pairs)
    have "view ?z True 0 (2 * length s) (replicate (length s) 0 @ [])"
      using z(1) by (auto simp: view_def mult.commute)
    from view_skip [OF this, of "\<lambda>c. c = 0"]
    have "skip_while (\<lambda>c. c = 0) ?z (2 * length s) True 0 = 2 * length s" by (simp add: list_all_iff)
    then have "text_bounds (encode enc s) (length (encode enc s)) enc = (1, 2 * length s + 1, False)"
      using 3 xor_one by (simp add: text_bounds_def encode_def length_pairs)
    moreover have "view ?z True 1 (2 * length s + 1) s" using z(2) by (auto simp: view_def mult.commute)
    ultimately show ?thesis using 3 by (intro that [of 1 "2 * length s + 1"]) (simp_all add: encode_def)
  qed
qed

definition sign_text :: "bytes \<Rightarrow> bool" where
  "sign_text sg \<longleftrightarrow> sg \<in> {[], [43], [45]}"

lemma atoi64_reads:
  assumes enc: "enc \<in> {1, 2, 3}" and ws: "list_all sqlite3Isspace ws" "list_all sqlite3Isspace ws'"
    and sg: "sign_text sg" and ds: "ds \<noteq> []" "list_all decimal ds"
  shows "sqlite3Atoi64 (encode enc (ws @ sg @ ds @ ws')) (length (encode enc (ws @ sg @ ds @ ws'))) enc
    = read_i64 (sg = [45]) (dval 0 ds)"
proof -
  let ?s = "ws @ sg @ ds @ ws'"
  define z where "z = encode enc ?s"
  define wide where "wide = (enc \<noteq> 1)"
  let ?w = "if wide then 2 else 1 :: nat"
  obtain p zEnd where tb: "text_bounds z (length z) enc = (p, zEnd, False)" and v: "view z wide p zEnd ?s"
    unfolding z_def wide_def using text_bounds_encode [OF enc] .
  obtain d es where d: "ds = d # es" "decimal d" using ds by (cases ds) auto
  have d_not: "\<not> sqlite3Isspace d" "d \<noteq> 45" "d \<noteq> 43"
    using d(2) by (auto simp: isspace_iff decimal_unat)
  have sp: "\<not> sqlite3Isspace 45" "\<not> sqlite3Isspace 43" by code_simp+
  have hd: "\<not> sqlite3Isspace (hd (sg @ ds @ ws'))" using sg d d_not sp by (auto simp: sign_text_def)
  define q where "q = p + length ws * ?w"
  have skip: "skip_while sqlite3Isspace z zEnd wide p = q"
    unfolding q_def using hd by (intro view_skip [OF v ws(1)])
  have v1: "view z wide q zEnd (sg @ ds @ ws')" unfolding q_def by (rule view_drop [OF v])
  have v2: "view z wide (q + length sg * ?w) zEnd (ds @ ws')" by (rule view_drop [OF v1])
  note number = atoi_digits_value [OF v2 ds ws(2)]
  have start: "sqlite3Atoi64 z (length z) enc =
      (if q < zEnd \<and> zat z q = 45 then atoi_digits z zEnd wide False True (q + ?w)
       else if q < zEnd \<and> zat z q = 43 then atoi_digits z zEnd wide False False (q + ?w)
       else atoi_digits z zEnd wide False False q)"
    by (simp only: sqlite3Atoi64_def Let_def tb prod.case skip wide_def [symmetric])
  consider "sg = []" | "sg = [43]" | "sg = [45]" using sg by (auto simp: sign_text_def)
  then have "sqlite3Atoi64 z (length z) enc = read_i64 (sg = [45]) (dval 0 ds)"
  proof cases
    case 1
    then have "zat z q = d" using view_cons(2) [of z wide q zEnd d] v1 d(1) by simp
    then show ?thesis using 1 d_not number by (simp add: start)
  next
    case 2
    then have "q < zEnd" "zat z q = 43" using view_cons(1,2) [of z wide q zEnd 43] v1 by simp_all
    then show ?thesis using 2 number by (simp add: start)
  next
    case 3
    then have "q < zEnd" "zat z q = 45" using view_cons(1,2) [of z wide q zEnd 45] v1 by simp_all
    then show ?thesis using 3 number by (simp add: start)
  qed
  then show ?thesis by (simp add: z_def)
qed

section \<open>Text and back\<close>

lemma digits_loop_step:
  "digits_loop x acc = (if x < 10 then word_of_nat (x + 48) # acc else digits_loop (x div 10) (word_of_nat (x mod 10 + 48) # acc))"
  by (subst digits_loop.simps) (auto simp: Let_def div_eq_0_iff)

lemma digits_loop_value:
  "list_all decimal (digits_loop x []) \<and> digits_loop x acc = digits_loop x [] @ acc
     \<and> dval 0 (digits_loop x []) = x \<and> digits_loop x [] \<noteq> []"
proof (induction x arbitrary: acc rule: less_induct)
  case (less x)
  have digit: "decimal (word_of_nat (k + 48)) \<and> digit_value (word_of_nat (k + 48)) = k" if "k < 10" for k
  proof -
    have u: "unat (word_of_nat (k + 48) :: u8) = k + 48" by (subst unat_of_nat) (use that in simp)
    show ?thesis unfolding decimal_unat digit_value_def u using that by linarith
  qed
  show ?case
  proof (cases "x < 10")
    case True
    then show ?thesis using digit by (simp add: digits_loop_step)
  next
    case False
    then have s: "x div 10 < x" by simp
    let ?d = "word_of_nat (x mod 10 + 48) :: u8"
    have step: "digits_loop x acc = digits_loop (x div 10) (?d # acc)" for acc using False by (simp add: digits_loop_step [of x])
    define r where "r = digits_loop (x div 10) []"
    have r: "list_all decimal r" "dval 0 r = x div 10" "r \<noteq> []"
      using less.IH [OF s, of "[]"] unfolding r_def by blast+
    have app: "digits_loop x acc = r @ ?d # acc" for acc
      unfolding step r_def using less.IH [OF s, of "?d # acc"] by blast
    have "dval 0 (r @ [?d]) = 10 * (x div 10) + x mod 10"
      using r(2) digit [of "x mod 10"] by (simp add: dval_append)
    then show ?thesis using app [of acc] app [of "[]"] r digit [of "x mod 10"] by simp
  qed
qed

lemma Int64ToText_form:
  assumes "in_i64 v"
  obtains ds where "sqlite3Int64ToText v = (if v < 0 then [45] else []) @ ds"
    and "ds \<noteq> []" and "list_all decimal ds" and "dval 0 ds = nat \<bar>v\<bar>"
proof -
  define x where "x = nat \<bar>v\<bar>"
  have "(if v < 0 then (if v = SMALLEST_INT64 then 2 ^ 63 else nat (- v)) else nat v) = x"
    using assms by (simp add: x_def INT64_defs)
  then have "sqlite3Int64ToText v = (if v < 0 then [45] else []) @ digits_loop x []"
    by (simp add: sqlite3Int64ToText_def Let_def)
  then show ?thesis using digits_loop_value [of x "[]"] by (intro that [of "digits_loop x []"]) (simp_all add: x_def)
qed

lemma digits_short: "length (digits_loop x []) \<le> n \<longleftrightarrow> x < 10 ^ n" if "0 < n"
  using that
proof (induction n arbitrary: x)
  case (Suc n)
  show ?case
  proof (cases "x < 10")
    case True
    have "(10 :: nat) ^ 1 \<le> 10 ^ Suc n" by (intro power_increasing) auto
    then have "x < 10 ^ Suc n" using True by (simp only: power_one_right)
    then show ?thesis using True by (simp add: digits_loop_step)
  next
    case False
    have len: "length (digits_loop x []) = Suc (length (digits_loop (x div 10) []))"
      using False digits_loop_value [of "x div 10" "[word_of_nat (x mod 10 + 48)]"] by (simp add: digits_loop_step [of x])
    have "0 < length (digits_loop (x div 10) [])" using digits_loop_value [of "x div 10" "[]"] by simp
    then show ?thesis using len Suc.IH [of "x div 10"] False
      by (cases "n = 0") (auto simp: less_mult_imp_div_less div_less_iff_less_mult mult.commute)
  qed
qed simp

section \<open>32-bit integers\<close>

fun hex_digits :: "nat \<Rightarrow> bytes \<Rightarrow> nat \<Rightarrow> u32 \<Rightarrow> nat \<times> u32" where
  "hex_digits 0 z i u = (i, u)"
| "hex_digits (Suc k) z i u =
    (if sqlite3Isxdigit (zat z i) then hex_digits k z (i + 1) (u * 16 + ucast (sqlite3HexToInt (ucast (zat z i)))) else (i, u))"

text \<open>At most eleven digits are read.\<close>

fun dec_digits :: "nat \<Rightarrow> bytes \<Rightarrow> nat \<Rightarrow> int \<Rightarrow> nat \<times> int" where
  "dec_digits 0 z i v = (i, v)"
| "dec_digits (Suc k) z i v =
    (if decimal (zat z i) then dec_digits k z (i + 1) (v * 10 + (uint (zat z i) - 48)) else (i, v))"

definition get_hex32 :: "bytes \<Rightarrow> nat \<Rightarrow> int option" where
  "get_hex32 z p =
    (let p = skip_while (\<lambda>c. c = 48) z (length z) False p;
         (q, u) = hex_digits 8 z p 0
     in if u AND 0x80000000 = 0 \<and> \<not> sqlite3Isxdigit (zat z q) then Some (sint u) else None)"

definition get_dec32 :: "bytes \<Rightarrow> bool \<Rightarrow> nat \<Rightarrow> int option" where
  "get_dec32 z neg p =
    (if \<not> sqlite3Isdigit (zat z p) then None
     else let p = skip_while (\<lambda>c. c = 48) z (length z) False p;
              (q, v) = dec_digits 11 z p 0
          in if q - p > 10 then None
             else if v - (if neg then 1 else 0) > 2147483647 then None
             else Some (if neg then - v else v))"

definition sqlite3GetInt32 :: "bytes \<Rightarrow> int option" where
  "sqlite3GetInt32 z =
    (if zat z 0 = 45 then get_dec32 z True 1
     else if zat z 0 = 43 then get_dec32 z False 1
     else if zat z 0 = 48 \<and> (zat z 1 = 120 \<or> zat z 1 = 88) \<and> sqlite3Isxdigit (zat z 2) then get_hex32 z 2
     else get_dec32 z False 0)"

definition sqlite3Atoi :: "bytes \<Rightarrow> int" where
  "sqlite3Atoi z = (case sqlite3GetInt32 z of None \<Rightarrow> 0 | Some x \<Rightarrow> x)"

text \<open>\<open>sqlite3GetUInt32\<close>: \<open>None\<close> where the result is 0 and the return value false.\<close>

function uint32_loop :: "bytes \<Rightarrow> nat \<Rightarrow> nat \<Rightarrow> (nat \<times> nat) option" where
  "uint32_loop z i v =
    (if sqlite3Isdigit (zat z i) then
       (let v = v * 10 + unat (zat z i) - 48
        in if v > 4294967296 then None else uint32_loop z (i + 1) v)
     else Some (i, v))"
  by pat_completeness auto
termination
proof (relation "measure (\<lambda>(z, i, v). length z - i)", goal_cases)
  case (2 z i v w)
  then have "zat z i \<noteq> 0" by (auto simp: isdigit_iff)
  then show ?case using zat_inside [of z i] by simp
qed simp

declare uint32_loop.simps [simp del]

definition sqlite3GetUInt32 :: "bytes \<Rightarrow> u32 option" where
  "sqlite3GetUInt32 z =
    (case uint32_loop z 0 0 of None \<Rightarrow> None
     | Some (i, v) \<Rightarrow> if i = 0 \<or> zat z i \<noteq> 0 then None else Some (word_of_nat v))"

definition read_i32 :: "bool \<Rightarrow> nat \<Rightarrow> int option" where
  "read_i32 neg n =
    (let v = (if neg then - int n else int n)
     in if - 0x80000000 \<le> v \<and> v \<le> 0x7fffffff then Some v else None)"

lemma zat_end: "\<not> p < length z \<Longrightarrow> zat z p = 0"
  by (simp add: zat_def)

lemma view_head: "view z False p (length z) t \<Longrightarrow> zat z p = chr0 t"
  by (cases t) (use view_nil [of z False p "length z"] view_cons(2) [of z False p "length z"] zat_end in auto)

lemma dec_digits_view:
  "view z False p (length z) (ds @ t) \<Longrightarrow> list_all decimal ds \<Longrightarrow> \<not> decimal (chr0 t) \<Longrightarrow>
     dec_digits k z p (int a) = (p + min k (length ds), int (dval a (take k ds)))"
proof (induction k arbitrary: ds p a)
  case (Suc k)
  show ?case
  proof (cases ds)
    case Nil
    then show ?thesis using view_head [of z p t] Suc.prems by simp
  next
    case (Cons d es)
    have d: "decimal d" "uint d - 48 = int (digit_value d)"
      using Suc.prems(2) Cons by (auto simp: decimal_unat digit_value_def uint_nat simp del: of_nat_unat)
    note v = view_cons [OF Suc.prems(1) [unfolded Cons append_Cons]]
    have "int a * 10 + int (digit_value d) = int (10 * a + digit_value d)" by simp
    then show ?thesis using Suc.IH [of "p + 1" es "10 * a + digit_value d"] v Suc.prems(2,3) Cons d
      by (simp add: mult.commute)
  qed
qed simp

lemma leading_zeros:
  assumes "list_all decimal ds" and "ds \<noteq> []"
  obtains zs es where "ds = zs @ es" and "list_all (\<lambda>c. c = 48) zs" and "list_all decimal es"
    and "dval 0 ds = dval 0 es" and "es \<noteq> [] \<longrightarrow> hd es \<noteq> 48 \<and> 10 ^ (length es - 1) \<le> dval 0 es"
proof (rule that [of "takeWhile (\<lambda>c. c = 48) ds" "dropWhile (\<lambda>c. c = 48) ds"])
  let ?zs = "takeWhile (\<lambda>c. c = 48) ds" and ?es = "dropWhile (\<lambda>c. c = 48) ds"
  show zs: "list_all (\<lambda>c. c = 48) ?zs" by (auto simp: list_all_iff dest: set_takeWhileD)
  show es: "list_all decimal ?es" using assms(1) set_dropWhileD by (fastforce simp: list_all_iff)
  show "dval 0 ds = dval 0 ?es"
    using dval_append [of 0 ?zs ?es] zeros_value [OF zs] by simp
  show "?es \<noteq> [] \<longrightarrow> hd ?es \<noteq> 48 \<and> 10 ^ (length ?es - 1) \<le> dval 0 ?es"
  proof
  assume ne: "?es \<noteq> []"
  then have hd: "hd ?es \<noteq> 48" by (rule hd_dropWhile)
  from ne obtain e fs where e: "?es = e # fs" by (cases ?es) auto
  have "unat e \<noteq> 48"
  proof
    assume "unat e = 48"
    then have "word_of_nat (unat e) = (48 :: u8)" by (simp only: of_nat_numeral)
    then show False using hd e by simp
  qed
  then have "1 \<le> digit_value e" using es e by (auto simp: decimal_unat digit_value_def)
  moreover have "digit_value e * 10 ^ length fs \<le> dval 0 ?es" using dval_bounds [of fs "digit_value e"] es e by simp
  ultimately have "10 ^ length fs \<le> dval 0 ?es" using mult_le_mono [of 1 "digit_value e" "10 ^ length fs" "10 ^ length fs"] by linarith
  then show "hd ?es \<noteq> 48 \<and> 10 ^ (length ?es - 1) \<le> dval 0 ?es" using e hd by simp
  qed
qed (simp add: takeWhile_dropWhile_id)

lemma get_dec32_value:
  assumes "view z False p (length z) (ds @ t)" and "ds \<noteq> []" and "list_all decimal ds" and "\<not> decimal (chr0 t)"
  shows "get_dec32 z neg p = read_i32 neg (dval 0 ds)"
proof -
  obtain zs es where s: "ds = zs @ es" "list_all (\<lambda>c. c = 48) zs" "list_all decimal es"
      "dval 0 ds = dval 0 es" "es \<noteq> [] \<longrightarrow> hd es \<noteq> 48 \<and> 10 ^ (length es - 1) \<le> dval 0 es"
    by (rule leading_zeros [OF assms(3,2)])
  obtain d ds' where d: "ds = d # ds'" using assms(2) by (cases ds) auto
  have dig: "sqlite3Isdigit (zat z p)" using view_head [OF assms(1)] d assms(3) by (simp add: isdigit_iff decimal_unat)
  have v0: "view z False p (length z) (zs @ es @ t)" using assms(1) s(1) by simp
  have "t \<noteq> [] \<Longrightarrow> hd t \<noteq> 48" using assms(4) by (cases t) (auto simp: decimal_unat)
  then have skip: "skip_while (\<lambda>c. c = 48) z (length z) False p = p + length zs"
    using view_skip [OF v0 s(2)] s(5) by (cases es) auto
  have v1: "view z False (p + length zs) (length z) (es @ t)" using view_drop [OF v0] by simp
  have loop: "dec_digits 11 z (p + length zs) 0 = (p + length zs + min 11 (length es), int (dval 0 (take 11 es)))"
    using dec_digits_view [OF v1 s(3) assms(4), of 11 0] by simp
  show ?thesis
  proof (cases "length es > 10")
    case True
    then have "(10 :: nat) ^ 10 \<le> 10 ^ (length es - 1)" by (intro power_increasing) auto
    moreover have "10 ^ (length es - 1) \<le> dval 0 es" using True using s(5) True by fastforce
    ultimately have "2 ^ 31 < dval 0 es" by simp
    then show ?thesis using True dig by (simp add: get_dec32_def Let_def skip loop read_i32_def s(4))
  next
    case False
    then show ?thesis using dig by (simp add: get_dec32_def Let_def skip loop read_i32_def s(4))
  qed
qed

lemma getint32_value:
  assumes "sign_text sg" and "ds \<noteq> []" and "list_all decimal ds" and "\<not> decimal (chr0 t)"
    and "sg = [] \<Longrightarrow> ds = [48] \<Longrightarrow> chr0 t \<noteq> 120 \<and> chr0 t \<noteq> 88"
  shows "sqlite3GetInt32 (sg @ ds @ t) = read_i32 (sg = [45]) (dval 0 ds)"
proof -
  let ?z = "sg @ ds @ t"
  have v: "view ?z False 0 (length ?z) (sg @ ds @ t)" by (auto simp: view_def zat_def)
  have v1: "view ?z False (length sg) (length ?z) (ds @ t)" using view_drop [OF v] by simp
  note number = get_dec32_value [OF v1 assms(2-4)]
  obtain d es where d: "ds = d # es" "decimal d" using assms(2,3) by (cases ds) auto
  have z0: "zat ?z 0 = chr0 ?z" using view_head [OF v] .
  consider "sg = []" | "sg = [43]" | "sg = [45]" using assms(1) by (auto simp: sign_text_def)
  then show ?thesis
  proof cases
    case 1
    have hex: "\<not> (d = 48 \<and> (zat ?z 1 = 120 \<or> zat ?z 1 = 88))"
    proof
      assume h: "d = 48 \<and> (zat ?z 1 = 120 \<or> zat ?z 1 = 88)"
      have z1: "zat ?z 1 = chr0 (es @ t)" using 1 d(1) by (cases "es @ t") (simp_all add: zat_def)
      have "es = []"
      proof (cases es)
        case (Cons e fs)
        then have "decimal (zat ?z 1)" using z1 assms(3) d(1) by simp
        then show ?thesis using h by (auto simp: decimal_unat)
      qed
      then show False using assms(5) 1 d(1) h z1 by simp
    qed
    have "d \<noteq> 45" "d \<noteq> 43" using d(2) by (auto simp: decimal_unat)
    then have "sqlite3GetInt32 ?z = get_dec32 ?z False 0"
      using hex z0 d(1) 1 unfolding sqlite3GetInt32_def by (auto simp del: One_nat_def)
    then show ?thesis using 1 number by simp
  next
    case 2
    then show ?thesis using number z0 by (simp add: sqlite3GetInt32_def)
  next
    case 3
    then show ?thesis using number z0 by (simp add: sqlite3GetInt32_def)
  qed
qed

text \<open>\<open>sqlite3GetUInt32\<close> lets \<open>2 ^ 32\<close> itself pass.\<close>

lemma uint32_loop_value:
  "list_all decimal ds \<Longrightarrow> v \<le> 4294967296 \<Longrightarrow>
     uint32_loop (pre @ ds) (length pre) v =
       (if dval v ds \<le> 4294967296 then Some (length pre + length ds, dval v ds) else None)"
proof (induction ds arbitrary: pre v)
  case Nil
  have "\<not> sqlite3Isdigit 0" by code_simp
  then show ?case using Nil by (subst uint32_loop.simps) (simp add: zat_def)
next
  case (Cons d ds)
  have at: "zat (pre @ d # ds) (length pre) = d" by (simp add: zat_def)
  have d: "decimal d" "list_all decimal ds" using Cons.prems(1) by simp_all
  have w: "v * 10 + unat d - 48 = 10 * v + digit_value d" using d(1) by (simp add: decimal_unat digit_value_def)
  have dig: "sqlite3Isdigit d" using d(1) by (simp add: isdigit_iff decimal_unat)
  have step: "uint32_loop (pre @ d # ds) (length pre) v =
      (if 10 * v + digit_value d > 4294967296 then None
       else uint32_loop ((pre @ [d]) @ ds) (length (pre @ [d])) (10 * v + digit_value d))"
    by (subst uint32_loop.simps) (simp add: at dig w Let_def)
  show ?case
  proof (cases "10 * v + digit_value d > 4294967296")
    case True
    have "(10 * v + digit_value d) * 1 \<le> (10 * v + digit_value d) * 10 ^ length ds" by (intro mult_le_mono) auto
    also have "\<dots> \<le> dval (10 * v + digit_value d) ds" using dval_bounds [OF d(2)] by blast
    finally show ?thesis using True step by simp
  next
    case False
    then show ?thesis using step Cons.IH [OF d(2), of "10 * v + digit_value d" "pre @ [d]"] by simp
  qed
qed

section \<open>Properties\<close>

text \<open>C38. Addition, subtraction and multiplication of 64-bit integers return 0 with the exact result when
  it is representable and 1 with the first operand unchanged when it is not; no operation inside
  them overflows or divides by zero, whatever the operands.\<close>
theorem checked_arithmetic_exact:
  "in_i64 a \<Longrightarrow> in_i64 b \<Longrightarrow>
     sqlite3AddInt64 a b = exact_or_flag a (a + b) \<and>
     sqlite3SubInt64 a b = exact_or_flag a (a - b) \<and>
     sqlite3MulInt64 a b = exact_or_flag a (a * b)"
  by (simp add: add_exact sub_exact mul_exact)

lemma checked_arithmetic_exact_witness:
  "sqlite3MulInt64 (- 9223372036854775808) (- 1) = exact_or_flag (- 9223372036854775808) (- 9223372036854775808 * - 1)"
proof -
  have "in_i64 (- 9223372036854775808)" "in_i64 (- 1)" by (simp_all add: in_i64_def INT64_defs)
  then show ?thesis using checked_arithmetic_exact [of "- 9223372036854775808" "- 1"] by blast
qed

text \<open>C25. A text of spaces, an optional sign, digits and spaces, in any of the three encodings, is read as
  its value with code 0 when the value fits in 64 bits; otherwise the value is saturated and the
  code is 3 for exactly \<open>2 ^ 63\<close> and 2 beyond, however many digits there are.\<close>
theorem atoi64_value:
  assumes "enc \<in> {1, 2, 3}" and "list_all sqlite3Isspace ws" and "list_all sqlite3Isspace ws'"
    and "sign_text sg" and "ds \<noteq> []" and "list_all decimal ds"
  shows "sqlite3Atoi64 (encode enc (ws @ sg @ ds @ ws')) (length (encode enc (ws @ sg @ ds @ ws'))) enc
    = read_i64 (sg = [45]) (dval 0 ds)"
  using assms by (rule atoi64_reads)

lemma atoi64_value_witness:
  "sqlite3Atoi64 (encode 2 ([32] @ [45] @ [52, 50] @ [])) (length (encode 2 ([32] @ [45] @ [52, 50 :: u8] @ []))) 2 = (- 42, 0)"
proof -
  have "list_all sqlite3Isspace [32]" "list_all decimal [52, 50]" "sign_text [45]" by code_simp+
  then have "sqlite3Atoi64 (encode 2 ([32] @ [45] @ [52, 50] @ [])) (length (encode 2 ([32] @ [45] @ [52, 50 :: u8] @ []))) 2
      = read_i64 ([45 :: u8] = [45]) (dval 0 [52, 50])"
    by (intro atoi64_value) simp_all
  moreover have "read_i64 ([45 :: u8] = [45]) (dval 0 [52, 50]) = (- 42, 0)" by code_simp
  ultimately show ?thesis by simp
qed

text \<open>C31. Every 64-bit integer written as text, in any encoding, is read back with code 0; the text is at
  most twenty bytes long, so with its terminator it fits in the twenty-one bytes the callers provide.\<close>
theorem int64_text_round_trip:
  assumes "in_i64 v" and "enc \<in> {1, 2, 3}"
  shows "sqlite3Atoi64 (encode enc (sqlite3Int64ToText v)) (length (encode enc (sqlite3Int64ToText v))) enc = (v, 0)
    \<and> length (sqlite3Int64ToText v) \<le> 20"
proof -
  obtain ds where d: "sqlite3Int64ToText v = (if v < 0 then [45] else []) @ ds" "ds \<noteq> []" "list_all decimal ds"
      "dval 0 ds = nat \<bar>v\<bar>" using Int64ToText_form [OF assms(1)] .
  have "sign_text (if v < 0 then [45] else [])" by (simp add: sign_text_def)
  then have "sqlite3Atoi64 (encode enc ([] @ (if v < 0 then [45] else []) @ ds @ []))
      (length (encode enc ([] @ (if v < 0 then [45] else []) @ ds @ []))) enc
      = read_i64 ((if v < 0 then [45] else []) = [45 :: u8]) (dval 0 ds)"
    using d(2,3) assms(2) by (intro atoi64_reads) simp_all
  moreover have "read_i64 ((if v < 0 then [45] else []) = [45 :: u8]) (nat \<bar>v\<bar>) = (v, 0)"
    using assms(1) by (simp add: read_i64_def Let_def)
  moreover have "length (sqlite3Int64ToText v) \<le> 20"
  proof -
    have "- 9223372036854775808 \<le> v" "v \<le> 9223372036854775807" using assms(1) by (simp_all add: in_i64_def INT64_defs)
    then have "\<bar>v\<bar> < 10 ^ 19" by (simp add: abs_less_iff)
    then have "nat \<bar>v\<bar> < 10 ^ 19" by simp
    then have "length (digits_loop (nat \<bar>v\<bar>) []) \<le> 19" by (subst digits_short) simp_all
    moreover have "length (sqlite3Int64ToText v) \<le> 1 + length (digits_loop (nat \<bar>v\<bar>) [])"
      using assms(1) by (simp add: sqlite3Int64ToText_def Let_def INT64_defs)
    ultimately show ?thesis by simp
  qed
  ultimately show ?thesis using d(1,4) by simp
qed

lemma int64_text_round_trip_witness:
  "sqlite3Atoi64 (encode 3 (sqlite3Int64ToText (- 7))) (length (encode 3 (sqlite3Int64ToText (- 7)))) 3 = (- 7, 0)"
proof -
  have "in_i64 (- 7)" by (simp add: in_i64_def INT64_defs)
  then show ?thesis using int64_text_round_trip [of "- 7" 3] by simp
qed

text \<open>\<open>sqlite3GetInt32\<close> reads an optional sign and digits, whatever follows them: it returns the value
  exactly when it is a 32-bit integer (leading zeros aside), and nothing otherwise; the only other
  reading is that of a hexadecimal literal without a sign.\<close>
theorem getint32_reads:
  assumes "sign_text sg" and "ds \<noteq> []" and "list_all decimal ds" and "\<not> decimal (chr0 t)"
    and "sg = [] \<Longrightarrow> ds = [48] \<Longrightarrow> chr0 t \<noteq> 120 \<and> chr0 t \<noteq> 88"
  shows "sqlite3GetInt32 (sg @ ds @ t) = read_i32 (sg = [45]) (dval 0 ds)"
  using assms by (rule getint32_value)

lemma getint32_reads_witness: "sqlite3GetInt32 ([45] @ [49, 50] @ [120]) = Some (- 12)"
proof -
  have "sign_text [45]" "list_all decimal [49, 50]" "\<not> decimal (chr0 [120])" by code_simp+
  then have "sqlite3GetInt32 ([45] @ [49, 50] @ [120]) = read_i32 ([45 :: u8] = [45]) (dval 0 [49, 50])"
    by (intro getint32_reads) simp_all
  moreover have "read_i32 ([45 :: u8] = [45]) (dval 0 [49, 50]) = Some (- 12)" by code_simp
  ultimately show ?thesis by simp
qed

text \<open>\<open>sqlite3GetUInt32\<close> accepts a number up to and including \<open>2 ^ 32\<close>, which is no 32-bit integer: it
  reports success on it and stores 0.\<close>
theorem getuint32_reads:
  assumes "ds \<noteq> []" and "list_all decimal ds"
  shows "sqlite3GetUInt32 ds = (if dval 0 ds \<le> 2 ^ 32 then Some (word_of_nat (dval 0 ds)) else None)
    \<and> (dval 0 ds = 2 ^ 32 \<longrightarrow> sqlite3GetUInt32 ds = Some 0)"
proof -
  have "uint32_loop ds 0 0 = (if dval 0 ds \<le> 4294967296 then Some (length ds, dval 0 ds) else None)"
    using uint32_loop_value [of ds 0 "[]"] assms(2) by simp
  then have *: "sqlite3GetUInt32 ds = (if dval 0 ds \<le> 2 ^ 32 then Some (word_of_nat (dval 0 ds)) else None)"
    using assms(1) by (simp add: sqlite3GetUInt32_def zat_def)
  moreover have "word_of_nat (2 ^ 32) = (0 :: u32)" by simp
  ultimately show ?thesis by simp
qed

lemma getuint32_reads_witness:
  "sqlite3GetUInt32 [52, 50, 57, 52, 57, 54, 55, 50, 57, 54] = Some 0"
proof -
  have "list_all decimal [52, 50, 57, 52, 57, 54, 55, 50, 57, 54]" by code_simp
  moreover have "dval 0 [52, 50, 57, 52, 57, 54, 55, 50, 57, 54] = 2 ^ 32" by (simp add: digit_value_def)
  ultimately show ?thesis using getuint32_reads [of "[52, 50, 57, 52, 57, 54, 55, 50, 57, 54]"] by simp
qed

end
