(* ===== verification/Utf.thy ===== *)
theory Utf
  imports CString
begin

text \<open>
  Translation between UTF-8 and UTF-16 (\<open>utf.c\<close>).  A code point is a \<open>u32\<close>; the macros
  \<open>WRITE_UTF8\<close>, \<open>WRITE_UTF16LE\<close>, \<open>WRITE_UTF16BE\<close> and \<open>READ_UTF8\<close> are functions from and to byte
  lists, \<open>sqlite3VdbeMemTranslate\<close> a function of the members of \<open>Mem\<close> it reads and writes.  The
  build leaves \<open>SQLITE_REPLACE_INVALID_UTF\<close> undefined.
\<close>

section \<open>Code points\<close>

definition sqlite3Utf8Trans1 :: "nat list" where
  "sqlite3Utf8Trans1 =
    [0, 1, 2, 3, 4, 5, 6, 7, 8, 9, 10, 11, 12, 13, 14, 15,
     16, 17, 18, 19, 20, 21, 22, 23, 24, 25, 26, 27, 28, 29, 30, 31,
     0, 1, 2, 3, 4, 5, 6, 7, 8, 9, 10, 11, 12, 13, 14, 15,
     0, 1, 2, 3, 4, 5, 6, 7, 0, 1, 2, 3, 0, 1, 0, 0]"

definition WRITE_UTF8 :: "u32 \<Rightarrow> bytes" where
  "WRITE_UTF8 c =
    (if c < 0x80 then [ucast (c AND 0xFF)]
     else if c < 0x800 then
       [0xC0 + ucast (drop_bit 6 c AND 0x1F), 0x80 + ucast (c AND 0x3F)]
     else if c < 0x10000 then
       [0xE0 + ucast (drop_bit 12 c AND 0x0F), 0x80 + ucast (drop_bit 6 c AND 0x3F), 0x80 + ucast (c AND 0x3F)]
     else
       [0xF0 + ucast (drop_bit 18 c AND 0x07), 0x80 + ucast (drop_bit 12 c AND 0x3F),
        0x80 + ucast (drop_bit 6 c AND 0x3F), 0x80 + ucast (c AND 0x3F)])"

definition WRITE_UTF16LE :: "u32 \<Rightarrow> bytes" where
  "WRITE_UTF16LE c =
    (if c \<le> 0xFFFF then [ucast (c AND 0xFF), ucast (drop_bit 8 c AND 0xFF)]
     else
       [ucast ((drop_bit 10 c AND 0x3F) + (drop_bit 10 (c - 0x10000) AND 0xC0)),
        ucast (0xD8 + (drop_bit 18 (c - 0x10000) AND 0x03)),
        ucast (c AND 0xFF), ucast (0xDC + (drop_bit 8 c AND 0x03))])"

definition WRITE_UTF16BE :: "u32 \<Rightarrow> bytes" where
  "WRITE_UTF16BE c =
    (if c \<le> 0xFFFF then [ucast (drop_bit 8 c AND 0xFF), ucast (c AND 0xFF)]
     else
       [ucast (0xD8 + (drop_bit 18 (c - 0x10000) AND 0x03)),
        ucast ((drop_bit 10 c AND 0x3F) + (drop_bit 10 (c - 0x10000) AND 0xC0)),
        ucast (0xDC + (drop_bit 8 c AND 0x03)), ucast (c AND 0xFF)])"

definition sqlite3AppendOneUtf8Character :: "u32 \<Rightarrow> bytes" where
  "sqlite3AppendOneUtf8Character v =
    (if v < 0x80 then [ucast (v AND 0xFF)]
     else if v < 0x800 then
       [0xC0 + ucast (drop_bit 6 v AND 0x1F), 0x80 + ucast (v AND 0x3F)]
     else if v < 0x10000 then
       [0xE0 + ucast (drop_bit 12 v AND 0x0F), 0x80 + ucast (drop_bit 6 v AND 0x3F), 0x80 + ucast (v AND 0x3F)]
     else
       [0xF0 + ucast (drop_bit 18 v AND 0x07), 0x80 + ucast (drop_bit 12 v AND 0x3F),
        0x80 + ucast (drop_bit 6 v AND 0x3F), 0x80 + ucast (v AND 0x3F)])"

text \<open>The loop over the continuation bytes; the end of the list is \<open>zTerm\<close>.\<close>

fun cont_loop :: "u32 \<Rightarrow> bytes \<Rightarrow> u32 \<times> bytes" where
  "cont_loop c [] = (c, [])"
| "cont_loop c (b # bs) =
    (if b AND 0xC0 = 0x80 then cont_loop (push_bit 6 c + (0x3F AND ucast b)) bs else (c, b # bs))"

definition utf8_fix :: "u32 \<Rightarrow> u32" where
  "utf8_fix c =
    (if c < 0x80 \<or> c AND 0xFFFFF800 = 0xD800 \<or> c AND 0xFFFFFFFE = 0xFFFE then 0xFFFD else c)"

fun READ_UTF8 :: "bytes \<Rightarrow> u32 \<times> bytes" where
  "READ_UTF8 [] = (0, [])"
| "READ_UTF8 (b # bs) =
    (if b \<ge> 0xC0 then
       (let (c, rest) = cont_loop (word_of_nat (sqlite3Utf8Trans1 ! (unat b - 0xC0))) bs in (utf8_fix c, rest))
     else (ucast b, bs))"

text \<open>\<open>sqlite3Utf8Read\<close> is the same on a zero-terminated text: the terminator ends the loop.\<close>

definition sqlite3Utf8Read :: "bytes \<Rightarrow> u32 \<times> bytes" where
  "sqlite3Utf8Read z = READ_UTF8 z"

function limited_loop :: "bytes \<Rightarrow> nat \<Rightarrow> nat \<Rightarrow> u32 \<Rightarrow> nat \<times> u32" where
  "limited_loop z n i c =
    (if i < n \<and> zat z i AND 0xC0 = 0x80
     then limited_loop z n (i + 1) (push_bit 6 c + (0x3F AND ucast (zat z i))) else (i, c))"
  by pat_completeness auto
termination
  by (relation "measure (\<lambda>(z, n, i, c). n - i)") auto

declare limited_loop.simps [simp del]

definition sqlite3Utf8ReadLimited :: "bytes \<Rightarrow> nat \<Rightarrow> nat \<times> u32" where
  "sqlite3Utf8ReadLimited z n =
    (if zat z 0 \<ge> 0xC0
     then limited_loop z (min n 4) 1 (word_of_nat (sqlite3Utf8Trans1 ! (unat (zat z 0) - 0xC0)))
     else (1, ucast (zat z 0)))"

text \<open>A unit of UTF-16, and the low half of a pair where the high half begins one.\<close>

definition unit16 :: "bool \<Rightarrow> u8 \<Rightarrow> u8 \<Rightarrow> u32" where
  "unit16 be a b = (if be then push_bit 8 (ucast a) + ucast b else ucast a + push_bit 8 (ucast b))"

fun read_utf16 :: "bool \<Rightarrow> bytes \<Rightarrow> u32 \<times> bytes" where
  "read_utf16 be (a # b # a2 # b2 # rest) =
    (let c = unit16 be a b
     in if c \<ge> 0xD800 \<and> c < 0xE000 then
          (let c2 = unit16 be a2 b2
           in ((c2 AND 0x03FF) + push_bit 10 (c AND 0x003F) + push_bit 10 ((c AND 0x03C0) + 0x0040), rest))
        else (c, a2 # b2 # rest))"
| "read_utf16 be (a # b # rest) = (unit16 be a b, rest)"
| "read_utf16 be z = (0, [])"

section \<open>Texts\<close>

lemma cont_loop_length: "length (snd (cont_loop c bs)) \<le> length bs"
  by (induction c bs rule: cont_loop.induct) auto

lemma READ_UTF8_length: "z \<noteq> [] \<Longrightarrow> length (snd (READ_UTF8 z)) < length z"
  using cont_loop_length by (cases z) (auto simp: Let_def less_Suc_eq_le split: prod.split, metis snd_conv)

lemma read_utf16_length: "z \<noteq> [] \<Longrightarrow> length (snd (read_utf16 be z)) < length z"
  by (induction be z rule: read_utf16.induct) (auto simp: Let_def)

function utf8_to_16 :: "bool \<Rightarrow> bytes \<Rightarrow> bytes" where
  "utf8_to_16 be z =
    (if z = [] then []
     else case READ_UTF8 z of (c, z) \<Rightarrow> (if be then WRITE_UTF16BE c else WRITE_UTF16LE c) @ utf8_to_16 be z)"
  by pat_completeness auto
termination
  by (relation "measure (\<lambda>(be, z). length z)") (use READ_UTF8_length in \<open>auto, metis snd_conv\<close>)

function utf16_to_8 :: "bool \<Rightarrow> bytes \<Rightarrow> bytes" where
  "utf16_to_8 be z =
    (if z = [] then []
     else case read_utf16 be z of (c, z) \<Rightarrow> WRITE_UTF8 c @ utf16_to_8 be z)"
  by pat_completeness auto
termination
  by (relation "measure (\<lambda>(be, z). length z)") (use read_utf16_length in \<open>auto, metis snd_conv\<close>)

declare utf8_to_16.simps [simp del] utf16_to_8.simps [simp del]

fun swap_pairs :: "bytes \<Rightarrow> bytes" where
  "swap_pairs (a # b # rest) = b # a # swap_pairs rest"
| "swap_pairs z = z"

text \<open>The members of \<open>Mem\<close>: the \<open>n\<close> bytes at \<open>z\<close>, the encoding (1, 2 or 3) and the flags.\<close>

record mem =
  m_z :: bytes
  m_enc :: nat
  m_flags :: u16

definition MEM_Str :: u16 where "MEM_Str = 0x0002"
definition MEM_AffMask :: u16 where "MEM_AffMask = 0x003f"
definition MEM_Term :: u16 where "MEM_Term = 0x0200"
definition MEM_Subtype :: u16 where "MEM_Subtype = 0x0800"

text \<open>\<open>room\<close> says whether the allocation succeeds.\<close>

definition sqlite3VdbeMemTranslate :: "bool \<Rightarrow> mem \<Rightarrow> nat \<Rightarrow> rc \<times> mem" where
  "sqlite3VdbeMemTranslate room pMem desiredEnc =
    (if m_enc pMem \<noteq> 1 \<and> desiredEnc \<noteq> 1 then
       (if \<not> room then (SQLITE_NOMEM, pMem)
        else (SQLITE_OK, pMem\<lparr>m_z := swap_pairs (m_z pMem), m_enc := desiredEnc\<rparr>))
     else
       (let z = m_z pMem;
            z = (if desiredEnc = 1 then take (length z - length z mod 2) z else z);
            out = (if m_enc pMem = 1 then utf8_to_16 (desiredEnc = 3) z else utf16_to_8 (m_enc pMem = 3) z)
        in if \<not> room then (SQLITE_NOMEM, pMem\<lparr>m_z := z\<rparr>)
           else (SQLITE_OK, \<lparr>m_z = out, m_enc = desiredEnc,
                  m_flags = MEM_Str OR MEM_Term OR (m_flags pMem AND (MEM_AffMask OR MEM_Subtype))\<rparr>)))"

definition sqlite3VdbeMemHandleBom :: "bool \<Rightarrow> mem \<Rightarrow> rc \<times> mem" where
  "sqlite3VdbeMemHandleBom room pMem =
    (let z = m_z pMem;
         bom = (if length z > 1 then
                  (if z ! 0 = 0xFE \<and> z ! 1 = 0xFF then 3 else if z ! 0 = 0xFF \<and> z ! 1 = 0xFE then 2 else 0)
                else 0)
     in if bom = 0 then (SQLITE_OK, pMem)
        else if \<not> room then (SQLITE_NOMEM, pMem)
        else (SQLITE_OK, \<lparr>m_z = drop 2 z, m_enc = bom, m_flags = m_flags pMem OR MEM_Term\<rparr>))"

section \<open>Counting\<close>

function skip_cont :: "bytes \<Rightarrow> nat \<Rightarrow> nat" where
  "skip_cont z i = (if zat z i AND 0xC0 = 0x80 then skip_cont z (i + 1) else i)"
  by pat_completeness auto
termination
proof (relation "measure (\<lambda>(z, i). length z - i)", goal_cases)
  case (2 z i)
  then have "zat z i \<noteq> 0" by auto
  then show ?case using zat_inside [of z i] by simp
qed simp

declare skip_cont.simps [simp del]

definition SQLITE_SKIP_UTF8 :: "bytes \<Rightarrow> nat \<Rightarrow> nat" where
  "SQLITE_SKIP_UTF8 z i = (if zat z i \<ge> 0xC0 then skip_cont z (i + 1) else i + 1)"

lemma skip_cont_ge: "i \<le> skip_cont z i"
  by (induction z i rule: skip_cont.induct) (subst skip_cont.simps, auto)

text \<open>\<open>zTerm\<close> is \<open>None\<close> where \<open>nByte\<close> is negative.\<close>

function char_loop :: "bytes \<Rightarrow> nat option \<Rightarrow> nat \<Rightarrow> nat \<Rightarrow> nat" where
  "char_loop z zTerm i r =
    (if zat z i \<noteq> 0 \<and> (case zTerm of None \<Rightarrow> True | Some t \<Rightarrow> i < t)
     then char_loop z zTerm (SQLITE_SKIP_UTF8 z i) (r + 1) else r)"
  by pat_completeness auto
termination
proof (relation "measure (\<lambda>(z, _, i, _). length z - i)", goal_cases)
  case (2 z zTerm i r)
  have "i < SQLITE_SKIP_UTF8 z i" using skip_cont_ge [of "i + 1" z] by (simp add: SQLITE_SKIP_UTF8_def)
  then show ?case using 2 zat_inside [of z i] by simp
qed simp

declare char_loop.simps [simp del]

definition sqlite3Utf8CharLen :: "bytes \<Rightarrow> int \<Rightarrow> nat" where
  "sqlite3Utf8CharLen zIn nByte = char_loop zIn (if nByte \<ge> 0 then Some (nat nByte) else None) 0 0"

text \<open>\<open>le\<close> is the native byte order; \<open>zEnd\<close> is the position of the last byte.\<close>

function byte_len_loop :: "bytes \<Rightarrow> nat \<Rightarrow> nat \<Rightarrow> nat \<Rightarrow> nat" where
  "byte_len_loop z n zEnd i =
    (if 0 < n \<and> i < zEnd then
       (let c = zat z i; i = i + 2
        in byte_len_loop z (n - 1) zEnd
             (if c \<ge> 0xD8 \<and> c < 0xDC \<and> i < zEnd \<and> zat z i \<ge> 0xDC \<and> zat z i < 0xE0 then i + 2 else i))
     else i)"
  by pat_completeness auto
termination
  by (relation "measure (\<lambda>(z, n, zEnd, i). n)") auto

declare byte_len_loop.simps [simp del]

definition sqlite3Utf16ByteLen :: "bool \<Rightarrow> bytes \<Rightarrow> nat \<Rightarrow> nat \<Rightarrow> nat" where
  "sqlite3Utf16ByteLen le z nByte nChar =
    byte_len_loop z nChar nByte (if le then 1 else 0) - (if le then 1 else 0)"

section \<open>Fields of words as numbers\<close>

lemma nat_and_field: "x AND push_bit k (mask n) = 2 ^ k * (x div 2 ^ k mod 2 ^ n)" for x :: nat
proof -
  have "x AND push_bit k (mask n) = push_bit k (take_bit n (drop_bit k x))"
    by (rule bit_eqI) (auto simp: bit_and_iff bit_push_bit_iff bit_mask_iff bit_take_bit_iff bit_drop_bit_eq)
  then show ?thesis by (simp add: push_bit_eq_mult take_bit_eq_mod drop_bit_eq_div mult.commute)
qed

lemma nat_and_low: "x AND mask n = x mod 2 ^ n" for x :: nat
  by (simp add: take_bit_eq_mask [symmetric] take_bit_eq_mod)

lemma nat_fields:
  fixes x :: nat
  shows "x AND 0x3F = x mod 64" "x AND 0x1F = x mod 32" "x AND 0x0F = x mod 16" "x AND 0x07 = x mod 8"
    "x AND 0x03 = x mod 4" "x AND 0xFF = x mod 256" "x AND 0x3FF = x mod 1024"
    "x AND 0xC0 = 64 * (x div 64 mod 4)" "x AND 0x3C0 = 64 * (x div 64 mod 16)"
    "x AND 0xFFFFF800 = 2048 * (x div 2048 mod 2097152)" "x AND 0xFFFFFFFE = 2 * (x div 2 mod 2147483648)"
proof -
  show "x AND 0x3F = x mod 64" using nat_and_low [of x 6] by (simp add: mask_eq_exp_minus_1)
  show "x AND 0x1F = x mod 32" using nat_and_low [of x 5] by (simp add: mask_eq_exp_minus_1)
  show "x AND 0x0F = x mod 16" using nat_and_low [of x 4] by (simp add: mask_eq_exp_minus_1)
  show "x AND 0x07 = x mod 8" using nat_and_low [of x 3] by (simp add: mask_eq_exp_minus_1)
  show "x AND 0x03 = x mod 4" using nat_and_low [of x 2] by (simp add: mask_eq_exp_minus_1)
  show "x AND 0xFF = x mod 256" using nat_and_low [of x 8] by (simp add: mask_eq_exp_minus_1)
  show "x AND 0x3FF = x mod 1024" using nat_and_low [of x 10] by (simp add: mask_eq_exp_minus_1)
  show "x AND 0xC0 = 64 * (x div 64 mod 4)" using nat_and_field [of x 6 2] by (simp add: mask_eq_exp_minus_1 push_bit_eq_mult)
  show "x AND 0x3C0 = 64 * (x div 64 mod 16)" using nat_and_field [of x 6 4] by (simp add: mask_eq_exp_minus_1 push_bit_eq_mult)
  show "x AND 0xFFFFF800 = 2048 * (x div 2048 mod 2097152)" using nat_and_field [of x 11 21] by (simp add: mask_eq_exp_minus_1 push_bit_eq_mult)
  show "x AND 0xFFFFFFFE = 2 * (x div 2 mod 2147483648)" using nat_and_field [of x 1 31] by (simp add: mask_eq_exp_minus_1 push_bit_eq_mult)
qed

lemma unat_fields:
  fixes w :: u32
  shows "unat (w AND 0x3F) = unat w mod 64" "unat (w AND 0x1F) = unat w mod 32" "unat (w AND 0x0F) = unat w mod 16"
    "unat (w AND 0x07) = unat w mod 8" "unat (w AND 0x03) = unat w mod 4" "unat (w AND 0xFF) = unat w mod 256"
    "unat (w AND 0x3FF) = unat w mod 1024" "unat (w AND 0xC0) = 64 * (unat w div 64 mod 4)"
    "unat (w AND 0x3C0) = 64 * (unat w div 64 mod 16)"
    "unat (w AND 0xFFFFF800) = 2048 * (unat w div 2048 mod 2097152)"
    "unat (w AND 0xFFFFFFFE) = 2 * (unat w div 2 mod 2147483648)"
  by (simp_all add: unsigned_and_eq nat_fields)

text \<open>Bytes built from a field of a code point.\<close>

lemma byte_of_field:
  fixes w :: u32 and b :: u8
  assumes "unat w \<le> 255" and "unat b + unat w \<le> 255"
  shows "unat (b + ucast w) = unat b + unat w"
proof -
  have "unat (ucast w :: u8) = unat w" using assms(1) by (simp add: unat_ucast_mod)
  then show ?thesis using assms(2) by (simp add: unat_add_eq)
qed

lemma cont_byte: "unat (0x80 + ucast (w AND 0x3F) :: u8) = 0x80 + unat w mod 64" for w :: u32
proof -
  have "unat w mod 64 < 64" by simp
  then show ?thesis by (subst byte_of_field) (simp_all add: unat_fields)
qed

lemma lead_bytes:
  fixes w :: u32
  shows "unat (0xC0 + ucast (w AND 0x1F) :: u8) = 0xC0 + unat w mod 32"
    "unat (0xE0 + ucast (w AND 0x0F) :: u8) = 0xE0 + unat w mod 16"
    "unat (0xF0 + ucast (w AND 0x07) :: u8) = 0xF0 + unat w mod 8"
proof -
  have m: "unat w mod 32 < 32" "unat w mod 16 < 16" "unat w mod 8 < 8" by simp_all
  show "unat (0xC0 + ucast (w AND 0x1F) :: u8) = 0xC0 + unat w mod 32"
    by (subst byte_of_field) (use m in \<open>simp_all add: unat_fields\<close>)
  show "unat (0xE0 + ucast (w AND 0x0F) :: u8) = 0xE0 + unat w mod 16"
    by (subst byte_of_field) (use m in \<open>simp_all add: unat_fields\<close>)
  show "unat (0xF0 + ucast (w AND 0x07) :: u8) = 0xF0 + unat w mod 8"
    by (subst byte_of_field) (use m in \<open>simp_all add: unat_fields\<close>)
qed

definition continues :: "u8 \<Rightarrow> bool" where
  "continues b \<longleftrightarrow> b AND 0xC0 = 0x80"

lemma continues_iff: "continues b \<longleftrightarrow> 0x80 \<le> unat b \<and> unat b < 0xC0"
proof -
  have "continues b \<longleftrightarrow> unat (b AND 0xC0) = 0x80" by (simp add: continues_def word_eq_iff_unsigned [where ?'a = nat])
  also have "unat (b AND 0xC0) = 64 * (unat b div 64 mod 4)" by (simp add: unsigned_and_eq nat_fields)
  finally show ?thesis using unat_less [of b] by simp linarith
qed

section \<open>One character\<close>

definition scalar :: "u32 \<Rightarrow> bool" where
  "scalar c \<longleftrightarrow> unat c < 0x110000 \<and> \<not> (0xD800 \<le> unat c \<and> unat c < 0xE000) \<and> unat c \<noteq> 0xFFFE \<and> unat c \<noteq> 0xFFFF"

definition starts :: "bytes \<Rightarrow> bool" where
  "starts bs \<longleftrightarrow> (bs = [] \<or> \<not> continues (hd bs))"

lemma cont_stop: "starts bs \<Longrightarrow> cont_loop c bs = (c, bs)"
  by (cases bs) (auto simp: starts_def continues_def)

lemma cont_step:
  assumes "continues b" shows "cont_loop (word_of_nat a) (b # bs) = cont_loop (word_of_nat (a * 64 + unat b mod 64)) bs"
proof -
  have "unat (0x3F AND ucast b :: u32) = unat b mod 64"
  proof -
    have "unat (ucast b :: u32) = unat b" using unat_less [of b] by (simp add: unat_ucast_mod)
    then show ?thesis using unat_fields(1) [of "ucast b"] by (simp add: and.commute)
  qed
  then have low: "0x3F AND ucast b = (word_of_nat (unat b mod 64) :: u32)"
  proof -
    have "0x3F AND ucast b = (word_of_nat (unat (0x3F AND ucast b :: u32)) :: u32)" by simp
    then show ?thesis by (simp only: \<open>unat (0x3F AND ucast b :: u32) = unat b mod 64\<close>)
  qed
  have "push_bit 6 (word_of_nat a) = (word_of_nat (a * 64) :: u32)" by (simp add: push_bit_eq_mult)
  then show ?thesis using assms low by (simp add: continues_def)
qed

lemma Trans1_fields:
  "k < 32 \<Longrightarrow> sqlite3Utf8Trans1 ! k = k" "k < 16 \<Longrightarrow> sqlite3Utf8Trans1 ! (32 + k) = k"
  "k < 8 \<Longrightarrow> sqlite3Utf8Trans1 ! (48 + k) = k"
proof -
  have t: "take 32 sqlite3Utf8Trans1 = [0..<32]" "take 16 (drop 32 sqlite3Utf8Trans1) = [0..<16]"
      "take 8 (drop 48 sqlite3Utf8Trans1) = [0..<8]" by code_simp+
  have l: "length sqlite3Utf8Trans1 = 64" by (simp add: sqlite3Utf8Trans1_def)
  show "k < 32 \<Longrightarrow> sqlite3Utf8Trans1 ! k = k" using arg_cong [OF t(1), of "\<lambda>xs. xs ! k"] by simp
  show "k < 16 \<Longrightarrow> sqlite3Utf8Trans1 ! (32 + k) = k" using arg_cong [OF t(2), of "\<lambda>xs. xs ! k"] l by simp
  show "k < 8 \<Longrightarrow> sqlite3Utf8Trans1 ! (48 + k) = k" using arg_cong [OF t(3), of "\<lambda>xs. xs ! k"] l by simp
qed

lemma fix_scalar: "scalar c \<Longrightarrow> 0x80 \<le> unat c \<Longrightarrow> utf8_fix c = c"
proof -
  assume c: "scalar c" "0x80 \<le> unat c"
  have "c AND 0xFFFFF800 \<noteq> 0xD800"
  proof
    assume "c AND 0xFFFFF800 = 0xD800"
    then have "unat (c AND 0xFFFFF800) = 0xD800" by simp
    then have "unat c div 2048 mod 2097152 = 27" by (simp only: unat_fields)
    moreover have "unat c div 2048 \<le> 1114112 div 2048" using c(1) by (intro div_le_mono) (simp add: scalar_def)
    ultimately have "unat c div 2048 = 27" by simp
    then show False using c(1) by (simp add: scalar_def) linarith
  qed
  moreover have "c AND 0xFFFFFFFE \<noteq> 0xFFFE"
  proof
    assume "c AND 0xFFFFFFFE = 0xFFFE"
    then have "unat (c AND 0xFFFFFFFE) = 0xFFFE" by simp
    then have "unat c div 2 mod 2147483648 = 32767" by (simp only: unat_fields)
    moreover have "unat c div 2 \<le> 1114112 div 2" using c(1) by (intro div_le_mono) (simp add: scalar_def)
    ultimately have "unat c div 2 = 32767" by simp
    then show False using c(1) by (simp add: scalar_def) linarith
  qed
  moreover have "\<not> c < 0x80" using c(2) by (simp add: word_less_nat_alt)
  ultimately show ?thesis by (simp add: utf8_fix_def)
qed

lemma READ_lead:
  "0xC0 \<le> unat b \<Longrightarrow> READ_UTF8 (b # bs) =
     (let (c, rest) = cont_loop (word_of_nat (sqlite3Utf8Trans1 ! (unat b - 0xC0))) bs in (utf8_fix c, rest))"
  by (simp add: word_le_nat_alt)

lemma mod_128: "(128 + m mod 64) mod 64 = m mod 64" for m :: nat
proof -
  have "128 + m mod 64 = m mod 64 + 2 * 64" by simp
  then show ?thesis by (simp only: mod_mult_self1 mod_mod_trivial)
qed

lemma cont_bytes: "continues (0x80 + ucast (w AND 0x3F))" "unat (0x80 + ucast (w AND 0x3F) :: u8) mod 64 = unat w mod 64" for w :: u32
proof -
  have "unat w mod 64 < 64" by simp
  then show "continues (0x80 + ucast (w AND 0x3F))" by (simp add: continues_iff cont_byte)
  show "unat (0x80 + ucast (w AND 0x3F) :: u8) mod 64 = unat w mod 64" unfolding cont_byte by (rule mod_128)
qed

lemma unat_below: "c < 0x80 \<longleftrightarrow> unat c < 128" "c < 0x800 \<longleftrightarrow> unat c < 2048" "c < 0x10000 \<longleftrightarrow> unat c < 65536"
    "c \<le> 0xFFFF \<longleftrightarrow> unat c \<le> 65535" for c :: u32
  by (simp_all add: word_less_nat_alt word_le_nat_alt)

abbreviation join_bits :: "nat \<Rightarrow> bytes \<Rightarrow> nat" where
  "join_bits \<equiv> foldl (\<lambda>a b. a * 64 + unat b mod 64)"

lemma cont_run: "list_all continues bs \<Longrightarrow> starts rest \<Longrightarrow> cont_loop (word_of_nat a) (bs @ rest) = (word_of_nat (join_bits a bs), rest)"
proof (induction bs arbitrary: a)
  case (Cons b bs)
  have "cont_loop (word_of_nat a) ((b # bs) @ rest) = cont_loop (word_of_nat (a * 64 + unat b mod 64)) (bs @ rest)"
    unfolding append_Cons by (rule cont_step) (use Cons.prems(1) in simp)
  also have "\<dots> = (word_of_nat (join_bits (a * 64 + unat b mod 64) bs), rest)"
    by (rule Cons.IH) (use Cons.prems in simp_all)
  finally show ?case by (simp only: foldl_Cons)
qed (simp add: cont_stop)

lemma READ_multi:
  assumes "unat b = 0xC0 + k" and "list_all continues bs" and "starts rest"
  shows "READ_UTF8 (b # bs @ rest) = (utf8_fix (word_of_nat (join_bits (sqlite3Utf8Trans1 ! k) bs)), rest)"
proof -
  have "READ_UTF8 (b # bs @ rest) = (let (c, rest) = cont_loop (word_of_nat (sqlite3Utf8Trans1 ! k)) (bs @ rest) in (utf8_fix c, rest))"
    using READ_lead [of b "bs @ rest"] assms(1) by simp
  then show ?thesis by (simp only: cont_run [OF assms(2,3)] Let_def prod.case)
qed

lemma READ_WRITE_UTF8:
  assumes "scalar c" and "starts rest"
  shows "READ_UTF8 (WRITE_UTF8 c @ rest) = (c, rest)"
proof -
  define n where "n = unat c"
  have c: "word_of_nat n = c" by (simp add: n_def)
  define b3 b2 b1 :: u8 where "b3 = 0x80 + ucast (drop_bit 12 c AND 0x3F)"
    and "b2 = 0x80 + ucast (drop_bit 6 c AND 0x3F)" and "b1 = 0x80 + ucast (c AND 0x3F)"
  have conts: "continues b3" "continues b2" "continues b1"
    unfolding b3_def b2_def b1_def by (rule cont_bytes(1))+
  have vals: "unat b3 mod 64 = n div 4096 mod 64" "unat b2 mod 64 = n div 64 mod 64" "unat b1 mod 64 = n mod 64"
    unfolding b3_def b2_def b1_def cont_bytes(2) by (simp_all add: unat_drop n_def)
  note fix_scalar = fix_scalar [OF assms(1)]
  consider "n < 128" | "128 \<le> n" "n < 2048" | "2048 \<le> n" "n < 65536" | "65536 \<le> n" "n < 0x110000"
    using assms(1) unfolding scalar_def n_def by linarith
  then show ?thesis
  proof cases
    case 1
    have u: "unat (ucast (c AND 0xFF) :: u8) = n" using 1 by (simp add: unat_ucast_mod unat_fields n_def)
    then have "unat (ucast (ucast (c AND 0xFF) :: u8) :: u32) = unat c"
      using 1 by (simp only: unat_ucast_mod [of "ucast (c AND 0xFF) :: u8", where 'b = 32] n_def) simp
    then have "ucast (ucast (c AND 0xFF) :: u8) = c" by (simp only: word_unat_eq_iff)
    moreover have "WRITE_UTF8 c = [ucast (c AND 0xFF)]" using 1 by (simp only: WRITE_UTF8_def unat_below n_def [symmetric] if_True)
    moreover have "\<not> (0xC0 \<le> (ucast (c AND 0xFF) :: u8))" using u 1 by (simp add: word_le_nat_alt)
    ultimately show ?thesis by simp
  next
    case 2
    then have fixed: "utf8_fix (word_of_nat n) = c" using fix_scalar c n_def by simp
    define b0 :: u8 where "b0 = 0xC0 + ucast (drop_bit 6 c AND 0x1F)"
    have l: "unat b0 = 0xC0 + n div 64" using 2 by (simp add: b0_def lead_bytes unat_drop n_def)
    have "WRITE_UTF8 c = [b0, b1]"
      using 2 by (simp only: WRITE_UTF8_def unat_below n_def [symmetric] b0_def b1_def if_False if_True not_less [symmetric])
    moreover have "join_bits (n div 64) [b1] = n" by (simp add: vals)
    moreover have "sqlite3Utf8Trans1 ! (n div 64) = n div 64" using 2 by (intro Trans1_fields(1)) simp
    moreover have "list_all continues [b1]" using conts by simp
    ultimately show ?thesis
      using READ_multi [OF l _ assms(2), of "[b1]"] by (simp only: append_Cons append_Nil fixed)
  next
    case 3
    then have fixed: "utf8_fix (word_of_nat n) = c" using fix_scalar c n_def by simp
    define b0 :: u8 where "b0 = 0xE0 + ucast (drop_bit 12 c AND 0x0F)"
    have l: "unat b0 = 0xC0 + (32 + n div 4096)" using 3 by (simp add: b0_def lead_bytes unat_drop n_def)
    have "WRITE_UTF8 c = [b0, b2, b1]"
      using 3 by (simp add: WRITE_UTF8_def unat_below n_def [symmetric] b0_def b1_def b2_def)
    moreover have "join_bits (n div 4096) [b2, b1] = n"
      using div_mult2_eq [of n 64 64] by (simp add: vals)
    moreover have "sqlite3Utf8Trans1 ! (32 + n div 4096) = n div 4096" using 3 by (intro Trans1_fields(2)) simp
    moreover have "list_all continues [b2, b1]" using conts by simp
    ultimately show ?thesis
      using READ_multi [OF l _ assms(2), of "[b2, b1]"] by (simp only: append_Cons append_Nil fixed)
  next
    case 4
    then have fixed: "utf8_fix (word_of_nat n) = c" using fix_scalar c n_def by simp
    define b0 :: u8 where "b0 = 0xF0 + ucast (drop_bit 18 c AND 0x07)"
    have l: "unat b0 = 0xC0 + (48 + n div 262144)" using 4 by (simp add: b0_def lead_bytes unat_drop n_def)
    have "WRITE_UTF8 c = [b0, b3, b2, b1]"
      using 4 by (simp add: WRITE_UTF8_def unat_below n_def [symmetric] b0_def b1_def b2_def b3_def)
    moreover have "join_bits (n div 262144) [b3, b2, b1] = n"
      using div_mult2_eq [of n 64 64] div_mult2_eq [of n 4096 64] by (simp add: vals)
    moreover have "sqlite3Utf8Trans1 ! (48 + n div 262144) = n div 262144" using 4 by (intro Trans1_fields(3)) simp
    moreover have "list_all continues [b3, b2, b1]" using conts by simp
    ultimately show ?thesis
      using READ_multi [OF l _ assms(2), of "[b3, b2, b1]"] by (simp only: append_Cons append_Nil fixed)
  qed
qed

section \<open>One character in UTF-16\<close>

definition WRITE_UTF16 :: "bool \<Rightarrow> u32 \<Rightarrow> bytes" where
  "WRITE_UTF16 be c = (if be then WRITE_UTF16BE c else WRITE_UTF16LE c)"

lemma unit16_unat: "unat (unit16 be a b) = (if be then 256 * unat a + unat b else unat a + 256 * unat b)"
proof -
  have e: "unat (ucast x :: u32) = unat x" for x :: u8 using unat_less [of x] by (simp add: unat_ucast_mod)
  have p: "unat (push_bit 8 (ucast x) :: u32) = 256 * unat x" for x :: u8
  proof -
    have "push_bit 8 (ucast x) = (256 * ucast x :: u32)" by (simp add: push_bit_eq_mult)
    moreover have "unat (256 * ucast x :: u32) = unat (256 :: u32) * unat (ucast x :: u32)"
      by (rule unat_mult_eq) (use unat_less [of x] in \<open>simp add: e\<close>)
    ultimately show ?thesis by (simp only: e) simp
  qed
  have s: "unat (x + y :: u32) = unat x + unat y" if "unat x \<le> 256 * 255" "unat y \<le> 256 * 255" for x y :: u32
    by (rule unat_add_eq) (use that in simp)
  have l: "unat x \<le> 255" for x :: u8 using unat_less [of x] by simp
  have pb: "unat (push_bit 8 (ucast x) :: u32) \<le> 256 * 255" for x :: u8 unfolding p using l [of x] by linarith
  have eb: "unat (ucast x :: u32) \<le> 256 * 255" for x :: u8 unfolding e using l [of x] by linarith
  show ?thesis
  proof (cases be)
    case True
    have "unat (unit16 True a b) = unat (push_bit 8 (ucast a) :: u32) + unat (ucast b :: u32)"
      unfolding unit16_def if_True by (rule s [OF pb eb])
    then show ?thesis using True by (simp only: p e if_True)
  next
    case False
    have "unat (unit16 False a b) = unat (ucast a :: u32) + unat (push_bit 8 (ucast b) :: u32)"
      unfolding unit16_def if_False by (rule s [OF eb pb])
    then show ?thesis using False by (simp only: p e if_False)
  qed
qed

lemma unat_ucast_u8: "unat w < 256 \<Longrightarrow> unat (ucast w :: u8) = unat w" for w :: u32
  by (simp add: unat_ucast_mod)

text \<open>The two units of a code point: the first is the whole of it below \<open>0x10000\<close>.\<close>

lemma WRITE_UTF16_small:
  assumes "unat c < 65536"
  obtains a b where "WRITE_UTF16 be c = [a, b]" and "unat (unit16 be a b) = unat c"
proof -
  define lo hi :: u8 where "lo = ucast (c AND 0xFF)" and "hi = ucast (drop_bit 8 c AND 0xFF)"
  have u: "unat lo = unat c mod 256" "unat hi = unat c div 256"
    using assms by (simp_all add: lo_def hi_def unat_ucast_u8 unat_fields unat_drop)
  show ?thesis
  proof (cases be)
    case True
    then show ?thesis using assms u
      by (intro that [of hi lo]) (simp_all add: WRITE_UTF16_def WRITE_UTF16BE_def unat_below unit16_unat lo_def hi_def)
  next
    case False
    then show ?thesis using assms u
      by (intro that [of lo hi]) (simp_all add: WRITE_UTF16_def WRITE_UTF16LE_def unat_below unit16_unat lo_def hi_def)
  qed
qed

lemma split_fields: "k = k div 64 div 4 * 256 + (k div 64 mod 4) * 64 + k mod 64" for k :: nat
  using div_mult_mod_eq [of k 64] div_mult_mod_eq [of "k div 64" 4] by linarith

lemma WRITE_UTF16_large:
  assumes "65536 \<le> unat c" and "unat c < 0x110000"
  obtains a b d e where "WRITE_UTF16 be c = [a, b, d, e]"
    and "unat (unit16 be a b) = 0xD800 + (unat c - 65536) div 1024" and "unat (unit16 be d e) = 0xDC00 + unat c mod 1024"
proof -
  define m where "m = unat c - 65536"
  have m: "unat c = m + 65536" "m < 0x100000" using assms by (simp_all add: m_def)
  have um: "unat (c - 0x10000) = m" using assms(1) by (simp add: m_def unat_sub word_le_nat_alt)
  define b0 b1 b2 b3 :: u8 where "b0 = ucast ((drop_bit 10 c AND 0x3F) + (drop_bit 10 (c - 0x10000) AND 0xC0))"
    and "b1 = ucast (0xD8 + (drop_bit 18 (c - 0x10000) AND 0x03))"
    and "b2 = ucast (c AND 0xFF)" and "b3 = ucast (0xDC + (drop_bit 8 c AND 0x03))"
  have "unat c = m + 64 * 1024" using m(1) by simp
  then have "unat c div 1024 = 64 + m div 1024" by (simp only: div_mult_self1 add.commute)
  then have c10: "unat c div 1024 mod 64 = m div 1024 mod 64" by simp
  have f: "unat (drop_bit 10 c AND 0x3F) = m div 1024 mod 64" "unat (drop_bit 10 (c - 0x10000) AND 0xC0) = 64 * (m div 1024 div 64 mod 4)"
      "unat (drop_bit 18 (c - 0x10000) AND 0x03) = m div 262144 mod 4" "unat (drop_bit 8 c AND 0x03) = unat c div 256 mod 4"
    using c10 by (simp_all add: unat_fields unat_drop um)
  have r: "m div 1024 mod 64 < 64" "m div 1024 div 64 mod 4 < 4" "m div 262144 mod 4 < 4" "unat c div 256 mod 4 < 4" by simp_all
  have s: "unat ((drop_bit 10 c AND 0x3F) + (drop_bit 10 (c - 0x10000) AND 0xC0)) = m div 1024 mod 64 + 64 * (m div 1024 div 64 mod 4)"
    using r by (subst unat_add_eq) (simp_all add: f)
  have t: "unat (0xD8 + (drop_bit 18 (c - 0x10000) AND 0x03)) = 0xD8 + m div 262144 mod 4"
      "unat (0xDC + (drop_bit 8 c AND 0x03)) = 0xDC + unat c div 256 mod 4"
    using r by (subst unat_add_eq; simp add: f)+
  have v: "unat b0 = m div 1024 mod 64 + 64 * (m div 1024 div 64 mod 4)" "unat b1 = 0xD8 + m div 262144 mod 4"
      "unat b2 = unat c mod 256" "unat b3 = 0xDC + unat c div 256 mod 4"
    using r by (simp_all add: b0_def b1_def b2_def b3_def unat_ucast_u8 s t unat_fields)
  have hi: "256 * unat b1 + unat b0 = 0xD800 + m div 1024"
  proof -
    define k where "k = m div 1024"
    have "m div 262144 = k div 64 div 4" "k < 1024" using m(2) by (simp_all add: k_def div_mult2_eq [symmetric] less_mult_imp_div_less)
    moreover have "k div 64 div 4 < 4" using \<open>k < 1024\<close> by (simp add: less_mult_imp_div_less)
    ultimately show ?thesis using split_fields [of k] unfolding v k_def [symmetric] by simp
  qed
  have lo: "256 * unat b3 + unat b2 = 0xDC00 + unat c mod 1024"
  proof -
    have "unat c mod 1024 = unat c div 256 mod 4 * 256 + unat c mod 256" using mod_mult2_eq [of "unat c" 256 4] by simp
    moreover have "256 * (0xDC + j) + r = 0xDC00 + (j * 256 + r)" for j r :: nat by simp
    ultimately show ?thesis by (simp only: v)
  qed
  have "\<not> c \<le> 0xFFFF" using assms(1) by (simp add: unat_below)
  then show ?thesis
  proof (cases be)
    case True
    then show ?thesis using \<open>\<not> c \<le> 0xFFFF\<close> hi lo
      by (intro that [of b1 b0 b3 b2])
        (simp_all add: WRITE_UTF16_def WRITE_UTF16BE_def unit16_unat m_def b0_def b1_def b2_def b3_def)
  next
    case False
    then show ?thesis using \<open>\<not> c \<le> 0xFFFF\<close> hi lo
      by (intro that [of b0 b1 b2 b3])
        (simp_all add: WRITE_UTF16_def WRITE_UTF16LE_def unit16_unat m_def b0_def b1_def b2_def b3_def add.commute)
  qed
qed

text \<open>The code point that a pair of surrogates stands for.\<close>

definition join_pair :: "u32 \<Rightarrow> u32 \<Rightarrow> u32" where
  "join_pair h l = (l AND 0x03FF) + push_bit 10 (h AND 0x003F) + push_bit 10 ((h AND 0x03C0) + 0x0040)"

lemma unat_shift10: "unat x \<le> 1024 \<Longrightarrow> unat (push_bit 10 x :: u32) = 1024 * unat x" for x :: u32
proof -
  assume x: "unat x \<le> 1024"
  have "push_bit 10 x = 1024 * x" by (simp add: push_bit_eq_mult)
  moreover have "unat (1024 * x) = unat (1024 :: u32) * unat x" by (rule unat_mult_eq) (use x in simp)
  ultimately show ?thesis by simp
qed

lemma surrogate_fields:
  fixes h l :: u32
  assumes "unat h = 0xD800 + k" "k < 1024" "unat l = 0xDC00 + j" "j < 1024"
  shows "unat (l AND 0x03FF) = j" "unat (h AND 0x003F) = k mod 64" "unat (h AND 0x03C0) = 64 * (k div 64)"
proof -
  have "unat l = j + 55 * 1024" using assms(3) by simp
  then show "unat (l AND 0x03FF) = j" by (simp only: unat_fields mod_mult_self1 mod_less [OF assms(4)])
  have e: "unat h = k + 864 * 64" using assms(1) by simp
  show "unat (h AND 0x003F) = k mod 64" by (simp only: unat_fields e mod_mult_self1)
  have "unat h div 64 = 864 + k div 64" unfolding e by (simp only: div_mult_self1 zero_neq_numeral not_False_eq_True)
  moreover have "k div 64 < 16" using assms(2) by (simp add: less_mult_imp_div_less)
  moreover have "(864 + i) mod 16 = i" if "i < 16" for i :: nat
  proof -
    have "864 + i = i + 54 * 16" by simp
    then show ?thesis using that by (simp only: mod_mult_self1 mod_less)
  qed
  ultimately show "unat (h AND 0x03C0) = 64 * (k div 64)" by (simp add: unat_fields)
qed

lemma unat_join_pair:
  assumes "unat h = 0xD800 + k" "k < 1024" "unat l = 0xDC00 + j" "j < 1024"
  shows "unat (join_pair h l) = j + 1024 * k + 65536"
proof -
  note f = surrogate_fields [OF assms]
  have k64: "64 * (k div 64) \<le> 960" "k mod 64 < 64" using assms(2) by simp_all
  have h2: "unat ((h AND 0x03C0) + 0x0040) = 64 * (k div 64) + 64"
    using k64 by (subst unat_add_eq) (simp_all add: f)
  have s1: "unat (push_bit 10 (h AND 0x003F) :: u32) = 1024 * (k mod 64)"
    using k64 by (subst unat_shift10) (simp_all add: f)
  have s2: "unat (push_bit 10 ((h AND 0x03C0) + 0x0040) :: u32) = 1024 * (64 * (k div 64) + 64)"
    using k64 by (subst unat_shift10) (simp_all add: h2)
  have a1: "unat ((l AND 0x03FF) + push_bit 10 (h AND 0x003F)) = j + 1024 * (k mod 64)"
  proof -
    have "unat (l AND 0x03FF) + unat (push_bit 10 (h AND 0x003F) :: u32) < 2 ^ LENGTH(32)"
      unfolding f s1 using k64 assms(4) by simp
    from unat_add_eq [OF this] show ?thesis by (simp only: f s1)
  qed
  have "unat (join_pair h l) = j + 1024 * (k mod 64) + 1024 * (64 * (k div 64) + 64)"
  proof -
    have "unat ((l AND 0x03FF) + push_bit 10 (h AND 0x003F)) + unat (push_bit 10 ((h AND 0x03C0) + 0x0040) :: u32) < 2 ^ LENGTH(32)"
      unfolding a1 s2 using k64 assms(4) by simp
    from unat_add_eq [OF this] show ?thesis unfolding join_pair_def by (simp only: a1 s2)
  qed
  moreover have "j + 1024 * r + 1024 * (64 * q + 64) = j + 1024 * (q * 64 + r) + 65536" for q r by simp
  ultimately show ?thesis by (simp only: div_mult_mod_eq)
qed

lemma READ_WRITE_UTF16:
  assumes "scalar c" shows "read_utf16 be (WRITE_UTF16 be c @ rest) = (c, rest)"
proof (cases "unat c < 65536")
  case True
  obtain a b where w: "WRITE_UTF16 be c = [a, b]" and u: "unat (unit16 be a b) = unat c"
    using WRITE_UTF16_small [OF True] .
  have c: "unit16 be a b = c" using u by (simp only: word_unat_eq_iff)
  have "\<not> (0xD800 \<le> c \<and> c < 0xE000)" using assms by (simp add: scalar_def word_le_nat_alt word_less_nat_alt)
  then show ?thesis unfolding w by (cases rest; cases "tl rest") (auto simp: c)
next
  case False
  have r: "65536 \<le> unat c" "unat c < 0x110000" using False assms by (simp_all add: scalar_def)
  define k where "k = (unat c - 65536) div 1024"
  obtain a b d e where w: "WRITE_UTF16 be c = [a, b, d, e]"
      and u: "unat (unit16 be a b) = 0xD800 + k" "unat (unit16 be d e) = 0xDC00 + unat c mod 1024"
    unfolding k_def using WRITE_UTF16_large [OF r] .
  have k: "k < 1024" using r(2) by (simp add: k_def less_mult_imp_div_less)
  have "0xD800 \<le> unit16 be a b \<and> unit16 be a b < 0xE000" using u(1) k by (simp add: word_le_nat_alt word_less_nat_alt)
  moreover have "join_pair (unit16 be a b) (unit16 be d e) = c"
  proof -
    have "unat c = (unat c - 65536) + 64 * 1024" using r(1) by simp
    then have "unat c mod 1024 = (unat c - 65536) mod 1024" by (metis mod_mult_self1)
    then have "unat c mod 1024 + 1024 * k = unat c - 65536" by (simp add: k_def)
    then have "unat (join_pair (unit16 be a b) (unit16 be d e)) = unat c"
      using unat_join_pair [OF u(1) k u(2)] r(1) by simp
    then show ?thesis by (simp only: word_unat_eq_iff)
  qed
  ultimately show ?thesis by (simp add: w join_pair_def)
qed

section \<open>Texts of characters\<close>

definition utf8_text :: "u32 list \<Rightarrow> bytes" where
  "utf8_text cs = concat (map WRITE_UTF8 cs)"

definition utf16_text :: "bool \<Rightarrow> u32 list \<Rightarrow> bytes" where
  "utf16_text be cs = concat (map (WRITE_UTF16 be) cs)"

lemma WRITE_UTF8_starts: "WRITE_UTF8 c \<noteq> []" "\<not> continues (hd (WRITE_UTF8 c))"
proof -
  show "WRITE_UTF8 c \<noteq> []" by (simp add: WRITE_UTF8_def)
  have m: "n mod 32 < 32" "n mod 16 < 16" "n mod 8 < 8" for n :: nat by simp_all
  have small: "unat (ucast (c AND 0xFF) :: u8) < 128" if "c < 0x80"
    using that by (simp add: unat_ucast_u8 unat_fields unat_below)
  show "\<not> continues (hd (WRITE_UTF8 c))"
  proof (cases "c < 0x80")
    case True
    then show ?thesis using small by (simp add: WRITE_UTF8_def continues_iff)
  next
    case False
    then show ?thesis by (simp add: WRITE_UTF8_def continues_iff lead_bytes)
  qed
qed

lemma utf8_text_starts: "starts (utf8_text cs)"
  using WRITE_UTF8_starts by (cases cs) (auto simp: utf8_text_def starts_def hd_append)

lemma utf8_to_16_text: "list_all scalar cs \<Longrightarrow> utf8_to_16 be (utf8_text cs) = utf16_text be cs"
proof (induction cs)
  case (Cons c cs)
  have "READ_UTF8 (utf8_text (c # cs)) = (c, utf8_text cs)"
    using READ_WRITE_UTF8 [OF _ utf8_text_starts, of c cs] Cons.prems by (simp add: utf8_text_def)
  moreover have "utf8_text (c # cs) \<noteq> []" using WRITE_UTF8_starts(1) by (simp add: utf8_text_def)
  ultimately show ?case using Cons
    by (subst utf8_to_16.simps) (simp add: utf16_text_def WRITE_UTF16_def)
qed (simp add: utf8_text_def utf16_text_def utf8_to_16.simps)

lemma utf16_to_8_text: "list_all scalar cs \<Longrightarrow> utf16_to_8 be (utf16_text be cs) = utf8_text cs"
proof (induction cs)
  case (Cons c cs)
  have "read_utf16 be (utf16_text be (c # cs)) = (c, utf16_text be cs)"
    using READ_WRITE_UTF16 [of c be "utf16_text be cs"] Cons.prems by (simp add: utf16_text_def)
  moreover have "utf16_text be (c # cs) \<noteq> []"
    by (auto simp: utf16_text_def WRITE_UTF16_def WRITE_UTF16BE_def WRITE_UTF16LE_def)
  ultimately show ?case using Cons
    by (subst utf16_to_8.simps) (simp add: utf8_text_def)
qed (simp add: utf8_text_def utf16_text_def utf16_to_8.simps)

lemma utf16_text_even: "even (length (utf16_text be cs))"
  by (induction cs) (auto simp: utf16_text_def WRITE_UTF16_def WRITE_UTF16BE_def WRITE_UTF16LE_def)

lemma swap_pairs_append: "even (length xs) \<Longrightarrow> swap_pairs (xs @ ys) = swap_pairs xs @ swap_pairs ys"
  by (induction xs rule: swap_pairs.induct) auto

lemma swap_pairs_text: "swap_pairs (utf16_text be cs) = utf16_text (\<not> be) cs"
proof (induction cs)
  case (Cons c cs)
  have "even (length (WRITE_UTF16 be c))" by (auto simp: WRITE_UTF16_def WRITE_UTF16BE_def WRITE_UTF16LE_def)
  moreover have "swap_pairs (WRITE_UTF16 be c) = WRITE_UTF16 (\<not> be) c"
    by (auto simp: WRITE_UTF16_def WRITE_UTF16BE_def WRITE_UTF16LE_def)
  ultimately show ?case using Cons by (simp add: utf16_text_def swap_pairs_append)
qed (simp add: utf16_text_def)

section \<open>The size of the output\<close>

text \<open>The number of bytes allocated.\<close>

definition translate_len :: "bytes \<Rightarrow> nat \<Rightarrow> nat" where
  "translate_len z desiredEnc = (if desiredEnc = 1 then 2 * (length z - length z mod 2) + 1 else 2 * length z + 2)"

lemma WRITE_UTF16_length: "length (WRITE_UTF16 be c) = (if unat c < 65536 then 2 else 4)"
  by (auto simp: WRITE_UTF16_def WRITE_UTF16BE_def WRITE_UTF16LE_def unat_below)

lemma WRITE_UTF8_length: "length (WRITE_UTF8 c) \<le> (if unat c < 65536 then 3 else 4)"
  by (simp add: WRITE_UTF8_def unat_below)

lemma utf8_fix_small: "unat c < 128 \<Longrightarrow> unat (utf8_fix c) < 65536"
  by (simp add: utf8_fix_def unat_below)

lemma Trans1_small: "k < 64 \<Longrightarrow> sqlite3Utf8Trans1 ! k < 32"
proof -
  have "list_all (\<lambda>t. t < 32) sqlite3Utf8Trans1" by code_simp
  moreover have "length sqlite3Utf8Trans1 = 64" by (simp add: sqlite3Utf8Trans1_def)
  ultimately show "k < 64 \<Longrightarrow> sqlite3Utf8Trans1 ! k < 32" by (simp add: list_all_length)
qed

text \<open>Two bytes are read at least for a code point that takes two units.\<close>

lemma READ_UTF8_large:
  assumes "READ_UTF8 (b # bs) = (c, rest)" and "65536 \<le> unat c"
  shows "length rest + 2 \<le> length (b # bs)"
proof (cases "b \<ge> 0xC0")
  case False
  then have "c = ucast b" using assms(1) by simp
  then have "unat c = unat b" using unat_less [of b] by (simp add: unat_ucast_mod)
  then show ?thesis using assms(2) unat_less [of b] by simp
next
  case True
  define t where "t = sqlite3Utf8Trans1 ! (unat b - 0xC0)"
  have b: "0xC0 \<le> unat b" using True by (simp add: word_le_nat_alt)
  have "t < 32" unfolding t_def using unat_less [of b] b by (intro Trans1_small) simp
  then have "unat (word_of_nat t :: u32) < 128" by (simp add: unat_of_nat)
  then have fixed: "unat (utf8_fix (word_of_nat t)) < 65536" by (rule utf8_fix_small)
  obtain d where loop: "cont_loop (word_of_nat t) bs = (d, rest)" and c: "c = utf8_fix d"
    using assms(1) READ_lead [OF b, of bs] by (auto simp: t_def split: prod.splits)
  show ?thesis
  proof (cases bs)
    case Nil
    then show ?thesis using loop c fixed assms(2) by simp
  next
    case (Cons e es)
    show ?thesis
    proof (cases "e AND 0xC0 = 0x80")
      case True
      then have "rest = snd (cont_loop (push_bit 6 (word_of_nat t) + (0x3F AND ucast e)) es)" using loop Cons by simp
      then show ?thesis using cont_loop_length Cons by simp
    next
      case False
      then show ?thesis using loop Cons c fixed assms(2) by auto
    qed
  qed
qed

lemma utf8_to_16_length: "length (utf8_to_16 be z) \<le> 2 * length z"
proof (induction be z rule: utf8_to_16.induct)
  case (1 be z)
  show ?case
  proof (cases z)
    case Nil
    then show ?thesis by (simp add: utf8_to_16.simps)
  next
    case (Cons b bs)
    obtain c rest where r: "READ_UTF8 z = (c, rest)" by fastforce
    have len: "length rest < length z" using READ_UTF8_length [of z] r Cons by simp
    have big: "65536 \<le> unat c \<Longrightarrow> length rest + 2 \<le> length z" using READ_UTF8_large [of b bs c rest] r Cons by simp
    have "utf8_to_16 be z = WRITE_UTF16 be c @ utf8_to_16 be rest"
      using r Cons by (subst utf8_to_16.simps) (simp add: WRITE_UTF16_def)
    moreover have "length (utf8_to_16 be rest) \<le> 2 * length rest" using "1.IH" r Cons by simp
    ultimately show ?thesis using len big WRITE_UTF16_length [of be c] by (cases "unat c < 65536") simp_all
  qed
qed

lemma read_utf16_size:
  assumes "read_utf16 be z = (c, rest)" and "even (length z)" and "z \<noteq> []"
  shows "even (length rest) \<and> length rest + 2 \<le> length z \<and> (65536 \<le> unat c \<longrightarrow> length rest + 4 \<le> length z)"
proof -
  obtain a b r where z: "z = a # b # r" using assms(2,3) by (cases z; cases "tl z") auto
  have u: "unat (unit16 be a b) < 65536" using unat_less [of a] unat_less [of b] by (simp add: unit16_unat)
  show ?thesis
  proof (cases r)
    case Nil
    then show ?thesis using assms z u by auto
  next
    case (Cons d r')
    then obtain e r2 where r: "r = d # e # r2" using assms(2) z by (cases r') auto
    then show ?thesis using assms z u by (auto simp: Let_def split: if_splits)
  qed
qed

lemma utf16_to_8_length: "even (length z) \<Longrightarrow> length (utf16_to_8 be z) \<le> 2 * length z"
proof (induction be z rule: utf16_to_8.induct)
  case (1 be z)
  show ?case
  proof (cases "z = []")
    case True
    then show ?thesis by (simp add: utf16_to_8.simps)
  next
    case False
    obtain c rest where r: "read_utf16 be z = (c, rest)" by fastforce
    note s = read_utf16_size [OF r "1.prems" False]
    have "utf16_to_8 be z = WRITE_UTF8 c @ utf16_to_8 be rest"
      using r False by (subst utf16_to_8.simps) simp
    moreover have "length (utf16_to_8 be rest) \<le> 2 * length rest" using "1.IH" r False s by simp
    ultimately show ?thesis using s WRITE_UTF8_length [of c] by (cases "unat c < 65536") simp_all
  qed
qed

section \<open>Counting characters\<close>

lemma WRITE_UTF8_shape:
  obtains b bs where "WRITE_UTF8 c = b # bs" and "list_all continues bs" and "bs = [] \<longleftrightarrow> unat b < 0xC0"
    and "b = 0 \<longleftrightarrow> c = 0"
proof -
  have zero: "unat b \<noteq> 0 \<Longrightarrow> b \<noteq> 0" for b :: u8 by auto
  consider "c < 0x80" | "\<not> c < 0x80" "c < 0x800" | "\<not> c < 0x80" "\<not> c < 0x800" "c < 0x10000"
    | "\<not> c < 0x80" "\<not> c < 0x800" "\<not> c < 0x10000" by blast
  then show ?thesis
  proof cases
    case 1
    then have u: "unat (ucast (c AND 0xFF) :: u8) = unat c" by (simp add: unat_ucast_u8 unat_fields unat_below)
    have "unat c < 128" using 1 by (simp add: unat_below)
    moreover have "ucast (c AND 0xFF) = (0 :: u8) \<longleftrightarrow> c = 0" using u by (metis unat_0 word_unat_eq_iff)
    ultimately show ?thesis using 1 u by (intro that [of "ucast (c AND 0xFF)" "[]"]) (simp_all add: WRITE_UTF8_def)
  next
    case 2
    then show ?thesis
      using zero [of "0xC0 + ucast (drop_bit 6 c AND 0x1F)"]
      by (intro that [of "0xC0 + ucast (drop_bit 6 c AND 0x1F)" "[0x80 + ucast (c AND 0x3F)]"])
        (auto simp: WRITE_UTF8_def cont_bytes lead_bytes)
  next
    case 3
    then show ?thesis
      using zero [of "0xE0 + ucast (drop_bit 12 c AND 0x0F)"]
      by (intro that [of "0xE0 + ucast (drop_bit 12 c AND 0x0F)" "[0x80 + ucast (drop_bit 6 c AND 0x3F), 0x80 + ucast (c AND 0x3F)]"])
        (auto simp: WRITE_UTF8_def cont_bytes lead_bytes)
  next
    case 4
    then show ?thesis
      using zero [of "0xF0 + ucast (drop_bit 18 c AND 0x07)"]
      by (intro that [of "0xF0 + ucast (drop_bit 18 c AND 0x07)" "[0x80 + ucast (drop_bit 12 c AND 0x3F), 0x80 + ucast (drop_bit 6 c AND 0x3F), 0x80 + ucast (c AND 0x3F)]"])
        (auto simp: WRITE_UTF8_def cont_bytes lead_bytes)
  qed
qed

lemma skip_cont_run:
  "list_all continues bs \<Longrightarrow> starts rest \<Longrightarrow> skip_cont (pre @ bs @ rest) (length pre) = length pre + length bs"
proof (induction bs arbitrary: pre)
  case Nil
  have "\<not> continues 0" by code_simp
  then have "zat (pre @ rest) (length pre) AND 0xC0 \<noteq> 0x80"
    using Nil by (cases rest) (auto simp: zat_def starts_def continues_def nth_append)
  then show ?case by (subst skip_cont.simps) simp
next
  case (Cons b bs)
  have "zat (pre @ (b # bs) @ rest) (length pre) AND 0xC0 = 0x80"
    using Cons.prems(1) by (simp add: zat_def continues_def)
  then show ?case using Cons.IH [of "pre @ [b]"] Cons.prems by (subst skip_cont.simps) simp
qed

lemma char_loop_text:
  "0 \<notin> set cs \<Longrightarrow> (case zTerm of None \<Rightarrow> True | Some t \<Rightarrow> length (pre @ utf8_text cs) \<le> t) \<Longrightarrow>
     char_loop (pre @ utf8_text cs) zTerm (length pre) r = r + length cs"
proof (induction cs arbitrary: pre r)
  case Nil
  then show ?case by (subst char_loop.simps) (simp add: utf8_text_def zat_def)
next
  case (Cons c cs)
  obtain b bs where w: "WRITE_UTF8 c = b # bs" "list_all continues bs" "bs = [] \<longleftrightarrow> unat b < 0xC0" "b = 0 \<longleftrightarrow> c = 0"
    using WRITE_UTF8_shape [of c] .
  let ?z = "pre @ b # bs @ utf8_text cs"
  have z: "pre @ utf8_text (c # cs) = ?z" by (simp add: utf8_text_def w(1))
  have at: "zat ?z (length pre) = b" by (simp add: zat_def)
  have skip: "SQLITE_SKIP_UTF8 ?z (length pre) = length (pre @ b # bs)"
    using skip_cont_run [OF w(2) utf8_text_starts, of "pre @ [b]" cs] w(3) at
    by (cases "b \<ge> 0xC0") (auto simp: SQLITE_SKIP_UTF8_def word_le_nat_alt)
  have "b \<noteq> 0" using w(4) Cons.prems(1) by auto
  moreover have "case zTerm of None \<Rightarrow> True | Some t \<Rightarrow> length pre < t" using Cons.prems(2) z by (auto split: option.splits)
  ultimately have "char_loop ?z zTerm (length pre) r = char_loop ?z zTerm (length (pre @ b # bs)) (r + 1)"
    using skip at by (subst char_loop.simps) simp
  also have "\<dots> = r + 1 + length cs"
    using Cons.IH [of "pre @ b # bs" "r + 1"] Cons.prems z by (simp split: option.splits)
  finally show ?case by (simp add: z)
qed

section \<open>Properties\<close>

text \<open>C18. A text of Unicode scalar values (no surrogates, not the noncharacters \<open>0xFFFE\<close> and \<open>0xFFFF\<close>)
  translated from UTF-8 to either form of UTF-16 is its UTF-16 text, from one form to the other its
  text in that form, and back to UTF-8 the same bytes.\<close>
theorem translate_round_trip:
  assumes "list_all scalar cs" and "be = (enc = 3)" and "enc \<in> {2, 3}"
  shows "\<exists>fl. sqlite3VdbeMemTranslate True \<lparr>m_z = utf8_text cs, m_enc = 1, m_flags = f\<rparr> enc
        = (SQLITE_OK, \<lparr>m_z = utf16_text be cs, m_enc = enc, m_flags = fl\<rparr>)
      \<and> sqlite3VdbeMemTranslate True \<lparr>m_z = utf16_text be cs, m_enc = enc, m_flags = fl\<rparr> (5 - enc)
        = (SQLITE_OK, \<lparr>m_z = utf16_text (\<not> be) cs, m_enc = 5 - enc, m_flags = fl\<rparr>)
      \<and> m_z (snd (sqlite3VdbeMemTranslate True \<lparr>m_z = utf16_text be cs, m_enc = enc, m_flags = fl\<rparr> 1)) = utf8_text cs"
proof -
  have "length (utf16_text be cs) - length (utf16_text be cs) mod 2 = length (utf16_text be cs)"
    using utf16_text_even [of be cs] by (simp add: even_iff_mod_2_eq_zero)
  then show ?thesis using assms utf8_to_16_text [OF assms(1), of be] utf16_to_8_text [OF assms(1), of be]
    by (auto simp: sqlite3VdbeMemTranslate_def Let_def swap_pairs_text)
qed

lemma translate_round_trip_witness:
  "m_z (snd (sqlite3VdbeMemTranslate True \<lparr>m_z = utf8_text [0x41, 0x20AC, 0x1F600], m_enc = 1, m_flags = 2\<rparr> 2))
    = utf16_text False [0x41, 0x20AC, 0x1F600]"
proof -
  have "list_all scalar [0x41, 0x20AC, 0x1F600]" by (simp add: scalar_def)
  then show ?thesis using translate_round_trip [of "[0x41, 0x20AC, 0x1F600]" False 2 2] by auto
qed

text \<open>C37. Whatever bytes the text holds, valid or not, the translated text and its terminator fit in the
  buffer that was allocated for them.\<close>
theorem translate_fits:
  assumes "m_enc pMem = 1 \<or> desiredEnc = 1"
  shows "length (m_z (snd (sqlite3VdbeMemTranslate True pMem desiredEnc))) + (if desiredEnc = 1 then 1 else 2)
    \<le> translate_len (m_z pMem) desiredEnc"
proof (cases "desiredEnc = 1")
  case True
  let ?z = "take (length (m_z pMem) - length (m_z pMem) mod 2) (m_z pMem)"
  have "length ?z = length (m_z pMem) - length (m_z pMem) mod 2" by simp
  then have even: "even (length ?z)" by (simp only: dvd_minus_mod)
  show ?thesis
    using True utf16_to_8_length [OF even, of "m_enc pMem = 3"] utf8_to_16_length [of False ?z]
    by (simp add: sqlite3VdbeMemTranslate_def Let_def translate_len_def)
next
  case False
  then show ?thesis using assms utf8_to_16_length [of "desiredEnc = 3" "m_z pMem"]
    by (simp add: sqlite3VdbeMemTranslate_def Let_def translate_len_def)
qed

lemma translate_fits_witness:
  "length (m_z (snd (sqlite3VdbeMemTranslate True \<lparr>m_z = [0xFF, 0xBF, 0xBF, 0x41], m_enc = 1, m_flags = 2\<rparr> 2))) + 2 \<le> 10"
  using translate_fits [of "\<lparr>m_z = [0xFF, 0xBF, 0xBF, 0x41], m_enc = 1, m_flags = 2\<rparr>" 2] by (simp add: translate_len_def)

text \<open>\<open>sqlite3Utf8CharLen\<close> counts the characters of a text, and each character that
  \<open>sqlite3AppendOneUtf8Character\<close> writes is read back by \<open>sqlite3Utf8Read\<close>, whatever character follows.\<close>
theorem utf8_characters:
  assumes "list_all scalar cs" and "0 \<notin> set cs" and "nByte < 0 \<or> int (length (utf8_text cs)) \<le> nByte"
  shows "sqlite3Utf8CharLen (utf8_text cs) nByte = length cs
    \<and> (\<forall>c\<in>set cs. sqlite3Utf8Read (sqlite3AppendOneUtf8Character c @ utf8_text cs) = (c, utf8_text cs))"
proof (intro conjI ballI)
  show "sqlite3Utf8CharLen (utf8_text cs) nByte = length cs"
    using char_loop_text [OF assms(2), where zTerm = "if nByte \<ge> 0 then Some (nat nByte) else None" and pre = "[]" and r = 0] assms(3)
    by (auto simp: sqlite3Utf8CharLen_def)
  fix c assume "c \<in> set cs"
  then have "scalar c" using assms(1) by (simp add: list_all_iff)
  moreover have "sqlite3AppendOneUtf8Character c = WRITE_UTF8 c"
    by (simp add: sqlite3AppendOneUtf8Character_def WRITE_UTF8_def)
  ultimately show "sqlite3Utf8Read (sqlite3AppendOneUtf8Character c @ utf8_text cs) = (c, utf8_text cs)"
    by (simp add: sqlite3Utf8Read_def READ_WRITE_UTF8 utf8_text_starts)
qed

lemma utf8_characters_witness: "sqlite3Utf8CharLen (utf8_text [0x20AC, 0x41]) (- 1) = 2"
  using utf8_characters [of "[0x20AC, 0x41]" "- 1"] by (simp add: scalar_def)

end
