(* ===== verification/Like.thy ===== *)
theory Like
  imports Utf
begin

text \<open>
  LIKE and GLOB (\<open>func.c\<close>): \<open>patternCompare\<close> with its two interfaces for C callers and the SQL
  function.  A pointer into a text is the rest of the text; reading at its end gives the
  terminator.  The theory shows that the matcher, which gives up early when a later wildcard has failed
  everywhere, answers as the definition of matching does.
\<close>

section \<open>The matcher\<close>

record compareInfo =
  matchAll :: u8
  matchOne :: u8
  matchSet :: u8
  noCase :: bool

definition globInfo :: compareInfo where
  "globInfo = \<lparr>matchAll = 0x2A, matchOne = 0x3F, matchSet = 0x5B, noCase = False\<rparr>"

definition likeInfoNorm :: compareInfo where
  "likeInfoNorm = \<lparr>matchAll = 0x25, matchOne = 0x5F, matchSet = 0, noCase = True\<rparr>"

definition likeInfoAlt :: compareInfo where
  "likeInfoAlt = \<lparr>matchAll = 0x25, matchOne = 0x5F, matchSet = 0, noCase = False\<rparr>"

definition SQLITE_MATCH :: nat where "SQLITE_MATCH = 0"
definition SQLITE_NOMATCH :: nat where "SQLITE_NOMATCH = 1"
definition SQLITE_NOWILDCARDMATCH :: nat where "SQLITE_NOWILDCARDMATCH = 2"

definition Utf8Read :: "bytes \<Rightarrow> u32 \<times> bytes" where
  "Utf8Read z = (if zat z 0 < 0x80 then (ucast (zat z 0), tl z) else sqlite3Utf8Read z)"

definition sqlite3Tolower :: "u32 \<Rightarrow> nat" where
  "sqlite3Tolower c = sqlite3UpperToLower ! unat (ucast c :: u8)"

definition sqlite3Toupper :: "u32 \<Rightarrow> u32" where
  "sqlite3Toupper c = c AND NOT (ucast (ctype (ucast c) AND 0x20))"

lemma Utf8Read_read: "Utf8Read z = READ_UTF8 z"
proof (cases z)
  case (Cons b bs)
  then show ?thesis by (auto simp: Utf8Read_def sqlite3Utf8Read_def zat_def word_less_nat_alt word_le_nat_alt)
qed (simp add: Utf8Read_def zat_def)

lemma utf8_fix_not_0: "utf8_fix c \<noteq> 0"
  by (auto simp: utf8_fix_def)

lemma read_0: "fst (READ_UTF8 z) = 0 \<longleftrightarrow> zat z 0 = 0"
proof (cases z)
  case (Cons b bs)
  have "ucast b = (0::u32) \<longleftrightarrow> b = 0" using unat_less [of b] by (simp add: word_unat_eq_iff unat_ucast_mod)
  then show ?thesis using Cons utf8_fix_not_0 by (auto simp: zat_def split: prod.splits)
qed (simp add: zat_def)

lemma read_shorter: "READ_UTF8 z = (c, z') \<Longrightarrow> c \<noteq> 0 \<Longrightarrow> length z' < length z"
  using READ_UTF8_length [of z] by (cases z) auto

lemma read_not_longer: "READ_UTF8 z = (c, z') \<Longrightarrow> length z' \<le> length z"
  using READ_UTF8_length [of z] by (cases z) auto

lemma read_length: "(c, z') = sqlite3Utf8Read z \<Longrightarrow> length z' \<le> length z \<and> (c \<noteq> 0 \<or> z \<noteq> [] \<longrightarrow> length z' < length z)"
  using READ_UTF8_length [of z] by (cases z) (auto simp: sqlite3Utf8Read_def dest: sym)

text \<open>Past a wildcard, further wildcards and, with a character of the string for each, single-character
  wildcards.  (The pattern does not end on a wildcard, so the loop of the code ends at its terminator.)\<close>

function skip_wild :: "compareInfo \<Rightarrow> bytes \<Rightarrow> bytes \<Rightarrow> (u32 \<times> bytes \<times> bytes) option" where
  "skip_wild i zPattern zString =
    (case Utf8Read zPattern of (c, zPattern') \<Rightarrow>
       if c \<noteq> 0 \<and> (c = ucast (matchAll i) \<or> c = ucast (matchOne i) \<and> matchOne i \<noteq> 0) then
         (if c = ucast (matchOne i) then
            (case sqlite3Utf8Read zString of (d, zString) \<Rightarrow>
               if d = 0 then None else skip_wild i zPattern' zString)
          else skip_wild i zPattern' zString)
       else Some (c, zPattern', zString))"
  by pat_completeness auto
termination
  by (relation "measure (\<lambda>(i, p, s). length p)") (auto simp: Utf8Read_read dest: read_shorter [OF sym])

declare skip_wild.simps [simp del]

text \<open>The loop over a set: \<open>c\<close> is the character of the string, \<open>c2\<close> the one of the pattern.\<close>

function class_loop :: "u32 \<Rightarrow> u32 \<Rightarrow> u32 \<Rightarrow> bool \<Rightarrow> bytes \<Rightarrow> u32 \<times> bool \<times> bytes" where
  "class_loop c c2 prior_c seen zPattern =
    (if c2 = 0 \<or> c2 = 0x5D then (c2, seen, zPattern)
     else if c2 = 0x2D \<and> zat zPattern 0 \<noteq> 0x5D \<and> zat zPattern 0 \<noteq> 0 \<and> prior_c > 0 then
       (case sqlite3Utf8Read zPattern of (c2, zPattern) \<Rightarrow>
          (case sqlite3Utf8Read zPattern of (c3, zPattern) \<Rightarrow>
             class_loop c c3 0 (seen \<or> prior_c \<le> c \<and> c \<le> c2) zPattern))
     else (case sqlite3Utf8Read zPattern of (c3, zPattern) \<Rightarrow> class_loop c c3 c2 (seen \<or> c = c2) zPattern))"
  by pat_completeness auto
termination
proof (relation "measure (\<lambda>(c, c2, p, seen, z). if c2 = 0 then 0 else length z + 1)", goal_cases)
  case (2 c c2 prior_c seen z x y xa ya)
  have "z \<noteq> []" using 2(2) by (auto simp: zat_def)
  then show ?case using 2(1) read_length [OF 2(3)] read_length [OF 2(4)] by auto
next
  case (3 c c2 prior_c seen z x y)
  then show ?case using read_length [OF 3(3)] by auto
qed simp

declare class_loop.simps [simp del]

text \<open>One set of the pattern against one character; \<open>None\<close> where the code returns that there is no match.\<close>

definition match_class :: "bytes \<Rightarrow> bytes \<Rightarrow> (bytes \<times> bytes) option" where
  "match_class zPattern zString =
    (case sqlite3Utf8Read zString of (c, zString) \<Rightarrow>
       if c = 0 then None
       else case sqlite3Utf8Read zPattern of (c2, zPattern) \<Rightarrow>
         (case (if c2 = 0x5E then (True, sqlite3Utf8Read zPattern) else (False, c2, zPattern)) of (invert, c2, zPattern) \<Rightarrow>
         (case (if c2 = 0x5D then (c = 0x5D, sqlite3Utf8Read zPattern) else (False, c2, zPattern)) of (seen, c2, zPattern) \<Rightarrow>
         (case class_loop c c2 0 seen zPattern of (c2, seen, zPattern) \<Rightarrow>
            if c2 = 0 \<or> seen = invert then None else Some (zPattern, zString)))))"

text \<open>One character of the pattern, escaped or not, against one of the string.\<close>

definition match_char :: "compareInfo \<Rightarrow> bool \<Rightarrow> u32 \<Rightarrow> bytes \<Rightarrow> bytes option" where
  "match_char i escaped c zString =
    (case Utf8Read zString of (c2, zString) \<Rightarrow>
       if c = c2 then Some zString
       else if noCase i \<and> sqlite3Tolower c = sqlite3Tolower c2 \<and> c < 0x80 \<and> c2 < 0x80 then Some zString
       else if c = ucast (matchOne i) \<and> \<not> escaped \<and> c2 \<noteq> 0 then Some zString
       else None)"

text \<open>The bytes a search for a character below 0x80 stops at.\<close>

definition zStop :: "compareInfo \<Rightarrow> u32 \<Rightarrow> bytes" where
  "zStop i c = (if noCase i then [ucast (sqlite3Toupper c), word_of_nat (sqlite3Tolower c)] else [ucast c])"

definition strcspn_rest :: "bytes \<Rightarrow> bytes \<Rightarrow> bytes" where
  "strcspn_rest z stops = dropWhile (\<lambda>b. b \<noteq> 0 \<and> b \<notin> set stops) z"

lemma skip_wild_shorter:
  "skip_wild i p s = Some (c, p', s') \<Longrightarrow> length p' \<le> length p \<and> (c \<noteq> 0 \<longrightarrow> length p' < length p)"
proof (induction i p s rule: skip_wild.induct)
  case (1 i p s)
  obtain d q where r: "READ_UTF8 p = (d, q)" by fastforce
  show ?case
  proof (cases "d \<noteq> 0 \<and> (d = ucast (matchAll i) \<or> d = ucast (matchOne i) \<and> matchOne i \<noteq> 0)")
    case True
    moreover have "length q < length p" using read_shorter [OF r] True by simp
    ultimately show ?thesis using 1 r
      by (subst (asm) (3) skip_wild.simps) (fastforce simp: Utf8Read_read split: if_splits prod.splits)
  next
    case False
    then show ?thesis using "1.prems" r read_shorter [OF r] read_not_longer [OF r]
      by (subst (asm) skip_wild.simps) (auto simp: Utf8Read_read)
  qed
qed

lemma class_loop_shorter: "class_loop c c2 prior_c seen p = (c', seen', p') \<Longrightarrow> length p' \<le> length p"
proof (induction c c2 prior_c seen p rule: class_loop.induct)
  case (1 c c2 prior_c seen p)
  obtain x q where r: "(x, q) = sqlite3Utf8Read p" by (metis surj_pair)
  obtain y q' where r': "(y, q') = sqlite3Utf8Read q" by (metis surj_pair)
  note l = read_length [OF r] read_length [OF r']
  show ?case
  proof (cases "c2 = 0 \<or> c2 = 0x5D")
    case True
    then show ?thesis using "1.prems" by (subst (asm) class_loop.simps) auto
  next
    case more: False
    show ?thesis
    proof (cases "c2 = 0x2D \<and> zat p 0 \<noteq> 0x5D \<and> zat p 0 \<noteq> 0 \<and> prior_c > 0")
      case True
      have "class_loop c y 0 (seen \<or> prior_c \<le> c \<and> c \<le> x) q' = (c', seen', p')"
        using "1.prems" True more r [symmetric] r' [symmetric] by (subst (asm) class_loop.simps) simp
      then show ?thesis using "1.IH"(1) [OF more True r r'] l by auto
    next
      case False
      have "class_loop c x c2 (seen \<or> c = c2) q = (c', seen', p')"
        using "1.prems" False more r [symmetric] by (subst (asm) class_loop.simps) auto
      then show ?thesis using "1.IH"(2) [OF more False r] l by auto
    qed
  qed
qed

lemma match_class_shorter: "match_class p s = Some (p', s') \<Longrightarrow> length p' \<le> length p"
  by (auto simp: match_class_def split: prod.splits if_splits dest!: class_loop_shorter read_length [OF sym])

lemma read_eq: "Utf8Read z = sqlite3Utf8Read z"
  by (simp add: Utf8Read_read sqlite3Utf8Read_def)

lemma skip_past: "z \<noteq> [] \<Longrightarrow> length z - SQLITE_SKIP_UTF8 z 0 < length z"
  using skip_cont_ge [of "0 + 1" z] by (simp add: SQLITE_SKIP_UTF8_def)

lemma strcspn_past: "strcspn_rest z stops \<noteq> [] \<Longrightarrow> length (strcspn_rest z stops) - Suc 0 < length z"
  using length_dropWhile_le [of "\<lambda>b. b \<noteq> 0 \<and> b \<notin> set stops" z] by (cases "strcspn_rest z stops") (auto simp: strcspn_rest_def)

lemma at_start: "zat z 0 \<noteq> 0 \<Longrightarrow> 0 < length z"
  by (auto simp: zat_def split: if_splits)

function patternCompare :: "compareInfo \<Rightarrow> u32 \<Rightarrow> bytes \<Rightarrow> bytes \<Rightarrow> nat"
  and search_class :: "compareInfo \<Rightarrow> u32 \<Rightarrow> bytes \<Rightarrow> bytes \<Rightarrow> nat"
  and search_ascii :: "compareInfo \<Rightarrow> u32 \<Rightarrow> bytes \<Rightarrow> bytes \<Rightarrow> bytes \<Rightarrow> nat"
  and search_char :: "compareInfo \<Rightarrow> u32 \<Rightarrow> u32 \<Rightarrow> bytes \<Rightarrow> bytes \<Rightarrow> nat"
where
  "patternCompare i other zPattern zString =
    (case Utf8Read zPattern of (c, zPattern) \<Rightarrow>
       if c = 0 then (if zat zString 0 = 0 then SQLITE_MATCH else SQLITE_NOMATCH)
       else if c = ucast (matchAll i) then
         (case skip_wild i zPattern zString of
            None \<Rightarrow> SQLITE_NOWILDCARDMATCH
          | Some (c, zPattern, zString) \<Rightarrow>
              if c = 0 then SQLITE_MATCH
              else if c = other \<and> matchSet i \<noteq> 0 then search_class i other (ucast other # zPattern) zString
              else case (if c = other then sqlite3Utf8Read zPattern else (c, zPattern)) of (c, zPattern) \<Rightarrow>
                (if c = 0 then SQLITE_NOWILDCARDMATCH
                 else if c < 0x80 then search_ascii i other (zStop i c) zPattern zString
                 else search_char i other c zPattern zString))
       else if c = other \<and> matchSet i \<noteq> 0 then
         (case match_class zPattern zString of None \<Rightarrow> SQLITE_NOMATCH
          | Some (zPattern, zString) \<Rightarrow> patternCompare i other zPattern zString)
       else case (if c = other then sqlite3Utf8Read zPattern else (c, zPattern)) of (d, zPattern) \<Rightarrow>
         (if d = 0 then SQLITE_NOMATCH
          else case match_char i (c = other) d zString of None \<Rightarrow> SQLITE_NOMATCH
               | Some zString \<Rightarrow> patternCompare i other zPattern zString))"
| "search_class i other zPattern zString =
    (if zat zString 0 = 0 then SQLITE_NOWILDCARDMATCH
     else (let bMatch = patternCompare i other zPattern zString
           in if bMatch \<noteq> SQLITE_NOMATCH then bMatch
              else search_class i other zPattern (drop (SQLITE_SKIP_UTF8 zString 0) zString)))"
| "search_ascii i other stops zPattern zString =
    (let zString = strcspn_rest zString stops
     in if zat zString 0 = 0 then SQLITE_NOWILDCARDMATCH
        else (let bMatch = patternCompare i other zPattern (tl zString)
              in if bMatch \<noteq> SQLITE_NOMATCH then bMatch else search_ascii i other stops zPattern (tl zString)))"
| "search_char i other c zPattern zString =
    (case Utf8Read zString of (c2, zString) \<Rightarrow>
       if c2 = 0 then SQLITE_NOWILDCARDMATCH
       else if c2 \<noteq> c then search_char i other c zPattern zString
       else (let bMatch = patternCompare i other zPattern zString
             in if bMatch \<noteq> SQLITE_NOMATCH then bMatch else search_char i other c zPattern zString))"
  by pat_completeness auto
termination
  by (relation "inv_image (less_than <*lex*> less_than <*lex*> less_than)
    (\<lambda>x. case x of Inl (Inl (i, ot, p, s)) \<Rightarrow> (length p, length s, 0::nat) | Inl (Inr (i, ot, p, s)) \<Rightarrow> (length p, length s, 1)
       | Inr (Inl (i, ot, st, p, s)) \<Rightarrow> (length p, length s, 1) | Inr (Inr (i, ot, c, p, s)) \<Rightarrow> (length p, length s, 1))")
   (auto simp: read_eq skip_past strcspn_past
      dest!: read_length skip_wild_shorter match_class_shorter at_start split: if_splits)

declare patternCompare.simps [simp del] search_class.simps [simp del] search_ascii.simps [simp del] search_char.simps [simp del]

section \<open>The interfaces\<close>

definition sqlite3_strglob :: "bytes option \<Rightarrow> bytes option \<Rightarrow> nat" where
  "sqlite3_strglob zGlobPattern zString =
    (case zString of
       None \<Rightarrow> of_bool (zGlobPattern \<noteq> None)
     | Some s \<Rightarrow> (case zGlobPattern of None \<Rightarrow> 1 | Some p \<Rightarrow> patternCompare globInfo 0x5B p s))"

definition sqlite3_strlike :: "bytes option \<Rightarrow> bytes option \<Rightarrow> u32 \<Rightarrow> nat" where
  "sqlite3_strlike zPattern zStr esc =
    (case zStr of
       None \<Rightarrow> of_bool (zPattern \<noteq> None)
     | Some s \<Rightarrow> (case zPattern of None \<Rightarrow> 1 | Some p \<Rightarrow> patternCompare likeInfoNorm esc p s))"

datatype sql_result = ResultNull | ResultInt bool | ResultError string

text \<open>The SQL function: \<open>argv\<close> holds the texts of the arguments, \<open>None\<close> for NULL; \<open>limit\<close> is the length limit of
  patterns of the connection.\<close>

definition escape_info :: "compareInfo \<Rightarrow> u32 \<Rightarrow> compareInfo" where
  "escape_info pInfo escape =
    (let backupInfo = (if escape = ucast (matchAll pInfo) then pInfo\<lparr>matchAll := 0\<rparr> else pInfo)
     in if escape = ucast (matchOne backupInfo) then backupInfo\<lparr>matchOne := 0\<rparr> else backupInfo)"

definition likeFunc :: "compareInfo \<Rightarrow> nat \<Rightarrow> bytes option list \<Rightarrow> sql_result" where
  "likeFunc pInfo limit argv =
    (let nPat = (case argv ! 0 of None \<Rightarrow> 0 | Some z \<Rightarrow> length z);
         compare = (\<lambda>pInfo escape. case (argv ! 0, argv ! 1) of
            (Some zB, Some zA) \<Rightarrow> ResultInt (patternCompare pInfo escape zB zA = SQLITE_MATCH)
          | _ \<Rightarrow> ResultNull)
     in if limit < nPat then ResultError ''LIKE or GLOB pattern too complex''
        else if length argv = 3 then
          (case argv ! 2 of
             None \<Rightarrow> ResultNull
           | Some zEsc \<Rightarrow>
               if sqlite3Utf8CharLen zEsc (-1) \<noteq> 1 then ResultError ''ESCAPE expression must be a single character''
               else (let escape = fst (sqlite3Utf8Read zEsc) in compare (escape_info pInfo escape) escape))
        else compare pInfo (ucast (matchSet pInfo)))"

section \<open>What a pattern means\<close>

text \<open>The characters of a text.\<close>

function chars :: "bytes \<Rightarrow> u32 list" where
  "chars z = (case READ_UTF8 z of (c, z') \<Rightarrow> if c = 0 then [] else c # chars z')"
  by pat_completeness auto
termination
  by (relation "measure length") (auto dest: read_shorter [OF sym])

declare chars.simps [simp del]

text \<open>A pattern is a list of wildcards, single characters and sets of ranges; \<open>Bad\<close> is a set without its end or
  an escape character at the end.\<close>

datatype wild = Any | One | Lit u32 | Class bool "(u32 \<times> u32) list" | Bad

fun class_items :: "u32 \<Rightarrow> u32 list \<Rightarrow> ((u32 \<times> u32) list \<times> u32 list) option" where
  "class_items p [] = None"
| "class_items p [c] = (if c = 0x5D then Some ([], []) else None)"
| "class_items p (c # d # cs) =
    (if c = 0x5D then Some ([], d # cs)
     else if c = 0x2D \<and> d \<noteq> 0x5D \<and> p \<noteq> 0 then map_option (\<lambda>(rs, rest). ((p, d) # rs, rest)) (class_items 0 cs)
     else map_option (\<lambda>(rs, rest). ((c, c) # rs, rest)) (class_items c (d # cs)))"

definition class_of :: "u32 list \<Rightarrow> (wild \<times> u32 list) option" where
  "class_of cs =
    (let (invert, cs) = (case cs of c # ds \<Rightarrow> if c = 0x5E then (True, ds) else (False, cs) | [] \<Rightarrow> (False, cs));
         (rs, cs) = (case cs of c # ds \<Rightarrow> if c = 0x5D then ([(0x5D, 0x5D)], ds) else ([], cs) | [] \<Rightarrow> ([], cs))
     in map_option (\<lambda>(rs', rest). (Class invert (rs @ rs'), rest)) (class_items 0 cs))"

lemma class_items_shorter: "class_items p cs = Some (rs, rest) \<Longrightarrow> length rest < length cs"
proof (induction p cs arbitrary: rs rule: class_items.induct)
  case (3 p c d cs)
  then show ?case by (fastforce split: if_splits)
qed (auto split: if_splits)

lemma class_of_shorter: "class_of cs = Some (w, rest) \<Longrightarrow> length rest < length cs"
  by (auto simp: class_of_def split: list.splits if_splits dest!: class_items_shorter)

function wilds :: "compareInfo \<Rightarrow> u32 \<Rightarrow> u32 list \<Rightarrow> wild list" where
  "wilds i other [] = []"
| "wilds i other (c # cs) =
    (if c = ucast (matchAll i) then Any # wilds i other cs
     else if c = other \<and> matchSet i \<noteq> 0 then
       (case class_of cs of None \<Rightarrow> [Bad] | Some (w, rest) \<Rightarrow> w # wilds i other rest)
     else if c = other then (case cs of [] \<Rightarrow> [Bad] | d # ds \<Rightarrow> Lit d # wilds i other ds)
     else if c = ucast (matchOne i) then One # wilds i other cs
     else Lit c # wilds i other cs)"
  by pat_completeness auto
termination
  by (relation "measure (\<lambda>(i, other, cs). length cs)") (auto dest: class_of_shorter)

declare wilds.simps(2) [simp del]

definition same_char :: "compareInfo \<Rightarrow> u32 \<Rightarrow> u32 \<Rightarrow> bool" where
  "same_char i a b \<longleftrightarrow> a = b \<or> noCase i \<and> a < 0x80 \<and> b < 0x80 \<and> sqlite3Tolower a = sqlite3Tolower b"

fun takes :: "compareInfo \<Rightarrow> wild \<Rightarrow> u32 \<Rightarrow> bool" where
  "takes i One x \<longleftrightarrow> True"
| "takes i (Lit c) x \<longleftrightarrow> same_char i c x"
| "takes i (Class invert rs) x \<longleftrightarrow> (\<exists>(a, b)\<in>set rs. a \<le> x \<and> x \<le> b) \<noteq> invert"
| "takes i _ x \<longleftrightarrow> False"

fun matches :: "compareInfo \<Rightarrow> wild list \<Rightarrow> u32 list \<Rightarrow> bool" where
  "matches i [] s \<longleftrightarrow> s = []"
| "matches i (Any # p) s \<longleftrightarrow> (\<exists>k\<le>length s. matches i p (drop k s))"
| "matches i (w # p) s \<longleftrightarrow> (\<exists>x t. s = x # t \<and> takes i w x \<and> matches i p t)"

section \<open>Reading\<close>

lemma chars_read: "READ_UTF8 z = (c, z') \<Longrightarrow> chars z = (if c = 0 then [] else c # chars z')"
  by (subst chars.simps) simp

lemma chars_empty: "chars z = [] \<longleftrightarrow> zat z 0 = 0"
  using read_0 [of z] by (cases "READ_UTF8 z") (auto simp: chars_read)

lemma utf8_fix_large: "\<not> utf8_fix c < 0x80"
  by (auto simp: utf8_fix_def)

lemma read_byte: "k < 0x80 \<Longrightarrow> fst (READ_UTF8 z) = ucast k \<longleftrightarrow> zat z 0 = k"
proof (cases z)
  case (Cons b bs)
  assume k: "k < 0x80"
  then have "ucast k < (0x80::u32)" by (simp add: word_less_nat_alt unat_ucast_mod)
  then have "utf8_fix c \<noteq> ucast k" for c using utf8_fix_large [of c] by metis
  moreover have "ucast b = (ucast k :: u32) \<longleftrightarrow> b = k"
    using unat_less [of b] unat_less [of k] by (simp add: word_unat_eq_iff unat_ucast_mod)
  ultimately show ?thesis using k Cons by (auto simp: zat_def word_less_nat_alt word_le_nat_alt split: prod.splits)
next
  case Nil
  then show "k < 0x80 \<Longrightarrow> ?thesis" using unat_less [of k] by (auto simp: zat_def word_unat_eq_iff unat_ucast_mod)
qed

lemma read_bracket: "fst (READ_UTF8 z) = 0x5D \<longleftrightarrow> zat z 0 = 0x5D"
  using read_byte [of "0x5D" z] by simp

text \<open>The items of a set, seen as the loop finds them.\<close>

definition in_items :: "u32 \<Rightarrow> (u32 \<times> u32) list \<Rightarrow> bool" where
  "in_items x rs \<longleftrightarrow> (\<exists>(a, b)\<in>set rs. a \<le> x \<and> x \<le> b)"

lemma in_items_simps [simp]: "\<not> in_items x []" "in_items x ((a, b) # rs) \<longleftrightarrow> a \<le> x \<and> x \<le> b \<or> in_items x rs"
  "in_items x (rs @ rs') \<longleftrightarrow> in_items x rs \<or> in_items x rs'"
  by (auto simp: in_items_def)

definition class_result :: "u32 \<Rightarrow> bool \<Rightarrow> ((u32 \<times> u32) list \<times> u32 list) option \<Rightarrow> u32 \<times> bool \<times> bytes \<Rightarrow> bool" where
  "class_result c seen items r \<longleftrightarrow>
    (case (items, r) of
       (None, (c2, _, _)) \<Rightarrow> c2 = 0
     | (Some (rs, rest), (c2, seen', p)) \<Rightarrow> c2 \<noteq> 0 \<and> chars p = rest \<and> (seen' \<longleftrightarrow> seen \<or> in_items c rs))"

lemma class_result_add:
  "class_result c (seen \<or> a \<le> c \<and> c \<le> b) items r \<Longrightarrow>
     class_result c seen (map_option (\<lambda>(rs, rest). ((a, b) # rs, rest)) items) r"
  by (auto simp: class_result_def split: option.splits prod.splits)

lemma class_loop_items:
  "class_result c seen (class_items prior_c (if c2 = 0 then [] else c2 # chars p)) (class_loop c c2 prior_c seen p)"
proof (induction c c2 prior_c seen p rule: class_loop.induct)
  case (1 c c2 prior_c seen p)
  obtain x q where r: "READ_UTF8 p = (x, q)" by fastforce
  obtain y q' where r': "READ_UTF8 q = (y, q')" by fastforce
  have rd: "(x, q) = sqlite3Utf8Read p" "(y, q') = sqlite3Utf8Read q" using r r' by (simp_all add: sqlite3Utf8Read_def)
  have z: "zat p 0 = 0 \<longleftrightarrow> x = 0" "zat p 0 = 0x5D \<longleftrightarrow> x = 0x5D" using read_0 [of p] read_bracket [of p] r by auto
  show ?case
  proof (cases "c2 = 0 \<or> c2 = 0x5D")
    case True
    then show ?thesis by (subst class_loop.simps) (cases "chars p", auto simp: class_result_def)
  next
    case more: False
    show ?thesis
    proof (cases "c2 = 0x2D \<and> zat p 0 \<noteq> 0x5D \<and> zat p 0 \<noteq> 0 \<and> prior_c > 0")
      case True
      have step: "class_loop c c2 prior_c seen p = class_loop c y 0 (seen \<or> prior_c \<le> c \<and> c \<le> x) q'"
        using True more rd [symmetric] by (subst class_loop.simps) simp
      have items: "class_items prior_c (if c2 = 0 then [] else c2 # chars p)
          = map_option (\<lambda>(rs, rest). ((prior_c, x) # rs, rest)) (class_items 0 (if y = 0 then [] else y # chars q'))"
        using True more z chars_read [OF r] chars_read [OF r'] by (simp add: word_gt_0)
      show ?thesis using class_result_add [OF "1.IH"(1) [OF more True rd]] unfolding step items .
    next
      case False
      have step: "class_loop c c2 prior_c seen p = class_loop c x c2 (seen \<or> c = c2) q"
        using False more rd(1) [symmetric] by (subst class_loop.simps) auto
      have items: "class_items prior_c (if c2 = 0 then [] else c2 # chars p)
          = map_option (\<lambda>(rs, rest). ((c2, c2) # rs, rest)) (class_items c2 (if x = 0 then [] else x # chars q))"
        using False more z chars_read [OF r] by (auto simp: word_gt_0)
      have "c = c2 \<longleftrightarrow> c2 \<le> c \<and> c \<le> c2" by auto
      then show ?thesis using class_result_add [of c seen c2 c2] "1.IH"(2) [OF more False rd(1)] unfolding step items by simp
    qed
  qed
qed

text \<open>One set against one character.\<close>

lemma class_of_open:
  assumes "\<not> brk \<longrightarrow> cs = [] \<or> hd cs \<noteq> 0x5D" and "\<not> invert \<longrightarrow> brk \<or> cs = [] \<or> hd cs \<noteq> 0x5E"
  shows "class_of ((if invert then [0x5E] else []) @ (if brk then [0x5D] else []) @ cs)
    = map_option (\<lambda>(rs, rest). (Class invert ((if brk then [(0x5D, 0x5D)] else []) @ rs), rest)) (class_items 0 cs)"
  using assms by (cases invert; cases brk; cases cs) (auto simp: class_of_def)

lemma match_class_takes:
  assumes "READ_UTF8 s = (x, s')"
  shows "case match_class p s of
      None \<Rightarrow> x = 0 \<or> (case class_of (chars p) of None \<Rightarrow> True | Some (w, rest) \<Rightarrow> \<not> takes i w x)
    | Some (p', s'') \<Rightarrow> x \<noteq> 0 \<and> s'' = s' \<and> (\<exists>w. class_of (chars p) = Some (w, chars p') \<and> takes i w x)"
proof -
  obtain c2 q where q: "READ_UTF8 p = (c2, q)" by fastforce
  define invert where "invert = (c2 = 0x5E)"
  obtain c3 q1 where c3: "(c3, q1) = (if invert then READ_UTF8 q else (c2, q))" by (metis surj_pair)
  define brk where "brk = (c3 = 0x5D)"
  obtain c4 q2 where c4: "(c4, q2) = (if brk then READ_UTF8 q1 else (c3, q1))" by (metis surj_pair)
  let ?seen = "brk \<and> x = 0x5D"
  obtain c5 seen p' where r: "class_loop x c4 0 ?seen q2 = (c5, seen, p')" by (metis prod_cases3)
  let ?cs = "if c4 = 0 then [] else c4 # chars q2"
  have m: "match_class p s = (if x = 0 then None else if c5 = 0 \<or> seen = invert then None else Some (p', s'))"
    using assms q c3 c4 r by (auto simp: match_class_def sqlite3Utf8Read_def invert_def brk_def split: if_splits prod.splits)
  have "(if c3 = 0 then [] else c3 # chars q1) = (if brk then [0x5D] else []) @ ?cs"
  proof (cases brk)
    case True
    then have "chars q1 = ?cs" using c4 chars_read [of q1 c4 q2] by simp
    then show ?thesis using True by (simp add: brk_def)
  qed (use c4 in simp)
  moreover have "chars p = (if invert then [0x5E] else []) @ (if c3 = 0 then [] else c3 # chars q1)"
  proof (cases invert)
    case True
    then have "chars q = (if c3 = 0 then [] else c3 # chars q1)" using c3 chars_read [of q c3 q1] by simp
    then show ?thesis using True chars_read [OF q] by (simp add: invert_def)
  qed (use c3 chars_read [OF q] in simp)
  ultimately have cs: "chars p = (if invert then [0x5E] else []) @ (if brk then [0x5D] else []) @ ?cs" by simp
  have "\<not> brk \<longrightarrow> c4 = c3" "\<not> invert \<longrightarrow> c3 = c2" using c3 c4 by (metis prod.inject)+
  then have "class_of (chars p) = map_option (\<lambda>(rs, rest). (Class invert ((if brk then [(0x5D, 0x5D)] else []) @ rs), rest))
      (class_items 0 ?cs)"
    unfolding cs by (intro class_of_open) (auto simp: invert_def brk_def)
  moreover have "class_result x ?seen (class_items 0 ?cs) (c5, seen, p')"
    using class_loop_items [of x ?seen 0 c4 q2] unfolding r .
  ultimately show ?thesis using m
    by (auto simp: class_result_def brk_def in_items_def [symmetric] split: option.splits if_splits)
qed

section \<open>Searching\<close>

lemma lower_ascii: "c < 0x80 \<Longrightarrow> sqlite3Tolower c = (if 65 \<le> unat c \<and> unat c \<le> 90 then unat c + 32 else unat c)"
proof -
  assume "c < 0x80"
  then have u: "unat (ucast c :: u8) = unat c" by (simp add: unat_ucast_mod word_less_nat_alt)
  have "unat c < 128" using \<open>c < 0x80\<close> by (simp add: word_less_nat_alt)
  then show ?thesis by (simp add: sqlite3Tolower_def UpperToLower_table u)
qed

lemma upper_table:
  "list_all (\<lambda>k. unat (sqlite3Toupper (word_of_nat k)) = (if 97 \<le> k \<and> k \<le> 122 then k - 32 else k)) [0..<128]"
  by code_simp

lemma upper_ascii: "c < 0x80 \<Longrightarrow> unat (sqlite3Toupper c) = (if 97 \<le> unat c \<and> unat c \<le> 122 then unat c - 32 else unat c)"
proof -
  assume "c < 0x80"
  then have "unat c \<in> set [0..<128]" by (simp add: word_less_nat_alt)
  from bspec [OF upper_table [unfolded list_all_iff] this] show ?thesis by simp
qed

lemma stops_ascii:
  assumes "c < 0x80"
  shows "b \<in> set (zStop i c) \<longleftrightarrow> b < 0x80 \<and> same_char i c (ucast b)"
proof -
  have c: "unat c < 128" using assms by (simp add: word_less_nat_alt)
  have b: "unat (ucast b :: u32) = unat b" using unat_less [of b] by (simp add: unat_ucast_mod)
  have eqs: "ucast b = c \<longleftrightarrow> unat b = unat c" "b = ucast c \<longleftrightarrow> unat b = unat c"
    using c unat_less [of b] by (auto simp: word_unat_eq_iff unat_ucast_mod)
  have up: "b = ucast (sqlite3Toupper c) \<longleftrightarrow> unat b = unat (sqlite3Toupper c)"
    using c upper_ascii [OF assms] by (auto simp: word_unat_eq_iff unat_ucast_mod)
  have low: "b = word_of_nat (sqlite3Tolower c) \<longleftrightarrow> unat b = sqlite3Tolower c"
    using c lower_ascii [OF assms] by (auto simp: word_unat_eq_iff unat_of_nat)
  have lt: "b < 0x80 \<longleftrightarrow> unat b < 128" "(ucast b :: u32) < 0x80 \<longleftrightarrow> unat b < 128" using b by (simp_all add: word_less_nat_alt)
  define lower upper where "lower n = (if 65 \<le> n \<and> n \<le> 90 then n + 32 else n)"
    and "upper n = (if 97 \<le> n \<and> n \<le> 122 then n - 32 else n)" for n :: nat
  have stops: "b \<in> set (zStop i c) \<longleftrightarrow> (if noCase i then unat b = upper (unat c) \<or> unat b = lower (unat c) else unat b = unat c)"
    unfolding zStop_def upper_def lower_def upper_ascii [OF assms, symmetric] lower_ascii [OF assms, symmetric]
    by (simp add: up low eqs(2))
  have "unat b < 128 \<longrightarrow> sqlite3Tolower (ucast b) = lower (unat b)"
    using lower_ascii [of "ucast b"] b lt(2) by (simp add: lower_def)
  then have same: "same_char i c (ucast b) \<longleftrightarrow> unat b = unat c \<or> noCase i \<and> unat b < 128 \<and> lower (unat c) = lower (unat b)"
    using assms lower_ascii [OF assms] unfolding same_char_def lt(2) eqs(1) [symmetric] by (auto simp: lower_def)
  show ?thesis unfolding stops same lt using c by (auto simp: lower_def upper_def split: if_splits)
qed

text \<open>The bytes after the first of a character are passed over by each way to the next one.\<close>

lemma cont_loop_rest: "snd (cont_loop c bs) = dropWhile continues bs"
  by (induction c bs rule: cont_loop.induct) (auto simp: continues_def)

lemma skip_cont_rest: "drop (skip_cont z i) z = dropWhile continues (drop i z)"
proof (induction z i rule: skip_cont.induct)
  case (1 z i)
  show ?case
  proof (cases "i < length z")
    case True
    then have "drop i z = zat z i # drop (i + 1) z" by (simp add: zat_def Cons_nth_drop_Suc)
    then show ?thesis using 1 by (subst skip_cont.simps) (auto simp: continues_def [symmetric])
  next
    case False
    then show ?thesis by (subst skip_cont.simps) (simp add: zat_def)
  qed
qed

lemma read_rest: "READ_UTF8 (b # bs) = (c, z') \<Longrightarrow> z' = (if b \<ge> 0xC0 then dropWhile continues bs else bs)"
  using cont_loop_rest by (auto split: if_splits prod.splits) (metis snd_conv)

lemma skip_read: "READ_UTF8 z = (c, z') \<Longrightarrow> c \<noteq> 0 \<Longrightarrow> drop (SQLITE_SKIP_UTF8 z 0) z = z'"
proof (cases z)
  case (Cons b bs)
  assume "READ_UTF8 z = (c, z')"
  then have "z' = (if b \<ge> 0xC0 then dropWhile continues bs else bs)" using read_rest Cons by simp
  then show ?thesis using Cons skip_cont_rest [of z 1] by (simp add: SQLITE_SKIP_UTF8_def zat_def)
qed simp

lemma dropWhile_weaker: "(\<And>b. Q b \<Longrightarrow> P b) \<Longrightarrow> dropWhile P (dropWhile Q bs) = dropWhile P bs"
  by (induction bs) auto

lemma read_large: "READ_UTF8 (b # bs) = (c, z') \<Longrightarrow> \<not> b < 0x80 \<Longrightarrow> \<not> c < 0x80"
  using utf8_fix_large unat_less [of b]
  by (auto simp: word_less_nat_alt unat_ucast_mod split: if_splits prod.splits)

lemma strcspn_chars:
  assumes "c < 0x80"
  shows "\<exists>pre. chars z = pre @ chars (strcspn_rest z (zStop i c)) \<and> (\<forall>x\<in>set pre. \<not> same_char i c x)"
proof (induction z rule: chars.induct)
  case (1 z)
  obtain d z' where r: "READ_UTF8 z = (d, z')" by fastforce
  show ?case
  proof (cases "d = 0 \<or> hd z \<in> set (zStop i c)")
    case True
    then have "strcspn_rest z (zStop i c) = z"
      using read_0 [of z] r by (cases z) (auto simp: strcspn_rest_def zat_def)
    then show ?thesis by (intro exI [of _ "[]"]) simp
  next
    case False
    then obtain b bs where z: "z = b # bs" using r by (cases z) auto
    have ih: "\<exists>pre. chars z' = pre @ chars (strcspn_rest z' (zStop i c)) \<and> (\<forall>x\<in>set pre. \<not> same_char i c x)"
      using "1.IH" r False by simp
    have b0: "b \<noteq> 0" using read_0 [of z] r False z by (simp add: zat_def)
    have high: "b' \<noteq> 0 \<and> b' \<notin> set (zStop i c)" if "continues b'" for b'
    proof -
      have "128 \<le> unat b'" using that continues_iff by simp
      then have "\<not> b' < 0x80" by (simp add: word_less_nat_alt)
      then show ?thesis using stops_ascii [OF assms] by auto
    qed
    have "strcspn_rest z (zStop i c) = strcspn_rest bs (zStop i c)" using z b0 False by (simp add: strcspn_rest_def)
    also have "\<dots> = strcspn_rest z' (zStop i c)"
      using read_rest [of b bs d z'] r z dropWhile_weaker [of continues, OF high] by (simp add: strcspn_rest_def)
    finally have rest: "strcspn_rest z (zStop i c) = strcspn_rest z' (zStop i c)" .
    have "\<not> same_char i c d"
    proof (cases "b < 0x80")
      case True
      then have "d = ucast b" using r z by (auto simp: word_less_nat_alt word_le_nat_alt)
      then show ?thesis using stops_ascii [OF assms, of b] False True z by simp
    next
      case False
      then have "\<not> d < 0x80" using read_large r z by blast
      then show ?thesis using assms by (auto simp: same_char_def)
    qed
    then show ?thesis using ih chars_read [OF r] False rest by (metis append_Cons set_ConsD)
  qed
qed

lemma strcspn_stop: "strcspn_rest z stops = b # z' \<Longrightarrow> b = 0 \<or> b \<in> set stops"
  unfolding strcspn_rest_def using hd_dropWhile [of "\<lambda>b. b \<noteq> 0 \<and> b \<notin> set stops" z] by (metis list.distinct(1) list.sel(1))

section \<open>Matching\<close>

lemma any_step: "matches i (Any # p) s \<longleftrightarrow> matches i p s \<or> (\<exists>x t. s = x # t \<and> matches i (Any # p) t)"
proof
  assume "matches i (Any # p) s"
  then obtain k where k: "k \<le> length s" "matches i p (drop k s)" by auto
  then show "matches i p s \<or> (\<exists>x t. s = x # t \<and> matches i (Any # p) t)" by (cases k; cases s) auto
next
  assume r: "matches i p s \<or> (\<exists>x t. s = x # t \<and> matches i (Any # p) t)"
  show "matches i (Any # p) s"
  proof (cases "matches i p s")
    case True
    then show ?thesis by (auto intro: exI [of _ 0])
  next
    case False
    then obtain x t k where "s = x # t" "k \<le> length t" "matches i p (drop k t)" using r by auto
    then show ?thesis by (auto intro!: exI [of _ "Suc k"])
  qed
qed

lemma matches_single: "w \<noteq> Any \<Longrightarrow> matches i (w # p) s \<longleftrightarrow> (\<exists>x t. s = x # t \<and> takes i w x \<and> matches i p t)"
  by (cases w) auto

lemma any_any: "matches i (Any # Any # p) s \<longleftrightarrow> matches i (Any # p) s"
proof (induction s)
  case (Cons x s)
  then show ?case by (subst (1 2) any_step) (metis any_step list.inject)
qed auto

lemma any_one: "matches i (Any # One # p) s \<longleftrightarrow> (\<exists>x t. s = x # t \<and> matches i (Any # p) t)"
proof (induction s)
  case (Cons x s)
  show ?case by (subst any_step, subst (2) any_step) (use Cons in \<open>auto simp: matches_single simp del: matches.simps\<close>)
qed simp

lemma any_consume: "w \<noteq> Any \<Longrightarrow> matches i (Any # w # p) (x # s) \<Longrightarrow> matches i (Any # p) s"
proof -
  assume w: "w \<noteq> Any" and "matches i (Any # w # p) (x # s)"
  then obtain k y t where "drop k (x # s) = y # t" "matches i p t" using matches_single [OF w] by auto
  then have "t = tl (drop k (x # s))" by simp
  then have "t = drop k s" by (simp only: tl_drop list.sel)
  moreover have "k \<le> length s" using \<open>drop k (x # s) = y # t\<close> by (rule_tac ccontr) simp
  ultimately show ?thesis using \<open>matches i p t\<close> by auto
qed

lemma match_char_takes:
  assumes "READ_UTF8 s = (x, s')" and "d \<noteq> 0"
  shows "match_char i escaped d s =
    (if x \<noteq> 0 \<and> takes i (if \<not> escaped \<and> d = ucast (matchOne i) then One else Lit d) x then Some s' else None)"
proof -
  have r: "Utf8Read s = (x, s')" using assms(1) by (simp add: Utf8Read_read)
  define one folded where "one = (\<not> escaped \<and> d = ucast (matchOne i))"
    and "folded = (noCase i \<and> sqlite3Tolower d = sqlite3Tolower x \<and> d < 0x80 \<and> x < 0x80)"
  have "match_char i escaped d s = (if d = x \<or> folded \<or> one \<and> x \<noteq> 0 then Some s' else None)"
    unfolding match_char_def r prod.case folded_def one_def by argo
  moreover have "takes i (if one then One else Lit d) x \<longleftrightarrow> one \<or> d = x \<or> folded"
    unfolding folded_def by (simp only: takes.simps same_char_def split: if_split) blast
  moreover have "sqlite3Tolower d \<noteq> sqlite3Tolower 0" if "d < 0x80"
    using assms(2) lower_ascii [OF that] lower_ascii [of 0] by (auto simp: unat_gt_0)
  then have "x = 0 \<Longrightarrow> \<not> folded" by (auto simp: folded_def)
  ultimately show ?thesis unfolding one_def [symmetric] using assms(2) by argo
qed

text \<open>Wildcards in a row need as many characters as there are single ones among them.\<close>

lemma wilds_any: "c = ucast (matchAll i) \<Longrightarrow> wilds i other (c # cs) = Any # wilds i other cs"
  by (simp add: wilds.simps(2))

lemma wilds_one: "c \<noteq> ucast (matchAll i) \<Longrightarrow> c \<noteq> other \<Longrightarrow> c = ucast (matchOne i) \<Longrightarrow> wilds i other (c # cs) = One # wilds i other cs"
  by (simp add: wilds.simps(2))

text \<open>The wildcards and the escape character are distinct, and a set opens with a character below 0x80.\<close>

definition plain_info :: "compareInfo \<Rightarrow> u32 \<Rightarrow> bool" where
  "plain_info i other \<longleftrightarrow> (matchOne i \<noteq> 0 \<longrightarrow> matchOne i \<noteq> matchAll i \<and> other \<noteq> ucast (matchOne i))
    \<and> (matchSet i \<noteq> 0 \<longrightarrow> other < 0x80)"

lemma ucast_eq: "(ucast a :: u32) = ucast b \<longleftrightarrow> a = b" for a b :: u8
  using unat_less [of a] unat_less [of b] by (simp add: word_unat_eq_iff unat_ucast_mod)

lemma ucast_0_iff: "(ucast a :: u32) = 0 \<longleftrightarrow> a = 0" for a :: u8
  using ucast_eq [of a 0] by simp

lemma skip_wild_matches:
  "plain_info i other \<Longrightarrow>
     case skip_wild i p s of
       None \<Rightarrow> \<not> matches i (Any # wilds i other (chars p)) (chars s)
     | Some (c, p', s') \<Rightarrow>
         (matches i (Any # wilds i other (chars p)) (chars s)
            \<longleftrightarrow> matches i (Any # wilds i other (if c = 0 then [] else c # chars p')) (chars s'))
         \<and> (c \<noteq> 0 \<longrightarrow> c \<noteq> ucast (matchAll i) \<and> c \<noteq> ucast (matchOne i))"
proof (induction i p s rule: skip_wild.induct)
  case (1 i p s)
  obtain c q where r: "READ_UTF8 p = (c, q)" by fastforce
  have rd: "(c, q) = Utf8Read p" using r by (simp add: Utf8Read_read)
  obtain d t where t: "READ_UTF8 s = (d, t)" by fastforce
  have rs: "(d, t) = sqlite3Utf8Read s" using t by (simp add: sqlite3Utf8Read_def)
  show ?case
  proof (cases "c \<noteq> 0 \<and> (c = ucast (matchAll i) \<or> c = ucast (matchOne i) \<and> matchOne i \<noteq> 0)")
    case False
    then have "skip_wild i p s = Some (c, q, s)" using rd [symmetric] by (subst skip_wild.simps) auto
    then show ?thesis using False chars_read [OF r] by (auto simp: ucast_0_iff)
  next
    case wild: True
    note cs = chars_read [OF r]
    show ?thesis
    proof (cases "c = ucast (matchOne i)")
      case one: True
      have w: "wilds i other (chars p) = One # wilds i other (chars q)"
        using one wild "1.prems" cs by (auto simp: plain_info_def ucast_eq wilds_one)
      show ?thesis
      proof (cases "d = 0")
        case True
        then have "skip_wild i p s = None" using rd [symmetric] rs [symmetric] wild one by (subst skip_wild.simps) simp
        then show ?thesis using w True chars_read [OF t] by (simp add: any_one del: matches.simps)
      next
        case False
        then have step: "skip_wild i p s = skip_wild i q t" using rd [symmetric] rs [symmetric] wild one by (subst skip_wild.simps) simp
        have same: "matches i (Any # wilds i other (chars p)) (chars s) = matches i (Any # wilds i other (chars q)) (chars t)"
          using w False chars_read [OF t] by (simp add: any_one del: matches.simps)
        show ?thesis using "1.IH"(1) [OF rd wild one rs False "1.prems"] unfolding step same .
      qed
    next
      case all: False
      then have step: "skip_wild i p s = skip_wild i q s" using rd [symmetric] wild by (subst skip_wild.simps) auto
      have same: "wilds i other (chars p) = Any # wilds i other (chars q)" using all wild cs wilds_any [of c i other "chars q"] by auto
      show ?thesis using "1.IH"(2) [OF rd wild all "1.prems"] unfolding step same any_any .
    qed
  qed
qed

text \<open>The answers of the matcher, and of a search for the rest of a pattern after a wildcard.\<close>

definition good :: "compareInfo \<Rightarrow> nat \<Rightarrow> wild list \<Rightarrow> u32 list \<Rightarrow> bool" where
  "good i r p s \<longleftrightarrow> (r = SQLITE_MATCH \<longleftrightarrow> matches i p s) \<and> (r = SQLITE_NOWILDCARDMATCH \<longrightarrow> \<not> matches i (Any # p) s)
    \<and> r \<in> {SQLITE_MATCH, SQLITE_NOMATCH, SQLITE_NOWILDCARDMATCH}"

definition full :: "compareInfo \<Rightarrow> nat \<Rightarrow> wild list \<Rightarrow> u32 list \<Rightarrow> bool" where
  "full i r p s \<longleftrightarrow> r = (if matches i (Any # p) s then SQLITE_MATCH else SQLITE_NOWILDCARDMATCH)"

lemmas codes = SQLITE_MATCH_def SQLITE_NOMATCH_def SQLITE_NOWILDCARDMATCH_def

lemma full_good: "full i r p s' \<Longrightarrow> matches i (Any # q) s = matches i (Any # p) s' \<Longrightarrow> good i r (Any # q) s"
  by (simp add: full_def good_def any_any codes del: matches.simps)

lemma good_consume: "w \<noteq> Any \<Longrightarrow> takes i w x \<Longrightarrow> good i r p s \<Longrightarrow> good i r (w # p) (x # s)"
  using any_consume [of w i p x s] by (auto simp: good_def matches_single simp del: matches.simps)

lemma good_fail: "w \<noteq> Any \<Longrightarrow> s = [] \<or> \<not> takes i w (hd s) \<Longrightarrow> good i SQLITE_NOMATCH (w # p) s"
  by (auto simp: good_def matches_single codes simp del: matches.simps)

text \<open>A search step: the characters passed over do not start a match, the one found is taken by \<open>w\<close>.\<close>

lemma any_pass: "\<forall>x\<in>set pre. \<not> takes i w x \<Longrightarrow> w \<noteq> Any \<Longrightarrow> matches i (Any # w # p) (pre @ s) = matches i (Any # w # p) s"
proof (induction pre)
  case (Cons x pre)
  then show ?case using any_step [of i "w # p" "x # pre @ s"] matches_single [of w i p] by auto
qed simp

lemma full_none: "w \<noteq> Any \<Longrightarrow> full i SQLITE_NOWILDCARDMATCH (w # p) []"
  using matches_single [of w i p] by (simp add: full_def)

lemma full_found:
  assumes "w \<noteq> Any" and "takes i w x" and "good i b p s" and "b \<noteq> SQLITE_NOMATCH"
  shows "full i b (w # p) (x # s)"
  using assms any_consume [of w i p x s] any_step [of i "w # p" "x # s"] matches_single [of w i p "x # s"]
  by (auto simp: good_def full_def codes simp del: matches.simps)

lemma full_next:
  assumes "w \<noteq> Any" and "good i SQLITE_NOMATCH p s" and "full i r (w # p) s"
  shows "full i r (w # p) (x # s)"
  using assms any_step [of i "w # p" "x # s"] matches_single [of w i p "x # s"]
  by (auto simp: good_def full_def codes simp del: matches.simps)

lemma search_class_full:
  assumes "\<And>s. good i (patternCompare i other p s) (w # q) (chars s)" and "w \<noteq> Any"
  shows "full i (search_class i other p s) (w # q) (chars s)"
proof (induction s rule: chars.induct)
  case (1 s)
  obtain x s' where r: "READ_UTF8 s = (x, s')" by fastforce
  show ?case
  proof (cases "x = 0")
    case True
    then show ?thesis
      using chars_read [OF r] read_0 [of s] r full_none [OF assms(2)] by (subst search_class.simps) simp
  next
    case False
    let ?b = "patternCompare i other p s"
    have s: "chars s = x # chars s'" "zat s 0 \<noteq> 0" using chars_read [OF r] read_0 [of s] r False by simp_all
    have step: "search_class i other p s = (if ?b \<noteq> SQLITE_NOMATCH then ?b else search_class i other p s')"
      using s(2) skip_read [OF r False] by (subst search_class.simps) (simp add: Let_def)
    have g: "good i ?b (w # q) (x # chars s')" using assms(1) [of s] s(1) by simp
    show ?thesis
    proof (cases "?b = SQLITE_NOMATCH")
      case True
      then have "\<not> matches i (w # q) (x # chars s')" using g by (auto simp: good_def codes simp del: matches.simps)
      then show ?thesis using "1.IH" [OF r [symmetric] False] True step s(1) any_step [of i "w # q" "x # chars s'"]
        by (simp add: full_def del: matches.simps)
    next
      case False
      then show ?thesis using step s(1) g any_step [of i "w # q" "x # chars s'"]
        by (auto simp: full_def good_def codes simp del: matches.simps)
    qed
  qed
qed

lemma search_ascii_full:
  assumes "\<And>s. good i (patternCompare i other p s) q (chars s)" and "c < 0x80"
  shows "full i (search_ascii i other (zStop i c) p s) (Lit c # q) (chars s)"
proof (induction s rule: measure_induct_rule [where f = length])
  case (less s)
  let ?s = "strcspn_rest s (zStop i c)"
  obtain pre where pre: "chars s = pre @ chars ?s" "\<forall>x\<in>set pre. \<not> same_char i c x"
    using strcspn_chars [OF assms(2)] by blast
  have skip: "full i r (Lit c # q) (chars s) \<longleftrightarrow> full i r (Lit c # q) (chars ?s)" for r
    using any_pass [of pre i "Lit c" q] pre by (simp add: full_def del: matches.simps)
  show ?case
  proof (cases "zat ?s 0 = 0")
    case True
    then show ?thesis unfolding skip using chars_empty [of ?s] full_none
      by (subst search_ascii.simps) (simp add: Let_def)
  next
    case False
    then obtain b s' where b: "?s = b # s'" "b \<noteq> 0" by (cases ?s) (auto simp: zat_def)
    then have stop: "b < 0x80" "same_char i c (ucast b)"
      using strcspn_stop [OF b(1)] stops_ascii [OF assms(2)] by auto
    then have "READ_UTF8 ?s = (ucast b, s')" using b by (auto simp: word_less_nat_alt word_le_nat_alt)
    then have s: "chars ?s = ucast b # chars s'" using chars_read b(2) by (simp add: ucast_0_iff)
    have len: "length s' < length s" using strcspn_past [of s "zStop i c"] b(1) by simp
    let ?b = "patternCompare i other p s'"
    have step: "search_ascii i other (zStop i c) p s
        = (if ?b \<noteq> SQLITE_NOMATCH then ?b else search_ascii i other (zStop i c) p s')"
      using False b by (subst search_ascii.simps) (simp add: Let_def)
    show ?thesis
    proof (cases "?b = SQLITE_NOMATCH")
      case True
      then show ?thesis unfolding skip s
        using full_next [of "Lit c" i q "chars s'"] assms(1) [of s'] less.IH [OF len] step by simp
    next
      case False
      then show ?thesis unfolding skip s
        using full_found [of "Lit c" i "ucast b" ?b q "chars s'"] assms(1) [of s'] stop(2) step by simp
    qed
  qed
qed

lemma search_char_full:
  assumes "\<And>s. good i (patternCompare i other p s) q (chars s)" and "\<not> c < 0x80"
  shows "full i (search_char i other c p s) (Lit c # q) (chars s)"
proof (induction s rule: chars.induct)
  case (1 s)
  obtain x s' where r: "READ_UTF8 s = (x, s')" by fastforce
  have rd: "Utf8Read s = (x, s')" using r by (simp add: Utf8Read_read)
  show ?case
  proof (cases "x = 0")
    case True
    then show ?thesis using chars_read [OF r] rd full_none by (subst search_char.simps) simp
  next
    case False
    have s: "chars s = x # chars s'" using chars_read [OF r] False by simp
    let ?b = "patternCompare i other p s'"
    note ih = "1.IH" [OF r [symmetric] False]
    show ?thesis
    proof (cases "x = c \<and> ?b \<noteq> SQLITE_NOMATCH")
      case True
      then have "search_char i other c p s = ?b" using rd False by (subst search_char.simps) (simp add: Let_def)
      then show ?thesis
        using s True full_found [of "Lit c" i x ?b q "chars s'"] assms(1) [of s'] by (simp add: same_char_def)
    next
      case no: False
      then have "search_char i other c p s = search_char i other c p s'"
        using rd False by (subst search_char.simps) (auto simp: Let_def)
      moreover have "full i r (Lit c # q) (x # chars s')" if "full i r (Lit c # q) (chars s')" for r
      proof (cases "x = c")
        case True
        then show ?thesis using full_next [of "Lit c" i q "chars s'"] no assms(1) [of s'] that by simp
      next
        case False
        then show ?thesis using any_pass [of "[x]" i "Lit c" q "chars s'"] assms(2) that
          by (auto simp: full_def same_char_def simp del: matches.simps)
      qed
      ultimately show ?thesis using ih s by simp
    qed
  qed
qed

text \<open>The matcher against the meaning of patterns.\<close>

lemma class_of_single: "class_of cs = Some (w, rest) \<Longrightarrow> w \<noteq> Any"
  by (auto simp: class_of_def split: list.splits if_splits prod.splits)

lemma wilds_class:
  "c \<noteq> ucast (matchAll i) \<Longrightarrow> matchSet i \<noteq> 0 \<Longrightarrow>
     \<exists>w q. wilds i c (c # cs) = w # q \<and> w \<noteq> Any"
  by (auto simp: wilds.simps(2) class_of_single split: option.splits)

lemma after_wild:
  assumes cmp: "\<And>p' s. length p' < length p \<Longrightarrow> good i (patternCompare i other p' s) (wilds i other (chars p')) (chars s)"
    and plain: "plain_info i other" and r: "READ_UTF8 p = (c, q)" and c: "c = ucast (matchAll i)" "c \<noteq> 0"
  shows "good i (patternCompare i other p s) (wilds i other (chars p)) (chars s)"
proof -
  have w: "wilds i other (chars p) = Any # wilds i other (chars q)" using chars_read [OF r] c by (simp add: wilds_any)
  have ql: "length q < length p" using read_shorter [OF r c(2)] .
  show ?thesis
  proof (cases "skip_wild i q s")
    case None
    then have "\<not> matches i (Any # wilds i other (chars q)) (chars s)" using skip_wild_matches [OF plain, of q s] by simp
    moreover have "patternCompare i other p s = SQLITE_NOWILDCARDMATCH"
      using None r c by (subst patternCompare.simps) (simp add: Utf8Read_read)
    ultimately show ?thesis using w by (simp add: good_def any_any codes del: matches.simps)
  next
    case (Some x)
    obtain d q2 s2 where x: "x = (d, q2, s2)" by (cases x) auto
    have m: "matches i (Any # wilds i other (chars q)) (chars s)
          \<longleftrightarrow> matches i (Any # wilds i other (if d = 0 then [] else d # chars q2)) (chars s2)"
        and d: "d \<noteq> 0 \<longrightarrow> d \<noteq> ucast (matchAll i) \<and> d \<noteq> ucast (matchOne i)"
      using skip_wild_matches [OF plain, of q s] Some x by simp_all
    have q2l: "d \<noteq> 0 \<Longrightarrow> length q2 < length q" "length q2 \<le> length q"
      using skip_wild_shorter [of i q s d q2 s2] Some x by simp_all
    consider "d = 0" | "d \<noteq> 0" "d = other" "matchSet i \<noteq> 0" | "d \<noteq> 0" "\<not> (d = other \<and> matchSet i \<noteq> 0)" by blast
    then show ?thesis
    proof cases
      case 1
      then have "patternCompare i other p s = SQLITE_MATCH"
        using Some x r c by (subst patternCompare.simps) (simp add: Utf8Read_read)
      moreover have "matches i (Any # []) (chars s2)" by auto
      ultimately show ?thesis using m 1 w by (simp add: good_def codes del: matches.simps)
    next
      case 2
      let ?p = "ucast other # q2"
      have o: "other < 0x80" "(ucast (ucast other :: u8) :: u32) = other"
        using plain 2 by (auto simp: plain_info_def word_less_nat_alt word_unat_eq_iff unat_ucast_mod)
      then have "READ_UTF8 ?p = (other, q2)" by (auto simp: word_less_nat_alt word_le_nat_alt unat_ucast_mod)
      then have p: "chars ?p = other # chars q2" using chars_read 2 by simp
      obtain v u where vu: "wilds i other (chars ?p) = v # u" "v \<noteq> Any" using wilds_class 2 d p by metis
      have "good i (patternCompare i other ?p t) (v # u) (chars t)" for t
        using cmp [of ?p t] q2l(1) ql 2 vu by simp
      then have "full i (search_class i other ?p s2) (v # u) (chars s2)" using search_class_full vu(2) by blast
      moreover have "patternCompare i other p s = search_class i other ?p s2"
        using Some x r c 2 by (subst patternCompare.simps) (simp add: Utf8Read_read)
      moreover have "matches i (Any # wilds i other (chars q)) (chars s) = matches i (Any # v # u) (chars s2)"
        using m 2 p vu(1) by simp
      ultimately show ?thesis unfolding w by (simp add: full_good)
    next
      case 3
      obtain e q3 where e: "(if d = other then READ_UTF8 q2 else (d, q2)) = (e, q3)" by fastforce
      have q3: "e \<noteq> 0 \<Longrightarrow> length q3 < length p"
        using e q2l ql read_not_longer [of q2 e q3] by (auto split: if_splits)
      have lits: "wilds i other (d # chars q2) = (if e = 0 then [Bad] else Lit e # wilds i other (chars q3))"
        using e d 3 chars_read [of q2 e q3] by (auto simp: wilds.simps(2) split: if_splits)
      have "full i (patternCompare i other p s) (if e = 0 then [Bad] else Lit e # wilds i other (chars q3)) (chars s2)"
      proof (cases "e = 0")
        case True
        then have "patternCompare i other p s = SQLITE_NOWILDCARDMATCH"
          using Some x r c 3 e by (subst patternCompare.simps, cases "d = other") (simp_all add: Utf8Read_read sqlite3Utf8Read_def)
        then show ?thesis using True by (simp add: full_def)
      next
        case False
        have g: "good i (patternCompare i other q3 t) (wilds i other (chars q3)) (chars t)" for t
          using cmp q3 [OF False] by blast
        have "patternCompare i other p s = (if e < 0x80 then search_ascii i other (zStop i e) q3 s2 else search_char i other e q3 s2)"
          using Some x r c 3 e False
          by (subst patternCompare.simps, cases "d = other") (simp_all add: Utf8Read_read sqlite3Utf8Read_def)
        then show ?thesis using search_ascii_full [OF g, of e] search_char_full [OF g, of e] False by simp
      qed
      moreover have "matches i (Any # wilds i other (chars q)) (chars s)
          = matches i (Any # (if e = 0 then [Bad] else Lit e # wilds i other (chars q3))) (chars s2)"
        using m 3 lits by simp
      ultimately show ?thesis unfolding w by (simp add: full_good)
    qed
  qed
qed

lemma patternCompare_good:
  assumes "plain_info i other"
  shows "good i (patternCompare i other p s) (wilds i other (chars p)) (chars s)"
proof (induction p arbitrary: s rule: measure_induct_rule [where f = length])
  case (less p)
  obtain c q where r: "READ_UTF8 p = (c, q)" by fastforce
  obtain x s' where rs: "READ_UTF8 s = (x, s')" by fastforce
  have str: "chars s = (if x = 0 then [] else x # chars s')" using chars_read [OF rs] .
  consider "c = 0" | "c \<noteq> 0" "c = ucast (matchAll i)" | "c \<noteq> 0" "c \<noteq> ucast (matchAll i)" "c = other" "matchSet i \<noteq> 0"
    | "c \<noteq> 0" "c \<noteq> ucast (matchAll i)" "\<not> (c = other \<and> matchSet i \<noteq> 0)" by blast
  then show ?case
  proof cases
    case 1
    then have "patternCompare i other p s = (if zat s 0 = 0 then SQLITE_MATCH else SQLITE_NOMATCH)"
      using r by (subst patternCompare.simps) (simp add: Utf8Read_read)
    then show ?thesis using 1 chars_read [OF r] chars_empty [of s] by (auto simp: good_def codes)
  next
    case 2
    show ?thesis by (rule after_wild [OF less assms r 2(2,1)])
  next
    case 3
    have w: "wilds i other (chars p) = (case class_of (chars q) of None \<Rightarrow> [Bad] | Some (w, rest) \<Rightarrow> w # wilds i other rest)"
      using chars_read [OF r] 3 by (simp add: wilds.simps(2))
    have ql: "length q < length p" using read_shorter [OF r 3(1)] .
    note mc = match_class_takes [OF rs, of i q]
    show ?thesis
    proof (cases "match_class q s")
      case None
      then have "patternCompare i other p s = SQLITE_NOMATCH"
        using r 3 by (subst patternCompare.simps) (simp add: Utf8Read_read)
      then show ?thesis unfolding w using mc None str good_fail class_of_single
        by (auto split: option.splits prod.splits)
    next
      case (Some y)
      then obtain q' v where y: "y = (q', s')" "x \<noteq> 0" "class_of (chars q) = Some (v, chars q')" "takes i v x"
        using mc by (auto split: prod.splits)
      have "length q' < length p" using match_class_shorter Some y(1) ql by fastforce
      moreover have "patternCompare i other p s = patternCompare i other q' s'"
        using r 3 Some y(1) by (subst patternCompare.simps) (simp add: Utf8Read_read)
      ultimately show ?thesis unfolding w using less y str good_consume [OF class_of_single [OF y(3)] y(4)] by simp
    qed
  next
    case 4
    obtain d q' where d: "(if c = other then READ_UTF8 q else (c, q)) = (d, q')" by fastforce
    let ?w = "if \<not> (c = other) \<and> d = ucast (matchOne i) then One else Lit d"
    have one: "c = other \<Longrightarrow> c \<noteq> ucast (matchOne i)"
      using assms 4 by (auto simp: plain_info_def ucast_0_iff)
    have w: "wilds i other (chars p) = (if d = 0 then [Bad] else ?w # wilds i other (chars q'))"
      using chars_read [OF r] 4 d one chars_read [of q d q'] by (auto simp: wilds.simps(2) split: if_splits)
    show ?thesis
    proof (cases "d = 0")
      case True
      then have "patternCompare i other p s = SQLITE_NOMATCH"
        using r 4 d by (subst patternCompare.simps, cases "c = other") (simp_all add: Utf8Read_read sqlite3Utf8Read_def)
      then show ?thesis unfolding w using True good_fail [of Bad] by simp
    next
      case False
      note mt = match_char_takes [OF rs False, of i "c = other"]
      have q': "length q' < length p"
        using d read_shorter [OF r 4(1)] read_not_longer [of q d q'] by (auto split: if_splits)
      have step: "patternCompare i other p s = (case match_char i (c = other) d s of None \<Rightarrow> SQLITE_NOMATCH
          | Some t \<Rightarrow> patternCompare i other q' t)"
        using r 4 d False by (subst patternCompare.simps, cases "c = other") (simp_all add: Utf8Read_read sqlite3Utf8Read_def)
      show ?thesis
      proof (cases "x \<noteq> 0 \<and> takes i ?w x")
        case True
        then have "patternCompare i other p s = patternCompare i other q' s'" unfolding step mt by simp
        then show ?thesis unfolding w using less [OF q'] str True False good_consume [of ?w i x] by simp
      next
        case no: False
        then have "patternCompare i other p s = SQLITE_NOMATCH" unfolding step mt by auto
        then show ?thesis unfolding w using good_fail [of ?w "chars s" i] str no False by auto
      qed
    qed
  qed
qed

lemma patternCompare_match:
  "plain_info i other \<Longrightarrow> patternCompare i other p s = SQLITE_MATCH \<longleftrightarrow> matches i (wilds i other (chars p)) (chars s)"
  using patternCompare_good [of i other p s] by (simp add: good_def)

lemma plain_tables: "plain_info globInfo 0x5B" "plain_info likeInfoNorm 0" "plain_info likeInfoAlt 0"
  by (simp_all add: plain_info_def globInfo_def likeInfoNorm_def likeInfoAlt_def)

lemma plain_escape:
  assumes "i \<in> {likeInfoNorm, likeInfoAlt}"
  shows "plain_info (escape_info i e) e"
  using assms by (auto simp: plain_info_def escape_info_def likeInfoNorm_def likeInfoAlt_def Let_def)

section \<open>Properties\<close>

text \<open>C26.
  LIKE and GLOB decide matching.  With texts for arguments and a pattern within the limit, the SQL
  function answers whether the characters of the string match the pattern: a sequence of wildcards,
  sets and characters, with the ASCII letters folded for LIKE, where an escape character, which
  also disables a wildcard it equals, makes the next one literal.  Giving up early after a failed
  wildcard never changes the answer, and the texts may be any bytes, well-formed or not.
\<close>

theorem like_is_pattern_matching:
  assumes "length zB \<le> limit" and "i \<in> {likeInfoNorm, likeInfoAlt}" and "sqlite3Utf8CharLen zEsc (-1) = 1"
    and "e = fst (sqlite3Utf8Read zEsc)"
  shows "likeFunc i limit [Some zB, Some zA] = ResultInt (matches i (wilds i 0 (chars zB)) (chars zA))
    \<and> likeFunc globInfo limit [Some zB, Some zA] = ResultInt (matches globInfo (wilds globInfo 0x5B (chars zB)) (chars zA))
    \<and> likeFunc i limit [Some zB, Some zA, Some zEsc]
        = ResultInt (matches (escape_info i e) (wilds (escape_info i e) e (chars zB)) (chars zA))"
proof -
  have "matchSet i = 0" "plain_info i 0" using assms(2) plain_tables by (auto simp: likeInfoNorm_def likeInfoAlt_def)
  moreover have "(ucast (matchSet globInfo) :: u32) = 0x5B" by (simp add: globInfo_def)
  ultimately show ?thesis using assms plain_escape [of i e] plain_tables(1)
    by (simp add: likeFunc_def patternCompare_match Let_def not_less [symmetric] del: not_less)
qed

theorem like_is_pattern_matching_witness:
  "likeFunc likeInfoNorm 100 [Some [0x61, 0x25], Some [0x41, 0x62], Some [0x21]]
    = ResultInt (matches (escape_info likeInfoNorm 0x21) (wilds (escape_info likeInfoNorm 0x21) 0x21 (chars [0x61, 0x25])) (chars [0x41, 0x62]))"
proof -
  have "sqlite3Utf8CharLen [0x21] (-1) = 1" "0x21 = fst (sqlite3Utf8Read [0x21])" by code_simp+
  then show ?thesis
    using like_is_pattern_matching [of "[0x61, 0x25]" 100 likeInfoNorm "[0x21]" "0x21" "[0x41, 0x62]"] by simp
qed

text \<open>
  The C interfaces agree with the operators and treat missing texts alike: \<open>sqlite3_strglob\<close> and
  \<open>sqlite3_strlike\<close> return zero exactly when both texts are missing or both are there and match.  (The escape
  character of \<open>sqlite3_strlike\<close> must not be the underscore, which the code tests for first after a percent sign
  only.)
\<close>

theorem strlike_is_pattern_matching:
  assumes "esc \<noteq> 0x5F"
  shows "(sqlite3_strglob P S = 0 \<longleftrightarrow> (case (P, S) of
        (Some p, Some s) \<Rightarrow> matches globInfo (wilds globInfo 0x5B (chars p)) (chars s) | (p, s) \<Rightarrow> p = None \<and> s = None))
    \<and> (sqlite3_strlike P S esc = 0 \<longleftrightarrow> (case (P, S) of
        (Some p, Some s) \<Rightarrow> matches likeInfoNorm (wilds likeInfoNorm esc (chars p)) (chars s) | (p, s) \<Rightarrow> p = None \<and> s = None))"
proof -
  have "plain_info likeInfoNorm esc" using assms by (simp add: plain_info_def likeInfoNorm_def)
  then show ?thesis using plain_tables(1) patternCompare_match
    by (auto simp: sqlite3_strglob_def sqlite3_strlike_def SQLITE_MATCH_def split: option.splits)
qed

theorem strlike_is_pattern_matching_witness:
  "sqlite3_strlike (Some [0x25, 0x62]) (Some [0x41, 0x42]) 0x5C = 0
    \<longleftrightarrow> matches likeInfoNorm (wilds likeInfoNorm 0x5C (chars [0x25, 0x62])) (chars [0x41, 0x42])"
  using strlike_is_pattern_matching [of "0x5C" "Some [0x25, 0x62]" "Some [0x41, 0x42]"] by simp

text \<open>With the percent sign for escape character, \<open>sqlite3_strlike\<close> and the operator it is documented to
  be the same as differ: only the operator disables the wildcard.\<close>

lemma strlike_percent_escape:
  "sqlite3_strlike (Some [0x25]) (Some [0x61]) 0x25 = 0"
  "likeFunc likeInfoNorm 100 [Some [0x25], Some [0x61], Some [0x25]] = ResultInt False"
  by code_simp+

end
