(* ===== verification/LogEst.thy ===== *)
theory LogEst
  imports Prelude "HOL-Library.Signed_Division"
begin

text \<open>
  Logarithmic estimates (\<open>util.c\<close>): a \<open>LogEst\<close> is a 16-bit integer close to ten times the logarithm to
  base two of a count, with which the query planner computes.  The 64-bit counts are natural
  numbers where they are only shifted right.
\<close>

definition sqlite3LogEstAdd :: "int \<Rightarrow> int \<Rightarrow> int" where
  "sqlite3LogEstAdd a b =
    (let x = [10, 10, 9, 9, 8, 8, 7, 7, 7, 6, 6, 6, 5, 5, 5, 4, 4, 4, 4, 3, 3, 3, 3, 3, 3, 2, 2, 2, 2, 2, 2, 2]
     in if a \<ge> b then
          (if a > b + 49 then a else if a > b + 31 then a + 1 else a + x ! nat (a - b))
        else
          (if b > a + 49 then b else if b > a + 31 then b + 1 else b + x ! nat (b - a)))"

text \<open>\<open>while( x<8 ){ y -= 10; x <<= 1; }\<close> on a number that is not zero, and the two loops for large numbers.\<close>

function scale_up :: "nat \<Rightarrow> int \<Rightarrow> nat \<times> int" where
  "scale_up x y = (if 0 < x \<and> x < 8 then scale_up (2 * x) (y - 10) else (x, y))"
  by pat_completeness auto
termination
  by (relation "measure (\<lambda>(x, y). 8 - x)") auto

function scale_down :: "nat \<Rightarrow> nat \<Rightarrow> nat \<Rightarrow> int \<Rightarrow> nat \<times> int" where
  "scale_down limit k x y = (if 0 < k \<and> limit < x then scale_down limit k (x div 2 ^ k) (y + 10 * int k) else (x, y))"
  by pat_completeness auto
termination
proof (relation "measure (\<lambda>(limit, k, x, y). x)", goal_cases)
  case (2 limit k x y)
  then have "(2 :: nat) ^ 1 \<le> 2 ^ k" by (intro power_increasing) auto
  then show ?case using 2 by (simp add: div_less_dividend)
qed simp

declare scale_up.simps [simp del] scale_down.simps [simp del]

definition logest_digit :: "int list" where
  "logest_digit = [0, 2, 3, 5, 6, 7, 8, 9]"

definition sqlite3LogEst :: "nat \<Rightarrow> int" where
  "sqlite3LogEst x =
    (if x < 2 then 0
     else let (x, y) = (if x < 8 then scale_up x 40
                        else let (x, y) = scale_down 255 4 x 40 in scale_down 15 1 x y)
          in logest_digit ! (x AND 7) + y - 10)"

text \<open>\<open>None\<close> where a shift by the width or more would be undefined.\<close>

definition sqlite3LogEstToInt :: "int \<Rightarrow> u64 option" where
  "sqlite3LogEstToInt x =
    (let n = word_of_int (x smod 10) :: u64; x = x sdiv 10;
         n = (if n \<ge> 5 then n - 2 else if n \<ge> 1 then n - 1 else n)
     in if x > 60 then Some 0x7fffffffffffffff
        else if x \<ge> 3 then Some (push_bit (nat (x - 3)) (n + 8))
        else if 3 - x < 64 then Some (drop_bit (nat (3 - x)) (n + 8)) else None)"

section \<open>Normal form\<close>

lemma scale_down_form:
  "\<exists>i. scale_down limit k x y = (x div 2 ^ i, y + 10 * int i) \<and> (i = 0 \<or> Suc limit div 2 ^ k \<le> x div 2 ^ i)
     \<and> (0 < k \<longrightarrow> x div 2 ^ i \<le> limit)"
proof (induction limit k x y rule: scale_down.induct)
  case (1 limit k x y)
  show ?case
  proof (cases "0 < k \<and> limit < x")
    case True
    then obtain i where i: "scale_down limit k (x div 2 ^ k) (y + 10 * int k) = (x div 2 ^ k div 2 ^ i, y + 10 * int k + 10 * int i)"
        "i = 0 \<or> Suc limit div 2 ^ k \<le> x div 2 ^ k div 2 ^ i" "x div 2 ^ k div 2 ^ i \<le> limit"
      using "1.IH" by auto
    have d: "x div 2 ^ k div 2 ^ i = x div 2 ^ (k + i)" by (simp add: div_mult2_eq power_add)
    have "Suc limit div 2 ^ k \<le> x div 2 ^ k" using True by (intro div_le_mono) simp
    then have low: "Suc limit div 2 ^ k \<le> x div 2 ^ (k + i)" using i(2) d by auto
    show ?thesis using True i(1,3) low d
      by (subst scale_down.simps) (intro exI [of _ "k + i"], simp)
  next
    case False
    then show ?thesis by (subst scale_down.simps) (intro exI [of _ 0], auto)
  qed
qed

text \<open>A number of four bits or more: its leading four bits and how many follow.\<close>

lemma logest_large:
  assumes "8 \<le> x"
  obtains i k where "x div 2 ^ i = 8 + k" and "k < 8" and "sqlite3LogEst x = 10 * (int i + 3) + logest_digit ! k"
proof -
  obtain i where i: "scale_down 255 4 x 40 = (x div 2 ^ i, 40 + 10 * int i)" "i = 0 \<or> 16 \<le> x div 2 ^ i"
    using scale_down_form [of 255 4 x 40] by auto
  obtain j where j: "scale_down 15 1 (x div 2 ^ i) (40 + 10 * int i) = (x div 2 ^ i div 2 ^ j, 40 + 10 * int i + 10 * int j)"
      "j = 0 \<or> 8 \<le> x div 2 ^ i div 2 ^ j" "x div 2 ^ i div 2 ^ j \<le> 15"
    using scale_down_form [of 15 1 "x div 2 ^ i" "40 + 10 * int i"] by auto
  have e: "x div 2 ^ i div 2 ^ j = x div 2 ^ (i + j)" by (simp add: div_mult2_eq power_add)
  have "8 \<le> x div 2 ^ (i + j)" using i(2) j(2) e assms by auto
  then obtain k where k: "x div 2 ^ (i + j) = 8 + k" using le_Suc_ex by blast
  have k8: "k < 8" using j(3) e k by simp
  have "(8 + k) AND 7 = (8 + k) mod 8"
    using take_bit_eq_mask [of 3 "8 + k"] take_bit_eq_mod [of 3 "8 + k"] by (simp add: mask_eq_exp_minus_1)
  then have "(8 + k) AND 7 = k" using k8 by simp
  then have "sqlite3LogEst x = 10 * (int (i + j) + 3) + logest_digit ! k"
    using assms i(1) j(1) e k by (simp add: sqlite3LogEst_def)
  with k k8 show ?thesis by (rule that)
qed

lemma octave:
  fixes z i k :: nat
  assumes "z div 2 ^ i = 8 + k" and "k < 8"
  shows "2 ^ i * 8 \<le> z \<and> z < 2 ^ i * 16"
proof
  have "(8 + k) * 2 ^ i \<le> z" using div_times_less_eq_dividend [of z "2 ^ i"] assms(1) by simp
  then show "2 ^ i * 8 \<le> z" by (simp add: add_mult_distrib)
  have "z < (8 + k) * 2 ^ i + 2 ^ i" using dividend_less_div_times [of "2 ^ i" z] assms(1) by simp
  also have "\<dots> = (9 + k) * 2 ^ i" by (simp add: add_mult_distrib)
  also have "\<dots> \<le> 16 * 2 ^ i" using assms(2) by (intro mult_right_mono) auto
  finally show "z < 2 ^ i * 16" by simp
qed

lemma logest_digit_facts:
  "k < 8 \<Longrightarrow> 0 \<le> logest_digit ! k \<and> logest_digit ! k \<le> 9"
  "k \<le> k' \<Longrightarrow> k' < 8 \<Longrightarrow> logest_digit ! k \<le> logest_digit ! k'"
  "k < 8 \<Longrightarrow> (let n = word_of_int (logest_digit ! k) :: u64 in if n \<ge> 5 then n - 2 else if n \<ge> 1 then n - 1 else n) = word_of_nat k"
proof -
  have all: "k < 8 \<Longrightarrow> k \<in> {0, 1, 2, 3, 4, 5, 6, 7}" for k :: nat by auto
  show "k < 8 \<Longrightarrow> 0 \<le> logest_digit ! k \<and> logest_digit ! k \<le> 9"
    using all [of k] by (auto simp: logest_digit_def)
  have "sorted logest_digit" by (simp add: logest_digit_def)
  then show "k \<le> k' \<Longrightarrow> k' < 8 \<Longrightarrow> logest_digit ! k \<le> logest_digit ! k'"
    by (simp add: sorted_nth_mono logest_digit_def)
  show "k < 8 \<Longrightarrow> (let n = word_of_int (logest_digit ! k) :: u64 in if n \<ge> 5 then n - 2 else if n \<ge> 1 then n - 1 else n) = word_of_nat k"
    using all [of k] by (auto simp: logest_digit_def Let_def)
qed

lemma ten_split: "0 \<le> m \<Longrightarrow> m \<le> 9 \<Longrightarrow> (10 * a + m) mod 10 = m \<and> (10 * a + m) div 10 = a" for a m :: int
  by presburger

lemma logest_small: "x < 8 \<Longrightarrow> sqlite3LogEst x = [0, 0, 10, 16, 20, 23, 26, 28] ! x"
proof -
  assume "x < 8"
  then have "x \<in> {0, 1, 2, 3, 4, 5, 6, 7}" by auto
  then show ?thesis by (elim insertE emptyE; hypsubst; code_simp)
qed

section \<open>Properties\<close>

text \<open>A number with all but its four leading bits cleared.\<close>

function top_four :: "nat \<Rightarrow> nat" where
  "top_four x = (if x < 16 then x else 2 * top_four (x div 2))"
  by pat_completeness auto
termination
  by (relation "measure id") auto

declare top_four.simps [simp del]

lemma top_four_form: "x div 2 ^ i = 8 + k \<Longrightarrow> k < 8 \<Longrightarrow> top_four x = 2 ^ i * (8 + k)"
proof (induction i arbitrary: x)
  case (Suc i)
  have h: "x div 2 div 2 ^ i = 8 + k" using Suc.prems(1) by (simp add: div_mult2_eq)
  have "8 \<le> x div 2" using h div_le_dividend [of "x div 2" "2 ^ i"] by linarith
  then have "\<not> x < 16" by simp
  then show ?case using Suc.IH [OF h Suc.prems(2)] by (subst top_four.simps) simp
qed (simp add: top_four.simps)

text \<open>Turning a count into an estimate and back keeps exactly its four leading bits, for every count
  below \<open>2 ^ 61\<close>; from there on the largest integer is returned.\<close>
theorem logest_keeps_four_bits:
  assumes "0 < x" and "x < 2 ^ 64"
  shows "sqlite3LogEstToInt (sqlite3LogEst x) = Some (if x < 2 ^ 61 then word_of_nat (top_four x) else 0x7fffffffffffffff)"
proof (cases "x < 8")
  case True
  then have "x \<in> {1, 2, 3, 4, 5, 6, 7}" using assms(1) by auto
  then have "sqlite3LogEstToInt ([0, 0, 10, 16, 20, 23, 26, 28] ! x) = Some (word_of_nat x)"
    by (elim insertE emptyE; hypsubst; code_simp)
  then show ?thesis using True logest_small [OF True] by (simp add: top_four.simps)
next
  case False
  then obtain i k where n: "x div 2 ^ i = 8 + k" "k < 8" "sqlite3LogEst x = 10 * (int i + 3) + logest_digit ! k"
    using logest_large [of x] by auto
  note d = logest_digit_facts(1) [OF n(2)]
  have parts: "sqlite3LogEst x smod 10 = logest_digit ! k" "sqlite3LogEst x sdiv 10 = int i + 3"
    using d ten_split [of "logest_digit ! k" "int i + 3"] unfolding n(3)
    by (simp_all add: signed_modulo_int_def signed_divide_int_def sgn_if)
  have top: "top_four x = 2 ^ i * (8 + k)" by (rule top_four_form [OF n(1,2)])
  have small: "x < 2 ^ 61 \<longleftrightarrow> int i + 3 \<le> 60"
  proof
    assume "x < 2 ^ 61"
    have "2 ^ i * 8 \<le> x" using octave [OF n(1,2)] by simp
    then have "(2 :: nat) ^ (i + 3) < 2 ^ 61" using \<open>x < 2 ^ 61\<close> by (simp add: power_add)
    then show "int i + 3 \<le> 60" by (subst (asm) power_strict_increasing_iff) auto
  next
    assume "int i + 3 \<le> 60"
    have "x < 2 ^ i * 16" using octave [OF n(1,2)] by simp
    also have "\<dots> = 2 ^ (i + 4)" by (simp add: power_add)
    also have "\<dots> \<le> 2 ^ 61" using \<open>int i + 3 \<le> 60\<close> by (intro power_increasing) auto
    finally show "x < 2 ^ 61" .
  qed
  have "push_bit i (word_of_nat k + 8 :: u64) = word_of_nat (2 ^ i * (8 + k))"
    by (simp add: push_bit_eq_mult algebra_simps)
  then show ?thesis
    using logest_digit_facts(3) [OF n(2)] small
    by (simp add: sqlite3LogEstToInt_def parts Let_def top)
qed

lemma logest_keeps_four_bits_witness: "sqlite3LogEstToInt (sqlite3LogEst 1000) = Some (word_of_nat (top_four 1000))"
  using logest_keeps_four_bits [of 1000] by simp

text \<open>Estimates keep the order of the counts.\<close>
theorem logest_monotone: "x \<le> y \<Longrightarrow> sqlite3LogEst x \<le> sqlite3LogEst y"
proof -
  assume le: "x \<le> y"
  show ?thesis
  proof (cases "y < 8")
    case True
    then have "x \<in> {0, 1, 2, 3, 4, 5, 6, 7}" "y \<in> {0, 1, 2, 3, 4, 5, 6, 7}" using le by auto
    then show ?thesis using le logest_small [of x] logest_small [of y] by auto
  next
    case False
    then obtain i k where n: "y div 2 ^ i = 8 + k" "k < 8" "sqlite3LogEst y = 10 * (int i + 3) + logest_digit ! k"
      using logest_large [of y] by auto
    note k = logest_digit_facts(1) [OF n(2)]
    show ?thesis
    proof (cases "x < 8")
      case True
      then have "x \<in> {0, 1, 2, 3, 4, 5, 6, 7}" by auto
      then have "sqlite3LogEst x \<le> 28" using logest_small [OF True] by auto
      then show ?thesis using n(3) k by simp
    next
      case False
      then obtain j l where m: "x div 2 ^ j = 8 + l" "l < 8" "sqlite3LogEst x = 10 * (int j + 3) + logest_digit ! l"
        using logest_large [of x] by auto
      note l = logest_digit_facts(1) [OF m(2)]
      consider "i < j" | "i = j" | "j < i" by linarith
      then show ?thesis
      proof cases
        case 1
        then have "(2 :: nat) ^ Suc i \<le> 2 ^ j" by (intro power_increasing) auto
        then show ?thesis using octave [OF n(1,2)] octave [OF m(1,2)] le by simp
      next
        case 2
        then have "l \<le> k" using div_le_mono [OF le, of "2 ^ j"] n(1) m(1) by simp
        then show ?thesis using logest_digit_facts(2) [of l k] n(2,3) m(3) 2 by simp
      next
        case 3
        then show ?thesis using l k n(3) m(3) by simp
      qed
    qed
  qed
qed

lemma logest_monotone_witness: "sqlite3LogEst 5 \<le> sqlite3LogEst 5000"
  using logest_monotone [of 5 5000] by simp

end
