(* ===== verification/MemDb.thy ===== *)
theory MemDb
  imports IoFile
begin

text \<open>
  The in-memory file system (\<open>memdb.c\<close> inside \<open>sqlite3.c\<close>).  A store is one contiguous buffer with a
  size and an allocated size, counters of readers, writers and mappings, and a reference count.
  Stores whose name starts with a slash are shared: they stand in the list \<open>memdb_g.apMemStore\<close> and
  every open of the name gets the same store.  An open file is a pointer to its store and the lock it
  holds.  Offsets and sizes are non-negative.
\<close>

section \<open>Stores\<close>

record mem_store =
  st_sz :: nat
  st_szAlloc :: nat
  st_szMax :: nat
  st_aData :: bytes
  st_pMutex :: bool
  st_nMmap :: int
  st_mFlags :: u32
  st_nRdLock :: int
  st_nWrLock :: int
  st_nRef :: int
  st_zFName :: "bytes option"

definition SQLITE_DESERIALIZE_FREEONCLOSE :: u32 where "SQLITE_DESERIALIZE_FREEONCLOSE = 1"
definition SQLITE_DESERIALIZE_RESIZEABLE :: u32 where "SQLITE_DESERIALIZE_RESIZEABLE = 2"
definition SQLITE_DESERIALIZE_READONLY :: u32 where "SQLITE_DESERIALIZE_READONLY = 4"

definition memdbRead :: "mem_store \<Rightarrow> nat \<Rightarrow> nat \<Rightarrow> rc \<times> bytes" where
  "memdbRead p iOfst iAmt =
    (if iOfst + iAmt > st_sz p then
       (let zBuf = replicate iAmt 0;
            zBuf = (if iOfst < st_sz p then blit 0 (mslice iOfst (st_sz p - iOfst) (st_aData p)) zBuf else zBuf)
        in (SQLITE_IOERR_SHORT_READ, zBuf))
     else (SQLITE_OK, mslice iOfst iAmt (st_aData p)))"

text \<open>\<open>mem\<close> says whether the reallocation succeeds, \<open>junk\<close> gives the bytes of fresh memory.\<close>

definition memdbEnlarge :: "(nat \<Rightarrow> u8) \<Rightarrow> bool \<Rightarrow> mem_store \<Rightarrow> nat \<Rightarrow> rc \<times> mem_store" where
  "memdbEnlarge junk mem p newSz =
    (if st_mFlags p AND SQLITE_DESERIALIZE_RESIZEABLE = 0 \<or> st_nMmap p > 0 then (SQLITE_FULL, p)
     else if newSz > st_szMax p then (SQLITE_FULL, p)
     else let newSz = newSz * 2; newSz = (if newSz > st_szMax p then st_szMax p else newSz)
          in if \<not> mem then (SQLITE_IOERR_NOMEM, p)
             else (SQLITE_OK, p\<lparr>st_aData := map (\<lambda>k. if k < length (st_aData p) then st_aData p ! k else junk k) [0..<newSz],
                                st_szAlloc := newSz\<rparr>))"

definition memdbWrite :: "(nat \<Rightarrow> u8) \<Rightarrow> bool \<Rightarrow> mem_store \<Rightarrow> nat \<Rightarrow> bytes \<Rightarrow> rc \<times> mem_store" where
  "memdbWrite junk mem p iOfst z =
    (let iAmt = length z
     in if st_mFlags p AND SQLITE_DESERIALIZE_READONLY \<noteq> 0 then (SQLITE_IOERR_WRITE, p)
        else if iOfst + iAmt > st_sz p then
          (case (if iOfst + iAmt > st_szAlloc p then memdbEnlarge junk mem p (iOfst + iAmt) else (SQLITE_OK, p)) of
             (rc, p) \<Rightarrow>
               if rc \<noteq> SQLITE_OK then (rc, p)
               else
                 (let aData = (if iOfst > st_sz p then blit (st_sz p) (replicate (iOfst - st_sz p) 0) (st_aData p)
                               else st_aData p)
                  in (SQLITE_OK, p\<lparr>st_sz := iOfst + iAmt, st_aData := blit iOfst z aData\<rparr>)))
        else (SQLITE_OK, p\<lparr>st_aData := blit iOfst z (st_aData p)\<rparr>))"

definition memdbTruncate :: "mem_store \<Rightarrow> nat \<Rightarrow> rc \<times> mem_store" where
  "memdbTruncate p size' = (if size' > st_sz p then (SQLITE_CORRUPT, p) else (SQLITE_OK, p\<lparr>st_sz := size'\<rparr>))"

definition memdbFileSize :: "mem_store \<Rightarrow> rc \<times> nat" where
  "memdbFileSize p = (SQLITE_OK, st_sz p)"

text \<open>The two controls that \<open>memdbFileControl\<close> knows; the limit is negative to ask for the current one.\<close>

datatype fcntl = FCNTL_VFSNAME | FCNTL_SIZE_LIMIT int | FCNTL_OTHER

definition memdbFileControl :: "mem_store \<Rightarrow> fcntl \<Rightarrow> rc \<times> int \<times> mem_store" where
  "memdbFileControl p op' =
    (case op' of
       FCNTL_VFSNAME \<Rightarrow> (SQLITE_OK, 0, p)
     | FCNTL_SIZE_LIMIT iLimit \<Rightarrow>
         (let iLimit = (if iLimit < int (st_sz p) then (if iLimit < 0 then int (st_szMax p) else int (st_sz p)) else iLimit)
          in (SQLITE_OK, iLimit, p\<lparr>st_szMax := nat iLimit\<rparr>))
     | FCNTL_OTHER \<Rightarrow> (SQLITE_NOTFOUND, 0, p))"

text \<open>A mapping of a page: the offset of its first byte, as long as the store cannot be moved.\<close>

definition memdbFetch :: "mem_store \<Rightarrow> nat \<Rightarrow> nat \<Rightarrow> nat option \<times> mem_store" where
  "memdbFetch p iOfst iAmt =
    (if iOfst + iAmt > st_sz p \<or> st_mFlags p AND SQLITE_DESERIALIZE_RESIZEABLE \<noteq> 0 then (None, p)
     else (Some iOfst, p\<lparr>st_nMmap := st_nMmap p + 1\<rparr>))"

definition memdbUnfetch :: "mem_store \<Rightarrow> mem_store" where
  "memdbUnfetch p = p\<lparr>st_nMmap := st_nMmap p - 1\<rparr>"

section \<open>Locks\<close>

text \<open>The lock levels: none 0, shared 1, reserved 2, pending 3, exclusive 4.\<close>

record mem_file =
  mf_pStore :: nat
  mf_eLock :: nat

definition memdbLock :: "mem_file \<Rightarrow> nat \<Rightarrow> mem_store \<Rightarrow> rc \<times> mem_file \<times> mem_store" where
  "memdbLock pThis eLock p =
    (if eLock \<le> mf_eLock pThis then (SQLITE_OK, pThis, p)
     else
       (let (rc, p) =
              (if eLock > 1 \<and> st_mFlags p AND SQLITE_DESERIALIZE_READONLY \<noteq> 0 then (SQLITE_READONLY, p)
               else if eLock = 1 then
                 (if st_nWrLock p > 0 then (SQLITE_BUSY, p) else (SQLITE_OK, p\<lparr>st_nRdLock := st_nRdLock p + 1\<rparr>))
               else if eLock = 2 \<or> eLock = 3 then
                 (if mf_eLock pThis = 1 then
                    (if st_nWrLock p > 0 then (SQLITE_BUSY, p) else (SQLITE_OK, p\<lparr>st_nWrLock := 1\<rparr>))
                  else (SQLITE_OK, p))
               else if st_nRdLock p > 1 then (SQLITE_BUSY, p)
               else if mf_eLock pThis = 1 then (SQLITE_OK, p\<lparr>st_nWrLock := 1\<rparr>)
               else (SQLITE_OK, p))
        in (rc, (if rc = SQLITE_OK then pThis\<lparr>mf_eLock := eLock\<rparr> else pThis), p)))"

definition memdbUnlock :: "mem_file \<Rightarrow> nat \<Rightarrow> mem_store \<Rightarrow> mem_file \<times> mem_store" where
  "memdbUnlock pThis eLock p =
    (if eLock \<ge> mf_eLock pThis then (pThis, p)
     else
       (let p = (if eLock = 1 then
                   (if mf_eLock pThis > 1 then p\<lparr>st_nWrLock := st_nWrLock p - 1\<rparr> else p)
                 else
                   (let p = (if mf_eLock pThis > 1 then p\<lparr>st_nWrLock := st_nWrLock p - 1\<rparr> else p)
                    in p\<lparr>st_nRdLock := st_nRdLock p - 1\<rparr>))
        in (pThis\<lparr>mf_eLock := eLock\<rparr>, p)))"

section \<open>The file system\<close>

text \<open>\<open>fs_apMemStore\<close> holds the addresses of the shared stores, \<open>fs_heap\<close> every live store.\<close>

record memfs =
  fs_apMemStore :: "nat list"
  fs_heap :: "nat \<Rightarrow> mem_store option"
  fs_mxMemdbSize :: nat

definition new_store :: "nat \<Rightarrow> mem_store" where
  "new_store mx = \<lparr>st_sz = 0, st_szAlloc = 0, st_szMax = mx, st_aData = [], st_pMutex = False, st_nMmap = 0,
     st_mFlags = SQLITE_DESERIALIZE_RESIZEABLE OR SQLITE_DESERIALIZE_FREEONCLOSE,
     st_nRdLock = 0, st_nWrLock = 0, st_nRef = 0, st_zFName = None\<rparr>"

definition find_store :: "memfs \<Rightarrow> bytes \<Rightarrow> nat option" where
  "find_store fs zName = find (\<lambda>a. map_option st_zFName (fs_heap fs a) = Some (Some zName)) (fs_apMemStore fs)"

text \<open>\<open>a\<close> is the address the allocator gives; \<open>m1\<close>, \<open>m2\<close>, \<open>m3\<close> say whether the store, the list and
  the mutex are allocated.\<close>

definition memdbOpen :: "nat \<Rightarrow> bool \<Rightarrow> bool \<Rightarrow> bool \<Rightarrow> bytes \<Rightarrow> memfs \<Rightarrow> rc \<times> mem_file option \<times> memfs" where
  "memdbOpen a m1 m2 m3 zName fs =
    (if length zName > 1 \<and> (zName ! 0 = 47 \<or> zName ! 0 = 92) then
       (case find_store fs zName of
          None \<Rightarrow>
            if \<not> m1 then (SQLITE_NOMEM, None, fs)
            else if \<not> m2 then (SQLITE_NOMEM, None, fs)
            else if \<not> m3 then (SQLITE_NOMEM, None, fs)
            else (SQLITE_OK, Some \<lparr>mf_pStore = a, mf_eLock = 0\<rparr>,
                  fs\<lparr>fs_apMemStore := fs_apMemStore fs @ [a],
                     fs_heap := (fs_heap fs)(a \<mapsto> (new_store (fs_mxMemdbSize fs))
                       \<lparr>st_zFName := Some zName, st_pMutex := True, st_nRef := 1\<rparr>)\<rparr>)
        | Some b \<Rightarrow>
            (SQLITE_OK, Some \<lparr>mf_pStore = b, mf_eLock = 0\<rparr>,
             fs\<lparr>fs_heap := (fs_heap fs)(b := map_option (\<lambda>p. p\<lparr>st_nRef := st_nRef p + 1\<rparr>) (fs_heap fs b))\<rparr>))
     else if \<not> m1 then (SQLITE_NOMEM, None, fs)
     else (SQLITE_OK, Some \<lparr>mf_pStore = a, mf_eLock = 0\<rparr>,
           fs\<lparr>fs_heap := (fs_heap fs)(a \<mapsto> new_store (fs_mxMemdbSize fs))\<rparr>))"

text \<open>Removal from the list moves the last entry into the gap.\<close>

fun swap_remove :: "nat \<Rightarrow> nat list \<Rightarrow> nat list" where
  "swap_remove a [] = []"
| "swap_remove a (x # xs) =
    (if x = a then (if xs = [] then [] else last xs # butlast xs) else x # swap_remove a xs)"

definition memdbClose :: "mem_file \<Rightarrow> memfs \<Rightarrow> memfs" where
  "memdbClose pFile fs =
    (case fs_heap fs (mf_pStore pFile) of
       None \<Rightarrow> fs
     | Some p \<Rightarrow>
         (let a = mf_pStore pFile;
              fs = (if st_zFName p \<noteq> None \<and> st_nRef p = 1
                    then fs\<lparr>fs_apMemStore := swap_remove a (fs_apMemStore fs)\<rparr> else fs);
              p = p\<lparr>st_nRef := st_nRef p - 1\<rparr>
          in fs\<lparr>fs_heap := (fs_heap fs)(a := (if st_nRef p \<le> 0 then None else Some p))\<rparr>))"

section \<open>The bytes of a store\<close>

definition store_ok :: "mem_store \<Rightarrow> bool" where
  "store_ok p \<longleftrightarrow> st_sz p \<le> st_szAlloc p \<and> length (st_aData p) = st_szAlloc p"

definition store_content :: "mem_store \<Rightarrow> bytes" where
  "store_content p = take (st_sz p) (st_aData p)"

lemma length_store_content [simp]: "store_ok p \<Longrightarrow> length (store_content p) = st_sz p"
  by (simp add: store_ok_def store_content_def)

lemma memdbEnlarge_ok:
  assumes "store_ok p" and "st_szAlloc p < n" and "memdbEnlarge junk mem p n = (rc, q)"
  shows "store_ok q" and "store_content q = store_content p" and "st_sz q = st_sz p"
    and "rc = SQLITE_OK \<Longrightarrow> n \<le> st_szAlloc q \<and> st_szAlloc q \<le> st_szMax q" and "rc \<noteq> SQLITE_OK \<Longrightarrow> q = p"
proof -
  have take: "take k (map (\<lambda>i. if i < l then xs ! i else junk i) [0..<m]) = take k xs"
    if "k \<le> l" "length xs = l" "l \<le> m" for k l m and xs :: bytes
    using that by (intro nth_equalityI) auto
  have "store_ok q \<and> store_content q = store_content p \<and> st_sz q = st_sz p
      \<and> (rc = SQLITE_OK \<longrightarrow> n \<le> st_szAlloc q \<and> st_szAlloc q \<le> st_szMax q) \<and> (rc \<noteq> SQLITE_OK \<longrightarrow> q = p)"
    using assms take by (auto simp: memdbEnlarge_def store_ok_def store_content_def Let_def split: if_splits)
  then show "store_ok q" and "store_content q = store_content p" and "st_sz q = st_sz p"
    and "rc = SQLITE_OK \<Longrightarrow> n \<le> st_szAlloc q \<and> st_szAlloc q \<le> st_szMax q" and "rc \<noteq> SQLITE_OK \<Longrightarrow> q = p"
    by blast+
qed

text \<open>The bytes after a write that fits the allocation.\<close>

lemma store_write_fits:
  assumes "store_ok p" and "off + length z \<le> st_szAlloc p" and "st_sz p < off + length z"
  defines "a \<equiv> (if off > st_sz p then blit (st_sz p) (replicate (off - st_sz p) 0) (st_aData p) else st_aData p)"
  shows "length (blit off z a) = st_szAlloc p"
    and "take (off + length z) (blit off z a) = file_write off z (store_content p)"
proof -
  have a: "length a = st_szAlloc p" using assms by (auto simp: a_def store_ok_def length_blit)
  then show l: "length (blit off z a) = st_szAlloc p" using assms by (simp add: length_blit)
  show "take (off + length z) (blit off z a) = file_write off z (store_content p)"
  proof (rule nth_equalityI)
    show "length (take (off + length z) (blit off z a)) = length (file_write off z (store_content p))"
      using assms a l by simp
    fix k assume "k < length (take (off + length z) (blit off z a))"
    then have k: "k < off + length z" by simp
    have "a ! k = (if st_sz p \<le> k \<and> k < off then 0 else st_aData p ! k)" if "k < off"
      using assms k that by (auto simp: a_def nth_blit store_ok_def)
    then show "take (off + length z) (blit off z a) ! k = file_write off z (store_content p) ! k"
      using assms a k by (auto simp: nth_file_write nth_blit store_content_def store_ok_def)
  qed
qed

lemma take_blit_file_write:
  assumes "store_ok p" and "off + length z \<le> st_sz p"
  shows "take (st_sz p) (blit off z (st_aData p)) = file_write off z (store_content p)"
  using assms by (intro nth_equalityI)
    (auto simp: nth_file_write nth_blit store_content_def store_ok_def length_blit max_def)

lemma memdbWrite_content:
  assumes ok: "store_ok p" and w: "memdbWrite junk mem p off z = (rc, q)"
  shows "store_ok q \<and> store_content q = (if rc = SQLITE_OK then file_write off z (store_content p) else store_content p)"
proof (cases "st_mFlags p AND SQLITE_DESERIALIZE_READONLY \<noteq> 0 \<or> off + length z \<le> st_sz p")
  case True
  then show ?thesis using ok w take_blit_file_write [OF ok]
    by (auto simp: memdbWrite_def Let_def store_ok_def length_blit store_content_def split: if_splits)
next
  case False
  obtain rc1 p1 where e: "(if off + length z > st_szAlloc p then memdbEnlarge junk mem p (off + length z)
      else (SQLITE_OK, p)) = (rc1, p1)" by fastforce
  have p1: "store_ok p1" "store_content p1 = store_content p" "st_sz p1 = st_sz p"
    and fit: "rc1 = SQLITE_OK \<Longrightarrow> off + length z \<le> st_szAlloc p1"
    using e memdbEnlarge_ok [OF ok _, of "off + length z" junk mem rc1 p1] ok by (auto split: if_splits)
  show ?thesis
  proof (cases "rc1 = SQLITE_OK")
    case True
    from store_write_fits [OF p1(1) fit [OF True]] False p1 have
      "let a = (if off > st_sz p1 then blit (st_sz p1) (replicate (off - st_sz p1) 0) (st_aData p1) else st_aData p1)
       in length (blit off z a) = st_szAlloc p1 \<and> take (off + length z) (blit off z a) = file_write off z (store_content p)"
      by (simp add: Let_def)
    moreover have "rc = SQLITE_OK" and "q = p1\<lparr>st_sz := off + length z, st_aData := blit off z
        (if off > st_sz p1 then blit (st_sz p1) (replicate (off - st_sz p1) 0) (st_aData p1) else st_aData p1)\<rparr>"
      using w False e True by (auto simp: memdbWrite_def Let_def)
    ultimately show ?thesis using fit [OF True] unfolding Let_def store_ok_def store_content_def by simp
  next
    case f: False
    then have "rc = rc1" and "q = p1" using w False e by (auto simp: memdbWrite_def Let_def)
    then show ?thesis using p1 f by simp
  qed
qed

interpretation memdb: io_file memdbRead "memdbWrite junk mem" store_content store_ok for junk mem
proof
  fix p off n assume "store_ok p" "off + n \<le> length (store_content p)"
  then show "memdbRead p off n = (SQLITE_OK, mslice off n (store_content p))"
    by (auto simp: memdbRead_def store_content_def mslice_def drop_take min_def store_ok_def split: if_splits)
next
  fix p off d q assume "store_ok p" "memdbWrite junk mem p off d = (SQLITE_OK, q)"
  then show "store_ok q \<and> store_content q = file_write off d (store_content p)"
    using memdbWrite_content by fastforce
next
  fix p off d rc q assume "store_ok p" "memdbWrite junk mem p off d = (rc, q)" "rc \<noteq> SQLITE_OK"
  then show "store_ok q \<and> store_content q = store_content p"
    using memdbWrite_content by fastforce
qed (simp add: memdbRead_def Let_def)

section \<open>Several connections\<close>

text \<open>
  The system: a file system and the open files, in the order they were opened.  A lock call follows
  the protocol the code asserts (a level above shared only from at least shared, an unlock to shared
  or none), and a file is closed without a lock, as the pager does.
\<close>

inductive memfs_step :: "memfs \<times> mem_file list \<Rightarrow> memfs \<times> mem_file list \<Rightarrow> bool" where
  do_open: "fs_heap fs a = None \<Longrightarrow> memdbOpen a m1 m2 m3 zName fs = (SQLITE_OK, Some f, fs') \<Longrightarrow>
     memfs_step (fs, fl) (fs', fl @ [f])"
| open_error: "memdbOpen a m1 m2 m3 zName fs = (rc, None, fs') \<Longrightarrow> memfs_step (fs, fl) (fs', fl)"
| do_close: "i < length fl \<Longrightarrow> mf_eLock (fl ! i) = 0 \<Longrightarrow>
     memfs_step (fs, fl) (memdbClose (fl ! i) fs, take i fl @ drop (Suc i) fl)"
| do_lock: "i < length fl \<Longrightarrow> e \<in> {1, 2, 3, 4} \<Longrightarrow> (e > 1 \<longrightarrow> mf_eLock (fl ! i) \<ge> 1) \<Longrightarrow>
     fs_heap fs (mf_pStore (fl ! i)) = Some p \<Longrightarrow> memdbLock (fl ! i) e p = (rc, f, q) \<Longrightarrow>
     memfs_step (fs, fl) (fs\<lparr>fs_heap := (fs_heap fs)(mf_pStore (fl ! i) \<mapsto> q)\<rparr>, fl[i := f])"
| do_unlock: "i < length fl \<Longrightarrow> e \<le> 1 \<Longrightarrow>
     fs_heap fs (mf_pStore (fl ! i)) = Some p \<Longrightarrow> memdbUnlock (fl ! i) e p = (f, q) \<Longrightarrow>
     memfs_step (fs, fl) (fs\<lparr>fs_heap := (fs_heap fs)(mf_pStore (fl ! i) \<mapsto> q)\<rparr>, fl[i := f])"
| do_write: "i < length fl \<Longrightarrow> fs_heap fs (mf_pStore (fl ! i)) = Some p \<Longrightarrow> memdbWrite junk mem p off z = (rc, q) \<Longrightarrow>
     memfs_step (fs, fl) (fs\<lparr>fs_heap := (fs_heap fs)(mf_pStore (fl ! i) \<mapsto> q)\<rparr>, fl)"
| do_truncate: "i < length fl \<Longrightarrow> fs_heap fs (mf_pStore (fl ! i)) = Some p \<Longrightarrow> memdbTruncate p n = (rc, q) \<Longrightarrow>
     memfs_step (fs, fl) (fs\<lparr>fs_heap := (fs_heap fs)(mf_pStore (fl ! i) \<mapsto> q)\<rparr>, fl)"

definition memfs_start :: "nat \<Rightarrow> memfs \<times> mem_file list" where
  "memfs_start mx = (\<lparr>fs_apMemStore = [], fs_heap = (\<lambda>a. None), fs_mxMemdbSize = mx\<rparr>, [])"

text \<open>How many open files of a store hold at least a given level.\<close>

definition holders :: "nat \<Rightarrow> nat \<Rightarrow> mem_file list \<Rightarrow> int" where
  "holders a e fl = (\<Sum>f\<leftarrow>fl. if mf_pStore f = a \<and> mf_eLock f \<ge> e then 1 else 0)"

lemma holders_simps [simp]:
  "holders a e [] = 0"
  "holders a e (f # fl) = (if mf_pStore f = a \<and> mf_eLock f \<ge> e then 1 else 0) + holders a e fl"
  "holders a e (fl @ gl) = holders a e fl + holders a e gl"
  by (simp_all add: holders_def)

lemma holders_nonneg [simp]: "0 \<le> holders a e fl"
  by (induction fl) auto

lemma holders_split:
  "i < length fl \<Longrightarrow> holders a e fl = holders a e (take i fl) + holders a e [fl ! i] + holders a e (drop (Suc i) fl)"
  by (metis (no_types, lifting) Cons_nth_drop_Suc append_Cons append_Nil append_take_drop_id holders_simps(3) add.assoc)

lemma holders_remove:
  "i < length fl \<Longrightarrow> holders a e (take i fl @ drop (Suc i) fl) = holders a e fl - holders a e [fl ! i]"
  using holders_split [of i fl a e] by simp

lemma holders_update:
  "i < length fl \<Longrightarrow> holders a e (fl[i := f]) = holders a e fl - holders a e [fl ! i] + holders a e [f]"
  using holders_split [of i fl a e] by (simp add: upd_conv_take_nth_drop)

lemma holders_zero: "holders a e fl = 0 \<longleftrightarrow> (\<forall>f\<in>set fl. \<not> (mf_pStore f = a \<and> mf_eLock f \<ge> e))"
  using holders_nonneg [of a e] by (induction fl) (auto simp: add_nonneg_eq_0_iff)

lemma holders_two:
  assumes "i < j" and "j < length fl"
    and "mf_pStore (fl ! i) = a" "mf_eLock (fl ! i) \<ge> e" "mf_pStore (fl ! j) = a" "mf_eLock (fl ! j) \<ge> e"
  shows "2 \<le> holders a e fl"
proof -
  have "fl ! j = drop (Suc i) fl ! (j - Suc i)" using assms by simp
  then have "fl ! j \<in> set (drop (Suc i) fl)" using assms by (metis Suc_leI diff_less_mono length_drop nth_mem)
  then have "holders a e (drop (Suc i) fl) \<noteq> 0" using assms(5,6) unfolding holders_zero by blast
  then have "1 \<le> holders a e (drop (Suc i) fl)" using holders_nonneg [of a e "drop (Suc i) fl"] by linarith
  then show ?thesis
    using holders_split [of i fl a e] holders_nonneg [of a e "take i fl"] assms
    by (simp del: holders_nonneg)
qed

text \<open>One store and the files open on it: the counters count, there is one writer at most, and an exclusive
  lock stands alone.\<close>

definition locks_ok :: "nat \<Rightarrow> mem_store \<Rightarrow> mem_file list \<Rightarrow> bool" where
  "locks_ok a p fl \<longleftrightarrow> st_nRdLock p = holders a 1 fl \<and> st_nWrLock p = holders a 2 fl \<and> st_nWrLock p \<le> 1
     \<and> (holders a 4 fl \<noteq> 0 \<longrightarrow> st_nRdLock p = 1) \<and> store_ok p
     \<and> (case st_zFName p of None \<Rightarrow> st_nRef p = 0 \<and> holders a 0 fl = 1 | Some _ \<Rightarrow> st_nRef p = holders a 0 fl \<and> 1 \<le> st_nRef p)"

definition memfs_inv :: "memfs \<times> mem_file list \<Rightarrow> bool" where
  "memfs_inv s \<longleftrightarrow> (case s of (fs, fl) \<Rightarrow>
     (\<forall>f\<in>set fl. fs_heap fs (mf_pStore f) \<noteq> None)
     \<and> (\<forall>a p. fs_heap fs a = Some p \<longrightarrow> locks_ok a p fl)
     \<and> distinct (fs_apMemStore fs)
     \<and> (\<forall>a. a \<in> set (fs_apMemStore fs) \<longleftrightarrow> (\<exists>p. fs_heap fs a = Some p \<and> st_zFName p \<noteq> None))
     \<and> (\<forall>a b p q z. fs_heap fs a = Some p \<longrightarrow> fs_heap fs b = Some q \<longrightarrow> st_zFName p = Some z \<longrightarrow>
          st_zFName q = Some z \<longrightarrow> a = b))"

lemma holders_mono: "e \<le> e' \<Longrightarrow> holders a e' fl \<le> holders a e fl"
  by (induction fl) auto

text \<open>The calls on one open file change its store and its lock only.\<close>

lemma locks_ok_other:
  assumes "b \<noteq> a" and "i < length fl" and "mf_pStore (fl ! i) = a" and "mf_pStore f = a"
  shows "locks_ok b r (fl[i := f]) = locks_ok b r fl"
proof -
  have "holders b e (fl[i := f]) = holders b e fl" for e using assms by (simp add: holders_update)
  then show ?thesis by (simp only: locks_ok_def)
qed

lemma memfs_inv_update:
  assumes inv: "memfs_inv (fs, fl)" and i: "i < length fl" and a: "mf_pStore (fl ! i) = a" "mf_pStore f = a"
    and p: "fs_heap fs a = Some p" and q: "st_zFName q = st_zFName p" "locks_ok a q (fl[i := f])"
  shows "memfs_inv (fs\<lparr>fs_heap := (fs_heap fs)(a \<mapsto> q)\<rparr>, fl[i := f])"
proof -
  have "set (fl[i := f]) \<subseteq> insert f (set fl)" by (rule set_update_subset_insert)
  moreover have "locks_ok b r (fl[i := f])" if "fs_heap fs b = Some r" "b \<noteq> a" for b r
    using inv that locks_ok_other [OF that(2) i a] by (auto simp: memfs_inv_def)
  ultimately show ?thesis
    using inv a p q unfolding memfs_inv_def prod.case by (auto simp del: One_nat_def)
qed

text \<open>Taking a lock and giving it back, on the counters: \<open>n k\<close> counts the other files of the store.\<close>

lemma lock_arith:
  assumes ok: "locks_ok a p fl" and i: "i < length fl" and a: "mf_pStore (fl ! i) = a"
  shows "\<exists>n :: nat \<Rightarrow> int. (\<forall>k. holders a k fl = n k + (if mf_eLock (fl ! i) \<ge> k then 1 else 0))
    \<and> (\<forall>k f. mf_pStore f = a \<longrightarrow> holders a k (fl[i := f]) = n k + (if mf_eLock f \<ge> k then 1 else 0))
    \<and> 0 \<le> n 4 \<and> n 4 \<le> n 2 \<and> n 2 \<le> n 1"
proof (intro exI conjI allI impI)
  let ?n = "\<lambda>k. holders a k (take i fl) + holders a k (drop (Suc i) fl)"
  show "holders a k fl = ?n k + (if mf_eLock (fl ! i) \<ge> k then 1 else 0)" for k
    using holders_split [OF i, of a k] a by simp
  show "mf_pStore f = a \<Longrightarrow> holders a k (fl[i := f]) = ?n k + (if mf_eLock f \<ge> k then 1 else 0)" for k f
    using i by (simp add: upd_conv_take_nth_drop)
  show "0 \<le> ?n 4" "?n 4 \<le> ?n 2" "?n 2 \<le> ?n 1"
    by (simp_all add: add_nonneg_nonneg add_mono holders_mono)
qed

lemma memdbLock_ok:
  assumes ok: "locks_ok a p fl" and i: "i < length fl" and a: "mf_pStore (fl ! i) = a"
    and e: "e \<in> {1, 2, 3, 4}" "e > 1 \<longrightarrow> mf_eLock (fl ! i) \<ge> 1" and l: "memdbLock (fl ! i) e p = (rc, f, q)"
  shows "locks_ok a q (fl[i := f]) \<and> mf_pStore f = a \<and> st_zFName q = st_zFName p"
proof (cases "e \<le> mf_eLock (fl ! i) \<or> rc \<noteq> SQLITE_OK")
  case True
  then have "f = fl ! i" and "q = p"
    using l by (auto simp: memdbLock_def Let_def split: if_splits)
  then show ?thesis using ok a by simp
next
  case False
  obtain n where n: "\<And>k. holders a k fl = n k + (if mf_eLock (fl ! i) \<ge> k then 1 else 0)"
    "\<And>k f. mf_pStore f = a \<Longrightarrow> holders a k (fl[i := f]) = n k + (if mf_eLock f \<ge> k then 1 else 0)"
    "0 \<le> n 4" "n 4 \<le> n 2" "n 2 \<le> n 1" using lock_arith [OF ok i a] by blast
  have f: "f = (fl ! i)\<lparr>mf_eLock := e\<rparr>" and pf: "mf_pStore f = a"
    using l False a by (auto simp: memdbLock_def Let_def split: if_splits)
  have h: "holders a k (fl[i := f]) = n k + (if e \<ge> k then 1 else 0)" for k
    using n(2) [OF pf] by (simp add: f)
  note okn = ok [unfolded locks_ok_def n(1)]
  show ?thesis unfolding locks_ok_def h
    using e(1) False l okn n(3-5) pf e(2)
    by (elim insertE emptyE) (auto simp: memdbLock_def Let_def store_ok_def split: if_splits option.splits)
qed

lemma memdbUnlock_ok:
  assumes ok: "locks_ok a p fl" and i: "i < length fl" and a: "mf_pStore (fl ! i) = a"
    and e: "e \<le> 1" and l: "memdbUnlock (fl ! i) e p = (f, q)"
  shows "locks_ok a q (fl[i := f]) \<and> mf_pStore f = a \<and> st_zFName q = st_zFName p"
proof (cases "e \<ge> mf_eLock (fl ! i)")
  case True
  then have "f = fl ! i" and "q = p" using l by (auto simp: memdbUnlock_def)
  then show ?thesis using ok a by simp
next
  case False
  obtain n where n: "\<And>k. holders a k fl = n k + (if mf_eLock (fl ! i) \<ge> k then 1 else 0)"
    "\<And>k f. mf_pStore f = a \<Longrightarrow> holders a k (fl[i := f]) = n k + (if mf_eLock f \<ge> k then 1 else 0)"
    "0 \<le> n 4" "n 4 \<le> n 2" "n 2 \<le> n 1" using lock_arith [OF ok i a] by blast
  have f: "f = (fl ! i)\<lparr>mf_eLock := e\<rparr>" and pf: "mf_pStore f = a"
    using l False a by (auto simp: memdbUnlock_def Let_def)
  have h: "holders a k (fl[i := f]) = n k + (if e \<ge> k then 1 else 0)" for k
    using n(2) [OF pf] by (simp add: f)
  note okn = ok [unfolded locks_ok_def n(1)]
  have "e = 0 \<or> e = 1" using e by auto
  then show ?thesis unfolding locks_ok_def h
    using False l okn n(3-5) pf
    by (elim disjE) (auto simp: memdbUnlock_def Let_def store_ok_def split: if_splits option.splits)
qed

text \<open>Opening and closing.\<close>

lemma swap_remove_set: "distinct xs \<Longrightarrow> set (swap_remove a xs) = set xs - {a} \<and> distinct (swap_remove a xs)"
proof (induction xs)
  case (Cons x xs)
  have "xs \<noteq> [] \<Longrightarrow> set (last xs # butlast xs) = set xs \<and> distinct (last xs # butlast xs)"
    using Cons.prems by (cases xs rule: rev_cases) auto
  then show ?case using Cons by auto
qed simp

lemma find_store_Some:
  assumes "memfs_inv (fs, fl)" and "find_store fs zName = Some b"
  shows "b \<in> set (fs_apMemStore fs) \<and> (\<exists>p. fs_heap fs b = Some p \<and> st_zFName p = Some zName)"
  using assms(2) by (auto simp: find_store_def find_Some_iff)

lemma find_store_None:
  assumes "memfs_inv (fs, fl)" and "find_store fs zName = None" and "fs_heap fs b = Some p"
  shows "st_zFName p \<noteq> Some zName"
proof
  assume n: "st_zFName p = Some zName"
  then have "b \<in> set (fs_apMemStore fs)" using assms(1,3) by (auto simp: memfs_inv_def)
  then show False using assms(2,3) n by (auto simp: find_store_def find_None_iff)
qed

lemma locks_ok_append_other:
  "mf_pStore f \<noteq> b \<Longrightarrow> locks_ok b r (fl @ [f]) = locks_ok b r fl"
  by (simp add: locks_ok_def split: option.split)

lemma locks_ok_new:
  assumes "memfs_inv (fs, fl)" and "fs_heap fs a = None"
  shows "holders a k fl = 0"
  using assms by (auto simp: holders_zero memfs_inv_def)

lemma memfs_inv_open:
  assumes inv: "memfs_inv (fs, fl)" and a: "fs_heap fs a = None"
    and o: "memdbOpen a m1 m2 m3 zName fs = (SQLITE_OK, Some f, fs')"
  shows "memfs_inv (fs', fl @ [f])"
proof (cases "length zName > 1 \<and> (zName ! 0 = 47 \<or> zName ! 0 = 92) \<and> find_store fs zName \<noteq> None")
  case True
  then obtain b where b: "find_store fs zName = Some b" by auto
  from find_store_Some [OF inv b] obtain p where p: "fs_heap fs b = Some p" "st_zFName p = Some zName" by auto
  have f: "f = \<lparr>mf_pStore = b, mf_eLock = 0\<rparr>"
    and fs': "fs' = fs\<lparr>fs_heap := (fs_heap fs)(b \<mapsto> p\<lparr>st_nRef := st_nRef p + 1\<rparr>)\<rparr>"
    using o True b p by (auto simp: memdbOpen_def)
  have "locks_ok b p fl" using inv p by (auto simp: memfs_inv_def)
  then have "locks_ok b (p\<lparr>st_nRef := st_nRef p + 1\<rparr>) (fl @ [f])"
    using p by (auto simp: locks_ok_def f store_ok_def)
  then show ?thesis using inv p locks_ok_append_other [of f]
    unfolding memfs_inv_def prod.case fs' by (auto simp: f)
next
  case False
  have h: "holders a k fl = 0" for k by (rule locks_ok_new [OF inv a])
  define q where "q = (if length zName > 1 \<and> (zName ! 0 = 47 \<or> zName ! 0 = 92)
      then (new_store (fs_mxMemdbSize fs))\<lparr>st_zFName := Some zName, st_pMutex := True, st_nRef := 1\<rparr>
      else new_store (fs_mxMemdbSize fs))"
  have f: "f = \<lparr>mf_pStore = a, mf_eLock = 0\<rparr>" and h': "fs_heap fs' = (fs_heap fs)(a \<mapsto> q)"
    and ap: "fs_apMemStore fs' = (if st_zFName q = None then fs_apMemStore fs else fs_apMemStore fs @ [a])"
    using o False by (auto simp: memdbOpen_def q_def new_store_def split: if_splits option.splits)
  have q: "locks_ok a q (fl @ [f])" by (auto simp: locks_ok_def f h q_def new_store_def store_ok_def)
  have n: "st_zFName q = Some zName \<Longrightarrow> find_store fs zName = None" "st_zFName q \<in> {None, Some zName}"
    using False by (auto simp: q_def new_store_def split: if_splits)
  have "a \<notin> set (fs_apMemStore fs)" using inv a by (auto simp: memfs_inv_def)
  then show ?thesis
    using inv a q n find_store_None [OF inv n(1)] locks_ok_append_other [of f]
    unfolding memfs_inv_def prod.case h' ap by (auto simp: f)
qed

lemma memfs_inv_close:
  assumes inv: "memfs_inv (fs, fl)" and i: "i < length fl" and e: "mf_eLock (fl ! i) = 0"
  shows "memfs_inv (memdbClose (fl ! i) fs, take i fl @ drop (Suc i) fl)"
proof -
  define a gl where "a = mf_pStore (fl ! i)" and "gl = take i fl @ drop (Suc i) fl"
  have "fl ! i \<in> set fl" using i by simp
  then obtain p where p: "fs_heap fs a = Some p" using inv by (fastforce simp: memfs_inv_def a_def)
  have h: "holders b k gl = holders b k fl - (if b = a \<and> k = 0 then 1 else 0)" for b k
    using holders_remove [OF i, of b k] e by (auto simp: gl_def a_def)
  have lp: "locks_ok a p fl" using inv p by (auto simp: memfs_inv_def)
  have sub: "set gl \<subseteq> set fl" unfolding gl_def by (auto dest: in_set_takeD in_set_dropD)
  have other: "locks_ok b r gl" if "locks_ok b r fl" "b \<noteq> a" for b r
    using that by (auto simp: locks_ok_def h split: option.splits)
  show ?thesis
  proof (cases "st_nRef p - 1 \<le> 0")
    case True
    have "holders a 0 gl = 0" using lp True by (auto simp: locks_ok_def h split: option.splits)
    then have no: "f \<in> set gl \<Longrightarrow> mf_pStore f \<noteq> a" for f by (auto simp: holders_zero)
    have c: "fs_heap (memdbClose (fl ! i) fs) = (fs_heap fs)(a := None)"
      "fs_apMemStore (memdbClose (fl ! i) fs)
        = (if st_zFName p = None then fs_apMemStore fs else swap_remove a (fs_apMemStore fs))"
      using p True lp by (auto simp: memdbClose_def a_def [symmetric] Let_def locks_ok_def split: option.splits)
    show ?thesis
      using inv sub no other p swap_remove_set [of "fs_apMemStore fs" a]
      unfolding memfs_inv_def prod.case gl_def [symmetric] c by auto
  next
    case False
    have c: "fs_heap (memdbClose (fl ! i) fs) = (fs_heap fs)(a \<mapsto> p\<lparr>st_nRef := st_nRef p - 1\<rparr>)"
      "fs_apMemStore (memdbClose (fl ! i) fs) = fs_apMemStore fs"
      using p False by (auto simp: memdbClose_def a_def [symmetric] Let_def)
    have "locks_ok a (p\<lparr>st_nRef := st_nRef p - 1\<rparr>) gl"
      using lp False by (auto simp: locks_ok_def h store_ok_def split: option.splits)
    then show ?thesis
      using inv sub other p unfolding memfs_inv_def prod.case gl_def [symmetric] c by auto
  qed
qed

lemma memfs_inv_content:
  assumes inv: "memfs_inv (fs, fl)" and i: "i < length fl" and p: "fs_heap fs (mf_pStore (fl ! i)) = Some p"
    and q: "store_ok q" "st_nRdLock q = st_nRdLock p" "st_nWrLock q = st_nWrLock p" "st_nRef q = st_nRef p"
      "st_zFName q = st_zFName p"
  shows "memfs_inv (fs\<lparr>fs_heap := (fs_heap fs)(mf_pStore (fl ! i) \<mapsto> q)\<rparr>, fl)"
proof -
  have "locks_ok (mf_pStore (fl ! i)) p fl" using inv p by (auto simp: memfs_inv_def)
  then have "locks_ok (mf_pStore (fl ! i)) q (fl[i := fl ! i])" using q by (auto simp: locks_ok_def split: option.splits)
  from memfs_inv_update [OF inv i refl refl p q(5) this] show ?thesis by simp
qed

lemma memdbWrite_frame:
  assumes "memdbWrite junk mem p off z = (rc, q)"
  shows "st_nRdLock q = st_nRdLock p" "st_nWrLock q = st_nWrLock p" "st_nRef q = st_nRef p" "st_zFName q = st_zFName p"
  using assms by (auto simp: memdbWrite_def memdbEnlarge_def Let_def split: if_splits)

lemma memfs_inv_step: "memfs_step s t \<Longrightarrow> memfs_inv s \<Longrightarrow> memfs_inv t"
proof (induction rule: memfs_step.induct)
  case (do_open fs a m1 m2 m3 zName f fs' fl)
  then show ?case by (blast intro: memfs_inv_open)
next
  case (open_error a m1 m2 m3 zName fs rc fs' fl)
  then show ?case by (auto simp: memdbOpen_def split: if_splits option.splits)
next
  case (do_close i fl fs)
  then show ?case by (blast intro: memfs_inv_close)
next
  case (do_lock i fl e fs p rc f q)
  then have "locks_ok (mf_pStore (fl ! i)) p fl" by (auto simp: memfs_inv_def)
  from memdbLock_ok [OF this do_lock(1) refl do_lock(2,3,5)] do_lock show ?case
    by (auto intro: memfs_inv_update)
next
  case (do_unlock i fl e fs p f q)
  then have "locks_ok (mf_pStore (fl ! i)) p fl" by (auto simp: memfs_inv_def)
  from memdbUnlock_ok [OF this do_unlock(1) refl do_unlock(2,4)] do_unlock show ?case
    by (auto intro: memfs_inv_update)
next
  case (do_write i fl fs p junk mem off z rc q)
  then have "store_ok p" by (auto simp: memfs_inv_def locks_ok_def)
  from memdbWrite_content [OF this do_write(3)] do_write memdbWrite_frame [OF do_write(3)] show ?case
    by (blast intro: memfs_inv_content)
next
  case (do_truncate i fl fs p n rc q)
  then have "store_ok p" by (auto simp: memfs_inv_def locks_ok_def)
  then have "store_ok q" "st_nRdLock q = st_nRdLock p" "st_nWrLock q = st_nWrLock p" "st_nRef q = st_nRef p"
      "st_zFName q = st_zFName p"
    using do_truncate(3) by (auto simp: memdbTruncate_def store_ok_def split: if_splits)
  with do_truncate show ?case by (blast intro: memfs_inv_content)
qed

lemma memfs_inv_reach: "memfs_step\<^sup>*\<^sup>* (memfs_start mx) s \<Longrightarrow> memfs_inv s"
proof (induction rule: rtranclp_induct)
  case base
  show ?case by (simp add: memfs_inv_def memfs_start_def)
qed (blast intro: memfs_inv_step)

section \<open>Properties\<close>

lemma memdbRead_content:
  assumes "store_ok p"
  shows "memdbRead p i n = ((if i + n \<le> st_sz p then SQLITE_OK else SQLITE_IOERR_SHORT_READ),
     take n (drop i (store_content p) @ replicate n 0))"
proof (cases "i + n \<le> st_sz p")
  case True
  then show ?thesis using assms memdb.read_inside [of p i n] by (simp add: mslice_def)
next
  case False
  have m: "mslice i (st_sz p - i) (st_aData p) = drop i (store_content p)"
    by (simp add: mslice_def store_content_def drop_take)
  have l: "length (drop i (store_content p)) = st_sz p - i" using assms by simp
  show ?thesis
  proof (cases "i < st_sz p")
    case True
    with False m l show ?thesis by (simp add: memdbRead_def Let_def blit_def take_Cons')
  next
    case no: False
    then have "drop i (store_content p) = []" using l by simp
    then show ?thesis using False no by (simp add: memdbRead_def Let_def)
  qed
qed

text \<open>C12. The in-memory file refines the abstract one: after any write, accepted or refused, every read
  returns the bytes of the abstract file after that write (unchanged when refused), with the result
  \<open>SQLITE_IOERR_SHORT_READ\<close> and zeros for what lies past the end.\<close>

theorem memdb_refines_file:
  "store_ok p \<Longrightarrow> memdbWrite junk mem p off z = (rc, q) \<Longrightarrow>
   f = (if rc = SQLITE_OK then file_write off z (store_content p) else store_content p) \<Longrightarrow>
     store_ok q \<and> memdbRead q i n =
       ((if i + n \<le> length f then SQLITE_OK else SQLITE_IOERR_SHORT_READ), take n (drop i f @ replicate n 0))"
  using memdbWrite_content [of p junk mem off z rc q] memdbRead_content [of q i n] length_store_content [of q]
  by (simp split: if_splits)

lemma memdb_refines_file_witness:
  "\<exists>q. memdbWrite (\<lambda>k. 7) True (new_store 100) 3 [1, 2] = (SQLITE_OK, q)
     \<and> memdbRead q 2 4 = (SQLITE_IOERR_SHORT_READ, [0, 1, 2, 0])"
proof -
  obtain rc q where w: "memdbWrite (\<lambda>k. 7) True (new_store 100) 3 [1, 2] = (rc, q)" by (rule prod.exhaust)
  have "fst (memdbWrite (\<lambda>k. 7) True (new_store 100) 3 [1, 2]) = SQLITE_OK" by code_simp
  then have rc: "rc = SQLITE_OK" by (simp only: w fst_conv)
  have ok: "store_ok (new_store 100)" by (simp add: store_ok_def new_store_def)
  have c: "store_content (new_store 100) = []" by (simp add: store_content_def new_store_def)
  have f: "file_write 3 [1, 2] [] = [0, 0, 0, 1, 2]" by code_simp
  from memdb_refines_file [OF ok w refl, of 2 4] have "memdbRead q 2 4 = (SQLITE_IOERR_SHORT_READ, [0, 1, 2, 0])"
    unfolding rc c f by (simp add: eval_nat_numeral)
  with w rc show ?thesis by blast
qed

text \<open>C16. Whatever the connections open, close, lock, unlock, write and truncate, in any order: when one open
  file holds the exclusive lock on a store no other open file holds any lock on it, and at most one
  open file of a store holds a lock above shared.\<close>

theorem memdb_lock_exclusion:
  "memfs_step\<^sup>*\<^sup>* (memfs_start mx) (fs, fl) \<Longrightarrow> i < length fl \<Longrightarrow> j < length fl \<Longrightarrow> i \<noteq> j \<Longrightarrow>
   mf_pStore (fl ! i) = mf_pStore (fl ! j) \<Longrightarrow>
     (mf_eLock (fl ! i) = 4 \<longrightarrow> mf_eLock (fl ! j) = 0) \<and> (mf_eLock (fl ! i) > 1 \<longrightarrow> mf_eLock (fl ! j) \<le> 1)"
proof -
  assume r: "memfs_step\<^sup>*\<^sup>* (memfs_start mx) (fs, fl)" and i: "i < length fl" and j: "j < length fl" "i \<noteq> j"
    and s: "mf_pStore (fl ! i) = mf_pStore (fl ! j)"
  define a where "a = mf_pStore (fl ! i)"
  have inv: "memfs_inv (fs, fl)" by (rule memfs_inv_reach [OF r])
  have "fl ! i \<in> set fl" using i by simp
  then obtain p where "fs_heap fs a = Some p" using inv by (fastforce simp: memfs_inv_def a_def)
  then have ok: "locks_ok a p fl" using inv by (auto simp: memfs_inv_def)
  have two: "2 \<le> holders a k fl" if "mf_eLock (fl ! i) \<ge> k" "mf_eLock (fl ! j) \<ge> k" for k
  proof (cases "i < j")
    case True
    show ?thesis by (rule holders_two [OF True j(1) _ that(1) _ that(2)]) (simp_all add: a_def s)
  next
    case False
    then have "j < i" using j(2) by simp
    then show ?thesis by (rule holders_two [OF _ i _ that(2) _ that(1)]) (simp_all add: a_def s)
  qed
  have "holders a 4 fl \<noteq> 0" if "mf_eLock (fl ! i) = 4"
    unfolding holders_zero using \<open>fl ! i \<in> set fl\<close> that a_def by force
  then have e: "mf_eLock (fl ! i) = 4 \<Longrightarrow> holders a 1 fl = 1" and w: "holders a 2 fl \<le> 1"
    using ok by (simp_all add: locks_ok_def)
  show ?thesis
  proof (intro conjI impI)
    assume "mf_eLock (fl ! i) = 4"
    then show "mf_eLock (fl ! j) = 0" using e two [of 1] by (cases "mf_eLock (fl ! j)") simp_all
  next
    assume "mf_eLock (fl ! i) > 1"
    then show "mf_eLock (fl ! j) \<le> 1" using w two [of 2] by (cases "2 \<le> mf_eLock (fl ! j)") simp_all
  qed
qed

lemma sample_two_files:
  "\<exists>fs p. memfs_step\<^sup>*\<^sup>* (memfs_start 100) (fs, [\<lparr>mf_pStore = 0, mf_eLock = 0\<rparr>, \<lparr>mf_pStore = 0, mf_eLock = 0\<rparr>])
     \<and> fs_heap fs 0 = Some p"
proof -
  let ?n = "[47, 97] :: bytes"
  obtain fs1 where o1: "memdbOpen 0 True True True ?n (fst (memfs_start 100)) = (SQLITE_OK, Some \<lparr>mf_pStore = 0, mf_eLock = 0\<rparr>, fs1)"
    and fs1: "fs_apMemStore fs1 = [0]" "fs_heap fs1 = [0 \<mapsto> (new_store 100)\<lparr>st_zFName := Some ?n, st_pMutex := True, st_nRef := 1\<rparr>]"
    by (auto simp: memdbOpen_def memfs_start_def find_store_def)
  obtain fs2 where o2: "memdbOpen 1 True True True ?n fs1 = (SQLITE_OK, Some \<lparr>mf_pStore = 0, mf_eLock = 0\<rparr>, fs2)"
    and fs2: "fs_heap fs2 0 \<noteq> None"
    using fs1 by (auto simp: memdbOpen_def find_store_def)
  have "memfs_step (memfs_start 100) (fs1, [\<lparr>mf_pStore = 0, mf_eLock = 0\<rparr>])"
    using do_open [of "fst (memfs_start 100)" 0 True True True ?n _ fs1 "[]"] o1 by (simp add: memfs_start_def)
  moreover have "memfs_step (fs1, [\<lparr>mf_pStore = 0, mf_eLock = 0\<rparr>]) (fs2, [\<lparr>mf_pStore = 0, mf_eLock = 0\<rparr>, \<lparr>mf_pStore = 0, mf_eLock = 0\<rparr>])"
    using do_open [OF _ o2, of "[\<lparr>mf_pStore = 0, mf_eLock = 0\<rparr>]"] fs1 by simp
  ultimately show ?thesis using fs2 by (meson rtranclp.rtrancl_refl rtranclp.rtrancl_into_rtrancl not_None_eq)
qed

lemma memdb_lock_exclusion_witness:
  "\<exists>fs fl. memfs_step\<^sup>*\<^sup>* (memfs_start 100) (fs, fl) \<and> length fl = 2 \<and> mf_pStore (fl ! 0) = mf_pStore (fl ! 1)
     \<and> (mf_eLock (fl ! 0) = 4 \<longrightarrow> mf_eLock (fl ! 1) = 0) \<and> (mf_eLock (fl ! 0) > 1 \<longrightarrow> mf_eLock (fl ! 1) \<le> 1)"
proof -
  obtain fs where r: "memfs_step\<^sup>*\<^sup>* (memfs_start 100) (fs, [\<lparr>mf_pStore = 0, mf_eLock = 0\<rparr>, \<lparr>mf_pStore = 0, mf_eLock = 0\<rparr>])"
    using sample_two_files by blast
  show ?thesis by (rule exI, rule exI, rule conjI [OF r]) (use memdb_lock_exclusion [OF r, of 0 1] in simp)
qed

text \<open>No use after free and no leak of a name: in every reachable state each open file points to a live
  store, a shared store is in the list once, carries a name no other store has, and counts exactly
  the files open on it.\<close>

theorem memdb_references:
  "memfs_step\<^sup>*\<^sup>* (memfs_start mx) (fs, fl) \<Longrightarrow>
     (\<forall>f\<in>set fl. fs_heap fs (mf_pStore f) \<noteq> None) \<and> distinct (fs_apMemStore fs)
     \<and> (\<forall>a p z. fs_heap fs a = Some p \<longrightarrow> st_zFName p = Some z \<longrightarrow>
          a \<in> set (fs_apMemStore fs) \<and> st_nRef p = holders a 0 fl \<and> 1 \<le> st_nRef p
          \<and> (\<forall>b q. fs_heap fs b = Some q \<longrightarrow> st_zFName q = Some z \<longrightarrow> a = b))"
proof -
  assume "memfs_step\<^sup>*\<^sup>* (memfs_start mx) (fs, fl)"
  then have inv: "memfs_inv (fs, fl)" by (rule memfs_inv_reach)
  have "st_nRef p = holders a 0 fl \<and> 1 \<le> st_nRef p" if "fs_heap fs a = Some p" "st_zFName p = Some z" for a p z
  proof -
    have "locks_ok a p fl" using inv that(1) by (auto simp: memfs_inv_def)
    then show ?thesis using that(2) by (simp add: locks_ok_def)
  qed
  then show ?thesis using inv unfolding memfs_inv_def by fastforce
qed

lemma memdb_references_witness:
  "\<exists>fs fl. memfs_step\<^sup>*\<^sup>* (memfs_start 100) (fs, fl) \<and> length fl = 2 \<and> (\<forall>f\<in>set fl. fs_heap fs (mf_pStore f) \<noteq> None)"
proof -
  obtain fs where r: "memfs_step\<^sup>*\<^sup>* (memfs_start 100) (fs, [\<lparr>mf_pStore = 0, mf_eLock = 0\<rparr>, \<lparr>mf_pStore = 0, mf_eLock = 0\<rparr>])"
    using sample_two_files by blast
  show ?thesis by (rule exI, rule exI, rule conjI [OF r]) (use memdb_references [OF r] in simp)
qed

text \<open>Locks do not wedge: in every reachable state a file whose store is writable and on which no other
  open file holds a lock can go from no lock through shared and reserved to exclusive, each call
  returning \<open>SQLITE_OK\<close>.\<close>

theorem memdb_lock_available:
  "memfs_step\<^sup>*\<^sup>* (memfs_start mx) (fs, fl) \<Longrightarrow> i < length fl \<Longrightarrow> \<forall>j<length fl. mf_pStore (fl ! j) = mf_pStore (fl ! i) \<longrightarrow> mf_eLock (fl ! j) = 0 \<Longrightarrow>
   fs_heap fs (mf_pStore (fl ! i)) = Some p \<Longrightarrow> st_mFlags p AND SQLITE_DESERIALIZE_READONLY = 0 \<Longrightarrow>
     (let (rc1, f1, p1) = memdbLock (fl ! i) 1 p; (rc2, f2, p2) = memdbLock f1 2 p1; (rc3, f3, p3) = memdbLock f2 4 p2
      in rc1 = SQLITE_OK \<and> rc2 = SQLITE_OK \<and> rc3 = SQLITE_OK \<and> mf_eLock f3 = 4)"
proof -
  assume r: "memfs_step\<^sup>*\<^sup>* (memfs_start mx) (fs, fl)" and i: "i < length fl"
    and free: "\<forall>j<length fl. mf_pStore (fl ! j) = mf_pStore (fl ! i) \<longrightarrow> mf_eLock (fl ! j) = 0"
    and p: "fs_heap fs (mf_pStore (fl ! i)) = Some p" "st_mFlags p AND SQLITE_DESERIALIZE_READONLY = 0"
  define a where "a = mf_pStore (fl ! i)"
  have "locks_ok a p fl" using memfs_inv_reach [OF r] p(1) by (auto simp: memfs_inv_def a_def)
  moreover have "holders a k fl = 0" if "0 < k" for k
    using free that by (auto simp: holders_zero a_def in_set_conv_nth)
  ultimately have "st_nRdLock p = 0" "st_nWrLock p = 0" by (simp_all add: locks_ok_def)
  then show ?thesis using p free i by (simp add: memdbLock_def Let_def)
qed

lemma memdb_lock_available_witness:
  "\<exists>(fs :: memfs) (p :: mem_store). fs_heap fs 0 = Some p \<and>
     (let (rc1, f1, p1) = memdbLock \<lparr>mf_pStore = 0, mf_eLock = 0\<rparr> 1 p; (rc2, f2, p2) = memdbLock f1 2 p1;
          (rc3, f3, p3) = memdbLock f2 4 p2
      in rc1 = SQLITE_OK \<and> rc2 = SQLITE_OK \<and> rc3 = SQLITE_OK \<and> mf_eLock f3 = 4)"
proof -
  let ?f = "\<lparr>mf_pStore = 0, mf_eLock = 0\<rparr>"
  obtain fs where o1: "memdbOpen 0 True True True [97] (fst (memfs_start 100)) = (SQLITE_OK, Some ?f, fs)"
    and fs: "fs_heap fs 0 = Some (new_store 100)"
    by (auto simp: memdbOpen_def memfs_start_def)
  have "memfs_step (memfs_start 100) (fs, [?f])"
    using do_open [of "fst (memfs_start 100)" 0 True True True "[97]" _ fs "[]"] o1 by (simp add: memfs_start_def)
  then have r: "memfs_step\<^sup>*\<^sup>* (memfs_start 100) (fs, [?f])" by blast
  have m: "st_mFlags (new_store 100) AND SQLITE_DESERIALIZE_READONLY = 0"
    by (simp add: new_store_def SQLITE_DESERIALIZE_READONLY_def SQLITE_DESERIALIZE_RESIZEABLE_def SQLITE_DESERIALIZE_FREEONCLOSE_def)
  show ?thesis
    by (rule exI, rule exI, rule conjI [OF fs]) (use memdb_lock_available [OF r, of 0 "new_store 100"] fs m in simp)
qed

end
