(* ===== verification/Randomness.thy ===== *)
theory Randomness
  imports ChaCha20
begin

text \<open>
  SQLite's generator of random bytes (\<open>random.c\<close>): a ChaCha20 state seeded once from the operating system
  and a buffer of output bytes, of which the first \<open>n\<close> are left.  The build is little-endian.
  The theory shows that the bytes it hands out are those of one ChaCha20 keystream, each at most once.
\<close>

section \<open>The generator\<close>

definition ROTL :: "u32 \<Rightarrow> nat \<Rightarrow> u32" where
  "ROTL a b = push_bit b a OR drop_bit (32 - b) a"

text \<open>A line of the macro: \<open>a += b, d ^= a, d = ROTL(d, r)\<close>.\<close>

definition QR_line :: "nat \<Rightarrow> nat \<Rightarrow> nat \<Rightarrow> nat \<Rightarrow> u32 list \<Rightarrow> u32 list" where
  "QR_line a b d r x = (let x = x[a := x ! a + x ! b]; x = x[d := x ! d XOR x ! a] in x[d := ROTL (x ! d) r])"

definition QR :: "nat \<Rightarrow> nat \<Rightarrow> nat \<Rightarrow> nat \<Rightarrow> u32 list \<Rightarrow> u32 list" where
  "QR a b c d x =
    (let x = QR_line a b d 16 x; x = QR_line c d b 12 x; x = QR_line a b d 8 x in QR_line c d b 7 x)"

definition chacha_round :: "u32 list \<Rightarrow> u32 list" where
  "chacha_round x =
    (let x = QR 0 4 8 12 x; x = QR 1 5 9 13 x; x = QR 2 6 10 14 x; x = QR 3 7 11 15 x;
         x = QR 0 5 10 15 x; x = QR 1 6 11 12 x; x = QR 2 7 8 13 x
     in QR 3 4 9 14 x)"

definition chacha_block :: "u32 list \<Rightarrow> u32 list" where
  "chacha_block inp = (let x = (chacha_round ^^ 10) inp in map (\<lambda>i. x ! i + inp ! i) [0..<16])"

record prng =
  p_s :: "u32 list"
  p_out :: bytes
  p_n :: nat

text \<open>\<open>sqlite3Prng\<close> as the program starts with it.\<close>

definition prng_start :: prng where
  "prng_start = \<lparr>p_s = replicate 16 0, p_out = replicate 64 0, p_n = 0\<rparr>"

text \<open>Seeding: \<open>entropy\<close> is what \<open>sqlite3OsRandomness\<close> stores in the 44 bytes from \<open>s[4]\<close> on, \<open>None\<close> without a VFS.\<close>

definition prng_seed :: "bytes option \<Rightarrow> prng \<Rightarrow> prng" where
  "prng_seed entropy p =
    (let s = [0x61707865, 0x3320646e, 0x79622d32, 0x6b206574]
             @ (case entropy of None \<Rightarrow> replicate 11 0 | Some e \<Rightarrow> map (\<lambda>i. load32_le (mslice (4 * i) 4 e)) [0..<11])
             @ drop 15 (p_s p);
         s = s[15 := s ! 12];
         s = s[12 := 0]
     in p\<lparr>p_s := s, p_n := 0\<rparr>)"

text \<open>The loop that fills the buffer of the caller: the \<open>N\<close> bytes it writes.\<close>

function random_loop :: "nat \<Rightarrow> prng \<Rightarrow> bytes \<times> prng" where
  "random_loop N p =
    (if N \<le> p_n p then (mslice (p_n p - N) N (p_out p), p\<lparr>p_n := p_n p - N\<rparr>)
     else
       (let z = (if 0 < p_n p then take (p_n p) (p_out p) else []);
            N = N - p_n p;
            s = (p_s p)[12 := p_s p ! 12 + 1];
            (rest, q) = random_loop N (p\<lparr>p_s := s, p_out := concat (map store32_le (chacha_block s)), p_n := 64\<rparr>)
        in (z @ rest, q)))"
  by pat_completeness auto
termination
  by (relation "measure (\<lambda>(N, p). 2 * N + (if p_n p = 0 then 1 else 0))") auto

declare random_loop.simps [simp del]

text \<open>\<open>init\<close> is whether \<open>sqlite3_initialize\<close> succeeds, \<open>pBuf\<close> whether the caller gives a buffer.\<close>

definition sqlite3_randomness :: "bool \<Rightarrow> bytes option \<Rightarrow> int \<Rightarrow> bool \<Rightarrow> prng \<Rightarrow> bytes \<times> prng" where
  "sqlite3_randomness init entropy N pBuf p =
    (if \<not> init then ([], p)
     else if N \<le> 0 \<or> \<not> pBuf then ([], p\<lparr>p_s := (p_s p)[0 := 0]\<rparr>)
     else random_loop (nat N) (if p_s p ! 0 = 0 then prng_seed entropy p else p))"

text \<open>The state with its saved copy, for tests.\<close>

definition sqlite3PrngSaveState :: "prng \<times> prng \<Rightarrow> prng \<times> prng" where
  "sqlite3PrngSaveState = (\<lambda>(p, saved). (p, p))"

definition sqlite3PrngRestoreState :: "prng \<times> prng \<Rightarrow> prng \<times> prng" where
  "sqlite3PrngRestoreState = (\<lambda>(p, saved). (saved, saved))"

section \<open>The block function is ChaCha20's\<close>

lemma QR_cc20qr: "QR a b c d x = cc20qr a b c d x"
proof -
  have "QR_line a b d r x = qr_half a b d r x" for a b d r x
    by (simp add: QR_line_def qr_half_def ROTL_def rol32_def)
  then show ?thesis by (simp add: QR_def cc20qr_def Let_def)
qed

lemma chacha_block_words: "length s = 16 \<Longrightarrow> concat (map store32_le (chacha_block s)) = keystream_block s"
proof -
  have "chacha_round = chacha20_double_round"
    by (rule ext) (simp add: chacha_round_def chacha20_double_round_def QR_cc20qr)
  then have r: "(chacha_round ^^ 10) s = chacha20_block s" by (simp add: chacha20_block_def)
  assume "length s = 16"
  then have "chacha_block s = map2 (+) (chacha20_block s) s"
    by (intro nth_equalityI) (simp_all add: chacha_block_def r Let_def)
  then show ?thesis by (simp add: keystream_block_def)
qed

section \<open>Which bytes are handed out\<close>

text \<open>The places, block and index in it, that a request takes its bytes from, when \<open>n\<close> bytes of block \<open>c\<close> are left.\<close>

function places :: "nat \<Rightarrow> nat \<Rightarrow> nat \<Rightarrow> (nat \<times> nat) list \<times> nat \<times> nat" where
  "places N c n =
    (if N \<le> n then (map (\<lambda>j. (c, j)) [n - N..<n], c, n - N)
     else case places (N - n) (c + 1) 64 of (ps, c', n') \<Rightarrow> (map (\<lambda>j. (c, j)) [0..<n] @ ps, c', n'))"
  by pat_completeness auto
termination
  by (relation "measure (\<lambda>(N, c, n). 2 * N + (if n = 0 then 1 else 0))") auto

declare places.simps [simp del]

definition unused :: "nat \<Rightarrow> nat \<Rightarrow> (nat \<times> nat) set" where
  "unused c n = {(c', j). j < 64 \<and> (c' = c \<and> j < n \<or> c < c')}"

lemma places_unused:
  "n \<le> 64 \<Longrightarrow> places N c n = (ps, c', n') \<Longrightarrow>
     distinct ps \<and> set ps \<subseteq> unused c n - unused c' n' \<and> unused c' n' \<subseteq> unused c n \<and> n' \<le> 64
     \<and> length ps = N \<and> 64 * c' + n = 64 * c + n' + N \<and> (0 < N \<longrightarrow> n' < 64)"
proof (induction N c n arbitrary: ps rule: places.induct)
  case (1 N c n)
  show ?case
  proof (cases "N \<le> n")
    case True
    then have "ps = map (\<lambda>j. (c, j)) [n - N..<n]" "c' = c" "n' = n - N" using "1.prems"(2) by (auto simp: places.simps [of N c n])
    then show ?thesis using True "1.prems"(1) by (auto simp: unused_def distinct_map inj_on_def)
  next
    case False
    obtain qs where q: "places (N - n) (c + 1) 64 = (qs, c', n')" "ps = map (\<lambda>j. (c, j)) [0..<n] @ qs"
      using "1.prems"(2) False by (auto simp: places.simps [of N c n] split: prod.splits)
    have ih: "distinct qs" "set qs \<subseteq> unused (c + 1) 64 - unused c' n'" "unused c' n' \<subseteq> unused (c + 1) 64" "n' \<le> 64"
        "length qs = N - n" "64 * c' + 64 = 64 * (c + 1) + n' + (N - n)" "0 < N - n \<longrightarrow> n' < 64"
      using "1.IH" [OF False _ q(1)] by auto
    have u: "unused (c + 1) 64 \<subseteq> unused c n" by (auto simp: unused_def)
    have new: "set (map (\<lambda>j. (c, j)) [0..<n]) \<subseteq> unused c n - unused (c + 1) 64" using "1.prems"(1) by (auto simp: unused_def)
    have "distinct ps" using ih(1,2) new by (auto simp: q(2) distinct_map inj_on_def)
    moreover have "set ps \<subseteq> unused c n - unused c' n'" using ih(2,3) new u by (auto simp: q(2))
    ultimately show ?thesis using ih u False q(2) by auto
  qed
qed

text \<open>The byte at a place of the keystream under the seed.\<close>

definition seed_state :: "bytes \<Rightarrow> nat \<Rightarrow> u32 list" where
  "seed_state e c = chacha20_init (take 32 e) (mslice 36 8 e @ mslice 32 4 e) (word_of_nat c)"

definition prng_byte :: "bytes \<Rightarrow> nat \<times> nat \<Rightarrow> u8" where
  "prng_byte e = (\<lambda>(c, j). keystream_block (seed_state e c) ! j)"

text \<open>The generator with \<open>n\<close> bytes of block \<open>c\<close> left.\<close>

definition prng_at :: "bytes \<Rightarrow> nat \<Rightarrow> nat \<Rightarrow> prng \<Rightarrow> bool" where
  "prng_at e c n p \<longleftrightarrow> p_s p = seed_state e c \<and> p_n p = n \<and> n \<le> 64 \<and> (0 < n \<longrightarrow> p_out p = keystream_block (seed_state e c))"

lemma seed_state_step: "(seed_state e c)[12 := seed_state e c ! 12 + 1] = seed_state e (c + 1)"
  by (simp add: seed_state_def chacha20_init_def add.commute upt_rec)

lemma length_seed_state [simp]: "length (seed_state e c) = 16"
  by (simp add: seed_state_def)

lemma random_loop_places:
  "prng_at e c n p \<Longrightarrow> places N c n = (ps, c', n') \<Longrightarrow>
     \<exists>q. random_loop N p = (map (prng_byte e) ps, q) \<and> prng_at e c' n' q"
proof (induction N c n arbitrary: p ps rule: places.induct)
  case (1 N c n)
  have p: "p_s p = seed_state e c" "p_n p = n" "n \<le> 64" "0 < n \<longrightarrow> p_out p = keystream_block (seed_state e c)"
    using "1.prems"(1) by (auto simp: prng_at_def)
  have bytes: "map (prng_byte e) (map (\<lambda>j. (c, j)) [a..<b]) = mslice a (b - a) (p_out p)" if "b \<le> n" for a b
    using p that by (cases "n = 0") (auto simp: prng_byte_def mslice_def intro!: nth_equalityI)
  show ?case
  proof (cases "N \<le> n")
    case True
    then have "ps = map (\<lambda>j. (c, j)) [n - N..<n]" "c' = c" "n' = n - N" using "1.prems"(2) by (auto simp: places.simps [of N c n])
    then show ?thesis using True p bytes [of n "n - N"] by (subst random_loop.simps) (auto simp: prng_at_def)
  next
    case False
    obtain qs where q: "places (N - n) (c + 1) 64 = (qs, c', n')" "ps = map (\<lambda>j. (c, j)) [0..<n] @ qs"
      using "1.prems"(2) False by (auto simp: places.simps [of N c n] split: prod.splits)
    let ?p = "p\<lparr>p_s := seed_state e (c + 1), p_out := keystream_block (seed_state e (c + 1)), p_n := 64\<rparr>"
    have "prng_at e (c + 1) 64 ?p" by (simp add: prng_at_def)
    then obtain r where r: "random_loop (N - n) ?p = (map (prng_byte e) qs, r)" "prng_at e c' n' r"
      using "1.IH" [OF False _ q(1)] by blast
    have "random_loop N p = (mslice 0 n (p_out p) @ map (prng_byte e) qs, r)"
      using False p r(1) by (subst random_loop.simps) (auto simp: Let_def seed_state_step chacha_block_words mslice_def)
    then show ?thesis using r(2) q(2) bytes [of n 0] by simp
  qed
qed

lemma seeded:
  assumes "length (p_s p) = 16" and "length e = 44"
  shows "prng_at e 0 0 (prng_seed (Some e) p)"
proof -
  have d: "drop 15 (p_s p) = [p_s p ! 15]" using assms(1) by (simp add: Cons_nth_drop_Suc [of 15 "p_s p", symmetric])
  have m: "mslice (4 * i) 4 (take 32 e) = mslice (4 * i) 4 e" if "i < 8" for i
    using that by (simp add: mslice_def drop_take min_def)
  have n: "mslice 0 4 (mslice 36 8 e @ mslice 32 4 e) = mslice 36 4 e" "mslice 4 4 (mslice 36 8 e @ mslice 32 4 e) = mslice 40 4 e"
      "mslice 8 4 (mslice 36 8 e @ mslice 32 4 e) = mslice 32 4 e"
    using assms(2) by (simp_all add: mslice_def take_drop)
  have "seed_state e 0 = p_s (prng_seed (Some e) p)"
    using m [of 0] m [of 1] m [of 2] m [of 3] m [of 4] m [of 5] m [of 6] m [of 7] n
    by (simp add: seed_state_def chacha20_init_def prng_seed_def d Let_def upt_rec)
  then show ?thesis by (simp add: prng_at_def prng_seed_def Let_def)
qed

text \<open>Requests one after another; \<open>e\<close> is what the operating system would give to any of them.\<close>

fun requests :: "bytes \<Rightarrow> nat list \<Rightarrow> prng \<Rightarrow> bytes \<times> prng" where
  "requests e [] p = ([], p)"
| "requests e (N # Ns) p =
    (case sqlite3_randomness True (Some e) (int N) True p of (z, p) \<Rightarrow>
       case requests e Ns p of (zs, p) \<Rightarrow> (z @ zs, p))"

lemma seed_state_0: "seed_state e c ! 0 \<noteq> 0"
  by (simp add: seed_state_def chacha20_init_def)

lemma request_seeded:
  "prng_at e c n p \<Longrightarrow> 0 < N \<Longrightarrow> sqlite3_randomness True (Some e) (int N) True p = random_loop N p"
  using seed_state_0 by (simp add: sqlite3_randomness_def prng_at_def)

lemma requests_places:
  "prng_at e c n p \<Longrightarrow> 0 \<notin> set Ns \<Longrightarrow>
     \<exists>ps c' n'. fst (requests e Ns p) = map (prng_byte e) ps \<and> distinct ps \<and> set ps \<subseteq> unused c n - unused c' n'
       \<and> unused c' n' \<subseteq> unused c n \<and> length ps = sum_list Ns \<and> 64 * c' + n = 64 * c + n' + sum_list Ns \<and> n' \<le> 64"
proof (induction Ns arbitrary: c n p)
  case Nil
  then show ?case by (intro exI [of _ "[]"] exI [of _ c] exI [of _ n]) (simp add: prng_at_def)
next
  case (Cons N Ns)
  obtain ps c1 n1 where pl: "places N c n = (ps, c1, n1)" by (metis prod_cases3)
  have n: "n \<le> 64" using Cons.prems(1) by (simp add: prng_at_def)
  obtain q where q: "random_loop N p = (map (prng_byte e) ps, q)" "prng_at e c1 n1 q"
    using random_loop_places [OF Cons.prems(1) pl] by blast
  note u = places_unused [OF n pl]
  obtain qs c' n' where r: "fst (requests e Ns q) = map (prng_byte e) qs" "distinct qs" "set qs \<subseteq> unused c1 n1 - unused c' n'"
      "unused c' n' \<subseteq> unused c1 n1" "length qs = sum_list Ns" "64 * c' + n1 = 64 * c1 + n' + sum_list Ns" "n' \<le> 64"
    using Cons.IH [OF q(2)] Cons.prems(2) by auto
  have "fst (requests e (N # Ns) p) = map (prng_byte e) (ps @ qs)"
    using request_seeded [OF Cons.prems(1)] Cons.prems(2) q(1) r(1) by (auto split: prod.splits)
  moreover have "distinct (ps @ qs)" using u r(2,3) by auto
  moreover have "set (ps @ qs) \<subseteq> unused c n - unused c' n'" "unused c' n' \<subseteq> unused c n" using u r(3,4) by auto
  ultimately show ?case using u r(5,6,7) by (intro exI [of _ "ps @ qs"] exI [of _ c'] exI [of _ n']) auto
qed

section \<open>Property\<close>

text \<open>C27.
  Random bytes are keystream bytes, each handed out once.  From an unseeded generator, any sequence of
  requests of fewer than 2 ^ 38 bytes together ends and returns bytes of the ChaCha20 keystream whose key and nonce
  are the 44 bytes of entropy, from pairwise distinct places in blocks 1 to 2 ^ 32 - 1, although a
  request takes its bytes from the end of what is left of a block and the next one begins before them.
\<close>

theorem random_bytes_once:
  assumes "length (p_s p) = 16" and "p_s p ! 0 = 0" and "length e = 44" and "0 \<notin> set Ns" and "sum_list Ns + 64 < 2 ^ 38"
  shows "\<exists>ps. fst (requests e Ns p) = map (prng_byte e) ps \<and> distinct ps \<and> length ps = sum_list Ns
    \<and> (\<forall>(c, j)\<in>set ps. 0 < c \<and> c < 2 ^ 32 \<and> j < 64)"
proof (cases Ns)
  case (Cons N Ms)
  let ?p = "prng_seed (Some e) p"
  have s: "prng_at e 0 0 ?p" using seeded assms(1,3) by blast
  have "requests e Ns p = requests e Ns ?p"
    using Cons assms(2,4) request_seeded [OF s] by (simp add: sqlite3_randomness_def)
  moreover obtain ps c' n' where ps: "fst (requests e Ns ?p) = map (prng_byte e) ps" "distinct ps"
      "set ps \<subseteq> unused 0 0 - unused c' n'" "length ps = sum_list Ns" "64 * c' + 0 = 64 * 0 + n' + sum_list Ns" "n' \<le> 64"
    using requests_places [OF s assms(4)] by blast
  moreover have "c' < 2 ^ 32" using ps(5,6) assms(5) by simp
  then have "\<forall>(c, j)\<in>set ps. 0 < c \<and> c < 2 ^ 32 \<and> j < 64" using ps(3) by (fastforce simp: unused_def)
  ultimately show ?thesis by auto
qed simp

theorem random_bytes_once_witness:
  "\<exists>ps. fst (requests (replicate 44 7) [3, 100, 61] prng_start) = map (prng_byte (replicate 44 7)) ps \<and> distinct ps
    \<and> length ps = 164 \<and> (\<forall>(c, j)\<in>set ps. 0 < c \<and> c < 2 ^ 32 \<and> j < 64)"
  using random_bytes_once [of prng_start "replicate 44 7" "[3, 100, 61]"] by (simp add: prng_start_def)

end
