(* ===== verification/RowSet.thy ===== *)
theory RowSet
  imports Prelude "HOL-Library.Tree"
begin

text \<open>
  Sets of rowids (\<open>rowset.c\<close>): inserts are queued on a list; a test with a new batch number sorts the
  queue with a bottom-up merge sort and adds it, as a balanced tree, to a forest of trees; taking the
  smallest element sorts the queue once and walks it.  A list of entries linked by \<open>pRight\<close> is the
  list of its values, a tree linked by \<open>pLeft\<close> and \<open>pRight\<close> a binary tree; a forest entry is the tree
  under its \<open>pLeft\<close>.  Whether an allocation succeeds is an argument of the operations that allocate.
\<close>

type_synonym i64 = int

section \<open>The set and its memory\<close>

record rowset =
  rs_pEntry :: "i64 list"
  rs_pLast :: "i64 option"
  rs_pForest :: "i64 tree list"
  rs_nChunk :: nat
  rs_nFresh :: nat
  rs_sorted :: bool
  rs_next :: bool
  rs_iBatch :: int

definition ROWSET_ALLOCATION_SIZE :: nat where "ROWSET_ALLOCATION_SIZE = 1024"
definition sizeof_RowSetEntry :: nat where "sizeof_RowSetEntry = 24"
definition sizeof_RowSet :: nat where "sizeof_RowSet = 56"
definition ROWSET_ENTRY_PER_CHUNK :: nat where
  "ROWSET_ENTRY_PER_CHUNK = (ROWSET_ALLOCATION_SIZE - 8) div sizeof_RowSetEntry"

text \<open>\<open>sqlite3RowSetInit\<close>, given the size of the block the allocator returned, if any.\<close>

definition sqlite3RowSetInit :: "nat option \<Rightarrow> rowset option" where
  "sqlite3RowSetInit block = (case block of None \<Rightarrow> None
     | Some N \<Rightarrow> Some \<lparr>rs_pEntry = [], rs_pLast = None, rs_pForest = [], rs_nChunk = 0,
         rs_nFresh = ((N - sizeof_RowSet) div sizeof_RowSetEntry) mod 2 ^ 16,
         rs_sorted = True, rs_next = False, rs_iBatch = 0\<rparr>)"

definition sqlite3RowSetClear :: "rowset \<Rightarrow> rowset" where
  "sqlite3RowSetClear p = p\<lparr>rs_nChunk := 0, rs_nFresh := 0, rs_pEntry := [], rs_pLast := None,
     rs_pForest := [], rs_sorted := True, rs_next := False\<rparr>"

definition rowSetEntryAlloc :: "bool \<Rightarrow> rowset \<Rightarrow> rowset option" where
  "rowSetEntryAlloc mem p =
    (if rs_nFresh p = 0 then
       (if \<not> mem then None
        else Some (p\<lparr>rs_nChunk := rs_nChunk p + 1, rs_nFresh := ROWSET_ENTRY_PER_CHUNK - 1\<rparr>))
     else Some (p\<lparr>rs_nFresh := rs_nFresh p - 1\<rparr>))"

definition sqlite3RowSetInsert :: "bool \<Rightarrow> rowset \<Rightarrow> i64 \<Rightarrow> rowset" where
  "sqlite3RowSetInsert mem p rowid =
    (case rowSetEntryAlloc mem p of None \<Rightarrow> p
     | Some p \<Rightarrow>
        (case rs_pLast p of
           Some pLast \<Rightarrow>
             p\<lparr>rs_sorted := rs_sorted p \<and> \<not> rowid \<le> pLast, rs_pEntry := rs_pEntry p @ [rowid],
               rs_pLast := Some rowid\<rparr>
         | None \<Rightarrow> p\<lparr>rs_pEntry := [rowid], rs_pLast := Some rowid\<rparr>))"

section \<open>Sorting\<close>

fun rowSetEntryMerge :: "i64 list \<Rightarrow> i64 list \<Rightarrow> i64 list" where
  "rowSetEntryMerge (a # A) (b # B) =
    (if a \<le> b then
       (if a < b then [a] else []) @ (if A = [] then b # B else rowSetEntryMerge A (b # B))
     else b # (if B = [] then a # A else rowSetEntryMerge (a # A) B))"
| "rowSetEntryMerge [] B = B"
| "rowSetEntryMerge A [] = A"

text \<open>
  \<open>for(i=0; aBucket[i]; i++){ pIn = rowSetEntryMerge(aBucket[i], pIn); aBucket[i] = 0; } aBucket[i] = pIn;\<close>
  the loop runs off the array when every bucket is taken.
\<close>

fun bucket_put :: "i64 list \<Rightarrow> i64 list list \<Rightarrow> i64 list list option" where
  "bucket_put pIn [] = None"
| "bucket_put pIn (b # bs) =
    (if b = [] then Some (pIn # bs)
     else map_option (Cons []) (bucket_put (rowSetEntryMerge b pIn) bs))"

fun sort_loop :: "i64 list \<Rightarrow> i64 list list \<Rightarrow> i64 list list option" where
  "sort_loop [] bs = Some bs"
| "sort_loop (v # pIn) bs = Option.bind (bucket_put [v] bs) (sort_loop pIn)"

definition bucket_join :: "i64 list \<Rightarrow> i64 list \<Rightarrow> i64 list" where
  "bucket_join pIn b = (if b = [] then pIn else if pIn = [] then b else rowSetEntryMerge pIn b)"

definition rowSetEntrySort :: "i64 list \<Rightarrow> i64 list option" where
  "rowSetEntrySort pIn =
    map_option (\<lambda>bs. foldl bucket_join (hd bs) (tl bs)) (sort_loop pIn (replicate 40 []))"

section \<open>Trees\<close>

fun rowSetTreeToList :: "i64 tree \<Rightarrow> i64 list" where
  "rowSetTreeToList Leaf = []"
| "rowSetTreeToList (Node l v r) =
    (if l \<noteq> Leaf then rowSetTreeToList l @ [v] else [v]) @ (if r \<noteq> Leaf then rowSetTreeToList r else [])"

fun rowSetNDeepTree :: "i64 list \<Rightarrow> nat \<Rightarrow> i64 tree \<times> i64 list" where
  "rowSetNDeepTree [] iDepth = (Leaf, [])"
| "rowSetNDeepTree (v # ps) 0 = (Node Leaf v Leaf, ps)"
| "rowSetNDeepTree (v # ps) (Suc d) =
    (if Suc d > 1 then
       (case rowSetNDeepTree (v # ps) d of
          (pLeft, []) \<Rightarrow> (pLeft, [])
        | (pLeft, p # rest) \<Rightarrow>
            (case rowSetNDeepTree rest d of (pRight, rest) \<Rightarrow> (Node pLeft p pRight, rest)))
     else (Node Leaf v Leaf, ps))"

lemma deep_rest: "rowSetNDeepTree xs d = (t, r) \<Longrightarrow> length r \<le> length xs"
proof (induction xs d arbitrary: t r rule: rowSetNDeepTree.induct)
  case (3 v ps d)
  obtain l q where l: "rowSetNDeepTree (v # ps) d = (l, q)" by fastforce
  show ?case
  proof (cases "Suc d > 1 \<and> q \<noteq> []")
    case True
    then obtain p rest where q: "q = p # rest" by (cases q) auto
    obtain rt r' where rt: "rowSetNDeepTree rest d = (rt, r')" by fastforce
    have "length q \<le> length (v # ps)" using "3.IH"(1) True l by blast
    moreover have "length r' \<le> length rest" using "3.IH"(2) [OF _ l [symmetric] q rt] True by blast
    ultimately show ?thesis using "3.prems" True l q rt by auto
  next
    case False
    then show ?thesis using "3.prems" "3.IH"(1) l by (auto split: if_splits)
  qed
qed auto

function list_to_tree :: "i64 tree \<Rightarrow> i64 list \<Rightarrow> nat \<Rightarrow> i64 tree" where
  "list_to_tree p [] iDepth = p"
| "list_to_tree p (v # pList) iDepth =
    (case rowSetNDeepTree pList iDepth of (r, pList) \<Rightarrow> list_to_tree (Node p v r) pList (iDepth + 1))"
  by pat_completeness auto
termination
  by (relation "measure (\<lambda>(_, xs, _). length xs)") (auto dest!: deep_rest [OF sym] simp: le_imp_less_Suc)

definition rowSetListToTree :: "i64 list \<Rightarrow> i64 tree" where
  "rowSetListToTree pList = list_to_tree (Node Leaf (hd pList) Leaf) (tl pList) 1"

section \<open>Extracting and testing\<close>

text \<open>\<open>sqlite3RowSetNext\<close>: the rowid written, if any.\<close>

definition sqlite3RowSetNext :: "rowset \<Rightarrow> (i64 option \<times> rowset) option" where
  "sqlite3RowSetNext p =
    (let sorted = (if \<not> rs_next p \<and> \<not> rs_sorted p then rowSetEntrySort (rs_pEntry p) else Some (rs_pEntry p))
     in map_option (\<lambda>pEntry.
          let p = (if \<not> rs_next p then p\<lparr>rs_pEntry := pEntry, rs_sorted := True, rs_next := True\<rparr> else p)
          in case rs_pEntry p of
               [] \<Rightarrow> (None, p)
             | v # pRight \<Rightarrow>
                 let p = p\<lparr>rs_pEntry := pRight\<rparr>
                 in (Some v, if pRight = [] then sqlite3RowSetClear p else p)) sorted)"

text \<open>
  The walk over the forest: the first empty tree takes the entries, the full trees before it are
  flattened and merged into them.  What is left over goes to a new tree.
\<close>

fun forest_add :: "i64 list \<Rightarrow> i64 tree list \<Rightarrow> i64 tree list \<times> i64 list option" where
  "forest_add p [] = ([], Some p)"
| "forest_add p (pTree # ts) =
    (if pTree = Leaf then (rowSetListToTree p # ts, None)
     else case forest_add (rowSetEntryMerge (rowSetTreeToList pTree) p) ts of
            (ts, rest) \<Rightarrow> (Leaf # ts, rest))"

fun tree_test :: "i64 tree \<Rightarrow> i64 \<Rightarrow> bool" where
  "tree_test Leaf iRowid = False"
| "tree_test (Node l v r) iRowid =
    (if v < iRowid then tree_test r iRowid else if v > iRowid then tree_test l iRowid else True)"

definition rowset_flush :: "bool \<Rightarrow> rowset \<Rightarrow> rowset option" where
  "rowset_flush mem pRowSet =
    map_option (\<lambda>p.
      case forest_add p (rs_pForest pRowSet) of (ts, rest) \<Rightarrow>
      let pRowSet =
        (case rest of
           None \<Rightarrow> pRowSet\<lparr>rs_pForest := ts\<rparr>
         | Some p \<Rightarrow>
             (case rowSetEntryAlloc mem pRowSet of
                None \<Rightarrow> pRowSet\<lparr>rs_pForest := ts\<rparr>
              | Some pRowSet \<Rightarrow> pRowSet\<lparr>rs_pForest := ts @ [rowSetListToTree p]\<rparr>))
      in pRowSet\<lparr>rs_pEntry := [], rs_pLast := None, rs_sorted := True\<rparr>)
    (if rs_sorted pRowSet then Some (rs_pEntry pRowSet) else rowSetEntrySort (rs_pEntry pRowSet))"

definition sqlite3RowSetTest :: "bool \<Rightarrow> rowset \<Rightarrow> int \<Rightarrow> i64 \<Rightarrow> (bool \<times> rowset) option" where
  "sqlite3RowSetTest mem pRowSet iBatch iRowid =
    map_option (\<lambda>p. (list_ex (\<lambda>t. tree_test t iRowid) (rs_pForest p), p))
      (if iBatch \<noteq> rs_iBatch pRowSet then
         map_option (\<lambda>p. p\<lparr>rs_iBatch := iBatch\<rparr>)
           (if rs_pEntry pRowSet \<noteq> [] then rowset_flush mem pRowSet else Some pRowSet)
       else Some pRowSet)"

section \<open>Sorting: strictly increasing lists\<close>

definition strict :: "i64 list \<Rightarrow> bool" where
  "strict xs = sorted_wrt (<) xs"

lemma strict_simps [simp]: "strict []" "strict [x]" "strict (x # xs) \<longleftrightarrow> (\<forall>y\<in>set xs. x < y) \<and> strict xs"
    "strict (xs @ ys) \<longleftrightarrow> strict xs \<and> strict ys \<and> (\<forall>x\<in>set xs. \<forall>y\<in>set ys. x < y)"
  by (auto simp: strict_def sorted_wrt_append)

lemma strict_unique: "strict xs \<Longrightarrow> strict ys \<Longrightarrow> set xs = set ys \<Longrightarrow> xs = ys"
  unfolding strict_def by (metis strict_sorted_equal)

lemma set_merge [simp]: "set (rowSetEntryMerge A B) = set A \<union> set B"
proof (induction A B rule: rowSetEntryMerge.induct)
  case (1 a A b B)
  then show ?case by (cases "a < b"; cases "a = b") auto
qed simp_all

lemma strict_merge: "strict A \<Longrightarrow> strict B \<Longrightarrow> strict (rowSetEntryMerge A B)"
proof (induction A B rule: rowSetEntryMerge.induct)
  case (1 a A b B)
  then show ?case by (cases "a < b"; cases "a = b") force+
qed simp_all

lemma merge_ne: "rowSetEntryMerge A B = [] \<longleftrightarrow> A = [] \<and> B = []"
  using set_merge [of A B] by (metis Un_empty set_empty)

text \<open>The buckets count in binary: bucket \<open>i\<close> is taken iff bit \<open>i\<close> of the number of entries put is set.\<close>

fun bucket_count :: "i64 list list \<Rightarrow> nat" where
  "bucket_count [] = 0"
| "bucket_count (b # bs) = (if b = [] then 0 else 1) + 2 * bucket_count bs"

definition entries_of :: "i64 list list \<Rightarrow> int set" where
  "entries_of bs = set (concat bs)"

lemma entries_simps [simp]: "entries_of [] = {}" "entries_of (b # bs) = set b \<union> entries_of bs"
    "entries_of (replicate n []) = {}"
  by (auto simp: entries_of_def)

lemma bucket_put_some:
  assumes "bucket_count bs + 1 < 2 ^ length bs" and "x \<noteq> []"
  shows "\<exists>bs'. bucket_put x bs = Some bs' \<and> bucket_count bs' = bucket_count bs + 1 \<and> length bs' = length bs"
  using assms
proof (induction x bs rule: bucket_put.induct)
  case (2 x b bs)
  show ?case
  proof (cases "b = []")
    case True
    then show ?thesis using 2 by simp
  next
    case False
    then have "bucket_count bs + 1 < 2 ^ length bs" using "2.prems"(1) by simp
    then show ?thesis using "2.IH" [OF False] False by (auto simp: merge_ne)
  qed
qed simp

lemma bucket_put_set:
  "bucket_put x bs = Some bs' \<Longrightarrow> entries_of bs' = set x \<union> entries_of bs"
proof (induction x bs arbitrary: bs' rule: bucket_put.induct)
  case (2 x b bs)
  then show ?case by (auto split: if_splits)
qed simp

lemma bucket_put_strict:
  "bucket_put x bs = Some bs' \<Longrightarrow> strict x \<Longrightarrow> \<forall>b\<in>set bs. strict b \<Longrightarrow> \<forall>b\<in>set bs'. strict b"
proof (induction x bs arbitrary: bs' rule: bucket_put.induct)
  case (2 x b bs)
  then show ?case by (auto split: if_splits simp: strict_merge)
qed simp

lemma sort_loop_some:
  "bucket_count bs + length xs < 2 ^ length bs \<Longrightarrow> \<exists>bs'. sort_loop xs bs = Some bs' \<and> length bs' = length bs"
proof (induction xs arbitrary: bs)
  case (Cons v xs)
  then obtain bs1 where b: "bucket_put [v] bs = Some bs1" "bucket_count bs1 = bucket_count bs + 1" "length bs1 = length bs"
    using bucket_put_some [of bs "[v]"] by auto
  then show ?case using Cons.IH [of bs1] Cons.prems by simp
qed simp

lemma bucket_put_length: "bucket_put x bs = Some bs' \<Longrightarrow> length bs' = length bs"
  by (induction x bs arbitrary: bs' rule: bucket_put.induct) (auto split: if_splits)

lemma sort_loop_length: "sort_loop xs bs = Some bs' \<Longrightarrow> length bs' = length bs"
  by (induction xs arbitrary: bs) (auto simp: bind_eq_Some_conv dest: bucket_put_length)

lemma sort_loop_sound:
  "sort_loop xs bs = Some bs' \<Longrightarrow> \<forall>b\<in>set bs. strict b \<Longrightarrow>
     (\<forall>b\<in>set bs'. strict b) \<and> entries_of bs' = set xs \<union> entries_of bs"
proof (induction xs arbitrary: bs)
  case (Cons v xs)
  from Cons.prems(1) obtain bs1 where b: "bucket_put [v] bs = Some bs1" "sort_loop xs bs1 = Some bs'"
    by (auto simp: bind_eq_Some_conv)
  then show ?case
    using Cons.IH [OF b(2)] bucket_put_strict [OF b(1)] Cons.prems(2) bucket_put_set [OF b(1)] by auto
qed simp

lemma join_sound:
  "strict p \<Longrightarrow> \<forall>b\<in>set bs. strict b \<Longrightarrow>
     strict (foldl bucket_join p bs) \<and> set (foldl bucket_join p bs) = set p \<union> entries_of bs"
  by (induction bs arbitrary: p) (auto simp: bucket_join_def strict_merge)

lemma sort_sound:
  assumes "rowSetEntrySort xs = Some ys" shows "strict ys" and "set ys = set xs"
proof -
  from assms obtain bs where bs: "sort_loop xs (replicate 40 []) = Some bs" "ys = foldl bucket_join (hd bs) (tl bs)"
    by (auto simp: rowSetEntrySort_def)
  have "length bs = 40" using sort_loop_length [OF bs(1)] by simp
  then obtain b cs where b: "bs = b # cs" by (cases bs) auto
  have "(\<forall>b\<in>set bs. strict b) \<and> entries_of bs = set xs" using sort_loop_sound [OF bs(1)] by simp
  then show "strict ys" "set ys = set xs" using join_sound [of b cs] bs(2) b by auto
qed

lemma sort_total: "length xs < 2 ^ 40 \<Longrightarrow> \<exists>ys. rowSetEntrySort xs = Some ys"
proof -
  have "bucket_count (replicate n []) = 0" for n by (induction n) auto
  then show "length xs < 2 ^ 40 \<Longrightarrow> ?thesis"
    using sort_loop_some [of "replicate 40 []" xs] by (auto simp: rowSetEntrySort_def)
qed

section \<open>Trees\<close>

lemma tree_to_list [simp]: "rowSetTreeToList t = inorder t"
  by (induction t) auto

lemma deep_inorder: "rowSetNDeepTree xs d = (t, r) \<Longrightarrow> inorder t @ r = xs"
proof (induction xs d arbitrary: t r rule: rowSetNDeepTree.induct)
  case (3 v ps d)
  show ?case
  proof (cases "Suc d > 1")
    case True
    obtain l q where l: "rowSetNDeepTree (v # ps) d = (l, q)" by fastforce
    have i: "inorder l @ q = v # ps" using "3.IH"(1) True l by blast
    show ?thesis
    proof (cases q)
      case Nil
      then show ?thesis using "3.prems" True l i by auto
    next
      case (Cons p rest)
      obtain rt r' where rt: "rowSetNDeepTree rest d = (rt, r')" by fastforce
      have "inorder rt @ r' = rest" using "3.IH"(2) [OF True l [symmetric] Cons rt] .
      then show ?thesis using "3.prems" True l i Cons rt by auto
    qed
  next
    case False
    then show ?thesis using "3.prems" by auto
  qed
qed auto

lemma full_size: "Suc (2 ^ d + 2 ^ d - Suc (Suc 0)) = 2 * 2 ^ d - Suc 0"
  using one_le_power [of "2 :: nat" d] by linarith

text \<open>A tree built to a depth is full unless the list ran out.\<close>

lemma deep_full:
  "rowSetNDeepTree xs d = (t, r) \<Longrightarrow> 0 < d \<Longrightarrow> height t \<le> d \<and> (r \<noteq> [] \<longrightarrow> size t = 2 ^ d - 1)"
proof (induction xs d arbitrary: t r rule: rowSetNDeepTree.induct)
  case (3 v ps d)
  show ?case
  proof (cases "Suc d > 1")
    case True
    obtain l q where l: "rowSetNDeepTree (v # ps) d = (l, q)" by fastforce
    have i: "height l \<le> d \<and> (q \<noteq> [] \<longrightarrow> size l = 2 ^ d - 1)" using "3.IH"(1) True l by simp
    show ?thesis
    proof (cases q)
      case Nil
      then show ?thesis using "3.prems" True l i by auto
    next
      case (Cons p rest)
      obtain rt r' where rt: "rowSetNDeepTree rest d = (rt, r')" by fastforce
      have j: "height rt \<le> d \<and> (r' \<noteq> [] \<longrightarrow> size rt = 2 ^ d - 1)"
        using "3.IH"(2) [OF True l [symmetric] Cons rt] True by simp
      then show ?thesis using "3.prems" True l i Cons rt j by (auto simp: full_size)
    qed
  next
    case False
    then show ?thesis using "3.prems" by auto
  qed
qed auto

definition shallow :: "i64 tree \<Rightarrow> bool" where
  "shallow t \<longleftrightarrow> t = Leaf \<or> 2 ^ (height t - 1) \<le> size t"

lemma list_to_tree_shape:
  assumes "0 < d" and "height p \<le> d" and "2 ^ (d - 1) \<le> size p" and "xs \<noteq> [] \<Longrightarrow> size p = 2 ^ d - 1"
  shows "inorder (list_to_tree p xs d) = inorder p @ xs \<and> shallow (list_to_tree p xs d)"
  using assms
proof (induction p xs d rule: list_to_tree.induct)
  case (1 p d)
  have "(2 :: nat) ^ (height p - 1) \<le> 2 ^ (d - 1)" using 1(2) by (intro power_increasing) auto
  from order_trans [OF this 1(3)] show ?case by (simp add: shallow_def)
next
  case (2 p v xs d)
  obtain r rest where r: "rowSetNDeepTree xs d = (r, rest)" by fastforce
  have "size p = 2 ^ d - 1" using "2.prems"(4) by simp
  moreover have "(0 :: nat) < 2 ^ d" by simp
  moreover have "height r \<le> d \<and> (rest \<noteq> [] \<longrightarrow> size r = 2 ^ d - 1)" using deep_full [OF r "2.prems"(1)] .
  ultimately have "inorder (list_to_tree (Node p v r) rest (d + 1)) = inorder (Node p v r) @ rest
      \<and> shallow (list_to_tree (Node p v r) rest (d + 1))"
    using "2.prems"(2) by (intro "2.IH" [OF r [symmetric]]) (auto simp: full_size)
  then show ?case using r deep_inorder [OF r] by simp
qed

lemma inorder_list_to_tree [simp]: "xs \<noteq> [] \<Longrightarrow> inorder (rowSetListToTree xs) = xs"
  using list_to_tree_shape [of 1 "Node Leaf (hd xs) Leaf" "tl xs"] by (simp add: rowSetListToTree_def)

lemma shallow_list_to_tree [simp]: "shallow (rowSetListToTree xs)"
  using list_to_tree_shape [of 1 "Node Leaf (hd xs) Leaf" "tl xs"] by (simp add: rowSetListToTree_def)

lemma tree_test_correct: "strict (inorder t) \<Longrightarrow> tree_test t x \<longleftrightarrow> x \<in> set (inorder t)"
  by (induction t) force+

section \<open>The forest\<close>

definition forest_ok :: "i64 tree list \<Rightarrow> bool" where
  "forest_ok ts \<longleftrightarrow> (\<forall>t\<in>set ts. strict (inorder t) \<and> shallow t)"

definition forest_set :: "i64 tree list \<Rightarrow> int set" where
  "forest_set ts = set (concat (map inorder ts))"

lemma forest_simps [simp]: "forest_ok []" "forest_ok (t # ts) \<longleftrightarrow> strict (inorder t) \<and> shallow t \<and> forest_ok ts"
    "forest_ok (ts @ us) \<longleftrightarrow> forest_ok ts \<and> forest_ok us"
    "forest_set [] = {}" "forest_set (t # ts) = set (inorder t) \<union> forest_set ts"
    "forest_set (ts @ us) = forest_set ts \<union> forest_set us"
  by (auto simp: forest_ok_def forest_set_def)

lemma forest_add_correct:
  assumes "forest_add p ts = (ts', rest)" and "strict p" and "p \<noteq> []" and "forest_ok ts"
  shows "forest_ok ts' \<and> forest_set ts' \<union> (case rest of None \<Rightarrow> {} | Some q \<Rightarrow> set q) = set p \<union> forest_set ts
     \<and> (\<forall>q. rest = Some q \<longrightarrow> strict q \<and> q \<noteq> [])"
  using assms
proof (induction p ts arbitrary: ts' rule: forest_add.induct)
  case (2 p t ts)
  show ?case
  proof (cases "t = Leaf")
    case True
    then show ?thesis using "2.prems" by auto
  next
    case False
    obtain us where u: "forest_add (rowSetEntryMerge (rowSetTreeToList t) p) ts = (us, rest)" "ts' = Leaf # us"
      using "2.prems"(1) False by (auto split: prod.splits)
    have "strict (rowSetEntryMerge (rowSetTreeToList t) p)" "rowSetEntryMerge (rowSetTreeToList t) p \<noteq> []"
      using "2.prems" by (auto simp: strict_merge merge_ne)
    then show ?thesis using "2.IH" [OF False u(1)] "2.prems" u(2) by (auto simp: shallow_def)
  qed
qed auto

lemma forest_test: "forest_ok ts \<Longrightarrow> list_ex (\<lambda>t. tree_test t x) ts \<longleftrightarrow> x \<in> forest_set ts"
  by (induction ts) (auto simp: tree_test_correct)

section \<open>The invariant\<close>

definition rowset_inv :: "rowset \<Rightarrow> bool" where
  "rowset_inv p \<longleftrightarrow> \<not> rs_next p \<and> forest_ok (rs_pForest p)
     \<and> rs_pLast p = (if rs_pEntry p = [] then None else Some (last (rs_pEntry p)))
     \<and> (rs_sorted p \<longrightarrow> strict (rs_pEntry p))"

definition visible :: "rowset \<Rightarrow> int set" where "visible p = forest_set (rs_pForest p)"
definition pending :: "rowset \<Rightarrow> int set" where "pending p = set (rs_pEntry p)"

lemma init_inv: "sqlite3RowSetInit b = Some p \<Longrightarrow>
    rowset_inv p \<and> visible p = {} \<and> pending p = {} \<and> rs_iBatch p = 0 \<and> rs_pForest p = []"
  by (auto simp: sqlite3RowSetInit_def rowset_inv_def visible_def pending_def split: option.splits)

lemma alloc_same:
  assumes "rowSetEntryAlloc mem p = Some q"
  shows "rs_pEntry q = rs_pEntry p \<and> rs_pLast q = rs_pLast p \<and> rs_pForest q = rs_pForest p
     \<and> rs_sorted q = rs_sorted p \<and> rs_next q = rs_next p \<and> rs_iBatch q = rs_iBatch p"
  using assms by (auto simp: rowSetEntryAlloc_def split: if_splits)

lemma strict_snoc: "strict xs \<Longrightarrow> xs \<noteq> [] \<Longrightarrow> last xs < x \<Longrightarrow> strict (xs @ [x])"
  by (cases xs rule: rev_cases) (simp_all, blast intro: order_less_trans)

lemma insert_correct:
  assumes "rowset_inv p" and "rowSetEntryAlloc mem p \<noteq> None"
  shows "rowset_inv (sqlite3RowSetInsert mem p x) \<and> visible (sqlite3RowSetInsert mem p x) = visible p
    \<and> pending (sqlite3RowSetInsert mem p x) = insert x (pending p)
    \<and> rs_iBatch (sqlite3RowSetInsert mem p x) = rs_iBatch p
    \<and> rs_pForest (sqlite3RowSetInsert mem p x) = rs_pForest p
    \<and> length (rs_pEntry (sqlite3RowSetInsert mem p x)) = length (rs_pEntry p) + 1"
proof -
  obtain q where q: "rowSetEntryAlloc mem p = Some q" using assms(2) by blast
  note a = alloc_same [OF q]
  show ?thesis
  proof (cases "rs_pEntry p = []")
    case True
    then show ?thesis using assms(1) a
      by (simp add: sqlite3RowSetInsert_def q rowset_inv_def visible_def pending_def)
  next
    case False
    then show ?thesis using assms(1) a
      by (auto simp: sqlite3RowSetInsert_def q rowset_inv_def visible_def pending_def strict_snoc simp del: strict_simps(4))
  qed
qed

lemma alloc_mem: "rowSetEntryAlloc True p \<noteq> None"
  by (simp add: rowSetEntryAlloc_def)

lemma flush_correct:
  assumes "rowset_inv p" and "rs_pEntry p \<noteq> []" and "rowset_flush True p = Some q"
  shows "rowset_inv q \<and> visible q = visible p \<union> pending p \<and> pending q = {} \<and> rs_pEntry q = []"
proof -
  from assms(3) obtain e where e: "(if rs_sorted p then Some (rs_pEntry p) else rowSetEntrySort (rs_pEntry p)) = Some e"
    by (auto simp: rowset_flush_def)
  then have s: "strict e" "set e = pending p" "e \<noteq> []"
    using assms(1,2) sort_sound [of "rs_pEntry p" e]
    by (auto simp: rowset_inv_def pending_def split: if_splits)
  obtain ts rest where f: "forest_add e (rs_pForest p) = (ts, rest)" by fastforce
  have fo: "forest_ok (rs_pForest p)" "\<not> rs_next p" using assms(1) by (auto simp: rowset_inv_def)
  note fc = forest_add_correct [OF f s(1,3) fo(1)]
  obtain a where a: "rowSetEntryAlloc True p = Some a" using alloc_mem by blast
  show ?thesis
    using assms(3) e f fc fo(2) alloc_same [OF a] s(2)
    by (cases rest) (auto simp: rowset_flush_def a rowset_inv_def visible_def pending_def)
qed

lemma flush_total:
  assumes "length (rs_pEntry p) < 2 ^ 40" shows "\<exists>q. rowset_flush mem p = Some q"
  using sort_total [OF assms] by (auto simp: rowset_flush_def)

lemma test_correct:
  assumes "rowset_inv p" and "sqlite3RowSetTest True p b x = Some (r, q)"
  shows "rowset_inv q \<and> rs_iBatch q = b \<and> (r \<longleftrightarrow> x \<in> visible q)
    \<and> visible q = (if b = rs_iBatch p then visible p else visible p \<union> pending p)
    \<and> pending q = (if b = rs_iBatch p then pending p else {})"
proof -
  have iv: "rowset_inv (u\<lparr>rs_iBatch := b\<rparr>) = rowset_inv u" "visible (u\<lparr>rs_iBatch := b\<rparr>) = visible u"
      "pending (u\<lparr>rs_iBatch := b\<rparr>) = pending u" for u
    by (simp_all add: rowset_inv_def visible_def pending_def)
  have tst: "rowset_inv u \<Longrightarrow> list_ex (\<lambda>t. tree_test t x) (rs_pForest u) \<longleftrightarrow> x \<in> visible u" for u
    by (simp add: rowset_inv_def visible_def forest_test)
  show ?thesis
  proof (cases "b \<noteq> rs_iBatch p \<and> rs_pEntry p \<noteq> []")
    case True
    then obtain u where u: "rowset_flush True p = Some u" "q = u\<lparr>rs_iBatch := b\<rparr>"
        "r = list_ex (\<lambda>t. tree_test t x) (rs_pForest q)"
      using assms(2) by (auto simp: sqlite3RowSetTest_def)
    then show ?thesis using flush_correct [OF assms(1) _ u(1)] True tst [of q] by (auto simp: iv)
  next
    case False
    then show ?thesis using assms tst [of q] by (auto simp: sqlite3RowSetTest_def iv pending_def split: if_splits)
  qed
qed

section \<open>Batches\<close>

text \<open>
  The contract of the header comment of \<open>rowset.c\<close>: a test sees the elements inserted before the
  last change of batch number.  The client's view is a history of inserts and tests.
\<close>

datatype rowset_op = Ins i64 | Tst int i64

definition batch_of :: "int \<Rightarrow> rowset_op list \<Rightarrow> int" where
  "batch_of b0 ops = foldl (\<lambda>b op. case op of Tst b' _ \<Rightarrow> b' | Ins _ \<Rightarrow> b) b0 ops"

definition seen :: "int \<Rightarrow> rowset_op list \<Rightarrow> int set" where
  "seen b0 ops = {x. \<exists>xs b y ys. ops = xs @ Tst b y # ys \<and> b \<noteq> batch_of b0 xs \<and> Ins x \<in> set xs}"

fun run_ops :: "('s \<Rightarrow> i64 \<Rightarrow> 's) \<Rightarrow> ('s \<Rightarrow> int \<Rightarrow> i64 \<Rightarrow> (bool \<times> 's) option) \<Rightarrow> 's \<Rightarrow> rowset_op list \<Rightarrow> 's option" where
  "run_ops ins tst s [] = Some s"
| "run_ops ins tst s (Ins x # ops) = run_ops ins tst (ins s x) ops"
| "run_ops ins tst s (Tst b x # ops) = (case tst s b x of None \<Rightarrow> None | Some (_, s) \<Rightarrow> run_ops ins tst s ops)"

lemma batch_of_snoc [simp]: "batch_of b0 [] = b0" "batch_of b0 (ops @ [Ins x]) = batch_of b0 ops"
    "batch_of b0 (ops @ [Tst b x]) = b"
  by (simp_all add: batch_of_def)

lemma run_ops_append: "run_ops ins tst s (xs @ ys) = Option.bind (run_ops ins tst s xs) (\<lambda>s. run_ops ins tst s ys)"
  by (induction ins tst s xs rule: run_ops.induct) (auto split: option.splits)

lemma seen_snoc: "seen b0 [] = {}" "seen b0 (ops @ [Ins x]) = seen b0 ops"
    "seen b0 (ops @ [Tst b y]) =
      (if b = batch_of b0 ops then seen b0 ops else {x. Ins x \<in> set ops})"
proof -
  have sub: "x \<in> seen b0 ops \<Longrightarrow> Ins x \<in> set ops" for x by (auto simp: seen_def)
  have app: "(\<exists>xs b y ys. ops @ [op] = xs @ Tst b y # ys \<and> P xs b) \<longleftrightarrow>
      (\<exists>xs b y ys. ops = xs @ Tst b y # ys \<and> P xs b) \<or> (\<exists>b y. op = Tst b y \<and> P ops b)" for P op
  proof
    assume "\<exists>xs b y ys. ops @ [op] = xs @ Tst b y # ys \<and> P xs b"
    then obtain xs b y ys where e: "ops @ [op] = xs @ Tst b y # ys" "P xs b" by blast
    then show "(\<exists>xs b y ys. ops = xs @ Tst b y # ys \<and> P xs b) \<or> (\<exists>b y. op = Tst b y \<and> P ops b)"
      by (cases ys rule: rev_cases) auto
  next
    assume "(\<exists>xs b y ys. ops = xs @ Tst b y # ys \<and> P xs b) \<or> (\<exists>b y. op = Tst b y \<and> P ops b)"
    then show "\<exists>xs b y ys. ops @ [op] = xs @ Tst b y # ys \<and> P xs b" by fastforce
  qed
  show "seen b0 [] = {}" by (simp add: seen_def)
  show "seen b0 (ops @ [Ins x]) = seen b0 ops"
    using app [of "Ins x" "\<lambda>xs b. b \<noteq> batch_of b0 xs \<and> Ins z \<in> set xs" for z] by (simp add: seen_def)
  show "seen b0 (ops @ [Tst b y]) = (if b = batch_of b0 ops then seen b0 ops else {x. Ins x \<in> set ops})"
    using app [of "Tst b y" "\<lambda>xs b. b \<noteq> batch_of b0 xs \<and> Ins z \<in> set xs" for z] sub
    by (auto simp: seen_def)
qed

locale batched_set =
  fixes ins :: "'s \<Rightarrow> i64 \<Rightarrow> 's"
    and tst :: "'s \<Rightarrow> int \<Rightarrow> i64 \<Rightarrow> (bool \<times> 's) option"
    and vis :: "'s \<Rightarrow> int set"
    and pend :: "'s \<Rightarrow> int set"
    and batch :: "'s \<Rightarrow> int"
    and ok :: "'s \<Rightarrow> bool"
    and load :: "'s \<Rightarrow> nat"
    and cap :: nat
  assumes ins_law: "ok s \<Longrightarrow> ok (ins s x) \<and> vis (ins s x) = vis s \<and> pend (ins s x) = insert x (pend s)
      \<and> batch (ins s x) = batch s \<and> load (ins s x) = load s + 1"
    and tst_law: "ok s \<Longrightarrow> tst s b x = Some (r, s') \<Longrightarrow> ok s' \<and> batch s' = b \<and> (r \<longleftrightarrow> x \<in> vis s')
      \<and> vis s' = (if b = batch s then vis s else vis s \<union> pend s)
      \<and> pend s' = (if b = batch s then pend s else {}) \<and> load s' \<le> load s"
    and tst_total: "ok s \<Longrightarrow> load s < cap \<Longrightarrow> tst s b x \<noteq> None"
begin

definition history :: "'s \<Rightarrow> rowset_op list \<Rightarrow> 's \<Rightarrow> bool" where
  "history s ops s' \<longleftrightarrow> ok s' \<and> batch s' = batch_of (batch s) ops \<and> vis s' = seen (batch s) ops
     \<and> vis s' \<union> pend s' = {x. Ins x \<in> set ops} \<and> load s' \<le> load s + length ops"

lemma run_history:
  assumes "ok s" and "vis s = {}" and "pend s = {}" and "load s + length ops < cap"
  shows "\<exists>s'. run_ops ins tst s ops = Some s' \<and> history s ops s'"
  using assms(4)
proof (induction ops rule: rev_induct)
  case Nil
  then show ?case using assms by (simp add: history_def seen_snoc)
next
  case (snoc op ops)
  then obtain t where t: "run_ops ins tst s ops = Some t" "history s ops t" by auto
  then have h: "ok t" "batch t = batch_of (batch s) ops" "vis t = seen (batch s) ops"
      "vis t \<union> pend t = {x. Ins x \<in> set ops}" "load t \<le> load s + length ops" by (auto simp: history_def)
  show ?case
  proof (cases op)
    case (Ins x)
    then show ?thesis using t ins_law [OF h(1), of x] h by (auto simp: run_ops_append history_def seen_snoc)
  next
    case (Tst b x)
    obtain r u where u: "tst t b x = Some (r, u)"
      using tst_total [OF h(1), of b x] h(5) snoc.prems by auto
    then show ?thesis using t(1) tst_law [OF h(1) u] h Tst
      by (auto simp: run_ops_append history_def seen_snoc)
  qed
qed

lemma test_history:
  assumes "ok s" and "vis s = {}" and "pend s = {}" and "load s + length ops < cap"
  shows "\<exists>s' s'' r. run_ops ins tst s ops = Some s' \<and> tst s' b x = Some (r, s'')
    \<and> (r \<longleftrightarrow> x \<in> seen (batch s) (ops @ [Tst b x]))"
proof -
  obtain t where t: "run_ops ins tst s ops = Some t" "history s ops t" using run_history [OF assms] by blast
  then have h: "ok t" "batch t = batch_of (batch s) ops" "vis t = seen (batch s) ops"
      "vis t \<union> pend t = {x. Ins x \<in> set ops}" "load t < cap" using assms(4) by (auto simp: history_def)
  obtain r u where u: "tst t b x = Some (r, u)" using tst_total [OF h(1,5), of b x] by auto
  then have "r \<longleftrightarrow> x \<in> seen (batch s) (ops @ [Tst b x])"
    using tst_law [OF h(1) u] h by (simp add: seen_snoc)
  then show ?thesis using t(1) u by blast
qed

end

lemma test_load:
  assumes "rowset_inv p" and "sqlite3RowSetTest True p b x = Some (r, q)"
  shows "length (rs_pEntry q) \<le> length (rs_pEntry p)"
  using assms flush_correct [OF assms(1)] by (auto simp: sqlite3RowSetTest_def split: if_splits)

lemma test_total:
  "length (rs_pEntry p) < 2 ^ 40 \<Longrightarrow> sqlite3RowSetTest mem p b x \<noteq> None"
  using flush_total [of p mem] by (auto simp: sqlite3RowSetTest_def)

interpretation rowset: batched_set "sqlite3RowSetInsert True" "sqlite3RowSetTest True" visible pending
    rs_iBatch rowset_inv "\<lambda>p. length (rs_pEntry p)" "2 ^ 40"
proof unfold_locales
  fix p x assume "rowset_inv p"
  then show "rowset_inv (sqlite3RowSetInsert True p x) \<and> visible (sqlite3RowSetInsert True p x) = visible p
    \<and> pending (sqlite3RowSetInsert True p x) = insert x (pending p)
    \<and> rs_iBatch (sqlite3RowSetInsert True p x) = rs_iBatch p
    \<and> length (rs_pEntry (sqlite3RowSetInsert True p x)) = length (rs_pEntry p) + 1"
    using insert_correct [OF _ alloc_mem, of p x] by blast
next
  fix p b x r q assume "rowset_inv p" "sqlite3RowSetTest True p b x = Some (r, q)"
  then show "rowset_inv q \<and> rs_iBatch q = b \<and> (r \<longleftrightarrow> x \<in> visible q)
    \<and> visible q = (if b = rs_iBatch p then visible p else visible p \<union> pending p)
    \<and> pending q = (if b = rs_iBatch p then pending p else {}) \<and> length (rs_pEntry q) \<le> length (rs_pEntry p)"
    using test_correct test_load by blast
next
  fix p :: rowset and b x assume "length (rs_pEntry p) < 2 ^ 40"
  then show "sqlite3RowSetTest True p b x \<noteq> None" by (rule test_total)
qed

section \<open>Extraction\<close>

fun drain :: "nat \<Rightarrow> rowset \<Rightarrow> i64 option list" where
  "drain 0 p = []"
| "drain (Suc n) p = (case sqlite3RowSetNext p of None \<Rightarrow> [] | Some (v, p) \<Rightarrow> v # drain n p)"

lemma next_walk:
  "rs_next p \<Longrightarrow> sqlite3RowSetNext p =
     Some (case rs_pEntry p of [] \<Rightarrow> (None, p)
       | v # e \<Rightarrow> (Some v, if e = [] then sqlite3RowSetClear p else p\<lparr>rs_pEntry := e\<rparr>))"
  by (auto simp: sqlite3RowSetNext_def Let_def sqlite3RowSetClear_def split: list.splits)

lemma next_cleared: "rs_sorted p \<Longrightarrow> rs_pEntry p = [] \<Longrightarrow> drain 1 p = [None]"
  by (simp add: sqlite3RowSetNext_def Let_def)

lemma drain_walk:
  "rs_next p \<Longrightarrow> rs_sorted p \<Longrightarrow> drain (Suc (length (rs_pEntry p))) p = map Some (rs_pEntry p) @ [None]"
proof (induction "rs_pEntry p" arbitrary: p)
  case Nil
  then show ?case using next_cleared [of p] by simp
next
  case (Cons v e)
  then have n: "sqlite3RowSetNext p = Some (Some v, if e = [] then sqlite3RowSetClear p else p\<lparr>rs_pEntry := e\<rparr>)"
    using next_walk [of p] unfolding Cons(2) [symmetric] by simp
  show ?case
  proof (cases "e = []")
    case True
    have "drain 1 (sqlite3RowSetClear p) = [None]" by (rule next_cleared) (simp_all add: sqlite3RowSetClear_def)
    then show ?thesis using Cons(2) [symmetric] n True by simp
  next
    case False
    have "drain (Suc (length e)) (p\<lparr>rs_pEntry := e\<rparr>) = map Some e @ [None]"
      using Cons(1) [of "p\<lparr>rs_pEntry := e\<rparr>"] Cons(3,4) by simp
    then show ?thesis using Cons(2) [symmetric] n False by simp
  qed
qed

lemma drain_sorted:
  assumes "rowset_inv p" and "length (rs_pEntry p) < 2 ^ 40"
  shows "drain (Suc (card (pending p))) p = map Some (sorted_list_of_set (pending p)) @ [None]"
proof -
  obtain e where e: "(if rs_sorted p then Some (rs_pEntry p) else rowSetEntrySort (rs_pEntry p)) = Some e"
    using sort_total [OF assms(2)] by (cases "rs_sorted p") auto
  then have s: "strict e" "set e = pending p"
    using assms(1) sort_sound [of "rs_pEntry p" e] by (auto simp: rowset_inv_def pending_def split: if_splits)
  have l: "sorted_list_of_set (pending p) = e"
    using strict_unique [of "sorted_list_of_set (pending p)" e] s
    by (metis List.finite_set set_sorted_list_of_set strict_def strict_sorted_list_of_set)
  then have c: "card (pending p) = length e" by (metis length_sorted_list_of_set)
  define q where "q = p\<lparr>rs_pEntry := e, rs_sorted := True, rs_next := True\<rparr>"
  have "\<not> rs_next p" using assms(1) by (simp add: rowset_inv_def)
  then have "sqlite3RowSetNext p = sqlite3RowSetNext q"
    using e by (auto simp: sqlite3RowSetNext_def q_def Let_def split: if_splits)
  then have "drain (Suc n) p = drain (Suc n) q" for n by simp
  moreover have "drain (Suc (length e)) q = map Some e @ [None]" using drain_walk [of q] by (simp add: q_def)
  ultimately show ?thesis by (simp only: l c)
qed

lemma inserts_correct:
  assumes "rowset_inv p"
  shows "rowset_inv (foldl (sqlite3RowSetInsert True) p xs)
    \<and> pending (foldl (sqlite3RowSetInsert True) p xs) = pending p \<union> set xs
    \<and> length (rs_pEntry (foldl (sqlite3RowSetInsert True) p xs)) = length (rs_pEntry p) + length xs"
  using assms
proof (induction xs arbitrary: p)
  case (Cons x xs)
  then show ?case using insert_correct [OF Cons.prems alloc_mem, of x] by auto
qed simp

text \<open>C13. After any history of fewer than $2^{40}$ inserts and tests on a new rowset, a test with batch
  number \<open>b\<close> answers whether the rowid was inserted before the last change of batch number (counting
  the change this very test makes): exactly the contract of the header comment.\<close>
theorem rowset_test_sees_batches:
  assumes "sqlite3RowSetInit block = Some p" and "length ops < 2 ^ 40"
  shows "\<exists>q r q'. run_ops (sqlite3RowSetInsert True) (sqlite3RowSetTest True) p ops = Some q
    \<and> sqlite3RowSetTest True q iBatch iRowid = Some (r, q')
    \<and> (r \<longleftrightarrow> iRowid \<in> seen 0 (ops @ [Tst iBatch iRowid]))"
proof -
  note i = init_inv [OF assms(1)]
  then have "rs_pEntry p = []" by (simp add: pending_def)
  with rowset.test_history [of p ops iBatch iRowid] i assms(2) show ?thesis by (auto 0 3)
qed

lemma rowset_test_sees_batches_witness:
  "\<exists>p q r q'. sqlite3RowSetInit (Some (100 :: nat)) = Some p
    \<and> run_ops (sqlite3RowSetInsert True) (sqlite3RowSetTest True) p [Ins 7, Ins 3, Tst 1 7, Ins 9] = Some q
    \<and> sqlite3RowSetTest True q 1 9 = Some (r, q')
    \<and> (r \<longleftrightarrow> 9 \<in> seen 0 ([Ins 7, Ins 3, Tst 1 7, Ins 9] @ [Tst 1 9]))"
proof -
  obtain p where p: "sqlite3RowSetInit (Some (100 :: nat)) = Some p" by (simp add: sqlite3RowSetInit_def)
  have "length [Ins 7, Ins 3, Tst 1 7, Ins 9] < 2 ^ 40" by simp
  from rowset_test_sees_batches [OF p this, of 1 9] p show ?thesis by blast
qed

text \<open>C28. After fewer than $2^{40}$ inserts in any order, successive extractions return the distinct
  inserted rowids in increasing order, each once, and then report that the set is empty.\<close>
theorem rowset_next_ascending:
  assumes "sqlite3RowSetInit block = Some p" and "length xs < 2 ^ 40"
  shows "drain (Suc (card (set xs))) (foldl (sqlite3RowSetInsert True) p xs)
    = map Some (sorted_list_of_set (set xs)) @ [None]"
proof -
  note i = init_inv [OF assms(1)]
  then have "rs_pEntry p = []" by (simp add: pending_def)
  then show ?thesis
    using drain_sorted [of "foldl (sqlite3RowSetInsert True) p xs"] inserts_correct [of p xs] i assms(2) by simp
qed

lemma rowset_small: "length [5, 2, 5, 9 :: int] < 2 ^ 40"
  by simp

lemma rowset_next_ascending_witness:
  "\<exists>p. sqlite3RowSetInit (Some (100 :: nat)) = Some p \<and>
     drain (Suc (card {5, 2, 9 :: int})) (foldl (sqlite3RowSetInsert True) p [5, 2, 5, 9]) = map Some (sorted_list_of_set {5, 2, 9}) @ [None]"
proof -
  obtain p where p: "sqlite3RowSetInit (Some (100 :: nat)) = Some p" by (simp add: sqlite3RowSetInit_def)
  moreover have "set [5, 2, 5, 9] = {5, 2, 9 :: int}" by auto
  ultimately show ?thesis using rowset_next_ascending [OF p rowset_small] by (metis (no_types))
qed

end
