(* ===== verification/Keywords.thy ===== *)
theory Keywords
  imports CString
begin

text \<open>
  The keyword recogniser (\<open>keywordhash.h\<close> inside \<open>tokenize.c\<close>): the keywords overlap in one text, a
  minimal perfect-like hash with collision chains finds the candidate, and the text is compared.  The
  token codes are the \<open>TK_\<close> numbers of \<open>parse.h\<close>.
\<close>

section \<open>Token codes\<close>

definition TK_SEMI :: nat where "TK_SEMI = 1"
definition TK_EXPLAIN :: nat where "TK_EXPLAIN = 2"
definition TK_QUERY :: nat where "TK_QUERY = 3"
definition TK_PLAN :: nat where "TK_PLAN = 4"
definition TK_BEGIN :: nat where "TK_BEGIN = 5"
definition TK_TRANSACTION :: nat where "TK_TRANSACTION = 6"
definition TK_DEFERRED :: nat where "TK_DEFERRED = 7"
definition TK_IMMEDIATE :: nat where "TK_IMMEDIATE = 8"
definition TK_EXCLUSIVE :: nat where "TK_EXCLUSIVE = 9"
definition TK_COMMIT :: nat where "TK_COMMIT = 10"
definition TK_END :: nat where "TK_END = 11"
definition TK_ROLLBACK :: nat where "TK_ROLLBACK = 12"
definition TK_SAVEPOINT :: nat where "TK_SAVEPOINT = 13"
definition TK_RELEASE :: nat where "TK_RELEASE = 14"
definition TK_TO :: nat where "TK_TO = 15"
definition TK_TABLE :: nat where "TK_TABLE = 16"
definition TK_CREATE :: nat where "TK_CREATE = 17"
definition TK_IF :: nat where "TK_IF = 18"
definition TK_NOT :: nat where "TK_NOT = 19"
definition TK_EXISTS :: nat where "TK_EXISTS = 20"
definition TK_TEMP :: nat where "TK_TEMP = 21"
definition TK_LP :: nat where "TK_LP = 22"
definition TK_RP :: nat where "TK_RP = 23"
definition TK_AS :: nat where "TK_AS = 24"
definition TK_COMMA :: nat where "TK_COMMA = 25"
definition TK_WITHOUT :: nat where "TK_WITHOUT = 26"
definition TK_ABORT :: nat where "TK_ABORT = 27"
definition TK_ACTION :: nat where "TK_ACTION = 28"
definition TK_AFTER :: nat where "TK_AFTER = 29"
definition TK_ANALYZE :: nat where "TK_ANALYZE = 30"
definition TK_ASC :: nat where "TK_ASC = 31"
definition TK_ATTACH :: nat where "TK_ATTACH = 32"
definition TK_BEFORE :: nat where "TK_BEFORE = 33"
definition TK_BY :: nat where "TK_BY = 34"
definition TK_CASCADE :: nat where "TK_CASCADE = 35"
definition TK_CAST :: nat where "TK_CAST = 36"
definition TK_CONFLICT :: nat where "TK_CONFLICT = 37"
definition TK_DATABASE :: nat where "TK_DATABASE = 38"
definition TK_DESC :: nat where "TK_DESC = 39"
definition TK_DETACH :: nat where "TK_DETACH = 40"
definition TK_EACH :: nat where "TK_EACH = 41"
definition TK_FAIL :: nat where "TK_FAIL = 42"
definition TK_OR :: nat where "TK_OR = 43"
definition TK_AND :: nat where "TK_AND = 44"
definition TK_IS :: nat where "TK_IS = 45"
definition TK_ISNOT :: nat where "TK_ISNOT = 46"
definition TK_MATCH :: nat where "TK_MATCH = 47"
definition TK_LIKE_KW :: nat where "TK_LIKE_KW = 48"
definition TK_BETWEEN :: nat where "TK_BETWEEN = 49"
definition TK_IN :: nat where "TK_IN = 50"
definition TK_ISNULL :: nat where "TK_ISNULL = 51"
definition TK_NOTNULL :: nat where "TK_NOTNULL = 52"
definition TK_NE :: nat where "TK_NE = 53"
definition TK_EQ :: nat where "TK_EQ = 54"
definition TK_GT :: nat where "TK_GT = 55"
definition TK_LE :: nat where "TK_LE = 56"
definition TK_LT :: nat where "TK_LT = 57"
definition TK_GE :: nat where "TK_GE = 58"
definition TK_ESCAPE :: nat where "TK_ESCAPE = 59"
definition TK_ID :: nat where "TK_ID = 60"
definition TK_COLUMNKW :: nat where "TK_COLUMNKW = 61"
definition TK_DO :: nat where "TK_DO = 62"
definition TK_FOR :: nat where "TK_FOR = 63"
definition TK_IGNORE :: nat where "TK_IGNORE = 64"
definition TK_INITIALLY :: nat where "TK_INITIALLY = 65"
definition TK_INSTEAD :: nat where "TK_INSTEAD = 66"
definition TK_NO :: nat where "TK_NO = 67"
definition TK_KEY :: nat where "TK_KEY = 68"
definition TK_OF :: nat where "TK_OF = 69"
definition TK_OFFSET :: nat where "TK_OFFSET = 70"
definition TK_PRAGMA :: nat where "TK_PRAGMA = 71"
definition TK_RAISE :: nat where "TK_RAISE = 72"
definition TK_RECURSIVE :: nat where "TK_RECURSIVE = 73"
definition TK_REPLACE :: nat where "TK_REPLACE = 74"
definition TK_RESTRICT :: nat where "TK_RESTRICT = 75"
definition TK_ROW :: nat where "TK_ROW = 76"
definition TK_ROWS :: nat where "TK_ROWS = 77"
definition TK_TRIGGER :: nat where "TK_TRIGGER = 78"
definition TK_VACUUM :: nat where "TK_VACUUM = 79"
definition TK_VIEW :: nat where "TK_VIEW = 80"
definition TK_VIRTUAL :: nat where "TK_VIRTUAL = 81"
definition TK_WITH :: nat where "TK_WITH = 82"
definition TK_NULLS :: nat where "TK_NULLS = 83"
definition TK_FIRST :: nat where "TK_FIRST = 84"
definition TK_LAST :: nat where "TK_LAST = 85"
definition TK_CURRENT :: nat where "TK_CURRENT = 86"
definition TK_FOLLOWING :: nat where "TK_FOLLOWING = 87"
definition TK_PARTITION :: nat where "TK_PARTITION = 88"
definition TK_PRECEDING :: nat where "TK_PRECEDING = 89"
definition TK_RANGE :: nat where "TK_RANGE = 90"
definition TK_UNBOUNDED :: nat where "TK_UNBOUNDED = 91"
definition TK_EXCLUDE :: nat where "TK_EXCLUDE = 92"
definition TK_GROUPS :: nat where "TK_GROUPS = 93"
definition TK_OTHERS :: nat where "TK_OTHERS = 94"
definition TK_TIES :: nat where "TK_TIES = 95"
definition TK_GENERATED :: nat where "TK_GENERATED = 96"
definition TK_ALWAYS :: nat where "TK_ALWAYS = 97"
definition TK_MATERIALIZED :: nat where "TK_MATERIALIZED = 98"
definition TK_REINDEX :: nat where "TK_REINDEX = 99"
definition TK_RENAME :: nat where "TK_RENAME = 100"
definition TK_CTIME_KW :: nat where "TK_CTIME_KW = 101"
definition TK_ANY :: nat where "TK_ANY = 102"
definition TK_BITAND :: nat where "TK_BITAND = 103"
definition TK_BITOR :: nat where "TK_BITOR = 104"
definition TK_LSHIFT :: nat where "TK_LSHIFT = 105"
definition TK_RSHIFT :: nat where "TK_RSHIFT = 106"
definition TK_PLUS :: nat where "TK_PLUS = 107"
definition TK_MINUS :: nat where "TK_MINUS = 108"
definition TK_STAR :: nat where "TK_STAR = 109"
definition TK_SLASH :: nat where "TK_SLASH = 110"
definition TK_REM :: nat where "TK_REM = 111"
definition TK_CONCAT :: nat where "TK_CONCAT = 112"
definition TK_PTR :: nat where "TK_PTR = 113"
definition TK_COLLATE :: nat where "TK_COLLATE = 114"
definition TK_BITNOT :: nat where "TK_BITNOT = 115"
definition TK_ON :: nat where "TK_ON = 116"
definition TK_INDEXED :: nat where "TK_INDEXED = 117"
definition TK_STRING :: nat where "TK_STRING = 118"
definition TK_JOIN_KW :: nat where "TK_JOIN_KW = 119"
definition TK_CONSTRAINT :: nat where "TK_CONSTRAINT = 120"
definition TK_DEFAULT :: nat where "TK_DEFAULT = 121"
definition TK_NULL :: nat where "TK_NULL = 122"
definition TK_PRIMARY :: nat where "TK_PRIMARY = 123"
definition TK_UNIQUE :: nat where "TK_UNIQUE = 124"
definition TK_CHECK :: nat where "TK_CHECK = 125"
definition TK_REFERENCES :: nat where "TK_REFERENCES = 126"
definition TK_AUTOINCR :: nat where "TK_AUTOINCR = 127"
definition TK_INSERT :: nat where "TK_INSERT = 128"
definition TK_DELETE :: nat where "TK_DELETE = 129"
definition TK_UPDATE :: nat where "TK_UPDATE = 130"
definition TK_SET :: nat where "TK_SET = 131"
definition TK_DEFERRABLE :: nat where "TK_DEFERRABLE = 132"
definition TK_FOREIGN :: nat where "TK_FOREIGN = 133"
definition TK_DROP :: nat where "TK_DROP = 134"
definition TK_UNION :: nat where "TK_UNION = 135"
definition TK_ALL :: nat where "TK_ALL = 136"
definition TK_EXCEPT :: nat where "TK_EXCEPT = 137"
definition TK_INTERSECT :: nat where "TK_INTERSECT = 138"
definition TK_SELECT :: nat where "TK_SELECT = 139"
definition TK_VALUES :: nat where "TK_VALUES = 140"
definition TK_DISTINCT :: nat where "TK_DISTINCT = 141"
definition TK_DOT :: nat where "TK_DOT = 142"
definition TK_FROM :: nat where "TK_FROM = 143"
definition TK_JOIN :: nat where "TK_JOIN = 144"
definition TK_USING :: nat where "TK_USING = 145"
definition TK_ORDER :: nat where "TK_ORDER = 146"
definition TK_GROUP :: nat where "TK_GROUP = 147"
definition TK_HAVING :: nat where "TK_HAVING = 148"
definition TK_LIMIT :: nat where "TK_LIMIT = 149"
definition TK_WHERE :: nat where "TK_WHERE = 150"
definition TK_RETURNING :: nat where "TK_RETURNING = 151"
definition TK_INTO :: nat where "TK_INTO = 152"
definition TK_NOTHING :: nat where "TK_NOTHING = 153"
definition TK_FLOAT :: nat where "TK_FLOAT = 154"
definition TK_BLOB :: nat where "TK_BLOB = 155"
definition TK_INTEGER :: nat where "TK_INTEGER = 156"
definition TK_VARIABLE :: nat where "TK_VARIABLE = 157"
definition TK_CASE :: nat where "TK_CASE = 158"
definition TK_WHEN :: nat where "TK_WHEN = 159"
definition TK_THEN :: nat where "TK_THEN = 160"
definition TK_ELSE :: nat where "TK_ELSE = 161"
definition TK_INDEX :: nat where "TK_INDEX = 162"
definition TK_ALTER :: nat where "TK_ALTER = 163"
definition TK_ADD :: nat where "TK_ADD = 164"
definition TK_WINDOW :: nat where "TK_WINDOW = 165"
definition TK_OVER :: nat where "TK_OVER = 166"
definition TK_FILTER :: nat where "TK_FILTER = 167"
definition TK_COLUMN :: nat where "TK_COLUMN = 168"
definition TK_AGG_FUNCTION :: nat where "TK_AGG_FUNCTION = 169"
definition TK_AGG_COLUMN :: nat where "TK_AGG_COLUMN = 170"
definition TK_TRUEFALSE :: nat where "TK_TRUEFALSE = 171"
definition TK_FUNCTION :: nat where "TK_FUNCTION = 172"
definition TK_UPLUS :: nat where "TK_UPLUS = 173"
definition TK_UMINUS :: nat where "TK_UMINUS = 174"
definition TK_TRUTH :: nat where "TK_TRUTH = 175"
definition TK_REGISTER :: nat where "TK_REGISTER = 176"
definition TK_VECTOR :: nat where "TK_VECTOR = 177"
definition TK_SELECT_COLUMN :: nat where "TK_SELECT_COLUMN = 178"
definition TK_IF_NULL_ROW :: nat where "TK_IF_NULL_ROW = 179"
definition TK_ASTERISK :: nat where "TK_ASTERISK = 180"
definition TK_SPAN :: nat where "TK_SPAN = 181"
definition TK_ERROR :: nat where "TK_ERROR = 182"
definition TK_QNUMBER :: nat where "TK_QNUMBER = 183"
definition TK_SPACE :: nat where "TK_SPACE = 184"
definition TK_COMMENT :: nat where "TK_COMMENT = 185"
definition TK_ILLEGAL :: nat where "TK_ILLEGAL = 186"

lemmas TK_defs =
  TK_SEMI_def TK_EXPLAIN_def TK_QUERY_def TK_PLAN_def TK_BEGIN_def TK_TRANSACTION_def
  TK_DEFERRED_def TK_IMMEDIATE_def TK_EXCLUSIVE_def TK_COMMIT_def TK_END_def TK_ROLLBACK_def
  TK_SAVEPOINT_def TK_RELEASE_def TK_TO_def TK_TABLE_def TK_CREATE_def TK_IF_def TK_NOT_def
  TK_EXISTS_def TK_TEMP_def TK_LP_def TK_RP_def TK_AS_def TK_COMMA_def TK_WITHOUT_def
  TK_ABORT_def TK_ACTION_def TK_AFTER_def TK_ANALYZE_def TK_ASC_def TK_ATTACH_def TK_BEFORE_def
  TK_BY_def TK_CASCADE_def TK_CAST_def TK_CONFLICT_def TK_DATABASE_def TK_DESC_def TK_DETACH_def
  TK_EACH_def TK_FAIL_def TK_OR_def TK_AND_def TK_IS_def TK_ISNOT_def TK_MATCH_def
  TK_LIKE_KW_def TK_BETWEEN_def TK_IN_def TK_ISNULL_def TK_NOTNULL_def TK_NE_def TK_EQ_def
  TK_GT_def TK_LE_def TK_LT_def TK_GE_def TK_ESCAPE_def TK_ID_def TK_COLUMNKW_def TK_DO_def
  TK_FOR_def TK_IGNORE_def TK_INITIALLY_def TK_INSTEAD_def TK_NO_def TK_KEY_def TK_OF_def
  TK_OFFSET_def TK_PRAGMA_def TK_RAISE_def TK_RECURSIVE_def TK_REPLACE_def TK_RESTRICT_def
  TK_ROW_def TK_ROWS_def TK_TRIGGER_def TK_VACUUM_def TK_VIEW_def TK_VIRTUAL_def TK_WITH_def
  TK_NULLS_def TK_FIRST_def TK_LAST_def TK_CURRENT_def TK_FOLLOWING_def TK_PARTITION_def
  TK_PRECEDING_def TK_RANGE_def TK_UNBOUNDED_def TK_EXCLUDE_def TK_GROUPS_def TK_OTHERS_def
  TK_TIES_def TK_GENERATED_def TK_ALWAYS_def TK_MATERIALIZED_def TK_REINDEX_def TK_RENAME_def
  TK_CTIME_KW_def TK_ANY_def TK_BITAND_def TK_BITOR_def TK_LSHIFT_def TK_RSHIFT_def TK_PLUS_def
  TK_MINUS_def TK_STAR_def TK_SLASH_def TK_REM_def TK_CONCAT_def TK_PTR_def TK_COLLATE_def
  TK_BITNOT_def TK_ON_def TK_INDEXED_def TK_STRING_def TK_JOIN_KW_def TK_CONSTRAINT_def
  TK_DEFAULT_def TK_NULL_def TK_PRIMARY_def TK_UNIQUE_def TK_CHECK_def TK_REFERENCES_def
  TK_AUTOINCR_def TK_INSERT_def TK_DELETE_def TK_UPDATE_def TK_SET_def TK_DEFERRABLE_def
  TK_FOREIGN_def TK_DROP_def TK_UNION_def TK_ALL_def TK_EXCEPT_def TK_INTERSECT_def TK_SELECT_def
  TK_VALUES_def TK_DISTINCT_def TK_DOT_def TK_FROM_def TK_JOIN_def TK_USING_def TK_ORDER_def
  TK_GROUP_def TK_HAVING_def TK_LIMIT_def TK_WHERE_def TK_RETURNING_def TK_INTO_def
  TK_NOTHING_def TK_FLOAT_def TK_BLOB_def TK_INTEGER_def TK_VARIABLE_def TK_CASE_def TK_WHEN_def
  TK_THEN_def TK_ELSE_def TK_INDEX_def TK_ALTER_def TK_ADD_def TK_WINDOW_def TK_OVER_def
  TK_FILTER_def TK_COLUMN_def TK_AGG_FUNCTION_def TK_AGG_COLUMN_def TK_TRUEFALSE_def
  TK_FUNCTION_def TK_UPLUS_def TK_UMINUS_def TK_TRUTH_def TK_REGISTER_def TK_VECTOR_def
  TK_SELECT_COLUMN_def TK_IF_NULL_ROW_def TK_ASTERISK_def TK_SPAN_def TK_ERROR_def TK_QNUMBER_def
  TK_SPACE_def TK_COMMENT_def TK_ILLEGAL_def

text \<open>Zero: no fallback; otherwise the code of \<open>ID\<close>.\<close>

definition yyFallback :: "nat list" where
  "yyFallback =
    [0, 0, 60, 60, 60, 60, 0, 60, 60, 60, 0, 60, 60, 60, 60, 0, 0, 0, 60, 0, 0, 60, 0, 0, 0, 0, 60, 60, 60,
     60, 60, 60, 60, 60, 60, 60, 60, 60, 60, 60, 60, 60, 60, 0, 0, 0, 0, 60, 60, 0, 0, 0, 0, 0, 0, 0, 0, 0,
     0, 0, 0, 60, 60, 60, 60, 60, 60, 60, 60, 60, 60, 60, 60, 60, 60, 60, 60, 60, 60, 60, 60, 60, 60, 60, 60,
     60, 60, 60, 60, 60, 60, 60, 60, 60, 60, 60, 60, 60, 60, 60, 60, 60, 0, 0, 0, 0, 0, 0, 0, 0, 0, 0, 0, 0,
     0, 0, 0, 0, 0, 0, 0, 0, 0, 0, 0, 0, 0, 0, 0, 0, 0, 0, 0, 0, 0, 0, 0, 0, 0, 0, 0, 0, 0, 0, 0, 0, 0, 0, 0,
     0, 0, 0, 0, 0, 0, 0, 0, 0, 0, 0, 0, 0, 0, 0, 0, 0, 0, 0, 0, 0, 0, 0, 0, 0, 0, 0, 0, 0, 0, 0, 0, 0, 0, 0,
     0, 0, 0]"

definition sqlite3ParserFallback :: "nat \<Rightarrow> nat" where
  "sqlite3ParserFallback iToken = yyFallback ! iToken"

section \<open>The tables\<close>

definition keyword_text :: string where
  "keyword_text =
    ''REINDEXEDESCAPEACHECKEYBEFOREIGNOREGEXPLAINSTEADDATABASELECTABLEFTHEND'' @
     ''EFERRABLELSEXCLUDELETEMPORARYISNULLSAVEPOINTERSECTIESNOTNULLIKEXCEPTRA'' @
     ''NSACTIONATURALTERAISEXCLUSIVEXISTSCONSTRAINTOFFSETRIGGERANGENERATEDETA'' @
     ''CHAVINGLOBEGINNEREFERENCESUNIQUERYWITHOUTERELEASEATTACHBETWEENOTHINGRO'' @
     ''UPSCASCADEFAULTCASECOLLATECREATECURRENT_DATEIMMEDIATEJOINSERTMATCHPLAN'' @
     ''ALYZEPRAGMATERIALIZEDEFERREDISTINCTUPDATEVALUESVIRTUALWAYSWHENWHERECUR'' @
     ''SIVEABORTAFTERENAMEANDROPARTITIONAUTOINCREMENTCASTCOLUMNCOMMITCONFLICT'' @
     ''CROSSCURRENT_TIMESTAMPRECEDINGFAILASTFILTEREPLACEFIRSTFOLLOWINGFROMFUL'' @
     ''LIMITIFORDERESTRICTOTHERSOVERETURNINGRIGHTROLLBACKROWSUNBOUNDEDUNIONUS'' @
     ''INGVACUUMVIEWINDOWBYINITIALLYPRIMARY''"

definition zKWText :: bytes where
  "zKWText = map of_char keyword_text"

definition aKWHash :: "nat list" where
  "aKWHash =
    [84, 92, 134, 82, 105, 29, 0, 0, 94, 0, 85, 72, 0, 53, 35, 86, 15, 0, 42, 97, 54, 89, 135, 19, 0, 0, 140,
     0, 40, 129, 0, 22, 107, 0, 9, 0, 0, 123, 80, 0, 78, 6, 0, 65, 103, 147, 0, 136, 115, 0, 0, 48, 0, 90,
     24, 0, 17, 0, 27, 70, 23, 26, 5, 60, 142, 110, 122, 0, 73, 91, 71, 145, 61, 120, 74, 0, 49, 0, 11, 41,
     0, 113, 0, 0, 0, 109, 10, 111, 116, 125, 14, 50, 124, 0, 100, 0, 18, 121, 144, 56, 130, 139, 88, 83, 37,
     30, 126, 0, 0, 108, 51, 131, 128, 0, 34, 0, 0, 132, 0, 98, 38, 39, 0, 20, 45, 117, 93]"

definition aKWNext :: "nat list" where
  "aKWNext =
    [0, 0, 0, 0, 0, 4, 0, 43, 0, 0, 106, 114, 0, 0, 0, 2, 0, 0, 143, 0, 0, 0, 13, 0, 0, 0, 0, 141, 0, 0, 119,
     52, 0, 0, 137, 12, 0, 0, 62, 0, 138, 0, 133, 0, 0, 36, 0, 0, 28, 77, 0, 0, 0, 0, 59, 0, 47, 0, 0, 0, 0,
     0, 0, 0, 0, 0, 0, 69, 0, 0, 0, 0, 0, 146, 3, 0, 58, 0, 1, 75, 0, 0, 0, 31, 0, 0, 0, 0, 0, 127, 0, 104,
     0, 64, 66, 63, 0, 0, 0, 0, 0, 46, 0, 16, 8, 0, 0, 0, 0, 0, 0, 0, 0, 0, 0, 81, 101, 0, 112, 21, 7, 67, 0,
     79, 96, 118, 0, 0, 68, 0, 0, 99, 44, 0, 55, 0, 76, 0, 95, 32, 33, 57, 25, 0, 102, 0, 0, 87]"

definition aKWLen :: "nat list" where
  "aKWLen =
    [0, 7, 7, 5, 4, 6, 4, 5, 3, 6, 7, 3, 6, 6, 7, 7, 3, 8, 2, 6, 5, 4, 4, 3, 10, 4, 7, 6, 9, 4, 2, 6, 5, 9,
     9, 4, 7, 3, 2, 4, 4, 6, 11, 6, 2, 7, 5, 5, 9, 6, 10, 4, 6, 2, 3, 7, 5, 9, 6, 6, 4, 5, 5, 10, 6, 5, 7, 4,
     5, 7, 6, 7, 7, 6, 5, 7, 3, 7, 4, 7, 6, 12, 9, 4, 6, 5, 4, 7, 6, 12, 8, 8, 2, 6, 6, 7, 6, 4, 5, 9, 5, 5,
     6, 3, 4, 9, 13, 2, 2, 4, 6, 6, 8, 5, 17, 12, 7, 9, 4, 4, 6, 7, 5, 9, 4, 4, 5, 2, 5, 8, 6, 4, 9, 5, 8, 4,
     3, 9, 5, 5, 6, 4, 6, 2, 2, 9, 3, 7]"

definition aKWOffset :: "nat list" where
  "aKWOffset =
    [0, 0, 2, 2, 8, 9, 14, 16, 20, 23, 25, 25, 29, 33, 36, 41, 46, 48, 53, 54, 59, 62, 65, 67, 69, 78, 81,
     86, 90, 90, 94, 99, 101, 105, 111, 119, 123, 123, 123, 126, 129, 132, 137, 142, 146, 147, 152, 156, 160,
     168, 174, 181, 184, 184, 187, 189, 195, 198, 206, 211, 216, 219, 222, 226, 236, 239, 244, 244, 248, 252,
     259, 265, 271, 277, 277, 283, 284, 288, 295, 299, 306, 312, 324, 333, 335, 341, 346, 348, 355, 359, 370,
     377, 378, 385, 391, 397, 402, 408, 412, 415, 424, 429, 433, 439, 441, 444, 453, 455, 457, 466, 470, 476,
     482, 490, 495, 495, 495, 511, 520, 523, 527, 532, 539, 544, 553, 557, 560, 565, 567, 571, 579, 585, 588,
     597, 602, 610, 610, 614, 623, 628, 633, 639, 642, 645, 648, 650, 655, 659]"

definition aKWCode :: "nat list" where
  "aKWCode =
    [0, TK_REINDEX, TK_INDEXED, TK_INDEX, TK_DESC, TK_ESCAPE, TK_EACH, TK_CHECK, TK_KEY, TK_BEFORE,
     TK_FOREIGN, TK_FOR, TK_IGNORE, TK_LIKE_KW, TK_EXPLAIN, TK_INSTEAD, TK_ADD, TK_DATABASE, TK_AS,
     TK_SELECT, TK_TABLE, TK_JOIN_KW, TK_THEN, TK_END, TK_DEFERRABLE, TK_ELSE, TK_EXCLUDE, TK_DELETE,
     TK_TEMP, TK_TEMP, TK_OR, TK_ISNULL, TK_NULLS, TK_SAVEPOINT, TK_INTERSECT, TK_TIES, TK_NOTNULL, TK_NOT,
     TK_NO, TK_NULL, TK_LIKE_KW, TK_EXCEPT, TK_TRANSACTION, TK_ACTION, TK_ON, TK_JOIN_KW, TK_ALTER, TK_RAISE,
     TK_EXCLUSIVE, TK_EXISTS, TK_CONSTRAINT, TK_INTO, TK_OFFSET, TK_OF, TK_SET, TK_TRIGGER, TK_RANGE,
     TK_GENERATED, TK_DETACH, TK_HAVING, TK_LIKE_KW, TK_BEGIN, TK_JOIN_KW, TK_REFERENCES, TK_UNIQUE,
     TK_QUERY, TK_WITHOUT, TK_WITH, TK_JOIN_KW, TK_RELEASE, TK_ATTACH, TK_BETWEEN, TK_NOTHING, TK_GROUPS,
     TK_GROUP, TK_CASCADE, TK_ASC, TK_DEFAULT, TK_CASE, TK_COLLATE, TK_CREATE, TK_CTIME_KW, TK_IMMEDIATE,
     TK_JOIN, TK_INSERT, TK_MATCH, TK_PLAN, TK_ANALYZE, TK_PRAGMA, TK_MATERIALIZED, TK_DEFERRED, TK_DISTINCT,
     TK_IS, TK_UPDATE, TK_VALUES, TK_VIRTUAL, TK_ALWAYS, TK_WHEN, TK_WHERE, TK_RECURSIVE, TK_ABORT, TK_AFTER,
     TK_RENAME, TK_AND, TK_DROP, TK_PARTITION, TK_AUTOINCR, TK_TO, TK_IN, TK_CAST, TK_COLUMNKW, TK_COMMIT,
     TK_CONFLICT, TK_JOIN_KW, TK_CTIME_KW, TK_CTIME_KW, TK_CURRENT, TK_PRECEDING, TK_FAIL, TK_LAST,
     TK_FILTER, TK_REPLACE, TK_FIRST, TK_FOLLOWING, TK_FROM, TK_JOIN_KW, TK_LIMIT, TK_IF, TK_ORDER,
     TK_RESTRICT, TK_OTHERS, TK_OVER, TK_RETURNING, TK_JOIN_KW, TK_ROLLBACK, TK_ROWS, TK_ROW, TK_UNBOUNDED,
     TK_UNION, TK_USING, TK_VACUUM, TK_VIEW, TK_WINDOW, TK_DO, TK_BY, TK_INITIALLY, TK_ALL, TK_PRIMARY]"

section \<open>The search\<close>

definition charMap :: "u8 \<Rightarrow> nat" where
  "charMap X = sqlite3UpperToLower ! unat X"

text \<open>The letter test \<open>(z[j]&~0x20)==zKW[j]\<close>.\<close>

definition unfold_case :: "u8 \<Rightarrow> u8" where
  "unfold_case c = c AND 0xdf"

definition keyword_match :: "bytes \<Rightarrow> nat \<Rightarrow> nat \<Rightarrow> bool" where
  "keyword_match z n i \<longleftrightarrow> aKWLen ! i = n \<and>
     list_all (\<lambda>j. unfold_case (zat z j) = zKWText ! (aKWOffset ! i + j)) [0..<n]"

text \<open>The collision chain from index \<open>i\<close>; it ends at index zero.  127 steps are more than enough
  (\<open>keyword_loop_enough\<close>): no chain has more than four indices.\<close>

fun keyword_loop :: "nat \<Rightarrow> nat \<Rightarrow> bytes \<Rightarrow> nat \<Rightarrow> nat option" where
  "keyword_loop 0 i z n = None"
| "keyword_loop (Suc fuel) i z n =
    (if i = 0 then None
     else if keyword_match z n i then Some (aKWCode ! i)
     else keyword_loop fuel (aKWNext ! i) z n)"

definition keyword_hash :: "bytes \<Rightarrow> nat \<Rightarrow> nat" where
  "keyword_hash z n = ((charMap (zat z 0) * 4) XOR (charMap (zat z (n - 1)) * 3) XOR n) mod 127"

definition keywordCode :: "bytes \<Rightarrow> nat \<Rightarrow> nat \<Rightarrow> nat" where
  "keywordCode z n pType =
    (case keyword_loop 127 (aKWHash ! keyword_hash z n) z n of None \<Rightarrow> pType | Some c \<Rightarrow> c)"

definition sqlite3KeywordCode :: "bytes \<Rightarrow> nat \<Rightarrow> nat" where
  "sqlite3KeywordCode z n = (if n \<ge> 2 then keywordCode z n (TK_ID) else TK_ID)"

definition SQLITE_N_KEYWORD :: nat where "SQLITE_N_KEYWORD = 147"

definition sqlite3_keyword_name :: "int \<Rightarrow> rc \<times> bytes" where
  "sqlite3_keyword_name i =
    (if i < 0 \<or> i \<ge> int SQLITE_N_KEYWORD then (SQLITE_ERROR, [])
     else (SQLITE_OK, mslice (aKWOffset ! nat (i + 1)) (aKWLen ! nat (i + 1)) zKWText))"

definition sqlite3_keyword_check :: "bytes \<Rightarrow> nat \<Rightarrow> bool" where
  "sqlite3_keyword_check zName nName \<longleftrightarrow> TK_ID \<noteq> sqlite3KeywordCode zName nName"

section \<open>The keywords\<close>

text \<open>The list that the comments of the generated code give, in the order of the indices.\<close>

definition keyword_names :: "string list" where
  "keyword_names =
    [''REINDEX'', ''INDEXED'', ''INDEX'', ''DESC'', ''ESCAPE'', ''EACH'', ''CHECK'', ''KEY'', ''BEFORE'',
     ''FOREIGN'', ''FOR'', ''IGNORE'', ''REGEXP'', ''EXPLAIN'', ''INSTEAD'', ''ADD'', ''DATABASE'', ''AS'',
     ''SELECT'', ''TABLE'', ''LEFT'', ''THEN'', ''END'', ''DEFERRABLE'', ''ELSE'', ''EXCLUDE'', ''DELETE'',
     ''TEMPORARY'', ''TEMP'', ''OR'', ''ISNULL'', ''NULLS'', ''SAVEPOINT'', ''INTERSECT'', ''TIES'',
     ''NOTNULL'', ''NOT'', ''NO'', ''NULL'', ''LIKE'', ''EXCEPT'', ''TRANSACTION'', ''ACTION'', ''ON'',
     ''NATURAL'', ''ALTER'', ''RAISE'', ''EXCLUSIVE'', ''EXISTS'', ''CONSTRAINT'', ''INTO'', ''OFFSET'',
     ''OF'', ''SET'', ''TRIGGER'', ''RANGE'', ''GENERATED'', ''DETACH'', ''HAVING'', ''GLOB'', ''BEGIN'',
     ''INNER'', ''REFERENCES'', ''UNIQUE'', ''QUERY'', ''WITHOUT'', ''WITH'', ''OUTER'', ''RELEASE'',
     ''ATTACH'', ''BETWEEN'', ''NOTHING'', ''GROUPS'', ''GROUP'', ''CASCADE'', ''ASC'', ''DEFAULT'',
     ''CASE'', ''COLLATE'', ''CREATE'', ''CURRENT_DATE'', ''IMMEDIATE'', ''JOIN'', ''INSERT'', ''MATCH'',
     ''PLAN'', ''ANALYZE'', ''PRAGMA'', ''MATERIALIZED'', ''DEFERRED'', ''DISTINCT'', ''IS'', ''UPDATE'',
     ''VALUES'', ''VIRTUAL'', ''ALWAYS'', ''WHEN'', ''WHERE'', ''RECURSIVE'', ''ABORT'', ''AFTER'',
     ''RENAME'', ''AND'', ''DROP'', ''PARTITION'', ''AUTOINCREMENT'', ''TO'', ''IN'', ''CAST'', ''COLUMN'',
     ''COMMIT'', ''CONFLICT'', ''CROSS'', ''CURRENT_TIMESTAMP'', ''CURRENT_TIME'', ''CURRENT'',
     ''PRECEDING'', ''FAIL'', ''LAST'', ''FILTER'', ''REPLACE'', ''FIRST'', ''FOLLOWING'', ''FROM'',
     ''FULL'', ''LIMIT'', ''IF'', ''ORDER'', ''RESTRICT'', ''OTHERS'', ''OVER'', ''RETURNING'', ''RIGHT'',
     ''ROLLBACK'', ''ROWS'', ''ROW'', ''UNBOUNDED'', ''UNION'', ''USING'', ''VACUUM'', ''VIEW'', ''WINDOW'',
     ''DO'', ''BY'', ''INITIALLY'', ''ALL'', ''PRIMARY'']"

text \<open>The offsets are sums of small steps, so one pass over the text checks every keyword.\<close>

fun sums :: "nat \<Rightarrow> nat list \<Rightarrow> nat list" where
  "sums p [] = []"
| "sums p (d # ds) = (p + d) # sums (p + d) ds"

fun kw_walk :: "string \<Rightarrow> nat list \<Rightarrow> string list \<Rightarrow> bool" where
  "kw_walk txt (d # ds) (name # names) =
    (let t = drop d txt in take (length name) t = name \<and> kw_walk t ds names)"
| "kw_walk txt _ _ = True"

lemma kw_walk_sound:
  "kw_walk (drop p txt) ds names \<Longrightarrow> length ds = length names \<Longrightarrow>
     k < length ds \<Longrightarrow> take (length (names ! k)) (drop (sums p ds ! k) txt) = names ! k"
proof (induction ds arbitrary: p names k)
  case (Cons d ds)
  then obtain n ns where names: "names = n # ns" by (cases names) auto
  have "drop d (drop p txt) = drop (p + d) txt" by (simp add: add.commute)
  then show ?case using Cons.prems Cons.IH [of "p + d" ns] by (cases k) (auto simp: names Let_def)
qed simp

lemma offset_steps: "tl aKWOffset = sums 0
    [0, 2, 0, 6, 1, 5, 2, 4, 3, 2, 0, 4, 4, 3, 5, 5, 2, 5, 1, 5, 3, 3, 2, 2, 9, 3, 5, 4, 0, 4, 5, 2, 4,
     6, 8, 4, 0, 0, 3, 3, 3, 5, 5, 4, 1, 5, 4, 4, 8, 6, 7, 3, 0, 3, 2, 6, 3, 8, 5, 5, 3, 3, 4, 10, 3, 5,
     0, 4, 4, 7, 6, 6, 6, 0, 6, 1, 4, 7, 4, 7, 6, 12, 9, 2, 6, 5, 2, 7, 4, 11, 7, 1, 7, 6, 6, 5, 6, 4,
     3, 9, 5, 4, 6, 2, 3, 9, 2, 2, 9, 4, 6, 6, 8, 5, 0, 0, 16, 9, 3, 4, 5, 7, 5, 9, 4, 3, 5, 2, 4, 8, 6,
     3, 9, 5, 8, 0, 4, 9, 5, 5, 6, 3, 3, 3, 2, 5, 4]"
  by (simp add: aKWOffset_def)

lemma keyword_walk: "kw_walk keyword_text
    [0, 2, 0, 6, 1, 5, 2, 4, 3, 2, 0, 4, 4, 3, 5, 5, 2, 5, 1, 5, 3, 3, 2, 2, 9, 3, 5, 4, 0, 4, 5, 2, 4,
     6, 8, 4, 0, 0, 3, 3, 3, 5, 5, 4, 1, 5, 4, 4, 8, 6, 7, 3, 0, 3, 2, 6, 3, 8, 5, 5, 3, 3, 4, 10, 3, 5,
     0, 4, 4, 7, 6, 6, 6, 0, 6, 1, 4, 7, 4, 7, 6, 12, 9, 2, 6, 5, 2, 7, 4, 11, 7, 1, 7, 6, 6, 5, 6, 4,
     3, 9, 5, 4, 6, 2, 3, 9, 2, 2, 9, 4, 6, 6, 8, 5, 0, 0, 16, 9, 3, 4, 5, 7, 5, 9, 4, 3, 5, 2, 4, 8, 6,
     3, 9, 5, 8, 0, 4, 9, 5, 5, 6, 3, 3, 3, 2, 5, 4] keyword_names"
  by code_simp

lemma keyword_lengths: "length aKWOffset = 148" "length aKWLen = 148" "length keyword_names = 147"
    "map length keyword_names = tl aKWLen"
  by code_simp+

lemma length_aKWCode: "length aKWCode = 148"
  by (simp add: aKWCode_def)

lemma keyword_distinct: "distinct keyword_names"
  by (simp add: keyword_names_def)

section \<open>Every keyword is on its chain\<close>

fun keyword_chain :: "nat \<Rightarrow> nat \<Rightarrow> nat list" where
  "keyword_chain 0 i = []"
| "keyword_chain (Suc f) i = (if i = 0 then [] else i # keyword_chain f (aKWNext ! i))"

lemma keyword_loop_chain:
  "keyword_loop f i z n = map_option (nth aKWCode) (find (keyword_match z n) (keyword_chain f i))"
  by (induction f i z n rule: keyword_loop.induct) auto

text \<open>The hash of a keyword from its own letters, and the heads and links of the chains.\<close>

definition name_hash :: "string \<Rightarrow> int" where
  "name_hash s = (((of_char (hd s) + 32) * 4) XOR ((of_char (last s) + 32) * 3) XOR int (length s)) mod 127"

lemma name_hashes: "map name_hash keyword_names =
    [40, 16, 74, 62, 62, 41, 73, 69, 34, 86, 78, 14, 31, 90, 16, 44, 56, 96, 23, 123, 105, 31, 60, 54, 64,
     61, 58, 51, 5, 105, 103, 101, 26, 114, 14, 124, 104, 120, 121, 28, 79, 18, 73, 117, 124, 88, 99, 51, 76,
     91, 110, 103, 13, 20, 2, 99, 58, 47, 20, 63, 72, 120, 28, 126, 43, 8, 97, 112, 97, 59, 70, 11, 68, 74,
     37, 47, 76, 40, 37, 38, 48, 3, 103, 0, 10, 15, 45, 102, 21, 53, 69, 1, 126, 8, 28, 92, 19, 119, 111, 94,
     88, 98, 44, 69, 4, 86, 32, 109, 85, 65, 87, 89, 81, 78, 48, 88, 125, 89, 105, 73, 97, 66, 37, 92, 89,
     106, 21, 112, 29, 100, 111, 117, 18, 2, 22, 47, 114, 28, 101, 26, 58, 64, 96, 98, 71, 68, 45]"
  by code_simp

lemma chain_heads:
    "aKWHash ! 0 = 84" "aKWHash ! Suc 0 = 92" "aKWHash ! 2 = 134" "aKWHash ! 3 = 82" "aKWHash ! 4 = 105"
    "aKWHash ! 5 = 29" "aKWHash ! 8 = 94" "aKWHash ! 10 = 85" "aKWHash ! 11 = 72" "aKWHash ! 13 = 53"
    "aKWHash ! 14 = 35" "aKWHash ! 15 = 86" "aKWHash ! 16 = 15" "aKWHash ! 18 = 42" "aKWHash ! 19 = 97"
    "aKWHash ! 20 = 54" "aKWHash ! 21 = 89" "aKWHash ! 22 = 135" "aKWHash ! 23 = 19" "aKWHash ! 26 = 140"
    "aKWHash ! 28 = 40" "aKWHash ! 29 = 129" "aKWHash ! 31 = 22" "aKWHash ! 32 = 107" "aKWHash ! 34 = 9"
    "aKWHash ! 37 = 123" "aKWHash ! 38 = 80" "aKWHash ! 40 = 78" "aKWHash ! 41 = 6" "aKWHash ! 43 = 65"
    "aKWHash ! 44 = 103" "aKWHash ! 45 = 147" "aKWHash ! 47 = 136" "aKWHash ! 48 = 115" "aKWHash ! 51 = 48"
    "aKWHash ! 53 = 90" "aKWHash ! 54 = 24" "aKWHash ! 56 = 17" "aKWHash ! 58 = 27" "aKWHash ! 59 = 70"
    "aKWHash ! 60 = 23" "aKWHash ! 61 = 26" "aKWHash ! 62 = 5" "aKWHash ! 63 = 60" "aKWHash ! 64 = 142"
    "aKWHash ! 65 = 110" "aKWHash ! 66 = 122" "aKWHash ! 68 = 73" "aKWHash ! 69 = 91" "aKWHash ! 70 = 71"
    "aKWHash ! 71 = 145" "aKWHash ! 72 = 61" "aKWHash ! 73 = 120" "aKWHash ! 74 = 74" "aKWHash ! 76 = 49"
    "aKWHash ! 78 = 11" "aKWHash ! 79 = 41" "aKWHash ! 81 = 113" "aKWHash ! 85 = 109" "aKWHash ! 86 = 10"
    "aKWHash ! 87 = 111" "aKWHash ! 88 = 116" "aKWHash ! 89 = 125" "aKWHash ! 90 = 14" "aKWHash ! 91 = 50"
    "aKWHash ! 92 = 124" "aKWHash ! 94 = 100" "aKWHash ! 96 = 18" "aKWHash ! 97 = 121" "aKWHash ! 98 = 144"
    "aKWHash ! 99 = 56" "aKWHash ! 100 = 130" "aKWHash ! 101 = 139" "aKWHash ! 102 = 88" "aKWHash ! 103 = 83"
    "aKWHash ! 104 = 37" "aKWHash ! 105 = 30" "aKWHash ! 106 = 126" "aKWHash ! 109 = 108" "aKWHash ! 110 = 51"
    "aKWHash ! 111 = 131" "aKWHash ! 112 = 128" "aKWHash ! 114 = 34" "aKWHash ! 117 = 132" "aKWHash ! 119 = 98"
    "aKWHash ! 120 = 38" "aKWHash ! 121 = 39" "aKWHash ! 123 = 20" "aKWHash ! 124 = 45" "aKWHash ! 125 = 117"
    "aKWHash ! 126 = 93"
  by (simp_all add: aKWHash_def)

lemma chain_links:
    "aKWNext ! 5 = 4" "aKWNext ! 7 = 43" "aKWNext ! 10 = 106" "aKWNext ! 11 = 114" "aKWNext ! 15 = 2"
    "aKWNext ! 18 = 143" "aKWNext ! 22 = 13" "aKWNext ! 27 = 141" "aKWNext ! 30 = 119" "aKWNext ! 31 = 52"
    "aKWNext ! 34 = 137" "aKWNext ! 35 = 12" "aKWNext ! 38 = 62" "aKWNext ! 40 = 138" "aKWNext ! 42 = 133"
    "aKWNext ! 45 = 36" "aKWNext ! 48 = 28" "aKWNext ! 49 = 77" "aKWNext ! 54 = 59" "aKWNext ! 56 = 47"
    "aKWNext ! 67 = 69" "aKWNext ! 73 = 146" "aKWNext ! 74 = 3" "aKWNext ! 76 = 58" "aKWNext ! 78 = Suc 0"
    "aKWNext ! 79 = 75" "aKWNext ! 83 = 31" "aKWNext ! 89 = 127" "aKWNext ! 91 = 104" "aKWNext ! 93 = 64"
    "aKWNext ! 94 = 66" "aKWNext ! 95 = 63" "aKWNext ! 101 = 46" "aKWNext ! 103 = 16" "aKWNext ! 104 = 8"
    "aKWNext ! 115 = 81" "aKWNext ! 116 = 101" "aKWNext ! 118 = 112" "aKWNext ! 119 = 21" "aKWNext ! 120 = 7"
    "aKWNext ! 121 = 67" "aKWNext ! 123 = 79" "aKWNext ! 124 = 96" "aKWNext ! 125 = 118" "aKWNext ! 128 = 68"
    "aKWNext ! 131 = 99" "aKWNext ! 132 = 44" "aKWNext ! 134 = 55" "aKWNext ! 136 = 76" "aKWNext ! 138 = 95"
    "aKWNext ! 139 = 32" "aKWNext ! 140 = 33" "aKWNext ! 141 = 57" "aKWNext ! 142 = 25" "aKWNext ! 144 = 102"
    "aKWNext ! 147 = 87"
  by (simp_all add: aKWNext_def)

lemma chain_unroll:
  "x \<in> set (keyword_chain 127 i) \<longleftrightarrow> i \<noteq> 0 \<and> (x = i \<or> x \<in> set (keyword_chain 126 (aKWNext ! i)))"
  "x \<in> set (keyword_chain 126 i) \<longleftrightarrow> i \<noteq> 0 \<and> (x = i \<or> x \<in> set (keyword_chain 125 (aKWNext ! i)))"
  "x \<in> set (keyword_chain 125 i) \<longleftrightarrow> i \<noteq> 0 \<and> (x = i \<or> x \<in> set (keyword_chain 124 (aKWNext ! i)))"
  "x \<in> set (keyword_chain 124 i) \<longleftrightarrow> i \<noteq> 0 \<and> (x = i \<or> x \<in> set (keyword_chain 123 (aKWNext ! i)))"
  by (simp_all add: numeral_eq_Suc)

text \<open>No chain has more than four indices.\<close>

lemma chain_stops_all: "map (\<lambda>x. x \<noteq> 0) aKWNext = map (\<lambda>i. i \<in> {5, 7, 10, 11, 15, 18, 22, 27, 30, 31, 34, 35, 38, 40, 42, 45, 48, 49, 54, 56, 67, 73, 74, 76, 78,
     79, 83, 89, 91, 93, 94, 95, 101, 103, 104, 115, 116, 118, 119, 120, 121, 123, 124, 125, 128, 131,
     132, 134, 136, 138, 139, 140, 141, 142, 144, 147}) [0 ..< 148]"
  by (simp add: aKWNext_def upt_rec)

lemma chain_stops: "i < 148 \<Longrightarrow> i \<notin> {5, 7, 10, 11, 15, 18, 22, 27, 30, 31, 34, 35, 38, 40, 42, 45, 48, 49, 54, 56, 67, 73, 74, 76, 78,
     79, 83, 89, 91, 93, 94, 95, 101, 103, 104, 115, 116, 118, 119, 120, 121, 123, 124, 125, 128, 131,
     132, 134, 136, 138, 139, 140, 141, 142, 144, 147} \<Longrightarrow> aKWNext ! i = 0"
proof -
  assume i: "i < 148" and n: "i \<notin> {5, 7, 10, 11, 15, 18, 22, 27, 30, 31, 34, 35, 38, 40, 42, 45, 48, 49, 54, 56, 67, 73, 74, 76, 78,
     79, 83, 89, 91, 93, 94, 95, 101, 103, 104, 115, 116, 118, 119, 120, 121, 123, 124, 125, 128, 131,
     132, 134, 136, 138, 139, 140, 141, 142, 144, 147}"
  have "length aKWNext = 148" by (simp add: aKWNext_def)
  then have "(aKWNext ! i \<noteq> 0) = (map (\<lambda>x. x \<noteq> 0) aKWNext ! i)" using i by simp
  then show ?thesis unfolding chain_stops_all using i n by simp
qed

primrec chain_ends :: "nat \<Rightarrow> nat \<Rightarrow> bool" where
  "chain_ends 0 i \<longleftrightarrow> i = 0"
| "chain_ends (Suc k) i \<longleftrightarrow> i = 0 \<or> chain_ends k (aKWNext ! i)"

lemma chain_ends_unroll:
  "chain_ends 4 i \<longleftrightarrow> i = 0 \<or> chain_ends 3 (aKWNext ! i)" "chain_ends 3 i \<longleftrightarrow> i = 0 \<or> chain_ends 2 (aKWNext ! i)"
  "chain_ends 2 i \<longleftrightarrow> i = 0 \<or> chain_ends 1 (aKWNext ! i)" "chain_ends 1 i \<longleftrightarrow> i = 0 \<or> aKWNext ! i = 0"
  by (simp_all add: numeral_eq_Suc)

lemma chains_end: "list_all (chain_ends 4) aKWHash"
  by (simp add: aKWHash_def chain_links chain_stops chain_ends_unroll)

lemma keyword_loop_ends: "chain_ends k i \<Longrightarrow> k < f \<Longrightarrow> k < g \<Longrightarrow> keyword_loop f i z n = keyword_loop g i z n"
proof (induction k arbitrary: i f g)
  case 0
  obtain f' g' where "f = Suc f'" "g = Suc g'" using 0 by (metis gr0_implies_Suc)
  then show ?case using 0 by simp
next
  case (Suc k)
  obtain f' g' where fg: "f = Suc f'" "g = Suc g'" using Suc.prems by (metis Suc_lessE)
  show ?case
  proof (cases "i = 0")
    case False
    then have "chain_ends k (aKWNext ! i)" using Suc.prems(1) by simp
    then have "keyword_loop f' (aKWNext ! i) z n = keyword_loop g' (aKWNext ! i) z n"
      using Suc.IH Suc.prems(2,3) fg by blast
    then show ?thesis unfolding fg keyword_loop.simps by simp
  qed (simp add: fg)
qed

lemma keyword_loop_enough: "h < 127 \<Longrightarrow> 4 < f \<Longrightarrow> keyword_loop f (aKWHash ! h) z n = keyword_loop 127 (aKWHash ! h) z n"
proof -
  assume "h < 127" "4 < f"
  moreover have "length aKWHash = 127" by (simp add: aKWHash_def)
  ultimately have "chain_ends 4 (aKWHash ! h)" using chains_end unfolding list_all_length by metis
  then show ?thesis using \<open>4 < f\<close> by (rule keyword_loop_ends) simp
qed

lemma on_chain: "list_all2 (\<lambda>i h. i \<in> set (keyword_chain 127 (aKWHash ! h)))
    [1, 2, 3, 4, 5, 6, 7, 8, 9, 10, 11, 12, 13, 14, 15, 16, 17, 18, 19, 20, 21, 22, 23, 24, 25, 26, 27,
     28, 29, 30, 31, 32, 33, 34, 35, 36, 37, 38, 39, 40, 41, 42, 43, 44, 45, 46, 47, 48, 49, 50, 51, 52,
     53, 54, 55, 56, 57, 58, 59, 60, 61, 62, 63, 64, 65, 66, 67, 68, 69, 70, 71, 72, 73, 74, 75, 76, 77,
     78, 79, 80, 81, 82, 83, 84, 85, 86, 87, 88, 89, 90, 91, 92, 93, 94, 95, 96, 97, 98, 99, 100, 101,
     102, 103, 104, 105, 106, 107, 108, 109, 110, 111, 112, 113, 114, 115, 116, 117, 118, 119, 120, 121,
     122, 123, 124, 125, 126, 127, 128, 129, 130, 131, 132, 133, 134, 135, 136, 137, 138, 139, 140, 141,
     142, 143, 144, 145, 146, 147]
    [40, 16, 74, 62, 62, 41, 73, 69, 34, 86, 78, 14, 31, 90, 16, 44, 56, 96, 23, 123, 105, 31, 60, 54, 64,
     61, 58, 51, 5, 105, 103, 101, 26, 114, 14, 124, 104, 120, 121, 28, 79, 18, 73, 117, 124, 88, 99, 51, 76,
     91, 110, 103, 13, 20, 2, 99, 58, 47, 20, 63, 72, 120, 28, 126, 43, 8, 97, 112, 97, 59, 70, 11, 68, 74,
     37, 47, 76, 40, 37, 38, 48, 3, 103, 0, 10, 15, 45, 102, 21, 53, 69, 1, 126, 8, 28, 92, 19, 119, 111, 94,
     88, 98, 44, 69, 4, 86, 32, 109, 85, 65, 87, 89, 81, 78, 48, 88, 125, 89, 105, 73, 97, 66, 37, 92, 89,
     106, 21, 112, 29, 100, 111, 117, 18, 2, 22, 47, 114, 28, 101, 26, 58, 64, 96, 98, 71, 68, 45]"
  by (simp add: chain_heads chain_links chain_unroll)

lemma keywords_on_chain: "list_all2 (\<lambda>i h. i \<in> set (keyword_chain 127 (aKWHash ! h)))
    [1 ..< 148] (map nat (map name_hash keyword_names))"
proof -
  have "[1 ..< 148] =
    [1, 2, 3, 4, 5, 6, 7, 8, 9, 10, 11, 12, 13, 14, 15, 16, 17, 18, 19, 20, 21, 22, 23, 24, 25, 26, 27,
     28, 29, 30, 31, 32, 33, 34, 35, 36, 37, 38, 39, 40, 41, 42, 43, 44, 45, 46, 47, 48, 49, 50, 51, 52,
     53, 54, 55, 56, 57, 58, 59, 60, 61, 62, 63, 64, 65, 66, 67, 68, 69, 70, 71, 72, 73, 74, 75, 76, 77,
     78, 79, 80, 81, 82, 83, 84, 85, 86, 87, 88, 89, 90, 91, 92, 93, 94, 95, 96, 97, 98, 99, 100, 101,
     102, 103, 104, 105, 106, 107, 108, 109, 110, 111, 112, 113, 114, 115, 116, 117, 118, 119, 120, 121,
     122, 123, 124, 125, 126, 127, 128, 129, 130, 131, 132, 133, 134, 135, 136, 137, 138, 139, 140, 141,
     142, 143, 144, 145, 146, 147]" by (simp add: upt_rec)
  moreover have "map nat (map name_hash keyword_names) =
    [40, 16, 74, 62, 62, 41, 73, 69, 34, 86, 78, 14, 31, 90, 16, 44, 56, 96, 23, 123, 105, 31, 60, 54, 64,
     61, 58, 51, 5, 105, 103, 101, 26, 114, 14, 124, 104, 120, 121, 28, 79, 18, 73, 117, 124, 88, 99, 51, 76,
     91, 110, 103, 13, 20, 2, 99, 58, 47, 20, 63, 72, 120, 28, 126, 43, 8, 97, 112, 97, 59, 70, 11, 68, 74,
     37, 47, 76, 40, 37, 38, 48, 3, 103, 0, 10, 15, 45, 102, 21, 53, 69, 1, 126, 8, 28, 92, 19, 119, 111, 94,
     88, 98, 44, 69, 4, 86, 32, 109, 85, 65, 87, 89, 81, 78, 48, 88, 125, 89, 105, 73, 97, 66, 37, 92, 89,
     106, 21, 112, 29, 100, 111, 117, 18, 2, 22, 47, 114, 28, 101, 26, 58, 64, 96, 98, 71, 68, 45]"
    unfolding name_hashes by simp
  ultimately show ?thesis using on_chain by (simp only:)
qed

section \<open>The recogniser and the list of keywords\<close>

definition fold_case :: "bytes \<Rightarrow> nat \<Rightarrow> bytes" where
  "fold_case z n = map (\<lambda>j. unfold_case (zat z j)) [0..<n]"

definition as_bytes :: "string \<Rightarrow> bytes" where
  "as_bytes s = map of_char s"

lemma unat_of_char: "unat (of_char c :: u8) = of_char c"
proof -
  have "(of_char c :: u8) = of_nat (of_char c)" by (simp only: of_nat_of_char)
  moreover have "(of_char c :: nat) < 256" by (metis of_char_mod_256 mod_less_divisor zero_less_numeral)
  ultimately show ?thesis by (simp add: unat_of_nat)
qed

lemma as_bytes_inj: "as_bytes a = as_bytes b \<longleftrightarrow> a = b"
proof -
  have "of_char c = (of_char d :: u8) \<longleftrightarrow> c = d" for c d
    by (metis of_char_eq_iff unat_of_char)
  then have "inj (of_char :: char \<Rightarrow> u8)" by (auto intro: injI)
  then show ?thesis by (simp add: as_bytes_def inj_map_eq_map)
qed

lemma keyword_at:
  assumes "k < 147"
  shows "aKWLen ! Suc k = length (keyword_names ! k)"
    and "j < length (keyword_names ! k) \<Longrightarrow> zKWText ! (aKWOffset ! Suc k + j) = of_char (keyword_names ! k ! j)"
proof -
  have "tl aKWLen ! k = length (keyword_names ! k)"
    using keyword_lengths(3,4) assms by (metis nth_map)
  then show "aKWLen ! Suc k = length (keyword_names ! k)" using assms keyword_lengths(2) by (simp add: nth_tl)
  let ?w = "keyword_names ! k"
  have t: "take (length ?w) (drop (aKWOffset ! Suc k) keyword_text) = ?w"
  proof -
    have "take (length ?w) (drop (tl aKWOffset ! k) keyword_text) = ?w"
      unfolding offset_steps by (rule kw_walk_sound) (use keyword_walk assms keyword_lengths(3) in simp_all)
    then show ?thesis using assms keyword_lengths(1) by (simp add: nth_tl)
  qed
  assume j: "j < length ?w"
  then have l: "aKWOffset ! Suc k + j < length keyword_text"
    using arg_cong [OF t, of length] by simp
  have "?w ! j = take (length ?w) (drop (aKWOffset ! Suc k) keyword_text) ! j" by (simp only: t)
  also have "\<dots> = keyword_text ! (aKWOffset ! Suc k + j)" using j l by simp
  finally show "zKWText ! (aKWOffset ! Suc k + j) = of_char (?w ! j)" using l by (simp add: zKWText_def)
qed

lemma keyword_match_iff:
  assumes "k < 147"
  shows "keyword_match z n (Suc k) \<longleftrightarrow> fold_case z n = as_bytes (keyword_names ! k)"
proof -
  let ?w = "keyword_names ! k"
  have "keyword_match z n (Suc k) \<longleftrightarrow> length ?w = n \<and> (\<forall>j<n. unfold_case (zat z j) = of_char (?w ! j))"
    using keyword_at [OF assms] by (auto simp: keyword_match_def list_all_iff)
  also have "\<dots> \<longleftrightarrow> fold_case z n = as_bytes ?w"
    by (auto simp: fold_case_def as_bytes_def list_eq_iff_nth_eq)
  finally show ?thesis .
qed

lemma chain_range: "i \<in> set (keyword_chain f j) \<Longrightarrow> j < 148 \<Longrightarrow> 0 < i \<and> i < 148"
proof (induction f j rule: keyword_chain.induct)
  case (2 f j)
  have "\<forall>x\<in>set aKWNext. x < 148" "length aKWNext = 148" by (simp_all add: aKWNext_def)
  then have "aKWNext ! j < 148" using "2.prems"(2) by (metis nth_mem)
  then show ?case using 2 by (auto split: if_splits)
qed simp

lemma head_range: "h < 127 \<Longrightarrow> aKWHash ! h < 148"
proof -
  have "\<forall>x\<in>set aKWHash. x < 148" "length aKWHash = 127" by (simp_all add: aKWHash_def)
  then show "h < 127 \<Longrightarrow> ?thesis" by (metis nth_mem)
qed

text \<open>The hash sees a letter whatever its case.\<close>

lemma letters: "list_all (\<lambda>s. 2 \<le> length s \<and> (65 :: int) \<le> of_char (hd s) \<and> of_char (hd s) \<le> (90 :: int)
    \<and> (65 :: int) \<le> of_char (last s) \<and> of_char (last s) \<le> (90 :: int)) keyword_names"
  by code_simp

lemma masked_letter: "\<forall>c\<in>set [0..255]. 65 \<le> (223 AND c) \<and> (223 AND c) \<le> (90 :: int) \<longrightarrow>
    (if 65 \<le> c \<and> c \<le> 90 then c + 32 else c) = (223 AND c) + 32"
  by code_simp

lemma charMap_letter:
  assumes "unfold_case c = of_char s" and "65 \<le> (of_char s :: int)" and "of_char s \<le> (90 :: int)"
  shows "int (charMap c) = of_char s + 32"
proof -
  have "unat c < 256" using unat_less [of c] by simp
  then have "0 \<le> int (unat c) \<and> int (unat c) \<le> 255" by linarith
  then have u: "int (unat c) \<in> set [0..255]" by (simp only: set_upto atLeastAtMost_iff)
  have "223 AND unat c = of_char s"
    using arg_cong [OF assms(1), of unat] by (simp add: unfold_case_def unat_of_char unsigned_and_eq and.commute)
  from arg_cong [OF this, of int] have m: "223 AND int (unat c) = of_char s"
    by (simp only: of_nat_and_eq of_nat_numeral of_nat_of_char)
  have "int (charMap c) = UpperToLower c" by (simp add: UpperToLower_def charMap_def)
  then have "int (charMap c) = (if 65 \<le> int (unat c) \<and> int (unat c) \<le> 90 then int (unat c) + 32 else int (unat c))"
    unfolding UpperToLower_eq by (auto simp del: of_nat_unat)
  then show ?thesis using bspec [OF masked_letter u] m assms(2,3) by simp
qed

lemma keyword_found:
  assumes k: "k < 147" and z: "fold_case z n = as_bytes (keyword_names ! k)"
  shows "Suc k \<in> set (keyword_chain 127 (aKWHash ! keyword_hash z n))"
proof -
  let ?w = "keyword_names ! k"
  have w: "2 \<le> length ?w" "(65 :: int) \<le> of_char (hd ?w)" "of_char (hd ?w) \<le> (90 :: int)"
      "(65 :: int) \<le> of_char (last ?w)" "of_char (last ?w) \<le> (90 :: int)"
    using letters k keyword_lengths(3) by (auto simp: list_all_length)
  have n: "n = length ?w" using arg_cong [OF z, of length] by (simp add: fold_case_def as_bytes_def)
  have at: "unfold_case (zat z j) = of_char (?w ! j)" if "j < n" for j
    using arg_cong [OF z, of "\<lambda>xs. xs ! j"] that n by (simp add: fold_case_def as_bytes_def)
  have ends: "hd ?w = ?w ! 0" "last ?w = ?w ! (n - 1)"
    using w(1) n by (auto simp: hd_conv_nth last_conv_nth length_greater_0_conv [symmetric] simp del: length_greater_0_conv)
  have "0 < n" "n - 1 < n" using w(1) n by auto
  then have c: "int (charMap (zat z 0)) = of_char (hd ?w) + 32" "int (charMap (zat z (n - 1))) = of_char (last ?w) + 32"
    using charMap_letter [OF at [of 0]] charMap_letter [OF at [of "n - 1"]] w unfolding ends by blast+
  have "int (keyword_hash z n) = name_hash ?w"
    by (simp add: keyword_hash_def name_hash_def of_nat_mod of_nat_xor_eq c [unfolded One_nat_def] n [symmetric])
  moreover have "name_hash ?w = map name_hash keyword_names ! k" using k keyword_lengths(3) by simp
  ultimately have h: "keyword_hash z n = nat (map name_hash keyword_names ! k)" by linarith
  have "[1 ..< 148] ! k \<in> set (keyword_chain 127 (aKWHash ! (map nat (map name_hash keyword_names) ! k)))"
    by (rule list_all2_nthD2 [OF keywords_on_chain]) (simp add: keyword_lengths(3) k)
  then show ?thesis using k keyword_lengths(3) by (simp add: h)
qed

text \<open>All codes of keywords differ from the code of an identifier.\<close>

lemma keyword_codes: "code \<in> set (tl aKWCode) \<Longrightarrow> code \<noteq> TK_ID"
proof -
  have "list_all (\<lambda>code. code \<noteq> TK_ID) (tl aKWCode)" by (simp add: aKWCode_def TK_defs)
  then show "code \<in> set (tl aKWCode) \<Longrightarrow> ?thesis" by (auto simp: list_all_iff)
qed

lemma keyword_lookup:
  "sqlite3KeywordCode z n =
    (case map_of (zip (map as_bytes keyword_names) (tl aKWCode)) (fold_case z n) of
       Some code \<Rightarrow> code | None \<Rightarrow> TK_ID)"
proof -
  let ?T = "zip (map as_bytes keyword_names) (tl aKWCode)"
  have len: "length (map as_bytes keyword_names) = length (tl aKWCode)"
    using keyword_lengths(3) length_aKWCode by simp
  have dist: "distinct (map fst ?T)"
    using keyword_distinct len as_bytes_inj by (auto simp: distinct_map inj_on_def)
  have at: "map_of ?T (as_bytes (keyword_names ! k)) = Some (aKWCode ! Suc k)" if "k < 147" for k
  proof (rule map_of_is_SomeI [OF dist])
    have "?T ! k = (as_bytes (keyword_names ! k), aKWCode ! Suc k)" "k < length ?T"
      using that keyword_lengths(3) length_aKWCode by (simp_all add: nth_tl)
    then show "(as_bytes (keyword_names ! k), aKWCode ! Suc k) \<in> set ?T" by (metis nth_mem)
  qed
  have spelled: "\<exists>k<147. fold_case z n = as_bytes (keyword_names ! k)" if "map_of ?T (fold_case z n) = Some y" for y
    using set_zip_leftD [OF map_of_SomeD [OF that]] keyword_lengths(3) by (auto simp: in_set_conv_nth)
  show ?thesis
  proof (cases "n \<ge> 2")
    case False
    have "map_of ?T (fold_case z n) = None"
    proof (rule ccontr)
      assume "map_of ?T (fold_case z n) \<noteq> None"
      then obtain k where k: "k < 147" "fold_case z n = as_bytes (keyword_names ! k)" using spelled by blast
      have "2 \<le> length (keyword_names ! k)" using letters k(1) keyword_lengths(3) by (simp add: list_all_length)
      moreover have "length (keyword_names ! k) = n"
        using arg_cong [OF k(2), of length] by (simp add: fold_case_def as_bytes_def)
      ultimately show False using False by simp
    qed
    then show ?thesis using False by (simp add: sqlite3KeywordCode_def)
  next
    case True
    let ?ch = "keyword_chain 127 (aKWHash ! keyword_hash z n)"
    have range: "0 < i \<and> i < 148" if "i \<in> set ?ch" for i
      using chain_range [OF that] head_range [of "keyword_hash z n"] by (simp add: keyword_hash_def)
    have code: "sqlite3KeywordCode z n = (case find (keyword_match z n) ?ch of None \<Rightarrow> TK_ID | Some i \<Rightarrow> aKWCode ! i)"
      using True by (simp add: sqlite3KeywordCode_def keywordCode_def keyword_loop_chain split: option.splits)
    show ?thesis
    proof (cases "find (keyword_match z n) ?ch")
      case None
      have "map_of ?T (fold_case z n) = None"
      proof (rule ccontr)
        assume "map_of ?T (fold_case z n) \<noteq> None"
        then obtain k where k: "k < 147" "fold_case z n = as_bytes (keyword_names ! k)" using spelled by blast
        then show False using None keyword_found [OF k] keyword_match_iff [OF k(1)] by (auto simp: find_None_iff)
      qed
      then show ?thesis using code None by simp
    next
      case (Some i)
      then have i: "i \<in> set ?ch" "keyword_match z n i" by (auto simp: find_Some_iff)
      from range [OF i(1)] obtain k where k: "i = Suc k" "k < 147" by (cases i) auto
      then show ?thesis using code Some at [OF k(2)] keyword_match_iff [OF k(2)] i(2) by simp
    qed
  qed
qed

text \<open>C14. The generated hash recogniser is a lookup in the list of the 147 keywords: for every text and
  every length it finds the token code of the keyword that the bytes spell once bit five of each is
  cleared, and the identifier code when they spell none; the search always ends.\<close>
theorem keyword_recognised:
  "sqlite3KeywordCode z n =
    (case map_of (zip (map as_bytes keyword_names) (tl aKWCode)) (fold_case z n) of
       Some code \<Rightarrow> code | None \<Rightarrow> TK_ID)"
  by (rule keyword_lookup)

text \<open>\<open>sqlite3_keyword_check\<close> answers whether the bytes spell a keyword after bit five of each is
  cleared.  That is the case-insensitive test on letters, but byte \<open>0x7f\<close> passes for an underscore: the
  string \<open>CURRENT\<close>, \<open>0x7f\<close>, \<open>DATE\<close> is reported to be a keyword.\<close>
theorem keyword_check_folds_case:
  "(sqlite3_keyword_check z n \<longleftrightarrow> fold_case z n \<in> as_bytes ` set keyword_names)
    \<and> sqlite3_keyword_check (as_bytes ''CURRENT'' @ [0x7f] @ as_bytes ''DATE'') 12"
proof -
  have iff: "sqlite3_keyword_check z n \<longleftrightarrow> fold_case z n \<in> as_bytes ` set keyword_names" for z n
  proof (cases "map_of (zip (map as_bytes keyword_names) (tl aKWCode)) (fold_case z n)")
    case None
    then have "fold_case z n \<notin> set (map as_bytes keyword_names)"
      using keyword_lengths(3) length_aKWCode by (simp add: map_of_zip_is_None)
    then show ?thesis using None keyword_lookup [of z n] by (simp add: sqlite3_keyword_check_def)
  next
    case (Some code)
    note m = map_of_SomeD [OF Some]
    have "code \<noteq> TK_ID" using set_zip_rightD [OF m] by (rule keyword_codes)
    moreover have "fold_case z n \<in> set (map as_bytes keyword_names)" using set_zip_leftD [OF m] .
    ultimately show ?thesis using Some keyword_lookup [of z n] by (simp add: sqlite3_keyword_check_def)
  qed
  have "fold_case (as_bytes ''CURRENT'' @ [0x7f] @ as_bytes ''DATE'') 12 = as_bytes ''CURRENT_DATE''" by code_simp
  moreover have "''CURRENT_DATE'' \<in> set keyword_names" by (simp add: keyword_names_def)
  ultimately have "sqlite3_keyword_check (as_bytes ''CURRENT'' @ [0x7f] @ as_bytes ''DATE'') 12"
    unfolding iff by blast
  with iff show ?thesis by blast
qed

end
