(* ===== verification/Complete.thy ===== *)
theory Complete
  imports CString "HOL-Library.Sublist"
begin

text \<open>
  \<open>sqlite3_complete\<close> (\<open>complete.c\<close>): does a text end a statement?  The model has the code's three
  layers: the scanner that takes one token off the text (\<open>complete_scan\<close>, the \<open>switch\<close> of the loop
  body), the table \<open>trans\<close> of eight states, and the loop.  The lemmas give the language the table
  recognises, as a grammar of statements over tokens, and the opacity of quotes and comments.
\<close>

section \<open>Tokens\<close>

definition tkSEMI :: nat where "tkSEMI = 0"
definition tkWS :: nat where "tkWS = 1"
definition tkOTHER :: nat where "tkOTHER = 2"
definition tkEXPLAIN :: nat where "tkEXPLAIN = 3"
definition tkCREATE :: nat where "tkCREATE = 4"
definition tkTEMP :: nat where "tkTEMP = 5"
definition tkTRIGGER :: nat where "tkTRIGGER = 6"
definition tkEND :: nat where "tkEND = 7"

lemmas tk_defs = tkSEMI_def tkWS_def tkOTHER_def tkEXPLAIN_def tkCREATE_def tkTEMP_def tkTRIGGER_def tkEND_def

definition IdChar :: "u8 \<Rightarrow> bool" where
  "IdChar C \<longleftrightarrow> ctype C AND 0x46 \<noteq> 0"

section \<open>The scanner\<close>

text \<open>\<open>while( *zSql && *zSql!=c ){ zSql++; }\<close>\<close>

fun skip_until :: "u8 \<Rightarrow> bytes \<Rightarrow> bytes" where
  "skip_until c [] = []"
| "skip_until c (x # z) = (if x = c then x # z else skip_until c z)"

text \<open>\<open>while( zSql[0] && (zSql[0]!='*' || zSql[1]!='/') ){ zSql++; }\<close>\<close>

fun skip_comment :: "bytes \<Rightarrow> bytes" where
  "skip_comment [] = []"
| "skip_comment (x # z) = (if x \<noteq> 42 \<or> chr0 z \<noteq> 47 then skip_comment z else x # z)"

definition complete_keyword :: "bytes \<Rightarrow> nat \<Rightarrow> nat" where
  "complete_keyword zSql nId =
    (let c = chr0 zSql
     in if c = 99 \<or> c = 67 then
          (if nId = 6 \<and> sqlite3_strnicmp zSql [99, 114, 101, 97, 116, 101] 6 = 0 then tkCREATE else tkOTHER)
        else if c = 116 \<or> c = 84 then
          (if nId = 7 \<and> sqlite3_strnicmp zSql [116, 114, 105, 103, 103, 101, 114] 7 = 0 then tkTRIGGER
           else if nId = 4 \<and> sqlite3_strnicmp zSql [116, 101, 109, 112] 4 = 0 then tkTEMP
           else if nId = 9 \<and> sqlite3_strnicmp zSql [116, 101, 109, 112, 111, 114, 97, 114, 121] 9 = 0 then tkTEMP
           else tkOTHER)
        else if c = 101 \<or> c = 69 then
          (if nId = 3 \<and> sqlite3_strnicmp zSql [101, 110, 100] 3 = 0 then tkEND
           else if nId = 7 \<and> sqlite3_strnicmp zSql [101, 120, 112, 108, 97, 105, 110] 7 = 0 then tkEXPLAIN
           else tkOTHER)
        else tkOTHER)"

text \<open>
  One turn of the loop up to the transition: a token and the text after it, or one of the two early
  returns (an unterminated quote or comment; a line comment that runs to the end of the text).
\<close>

datatype scan = Token nat bytes | Unterminated | OpenLine

definition complete_scan :: "bytes \<Rightarrow> scan" where
  "complete_scan zSql =
    (let c = chr0 zSql; z1 = tl zSql
     in if c = 59 then Token tkSEMI z1
        else if c = 32 \<or> c = 13 \<or> c = 9 \<or> c = 10 \<or> c = 12 then Token tkWS z1
        else if c = 47 then
          (if chr0 z1 \<noteq> 42 then Token tkOTHER z1
           else case skip_comment (tl z1) of [] \<Rightarrow> Unterminated | _ # z2 \<Rightarrow> Token tkWS (tl z2))
        else if c = 45 then
          (if chr0 z1 \<noteq> 45 then Token tkOTHER z1
           else case skip_until 10 zSql of [] \<Rightarrow> OpenLine | _ # z2 \<Rightarrow> Token tkWS z2)
        else if c = 91 then
          (case skip_until 93 z1 of [] \<Rightarrow> Unterminated | _ # z2 \<Rightarrow> Token tkOTHER z2)
        else if c = 96 \<or> c = 34 \<or> c = 39 then
          (case skip_until c z1 of [] \<Rightarrow> Unterminated | _ # z2 \<Rightarrow> Token tkOTHER z2)
        else if IdChar c then
          (let nId = 1 + length (takeWhile IdChar z1)
           in Token (complete_keyword zSql nId) (drop nId zSql))
        else Token tkOTHER z1)"

lemma skip_until_length: "length (skip_until c z) \<le> length z"
  by (induction z) auto

lemma skip_comment_length: "length (skip_comment z) \<le> length z"
  by (induction z) auto

lemma scan_shorter:
  assumes "complete_scan zSql = Token t z'" and "zSql \<noteq> []" shows "length z' < length zSql"
proof -
  obtain c z1 where z: "zSql = c # z1" using assms(2) by (cases zSql) auto
  have l: "length (skip_until d z1) \<le> length z1" "length (skip_until d (c # z1)) \<le> Suc (length z1)"
      "length (skip_comment (tl z1)) \<le> length z1" for d
    using skip_until_length [of d z1] skip_until_length [of d "c # z1"] skip_comment_length [of "tl z1"] by auto
  have k: "skip_until d z1 = x # w \<Longrightarrow> length w < Suc (length z1)"
      "skip_until d (c # z1) = x # w \<Longrightarrow> length w < Suc (length z1)"
      "skip_comment (tl z1) = x # w \<Longrightarrow> length w - Suc 0 < Suc (length z1)" for d x w
    using l(1,2) [of d] l(3) by auto
  show ?thesis using assms(1)
    by (auto simp: complete_scan_def z Let_def k split: if_splits list.splits simp del: skip_until.simps)
qed

section \<open>The state machine\<close>

definition trans :: "nat list list" where
  "trans =
    [[1, 0, 2, 3, 4, 2, 2, 2],
     [1, 1, 2, 3, 4, 2, 2, 2],
     [1, 2, 2, 2, 2, 2, 2, 2],
     [1, 3, 3, 2, 4, 2, 2, 2],
     [1, 4, 2, 2, 2, 4, 5, 2],
     [6, 5, 5, 5, 5, 5, 5, 5],
     [6, 6, 5, 5, 5, 5, 5, 7],
     [1, 7, 5, 5, 5, 5, 5, 5]]"

function complete_loop :: "nat \<Rightarrow> bytes \<Rightarrow> bool" where
  "complete_loop state zSql =
    (if zSql = [] then state = 1
     else case complete_scan zSql of
            Unterminated \<Rightarrow> False
          | OpenLine \<Rightarrow> state = 1
          | Token token z' \<Rightarrow> complete_loop (trans ! state ! token) z')"
  by pat_completeness auto
termination
  by (relation "measure (\<lambda>(_, z). length z)") (auto dest: scan_shorter)

declare complete_loop.simps [simp del]

definition sqlite3_complete :: "bytes \<Rightarrow> bool" where
  "sqlite3_complete zSql = complete_loop 0 zSql"

section \<open>The language of the table\<close>

definition run :: "nat \<Rightarrow> nat list \<Rightarrow> nat" where
  "run s ts = foldl (\<lambda>s t. trans ! s ! t) s ts"

definition tokens_ok :: "nat list \<Rightarrow> bool" where
  "tokens_ok ts \<longleftrightarrow> (\<forall>t\<in>set ts. t < 8 \<and> t \<noteq> tkWS)"

text \<open>
  \<open>CREATE [TEMP...] TRIGGER\<close>, possibly after \<open>EXPLAIN\<close> and words such as \<open>QUERY PLAN\<close>; an ordinary
  statement ends at its first semicolon, the definition of a trigger at the first \<open>;END;\<close>.
\<close>

definition trigger_head :: "nat list \<Rightarrow> bool" where
  "trigger_head h \<longleftrightarrow> (\<exists>e n. h = e @ tkCREATE # replicate n tkTEMP @ [tkTRIGGER] \<and>
     (e = [] \<or> (\<exists>m. e = tkEXPLAIN # replicate m tkOTHER)))"

definition end_mark :: "nat list" where
  "end_mark = [tkSEMI, tkEND, tkSEMI]"

definition sql_statement :: "nat list \<Rightarrow> bool" where
  "sql_statement ts \<longleftrightarrow>
     (\<exists>b. ts = b @ [tkSEMI] \<and> tkSEMI \<notin> set b \<and> (\<forall>h. prefix h b \<longrightarrow> \<not> trigger_head h)) \<or>
     (\<exists>h b. ts = h @ b \<and> trigger_head h \<and> suffix end_mark b \<and> \<not> sublist end_mark (butlast b))"

definition sql_script :: "nat list \<Rightarrow> bool" where
  "sql_script ts \<longleftrightarrow> (\<exists>ss. ss \<noteq> [] \<and> ts = concat ss \<and> (\<forall>s\<in>set ss. sql_statement s))"

lemma run_simps [simp]: "run s [] = s" "run s (t # ts) = run (trans ! s ! t) ts"
    "run s (xs @ ys) = run (run s xs) ys"
  by (simp_all add: run_def)

lemma tokens_ok_simps [simp]: "tokens_ok []" "tokens_ok (t # ts) \<longleftrightarrow> t < 8 \<and> t \<noteq> tkWS \<and> tokens_ok ts"
    "tokens_ok (xs @ ys) \<longleftrightarrow> tokens_ok xs \<and> tokens_ok ys"
  by (auto simp: tokens_ok_def)

lemma token_cases:
  assumes "t < 8" "t \<noteq> tkWS"
  obtains "t = tkSEMI" | "t = tkOTHER" | "t = tkEXPLAIN" | "t = tkCREATE" | "t = tkTEMP" | "t = tkTRIGGER" | "t = tkEND"
  using assms by (simp add: tk_defs) linarith

lemma state_cases:
  fixes s :: nat assumes "s < 8"
  obtains "s = 0" | "s = 1" | "s = 2" | "s = 3" | "s = 4" | "s = 5" | "s = 6" | "s = 7"
  using assms by linarith

lemma trans_less: "s < 8 \<Longrightarrow> t < 8 \<Longrightarrow> trans ! s ! t < 8"
proof -
  have "\<forall>r\<in>set trans. length r = 8 \<and> (\<forall>x\<in>set r. x < 8)" by code_simp
  moreover have "length trans = 8" by code_simp
  ultimately show "s < 8 \<Longrightarrow> t < 8 \<Longrightarrow> ?thesis" by (metis nth_mem)
qed

lemma trans_table [simp]:
    "trans ! 0 ! tkSEMI = 1" "trans ! 0 ! tkOTHER = 2" "trans ! 0 ! tkEXPLAIN = 3" "trans ! 0 ! tkCREATE = 4" "trans ! 0 ! tkTEMP = 2" "trans ! 0 ! tkTRIGGER = 2" "trans ! 0 ! tkEND = 2"
    "trans ! Suc 0 ! tkSEMI = 1" "trans ! Suc 0 ! tkOTHER = 2" "trans ! Suc 0 ! tkEXPLAIN = 3" "trans ! Suc 0 ! tkCREATE = 4" "trans ! Suc 0 ! tkTEMP = 2" "trans ! Suc 0 ! tkTRIGGER = 2" "trans ! Suc 0 ! tkEND = 2"
    "trans ! 2 ! tkSEMI = 1" "trans ! 2 ! tkOTHER = 2" "trans ! 2 ! tkEXPLAIN = 2" "trans ! 2 ! tkCREATE = 2" "trans ! 2 ! tkTEMP = 2" "trans ! 2 ! tkTRIGGER = 2" "trans ! 2 ! tkEND = 2"
    "trans ! 3 ! tkSEMI = 1" "trans ! 3 ! tkOTHER = 3" "trans ! 3 ! tkEXPLAIN = 2" "trans ! 3 ! tkCREATE = 4" "trans ! 3 ! tkTEMP = 2" "trans ! 3 ! tkTRIGGER = 2" "trans ! 3 ! tkEND = 2"
    "trans ! 4 ! tkSEMI = 1" "trans ! 4 ! tkOTHER = 2" "trans ! 4 ! tkEXPLAIN = 2" "trans ! 4 ! tkCREATE = 2" "trans ! 4 ! tkTEMP = 4" "trans ! 4 ! tkTRIGGER = 5" "trans ! 4 ! tkEND = 2"
    "trans ! 5 ! tkSEMI = 6" "trans ! 5 ! tkOTHER = 5" "trans ! 5 ! tkEXPLAIN = 5" "trans ! 5 ! tkCREATE = 5" "trans ! 5 ! tkTEMP = 5" "trans ! 5 ! tkTRIGGER = 5" "trans ! 5 ! tkEND = 5"
    "trans ! 6 ! tkSEMI = 6" "trans ! 6 ! tkOTHER = 5" "trans ! 6 ! tkEXPLAIN = 5" "trans ! 6 ! tkCREATE = 5" "trans ! 6 ! tkTEMP = 5" "trans ! 6 ! tkTRIGGER = 5" "trans ! 6 ! tkEND = 7"
    "trans ! 7 ! tkSEMI = 1" "trans ! 7 ! tkOTHER = 5" "trans ! 7 ! tkEXPLAIN = 5" "trans ! 7 ! tkCREATE = 5" "trans ! 7 ! tkTEMP = 5" "trans ! 7 ! tkTRIGGER = 5" "trans ! 7 ! tkEND = 5"
  by (simp_all add: trans_def tk_defs)

lemma tk_distinct [simp]:
    "tkSEMI \<noteq> tkOTHER" "tkSEMI \<noteq> tkEXPLAIN" "tkSEMI \<noteq> tkCREATE" "tkSEMI \<noteq> tkTEMP" "tkSEMI \<noteq> tkTRIGGER" "tkSEMI \<noteq> tkEND" "tkOTHER \<noteq> tkSEMI" "tkOTHER \<noteq> tkEXPLAIN" "tkOTHER \<noteq> tkCREATE" "tkOTHER \<noteq> tkTEMP" "tkOTHER \<noteq> tkTRIGGER" "tkOTHER \<noteq> tkEND" "tkEXPLAIN \<noteq> tkSEMI" "tkEXPLAIN \<noteq> tkOTHER" "tkEXPLAIN \<noteq> tkCREATE" "tkEXPLAIN \<noteq> tkTEMP" "tkEXPLAIN \<noteq> tkTRIGGER" "tkEXPLAIN \<noteq> tkEND" "tkCREATE \<noteq> tkSEMI" "tkCREATE \<noteq> tkOTHER" "tkCREATE \<noteq> tkEXPLAIN" "tkCREATE \<noteq> tkTEMP" "tkCREATE \<noteq> tkTRIGGER" "tkCREATE \<noteq> tkEND" "tkTEMP \<noteq> tkSEMI" "tkTEMP \<noteq> tkOTHER" "tkTEMP \<noteq> tkEXPLAIN" "tkTEMP \<noteq> tkCREATE" "tkTEMP \<noteq> tkTRIGGER" "tkTEMP \<noteq> tkEND" "tkTRIGGER \<noteq> tkSEMI" "tkTRIGGER \<noteq> tkOTHER" "tkTRIGGER \<noteq> tkEXPLAIN" "tkTRIGGER \<noteq> tkCREATE" "tkTRIGGER \<noteq> tkTEMP" "tkTRIGGER \<noteq> tkEND" "tkEND \<noteq> tkSEMI" "tkEND \<noteq> tkOTHER" "tkEND \<noteq> tkEXPLAIN" "tkEND \<noteq> tkCREATE" "tkEND \<noteq> tkTEMP" "tkEND \<noteq> tkTRIGGER"
  by (simp_all add: tk_defs)

lemma run_less: "tokens_ok ts \<Longrightarrow> s < 8 \<Longrightarrow> run s ts < 8"
  by (induction ts arbitrary: s) (auto simp: trans_less)

text \<open>A sequence of tokens without a semicolon, read off the state it leads to.\<close>

definition open_shape :: "nat list \<Rightarrow> nat \<Rightarrow> bool" where
  "open_shape b s \<longleftrightarrow> s = 1 \<and> b = [] \<or> s = 2
    \<or> s = 3 \<and> (\<exists>m. b = tkEXPLAIN # replicate m tkOTHER)
    \<or> s = 4 \<and> (\<exists>e n. b = e @ tkCREATE # replicate n tkTEMP \<and> (e = [] \<or> (\<exists>m. e = tkEXPLAIN # replicate m tkOTHER)))
    \<or> s = 5 \<and> (\<exists>h. prefix h b \<and> trigger_head h)"

lemma open_shape_step:
  assumes "open_shape b s" and t: "t < 8" "t \<noteq> tkWS" "t \<noteq> tkSEMI"
  shows "open_shape (b @ [t]) (trans ! s ! t)"
proof -
  from assms(1) consider (1) "s = 1" "b = []" | (2) "s = 2"
    | (3) m where "s = 3" "b = tkEXPLAIN # replicate m tkOTHER"
    | (4) e n where "s = 4" "b = e @ tkCREATE # replicate n tkTEMP" "e = [] \<or> (\<exists>m. e = tkEXPLAIN # replicate m tkOTHER)"
    | (5) h where "s = 5" "prefix h b" "trigger_head h"
    unfolding open_shape_def by blast
  then show ?thesis
  proof cases
    case 1
    have "open_shape [tkCREATE] 4" unfolding open_shape_def by (auto intro!: exI [of _ 0])
    moreover have "open_shape [tkEXPLAIN] 3" unfolding open_shape_def by (auto intro!: exI [of _ 0])
    moreover have "open_shape x 2" for x by (simp add: open_shape_def)
    ultimately show ?thesis using t 1 by - (rule token_cases [OF t(1,2)], auto)
  next
    case 2
    have "open_shape x 2" for x by (simp add: open_shape_def)
    then show ?thesis using t 2 by - (rule token_cases [OF t(1,2)], auto)
  next
    case 3
    have "b @ [tkOTHER] = tkEXPLAIN # replicate (Suc m) tkOTHER" using 3 by (simp add: replicate_append_same)
    then have "open_shape (b @ [tkOTHER]) 3" unfolding open_shape_def by blast
    moreover have "b @ [tkCREATE] = b @ tkCREATE # replicate 0 tkTEMP" by simp
    then have "open_shape (b @ [tkCREATE]) 4" unfolding open_shape_def using 3 by blast
    moreover have "open_shape x 2" for x by (simp add: open_shape_def)
    ultimately show ?thesis using t 3 by - (rule token_cases [OF t(1,2)], auto)
  next
    case 4
    have "b @ [tkTEMP] = e @ tkCREATE # replicate (Suc n) tkTEMP" using 4 by (simp add: replicate_append_same)
    then have "open_shape (b @ [tkTEMP]) 4" unfolding open_shape_def using 4(3) by blast
    moreover have "trigger_head (b @ [tkTRIGGER])" using 4 by (auto simp: trigger_head_def)
    then have "open_shape (b @ [tkTRIGGER]) 5" unfolding open_shape_def by blast
    moreover have "open_shape x 2" for x by (simp add: open_shape_def)
    ultimately show ?thesis using t 4 by - (rule token_cases [OF t(1,2)], auto)
  next
    case 5
    then have "prefix h (b @ [t])" by (simp add: prefix_prefix)
    then have "open_shape (b @ [t]) 5" using 5(3) unfolding open_shape_def by blast
    then show ?thesis using t 5 by - (rule token_cases [OF t(1,2)], auto)
  qed
qed

lemma run_open: "tokens_ok b \<Longrightarrow> tkSEMI \<notin> set b \<Longrightarrow> open_shape b (run 1 b)"
proof (induction b rule: rev_induct)
  case Nil
  show ?case by (simp add: open_shape_def)
next
  case (snoc t b)
  then show ?case using open_shape_step [of b "run 1 b" t] by auto
qed

lemma run_head:
  assumes "trigger_head h" shows "run 1 h = 5" and "run 0 h = 5" and "tkSEMI \<notin> set h"
proof -
  have r: "run 4 (replicate n tkTEMP) = 4" "run 3 (replicate n tkOTHER) = 3" for n
    by (induction n) auto
  show "run 1 h = 5" "run 0 h = 5" "tkSEMI \<notin> set h"
    using assms unfolding trigger_head_def by (auto simp: r)
qed

text \<open>Once in state five, only the end mark leads out.\<close>

lemma run_trigger_open:
  assumes "tokens_ok b" and "\<not> sublist end_mark b"
  shows "run 5 b = (if suffix [tkSEMI, tkEND] b then 7 else if suffix [tkSEMI] b then 6 else 5)"
  using assms
proof (induction b rule: rev_induct)
  case (snoc t b)
  have nb: "\<not> sublist end_mark b" using snoc.prems(2) by (meson sublist_append_rightI sublist_order.order_trans)
  then have IH: "run 5 b = (if suffix [tkSEMI, tkEND] b then 7 else if suffix [tkSEMI] b then 6 else 5)"
    using snoc by simp
  have t: "t < 8" "t \<noteq> tkWS" using snoc.prems(1) by auto
  have no: "\<not> (suffix [tkSEMI, tkEND] b \<and> t = tkSEMI)"
  proof
    assume "suffix [tkSEMI, tkEND] b \<and> t = tkSEMI"
    then have "suffix end_mark (b @ [t])" by (auto simp: suffix_def end_mark_def)
    then show False using snoc.prems(2) by blast
  qed
  show ?case using t
    by (cases rule: token_cases) (use IH no in \<open>auto simp: suffix_def split: if_splits\<close>)
qed (simp add: suffix_def)

lemma run_trigger_quiet: "tokens_ok b \<Longrightarrow> tkSEMI \<notin> set b \<Longrightarrow> run 5 b = 5"
proof (induction b)
  case (Cons t b)
  then have "trans ! 5 ! t = 5" by - (rule token_cases [of t], auto)
  then show ?case using Cons by simp
qed simp

lemma first_mark:
  assumes "sublist m u"
  shows "\<exists>p r. u = p @ r \<and> suffix m p \<and> (m \<noteq> [] \<longrightarrow> \<not> sublist m (butlast p))"
  using assms
proof (induction u rule: rev_induct)
  case (snoc x u)
  show ?case
  proof (cases "sublist m u")
    case True
    then show ?thesis using snoc.IH by (metis append.assoc)
  next
    case False
    from snoc.prems obtain a c where u: "u @ [x] = a @ m @ c" by (auto simp: sublist_def)
    have "c = []" using u False by (cases c rule: rev_cases) (auto simp: sublist_def)
    then have "suffix m (u @ [x])" using u by (simp add: suffix_def)
    then show ?thesis using False by (intro exI [of _ "u @ [x]"] exI [of _ "[]"]) simp
  qed
qed simp

lemma run_01: "tokens_ok ts \<Longrightarrow> ts \<noteq> [] \<Longrightarrow> run 0 ts = run 1 ts"
proof (cases ts)
  case (Cons t r)
  assume "tokens_ok ts"
  then have "trans ! 0 ! t = trans ! 1 ! t" using Cons by - (rule token_cases [of t], auto)
  then show ?thesis using Cons by simp
qed simp

lemma statement_run:
  assumes "sql_statement st" and "tokens_ok st" shows "run 1 st = 1" and "st \<noteq> []"
proof -
  from assms(1) consider
      (1) b where "st = b @ [tkSEMI]" "tkSEMI \<notin> set b" "\<forall>h. prefix h b \<longrightarrow> \<not> trigger_head h"
    | (2) h b where "st = h @ b" "trigger_head h" "suffix end_mark b" "\<not> sublist end_mark (butlast b)"
    unfolding sql_statement_def by blast
  then have "run 1 st = 1 \<and> st \<noteq> []"
  proof cases
    case 1
    with assms(2) have "open_shape b (run 1 b)" by (intro run_open) auto
    then have "run 1 b = 1 \<or> run 1 b = 2 \<or> run 1 b = 3 \<or> run 1 b = 4"
      using 1(3) unfolding open_shape_def by blast
    then show ?thesis using 1(1) by auto
  next
    case 2
    from 2(3) obtain a where b: "b = (a @ [tkSEMI, tkEND]) @ [tkSEMI]" by (auto simp: suffix_def end_mark_def)
    then have bl: "butlast b = a @ [tkSEMI, tkEND]" by (simp only: butlast_snoc)
    have "\<not> sublist end_mark (a @ [tkSEMI, tkEND])" using 2(4) unfolding bl .
    then have "run 5 (a @ [tkSEMI, tkEND]) = 7"
      using run_trigger_open [of "a @ [tkSEMI, tkEND]"] 2(1) b assms(2) by (simp add: suffix_def)
    then show ?thesis using 2(1,2) b run_head(1) [of h] by simp
  qed
  then show "run 1 st = 1" "st \<noteq> []" by auto
qed

lemma run_statements:
  assumes "tokens_ok ts" and "run 1 ts = 1"
  shows "\<exists>ss. ts = concat ss \<and> (\<forall>s\<in>set ss. sql_statement s)"
  using assms
proof (induction ts rule: length_induct)
  case (1 ts)
  have step: "\<exists>ss. ts = concat ss \<and> (\<forall>s\<in>set ss. sql_statement s)"
    if "ts = st @ r" "sql_statement st" for st r
  proof -
    have "tokens_ok st" using that(1) "1.prems"(1) by simp
    note st = statement_run [OF that(2) this]
    have "run 1 r = 1" "tokens_ok r" "length r < length ts" using that(1) st 1 by auto
    then obtain ss where "r = concat ss" "\<forall>s\<in>set ss. sql_statement s" using "1.IH" by blast
    then show ?thesis using that by (intro exI [of _ "st # ss"]) simp
  qed
  show ?case
  proof (cases "tkSEMI \<in> set ts")
    case False
    then have "ts = []" using run_open [OF "1.prems"(1)] "1.prems"(2) by (simp add: open_shape_def)
    then show ?thesis by (intro exI [of _ "[]"]) simp
  next
    case True
    then obtain b r where ts: "ts = b @ tkSEMI # r" and nb: "tkSEMI \<notin> set b" by (meson split_list_first)
    then have ob: "open_shape b (run 1 b)" "tokens_ok b" using "1.prems"(1) run_open by auto
    show ?thesis
    proof (cases "run 1 b = 5")
      case False
      have "\<not> trigger_head h" if "prefix h b" for h
      proof
        assume h: "trigger_head h"
        from that obtain q where "b = h @ q" by (auto simp: prefix_def)
        then have "run 1 b = 5" using run_head(1) [OF h] run_trigger_quiet [of q] ob(2) nb by simp
        then show False using False by simp
      qed
      then have "sql_statement (b @ [tkSEMI])" unfolding sql_statement_def using nb by blast
      then show ?thesis using step [of "b @ [tkSEMI]" r] ts by simp
    next
      case True
      then obtain h q where h: "trigger_head h" "b = h @ q" using ob(1) by (auto simp: open_shape_def prefix_def)
      define u where "u = q @ tkSEMI # r"
      have u: "ts = h @ u" "tokens_ok u" using h(2) ts "1.prems"(1) by (auto simp: u_def)
      then have "run 5 u = 1" using "1.prems"(2) run_head(1) [OF h(1)] by simp
      then have "sublist end_mark u" using run_trigger_open [OF u(2)] by (cases "sublist end_mark u") (simp_all split: if_splits)
      then obtain p w where p: "u = p @ w" "suffix end_mark p" "\<not> sublist end_mark (butlast p)"
        using first_mark [of end_mark u] by (auto simp: end_mark_def)
      then have "sql_statement (h @ p)" unfolding sql_statement_def using h(1) by blast
      then show ?thesis using step [of "h @ p" w] u(1) p(1) by simp
    qed
  qed
qed

lemma run_is_script:
  assumes "tokens_ok ts" shows "run 0 ts = 1 \<longleftrightarrow> sql_script ts"
proof
  assume r: "run 0 ts = 1"
  then have ne: "ts \<noteq> []" by auto
  with r run_01 [OF assms] obtain ss where ss: "ts = concat ss" "\<forall>s\<in>set ss. sql_statement s"
    using run_statements [OF assms] by auto
  moreover have "ss \<noteq> []" using ne ss(1) by auto
  ultimately show "sql_script ts" unfolding sql_script_def by blast
next
  assume "sql_script ts"
  then obtain ss where ss: "ss \<noteq> []" "ts = concat ss" "\<forall>s\<in>set ss. sql_statement s"
    unfolding sql_script_def by blast
  have "tokens_ok (concat xs) \<Longrightarrow> \<forall>s\<in>set xs. sql_statement s \<Longrightarrow> run 1 (concat xs) = 1" for xs
    by (induction xs) (auto simp: statement_run(1) [simplified One_nat_def])
  then have "run 1 ts = 1" using ss assms by simp
  moreover have "ts \<noteq> []" using ss assms statement_run(2) by (cases ss) auto
  ultimately show "run 0 ts = 1" using run_01 [OF assms] by simp
qed

section \<open>From text to tokens\<close>

text \<open>The tokens of a whole text, or nothing when a quote or a block comment is left open.\<close>

function sql_tokens :: "bytes \<Rightarrow> nat list option" where
  "sql_tokens z =
    (if z = [] then Some []
     else case complete_scan z of
            Unterminated \<Rightarrow> None
          | OpenLine \<Rightarrow> Some []
          | Token t z' \<Rightarrow> map_option (Cons t) (sql_tokens z'))"
  by pat_completeness auto
termination
  by (relation "measure length") (auto dest: scan_shorter)

declare sql_tokens.simps [simp del]

lemma loop_runs:
  "complete_loop s z \<longleftrightarrow> (\<exists>ts. sql_tokens z = Some ts \<and> run s ts = 1)"
proof (induction s z rule: complete_loop.induct)
  case (1 s z)
  then show ?case
    by (subst complete_loop.simps, subst sql_tokens.simps) (auto split: scan.splits)
qed

lemma keyword_less: "complete_keyword z n < 8 \<and> complete_keyword z n \<noteq> tkWS"
  by (simp add: complete_keyword_def Let_def tk_defs)

lemma scan_less: "complete_scan z = Token t z' \<Longrightarrow> t < 8"
  using keyword_less by (auto simp: complete_scan_def Let_def tk_defs split: if_splits list.splits)

lemma tokens_less: "sql_tokens z = Some ts \<Longrightarrow> \<forall>t\<in>set ts. t < 8"
proof (induction z arbitrary: ts rule: sql_tokens.induct)
  case (1 z)
  from "1.prems" show ?case
    by (subst (asm) sql_tokens.simps) (auto split: if_splits scan.splits dest!: "1.IH" dest: scan_less)
qed

lemma trans_ws: "s < 8 \<Longrightarrow> trans ! s ! tkWS = s"
  by (erule state_cases) (simp_all add: trans_def tkWS_def)

lemma run_filter: "\<forall>t\<in>set ts. t < 8 \<Longrightarrow> s < 8 \<Longrightarrow> run s (filter (\<lambda>t. t \<noteq> tkWS) ts) = run s ts"
  by (induction ts arbitrary: s) (auto simp: trans_ws trans_less)

section \<open>Quotes and comments\<close>

lemma skip_until_found: "c \<notin> set z \<Longrightarrow> skip_until c (z @ c # r) = c # r"
  by (induction z) auto

lemma skip_comment_found:
  "\<not> sublist [42, 47] (z @ [42]) \<Longrightarrow> skip_comment (z @ 42 # 47 # r) = 42 # 47 # r"
proof (induction z)
  case (Cons x z)
  have "\<not> sublist [42, 47] (z @ [42])" using Cons.prems by (auto simp: sublist_Cons_right)
  moreover have "x \<noteq> 42 \<or> chr0 (z @ 42 # 47 # r) \<noteq> 47"
    using Cons.prems by (cases z) (auto simp: sublist_Cons_right prefix_def)
  ultimately show ?case using Cons.IH by auto
qed simp

text \<open>C17. \<open>sqlite3_complete\<close> accepts exactly the texts whose tokens, white space and comments left
  out, are one or more whole statements: an ordinary statement runs to its first semicolon, a
  trigger definition (recognised behind \<open>EXPLAIN\<close> and \<open>TEMP\<close>) to its first \<open>;END;\<close>; a text that stops
  inside a quote or a block comment is never complete.\<close>
theorem complete_accepts_scripts:
  "sqlite3_complete zSql \<longleftrightarrow>
     (\<exists>ts. sql_tokens zSql = Some ts \<and> sql_script (filter (\<lambda>t. t \<noteq> tkWS) ts))"
proof -
  have "run 0 ts = 1 \<longleftrightarrow> sql_script (filter (\<lambda>t. t \<noteq> tkWS) ts)" if "sql_tokens zSql = Some ts" for ts
  proof -
    from tokens_less [OF that] have "run 0 (filter (\<lambda>t. t \<noteq> tkWS) ts) = run 0 ts" by (simp add: run_filter)
    moreover have "tokens_ok (filter (\<lambda>t. t \<noteq> tkWS) ts)"
      using tokens_less [OF that] by (auto simp: tokens_ok_def)
    ultimately show ?thesis using run_is_script by metis
  qed
  then show ?thesis unfolding sqlite3_complete_def loop_runs by blast
qed

text \<open>Quoted text and comments are opaque: whatever stands between two equal quotes or in brackets
  (semicolons and keywords included) acts as one ordinary token, and a block comment or a line
  comment leaves the state of the machine alone.\<close>
theorem complete_opaque:
  assumes "state < 8"
  shows "(q \<in> {39, 34, 96} \<and> q \<notin> set body \<longrightarrow>
      complete_loop state (q # body @ q # rest) = complete_loop (trans ! state ! tkOTHER) rest)
    \<and> (93 \<notin> set body \<longrightarrow>
      complete_loop state (91 # body @ 93 # rest) = complete_loop (trans ! state ! tkOTHER) rest)
    \<and> (\<not> sublist [42, 47] (body @ [42]) \<longrightarrow>
      complete_loop state (47 # 42 # body @ 42 # 47 # rest) = complete_loop state rest)
    \<and> (10 \<notin> set body \<longrightarrow>
      complete_loop state (45 # 45 # body @ 10 # rest) = complete_loop state rest)"
proof (intro conjI impI)
  assume "q \<in> {39, 34, 96} \<and> q \<notin> set body"
  then show "complete_loop state (q # body @ q # rest) = complete_loop (trans ! state ! tkOTHER) rest"
    by (subst complete_loop.simps) (auto simp: complete_scan_def skip_until_found)
next
  assume "93 \<notin> set body"
  then show "complete_loop state (91 # body @ 93 # rest) = complete_loop (trans ! state ! tkOTHER) rest"
    by (subst complete_loop.simps) (simp add: complete_scan_def skip_until_found)
next
  assume "\<not> sublist [42, 47] (body @ [42])"
  then show "complete_loop state (47 # 42 # body @ 42 # 47 # rest) = complete_loop state rest"
    by (subst complete_loop.simps) (simp add: complete_scan_def skip_comment_found trans_ws [OF assms])
next
  assume "10 \<notin> set body"
  then show "complete_loop state (45 # 45 # body @ 10 # rest) = complete_loop state rest"
    using skip_until_found [of 10 "45 # 45 # body" rest]
    by (subst complete_loop.simps) (simp add: complete_scan_def trans_ws [OF assms])
qed

lemma complete_opaque_witness:
  "complete_loop 5 ([39, 59] @ [39, 59]) = complete_loop (trans ! 5 ! tkOTHER) [59 :: u8]"
  using complete_opaque [of 5 39 "[59]" "[59]"] by simp

end
