(* ===== verification/Tokenize.thy ===== *)
theory Tokenize
  imports Keywords Complete
begin

text \<open>
  The tokenizer (\<open>tokenize.c\<close>): \<open>sqlite3GetToken\<close> takes one token off the front of a text and returns
  its length and code, a class table deciding by the first byte; the three keywords that are only
  keywords in context; and the loop of \<open>sqlite3RunParser\<close> that feeds the parser, which is a
  parameter.  \<open>zat z i\<close> is the byte \<open>z[i]\<close>, zero at the terminator.
\<close>

section \<open>Character classes\<close>

definition CC_X :: nat where "CC_X = 0"
definition CC_KYWD0 :: nat where "CC_KYWD0 = 1"
definition CC_KYWD :: nat where "CC_KYWD = 2"
definition CC_DIGIT :: nat where "CC_DIGIT = 3"
definition CC_DOLLAR :: nat where "CC_DOLLAR = 4"
definition CC_VARALPHA :: nat where "CC_VARALPHA = 5"
definition CC_VARNUM :: nat where "CC_VARNUM = 6"
definition CC_SPACE :: nat where "CC_SPACE = 7"
definition CC_QUOTE :: nat where "CC_QUOTE = 8"
definition CC_QUOTE2 :: nat where "CC_QUOTE2 = 9"
definition CC_PIPE :: nat where "CC_PIPE = 10"
definition CC_MINUS :: nat where "CC_MINUS = 11"
definition CC_LT :: nat where "CC_LT = 12"
definition CC_GT :: nat where "CC_GT = 13"
definition CC_EQ :: nat where "CC_EQ = 14"
definition CC_BANG :: nat where "CC_BANG = 15"
definition CC_SLASH :: nat where "CC_SLASH = 16"
definition CC_LP :: nat where "CC_LP = 17"
definition CC_RP :: nat where "CC_RP = 18"
definition CC_SEMI :: nat where "CC_SEMI = 19"
definition CC_PLUS :: nat where "CC_PLUS = 20"
definition CC_STAR :: nat where "CC_STAR = 21"
definition CC_PERCENT :: nat where "CC_PERCENT = 22"
definition CC_COMMA :: nat where "CC_COMMA = 23"
definition CC_AND :: nat where "CC_AND = 24"
definition CC_TILDA :: nat where "CC_TILDA = 25"
definition CC_DOT :: nat where "CC_DOT = 26"
definition CC_ID :: nat where "CC_ID = 27"
definition CC_ILLEGAL :: nat where "CC_ILLEGAL = 28"
definition CC_NUL :: nat where "CC_NUL = 29"
definition CC_BOM :: nat where "CC_BOM = 30"

lemmas CC_defs = CC_X_def CC_KYWD0_def CC_KYWD_def CC_DIGIT_def CC_DOLLAR_def CC_VARALPHA_def CC_VARNUM_def CC_SPACE_def CC_QUOTE_def CC_QUOTE2_def CC_PIPE_def CC_MINUS_def CC_LT_def CC_GT_def CC_EQ_def CC_BANG_def CC_SLASH_def CC_LP_def CC_RP_def CC_SEMI_def CC_PLUS_def CC_STAR_def CC_PERCENT_def CC_COMMA_def CC_AND_def CC_TILDA_def CC_DOT_def CC_ID_def CC_ILLEGAL_def CC_NUL_def CC_BOM_def

definition aiClass :: "nat list" where
  "aiClass =
    [29, 28, 28, 28, 28, 28, 28, 28, 28, 7, 7, 28, 7, 7, 28, 28, 28, 28, 28, 28, 28, 28, 28, 28, 28, 28, 28,
     28, 28, 28, 28, 28, 7, 15, 8, 5, 4, 22, 24, 8, 17, 18, 21, 20, 23, 11, 26, 16, 3, 3, 3, 3, 3, 3, 3, 3,
     3, 3, 5, 19, 12, 14, 13, 6, 5, 1, 1, 1, 1, 1, 1, 1, 1, 1, 1, 1, 1, 1, 1, 1, 1, 1, 1, 1, 1, 1, 1, 1, 0,
     2, 2, 9, 28, 28, 28, 2, 8, 1, 1, 1, 1, 1, 1, 1, 1, 1, 1, 1, 1, 1, 1, 1, 1, 1, 1, 1, 1, 1, 1, 1, 0, 2, 2,
     28, 10, 28, 25, 28, 27, 27, 27, 27, 27, 27, 27, 27, 27, 27, 27, 27, 27, 27, 27, 27, 27, 27, 27, 27, 27,
     27, 27, 27, 27, 27, 27, 27, 27, 27, 27, 27, 27, 27, 27, 27, 27, 27, 27, 27, 27, 27, 27, 27, 27, 27, 27,
     27, 27, 27, 27, 27, 27, 27, 27, 27, 27, 27, 27, 27, 27, 27, 27, 27, 27, 27, 27, 27, 27, 27, 27, 27, 27,
     27, 27, 27, 27, 27, 27, 27, 27, 27, 27, 27, 27, 27, 27, 27, 27, 27, 27, 27, 27, 27, 27, 27, 27, 27, 27,
     27, 27, 27, 27, 27, 27, 27, 27, 27, 27, 27, 27, 30, 27, 27, 27, 27, 27, 27, 27, 27, 27, 27, 27, 27, 27,
     27, 27, 27]"

definition cclass :: "u8 \<Rightarrow> nat" where
  "cclass c = aiClass ! unat c"

lemmas TK_values =
  TK_SPACE_def TK_COMMENT_def TK_PTR_def TK_MINUS_def TK_LP_def TK_RP_def TK_SEMI_def
  TK_PLUS_def TK_STAR_def TK_SLASH_def TK_REM_def TK_EQ_def TK_LE_def TK_NE_def TK_LSHIFT_def
  TK_LT_def TK_GE_def TK_RSHIFT_def TK_GT_def TK_ILLEGAL_def TK_BITOR_def TK_CONCAT_def
  TK_COMMA_def TK_BITAND_def TK_BITNOT_def TK_STRING_def TK_ID_def TK_DOT_def TK_INTEGER_def
  TK_QNUMBER_def TK_FLOAT_def TK_VARIABLE_def TK_BLOB_def TK_JOIN_KW_def TK_WINDOW_def
  TK_OVER_def TK_FILTER_def TK_AS_def

section \<open>Scanning\<close>

text \<open>\<open>for(; P(z[i]); i++){}\<close>\<close>

definition scan :: "(u8 \<Rightarrow> bool) \<Rightarrow> bytes \<Rightarrow> nat \<Rightarrow> nat" where
  "scan P z i = i + length (takeWhile P (drop i z))"

definition tok_minus :: "bytes \<Rightarrow> nat \<times> nat" where
  "tok_minus z =
    (if zat z 1 = 45 then (scan (\<lambda>c. c \<noteq> 0 \<and> c \<noteq> 10) z 2, TK_COMMENT)
     else if zat z 1 = 62 then (2 + (if zat z 2 = 62 then 1 else 0), TK_PTR)
     else (1, TK_MINUS))"

text \<open>\<open>for(i=3, c=z[2]; (c!='*' || z[i]!='/') && (c=z[i])!=0; i++){}\<close>\<close>

function comment_end :: "bytes \<Rightarrow> u8 \<Rightarrow> nat \<Rightarrow> nat \<times> u8" where
  "comment_end z c i =
    (if c \<noteq> 42 \<or> zat z i \<noteq> 47 then
       (if zat z i \<noteq> 0 then comment_end z (zat z i) (i + 1) else (i, 0))
     else (i, c))"
  by pat_completeness auto
termination
  by (relation "measure (\<lambda>(z, _, i). length z - i)") (auto simp: zat_def split: if_splits)

declare comment_end.simps [simp del]

definition tok_slash :: "bytes \<Rightarrow> nat \<times> nat" where
  "tok_slash z =
    (if zat z 1 \<noteq> 42 \<or> zat z 2 = 0 then (1, TK_SLASH)
     else case comment_end z (zat z 2) 3 of (i, c) \<Rightarrow> (if c \<noteq> 0 then i + 1 else i, TK_COMMENT))"

definition tok_compare :: "bytes \<Rightarrow> nat \<times> nat" where
  "tok_compare z =
    (let c = zat z 1
     in if cclass (zat z 0) = CC_LT then
          (if c = 61 then (2, TK_LE) else if c = 62 then (2, TK_NE)
           else if c = 60 then (2, TK_LSHIFT) else (1, TK_LT))
        else if cclass (zat z 0) = CC_GT then
          (if c = 61 then (2, TK_GE) else if c = 62 then (2, TK_RSHIFT) else (1, TK_GT))
        else (if c \<noteq> 61 then (1, TK_ILLEGAL) else (2, TK_NE)))"

text \<open>The loop over a quoted token: a doubled delimiter is skipped, a single one ends it.\<close>

function quote_end :: "bytes \<Rightarrow> u8 \<Rightarrow> nat \<Rightarrow> nat" where
  "quote_end z delim i =
    (if zat z i = 0 then i
     else if zat z i = delim then
       (if zat z (i + 1) = delim then quote_end z delim (i + 2) else i)
     else quote_end z delim (i + 1))"
  by pat_completeness auto
termination
  by (relation "measure (\<lambda>(z, _, i). length z - i)") (auto simp: zat_def split: if_splits)

declare quote_end.simps [simp del]

definition tok_quote :: "bytes \<Rightarrow> nat \<times> nat" where
  "tok_quote z =
    (let i = quote_end z (zat z 0) 1; c = zat z i
     in if c = 39 then (i + 1, TK_STRING)
        else if c \<noteq> 0 then (i + 1, TK_ID)
        else (i, TK_ILLEGAL))"

text \<open>A run of digits with separators: \<open>SQLITE_DIGIT_SEPARATOR\<close> is the underscore.\<close>

definition digit_run :: "(u8 \<Rightarrow> bool) \<Rightarrow> bytes \<Rightarrow> nat \<Rightarrow> nat \<Rightarrow> nat \<times> nat" where
  "digit_run P z i t =
    (let r = takeWhile (\<lambda>c. P c \<or> c = 95) (drop i z)
     in (i + length r, if list_ex (\<lambda>c. \<not> P c) r then TK_QNUMBER else t))"

definition as_float :: "nat \<Rightarrow> nat" where
  "as_float t = (if t = TK_INTEGER then TK_FLOAT else t)"

definition tok_fraction :: "bytes \<Rightarrow> nat \<times> nat \<Rightarrow> nat \<times> nat" where
  "tok_fraction z it =
    (case it of (i, t) \<Rightarrow> if zat z i = 46 then digit_run sqlite3Isdigit z (i + 1) (as_float t) else (i, t))"

definition tok_exponent :: "bytes \<Rightarrow> nat \<times> nat \<Rightarrow> nat \<times> nat" where
  "tok_exponent z it =
    (case it of (i, t) \<Rightarrow>
       if (zat z i = 101 \<or> zat z i = 69)
          \<and> (sqlite3Isdigit (zat z (i + 1))
             \<or> ((zat z (i + 1) = 43 \<or> zat z (i + 1) = 45) \<and> sqlite3Isdigit (zat z (i + 2))))
       then digit_run sqlite3Isdigit z (i + 2) (as_float t) else (i, t))"

definition tok_number :: "bytes \<Rightarrow> nat \<times> nat" where
  "tok_number z =
    (case (if zat z 0 = 48 \<and> (zat z 1 = 120 \<or> zat z 1 = 88) \<and> sqlite3Isxdigit (zat z 2)
           then digit_run sqlite3Isxdigit z 3 (TK_INTEGER)
           else tok_exponent z (tok_fraction z (digit_run sqlite3Isdigit z 0 (TK_INTEGER))))
     of (i, t) \<Rightarrow> (scan IdChar z i, if IdChar (zat z i) then TK_ILLEGAL else t))"

text \<open>The loop over the name of a variable; the last component says that \<open>(\<close> was left open.\<close>

function var_loop :: "bytes \<Rightarrow> nat \<Rightarrow> nat \<Rightarrow> nat \<times> nat \<times> bool" where
  "var_loop z i n =
    (let c = zat z i
     in if c = 0 then (i, n, False)
        else if IdChar c then var_loop z (i + 1) (n + 1)
        else if c = 40 \<and> n > 0 then
          (let j = scan (\<lambda>c. c \<noteq> 0 \<and> \<not> sqlite3Isspace c \<and> c \<noteq> 41) z (i + 1)
           in if zat z j = 41 then (j + 1, n, False) else (j, n, True))
        else if c = 58 \<and> zat z (i + 1) = 58 then var_loop z (i + 2) n
        else (i, n, False))"
  by pat_completeness auto
termination
  by (relation "measure (\<lambda>(z, i, _). length z - i)") (auto simp: zat_def split: if_splits)

declare var_loop.simps [simp del]

definition tok_variable :: "bytes \<Rightarrow> nat \<times> nat" where
  "tok_variable z =
    (case var_loop z 1 0 of (i, n, illegal) \<Rightarrow>
       (i, if illegal \<or> n = 0 then TK_ILLEGAL else TK_VARIABLE))"

definition tok_blob :: "bytes \<Rightarrow> nat \<times> nat" where
  "tok_blob z =
    (let i = scan sqlite3Isxdigit z 2;
         illegal = (zat z i \<noteq> 39 \<or> i mod 2 \<noteq> 0);
         i = (if illegal then scan (\<lambda>c. c \<noteq> 0 \<and> c \<noteq> 39) z i else i)
     in (if zat z i \<noteq> 0 then i + 1 else i, if illegal then TK_ILLEGAL else TK_BLOB))"

definition tok_ident :: "bytes \<Rightarrow> nat \<Rightarrow> nat \<times> nat" where
  "tok_ident z i = (scan IdChar z i, TK_ID)"

definition tok_keyword :: "bytes \<Rightarrow> nat \<times> nat" where
  "tok_keyword z =
    (if cclass (zat z 1) > CC_KYWD then tok_ident z 1
     else let i = scan (\<lambda>c. cclass c \<le> CC_KYWD) z 2
          in if IdChar (zat z i) then tok_ident z (i + 1)
             else (i, keywordCode z i (TK_ID)))"

definition sqlite3GetToken :: "bytes \<Rightarrow> nat \<times> nat" where
  "sqlite3GetToken z =
    (let cc = cclass (zat z 0)
     in if cc = CC_SPACE then (scan sqlite3Isspace z 1, TK_SPACE)
        else if cc = CC_MINUS then tok_minus z
        else if cc = CC_LP then (1, TK_LP)
        else if cc = CC_RP then (1, TK_RP)
        else if cc = CC_SEMI then (1, TK_SEMI)
        else if cc = CC_PLUS then (1, TK_PLUS)
        else if cc = CC_STAR then (1, TK_STAR)
        else if cc = CC_SLASH then tok_slash z
        else if cc = CC_PERCENT then (1, TK_REM)
        else if cc = CC_EQ then (1 + (if zat z 1 = 61 then 1 else 0), TK_EQ)
        else if cc = CC_LT \<or> cc = CC_GT \<or> cc = CC_BANG then tok_compare z
        else if cc = CC_PIPE then
          (if zat z 1 \<noteq> 124 then (1, TK_BITOR) else (2, TK_CONCAT))
        else if cc = CC_COMMA then (1, TK_COMMA)
        else if cc = CC_AND then (1, TK_BITAND)
        else if cc = CC_TILDA then (1, TK_BITNOT)
        else if cc = CC_QUOTE then tok_quote z
        else if cc = CC_DOT \<and> \<not> sqlite3Isdigit (zat z 1) then (1, TK_DOT)
        else if cc = CC_DOT \<or> cc = CC_DIGIT then tok_number z
        else if cc = CC_QUOTE2 then
          (let i = scan (\<lambda>c. c \<noteq> 0 \<and> c \<noteq> 93) z 1
           in if zat z i = 93 then (i + 1, TK_ID) else (i, TK_ILLEGAL))
        else if cc = CC_VARNUM then (scan sqlite3Isdigit z 1, TK_VARIABLE)
        else if cc = CC_DOLLAR \<or> cc = CC_VARALPHA then tok_variable z
        else if cc = CC_KYWD0 then tok_keyword z
        else if cc = CC_X \<and> zat z 1 = 39 then tok_blob z
        else if cc = CC_X \<or> cc = CC_KYWD \<or> cc = CC_ID then tok_ident z 1
        else if cc = CC_BOM then
          (if zat z 1 = 0xbb \<and> zat z 2 = 0xbf then (3, TK_SPACE) else tok_ident z 1)
        else if cc = CC_NUL then (0, TK_ILLEGAL)
        else (1, TK_ILLEGAL))"

section \<open>Every token lies inside the text\<close>

lemma scan_bounds: "i \<le> length z \<Longrightarrow> i \<le> scan P z i \<and> scan P z i \<le> length z"
  using length_takeWhile_le [of P "drop i z"] by (simp add: scan_def)

lemma comment_end_bounds:
  "i \<le> length z \<Longrightarrow> comment_end z c i = (j, d) \<Longrightarrow> i \<le> j \<and> j \<le> length z \<and> (d \<noteq> 0 \<and> c \<noteq> 0 \<longrightarrow> j < length z)"
proof (induction z c i arbitrary: j d rule: comment_end.induct)
  case (1 z c i)
  then show ?case
    using zat_inside [of z i] by (subst (asm) (2) comment_end.simps) (fastforce split: if_splits)
qed

lemma quote_end_bounds: "i \<le> length z \<Longrightarrow> i \<le> quote_end z d i \<and> quote_end z d i \<le> length z"
proof (induction z d i rule: quote_end.induct)
  case (1 z d i)
  show ?case
  proof (cases "zat z i = 0")
    case True
    then show ?thesis using "1.prems" by (simp add: quote_end.simps)
  next
    case False
    then have i: "i < length z" by (rule zat_inside)
    show ?thesis
    proof (cases "zat z i = d")
      case True
      show ?thesis
      proof (cases "zat z (i + 1) = d")
        case t2: True
        then have "i + 1 < length z" using False True zat_inside [of z "i + 1"] by simp
        then have "i + 2 \<le> quote_end z d (i + 2) \<and> quote_end z d (i + 2) \<le> length z"
          using "1.IH"(1) False True t2 by simp
        then show ?thesis using False True t2 by (subst (1 2) quote_end.simps) simp
      next
        case f2: False
        then show ?thesis using False True i by (subst (1 2) quote_end.simps) simp
      qed
    next
      case f3: False
      have "i + 1 \<le> quote_end z d (i + 1) \<and> quote_end z d (i + 1) \<le> length z"
        using "1.IH"(2) False f3 i by simp
      then show ?thesis using False f3 by (subst (1 2) quote_end.simps) simp
    qed
  qed
qed

lemma var_loop_bounds: "i \<le> length z \<Longrightarrow> i \<le> fst (var_loop z i n) \<and> fst (var_loop z i n) \<le> length z"
proof (induction z i n rule: var_loop.induct)
  case (1 z i n)
  let ?j = "scan (\<lambda>c. c \<noteq> 0 \<and> \<not> sqlite3Isspace c \<and> c \<noteq> 41) z (i + 1)"
  have i: "zat z i \<noteq> 0 \<Longrightarrow> i < length z" by (rule zat_inside)
  have j: "i < length z \<Longrightarrow> i + 1 \<le> ?j \<and> ?j \<le> length z" using scan_bounds [of "i + 1" z] by simp
  have j1: "zat z ?j = 41 \<Longrightarrow> ?j < length z" using zat_inside [of z ?j] by simp
  have i1: "zat z (i + 1) = 58 \<Longrightarrow> i + 1 < length z" using zat_inside [of z "i + 1"] by simp
  show ?case
    using "1.prems" "1.IH"(1) [OF refl] "1.IH"(2) [OF refl] i j j1 i1
    by (subst (1 2) var_loop.simps) (auto simp: Let_def)
qed

lemma digit_run_bounds: "i \<le> length z \<Longrightarrow> i \<le> fst (digit_run P z i t) \<and> fst (digit_run P z i t) \<le> length z"
  using length_takeWhile_le [of "\<lambda>c. P c \<or> c = 95" "drop i z"] by (simp add: digit_run_def Let_def)

lemma fraction_bounds: "i \<le> length z \<Longrightarrow> i \<le> fst (tok_fraction z (i, t)) \<and> fst (tok_fraction z (i, t)) \<le> length z"
  using digit_run_bounds [of "i + 1" z sqlite3Isdigit "as_float t"] zat_inside [of z i]
  by (auto simp: tok_fraction_def)

lemma isdigit_nonzero: "sqlite3Isdigit c \<Longrightarrow> c \<noteq> 0"
  by (auto simp: isdigit_iff)

lemma exponent_bounds: "i \<le> length z \<Longrightarrow> i \<le> fst (tok_exponent z (i, t)) \<and> fst (tok_exponent z (i, t)) \<le> length z"
proof -
  assume i: "i \<le> length z"
  have "i + 2 \<le> length z" if "sqlite3Isdigit (zat z (i + 1)) \<or>
      ((zat z (i + 1) = 43 \<or> zat z (i + 1) = 45) \<and> sqlite3Isdigit (zat z (i + 2)))"
    using that isdigit_nonzero zat_inside [of z "i + 1"] by fastforce
  then show ?thesis using i digit_run_bounds [of "i + 2" z sqlite3Isdigit "as_float t"]
    by (auto simp: tok_exponent_def)
qed

lemma xdigit_zero: "\<not> sqlite3Isxdigit 0" "\<not> IdChar 0" "\<not> sqlite3Isdigit 0" "\<not> sqlite3Isspace 0"
  by code_simp+

text \<open>The class table against byte values and against the identifier bit of the character table.\<close>

lemma class_table:
  "map (\<lambda>k. k = 3) aiClass = map (\<lambda>k. 48 \<le> k \<and> k \<le> 57) [0..<256]"
  "map (\<lambda>k. k = 26) aiClass = map (\<lambda>k. k = 46) [0..<256]"
  "map (\<lambda>k. k = 29) aiClass = map (\<lambda>k. k = 0) [0..<256]"
  "list_all2 (\<lambda>a t. a \<le> 2 \<or> a = 27 \<or> a = 30 \<longrightarrow> t AND 0x46 \<noteq> 0) aiClass sqlite3CtypeMap"
  "length aiClass = 256"
  by code_simp+

lemma class_lookup:
  assumes "map f aiClass = map g [0..<256]" shows "f (cclass x) = g (unat x)"
proof -
  have u: "unat x < 256" using unat_less [of x] by simp
  have "map f aiClass ! unat x = map g [0..<256] ! unat x" using assms by simp
  then show ?thesis using u class_table(5) by (simp add: cclass_def)
qed

lemma class_digit: "cclass c = CC_DIGIT \<longleftrightarrow> sqlite3Isdigit c"
  using class_lookup [OF class_table(1), of c] by (simp add: CC_DIGIT_def isdigit_iff)

lemma class_dot: "cclass c = CC_DOT \<longleftrightarrow> c = 46"
  using class_lookup [OF class_table(2), of c] by (auto simp: CC_DOT_def word_eq_iff_unsigned [where ?'a = nat])

lemma class_nul: "cclass c = CC_NUL \<longleftrightarrow> c = 0"
  using class_lookup [OF class_table(3), of c] by (auto simp: CC_NUL_def unsigned_eq_0_iff)

lemma class_id: "cclass c \<le> CC_KYWD \<or> cclass c = CC_ID \<or> cclass c = CC_BOM \<Longrightarrow> IdChar c"
proof -
  have u: "unat c < length aiClass" using unat_less [of c] class_table(5) by simp
  from list_all2_nthD [OF class_table(4) u]
  show "cclass c \<le> CC_KYWD \<or> cclass c = CC_ID \<or> cclass c = CC_BOM \<Longrightarrow> IdChar c"
    by (auto simp: cclass_def IdChar_def ctype_def CC_defs)
qed

lemma number_bounds:
  assumes "sqlite3Isdigit (zat z 0) \<or> zat z 0 = 46"
  shows "1 \<le> fst (tok_number z) \<and> fst (tok_number z) \<le> length z"
proof -
  have z0: "0 < length z" using assms isdigit_nonzero zat_inside [of z 0] by fastforce
  define it where "it = (if zat z 0 = 48 \<and> (zat z 1 = 120 \<or> zat z 1 = 88) \<and> sqlite3Isxdigit (zat z 2)
           then digit_run sqlite3Isxdigit z 3 TK_INTEGER
           else tok_exponent z (tok_fraction z (digit_run sqlite3Isdigit z 0 TK_INTEGER)))"
  have "1 \<le> fst it \<and> fst it \<le> length z"
  proof (cases "zat z 0 = 48 \<and> (zat z 1 = 120 \<or> zat z 1 = 88) \<and> sqlite3Isxdigit (zat z 2)")
    case True
    then have "zat z 2 \<noteq> 0" using xdigit_zero(1) by metis
    then have "3 \<le> length z" using zat_inside [of z 2] by simp
    then show ?thesis using True digit_run_bounds [of 3 z sqlite3Isxdigit TK_INTEGER] by (simp add: it_def)
  next
    case False
    obtain i t where d: "digit_run sqlite3Isdigit z 0 TK_INTEGER = (i, t)" by fastforce
    obtain j u where f: "tok_fraction z (i, t) = (j, u)" by fastforce
    have b: "i \<le> length z" "i \<le> j" "j \<le> length z" "j \<le> fst (tok_exponent z (j, u))" "fst (tok_exponent z (j, u)) \<le> length z"
      using digit_run_bounds [of 0 z sqlite3Isdigit TK_INTEGER] d fraction_bounds [of i z t] f exponent_bounds [of j z u]
      by auto
    have "1 \<le> j"
    proof (cases "sqlite3Isdigit (zat z 0)")
      case True
      then have "1 \<le> i" using d z0 by (cases z) (auto simp: digit_run_def Let_def zat_def)
      then show ?thesis using b by simp
    next
      case False
      then have 46: "zat z 0 = 46" using assms by simp
      then have "i = 0" using d z0 xdigit_zero by (cases z) (auto simp: digit_run_def Let_def zat_def isdigit_iff)
      then have "j = fst (digit_run sqlite3Isdigit z 1 (as_float t))" using f 46 by (simp add: tok_fraction_def)
      then show ?thesis using digit_run_bounds [of 1 z sqlite3Isdigit "as_float t"] z0 by simp
    qed
    moreover have "it = tok_exponent z (j, u)" unfolding it_def if_not_P [OF False] d f by (rule refl)
    ultimately show ?thesis using b by simp
  qed
  moreover have "tok_number z = (case it of (i, t) \<Rightarrow> (scan IdChar z i, if IdChar (zat z i) then TK_ILLEGAL else t))"
    unfolding tok_number_def it_def by (rule refl)
  ultimately show ?thesis using scan_bounds [of "fst it" z IdChar] by (cases it) auto
qed

lemma keyword_bounds: "z \<noteq> [] \<Longrightarrow> 1 \<le> fst (tok_keyword z) \<and> fst (tok_keyword z) \<le> length z"
proof -
  assume z: "z \<noteq> []"
  then have l: "1 \<le> length z" by (cases z) auto
  let ?i = "scan (\<lambda>c. cclass c \<le> CC_KYWD) z 2"
  have ident: "1 \<le> fst (tok_ident z i) \<and> fst (tok_ident z i) \<le> length z" if "1 \<le> i" "i \<le> length z" for i
    using scan_bounds [of i z IdChar] that by (simp add: tok_ident_def)
  show ?thesis
  proof (cases "cclass (zat z 1) > CC_KYWD")
    case True
    then show ?thesis using ident [of 1] l by (simp add: tok_keyword_def)
  next
    case False
    then have "IdChar (zat z 1)" using class_id [of "zat z 1"] by simp
    then have "zat z 1 \<noteq> 0" using xdigit_zero(2) by metis
    then have b: "2 \<le> ?i" "?i \<le> length z" using zat_inside [of z 1] scan_bounds [of 2 z "\<lambda>c. cclass c \<le> CC_KYWD"] by auto
    have "IdChar (zat z ?i) \<Longrightarrow> ?i < length z" using xdigit_zero(2) zat_inside [of z ?i] by metis
    then show ?thesis using False b ident [of "?i + 1"] by (auto simp: tok_keyword_def Let_def)
  qed
qed

lemma blob_bounds: "zat z 0 \<noteq> 0 \<Longrightarrow> zat z 1 = 39 \<Longrightarrow> 1 \<le> fst (tok_blob z) \<and> fst (tok_blob z) \<le> length z"
proof -
  assume "zat z 0 \<noteq> 0" "zat z 1 = 39"
  then have "2 \<le> length z" using zat_inside [of z 1] by simp
  then have i: "2 \<le> scan sqlite3Isxdigit z 2" "scan sqlite3Isxdigit z 2 \<le> length z" using scan_bounds [of 2 z] by auto
  let ?j = "scan (\<lambda>c. c \<noteq> 0 \<and> c \<noteq> 39) z (scan sqlite3Isxdigit z 2)"
  have "scan sqlite3Isxdigit z 2 \<le> ?j" "?j \<le> length z" using scan_bounds [OF i(2)] by auto
  then show ?thesis using i zat_inside [of z ?j] zat_inside [of z "scan sqlite3Isxdigit z 2"]
    by (auto simp: tok_blob_def Let_def)
qed

definition token_fits :: "bytes \<Rightarrow> nat \<times> nat \<Rightarrow> bool" where
  "token_fits z r \<longleftrightarrow> 1 \<le> fst r \<and> fst r \<le> length z"

lemma token_fits_if: "(c \<Longrightarrow> token_fits z a) \<Longrightarrow> (\<not> c \<Longrightarrow> token_fits z b) \<Longrightarrow> token_fits z (if c then a else b)"
  by simp

lemma token_fits_one: "z \<noteq> [] \<Longrightarrow> token_fits z (1, t)"
  by (cases z) (auto simp: token_fits_def)

lemma token_fits_two: "zat z 1 = c \<Longrightarrow> c \<noteq> 0 \<Longrightarrow> token_fits z (2, t)"
  using zat_inside [of z 1] by (simp add: token_fits_def)

lemma token_fits_scan: "z \<noteq> [] \<Longrightarrow> token_fits z (scan P z 1, t)"
  using scan_bounds [of 1 z P] by (cases z) (auto simp: token_fits_def)

lemma token_fits_minus: "z \<noteq> [] \<Longrightarrow> token_fits z (tok_minus z)"
proof -
  assume "z \<noteq> []"
  then have "1 \<le> length z" by (cases z) auto
  then show "token_fits z (tok_minus z)"
    using zat_inside [of z 1] zat_inside [of z 2] scan_bounds [of 2 z "\<lambda>c. c \<noteq> 0 \<and> c \<noteq> 10"]
    by (auto simp: tok_minus_def token_fits_def)
qed

lemma token_fits_slash: "z \<noteq> [] \<Longrightarrow> token_fits z (tok_slash z)"
proof -
  assume z: "z \<noteq> []"
  show "token_fits z (tok_slash z)"
  proof (cases "zat z 1 \<noteq> 42 \<or> zat z 2 = 0")
    case True
    then show ?thesis using token_fits_one [OF z] by (auto simp: tok_slash_def)
  next
    case False
    then have "3 \<le> length z" using zat_inside [of z 2] by simp
    moreover obtain i c where e: "comment_end z (zat z 2) 3 = (i, c)" by fastforce
    ultimately have "3 \<le> i \<and> i \<le> length z \<and> (c \<noteq> 0 \<and> zat z 2 \<noteq> 0 \<longrightarrow> i < length z)" by (intro comment_end_bounds)
    then show ?thesis using False e by (auto simp: tok_slash_def token_fits_def)
  qed
qed

lemma token_fits_compare: "z \<noteq> [] \<Longrightarrow> token_fits z (tok_compare z)"
  unfolding tok_compare_def Let_def by (intro token_fits_if token_fits_one) (auto intro: token_fits_two)

lemma token_fits_quote: "z \<noteq> [] \<Longrightarrow> token_fits z (tok_quote z)"
  using quote_end_bounds [of 1 z "zat z 0"] zat_inside [of z "quote_end z (zat z 0) 1"]
  by (cases z) (auto simp: tok_quote_def Let_def token_fits_def)

lemma token_fits_variable: "z \<noteq> [] \<Longrightarrow> token_fits z (tok_variable z)"
  using var_loop_bounds [of 1 z 0]
  by (cases z) (auto simp: tok_variable_def token_fits_def split: prod.splits)

lemma token_fits_bracket:
  "z \<noteq> [] \<Longrightarrow> token_fits z (let i = scan P z 1 in if zat z i = 93 then (i + 1, t) else (i, u))"
  using scan_bounds [of 1 z P] zat_inside [of z "scan P z 1"]
  by (cases z) (auto simp: token_fits_def Let_def)

lemma token_fits_bom: "z \<noteq> [] \<Longrightarrow> token_fits z (if zat z 1 = 0xbb \<and> zat z 2 = 0xbf then (3, t) else tok_ident z 1)"
  using token_fits_scan [of z IdChar TK_ID] zat_inside [of z 2] by (auto simp: token_fits_def tok_ident_def)

lemma GetToken_fits:
  assumes z0: "zat z 0 \<noteq> 0"
  shows "token_fits z (sqlite3GetToken z)"
proof -
  have z: "z \<noteq> []" using z0 by (auto simp: zat_def)
  have nul: "cclass (zat z 0) \<noteq> CC_NUL" using z0 by (simp add: class_nul)
  have ident: "token_fits z (tok_ident z 1)" using token_fits_scan [OF z] by (simp add: tok_ident_def)
  have eq: "token_fits z (1 + (if zat z 1 = 61 then 1 else 0), t)" for t
  proof (cases "zat z 1 = 61")
    case True
    then have "token_fits z (2, t)" by (rule token_fits_two) simp
    moreover have "1 + (if zat z 1 = 61 then 1 else 0) = (2 :: nat)" using True by simp
    ultimately show ?thesis by (simp only:)
  next
    case False
    then show ?thesis using token_fits_one [OF z, of t] by simp
  qed
  have num: "cclass (zat z 0) = CC_DOT \<or> cclass (zat z 0) = CC_DIGIT \<Longrightarrow> token_fits z (tok_number z)"
    using number_bounds [of z] by (auto simp: token_fits_def class_digit class_dot)
  have blob: "cclass (zat z 0) = CC_X \<and> zat z 1 = 39 \<Longrightarrow> token_fits z (tok_blob z)"
    using blob_bounds [OF z0] by (simp add: token_fits_def)
  have pipe: "token_fits z (if zat z 1 \<noteq> 124 then (1, t) else (2, u))" for t u
    using token_fits_one [OF z] token_fits_two [of z 124] by simp
  have key: "token_fits z (tok_keyword z)" using keyword_bounds [OF z] by (simp add: token_fits_def)
  note ones = token_fits_one [OF z] token_fits_scan [OF z] token_fits_minus [OF z] token_fits_slash [OF z]
    token_fits_compare [OF z] token_fits_quote [OF z] token_fits_variable [OF z] token_fits_bracket [OF z]
    token_fits_bom [OF z] ident eq key pipe
  show ?thesis
    unfolding sqlite3GetToken_def Let_def [of "cclass (zat z 0)"]
    by (rule ones | (rule num, blast) | (rule blob, blast) | rule token_fits_if | use nul in simp)+
qed

section \<open>Splitting a text into tokens\<close>

lemma GetToken_end: "zat z 0 = 0 \<Longrightarrow> sqlite3GetToken z = (0, TK_ILLEGAL)"
proof -
  assume "zat z 0 = 0"
  then have "cclass (zat z 0) = CC_NUL" by (simp add: class_nul)
  then show ?thesis by (simp add: sqlite3GetToken_def CC_defs)
qed

lemma GetToken_length: "zat z 0 \<noteq> 0 \<Longrightarrow> length (drop (fst (sqlite3GetToken z)) z) < length z"
  using GetToken_fits [of z] by (auto simp: token_fits_def)

function sql_split :: "bytes \<Rightarrow> (bytes \<times> nat) list" where
  "sql_split z =
    (if zat z 0 = 0 then []
     else case sqlite3GetToken z of (n, t) \<Rightarrow> (take n z, t) # sql_split (drop n z))"
  by pat_completeness auto
termination
proof (relation "measure length", goal_cases)
  case (2 z n t)
  then have "length (drop n z) < length z" using GetToken_length [of z] by (metis fst_conv)
  then show ?case by simp
qed simp

declare sql_split.simps [simp del]

lemma cstr_drop: "cstr z \<Longrightarrow> cstr (drop n z)"
  using in_set_dropD by (fastforce simp: cstr_def)

lemma cstr_zat: "cstr z \<Longrightarrow> zat z 0 = 0 \<longleftrightarrow> z = []"
  by (cases z) (auto simp: zat_def)

text \<open>C34. Repeating \<open>sqlite3GetToken\<close> cuts every text into tokens: each takes at least one byte and never
  reaches past the terminator, so the repetition ends, and the tokens put together are the text.\<close>
theorem tokens_partition:
  "cstr z \<Longrightarrow> concat (map fst (sql_split z)) = z \<and> (\<forall>(s, t)\<in>set (sql_split z). s \<noteq> [])
     \<and> (z \<noteq> [] \<longrightarrow> 1 \<le> fst (sqlite3GetToken z) \<and> fst (sqlite3GetToken z) \<le> length z)"
proof (induction z rule: sql_split.induct)
  case (1 z)
  show ?case
  proof (cases "z = []")
    case True
    then show ?thesis by (simp add: sql_split.simps zat_def)
  next
    case False
    then have z0: "zat z 0 \<noteq> 0" using "1.prems" by (simp add: cstr_zat)
    obtain n t where g: "sqlite3GetToken z = (n, t)" by fastforce
    then have n: "1 \<le> n" "n \<le> length z" using GetToken_fits [OF z0] by (auto simp: token_fits_def)
    have "cstr (drop n z)" using "1.prems" by (rule cstr_drop)
    then have IH: "concat (map fst (sql_split (drop n z))) = drop n z" "\<forall>(s, t)\<in>set (sql_split (drop n z)). s \<noteq> []"
      using "1.IH" [of n t] g z0 by auto
    have "sql_split z = (take n z, t) # sql_split (drop n z)"
      using z0 g by (subst sql_split.simps) simp
    then show ?thesis using IH n g False by auto
  qed
qed

lemma tokens_partition_witness: "concat (map fst (sql_split [83, 69, 76, 69, 67, 84, 32, 49])) = [83, 69, 76, 69, 67, 84, 32, 49]"
  using tokens_partition [of "[83, 69, 76, 69, 67, 84, 32, 49]"] by simp

section \<open>String literals\<close>

lemma quote_end_step: "zat z i \<noteq> 0 \<Longrightarrow> zat z i \<noteq> d \<Longrightarrow> quote_end z d i = quote_end z d (i + 1)"
  "zat z i \<noteq> 0 \<Longrightarrow> zat z i = d \<Longrightarrow> zat z (i + 1) = d \<Longrightarrow> quote_end z d i = quote_end z d (i + 2)"
  "zat z i \<noteq> 0 \<Longrightarrow> zat z i = d \<Longrightarrow> zat z (i + 1) \<noteq> d \<Longrightarrow> quote_end z d i = i"
  by (subst quote_end.simps, simp)+

lemma zat_append: "zat (xs @ ys) (length xs) = chr0 ys" "zat (xs @ y # ys) (Suc (length xs)) = chr0 ys"
  by (cases ys; simp add: zat_def nth_append)+

lemma quote_end_double:
  "d \<noteq> 0 \<Longrightarrow> cstr body \<Longrightarrow> chr0 rest \<noteq> d \<Longrightarrow>
     quote_end (pre @ double_quote d body @ d # rest) d (length pre) = length (pre @ double_quote d body)"
proof (induction body arbitrary: pre)
  case Nil
  have "zat (pre @ d # rest) (length pre) = d" "zat (pre @ d # rest) (length pre + 1) = chr0 rest"
    using zat_append(1) [of pre "d # rest"] zat_append(2) [of pre d rest] by simp_all
  then show ?case using Nil quote_end_step(3) [of "pre @ d # rest" "length pre" d] by simp
next
  case (Cons c body)
  show ?case
  proof (cases "c = d")
    case True
    let ?z = "pre @ d # d # double_quote d body @ d # rest"
    have "zat ?z (length pre) = d" "zat ?z (length pre + 1) = d"
      using zat_append(1) [of pre "d # d # double_quote d body @ d # rest"]
        zat_append(2) [of pre d "d # double_quote d body @ d # rest"] by simp_all
    then have "quote_end ?z d (length pre) = quote_end ?z d (length pre + 2)"
      using Cons.prems(1) quote_end_step(2) [of ?z "length pre" d] by simp
    then show ?thesis using Cons.IH [of "pre @ [d, d]"] Cons.prems True by simp
  next
    case False
    let ?z = "pre @ c # double_quote d body @ d # rest"
    have "zat ?z (length pre) = c" using zat_append(1) [of pre "c # double_quote d body @ d # rest"] by simp
    then have "quote_end ?z d (length pre) = quote_end ?z d (length pre + 1)"
      using Cons.prems(2) False quote_end_step(1) [of ?z "length pre" d] by simp
    then show ?thesis using Cons.IH [of "pre @ [c]"] Cons.prems False by simp
  qed
qed

lemma class_quote: "cclass 39 = CC_QUOTE" "cclass 34 = CC_QUOTE" "cclass 96 = CC_QUOTE"
  by code_simp+

lemma class_quote_only: "cc = CC_QUOTE \<Longrightarrow> cc \<noteq> CC_SPACE \<and> cc \<noteq> CC_MINUS \<and> cc \<noteq> CC_LP \<and> cc \<noteq> CC_RP \<and> cc \<noteq> CC_SEMI
    \<and> cc \<noteq> CC_PLUS \<and> cc \<noteq> CC_STAR \<and> cc \<noteq> CC_SLASH \<and> cc \<noteq> CC_PERCENT \<and> cc \<noteq> CC_EQ \<and> cc \<noteq> CC_LT \<and> cc \<noteq> CC_GT
    \<and> cc \<noteq> CC_BANG \<and> cc \<noteq> CC_PIPE \<and> cc \<noteq> CC_COMMA \<and> cc \<noteq> CC_AND \<and> cc \<noteq> CC_TILDA"
  by (simp add: CC_defs)

lemma GetToken_quote:
  assumes "cclass (zat z 0) = CC_QUOTE" shows "sqlite3GetToken z = tok_quote z"
  using class_quote_only [OF assms] assms by (simp add: sqlite3GetToken_def)

text \<open>C32. A text written between quotes with the quote doubled, whatever it contains, is read back as one
  token: a string literal for single quotes, an identifier for double quotes and grave accents; and
  dequoting the token gives the text.\<close>
theorem quoted_text_is_one_token:
  assumes "q \<in> {39, 34, 96}" and "cstr body" and "chr0 rest \<noteq> q"
  shows "sqlite3GetToken (q # double_quote q body @ q # rest)
      = (length (double_quote q body) + 2, if q = 39 then TK_STRING else TK_ID)
    \<and> sqlite3Dequote (take (length (double_quote q body) + 2) (q # double_quote q body @ q # rest)) = Some body"
proof
  let ?z = "q # double_quote q body @ q # rest"
  have q: "q \<noteq> 0" "cclass q = CC_QUOTE" "sqlite3Isquote q" "q \<noteq> 91" using assms(1) class_quote by (auto simp: isquote_iff)
  have z0: "zat ?z 0 = q" by (simp add: zat_def)
  have e: "quote_end ?z q 1 = length (double_quote q body) + 1"
    using quote_end_double [OF q(1) assms(2,3), of "[q]"] by simp
  have "zat ([q] @ double_quote q body @ q # rest) (length ([q] @ double_quote q body)) = q"
    using zat_append(1) [of "[q] @ double_quote q body" "q # rest"] by simp
  then have c: "zat ?z (length (double_quote q body) + 1) = q" by simp
  have "sqlite3GetToken ?z = tok_quote ?z" by (rule GetToken_quote) (simp add: z0 q(2))
  then show "sqlite3GetToken ?z = (length (double_quote q body) + 2, if q = 39 then TK_STRING else TK_ID)"
    unfolding tok_quote_def z0 Let_def e c using q(1) by auto
  have "take (length (double_quote q body) + 2) ?z = q # double_quote q body @ [q]" by simp
  moreover have "sqlite3Dequote (q # double_quote q body @ [q]) = dequote_loop q (double_quote q body @ [q])"
    using q by (simp add: sqlite3Dequote_def)
  moreover have "dequote_loop q (double_quote q body @ [q]) = Some body"
    using dequote_double [of "[]" q body] q(1) by simp
  ultimately show "sqlite3Dequote (take (length (double_quote q body) + 2) ?z) = Some body" by simp
qed

lemma quoted_text_is_one_token_witness:
  "sqlite3GetToken (39 # double_quote 39 [97, 39, 59] @ 39 # [59]) = (length (double_quote 39 [97, 39, 59]) + 2, TK_STRING)"
  using quoted_text_is_one_token [of 39 "[97, 39, 59]" "[59]"] by simp

section \<open>Words\<close>

lemma word_table:
  "list_all (\<lambda>(k, (a, t)). t AND 0x46 \<noteq> 0 \<and> (65 \<le> (223 AND k) \<and> (223 AND k) \<le> 90 \<or> (223 AND k) = (95 :: int)) \<longrightarrow> a \<le> 2)
     (zip [0..255] (zip aiClass sqlite3CtypeMap))"
  "list_all (\<lambda>(k, (a, t)). t AND 0x46 \<noteq> 0 \<and> 65 \<le> (223 AND k) \<and> (223 AND k) \<le> (87 :: int) \<longrightarrow> a = 1)
     (zip [0..255] (zip aiClass sqlite3CtypeMap))"
  by code_simp+

lemma word_lookup:
  assumes "list_all (\<lambda>(k, (a, t)). t AND 0x46 \<noteq> 0 \<and> P (223 AND k) \<longrightarrow> Q a) (zip [0..255] (zip aiClass sqlite3CtypeMap))"
    and "IdChar c" and "P (223 AND int (unat c))"
  shows "Q (cclass c)"
proof -
  have u: "unat c < 256" using unat_less [of c] by simp
  have len: "length (zip [0..255 :: int] (zip aiClass sqlite3CtypeMap)) = 256" using class_table(5) by simp
  have "[0..255] ! unat c = int (unat c)" using u by (subst nth_upto) (linarith, simp)
  then have "zip [0..255] (zip aiClass sqlite3CtypeMap) ! unat c = (int (unat c), (cclass c, ctype c))"
    using u class_table(5) by (simp add: cclass_def ctype_def del: of_nat_unat)
  with assms(1) u len have "ctype c AND 0x46 \<noteq> 0 \<and> P (223 AND int (unat c)) \<longrightarrow> Q (cclass c)"
    unfolding list_all_length by fastforce
  then show ?thesis using assms(2,3) by (simp add: IdChar_def)
qed

lemma name_letters: "list_all (\<lambda>s. (65 :: int) \<le> of_char (hd s) \<and> of_char (hd s) \<le> (87 :: int)
    \<and> list_all (\<lambda>c. 65 \<le> (of_char c :: int) \<and> of_char c \<le> (90 :: int) \<or> of_char c = (95 :: int)) s) keyword_names"
  by code_simp

text \<open>Only words of letters and underscores that begin with the class of keywords are keywords.\<close>

lemma keyword_classes:
  assumes "sqlite3KeywordCode w n \<noteq> TK_ID" and "n \<le> length w" and "list_all IdChar w"
  shows "n \<ge> 2" and "cclass (w ! 0) = CC_KYWD0" and "j < n \<Longrightarrow> cclass (w ! j) \<le> CC_KYWD"
proof -
  show n: "n \<ge> 2" using assms(1) by (auto simp: sqlite3KeywordCode_def split: if_splits)
  obtain y where "map_of (zip (map as_bytes keyword_names) (tl aKWCode)) (fold_case w n) = Some y"
    using assms(1) keyword_lookup [of w n] by (auto split: option.splits)
  from set_zip_leftD [OF map_of_SomeD [OF this]]
  obtain s where s: "s \<in> set keyword_names" "fold_case w n = as_bytes s" by auto
  have len: "length s = n" using arg_cong [OF s(2), of length] by (simp add: fold_case_def as_bytes_def)
  have h: "s ! 0 = hd s" using len n by (cases s) auto
  have l: "(65 :: int) \<le> of_char (s ! 0)" "of_char (s ! 0) \<le> (87 :: int)"
      "\<And>j. j < n \<Longrightarrow> 65 \<le> (of_char (s ! j) :: int) \<and> of_char (s ! j) \<le> (90 :: int) \<or> of_char (s ! j) = (95 :: int)"
    using name_letters s(1) len unfolding h by (auto simp: list_all_iff)
  have at: "223 AND int (unat (w ! j)) = of_char (s ! j)" if "j < n" for j
  proof -
    have "unfold_case (w ! j) = of_char (s ! j)"
      using arg_cong [OF s(2), of "\<lambda>xs. xs ! j"] that len assms(2) by (simp add: fold_case_def as_bytes_def zat_def)
    from arg_cong [OF this, of unat] have "223 AND unat (w ! j) = of_char (s ! j)"
      by (simp add: unfold_case_def unat_of_char unsigned_and_eq and.commute)
    from arg_cong [OF this, of int] show ?thesis
      by (simp only: of_nat_and_eq of_nat_numeral of_nat_of_char)
  qed
  have id: "j < n \<Longrightarrow> IdChar (w ! j)" for j using assms(2,3) by (simp add: list_all_length)
  have "cclass (w ! 0) = 1"
    using word_lookup [OF word_table(2), of "w ! 0"] id [of 0] at [of 0] l(1,2) n by simp
  then show "cclass (w ! 0) = CC_KYWD0" by (simp add: CC_defs)
  have "cclass (w ! j) \<le> 2" if "j < n"
    using word_lookup [OF word_table(1), of "w ! j"] id [OF that] at [OF that] l(3) [OF that] by simp
  then show "j < n \<Longrightarrow> cclass (w ! j) \<le> CC_KYWD" by (simp add: CC_defs)
qed

lemma scan_word:
  assumes "i \<le> length w" and "list_all P (drop i w)" and "\<not> P (chr0 rest)"
  shows "scan P (w @ rest) i = length w"
proof -
  have "takeWhile P (drop i w @ rest) = drop i w @ takeWhile P rest"
    using assms(2) by (intro takeWhile_append2) (simp add: list_all_iff)
  moreover have "takeWhile P rest = []" using assms(3) by (cases rest) auto
  ultimately show ?thesis using assms(1) by (simp add: scan_def)
qed

lemma keywordCode_prefix:
  assumes "0 < n" and "\<And>j. j < n \<Longrightarrow> zat z j = zat w j" shows "keywordCode z n t = keywordCode w n t"
proof -
  have "keyword_match z n = keyword_match w n"
    using assms(2) by (intro ext) (auto simp: keyword_match_def list_all_iff)
  moreover have "keyword_hash z n = keyword_hash w n" using assms(2) [of 0] assms(2) [of "n - 1"] assms(1)
    by (simp add: keyword_hash_def)
  ultimately show ?thesis by (simp add: keywordCode_def keyword_loop_chain)
qed

lemma class_two_id: "cclass c \<le> CC_KYWD \<Longrightarrow> IdChar c"
  by (rule class_id) simp

lemma GetToken_ident:
  assumes "cclass (zat z 0) = CC_KYWD \<or> cclass (zat z 0) = CC_ID \<or> cclass (zat z 0) = CC_X \<and> zat z 1 \<noteq> 39"
  shows "sqlite3GetToken z = tok_ident z 1"
  using assms by (auto simp: sqlite3GetToken_def CC_defs)

lemma GetToken_keyword: "cclass (zat z 0) = CC_KYWD0 \<Longrightarrow> sqlite3GetToken z = tok_keyword z"
  by (simp add: sqlite3GetToken_def CC_defs)

text \<open>C33. A word (identifier bytes, the first of which is a letter, an underscore or a byte above
  ASCII other than 0xEF, which may begin a byte order mark) followed by a byte that cannot continue it
  and is not a single quote (which after an \<open>x\<close> begins a blob) is read as one token of exactly its length, whose
  code is that of the keyword it spells, in any case of letters, or of an identifier.\<close>
theorem word_is_one_token:
  assumes "w \<noteq> []" and "list_all IdChar w" and "cclass (hd w) \<le> CC_KYWD \<or> cclass (hd w) = CC_ID"
    and "\<not> IdChar (chr0 rest)" and "chr0 rest \<noteq> 39"
  shows "sqlite3GetToken (w @ rest) = (length w, sqlite3KeywordCode w (length w))"
proof -
  let ?z = "w @ rest" and ?n = "length w"
  have n: "1 \<le> ?n" using assms(1) by (cases w) auto
  have in_w: "zat ?z j = w ! j" if "j < ?n" for j using that by (simp add: zat_def nth_append)
  have in_w': "zat w j = w ! j" if "j < ?n" for j using that by (simp add: zat_def)
  have id: "IdChar (w ! j)" if "j < ?n" for j using assms(2) that by (simp add: list_all_length)
  have z0: "zat ?z 0 = hd w" using in_w [of 0] n assms(1) by (simp add: hd_conv_nth)
  have z1: "zat ?z 1 = (if ?n = 1 then chr0 rest else w ! 1)"
    using zat_append(1) [of w rest] in_w [of 1] n by auto
  have ident: "tok_ident ?z i = (?n, TK_ID)" if "i \<le> ?n" for i
    using scan_word [OF that, of IdChar rest] assms(2,4) by (simp add: tok_ident_def list_all_iff in_set_dropD)
  have other: "sqlite3KeywordCode w ?n = TK_ID" if "cclass (w ! j) > CC_KYWD" "j < ?n" for j
    using keyword_classes(3) [of w ?n j] that assms(2) by fastforce
  show ?thesis
  proof (cases "cclass (hd w) = CC_KYWD0")
    case False
    have "zat ?z 1 \<noteq> 39"
    proof (cases "?n = 1")
      case True
      then show ?thesis using z1 assms(5) by simp
    next
      case False
      then have "IdChar (w ! 1)" using id [of 1] n by simp
      moreover have "\<not> IdChar 39" by code_simp
      ultimately show ?thesis using z1 False by metis
    qed
    then have "sqlite3GetToken ?z = tok_ident ?z 1"
      using assms(3) False by (intro GetToken_ident) (auto simp: z0 CC_defs)
    moreover have "sqlite3KeywordCode w ?n = TK_ID"
      using keyword_classes(2) [of w ?n] False assms(1,2) by (auto simp: hd_conv_nth)
    ultimately show ?thesis using ident [OF n] by simp
  next
    case True
    then have g: "sqlite3GetToken ?z = tok_keyword ?z" using z0 by (simp add: GetToken_keyword)
    show ?thesis
    proof (cases "cclass (zat ?z 1) > CC_KYWD")
      case c1: True
      have "sqlite3KeywordCode w ?n = TK_ID"
      proof (cases "?n = 1")
        case False
        then show ?thesis using other [of 1] c1 z1 n by simp
      qed (simp add: sqlite3KeywordCode_def)
      then show ?thesis using g c1 ident [OF n] by (simp add: tok_keyword_def)
    next
      case c1: False
      then have "IdChar (zat ?z 1)" by (intro class_two_id) simp
      then have n2: "2 \<le> ?n" using z1 assms(4) n by (auto split: if_splits)
      have end_class: "\<not> cclass (chr0 rest) \<le> CC_KYWD" using assms(4) class_two_id by blast
      let ?Q = "\<lambda>c. cclass c \<le> CC_KYWD"
      let ?i = "scan ?Q ?z 2"
      show ?thesis
      proof (cases "list_all ?Q (drop 2 w)")
        case True
        then have i: "?i = ?n" using scan_word [OF n2, of ?Q rest] end_class by simp
        have "zat ?z ?n = chr0 rest" by (rule zat_append(1))
        then have "sqlite3GetToken ?z = (?n, keywordCode ?z ?n TK_ID)"
          using g c1 i assms(4) by (simp add: tok_keyword_def Let_def)
        also have "keywordCode ?z ?n TK_ID = keywordCode w ?n TK_ID"
          using n2 in_w in_w' by (intro keywordCode_prefix) auto
        finally show ?thesis using n2 by (simp add: sqlite3KeywordCode_def)
      next
        case False
        let ?k = "length (takeWhile ?Q (drop 2 w))"
        have k: "?k < length (drop 2 w)"
        proof (rule ccontr)
          assume "\<not> ?k < length (drop 2 w)"
          then have "takeWhile ?Q (drop 2 w) = drop 2 w"
            by (metis takeWhile_eq_take linorder_not_less take_all)
          then show False using False by (metis list_all_iff takeWhile_eq_all_conv)
        qed
        have out: "\<not> ?Q (drop 2 w ! ?k)" by (rule nth_length_takeWhile [OF k])
        obtain x where x: "x \<in> set (drop 2 w)" "\<not> ?Q x" using False by (auto simp: list_all_iff)
        have "takeWhile ?Q (drop 2 w @ rest) = takeWhile ?Q (drop 2 w)"
          using x by (intro takeWhile_append1)
        then have i: "?i = 2 + ?k" using n2 by (simp add: scan_def)
        have iw: "?i < ?n" "w ! ?i = drop 2 w ! ?k" using k i n2 by auto
        have "IdChar (zat ?z ?i)" using in_w [OF iw(1)] id [OF iw(1)] by simp
        then have "sqlite3GetToken ?z = (?n, TK_ID)"
          using g c1 ident [of "?i + 1"] iw(1) by (simp add: tok_keyword_def Let_def)
        moreover have "sqlite3KeywordCode w ?n = TK_ID" using other [of ?i] iw out by simp
        ultimately show ?thesis by simp
      qed
    qed
  qed
qed

lemma word_is_one_token_witness:
  "sqlite3GetToken ([115, 69, 108] @ [32, 49]) = (length [115, 69, 108 :: u8], sqlite3KeywordCode [115, 69, 108] (length [115, 69, 108 :: u8]))"
proof -
  have "list_all IdChar [115, 69, 108]" "cclass (hd [115, 69, 108]) \<le> CC_KYWD"
      "\<not> IdChar (chr0 [32, 49])" by code_simp+
  then show ?thesis by (intro word_is_one_token) simp_all
qed

end
