(* ===== verification/RunParser.thy ===== *)
theory RunParser
  imports Tokenize
begin

text \<open>
  The driver of the parser (\<open>tokenize.c\<close>): the look-ahead that decides whether \<open>WINDOW\<close>, \<open>OVER\<close> and
  \<open>FILTER\<close> are keywords, and the loop of \<open>sqlite3RunParser\<close> that reads tokens and feeds them.  The
  grammar with its semantic actions is a parameter: \<open>parser\<close> maps a parse context, a token code and
  the text of the token to the context after it.  What other threads do to the interrupt flag is the
  parameter \<open>irq\<close>: the value the k-th load of the flag finds.
\<close>

section \<open>Keywords in context\<close>

definition sqlite3IsIdChar :: "u8 \<Rightarrow> bool" where
  "sqlite3IsIdChar c = IdChar c"

function getToken :: "bytes \<Rightarrow> nat \<times> bytes" where
  "getToken z =
    (case sqlite3GetToken z of (n, t) \<Rightarrow>
       if t = TK_SPACE \<or> t = TK_COMMENT then getToken (drop n z)
       else (if t = TK_ID \<or> t = TK_STRING \<or> t = TK_JOIN_KW \<or> t = TK_WINDOW \<or> t = TK_OVER
                \<or> sqlite3ParserFallback t = TK_ID
             then TK_ID else t, drop n z))"
  by pat_completeness auto
termination
proof (relation "measure length", goal_cases)
  case (2 z n t)
  have "zat z 0 \<noteq> 0" using 2 GetToken_end [of z] by (auto simp: TK_values)
  then have "length (drop n z) < length z" using GetToken_length [of z] 2(1) by (metis fst_conv)
  then show ?case by simp
qed simp

declare getToken.simps [simp del]

definition analyzeWindowKeyword :: "bytes \<Rightarrow> nat" where
  "analyzeWindowKeyword z =
    (case getToken z of (t, z) \<Rightarrow>
       if t \<noteq> TK_ID then TK_ID
       else case getToken z of (t, z) \<Rightarrow> if t \<noteq> TK_AS then TK_ID else TK_WINDOW)"

definition analyzeOverKeyword :: "bytes \<Rightarrow> int \<Rightarrow> nat" where
  "analyzeOverKeyword z lastToken =
    (if lastToken = int TK_RP \<and> (fst (getToken z) = TK_LP \<or> fst (getToken z) = TK_ID) then TK_OVER
     else TK_ID)"

definition analyzeFilterKeyword :: "bytes \<Rightarrow> int \<Rightarrow> nat" where
  "analyzeFilterKeyword z lastToken =
    (if lastToken = int TK_RP \<and> fst (getToken z) = TK_LP then TK_FILTER else TK_ID)"

section \<open>The parse context\<close>

text \<open>The members of \<open>Parse\<close> that the driver touches; \<open>engine\<close> is everything else the parser keeps.\<close>

record 'p parse =
  engine :: 'p
  p_rc :: rc
  nErr :: nat
  zErrMsg :: "bytes option"
  zTail :: bytes
  sLastToken :: bytes
  mallocFailed :: bool

text \<open>The members of the connection: \<open>ignoreComments\<close> stands for
  \<open>db->init.busy || (db->flags & SQLITE_Comments)\<close>.\<close>

record connection =
  limitSqlLength :: int
  ignoreComments :: bool
  suppressErr :: bool

definition sqlite3ErrorMsg :: "connection \<Rightarrow> 'p parse \<Rightarrow> bytes \<Rightarrow> 'p parse" where
  "sqlite3ErrorMsg db p zMsg =
    (if suppressErr db then
       (if mallocFailed p then p\<lparr>nErr := nErr p + 1, p_rc := SQLITE_NOMEM\<rparr> else p)
     else p\<lparr>nErr := nErr p + 1, zErrMsg := Some zMsg, p_rc := SQLITE_ERROR\<rparr>)"

definition ascii :: "string \<Rightarrow> bytes" where
  "ascii s = map of_char s"

definition sqlite3ErrStr :: "rc \<Rightarrow> string" where
  "sqlite3ErrStr rc =
    (case rc of
       SQLITE_OK \<Rightarrow> ''not an error''
     | SQLITE_ERROR \<Rightarrow> ''SQL logic error''
     | SQLITE_INTERNAL \<Rightarrow> ''unknown error''
     | SQLITE_PERM \<Rightarrow> ''access permission denied''
     | SQLITE_ABORT \<Rightarrow> ''query aborted''
     | SQLITE_BUSY \<Rightarrow> ''database is locked''
     | SQLITE_LOCKED \<Rightarrow> ''database table is locked''
     | SQLITE_NOMEM \<Rightarrow> ''out of memory''
     | SQLITE_READONLY \<Rightarrow> ''attempt to write a readonly database''
     | SQLITE_INTERRUPT \<Rightarrow> ''interrupted''
     | SQLITE_CORRUPT \<Rightarrow> ''database disk image is malformed''
     | SQLITE_NOTFOUND \<Rightarrow> ''unknown operation''
     | SQLITE_FULL \<Rightarrow> ''database or disk is full''
     | SQLITE_CANTOPEN \<Rightarrow> ''unable to open database file''
     | SQLITE_PROTOCOL \<Rightarrow> ''locking protocol''
     | SQLITE_TOOBIG \<Rightarrow> ''string or blob too big''
     | SQLITE_MISUSE \<Rightarrow> ''bad parameter or other API misuse''
     | SQLITE_NOTADB \<Rightarrow> ''file is not a database''
     | SQLITE_DONE \<Rightarrow> ''no more rows available''
     | _ \<Rightarrow> ''disk I/O error'')"

section \<open>The loop\<close>

type_synonym 'p parser = "'p parse \<Rightarrow> nat \<Rightarrow> bytes \<Rightarrow> 'p parse"

text \<open>The code and length handed on for a token at or above \<open>TK_WINDOW\<close> that is neither space nor
  the end of the text, or \<open>None\<close> where the loop takes another way.\<close>

definition context_token :: "bytes \<Rightarrow> nat \<Rightarrow> int \<Rightarrow> nat option" where
  "context_token z t lastToken =
    (if t = TK_WINDOW then Some (analyzeWindowKeyword (drop 6 z))
     else if t = TK_OVER then Some (analyzeOverKeyword (drop 4 z) lastToken)
     else if t = TK_FILTER then Some (analyzeFilterKeyword (drop 6 z) lastToken)
     else if t = TK_QNUMBER then Some t
     else None)"

text \<open>At the end of the text the parser gets \<open>TK_SEMI\<close>, unless it had one, and then 0.\<close>

definition end_token :: "int \<Rightarrow> nat option" where
  "end_token lastToken =
    (if lastToken = int TK_SEMI then Some 0 else if lastToken = 0 then None else Some TK_SEMI)"

text \<open>What a pass of the loop does with the token it reads: \<open>irq\<close> is the value of the interrupt flag.\<close>

datatype action = Feed nat nat | Skip nat | Finished | TooBig | Interrupted | Unrecognized nat

definition next_action :: "connection \<Rightarrow> bool \<Rightarrow> bytes \<Rightarrow> int \<Rightarrow> int \<Rightarrow> action" where
  "next_action db irq z mxSqlLen lastToken =
    (case sqlite3GetToken z of (n, t) \<Rightarrow>
       if mxSqlLen - int n < 0 then TooBig
       else if t < TK_WINDOW then Feed n t
       else if irq then Interrupted
       else if t = TK_SPACE then Skip n
       else if zat z 0 = 0 then
         (case end_token lastToken of None \<Rightarrow> Finished | Some t \<Rightarrow> Feed 0 t)
       else case context_token z t lastToken of
         Some t \<Rightarrow> Feed n t
       | None \<Rightarrow> if t = TK_COMMENT \<and> ignoreComments db then Skip n else Unrecognized n)"

lemma next_action_moves:
  "next_action db irq z mx la = Skip n \<Longrightarrow> length (drop n z) < length z"
  "next_action db irq z mx la = Feed n t \<Longrightarrow> zat z 0 \<noteq> 0 \<Longrightarrow> length (drop n z) < length z"
  "next_action db irq z mx la = Feed n t \<Longrightarrow> zat z 0 = 0 \<Longrightarrow> n = 0 \<and> end_token la = Some t"
proof -
  obtain k u where g: "sqlite3GetToken z = (k, u)" by fastforce
  have e: "zat z 0 = 0 \<Longrightarrow> k = 0 \<and> u = TK_ILLEGAL" using g GetToken_end [of z] by simp
  have l: "zat z 0 \<noteq> 0 \<Longrightarrow> length (drop k z) < length z" using GetToken_length [of z] g by simp
  show "next_action db irq z mx la = Skip n \<Longrightarrow> length (drop n z) < length z"
    using l e by (auto simp: next_action_def g TK_values split: if_splits option.splits)
  show "next_action db irq z mx la = Feed n t \<Longrightarrow> zat z 0 \<noteq> 0 \<Longrightarrow> length (drop n z) < length z"
    using l by (auto simp: next_action_def g split: if_splits option.splits)
  show "next_action db irq z mx la = Feed n t \<Longrightarrow> zat z 0 = 0 \<Longrightarrow> n = 0 \<and> end_token la = Some t"
    using e by (auto simp: next_action_def g TK_values split: if_splits option.splits)
qed

definition ends_left :: "int \<Rightarrow> nat" where
  "ends_left lastToken = (if lastToken = int TK_SEMI then 1 else if lastToken = 0 then 0 else 2)"

lemma ends_left_less: "end_token la = Some t \<Longrightarrow> ends_left (int t) < ends_left la"
  by (auto simp: end_token_def ends_left_def TK_SEMI_def split: if_splits)

function parser_loop ::
  "connection \<Rightarrow> (nat \<Rightarrow> bool) \<Rightarrow> 'p parser \<Rightarrow> nat \<Rightarrow> bytes \<Rightarrow> int \<Rightarrow> int \<Rightarrow> 'p parse \<Rightarrow> 'p parse \<times> bytes"
where
  "parser_loop db irq parser k z mxSqlLen lastToken p =
    (case next_action db (irq k) z mxSqlLen lastToken of
       Feed n t \<Rightarrow>
         (let p = parser (p\<lparr>sLastToken := take n z\<rparr>) t (take n z)
          in if p_rc p \<noteq> SQLITE_OK then (p, drop n z)
             else parser_loop db irq parser (k + 1) (drop n z) (mxSqlLen - int n) (int t) p)
     | Skip n \<Rightarrow> parser_loop db irq parser (k + 1) (drop n z) (mxSqlLen - int n) lastToken p
     | Finished \<Rightarrow> (p, z)
     | TooBig \<Rightarrow> (p\<lparr>p_rc := SQLITE_TOOBIG, nErr := nErr p + 1\<rparr>, z)
     | Interrupted \<Rightarrow> (p\<lparr>p_rc := SQLITE_INTERRUPT, nErr := nErr p + 1\<rparr>, z)
     | Unrecognized n \<Rightarrow>
         (sqlite3ErrorMsg db p (ascii ''unrecognized token: \"'' @ take n z @ ascii ''\"''), z))"
  by pat_completeness auto
termination
proof (relation "measures [\<lambda>(_, _, _, _, z, _). length z, \<lambda>(_, _, _, _, _, _, la, _). ends_left la]", goal_cases)
  case (2 db irq parser k z mx la p n t p')
  then show ?case
    using next_action_moves(2,3) [of db "irq k" z mx la n t] ends_left_less [of la t]
    by (cases "zat z 0 = 0") auto
next
  case (3 db irq parser k z mx la p n)
  then show ?case using next_action_moves(1) [of db "irq k" z mx la n] by simp
qed simp

declare parser_loop.simps [simp del]

definition sqlite3RunParser ::
  "connection \<Rightarrow> (nat \<Rightarrow> bool) \<Rightarrow> 'p parser \<Rightarrow> 'p parse \<Rightarrow> bytes \<Rightarrow> nat \<times> 'p parse" where
  "sqlite3RunParser db irq parser p zSql =
    (case parser_loop db irq parser 0 zSql (limitSqlLength db) (- 1) (p\<lparr>p_rc := SQLITE_OK, zTail := zSql\<rparr>) of
       (p, z) \<Rightarrow>
         let p = (if mallocFailed p then p\<lparr>p_rc := SQLITE_NOMEM\<rparr> else p);
             failed = (zErrMsg p \<noteq> None \<or> p_rc p \<noteq> SQLITE_OK \<and> p_rc p \<noteq> SQLITE_DONE);
             p = (if failed \<and> zErrMsg p = None then p\<lparr>zErrMsg := Some (ascii (sqlite3ErrStr (p_rc p)))\<rparr> else p)
         in (if failed then 1 else 0, p\<lparr>zTail := z\<rparr>))"

section \<open>The codes the tokenizer returns\<close>

text \<open>The assertion at the head of the second part of the loop: a code at or above \<open>TK_WINDOW\<close> is one
  of seven; and no code is 0, which stands for the end of the input.\<close>

definition token_code :: "nat \<Rightarrow> bool" where
  "token_code t \<longleftrightarrow> t \<noteq> 0 \<and> (t < TK_WINDOW \<or> t \<in> {TK_WINDOW, TK_OVER, TK_FILTER, TK_QNUMBER, TK_SPACE, TK_COMMENT, TK_ILLEGAL})"

lemma token_code_if: "(c \<Longrightarrow> token_code (snd a)) \<Longrightarrow> (\<not> c \<Longrightarrow> token_code (snd b)) \<Longrightarrow> token_code (snd (if c then a else b))"
  by simp

lemma keyword_token_codes: "list_all token_code (tl aKWCode)"
  by code_simp

lemma token_code_keyword: "2 \<le> n \<Longrightarrow> token_code (keywordCode z n TK_ID)"
proof -
  assume n: "2 \<le> n"
  have id: "token_code TK_ID" by code_simp
  have "token_code (sqlite3KeywordCode z n)"
  proof (cases "map_of (zip (map as_bytes keyword_names) (tl aKWCode)) (fold_case z n)")
    case (Some y)
    then have "y \<in> set (tl aKWCode)" by (metis map_of_SomeD set_zip_rightD)
    then show ?thesis using keyword_token_codes Some keyword_lookup [of z n] by (simp add: list_all_iff)
  qed (use keyword_lookup [of z n] id in simp)
  then show ?thesis using n by (simp add: sqlite3KeywordCode_def)
qed

lemma token_code_number: "token_code (snd (tok_number z))"
proof -
  have run: "token_code t \<Longrightarrow> token_code (snd (digit_run P z i t))" for P i t
    by (simp add: digit_run_def Let_def) (simp add: token_code_def TK_values)
  have float: "token_code t \<Longrightarrow> token_code (as_float t)" for t by (simp add: as_float_def token_code_def TK_values)
  have frac: "token_code (snd it) \<Longrightarrow> token_code (snd (tok_fraction z it))" for it
    by (cases it) (simp add: tok_fraction_def run float)
  have expo: "token_code (snd it) \<Longrightarrow> token_code (snd (tok_exponent z it))" for it
    by (cases it) (simp add: tok_exponent_def run float)
  have int: "token_code TK_INTEGER" "token_code TK_ILLEGAL" by code_simp+
  define it where "it = (if zat z 0 = 48 \<and> (zat z 1 = 120 \<or> zat z 1 = 88) \<and> sqlite3Isxdigit (zat z 2)
           then digit_run sqlite3Isxdigit z 3 TK_INTEGER
           else tok_exponent z (tok_fraction z (digit_run sqlite3Isdigit z 0 TK_INTEGER)))"
  have "token_code (snd it)" unfolding it_def by (intro token_code_if expo frac run int(1))
  moreover have "snd (tok_number z) = (if IdChar (zat z (fst it)) then TK_ILLEGAL else snd it)"
    unfolding tok_number_def it_def [symmetric] by (simp split: prod.split)
  ultimately show ?thesis using int(2) by simp
qed

lemma token_code_tok:
  "token_code (snd (tok_minus z))" "token_code (snd (tok_slash z))" "token_code (snd (tok_compare z))"
  "token_code (snd (tok_quote z))" "token_code (snd (tok_variable z))" "token_code (snd (tok_blob z))"
  "token_code (snd (tok_ident z i))"
  by (simp_all add: tok_minus_def tok_slash_def tok_compare_def tok_quote_def tok_variable_def tok_blob_def
      tok_ident_def token_code_def TK_values Let_def split: prod.split)

lemma token_code_tok_keyword: "token_code (snd (tok_keyword z))"
  unfolding tok_keyword_def Let_def
  by (intro token_code_if token_code_tok) (simp add: token_code_keyword scan_def)

lemma GetToken_code: "token_code (snd (sqlite3GetToken z))"
  unfolding sqlite3GetToken_def Let_def
  by (rule token_code_tok token_code_tok_keyword token_code_number token_code_if | simp add: token_code_def TK_values)+

section \<open>What the parser is fed\<close>

text \<open>The parser that only writes down what it is given.\<close>

definition record_token :: "(nat \<times> bytes) list parser" where
  "record_token p t s = p\<lparr>engine := engine p @ [(t, s)]\<rparr>"

definition fed_as :: "nat \<times> bytes \<Rightarrow> bytes \<times> nat \<Rightarrow> bool" where
  "fed_as f tok \<longleftrightarrow> snd f = fst tok
     \<and> (fst f = snd tok \<or> snd tok \<in> {TK_WINDOW, TK_OVER, TK_FILTER} \<and> fst f = TK_ID)"

definition meaningful :: "bytes \<Rightarrow> (bytes \<times> nat) list" where
  "meaningful z = filter (\<lambda>(s, t). t \<noteq> TK_SPACE \<and> t \<noteq> TK_COMMENT) (sql_split z)"

definition ending :: "int \<Rightarrow> (nat \<times> bytes) list" where
  "ending lastToken = (if lastToken = int TK_SEMI then [] else [(TK_SEMI, [])]) @ [(0, [])]"

definition last_code :: "int \<Rightarrow> (nat \<times> bytes) list \<Rightarrow> int" where
  "last_code la fed = (if fed = [] then la else int (fst (last fed)))"

definition acceptable :: "connection \<Rightarrow> bytes \<Rightarrow> bool" where
  "acceptable db z \<longleftrightarrow> list_all (\<lambda>(s, t). t \<noteq> TK_ILLEGAL \<and> (t = TK_COMMENT \<longrightarrow> ignoreComments db)) (sql_split z)"

lemma analyze_codes:
  "analyzeWindowKeyword z \<in> {TK_WINDOW, TK_ID}" "analyzeOverKeyword z la \<in> {TK_OVER, TK_ID}"
  "analyzeFilterKeyword z la \<in> {TK_FILTER, TK_ID}"
  by (auto simp: analyzeWindowKeyword_def analyzeOverKeyword_def analyzeFilterKeyword_def split: prod.splits)

lemma context_token_codes:
  "context_token z t la = Some u \<Longrightarrow> u = t \<or> t \<in> {TK_WINDOW, TK_OVER, TK_FILTER} \<and> u = TK_ID"
  using analyze_codes(1) [of "drop 6 z"] analyze_codes(2) [of "drop 4 z" la] analyze_codes(3) [of "drop 6 z" la]
  by (auto simp: context_token_def split: if_splits)

text \<open>A pass over a token.\<close>

lemma pass_token:
  assumes "sqlite3GetToken z = (n, t)" and "zat z 0 \<noteq> 0" and "int n \<le> mx"
    and "t \<noteq> TK_ILLEGAL" and "t = TK_COMMENT \<Longrightarrow> ignoreComments db"
  shows "if t = TK_SPACE \<or> t = TK_COMMENT then next_action db False z mx la = Skip n
    else \<exists>u. next_action db False z mx la = Feed n u \<and> fed_as (u, take n z) (take n z, t) \<and> u \<noteq> 0"
proof -
  have c: "token_code t" using GetToken_code [of z] assms(1) by simp
  show ?thesis
  proof (cases "context_token z t la")
    case None
    then have "t < TK_WINDOW \<or> t = TK_SPACE \<or> t = TK_COMMENT"
      using c assms(4) by (auto simp: token_code_def context_token_def split: if_splits)
    then show ?thesis using assms None c
      by (auto simp: next_action_def fed_as_def token_code_def TK_values)
  next
    case (Some u)
    then have t: "t \<in> {TK_WINDOW, TK_OVER, TK_FILTER, TK_QNUMBER}" by (auto simp: context_token_def split: if_splits)
    have u: "u = t \<or> t \<in> {TK_WINDOW, TK_OVER, TK_FILTER} \<and> u = TK_ID" using Some by (rule context_token_codes)
    have "t \<noteq> TK_SPACE" "t \<noteq> TK_COMMENT" "\<not> t < TK_WINDOW" using t by (auto simp: TK_values)
    then have "next_action db False z mx la = Feed n u" using assms(1-3) Some by (simp add: next_action_def)
    moreover have "u \<noteq> 0" using u t by (auto simp: TK_values)
    ultimately show ?thesis using u \<open>t \<noteq> TK_SPACE\<close> \<open>t \<noteq> TK_COMMENT\<close> by (auto simp: fed_as_def)
  qed
qed

lemma pass_end:
  assumes "0 \<le> mx"
  shows "next_action db False [] mx la = (case end_token la of None \<Rightarrow> Finished | Some t \<Rightarrow> Feed 0 t)"
  using assms GetToken_end [of "[]"] by (simp add: next_action_def zat_def TK_values)

lemma loop_end:
  assumes "0 \<le> mx" and "la \<noteq> 0" and "p_rc p = SQLITE_OK"
  shows "\<exists>p'. parser_loop db (\<lambda>_. False) record_token k [] mx la p = (p', [])
    \<and> engine p' = engine p @ ending la \<and> p_rc p' = SQLITE_OK \<and> zErrMsg p' = zErrMsg p \<and> mallocFailed p' = mallocFailed p"
proof -
  have fin: "parser_loop db (\<lambda>_. False) record_token k [] mx 0 q = (q, [])" for k q
    using pass_end [OF assms(1), of db 0] by (simp add: parser_loop.simps end_token_def TK_SEMI_def)
  have zero: "parser_loop db (\<lambda>_. False) record_token k [] mx (int TK_SEMI) q
      = (record_token (q\<lparr>sLastToken := []\<rparr>) 0 [], [])" if "p_rc q = SQLITE_OK" for k q
    using pass_end [OF assms(1), of db "int TK_SEMI"] that fin
    by (subst parser_loop.simps) (simp add: end_token_def record_token_def)
  show ?thesis
  proof (cases "la = int TK_SEMI")
    case True
    then show ?thesis using zero [OF assms(3)] assms(3) by (simp add: record_token_def ending_def)
  next
    case False
    then have "parser_loop db (\<lambda>_. False) record_token k [] mx la p
        = parser_loop db (\<lambda>_. False) record_token (k + 1) [] mx (int TK_SEMI) (record_token (p\<lparr>sLastToken := []\<rparr>) TK_SEMI [])"
      using pass_end [OF assms(1), of db la] assms(2,3)
      by (subst parser_loop.simps) (simp add: end_token_def record_token_def)
    then show ?thesis using zero assms(3) False by (simp add: record_token_def ending_def)
  qed
qed

lemma sql_split_step:
  "zat z 0 \<noteq> 0 \<Longrightarrow> sqlite3GetToken z = (n, t) \<Longrightarrow> sql_split z = (take n z, t) # sql_split (drop n z)"
  by (subst sql_split.simps) simp

lemma loop_feeds:
  "cstr z \<Longrightarrow> int (length z) \<le> mx \<Longrightarrow> acceptable db z \<Longrightarrow> la \<noteq> 0 \<Longrightarrow> p_rc p = SQLITE_OK \<Longrightarrow>
   \<exists>fed p'. parser_loop db (\<lambda>_. False) record_token k z mx la p = (p', [])
     \<and> list_all2 fed_as fed (meaningful z) \<and> engine p' = engine p @ fed @ ending (last_code la fed)
     \<and> p_rc p' = SQLITE_OK \<and> zErrMsg p' = zErrMsg p \<and> mallocFailed p' = mallocFailed p"
proof (induction "length z" arbitrary: z mx la p k rule: less_induct)
  case less
  show ?case
  proof (cases "z = []")
    case True
    then have "meaningful z = []" by (simp add: meaningful_def sql_split.simps zat_def)
    then show ?thesis using True loop_end [of mx la p db k] less.prems
      by (intro exI [of _ "[]"]) (simp add: last_code_def)
  next
    case False
    then have z0: "zat z 0 \<noteq> 0" using less.prems(1) by (simp add: cstr_zat)
    obtain n t where g: "sqlite3GetToken z = (n, t)" by fastforce
    have n: "1 \<le> n" "n \<le> length z" using GetToken_fits [OF z0] g by (auto simp: token_fits_def)
    note split = sql_split_step [OF z0 g]
    have ok: "t \<noteq> TK_ILLEGAL" "t = TK_COMMENT \<Longrightarrow> ignoreComments db" "acceptable db (drop n z)"
      using less.prems(3) by (simp_all add: acceptable_def split)
    have rest: "length (drop n z) < length z" "cstr (drop n z)" "int (length (drop n z)) \<le> mx - int n" "int n \<le> mx"
      using n less.prems(1,2) by (simp_all add: cstr_drop)
    note IH = less.hyps [OF rest(1-3) ok(3)]
    show ?thesis
    proof (cases "t = TK_SPACE \<or> t = TK_COMMENT")
      case True
      then have "parser_loop db (\<lambda>_. False) record_token k z mx la p
          = parser_loop db (\<lambda>_. False) record_token (k + 1) (drop n z) (mx - int n) la p"
        using pass_token [OF g z0 rest(4) ok(1,2), of la] by (subst parser_loop.simps) simp
      moreover have "meaningful z = meaningful (drop n z)" using True by (auto simp: meaningful_def split)
      ultimately show ?thesis using IH [OF less.prems(4,5), of "k + 1"] by simp
    next
      case False
      then obtain u where u: "next_action db False z mx la = Feed n u" "fed_as (u, take n z) (take n z, t)" "u \<noteq> 0"
        using pass_token [OF g z0 rest(4) ok(1,2), of la] by auto
      let ?p = "record_token (p\<lparr>sLastToken := take n z\<rparr>) u (take n z)"
      have p: "p_rc ?p = SQLITE_OK" using less.prems(5) by (simp add: record_token_def)
      have step: "parser_loop db (\<lambda>_. False) record_token k z mx la p
          = parser_loop db (\<lambda>_. False) record_token (k + 1) (drop n z) (mx - int n) (int u) ?p"
        using u(1) p by (subst parser_loop.simps) (simp add: Let_def)
      have m: "meaningful z = (take n z, t) # meaningful (drop n z)" using False by (simp add: meaningful_def split)
      obtain fed p' where f: "parser_loop db (\<lambda>_. False) record_token (k + 1) (drop n z) (mx - int n) (int u) ?p = (p', [])"
          "list_all2 fed_as fed (meaningful (drop n z))" "engine p' = engine ?p @ fed @ ending (last_code (int u) fed)"
          "p_rc p' = SQLITE_OK" "zErrMsg p' = zErrMsg ?p" "mallocFailed p' = mallocFailed ?p"
        using IH [of "int u" ?p "k + 1"] u(3) p by auto
      have "last_code (int u) fed = last_code la ((u, take n z) # fed)" by (simp add: last_code_def)
      then show ?thesis using step f m u(2)
        by (intro exI [of _ "(u, take n z) # fed"]) (simp add: record_token_def)
    qed
  qed
qed

text \<open>C15. A text within the length limit whose tokens are all legal is fed to the parser token by token:
  spaces and comments left out, every other token once, in order, with its text and code (a
  \<open>WINDOW\<close>, \<open>OVER\<close> or \<open>FILTER\<close> may come as an identifier), then a semicolon unless the text ended
  in one, then the end marker; the run reports no error and leaves nothing of the text.\<close>
theorem run_parser_feeds_tokens:
  assumes "cstr zSql" and "int (length zSql) \<le> limitSqlLength db" and "acceptable db zSql"
    and "engine p = []" and "zErrMsg p = None" and "\<not> mallocFailed p"
  shows "\<exists>fed. list_all2 fed_as fed (meaningful zSql)
    \<and> engine (snd (sqlite3RunParser db (\<lambda>_. False) record_token p zSql)) = fed @ ending (last_code (- 1) fed)
    \<and> fst (sqlite3RunParser db (\<lambda>_. False) record_token p zSql) = 0
    \<and> zTail (snd (sqlite3RunParser db (\<lambda>_. False) record_token p zSql)) = []"
proof -
  let ?p = "p\<lparr>p_rc := SQLITE_OK, zTail := zSql\<rparr>"
  obtain fed p' where "parser_loop db (\<lambda>_. False) record_token 0 zSql (limitSqlLength db) (- 1) ?p = (p', [])"
      "list_all2 fed_as fed (meaningful zSql)" "engine p' = engine ?p @ fed @ ending (last_code (- 1) fed)"
      "p_rc p' = SQLITE_OK" "zErrMsg p' = zErrMsg ?p" "mallocFailed p' = mallocFailed ?p"
    using loop_feeds [OF assms(1,2,3), of "- 1" ?p 0] by auto
  then show ?thesis using assms(4-6) by (intro exI [of _ fed]) (simp add: sqlite3RunParser_def)
qed

definition fresh_parse :: "(nat \<times> bytes) list parse" where
  "fresh_parse = \<lparr>engine = [], p_rc = SQLITE_OK, nErr = 0, zErrMsg = None, zTail = [], sLastToken = [], mallocFailed = False\<rparr>"

lemma run_parser_feeds_tokens_witness:
  "\<exists>fed. list_all2 fed_as fed (meaningful [42, 32, 59])
     \<and> engine (snd (sqlite3RunParser \<lparr>limitSqlLength = 10, ignoreComments = True, suppressErr = False\<rparr>
         (\<lambda>_. False) record_token fresh_parse [42, 32, 59])) = fed @ ending (last_code (- 1) fed)"
proof -
  have "acceptable \<lparr>limitSqlLength = 10, ignoreComments = True, suppressErr = False\<rparr> [42, 32, 59]" by code_simp
  then show ?thesis
    using run_parser_feeds_tokens [of "[42, 32, 59]" "\<lparr>limitSqlLength = 10, ignoreComments = True, suppressErr = False\<rparr>" fresh_parse]
    by (auto simp: fresh_parse_def)
qed

end
