(* ===== verification/Varint.thy ===== *)
theory Varint
  imports Prelude
begin

text \<open>
  The variable-length integers of records and b-tree cells (\<open>util.c\<close> inside \<open>sqlite3.c\<close>):
  \<open>sqlite3PutVarint\<close>, the unrolled decoder \<open>sqlite3GetVarint\<close> with its packed masks, the 32-bit
  variant that saturates, \<open>sqlite3VarintLen\<close>, and the four-byte big-endian integers of page headers.
  The decoder is compared with a reference that shifts in one byte at a time.
\<close>

section \<open>Writing\<close>

text \<open>The do-while loop of \<open>putVarint64\<close>: the 7-bit groups, least significant first, all flagged.\<close>

function varint_groups :: "u64 \<Rightarrow> bytes" where
  "varint_groups v =
    (let b = ucast ((v AND 0x7f) OR 0x80); v = drop_bit 7 v
     in if v \<noteq> 0 then b # varint_groups v else [b])"
  by pat_completeness auto
termination
proof (relation "measure unat", goal_cases)
  case 1
  then show ?case by simp
next
  case (2 v b w)
  then have "unat v div 2 ^ 7 < unat v"
    by (intro div_less_dividend) (auto simp: unat_gt_0 intro: ccontr)
  with 2 show ?case by (simp add: unat_drop)
qed

declare varint_groups.simps [simp del]

text \<open>Bytes \<open>p[0..7]\<close> of the nine-byte form, after the low byte has gone to \<open>p[8]\<close>.\<close>

fun varint_high :: "nat \<Rightarrow> u64 \<Rightarrow> bytes" where
  "varint_high 0 v = []"
| "varint_high (Suc i) v = varint_high i (drop_bit 7 v) @ [ucast ((v AND 0x7f) OR 0x80)]"

definition putVarint64 :: "u64 \<Rightarrow> bytes" where
  "putVarint64 v =
    (if v AND 0xff00000000000000 \<noteq> 0 then varint_high 8 (drop_bit 8 v) @ [ucast v]
     else let buf = varint_groups v in rev (buf[0 := buf ! 0 AND 0x7f]))"

definition sqlite3PutVarint :: "u64 \<Rightarrow> bytes" where
  "sqlite3PutVarint v =
    (if v \<le> 0x7f then [ucast (v AND 0x7f)]
     else if v \<le> 0x3fff then [ucast ((drop_bit 7 v AND 0x7f) OR 0x80), ucast (v AND 0x7f)]
     else putVarint64 v)"

text \<open>\<open>for(i=1; (v >>= 7)!=0; i++)\<close>\<close>

function sqlite3VarintLen :: "u64 \<Rightarrow> nat" where
  "sqlite3VarintLen v = (let v = drop_bit 7 v in if v \<noteq> 0 then sqlite3VarintLen v + 1 else 1)"
  by pat_completeness auto
termination
proof (relation "measure unat", goal_cases)
  case 1
  then show ?case by simp
next
  case (2 v w)
  then have "unat v div 2 ^ 7 < unat v"
    by (intro div_less_dividend) (auto simp: unat_gt_0 intro: ccontr)
  with 2 show ?case by (simp add: unat_drop)
qed

declare sqlite3VarintLen.simps [simp del]

section \<open>Reading\<close>

definition SLOT_2_0 :: u32 where "SLOT_2_0 = 0x001fc07f"
definition SLOT_4_2_0 :: u32 where "SLOT_4_2_0 = 0xf01fc07f"

text \<open>
  \<open>sqlite3GetVarint\<close>: the number of bytes read and the value.  The pointer \<open>p\<close>, which the code
  advances, is the fixed start of the buffer here, so \<open>*p\<close> and \<open>p[-4]\<close> are written with their index.
  \<open>((signed char*)p)[i] >= 0\<close> says that bit 7 is clear.
\<close>

definition sqlite3GetVarint :: "bytes \<Rightarrow> nat \<times> u64" where
  "sqlite3GetVarint p =
    (if \<not> bit (p ! 0) 7 then (1, ucast (p ! 0))
     else if \<not> bit (p ! 1) 7 then (2, ucast (push_bit 7 (ucast (p ! 0 AND 0x7f)) OR ucast (p ! 1) :: u32))
     else let
       a = push_bit 14 (ucast (p ! 0)) :: u32; b = ucast (p ! 1) :: u32;
       a = a OR ucast (p ! 2)
     in if a AND 0x80 = 0 then
       (let a = a AND SLOT_2_0; b = b AND 0x7f; b = push_bit 7 b; a = a OR b in (3, ucast a))
     else let
       a = a AND SLOT_2_0; b = push_bit 14 b; b = b OR ucast (p ! 3)
     in if b AND 0x80 = 0 then
       (let b = b AND SLOT_2_0; a = push_bit 7 a; a = a OR b in (4, ucast a))
     else let
       b = b AND SLOT_2_0; s = a; a = push_bit 14 a; a = a OR ucast (p ! 4)
     in if a AND 0x80 = 0 then
       (let b = push_bit 7 b; a = a OR b; s = drop_bit 18 s in (5, push_bit 32 (ucast s) OR ucast a))
     else let
       s = push_bit 7 s; s = s OR b; b = push_bit 14 b; b = b OR ucast (p ! 5)
     in if b AND 0x80 = 0 then
       (let a = a AND SLOT_2_0; a = push_bit 7 a; a = a OR b; s = drop_bit 18 s
        in (6, push_bit 32 (ucast s) OR ucast a))
     else let
       a = push_bit 14 a; a = a OR ucast (p ! 6)
     in if a AND 0x80 = 0 then
       (let a = a AND SLOT_4_2_0; b = b AND SLOT_2_0; b = push_bit 7 b; a = a OR b; s = drop_bit 11 s
        in (7, push_bit 32 (ucast s) OR ucast a))
     else let
       a = a AND SLOT_2_0; b = push_bit 14 b; b = b OR ucast (p ! 7)
     in if b AND 0x80 = 0 then
       (let b = b AND SLOT_4_2_0; a = push_bit 7 a; a = a OR b; s = drop_bit 4 s
        in (8, push_bit 32 (ucast s) OR ucast a))
     else let
       a = push_bit 15 a; a = a OR ucast (p ! 8); b = b AND SLOT_2_0; b = push_bit 8 b; a = a OR b;
       s = push_bit 4 s; b = ucast (p ! 4); b = b AND 0x7f; b = drop_bit 3 b; s = s OR b
     in (9, push_bit 32 (ucast s) OR ucast a))"

definition sqlite3GetVarint32 :: "bytes \<Rightarrow> nat \<times> u32" where
  "sqlite3GetVarint32 p =
    (if p ! 1 AND 0x80 = 0 then (2, push_bit 7 (ucast (p ! 0 AND 0x7f)) OR ucast (p ! 1))
     else if p ! 2 AND 0x80 = 0 then
       (3, push_bit 14 (ucast (p ! 0 AND 0x7f)) OR push_bit 7 (ucast (p ! 1 AND 0x7f)) OR ucast (p ! 2))
     else let (n, v64) = sqlite3GetVarint p
          in if v64 AND 0xffffffff \<noteq> v64 then (n, 0xffffffff) else (n, ucast v64))"

text \<open>The four-byte big-endian integers, as the portable branch writes them.\<close>

definition sqlite3Get4byte :: "bytes \<Rightarrow> u32" where
  "sqlite3Get4byte p = push_bit 24 (ucast (p ! 0)) OR push_bit 16 (ucast (p ! 1))
     OR push_bit 8 (ucast (p ! 2)) OR ucast (p ! 3)"

definition sqlite3Put4byte :: "u32 \<Rightarrow> bytes" where
  "sqlite3Put4byte v = [ucast (drop_bit 24 v), ucast (drop_bit 16 v), ucast (drop_bit 8 v), ucast v]"

section \<open>The reference decoder\<close>

fun varint_ref :: "nat \<Rightarrow> u64 \<Rightarrow> bytes \<Rightarrow> nat \<times> u64" where
  "varint_ref i acc [] = (i, acc)"
| "varint_ref i acc (b # bs) =
    (if i = 8 then (9, push_bit 8 acc OR ucast b)
     else if bit b 7 then varint_ref (i + 1) (push_bit 7 acc OR ucast (b AND 0x7f)) bs
     else (i + 1, push_bit 7 acc OR ucast b))"

text \<open>The buffer holds a whole varint: a byte with bit 7 clear among the first eight, or nine bytes.\<close>

fun varint_whole :: "nat \<Rightarrow> bytes \<Rightarrow> bool" where
  "varint_whole i [] = False"
| "varint_whole i (b # bs) = (i = 8 \<or> \<not> bit b 7 \<or> varint_whole (i + 1) bs)"

section \<open>The decoder meets the reference\<close>

lemma slot_masks:
  "SLOT_2_0 = push_bit 14 (mask 7) OR mask 7"
  "SLOT_4_2_0 = push_bit 28 (mask 4) OR push_bit 14 (mask 7) OR mask 7"
  by (simp_all add: SLOT_2_0_def SLOT_4_2_0_def mask_eq_exp_minus_1 push_bit_eq_mult)

lemma mask7: "(0x7f :: 'a::len word) = mask 7"
  by (simp add: mask_eq_exp_minus_1)

lemma bit80: "(w :: 'a::len word) AND 0x80 = 0 \<longleftrightarrow> \<not> bit w 7"
proof -
  have "(0x80 :: 'a word) = 2 ^ 7" by simp
  then show ?thesis by (simp only: and_exp_eq_0_iff_not_bit)
qed

lemma bit_byte_high: "8 \<le> n \<Longrightarrow> \<not> bit (b :: u8) n"
  using bit_imp_le_length [of b n] by auto

lemma below_64: "n < LENGTH(64) \<Longrightarrow>
    n = 63 \<or> n = 62 \<or> n = 61 \<or> n = 60 \<or> n = 59 \<or> n = 58 \<or> n = 57 \<or> n = 56 \<or>
    n = 55 \<or> n = 54 \<or> n = 53 \<or> n = 52 \<or> n = 51 \<or> n = 50 \<or> n = 49 \<or> n = 48 \<or>
    n = 47 \<or> n = 46 \<or> n = 45 \<or> n = 44 \<or> n = 43 \<or> n = 42 \<or> n = 41 \<or> n = 40 \<or>
    n = 39 \<or> n = 38 \<or> n = 37 \<or> n = 36 \<or> n = 35 \<or> n = 34 \<or> n = 33 \<or> n = 32 \<or>
    n = 31 \<or> n = 30 \<or> n = 29 \<or> n = 28 \<or> n = 27 \<or> n = 26 \<or> n = 25 \<or> n = 24 \<or>
    n = 23 \<or> n = 22 \<or> n = 21 \<or> n = 20 \<or> n = 19 \<or> n = 18 \<or> n = 17 \<or> n = 16 \<or>
    n = 15 \<or> n = 14 \<or> n = 13 \<or> n = 12 \<or> n = 11 \<or> n = 10 \<or> n = 9 \<or> n = 8 \<or>
    n = 7 \<or> n = 6 \<or> n = 5 \<or> n = 4 \<or> n = 3 \<or> n = 2 \<or> n = 1 \<or> n = 0"
proof -
  assume "n < LENGTH(64)"
  then have "n \<in> set (rev [0..<64])" by simp
  moreover have "rev [0..<64] = [63, 62, 61, 60, 59, 58, 57, 56, 55, 54, 53, 52, 51, 50, 49, 48, 47, 46, 45, 44, 43, 42, 41, 40, 39, 38, 37, 36, 35, 34, 33, 32,
    31, 30, 29, 28, 27, 26, 25, 24, 23, 22, 21, 20, 19, 18, 17, 16, 15, 14, 13, 12, 11, 10, 9, 8, 7, 6, 5, 4, 3, 2, 1, 0]"
    by code_simp
  ultimately show ?thesis by simp
qed

lemmas decode_simps = sqlite3GetVarint_def Let_def bit80 bit_or_iff bit_and_iff bit_push_bit_iff
  bit_drop_bit_eq bit_unsigned_iff bit_mask_iff slot_masks mask7

text \<open>One lemma per length: both sides agree on each of the 64 bits.\<close>

lemma decode_1:
  assumes "\<not> bit b0 7"
  shows "sqlite3GetVarint (b0 # bs)
    = varint_ref 0 0 (b0 # bs)"
  using assms by (simp add: decode_simps)

lemma decode_2:
  assumes "bit b0 7" "\<not> bit b1 7"
  shows "sqlite3GetVarint (b0 # b1 # bs)
    = varint_ref 0 0 (b0 # b1 # bs)"
  using assms
  apply (simp add: decode_simps)
  apply (rule bit_word_eqI, drule below_64)
  apply (elim disjE; simp only:)
  apply (simp_all add: bit_simps bit_byte_high)
  done

lemma decode_3:
  assumes "bit b0 7" "bit b1 7" "\<not> bit b2 7"
  shows "sqlite3GetVarint (b0 # b1 # b2 # bs)
    = varint_ref 0 0 (b0 # b1 # b2 # bs)"
  using assms
  apply (simp add: decode_simps)
  apply (rule bit_word_eqI, drule below_64)
  apply (elim disjE; simp only:)
  apply (simp_all add: bit_simps bit_byte_high)
  done

lemma decode_4:
  assumes "bit b0 7" "bit b1 7" "bit b2 7" "\<not> bit b3 7"
  shows "sqlite3GetVarint (b0 # b1 # b2 # b3 # bs)
    = varint_ref 0 0 (b0 # b1 # b2 # b3 # bs)"
  using assms
  apply (simp add: decode_simps)
  apply (rule bit_word_eqI, drule below_64)
  apply (elim disjE; simp only:)
  apply (simp_all add: bit_simps bit_byte_high)
  done

lemma decode_5:
  assumes "bit b0 7" "bit b1 7" "bit b2 7" "bit b3 7" "\<not> bit b4 7"
  shows "sqlite3GetVarint (b0 # b1 # b2 # b3 # b4 # bs)
    = varint_ref 0 0 (b0 # b1 # b2 # b3 # b4 # bs)"
  using assms
  apply (simp add: decode_simps)
  apply (rule bit_word_eqI, drule below_64)
  apply (elim disjE; simp only:)
  apply (simp_all add: bit_simps bit_byte_high)
  done

lemma decode_6:
  assumes "bit b0 7" "bit b1 7" "bit b2 7" "bit b3 7" "bit b4 7" "\<not> bit b5 7"
  shows "sqlite3GetVarint (b0 # b1 # b2 # b3 # b4 # b5 # bs)
    = varint_ref 0 0 (b0 # b1 # b2 # b3 # b4 # b5 # bs)"
  using assms
  apply (simp add: decode_simps)
  apply (rule bit_word_eqI, drule below_64)
  apply (elim disjE; simp only:)
  apply (simp_all add: bit_simps bit_byte_high)
  done

lemma decode_7:
  assumes "bit b0 7" "bit b1 7" "bit b2 7" "bit b3 7" "bit b4 7" "bit b5 7" "\<not> bit b6 7"
  shows "sqlite3GetVarint (b0 # b1 # b2 # b3 # b4 # b5 # b6 # bs)
    = varint_ref 0 0 (b0 # b1 # b2 # b3 # b4 # b5 # b6 # bs)"
  using assms
  apply (simp add: decode_simps)
  apply (rule bit_word_eqI, drule below_64)
  apply (elim disjE; simp only:)
  apply (simp_all add: bit_simps bit_byte_high)
  done

lemma decode_8:
  assumes "bit b0 7" "bit b1 7" "bit b2 7" "bit b3 7" "bit b4 7" "bit b5 7" "bit b6 7" "\<not> bit b7 7"
  shows "sqlite3GetVarint (b0 # b1 # b2 # b3 # b4 # b5 # b6 # b7 # bs)
    = varint_ref 0 0 (b0 # b1 # b2 # b3 # b4 # b5 # b6 # b7 # bs)"
  using assms
  apply (simp add: decode_simps)
  apply (rule bit_word_eqI, drule below_64)
  apply (elim disjE; simp only:)
  apply (simp_all add: bit_simps bit_byte_high)
  done

lemma decode_9:
  assumes "bit b0 7" "bit b1 7" "bit b2 7" "bit b3 7" "bit b4 7" "bit b5 7" "bit b6 7" "bit b7 7"
  shows "sqlite3GetVarint (b0 # b1 # b2 # b3 # b4 # b5 # b6 # b7 # b8 # bs)
    = varint_ref 0 0 (b0 # b1 # b2 # b3 # b4 # b5 # b6 # b7 # b8 # bs)"
  using assms
  apply (simp add: decode_simps)
  apply (rule bit_word_eqI, drule below_64)
  apply (elim disjE; simp only:)
  apply (simp_all add: bit_simps bit_byte_high)
  done

lemma varint_whole_cases:
  assumes "varint_whole i p"
  obtains (last) b bs where "p = b # bs" "i = 8"
  | (stop) b bs where "p = b # bs" "\<not> bit b 7"
  | (more) b bs where "p = b # bs" "bit b 7" "varint_whole (i + 1) bs"
  using assms by (cases p) auto

lemma get_varint_ref:
  assumes "varint_whole 0 p"
  shows "sqlite3GetVarint p = varint_ref 0 0 p"
  apply (insert assms)
  apply (erule varint_whole_cases, simp, simp add: decode_1)
  apply (simp only: One_nat_def add_Suc_right add_0_right)
  apply (erule varint_whole_cases, simp, simp add: decode_2)
  apply (simp only: One_nat_def add_Suc_right add_0_right)
  apply (erule varint_whole_cases, simp, simp add: decode_3)
  apply (simp only: One_nat_def add_Suc_right add_0_right)
  apply (erule varint_whole_cases, simp, simp add: decode_4)
  apply (simp only: One_nat_def add_Suc_right add_0_right)
  apply (erule varint_whole_cases, simp, simp add: decode_5)
  apply (simp only: One_nat_def add_Suc_right add_0_right)
  apply (erule varint_whole_cases, simp, simp add: decode_6)
  apply (simp only: One_nat_def add_Suc_right add_0_right)
  apply (erule varint_whole_cases, simp, simp add: decode_7)
  apply (simp only: One_nat_def add_Suc_right add_0_right)
  apply (erule varint_whole_cases, simp, simp add: decode_8)
  apply (simp only: One_nat_def add_Suc_right add_0_right)
  apply (erule varint_whole_cases)
  apply (simp_all add: decode_9)
  done

section \<open>Round trip\<close>

abbreviation varint_step :: "u64 \<Rightarrow> u8 \<Rightarrow> u64" where
  "varint_step acc b \<equiv> push_bit 7 acc OR ucast (b AND 0x7f)"

lemma varint_ref_flagged:
  "\<forall>b \<in> set bs. bit b 7 \<Longrightarrow> i + length bs \<le> 8 \<Longrightarrow>
    varint_ref i acc (bs @ rest) = varint_ref (i + length bs) (foldl varint_step acc bs) rest"
  by (induction bs arbitrary: i acc) auto

lemma bit_80: "bit (0x80 :: int) n \<longleftrightarrow> n = 7"
proof -
  have e: "(0x80 :: int) = 2 ^ 7" by simp
  show ?thesis unfolding e bit_exp_iff by auto
qed

lemma varint_step_group:
  "varint_step (drop_bit 7 v) (ucast ((v AND 0x7f) OR 0x80)) = v"
  "varint_step (drop_bit 7 v) (ucast (v AND 0x7f)) = v"
proof -
  show "varint_step (drop_bit 7 v) (ucast ((v AND 0x7f) OR 0x80)) = v"
  proof (rule bit_word_eqI)
    fix n show "n < LENGTH(64) \<Longrightarrow> bit (varint_step (drop_bit 7 v) (ucast ((v AND 0x7f) OR 0x80))) n \<longleftrightarrow> bit v n"
      unfolding mask7 by (cases "n < 7") (auto simp: bit_simps bit_80 not_less)
  qed
  show "varint_step (drop_bit 7 v) (ucast (v AND 0x7f)) = v"
  proof (rule bit_word_eqI)
    fix n show "n < LENGTH(64) \<Longrightarrow> bit (varint_step (drop_bit 7 v) (ucast (v AND 0x7f))) n \<longleftrightarrow> bit v n"
      unfolding mask7 by (cases "n < 7") (auto simp: bit_simps not_less)
  qed
qed

lemma flagged_group: "bit (ucast ((v AND 0x7f) OR 0x80 :: u64) :: u8) 7"
  by (simp add: bit_simps)

lemma foldl_varint_groups: "foldl varint_step 0 (rev (varint_groups v)) = v"
proof (induction v rule: varint_groups.induct)
  case (1 v)
  then show ?case
    using varint_step_group(1) [of v] by (subst varint_groups.simps) (auto simp: Let_def)
qed

lemma varint_groups_flagged: "\<forall>b \<in> set (varint_groups v). bit b 7"
proof (induction v rule: varint_groups.induct)
  case (1 v)
  then show ?case using flagged_group [of v] by (subst varint_groups.simps) (auto simp: Let_def)
qed

lemma length_varint_groups: "length (varint_groups v) = sqlite3VarintLen v"
proof (induction v rule: varint_groups.induct)
  case (1 v)
  then show ?case
    by (subst varint_groups.simps, subst sqlite3VarintLen.simps) (simp add: Let_def)
qed

lemma varint_len_le: "unat v < 2 ^ (7 * k) \<Longrightarrow> 0 < k \<Longrightarrow> sqlite3VarintLen v \<le> k"
proof (induction k arbitrary: v)
  case (Suc k)
  show ?case
  proof (cases "drop_bit 7 v = 0")
    case False
    have "unat v div 2 ^ 7 < 2 ^ (7 * k)"
      using Suc.prems by (simp add: less_mult_imp_div_less power_add)
    moreover have "0 < k"
      using False Suc.prems by (cases k) (auto simp: word_eq_iff_unsigned [where ?'a = nat] unat_drop)
    ultimately have "sqlite3VarintLen (drop_bit 7 v) \<le> k" by (intro Suc.IH) (simp_all add: unat_drop)
    then show ?thesis using False by (subst sqlite3VarintLen.simps) (simp add: Let_def)
  qed (subst sqlite3VarintLen.simps, simp add: Let_def)
qed simp

text \<open>The nine-byte form.\<close>

lemma varint_high_flagged: "\<forall>b \<in> set (varint_high i v). bit b 7"
  by (induction i arbitrary: v) (auto simp: flagged_group)

lemma length_varint_high [simp]: "length (varint_high i v) = i"
  by (induction i arbitrary: v) auto

lemma foldl_varint_high: "unat v < 2 ^ (7 * i) \<Longrightarrow> foldl varint_step 0 (varint_high i v) = v"
proof (induction i arbitrary: v)
  case 0
  then show ?case by (simp add: word_eq_iff_unsigned [where ?'a = nat])
next
  case (Suc i)
  have "unat (drop_bit 7 v) < 2 ^ (7 * i)"
    using Suc.prems by (simp add: unat_drop less_mult_imp_div_less power_add)
  then show ?case using Suc.IH varint_step_group(1) [of v] by simp
qed

lemma varint_last_byte: "push_bit 8 (drop_bit 8 v) OR ucast (ucast (v :: u64) :: u8) = v"
proof (rule bit_word_eqI)
  fix n show "n < LENGTH(64) \<Longrightarrow> bit (push_bit 8 (drop_bit 8 v) OR ucast (ucast v :: u8)) n \<longleftrightarrow> bit v n"
    by (cases "n < 8") (auto simp: bit_simps)
qed

lemma top_byte: "(v :: u64) AND 0xff00000000000000 = 0 \<longleftrightarrow> unat v < 2 ^ 56"
proof -
  have m: "(0xff00000000000000 :: u64) = push_bit 56 (mask 8)" by (simp add: mask_eq_exp_minus_1 push_bit_eq_mult)
  have "v AND 0xff00000000000000 = push_bit 56 (drop_bit 56 v)"
    unfolding m
  proof (rule bit_word_eqI)
    fix n show "n < LENGTH(64) \<Longrightarrow> bit (v AND push_bit 56 (mask 8)) n \<longleftrightarrow> bit (push_bit 56 (drop_bit 56 v)) n"
      by (auto simp: bit_simps)
  qed
  moreover have "push_bit 56 (drop_bit 56 v) = 0 \<longleftrightarrow> drop_bit 56 v = 0"
  proof
    assume "push_bit 56 (drop_bit 56 v) = 0"
    then have *: "\<not> bit (push_bit 56 (drop_bit 56 v)) (n + 56)" for n by simp
    show "drop_bit 56 v = 0"
    proof (rule bit_word_eqI)
      fix n
      have "\<not> bit v (56 + n)" using * [of n] bit_imp_le_length [of v "56 + n"]
        by (cases "n < 8") (auto simp: bit_simps ac_simps)
      then show "bit (drop_bit 56 v) n \<longleftrightarrow> bit 0 n" by (simp add: bit_simps)
    qed
  qed simp
  moreover have "drop_bit 56 v = 0 \<longleftrightarrow> unat v div 2 ^ 56 = 0"
    by (simp add: word_eq_iff_unsigned [where ?'a = nat] unat_drop)
  ultimately show ?thesis by (simp add: div_eq_0_iff)
qed

text \<open>The two short branches of \<open>sqlite3PutVarint\<close> write what the loop would write.\<close>

definition varint_small :: "u64 \<Rightarrow> bytes" where
  "varint_small v = rev ((varint_groups v)[0 := varint_groups v ! 0 AND 0x7f])"

lemma and_7f_80: "ucast ((v AND 0x7f) OR 0x80 :: u64) AND 0x7f = (ucast (v AND 0x7f) :: u8)"
proof -
  show ?thesis unfolding mask7 by (rule bit_word_eqI) (auto simp: bit_simps bit_80)
qed

lemma varint_small_rec:
  "varint_small v = (if drop_bit 7 v = 0 then [] else rev (varint_groups (drop_bit 7 v))) @ [ucast (v AND 0x7f)]"
  unfolding varint_small_def by (subst (1 2) varint_groups.simps) (simp add: Let_def and_7f_80)

lemma put_varint_small:
  assumes "unat v < 2 ^ 56" shows "sqlite3PutVarint v = varint_small v"
proof -
  have small: "drop_bit 7 v = 0 \<longleftrightarrow> v \<le> 0x7f" "drop_bit 14 v = 0 \<longleftrightarrow> v \<le> 0x3fff" for v :: u64
    by (simp_all add: word_eq_iff_unsigned [where ?'a = nat] unat_drop word_le_nat_alt div_eq_0_iff less_Suc_eq_le [symmetric])
  have dd: "drop_bit 7 (drop_bit 7 v) = drop_bit 14 v" by simp
  consider "v \<le> 0x7f" | "\<not> v \<le> 0x7f" "v \<le> 0x3fff" | "\<not> v \<le> 0x7f" "\<not> v \<le> 0x3fff" by blast
  then show ?thesis
  proof cases
    case 1
    then show ?thesis by (simp add: sqlite3PutVarint_def varint_small_rec small)
  next
    case 2
    then have "varint_groups (drop_bit 7 v) = [ucast ((drop_bit 7 v AND 0x7f) OR 0x80)]"
      using dd small by (subst varint_groups.simps) (simp add: Let_def)
    moreover have "(ucast ((drop_bit 7 v AND 0x7f) OR 0x80 :: u64) :: u8) = ucast (drop_bit 7 v AND 0x7f) OR 0x80"
      by (rule bit_word_eqI) (auto simp: bit_simps)
    ultimately show ?thesis using 2 by (simp add: sqlite3PutVarint_def varint_small_rec small)
  next
    case 3
    then show ?thesis using assms
      by (simp add: sqlite3PutVarint_def putVarint64_def top_byte varint_small_def Let_def)
  qed
qed

lemma put_varint_big:
  assumes "\<not> unat v < 2 ^ 56" shows "sqlite3PutVarint v = varint_high 8 (drop_bit 8 v) @ [ucast v]"
proof -
  have "\<not> v \<le> 0x7f" "\<not> v \<le> 0x3fff" using assms by (auto simp: word_le_nat_alt)
  then show ?thesis using assms top_byte [of v] by (simp only: sqlite3PutVarint_def putVarint64_def if_False if_True simp_thms)
qed

lemma varint_ref_put: "varint_ref 0 0 (sqlite3PutVarint v @ rest) = (length (sqlite3PutVarint v), v)"
proof (cases "unat v < 2 ^ 56")
  case True
  define pre where "pre = (if drop_bit 7 v = 0 then [] else rev (varint_groups (drop_bit 7 v)))"
  have put: "sqlite3PutVarint v = pre @ [ucast (v AND 0x7f)]"
    using True by (simp add: put_varint_small varint_small_rec pre_def)
  have "unat (drop_bit 7 v) < 2 ^ (7 * 7)" using True by (simp add: unat_drop less_mult_imp_div_less)
  then have len: "length pre \<le> 7" using varint_len_le [of _ 7] by (simp add: pre_def length_varint_groups)
  have fl: "\<forall>b \<in> set pre. bit b 7" using varint_groups_flagged by (simp add: pre_def)
  have val: "foldl varint_step 0 pre = drop_bit 7 v" by (simp add: pre_def foldl_varint_groups)
  have nb: "\<not> bit (ucast (v AND 0x7f) :: u8) 7" unfolding mask7 by (simp add: bit_simps)
  have eq: "ucast (ucast (v AND 0x7f) :: u8) = v AND 0x7f"
    unfolding mask7 by (rule bit_word_eqI) (auto simp: bit_simps)
  have "push_bit 7 (drop_bit 7 v) OR (v AND 0x7f) = v"
  proof (rule bit_word_eqI)
    fix n show "n < LENGTH(64) \<Longrightarrow> bit (push_bit 7 (drop_bit 7 v) OR (v AND 0x7f)) n \<longleftrightarrow> bit v n"
      unfolding mask7 by (cases "n < 7") (auto simp: bit_simps)
  qed
  then show ?thesis
    unfolding put using varint_ref_flagged [OF fl, of 0 0] len nb by (simp add: val eq)
next
  case False
  have "unat (drop_bit 8 v) < 2 ^ (7 * 8)" using unat_less [of v] by (simp add: unat_drop less_mult_imp_div_less)
  then show ?thesis
    unfolding put_varint_big [OF False]
    using varint_ref_flagged [OF varint_high_flagged, where i = 0 and acc = 0 and rest = "ucast v # rest"]
    by (simp add: foldl_varint_high varint_last_byte)
qed

lemma varint_whole_flagged:
  "\<forall>b \<in> set bs. bit b 7 \<Longrightarrow> i + length bs = 8 \<or> (i + length bs \<le> 8 \<and> \<not> bit b 7) \<Longrightarrow> varint_whole i (bs @ b # rest)"
  by (induction bs arbitrary: i) auto

lemma varint_len_gr: "2 ^ (7 * k) \<le> unat v \<Longrightarrow> k < sqlite3VarintLen v"
proof (induction k arbitrary: v)
  case 0
  then show ?case by (subst sqlite3VarintLen.simps) (simp add: Let_def)
next
  case (Suc k)
  have "2 ^ (7 * k) \<le> unat v div 2 ^ 7" using Suc.prems by (simp add: less_eq_div_iff_mult_less_eq power_add mult.commute)
  then have "k < sqlite3VarintLen (drop_bit 7 v)" and "drop_bit 7 v \<noteq> 0"
    using Suc.IH [of "drop_bit 7 v"] less_le_trans [of 0 "2 ^ (7 * k)" "unat v div 2 ^ 7"]
    by (auto simp: unat_drop word_eq_iff_unsigned [where ?'a = nat])
  then show ?case by (subst sqlite3VarintLen.simps) (simp add: Let_def)
qed

lemma varint_len_iff: "0 < k \<Longrightarrow> sqlite3VarintLen v \<le> k \<longleftrightarrow> unat v < 2 ^ (7 * k)"
  using varint_len_le [of v k] varint_len_gr [of k v] by (auto simp: not_less [symmetric])

lemma length_put_small: "unat v < 2 ^ 56 \<Longrightarrow> length (sqlite3PutVarint v) = sqlite3VarintLen v"
  by (simp add: put_varint_small varint_small_def length_varint_groups)

lemma length_put_big: "\<not> unat v < 2 ^ 56 \<Longrightarrow> length (sqlite3PutVarint v) = 9"
  by (simp add: put_varint_big)

lemma length_put_bounds: "1 \<le> length (sqlite3PutVarint v)" "length (sqlite3PutVarint v) \<le> 9"
proof -
  have "sqlite3VarintLen v \<noteq> 0" by (subst sqlite3VarintLen.simps) (simp add: Let_def)
  then show "1 \<le> length (sqlite3PutVarint v)" "length (sqlite3PutVarint v) \<le> 9"
    using length_put_small [of v] length_put_big [of v] varint_len_le [of v 8] by fastforce+
qed

lemma varint_whole_put: "varint_whole 0 (sqlite3PutVarint v @ rest)"
proof (cases "unat v < 2 ^ 56")
  case True
  define pre where "pre = (if drop_bit 7 v = 0 then [] else rev (varint_groups (drop_bit 7 v)))"
  have put: "sqlite3PutVarint v = pre @ [ucast (v AND 0x7f)]"
    using True by (simp add: put_varint_small varint_small_rec pre_def)
  have "unat (drop_bit 7 v) < 2 ^ (7 * 7)" using True by (simp add: unat_drop less_mult_imp_div_less)
  then have "length pre \<le> 7" using varint_len_le [of _ 7] by (simp add: pre_def length_varint_groups)
  moreover have "\<forall>b \<in> set pre. bit b 7" using varint_groups_flagged by (simp add: pre_def)
  moreover have "\<not> bit (ucast (v AND 0x7f) :: u8) 7" unfolding mask7 by (simp add: bit_simps)
  ultimately show ?thesis unfolding put by (simp add: varint_whole_flagged)
next
  case False
  then show ?thesis using varint_high_flagged by (simp add: put_varint_big varint_whole_flagged)
qed

section \<open>The 32-bit variant\<close>

lemma and_7f_id: "\<not> bit b 7 \<Longrightarrow> b AND 0x7f = (b :: u8)"
proof -
  assume "\<not> bit b 7"
  then have "bit b n \<Longrightarrow> n < 7" for n using bit_imp_le_length [of b n] by (cases "n = 7") auto
  then show ?thesis unfolding mask7 by (intro bit_word_eqI) (auto simp: bit_simps)
qed

lemma varint32_two:
  "bit b0 7 \<Longrightarrow> \<not> bit b1 7 \<Longrightarrow> sqlite3GetVarint (b0 # b1 # bs)
    = (2, ucast (push_bit 7 (ucast (b0 AND 0x7f)) OR ucast b1 :: u32))"
  by (simp add: sqlite3GetVarint_def)

lemma varint32_three:
  assumes "bit b0 7" "bit b1 7" "\<not> bit b2 7"
  shows "sqlite3GetVarint (b0 # b1 # b2 # bs)
    = (3, ucast (push_bit 14 (ucast (b0 AND 0x7f)) OR push_bit 7 (ucast (b1 AND 0x7f)) OR ucast b2 :: u32))"
  unfolding decode_3 [OF assms] using assms
  apply (simp add: mask7)
  apply (rule bit_word_eqI, drule below_64)
  apply (elim disjE; simp only:)
  apply (simp_all add: bit_simps bit_byte_high)
  done

lemma and_ffffffff: "v64 AND 0xffffffff \<noteq> v64 \<longleftrightarrow> 2 ^ 32 \<le> unat (v64 :: u64)"
proof -
  have "(0xffffffff :: u64) = mask 32" by (simp add: mask_eq_exp_minus_1)
  then have "unat (v64 AND 0xffffffff) = unat v64 mod 2 ^ 32" by (simp only: unat_and_mask)
  then show ?thesis
    by (simp add: word_eq_iff_unsigned [where ?'a = nat] mod_eq_self_iff_div_eq_0 div_eq_0_iff not_less)
qed

lemma get_varint32:
  assumes "varint_whole 0 p" and "bit (p ! 0) 7"
  shows "sqlite3GetVarint32 p =
    (let (n, v) = sqlite3GetVarint p in (n, if 2 ^ 32 \<le> unat v then 0xffffffff else ucast v))"
proof -
  have c: "unat (ucast w :: u64) < 2 ^ 32" "ucast (ucast w :: u64) = w" for w :: u32
    using unat_less [of w] by (simp_all add: unat_ucast_mod word_eq_iff_unsigned [where ?'a = nat])
  obtain b0 p0 where p: "p = b0 # p0" "bit b0 7" "varint_whole 1 p0"
    using assms by (cases p) auto
  obtain b1 p1 where p0: "p0 = b1 # p1" "\<not> bit b1 7 \<or> varint_whole 2 p1"
    using p(3) by (cases p0) (auto simp: numeral_2_eq_2)
  show ?thesis
  proof (cases "bit b1 7")
    case False
    then show ?thesis using p p0 c
      by (simp add: sqlite3GetVarint32_def varint32_two bit80 not_le [symmetric])
  next
    case b1: True
    then obtain b2 p2 where p1: "p1 = b2 # p2" using p0 by (cases p1) auto
    show ?thesis
    proof (cases "bit b2 7")
      case False
      then show ?thesis using p p0 p1 b1 c
        by (simp add: sqlite3GetVarint32_def varint32_three bit80 not_le [symmetric])
    next
      case True
      then show ?thesis using p p0 p1 b1
        by (simp add: sqlite3GetVarint32_def bit80 and_ffffffff split: prod.splits)
    qed
  qed
qed

section \<open>Properties\<close>

text \<open>C30. Every 64-bit value is written in one to nine bytes, and reading them back, whatever follows
  in the buffer, gives the value and the number of bytes written.\<close>

theorem varint_round_trip:
  "sqlite3GetVarint (sqlite3PutVarint v @ rest) = (length (sqlite3PutVarint v), v)
   \<and> 1 \<le> length (sqlite3PutVarint v) \<and> length (sqlite3PutVarint v) \<le> 9"
  using get_varint_ref [OF varint_whole_put] varint_ref_put length_put_bounds by simp

text \<open>C19. On every buffer that holds a whole varint, canonical or not, the unrolled decoder with its
  packed masks returns what shifting in one byte at a time returns, and the 32-bit decoder, which its
  caller uses when the first byte is flagged, returns the same length and the value cut to
  \<open>0xffffffff\<close>.\<close>

theorem varint_decoders_agree:
  "varint_whole 0 p \<Longrightarrow> sqlite3GetVarint p = varint_ref 0 0 p
   \<and> (bit (p ! 0) 7 \<longrightarrow> sqlite3GetVarint32 p =
       (let (n, v) = varint_ref 0 0 p in (n, if 2 ^ 32 \<le> unat v then 0xffffffff else ucast v)))"
  using get_varint_ref get_varint32 by simp

lemma varint_decoders_agree_witness:
  "sqlite3GetVarint [0x81, 0x80, 0x80, 0x80, 0x80, 0x05, 9] = varint_ref 0 0 [0x81, 0x80, 0x80, 0x80, 0x80, 0x05, 9]
   \<and> sqlite3GetVarint32 [0x81, 0x80, 0x80, 0x80, 0x80, 0x05, 9] = (6, 0xffffffff)"
  using varint_decoders_agree [of "[0x81, 0x80, 0x80, 0x80, 0x80, 0x05, 9]"] by (simp add: bit_simps)

text \<open>\<open>sqlite3VarintLen\<close> is the number of bytes \<open>sqlite3PutVarint\<close> writes for every value below
  \<open>2 ^ 63\<close>; from there on it returns ten, although nine bytes are written.\<close>

theorem varint_len:
  "sqlite3VarintLen v = (if unat v < 2 ^ 63 then length (sqlite3PutVarint v) else 10)"
  using varint_len_iff [of 8 v] varint_len_iff [of 9 v] varint_len_iff [of 10 v] unat_less [of v]
    length_put_small [of v] length_put_big [of v]
  by (cases "unat v < 2 ^ 56"; cases "unat v < 2 ^ 63") auto

end
