(* ===== verification/WalIndex.thy ===== *)
theory WalIndex
  imports Varint
begin

text \<open>
  The index of the write-ahead log (\<open>wal.c\<close>): shared memory in pages of 32 kilobytes, each with the page numbers
  of up to 4096 frames of the log and a hash table of 8192 slots that leads from a database page to its
  frames.  A slot holds the position of a frame in the page; zero is a free slot.  The header of the first page is
  kept apart.  The writer appends; a writer that died leaves entries behind; readers look up the last frame of a
  page up to the end of their snapshot.
\<close>

section \<open>Layout\<close>

definition HASHTABLE_NPAGE :: nat where "HASHTABLE_NPAGE = 4096"
definition HASHTABLE_HASH_1 :: nat where "HASHTABLE_HASH_1 = 383"
definition HASHTABLE_NSLOT :: nat where "HASHTABLE_NSLOT = HASHTABLE_NPAGE * 2"
definition WALINDEX_HDR_SIZE :: nat where "WALINDEX_HDR_SIZE = 48 * 2 + (4 + 5 * 4 + 8 + 4 + 4)"
definition HASHTABLE_NPAGE_ONE :: nat where "HASHTABLE_NPAGE_ONE = HASHTABLE_NPAGE - WALINDEX_HDR_SIZE div 4"

lemmas wal_sizes = HASHTABLE_NPAGE_def HASHTABLE_HASH_1_def HASHTABLE_NSLOT_def WALINDEX_HDR_SIZE_def HASHTABLE_NPAGE_ONE_def

text \<open>The masks of the code keep the low 13 bits.\<close>

definition walHash :: "nat \<Rightarrow> nat" where
  "walHash iPage = (iPage * HASHTABLE_HASH_1) mod 2 ^ 32 mod HASHTABLE_NSLOT"

definition walNextHash :: "nat \<Rightarrow> nat" where
  "walNextHash iPriorHash = (iPriorHash + 1) mod HASHTABLE_NSLOT"

definition walFramePage :: "nat \<Rightarrow> nat" where
  "walFramePage iFrame = (iFrame + HASHTABLE_NPAGE - HASHTABLE_NPAGE_ONE - 1) div HASHTABLE_NPAGE"

record wal_page =
  aPgno :: "nat list"
  aHash :: "nat list"

text \<open>The page numbers a page has room for, and the frames before it.\<close>

definition page_room :: "nat \<Rightarrow> nat" where
  "page_room iHash = (if iHash = 0 then HASHTABLE_NPAGE_ONE else HASHTABLE_NPAGE)"

definition page_zero :: "nat \<Rightarrow> nat" where
  "page_zero iHash = (if iHash = 0 then 0 else HASHTABLE_NPAGE_ONE + (iHash - 1) * HASHTABLE_NPAGE)"

definition zero_page :: "nat \<Rightarrow> wal_page" where
  "zero_page iHash = \<lparr>aPgno = replicate (page_room iHash) 0, aHash = replicate HASHTABLE_NSLOT 0\<rparr>"

text \<open>The header of the index, once as the copy of a connection and once shared, and the checkpoint information.\<close>

record wal_hdr =
  iChange :: nat
  bigEndCksum :: bool
  hdr_szPage :: nat
  mxFrame :: nat
  nPage :: nat
  aFrameCksum :: "u32 \<times> u32"
  aSalt :: bytes

record wal_ckpt =
  nBackfill :: nat
  nBackfillAttempted :: nat
  aReadMark :: "nat list"

definition READMARK_NOT_USED :: nat where "READMARK_NOT_USED = 2 ^ 32 - 1"

record wal =
  apWiData :: "wal_page list"
  shm_hdr :: wal_hdr
  pInfo :: wal_ckpt
  hdr :: wal_hdr
  szPage :: nat
  minFrame :: nat
  readLock :: int
  bShmUnreliable :: bool
  iReCksum :: nat
  nCkpt :: nat

section \<open>Operations\<close>

text \<open>A page that is not mapped yet: \<open>ok\<close> is the answer of the system or the allocator.  Memory that nobody has
  written reads as zero.\<close>

definition walIndexPage :: "rc \<Rightarrow> wal \<Rightarrow> nat \<Rightarrow> rc \<times> wal" where
  "walIndexPage ok w iPage =
    (if iPage < length (apWiData w) then (SQLITE_OK, w)
     else if ok \<noteq> SQLITE_OK then (ok, w)
     else (SQLITE_OK, w\<lparr>apWiData := apWiData w @ map zero_page [length (apWiData w)..<iPage + 1]\<rparr>))"

text \<open>The location of a hash table is the page with the number of frames before it.\<close>

definition walHashGet :: "rc \<Rightarrow> wal \<Rightarrow> nat \<Rightarrow> (rc + wal_page \<times> nat) \<times> wal" where
  "walHashGet ok w iHash =
    (case walIndexPage ok w iHash of (rc, w) \<Rightarrow>
       if rc = SQLITE_OK then (Inr (apWiData w ! iHash, page_zero iHash), w) else (Inl rc, w))"

definition walFramePgno :: "wal \<Rightarrow> nat \<Rightarrow> nat" where
  "walFramePgno w iFrame =
    (let iHash = walFramePage iFrame
     in if iHash = 0 then aPgno (apWiData w ! 0) ! (iFrame - 1)
        else aPgno (apWiData w ! iHash) ! ((iFrame - 1 - HASHTABLE_NPAGE_ONE) mod HASHTABLE_NPAGE))"

definition cleanup_page :: "nat \<Rightarrow> wal_page \<Rightarrow> wal_page" where
  "cleanup_page iLimit p =
    \<lparr>aPgno = take iLimit (aPgno p) @ replicate (length (aPgno p) - iLimit) 0,
     aHash = map (\<lambda>v. if v > iLimit then 0 else v) (aHash p)\<rparr>"

definition walCleanupHash :: "wal \<Rightarrow> wal" where
  "walCleanupHash w =
    (if mxFrame (hdr w) = 0 then w
     else (let iHash = walFramePage (mxFrame (hdr w));
               iLimit = mxFrame (hdr w) - page_zero iHash
           in w\<lparr>apWiData := (apWiData w)[iHash := cleanup_page iLimit (apWiData w ! iHash)]\<rparr>))"

text \<open>The free slot for a new entry, after at most \<open>nCollide\<close> taken ones.\<close>

fun free_key :: "nat \<Rightarrow> nat list \<Rightarrow> nat \<Rightarrow> nat option" where
  "free_key 0 a iKey = (if a ! iKey = 0 then Some iKey else None)"
| "free_key (Suc nCollide) a iKey =
    (if a ! iKey = 0 then Some iKey else free_key nCollide a (walNextHash iKey))"

text \<open>Before the entry \<open>idx\<close> is written: a new table is cleared, entries of a dead writer are removed.\<close>

definition append_ready :: "wal \<Rightarrow> nat \<Rightarrow> nat \<Rightarrow> wal" where
  "append_ready w iHash idx =
    (let w = (if idx = 1 then w\<lparr>apWiData := (apWiData w)[iHash := zero_page iHash]\<rparr> else w)
     in if aPgno (apWiData w ! iHash) ! (idx - 1) \<noteq> 0 then walCleanupHash w else w)"

definition walIndexAppend :: "rc \<Rightarrow> wal \<Rightarrow> nat \<Rightarrow> nat \<Rightarrow> rc \<times> wal" where
  "walIndexAppend ok w iFrame iPage =
    (let iHash = walFramePage iFrame
     in case walHashGet ok w iHash of
          (Inl rc, w) \<Rightarrow> (rc, w)
        | (Inr (p, iZero), w) \<Rightarrow>
            let idx = iFrame - iZero;
                w = append_ready w iHash idx;
                p = apWiData w ! iHash
            in case free_key idx (aHash p) (walHash iPage) of
                 None \<Rightarrow> (SQLITE_CORRUPT, w)
               | Some iKey \<Rightarrow>
                   (SQLITE_OK, w\<lparr>apWiData := (apWiData w)[iHash :=
                      \<lparr>aPgno = (aPgno p)[idx - 1 := iPage], aHash = (aHash p)[iKey := idx]\<rparr>]\<rparr>))"

text \<open>The slots from \<open>iKey\<close> on; \<open>None\<close> is a table without a free slot.\<close>

fun find_key :: "nat \<Rightarrow> wal_page \<Rightarrow> (nat \<Rightarrow> bool) \<Rightarrow> nat \<Rightarrow> nat \<Rightarrow> nat \<Rightarrow> nat option" where
  "find_key nCollide p hit iZero iKey iRead =
    (let iH = aHash p ! iKey
     in if iH = 0 then Some iRead
        else (let iRead = (if hit iH then iH + iZero else iRead)
              in case nCollide of 0 \<Rightarrow> None | Suc n \<Rightarrow> find_key n p hit iZero (walNextHash iKey) iRead))"

declare find_key.simps [simp del]

definition walFindPage :: "wal \<Rightarrow> nat \<Rightarrow> wal_page \<Rightarrow> nat \<Rightarrow> nat option" where
  "walFindPage w pgno p iZero =
    find_key HASHTABLE_NSLOT p
      (\<lambda>iH. iH + iZero \<le> mxFrame (hdr w) \<and> iH + iZero \<ge> minFrame w \<and> aPgno p ! (iH - 1) = pgno) iZero (walHash pgno) 0"

text \<open>The loop over the tables, from the one of the last frame of the snapshot down; \<open>ok\<close> answers for each mapping.\<close>

fun find_pages :: "(nat \<Rightarrow> rc) \<Rightarrow> wal \<Rightarrow> nat \<Rightarrow> nat \<Rightarrow> rc \<times> nat" where
  "find_pages ok w pgno iHash =
    (if iHash < walFramePage (minFrame w) then (SQLITE_OK, 0)
     else case walHashGet (ok iHash) w iHash of
            (Inl rc, w) \<Rightarrow> (rc, 0)
          | (Inr (p, iZero), w) \<Rightarrow>
              (case walFindPage w pgno p iZero of
                 None \<Rightarrow> (SQLITE_CORRUPT, 0)
               | Some iRead \<Rightarrow>
                   if iRead \<noteq> 0 then (SQLITE_OK, iRead)
                   else (case iHash of 0 \<Rightarrow> (SQLITE_OK, 0) | Suc i \<Rightarrow> find_pages ok w pgno i)))"

declare find_pages.simps [simp del]

definition walFindFrame :: "(nat \<Rightarrow> rc) \<Rightarrow> wal \<Rightarrow> nat \<Rightarrow> rc \<times> nat" where
  "walFindFrame ok w pgno =
    (if mxFrame (hdr w) = 0 \<or> readLock w = 0 \<and> \<not> bShmUnreliable w then (SQLITE_OK, 0)
     else find_pages ok w pgno (walFramePage (mxFrame (hdr w))))"


section \<open>Headers, rollback and restart\<close>

text \<open>Both shared copies of the header are one here.\<close>

definition walIndexWriteHdr :: "wal \<Rightarrow> wal" where
  "walIndexWriteHdr w = w\<lparr>shm_hdr := hdr w\<rparr>"

text \<open>The second result are the pages the callback is told to forget.\<close>

definition sqlite3WalUndo :: "wal \<Rightarrow> nat list \<times> wal" where
  "sqlite3WalUndo w =
    (let iMax = mxFrame (hdr w);
         w = w\<lparr>hdr := shm_hdr w\<rparr>;
         undone = map (walFramePgno w) [mxFrame (hdr w) + 1..<iMax + 1];
         w = (if iMax \<noteq> mxFrame (hdr w) then walCleanupHash w else w)
     in (undone, w\<lparr>iReCksum := 0\<rparr>))"

type_synonym wal_savepoint = "nat \<times> (u32 \<times> u32) \<times> nat"

definition sqlite3WalSavepoint :: "wal \<Rightarrow> wal_savepoint" where
  "sqlite3WalSavepoint w = (mxFrame (hdr w), aFrameCksum (hdr w), nCkpt w)"

definition sqlite3WalSavepointUndo :: "wal \<Rightarrow> wal_savepoint \<Rightarrow> wal_savepoint \<times> wal" where
  "sqlite3WalSavepointUndo w aWalData =
    (case aWalData of (mx, ck, n) \<Rightarrow>
       let (mx, n) = (if n \<noteq> nCkpt w then (0, nCkpt w) else (mx, n))
       in ((mx, ck, n),
           if mx < mxFrame (hdr w)
           then (let w = walCleanupHash (w\<lparr>hdr := (hdr w)\<lparr>mxFrame := mx, aFrameCksum := ck\<rparr>\<rparr>)
                 in if iReCksum w > mxFrame (hdr w) then w\<lparr>iReCksum := 0\<rparr> else w)
           else w))"

text \<open>The log starts over: the first salt is counted up, the second is fresh.\<close>

definition walRestartHdr :: "wal \<Rightarrow> bytes \<Rightarrow> wal" where
  "walRestartHdr w salt1 =
    (let w = w\<lparr>nCkpt := (nCkpt w + 1) mod 2 ^ 32,
               hdr := (hdr w)\<lparr>mxFrame := 0,
                              aSalt := sqlite3Put4byte (1 + sqlite3Get4byte (aSalt (hdr w))) @ take 4 salt1\<rparr>\<rparr>;
         w = walIndexWriteHdr w
     in w\<lparr>pInfo := \<lparr>nBackfill = 0, nBackfillAttempted = 0,
                    aReadMark = (aReadMark (pInfo w) ! 0) # 0 # replicate (length (aReadMark (pInfo w)) - 2) READMARK_NOT_USED\<rparr>\<rparr>)"


section \<open>One table\<close>

text \<open>The slot \<open>d\<close> steps after \<open>k\<close>.\<close>

definition slot_at :: "nat \<Rightarrow> nat \<Rightarrow> nat" where
  "slot_at k d = (k + d) mod HASHTABLE_NSLOT"

lemma slot_at_less [simp]: "slot_at k d < HASHTABLE_NSLOT"
  by (simp add: slot_at_def wal_sizes)

lemma slot_at_zero [simp]: "k < HASHTABLE_NSLOT \<Longrightarrow> slot_at k 0 = k"
  by (simp add: slot_at_def)

lemma walHash_less [simp]: "walHash g < HASHTABLE_NSLOT"
  by (simp add: walHash_def wal_sizes)

lemma walNextHash_less [simp]: "walNextHash k < HASHTABLE_NSLOT"
  by (simp add: walNextHash_def wal_sizes)

lemma slot_at_next: "slot_at (walNextHash k) d = slot_at k (Suc d)"
  by (simp add: slot_at_def walNextHash_def mod_add_left_eq)

lemma slot_at_inj:
  assumes "slot_at k d = slot_at k d'" "d < HASHTABLE_NSLOT" "d' < HASHTABLE_NSLOT"
  shows "d = d'"
  using assms
proof (induction d d' rule: linorder_wlog)
  case (le a b)
  then have "HASHTABLE_NSLOT dvd (k + b) - (k + a)"
    unfolding slot_at_def by (metis add_left_mono mod_eq_dvd_iff_nat)
  then show ?case using le by (auto dest: dvd_imp_le)
next
  case (sym a b)
  then show ?case by simp
qed

text \<open>A table with \<open>used\<close> entries: every page number leads to its entry past older entries only.\<close>

definition page_shape :: "nat \<Rightarrow> wal_page \<Rightarrow> bool" where
  "page_shape room p = (length (aPgno p) = room \<and> length (aHash p) = HASHTABLE_NSLOT)"

definition reached :: "wal_page \<Rightarrow> nat \<Rightarrow> bool" where
  "reached p i = (\<exists>d < HASHTABLE_NSLOT. aHash p ! slot_at (walHash (aPgno p ! (i - 1))) d = i
     \<and> (\<forall>d' < d. aHash p ! slot_at (walHash (aPgno p ! (i - 1))) d' \<in> {1..<i}))"

definition tbl_ok :: "nat \<Rightarrow> nat \<Rightarrow> wal_page \<Rightarrow> bool" where
  "tbl_ok room used p = (page_shape room p \<and> used \<le> room \<and> room \<le> HASHTABLE_NPAGE
     \<and> (\<forall>i < room. aPgno p ! i = 0 \<longleftrightarrow> used \<le> i)
     \<and> (\<forall>k < HASHTABLE_NSLOT. aHash p ! k \<le> used)
     \<and> (\<forall>k < HASHTABLE_NSLOT. \<forall>k' < HASHTABLE_NSLOT. aHash p ! k \<noteq> 0 \<longrightarrow> aHash p ! k = aHash p ! k' \<longrightarrow> k = k')
     \<and> (\<forall>i \<in> {1..used}. reached p i))"

lemma tbl_okD:
  assumes "tbl_ok room used p"
  shows "page_shape room p" "used \<le> room" "room \<le> HASHTABLE_NPAGE"
    and "i < room \<Longrightarrow> aPgno p ! i = 0 \<longleftrightarrow> used \<le> i"
    and "k < HASHTABLE_NSLOT \<Longrightarrow> aHash p ! k \<le> used"
    and "k < HASHTABLE_NSLOT \<Longrightarrow> k' < HASHTABLE_NSLOT \<Longrightarrow> aHash p ! k \<noteq> 0 \<Longrightarrow> aHash p ! k = aHash p ! k' \<Longrightarrow> k = k'"
    and "1 \<le> i \<Longrightarrow> i \<le> used \<Longrightarrow> reached p i"
  using assms by (auto simp: tbl_ok_def)

lemma reachedE:
  assumes "reached p i"
  obtains d where "d < HASHTABLE_NSLOT" "aHash p ! slot_at (walHash (aPgno p ! (i - 1))) d = i"
    "\<And>d'. d' < d \<Longrightarrow> aHash p ! slot_at (walHash (aPgno p ! (i - 1))) d' \<in> {1..<i}"
  using assms unfolding reached_def by blast

lemma tbl_ok_zero: "room \<le> HASHTABLE_NPAGE \<Longrightarrow> tbl_ok room 0 \<lparr>aPgno = replicate room 0, aHash = replicate HASHTABLE_NSLOT 0\<rparr>"
  by (simp add: tbl_ok_def page_shape_def)

text \<open>No more entries than frames: a search meets a free slot after at most \<open>used\<close> taken ones.\<close>

lemma free_slot_exists:
  assumes "tbl_ok room used p" "k < HASHTABLE_NSLOT"
  shows "\<exists>d \<le> used. aHash p ! slot_at k d = 0"
proof (rule ccontr)
  assume no: "\<not> ?thesis"
  have nz: "aHash p ! slot_at k d \<noteq> 0" if "d \<le> used" for d using no that by simp
  have u: "used < HASHTABLE_NSLOT" using tbl_okD(2,3) [OF assms(1)] by (simp add: wal_sizes)
  have "inj_on (\<lambda>d. aHash p ! slot_at k d) {0..used}"
  proof (rule inj_onI)
    fix d d' assume "d \<in> {0..used}" "d' \<in> {0..used}" "aHash p ! slot_at k d = aHash p ! slot_at k d'"
    then have "slot_at k d = slot_at k d'" using nz [of d] tbl_okD(6) [OF assms(1), of "slot_at k d" "slot_at k d'"] by simp
    moreover have "d < HASHTABLE_NSLOT" "d' < HASHTABLE_NSLOT" using \<open>d \<in> _\<close> \<open>d' \<in> _\<close> u by simp_all
    ultimately show "d = d'" by (rule slot_at_inj)
  qed
  moreover have "(\<lambda>d. aHash p ! slot_at k d) ` {0..used} \<subseteq> {1..used}"
  proof (rule image_subsetI)
    fix d assume "d \<in> {0..used}"
    then show "aHash p ! slot_at k d \<in> {1..used}"
      using nz [of d] tbl_okD(5) [OF assms(1) slot_at_less, of k d] by simp
  qed
  ultimately have "card {0..used} \<le> card {1..used}" by (rule card_inj_on_le) simp
  then show False by simp
qed

lemma first_free:
  assumes "tbl_ok room used p" "k < HASHTABLE_NSLOT"
  obtains d where "d \<le> used" "aHash p ! slot_at k d = 0" "\<And>d'. d' < d \<Longrightarrow> aHash p ! slot_at k d' \<noteq> 0"
proof -
  obtain e where e: "e \<le> used" "aHash p ! slot_at k e = 0" using free_slot_exists [OF assms] by blast
  define d where "d = (LEAST d. aHash p ! slot_at k d = 0)"
  have "aHash p ! slot_at k d = 0" unfolding d_def using e(2) by (rule LeastI)
  moreover have "d \<le> e" unfolding d_def using e(2) by (rule Least_le)
  moreover have "aHash p ! slot_at k d' \<noteq> 0" if "d' < d" for d' using not_less_Least that unfolding d_def by blast
  ultimately show thesis using e(1) that by (meson le_trans)
qed

lemma free_key_first:
  "d \<le> n \<Longrightarrow> k < HASHTABLE_NSLOT \<Longrightarrow> a ! slot_at k d = 0 \<Longrightarrow> (\<And>d'. d' < d \<Longrightarrow> a ! slot_at k d' \<noteq> 0) \<Longrightarrow>
   free_key n a k = Some (slot_at k d)"
proof (induction n a k arbitrary: d rule: free_key.induct)
  case (1 a k)
  then show ?case by simp
next
  case (2 n a k)
  show ?case
  proof (cases d)
    case 0
    then show ?thesis using 2 by simp
  next
    case (Suc e)
    have k0: "a ! k \<noteq> 0" using "2.prems"(4) [of 0] "2.prems"(2) Suc by simp
    have "free_key n a (walNextHash k) = Some (slot_at (walNextHash k) e)"
    proof (rule "2.IH")
      show "a ! k \<noteq> 0" by (rule k0)
      show "e \<le> n" using "2.prems"(1) Suc by simp
      show "walNextHash k < HASHTABLE_NSLOT" by simp
      show "a ! slot_at (walNextHash k) e = 0" using "2.prems"(3) Suc by (simp add: slot_at_next)
      show "a ! slot_at (walNextHash k) d' \<noteq> 0" if "d' < e" for d'
        using "2.prems"(4) [of "Suc d'"] that Suc by (simp add: slot_at_next)
    qed
    then show ?thesis using k0 Suc by (simp add: slot_at_next)
  qed
qed


text \<open>A new entry in the first free slot of its page number.\<close>

definition page_add :: "nat \<Rightarrow> nat \<Rightarrow> wal_page \<Rightarrow> wal_page" where
  "page_add idx iPage p =
    (case free_key idx (aHash p) (walHash iPage) of
       None \<Rightarrow> p
     | Some iKey \<Rightarrow> \<lparr>aPgno = (aPgno p)[idx - 1 := iPage], aHash = (aHash p)[iKey := idx]\<rparr>)"

lemma reached_kept:
  assumes "reached p i" "i \<ge> 1" "aPgno q ! (i - 1) = aPgno p ! (i - 1)"
    and "\<And>k. k < HASHTABLE_NSLOT \<Longrightarrow> aHash p ! k \<in> {1..i} \<Longrightarrow> aHash q ! k = aHash p ! k"
  shows "reached q i"
proof -
  let ?h = "walHash (aPgno p ! (i - 1))"
  obtain d where d: "d < HASHTABLE_NSLOT" "aHash p ! slot_at ?h d = i"
    "\<And>d'. d' < d \<Longrightarrow> aHash p ! slot_at ?h d' \<in> {1..<i}"
    using assms(1) by (rule reachedE) blast
  have "aHash q ! slot_at ?h d = i" using d(2) assms(2) assms(4) [of "slot_at ?h d"] by simp
  moreover have "aHash q ! slot_at ?h d' \<in> {1..<i}" if "d' < d" for d'
    using d(3) [OF that] assms(4) [of "slot_at ?h d'"] by simp
  ultimately show ?thesis unfolding reached_def assms(3) using d(1) by blast
qed

lemma page_add_ok:
  assumes ok: "tbl_ok room used p" and "used < room" "g \<noteq> 0"
  shows "tbl_ok room (Suc used) (page_add (Suc used) g p) \<and> free_key (Suc used) (aHash p) (walHash g) \<noteq> None
    \<and> aPgno (page_add (Suc used) g p) = (aPgno p)[used := g]"
proof -
  note D = tbl_okD [OF ok]
  obtain d where d: "d \<le> used" "aHash p ! slot_at (walHash g) d = 0"
      "\<And>d'. d' < d \<Longrightarrow> aHash p ! slot_at (walHash g) d' \<noteq> 0"
    using first_free [OF ok walHash_less] by blast
  define k where "k = slot_at (walHash g) d"
  have kl: "k < HASHTABLE_NSLOT" and k0: "aHash p ! k = 0" using d(2) by (simp_all add: k_def)
  have key: "free_key (Suc used) (aHash p) (walHash g) = Some k"
    unfolding k_def by (rule free_key_first) (use d in simp_all)
  define q where "q = \<lparr>aPgno = (aPgno p)[used := g], aHash = (aHash p)[k := Suc used]\<rparr>"
  have q: "page_add (Suc used) g p = q" unfolding page_add_def key q_def by simp
  have len: "length (aPgno p) = room" "length (aHash p) = HASHTABLE_NSLOT" using D(1) by (simp_all add: page_shape_def)
  have h: "aHash q ! k' = (if k' = k then Suc used else aHash p ! k')" if "k' < HASHTABLE_NSLOT" for k'
    using that len by (simp add: q_def nth_list_update)
  have a: "aPgno q ! i = (if i = used then g else aPgno p ! i)" if "i < room" for i
    using that len by (simp add: q_def nth_list_update)
  have "reached q (Suc used)"
  proof -
    have "aHash q ! slot_at (walHash g) d' \<in> {1..<Suc used}" if "d' < d" for d'
    proof -
      have "aHash p ! slot_at (walHash g) d' \<noteq> 0" using d(3) that by blast
      moreover have "slot_at (walHash g) d' \<noteq> k" using calculation k0 by metis
      ultimately show ?thesis using h [of "slot_at (walHash g) d'"] D(5) [of "slot_at (walHash g) d'"] by simp
    qed
    moreover have "aHash q ! slot_at (walHash g) d = Suc used" using h [OF kl] by (simp add: k_def)
    moreover have "d < HASHTABLE_NSLOT" using d(1) D(2,3) by (simp add: wal_sizes)
    moreover have "aPgno q ! used = g" using a [OF assms(2)] by simp
    ultimately show ?thesis unfolding reached_def by auto
  qed
  moreover have "reached q i" if "1 \<le> i" "i \<le> used" for i
  proof (rule reached_kept [OF D(7) [OF that] that(1)])
    show "aPgno q ! (i - 1) = aPgno p ! (i - 1)" using a [of "i - 1"] that assms(2) by (cases i) simp_all
    fix k' assume k': "k' < HASHTABLE_NSLOT" "aHash p ! k' \<in> {1..i}"
    then have "k' \<noteq> k" using k0 by force
    then show "aHash q ! k' = aHash p ! k'" using h [OF k'(1)] by simp
  qed
  ultimately have R: "\<forall>i \<in> {1..Suc used}. reached q i" by (metis atLeastAtMost_iff le_Suc_eq)
  have U: "k1 = k2" if "k1 < HASHTABLE_NSLOT" "k2 < HASHTABLE_NSLOT" "aHash q ! k1 \<noteq> 0" "aHash q ! k1 = aHash q ! k2" for k1 k2
    using that h [OF that(1)] h [OF that(2)] D(5) [OF that(1)] D(5) [OF that(2)] D(6) [OF that(1,2)]
    by (cases "k1 = k"; cases "k2 = k") simp_all
  have B: "aHash q ! k' \<le> Suc used" if "k' < HASHTABLE_NSLOT" for k'
    using h [OF that] D(5) [OF that] by simp
  have Z: "aPgno q ! i = 0 \<longleftrightarrow> Suc used \<le> i" if "i < room" for i
    using a [OF that] D(4) [OF that] assms(3) by auto
  have "page_shape room q" using len by (simp add: q_def page_shape_def)
  then have "tbl_ok room (Suc used) q"
    unfolding tbl_ok_def using R B Z U D(3) assms(2) by (auto simp: Suc_le_eq)
  then show ?thesis using q key by (simp add: q_def)
qed

text \<open>Forgetting the entries after \<open>lim\<close>.\<close>

lemma cleanup_tbl_ok:
  assumes ok: "tbl_ok room used p" and "lim \<le> used"
  shows "tbl_ok room lim (cleanup_page lim p)"
proof -
  note D = tbl_okD [OF ok]
  define q where "q = cleanup_page lim p"
  have len: "length (aPgno p) = room" "length (aHash p) = HASHTABLE_NSLOT" using D(1) by (simp_all add: page_shape_def)
  have h: "aHash q ! k = (if lim < aHash p ! k then 0 else aHash p ! k)" if "k < HASHTABLE_NSLOT" for k
    using that len by (simp add: q_def cleanup_page_def)
  have a: "aPgno q ! i = (if i < lim then aPgno p ! i else 0)" if "i < room" for i
    using that len assms(2) D(2) by (simp add: q_def cleanup_page_def nth_append)
  have "reached q i" if "1 \<le> i" "i \<le> lim" for i
  proof (rule reached_kept [OF D(7) that(1)])
    show "1 \<le> i" "i \<le> used" using that assms(2) by simp_all
    show "aPgno q ! (i - 1) = aPgno p ! (i - 1)" using a [of "i - 1"] that assms(2) D(2) by (cases i) simp_all
    fix k assume "k < HASHTABLE_NSLOT" "aHash p ! k \<in> {1..i}"
    then show "aHash q ! k = aHash p ! k" using h [of k] that by simp
  qed
  moreover have "k1 = k2" if "k1 < HASHTABLE_NSLOT" "k2 < HASHTABLE_NSLOT" "aHash q ! k1 \<noteq> 0" "aHash q ! k1 = aHash q ! k2" for k1 k2
    using that h [OF that(1)] h [OF that(2)] D(6) [OF that(1,2)] by (simp split: if_splits)
  moreover have "aHash q ! k \<le> lim" if "k < HASHTABLE_NSLOT" for k
    using h [OF that] by simp
  moreover have "aPgno q ! i = 0 \<longleftrightarrow> lim \<le> i" if "i < room" for i
    using a [OF that] D(4) [OF that] assms(2) by auto
  moreover have "page_shape room q" using len assms(2) D(2) by (simp add: q_def page_shape_def cleanup_page_def)
  ultimately show ?thesis
    unfolding q_def [symmetric] tbl_ok_def using assms(2) D(2,3) by (auto simp: Suc_le_eq)
qed


text \<open>A search keeps the last hit before the first free slot, and that is the newest entry.\<close>

lemma find_key_fold:
  "d \<le> n \<Longrightarrow> k < HASHTABLE_NSLOT \<Longrightarrow> aHash p ! slot_at k d = 0 \<Longrightarrow> (\<And>d'. d' < d \<Longrightarrow> aHash p ! slot_at k d' \<noteq> 0) \<Longrightarrow>
   find_key n p hit z k r =
     Some (foldl (\<lambda>r v. if hit v then v + z else r) r (map (\<lambda>d. aHash p ! slot_at k d) [0..<d]))"
proof (induction d arbitrary: n k r)
  case 0
  then show ?case by (simp add: find_key.simps)
next
  case (Suc d)
  obtain m where n: "n = Suc m" using Suc.prems(1) by (cases n) simp_all
  have k0: "aHash p ! k \<noteq> 0" using Suc.prems(4) [of 0] Suc.prems(2) by simp
  define r' where "r' = (if hit (aHash p ! k) then aHash p ! k + z else r)"
  have "find_key n p hit z k r = find_key m p hit z (walNextHash k) r'"
    using k0 by (subst find_key.simps) (simp add: n r'_def Let_def)
  also have "\<dots> = Some (foldl (\<lambda>r v. if hit v then v + z else r) r' (map (\<lambda>d. aHash p ! slot_at (walNextHash k) d) [0..<d]))"
  proof (rule Suc.IH)
    show "d \<le> m" using Suc.prems(1) n by simp
    show "walNextHash k < HASHTABLE_NSLOT" by simp
    show "aHash p ! slot_at (walNextHash k) d = 0" using Suc.prems(3) by (simp add: slot_at_next)
    show "aHash p ! slot_at (walNextHash k) d' \<noteq> 0" if "d' < d" for d'
      using Suc.prems(4) [of "Suc d'"] that by (simp add: slot_at_next)
  qed
  also have "map (\<lambda>d. aHash p ! slot_at (walNextHash k) d) [0..<d] = map (\<lambda>d. aHash p ! slot_at k d) [Suc 0..<Suc d]"
    by (simp add: slot_at_next map_Suc_upt [symmetric] del: upt_Suc)
  also have "foldl (\<lambda>r v. if hit v then v + z else r) r' \<dots> =
      foldl (\<lambda>r v. if hit v then v + z else r) r (map (\<lambda>d. aHash p ! slot_at k d) [0..<Suc d])"
    using Suc.prems(2) by (simp add: upt_conv_Cons r'_def del: upt_Suc)
  finally show ?case .
qed

lemma fold_hits_none:
  "(\<And>v. v \<in> set vs \<Longrightarrow> \<not> hit v) \<Longrightarrow> foldl (\<lambda>r v. if hit v then v + z else r) r vs = r"
  by (induction vs arbitrary: r) simp_all

primrec last_hit :: "(nat \<Rightarrow> bool) \<Rightarrow> nat \<Rightarrow> nat" where
  "last_hit hit 0 = 0"
| "last_hit hit (Suc i) = (if hit (Suc i) then Suc i else last_hit hit i)"

lemma last_hit_le: "last_hit hit n \<le> n"
  by (induction n) auto

lemma last_hit_hit: "last_hit hit n \<noteq> 0 \<Longrightarrow> hit (last_hit hit n)"
  by (induction n) (auto split: if_splits)

lemma last_hit_newest: "hit i \<Longrightarrow> 1 \<le> i \<Longrightarrow> i \<le> n \<Longrightarrow> i \<le> last_hit hit n"
  by (induction n) (auto simp: le_Suc_eq)

lemma last_hit_cong: "(\<And>i. 1 \<le> i \<Longrightarrow> i \<le> n \<Longrightarrow> hit i = hit' i) \<Longrightarrow> last_hit hit n = last_hit hit' n"
  by (induction n) auto

lemma last_hit_shorter: "m \<le> n \<Longrightarrow> (\<And>i. m < i \<Longrightarrow> i \<le> n \<Longrightarrow> \<not> hit i) \<Longrightarrow> last_hit hit n = last_hit hit m"
  by (induction n) (auto simp: le_Suc_eq)

lemma last_hit_split:
  "last_hit hit (m + n) = (let i = last_hit (\<lambda>i. hit (m + i)) n in if i = 0 then last_hit hit m else m + i)"
  by (induction n) (auto simp: Let_def)

text \<open>The entries of one page number lie on its path in the order they were made.\<close>

lemma entries_in_order:
  assumes ok: "tbl_ok room used p" and d: "d < HASHTABLE_NSLOT" "d' < HASHTABLE_NSLOT"
    and v: "aHash p ! slot_at k d = v" "v \<noteq> 0" "walHash (aPgno p ! (v - 1)) = k"
    and v': "aHash p ! slot_at k d' = v'" "v' \<noteq> 0" "walHash (aPgno p ! (v' - 1)) = k"
    and "v < v'"
  shows "d < d'"
proof (rule ccontr)
  assume "\<not> d < d'"
  moreover have "d \<noteq> d'" using v(1) v'(1) \<open>v < v'\<close> by auto
  ultimately have "d' < d" by simp
  have "v \<le> used" using tbl_okD(5) [OF ok slot_at_less, of k d] v(1) by simp
  then have "reached p v" using tbl_okD(7) [OF ok] v(2) by simp
  then obtain e where e: "e < HASHTABLE_NSLOT" "aHash p ! slot_at k e = v" "\<And>e'. e' < e \<Longrightarrow> aHash p ! slot_at k e' \<in> {1..<v}"
    unfolding v(3) [symmetric] by (rule reachedE) blast
  have "slot_at k e = slot_at k d" using tbl_okD(6) [OF ok slot_at_less slot_at_less, of k e k d] e(2) v(1,2) by simp
  then have "e = d" using e(1) d(1) by (rule slot_at_inj)
  then have "v' < v" using e(3) [of d'] \<open>d' < d\<close> v'(1) by simp
  then show False using \<open>v < v'\<close> by simp
qed


lemma find_key_newest:
  assumes ok: "tbl_ok room used p"
    and hits: "\<And>v. hit v \<Longrightarrow> 1 \<le> v \<Longrightarrow> v \<le> used \<Longrightarrow> aPgno p ! (v - 1) = g"
  shows "find_key HASHTABLE_NSLOT p hit z (walHash g) 0 =
    Some (let v = last_hit hit used in if v = 0 then 0 else v + z)"
proof -
  define at where "at = (\<lambda>d. aHash p ! slot_at (walHash g) d)"
  define v where "v = last_hit hit used"
  obtain d where d: "d \<le> used" "at d = 0" "\<And>d'. d' < d \<Longrightarrow> at d' \<noteq> 0"
    using first_free [OF ok walHash_less] unfolding at_def by blast
  have dN: "d < HASHTABLE_NSLOT" using d(1) tbl_okD(2,3) [OF ok] by (simp add: wal_sizes)
  have range: "1 \<le> at e \<and> at e \<le> used" if "e < d" for e
    using d(3) [OF that] tbl_okD(5) [OF ok slot_at_less, of "walHash g" e] by (simp add: at_def Suc_le_eq)
  have fold: "find_key HASHTABLE_NSLOT p hit z (walHash g) 0 =
      Some (foldl (\<lambda>r v. if hit v then v + z else r) 0 (map at [0..<d]))"
    unfolding at_def by (rule find_key_fold) (use d dN in \<open>simp_all add: at_def\<close>)
  show ?thesis
  proof (cases "v = 0")
    case True
    have "\<not> hit (at e)" if "e < d" for e
      using last_hit_newest [of hit "at e" used] range [OF that] True by (auto simp: v_def)
    then have "foldl (\<lambda>r v. if hit v then v + z else r) 0 (map at [0..<d]) = 0"
      by (intro fold_hits_none) auto
    then show ?thesis using fold True by (simp add: v_def)
  next
    case False
    have hv: "hit v" using last_hit_hit False by (simp add: v_def)
    have vu: "v \<le> used" "1 \<le> v" using last_hit_le False by (simp_all add: v_def Suc_le_eq)
    have gv: "aPgno p ! (v - 1) = g" using hits hv vu by blast
    obtain e where e: "e < HASHTABLE_NSLOT" "at e = v" "\<And>e'. e' < e \<Longrightarrow> at e' \<in> {1..<v}"
      using tbl_okD(7) [OF ok vu(2,1)] unfolding at_def gv [symmetric] by (rule reachedE) blast
    have ed: "e < d" using e(2) e(3) [of d] d(2) False by (cases e d rule: linorder_cases) auto
    have after: "\<not> hit (at e')" if "e < e'" "e' < d" for e'
    proof
      assume h: "hit (at e')"
      have "at e' \<noteq> at e"
      proof
        assume "at e' = at e"
        then have "slot_at (walHash g) e' = slot_at (walHash g) e"
          using tbl_okD(6) [OF ok slot_at_less slot_at_less] d(3) [OF that(2)] by (simp add: at_def)
        then show False using slot_at_inj [of "walHash g" e' e] that dN by simp
      qed
      moreover have "at e' \<le> v" using last_hit_newest [of hit "at e'" used] h range [OF that(2)] by (simp add: v_def)
      ultimately have "at e' < v" using e(2) by simp
      then have "e' < e"
        using entries_in_order [OF ok, of e' e "walHash g" "at e'" v] that dN e(1,2) False d(3) [OF that(2)]
          hits [OF h] range [OF that(2)] gv by (simp add: at_def)
      then show False using that by simp
    qed
    have "map at [0..<d] = map at [0..<e] @ v # map at [Suc e..<d]"
      using ed e(2) upt_add_eq_append [of 0 e "d - e"] by (simp add: upt_conv_Cons)
    moreover have "foldl (\<lambda>r v. if hit v then v + z else r) (v + z) (map at [Suc e..<d]) = v + z"
      by (rule fold_hits_none) (use after in auto)
    ultimately show ?thesis using fold hv False by (simp add: v_def)
  qed
qed

section \<open>The whole index\<close>

text \<open>Frame \<open>f\<close> belongs to the table \<open>walFramePage f\<close>.\<close>

lemma walFramePage_iff:
  "f \<ge> 1 \<Longrightarrow> walFramePage f = h \<longleftrightarrow> page_zero h < f \<and> f \<le> page_zero h + page_room h"
  by (cases h) (auto simp: walFramePage_def page_zero_def page_room_def wal_sizes)

lemma walFramePage_bounds:
  "f \<ge> 1 \<Longrightarrow> page_zero (walFramePage f) < f" "f \<ge> 1 \<Longrightarrow> f \<le> page_zero (walFramePage f) + page_room (walFramePage f)"
  using walFramePage_iff by blast+

lemma page_zero_Suc: "page_zero (Suc h) = page_zero h + page_room h"
  by (cases h) (simp_all add: page_zero_def page_room_def)

lemma page_room_bounds: "page_room h \<le> HASHTABLE_NPAGE" "1 \<le> page_room h"
  by (simp_all add: page_room_def wal_sizes)

lemma page_zero_mono: "h \<le> h' \<Longrightarrow> page_zero h \<le> page_zero h'"
  by (induction h' rule: dec_induct) (simp_all add: page_zero_Suc)

lemma walFramePage_mono: "f \<le> f' \<Longrightarrow> walFramePage f \<le> walFramePage f'"
  unfolding walFramePage_def by (intro div_le_mono diff_le_mono) simp

text \<open>
  \<open>fs\<close> are the page numbers of the frames in the log.  The table of every frame holds the entries of its
  frames; more than those only when a writer left them behind.
\<close>

definition page_holds :: "nat list \<Rightarrow> bool \<Rightarrow> nat \<Rightarrow> wal_page \<Rightarrow> bool" where
  "page_holds fs exact h p =
    (let u = min (length fs - page_zero h) (page_room h)
     in \<exists>used. tbl_ok (page_room h) used p \<and> u \<le> used \<and> (exact \<longrightarrow> used = u)
          \<and> (\<forall>i < u. aPgno p ! i = fs ! (page_zero h + i)))"

definition index_ok :: "wal \<Rightarrow> nat list \<Rightarrow> bool" where
  "index_ok w fs = (mxFrame (hdr w) \<le> length fs \<and> 0 \<notin> set fs
     \<and> (\<forall>h < length (apWiData w). page_shape (page_room h) (apWiData w ! h))
     \<and> (\<forall>h. page_zero h < length fs \<longrightarrow> h < length (apWiData w)
          \<and> page_holds fs (mxFrame (hdr w) \<noteq> length fs) h (apWiData w ! h)))"

lemma index_okD:
  assumes "index_ok w fs"
  shows "mxFrame (hdr w) \<le> length fs" "0 \<notin> set fs"
    "h < length (apWiData w) \<Longrightarrow> page_shape (page_room h) (apWiData w ! h)"
    "page_zero h < length fs \<Longrightarrow> h < length (apWiData w)"
    "page_zero h < length fs \<Longrightarrow> page_holds fs (mxFrame (hdr w) \<noteq> length fs) h (apWiData w ! h)"
  using assms by (auto simp: index_ok_def)


lemma page_shape_zero: "page_shape (page_room h) (zero_page h)"
  by (simp add: page_shape_def zero_page_def)

lemma walIndexPage_map:
  assumes "index_ok w fs"
  obtains ps where "walIndexPage SQLITE_OK w h = (SQLITE_OK, w\<lparr>apWiData := ps\<rparr>)"
    "index_ok (w\<lparr>apWiData := ps\<rparr>) fs" "h < length ps" "h < length (apWiData w) \<Longrightarrow> ps = apWiData w"
proof (cases "h < length (apWiData w)")
  case True
  then show thesis using that [of "apWiData w"] assms by (simp add: walIndexPage_def)
next
  case False
  define ps where "ps = apWiData w @ map zero_page [length (apWiData w)..<h + 1]"
  have len: "length ps = h + 1" using False by (simp add: ps_def)
  have old: "ps ! i = apWiData w ! i" if "i < length (apWiData w)" for i
    using that by (simp add: ps_def nth_append)
  have new: "ps ! i = zero_page i" if "length (apWiData w) \<le> i" "i < h + 1" for i
    using that False by (simp add: ps_def nth_append del: upt_Suc)
  have "page_shape (page_room i) (ps ! i)" if "i < length ps" for i
    using that len index_okD(3) [OF assms, of i] old [of i] new [of i] page_shape_zero [of i]
    by (cases "i < length (apWiData w)") simp_all
  moreover have "i < length ps \<and> page_holds fs (mxFrame (hdr w) \<noteq> length fs) i (ps ! i)"
    if "page_zero i < length fs" for i
    using index_okD(4,5) [OF assms that] old [of i] len False by simp
  ultimately have "index_ok (w\<lparr>apWiData := ps\<rparr>) fs"
    unfolding index_ok_def using index_okD(1,2) [OF assms] by simp
  moreover have "walIndexPage SQLITE_OK w h = (SQLITE_OK, w\<lparr>apWiData := ps\<rparr>)"
    using False by (simp add: walIndexPage_def ps_def)
  ultimately show thesis using that [of ps] len False by simp
qed

text \<open>Ready for the entry after \<open>fs\<close>, whatever was in the table.\<close>

lemma append_ready_ok:
  assumes ok: "index_ok w fs" and h: "h = walFramePage (length fs + 1)" "h < length (apWiData w)"
  obtains p where "append_ready w h (length fs + 1 - page_zero h) = w\<lparr>apWiData := (apWiData w)[h := p]\<rparr>"
    "tbl_ok (page_room h) (length fs - page_zero h) p"
    "\<And>i. i < length fs - page_zero h \<Longrightarrow> aPgno p ! i = fs ! (page_zero h + i)"
proof -
  let ?n = "length fs" and ?z = "page_zero h" and ?p = "apWiData w ! h"
  have b: "?z \<le> ?n" "?n < ?z + page_room h" using walFramePage_bounds [of "?n + 1"] h(1) by simp_all
  show thesis
  proof (cases "?n = ?z")
    case True
    have "append_ready w h (?n + 1 - ?z) = w\<lparr>apWiData := (apWiData w)[h := zero_page h]\<rparr>"
      using True h(2) page_room_bounds(2) [of h] by (simp add: append_ready_def zero_page_def)
    moreover have "tbl_ok (page_room h) 0 (zero_page h)"
      unfolding zero_page_def by (rule tbl_ok_zero [OF page_room_bounds(1)])
    ultimately show thesis using that [of "zero_page h"] True by simp
  next
    case False
    then have zn: "?z < ?n" using b by simp
    have m: "min (?n - ?z) (page_room h) = ?n - ?z" using b by simp
    obtain used where u: "tbl_ok (page_room h) used ?p" "?n - ?z \<le> used"
        "mxFrame (hdr w) \<noteq> ?n \<Longrightarrow> used = ?n - ?z" "\<And>i. i < ?n - ?z \<Longrightarrow> aPgno ?p ! i = fs ! (?z + i)"
      using index_okD(5) [OF ok zn] unfolding page_holds_def Let_def m by blast
    have at: "aPgno ?p ! (?n - ?z) = 0 \<longleftrightarrow> used \<le> ?n - ?z" using tbl_okD(4) [OF u(1)] b by simp
    have idx: "?n + 1 - ?z \<noteq> 1" "?n + 1 - ?z - 1 = ?n - ?z" using zn by simp_all
    show thesis
    proof (cases "used = ?n - ?z")
      case True
      then have "append_ready w h (?n + 1 - ?z) = w\<lparr>apWiData := (apWiData w)[h := ?p]\<rparr>"
        unfolding append_ready_def idx using at idx(1) by simp
      then show thesis using that [of ?p] u True by simp
    next
      case False
      then have mx: "mxFrame (hdr w) = ?n" using u(3) by blast
      have "walFramePage ?n = h" using zn b by (simp add: walFramePage_iff)
      then have "append_ready w h (?n + 1 - ?z) = w\<lparr>apWiData := (apWiData w)[h := cleanup_page (?n - ?z) ?p]\<rparr>"
        unfolding append_ready_def idx using at idx(1) False u(2) mx zn by (cases fs) (simp_all add: walCleanupHash_def)
      moreover have "tbl_ok (page_room h) (?n - ?z) (cleanup_page (?n - ?z) ?p)"
        by (rule cleanup_tbl_ok [OF u(1,2)])
      moreover have "aPgno (cleanup_page (?n - ?z) ?p) ! i = fs ! (?z + i)" if "i < ?n - ?z" for i
        using u(4) [OF that] that tbl_okD(1) [OF u(1)] b by (simp add: cleanup_page_def nth_append page_shape_def)
      ultimately show thesis using that by blast
    qed
  qed
qed


lemma page_holds_cong:
  assumes "page_holds fs exact h p"
    and "min (length fs' - page_zero h) (page_room h) \<le> min (length fs - page_zero h) (page_room h)"
    and "exact' \<Longrightarrow> exact \<and> min (length fs' - page_zero h) (page_room h) = min (length fs - page_zero h) (page_room h)
            \<or> page_room h \<le> length fs' - page_zero h"
    and "\<And>i. i < min (length fs' - page_zero h) (page_room h) \<Longrightarrow> fs' ! (page_zero h + i) = fs ! (page_zero h + i)"
  shows "page_holds fs' exact' h p"
proof -
  obtain used where "tbl_ok (page_room h) used p" "min (length fs - page_zero h) (page_room h) \<le> used"
    "exact \<Longrightarrow> used = min (length fs - page_zero h) (page_room h)"
    "\<And>i. i < min (length fs - page_zero h) (page_room h) \<Longrightarrow> aPgno p ! i = fs ! (page_zero h + i)"
    using assms(1) unfolding page_holds_def Let_def by blast
  moreover note tbl_okD(2) [OF this(1)]
  ultimately show ?thesis
    unfolding page_holds_def Let_def using assms(2-4) by (intro exI [of _ used]) auto
qed

lemma walIndexAppend_eq:
  assumes "h = walFramePage n" "walIndexPage SQLITE_OK w h = (SQLITE_OK, w')"
    "append_ready w' h (n - page_zero h) = w2" "p = apWiData w2 ! h"
    "free_key (n - page_zero h) (aHash p) (walHash g) \<noteq> None"
  shows "walIndexAppend SQLITE_OK w n g = (SQLITE_OK, w2\<lparr>apWiData := (apWiData w2)[h := page_add (n - page_zero h) g p]\<rparr>)"
  using assms by (auto simp: walIndexAppend_def walHashGet_def Let_def page_add_def)

text \<open>The next frame is always entered: no table overflows.\<close>

lemma walIndexAppend_ok:
  assumes ok: "index_ok w fs" and g: "g \<noteq> 0"
  obtains ps where "walIndexAppend SQLITE_OK w (length fs + 1) g = (SQLITE_OK, w\<lparr>apWiData := ps\<rparr>)"
    "index_ok (w\<lparr>apWiData := ps\<rparr>) (fs @ [g])"
proof -
  let ?n = "length fs"
  define h where "h = walFramePage (?n + 1)"
  let ?z = "page_zero h"
  have b: "?z \<le> ?n" "?n < ?z + page_room h" using walFramePage_bounds [of "?n + 1"] by (simp_all add: h_def)
  obtain ps where ps: "walIndexPage SQLITE_OK w h = (SQLITE_OK, w\<lparr>apWiData := ps\<rparr>)"
      "index_ok (w\<lparr>apWiData := ps\<rparr>) fs" "h < length ps"
    using walIndexPage_map [OF ok, of h] by blast
  obtain p where p: "append_ready (w\<lparr>apWiData := ps\<rparr>) h (?n + 1 - ?z) = w\<lparr>apWiData := ps[h := p]\<rparr>"
      "tbl_ok (page_room h) (?n - ?z) p" "\<And>i. i < ?n - ?z \<Longrightarrow> aPgno p ! i = fs ! (?z + i)"
    using append_ready_ok [OF ps(2) h_def] ps(3) by auto
  define q where "q = page_add (?n + 1 - ?z) g p"
  have idx: "?n + 1 - ?z = Suc (?n - ?z)" "?n + 1 - ?z - 1 = ?n - ?z" using b by simp_all
  have q: "tbl_ok (page_room h) (?n + 1 - ?z) q" "free_key (?n + 1 - ?z) (aHash p) (walHash g) \<noteq> None"
      "aPgno q = (aPgno p)[?n - ?z := g]"
    using page_add_ok [OF p(2) _ g] b unfolding q_def idx(1) by auto
  have eq: "walIndexAppend SQLITE_OK w (?n + 1) g = (SQLITE_OK, w\<lparr>apWiData := ps[h := q]\<rparr>)"
    using walIndexAppend_eq [OF h_def ps(1) p(1) refl, of g] q(2) ps(3) by (simp add: q_def)
  have len: "?n - ?z < length (aPgno p)" using tbl_okD(1) [OF p(2)] b by (simp add: page_shape_def)
  have "page_holds (fs @ [g]) True h q"
  proof -
    have "aPgno q ! i = (fs @ [g]) ! (?z + i)" if "i < ?n + 1 - ?z" for i
      using that p(3) [of i] len b unfolding q(3) by (auto simp: nth_append nth_list_update)
    moreover have "min (length (fs @ [g]) - ?z) (page_room h) = ?n + 1 - ?z" using b by simp
    ultimately show ?thesis unfolding page_holds_def Let_def using q(1) by (intro exI [of _ "?n + 1 - ?z"]) simp
  qed
  moreover have "h' < length ps \<and> page_holds (fs @ [g]) True h' (ps ! h')"
    if "page_zero h' < length (fs @ [g])" "h' \<noteq> h" for h'
  proof -
    have "h' < h"
      using that b page_zero_mono [of "Suc h" h'] by (cases h h' rule: linorder_cases) (auto simp: page_zero_Suc)
    then have full: "page_zero h' + page_room h' \<le> ?n"
      using page_zero_mono [of "Suc h'" h] b(1) by (simp add: page_zero_Suc)
    then have z: "page_zero h' < ?n" using page_room_bounds(2) [of h'] by linarith
    show ?thesis
    proof
      show "h' < length ps" using index_okD(4) [OF ps(2) z] by simp
      show "page_holds (fs @ [g]) True h' (ps ! h')"
        by (rule page_holds_cong [OF index_okD(5) [OF ps(2) z, simplified]])
          (use full in \<open>auto simp: nth_append\<close>)
    qed
  qed
  ultimately have holds: "h' < length ps \<and> page_holds (fs @ [g]) True h' (ps[h := q] ! h')"
    if "page_zero h' < length (fs @ [g])" for h' using that ps(3) by (cases "h' = h") simp_all
  have "page_shape (page_room h') (ps[h := q] ! h')" if "h' < length ps" for h'
    using that index_okD(3) [OF ps(2), of h'] tbl_okD(1) [OF q(1)] by (cases "h' = h") simp_all
  then have "index_ok (w\<lparr>apWiData := ps[h := q]\<rparr>) (fs @ [g])"
    unfolding index_ok_def using index_okD(1,2) [OF ok] g holds by simp
  then show thesis using that eq by blast
qed


section \<open>Searching the tables\<close>

definition in_log :: "nat list \<Rightarrow> nat \<Rightarrow> nat \<Rightarrow> nat \<Rightarrow> bool" where
  "in_log fs g lo i = (lo \<le> i \<and> fs ! (i - 1) = g)"

lemma page_holds_at:
  assumes "page_holds fs exact h p" "page_zero h < i" "i \<le> page_zero h + page_room h" "i \<le> length fs"
  shows "aPgno p ! (i - 1 - page_zero h) = fs ! (i - 1)"
proof -
  have "i - 1 - page_zero h < min (length fs - page_zero h) (page_room h)" using assms(2-4) by linarith
  then have "aPgno p ! (i - 1 - page_zero h) = fs ! (page_zero h + (i - 1 - page_zero h))"
    using assms(1) unfolding page_holds_def Let_def by blast
  then show ?thesis using assms(2) by simp
qed

lemma walFramePgno_log:
  assumes ok: "index_ok w fs" and i: "1 \<le> i" "i \<le> length fs"
  shows "walFramePgno w i = fs ! (i - 1)"
proof -
  define h where "h = walFramePage i"
  have b: "page_zero h < i" "i \<le> page_zero h + page_room h" using walFramePage_bounds [OF i(1)] by (simp_all add: h_def)
  then have "page_holds fs (mxFrame (hdr w) \<noteq> length fs) h (apWiData w ! h)" using index_okD(5) [OF ok] i by simp
  then have "aPgno (apWiData w ! h) ! (i - 1 - page_zero h) = fs ! (i - 1)" using b i(2) by (rule page_holds_at)
  moreover have "walFramePgno w i = aPgno (apWiData w ! h) ! (i - 1 - page_zero h)"
  proof (cases h)
    case 0
    then show ?thesis using h_def [symmetric] by (simp add: walFramePgno_def page_zero_def)
  next
    case (Suc k)
    then have "i - 1 - HASHTABLE_NPAGE_ONE = (i - 1 - page_zero h) + k * HASHTABLE_NPAGE"
        "i - 1 - page_zero h < HASHTABLE_NPAGE"
      using b by (simp_all add: page_zero_def page_room_def)
    then show ?thesis using Suc h_def [symmetric] by (simp add: walFramePgno_def)
  qed
  ultimately show ?thesis by simp
qed

lemma walFindPage_log:
  assumes ok: "index_ok w fs" and r: "apWiData r = apWiData w" "mxFrame (hdr r) \<le> length fs"
    and z: "page_zero h < mxFrame (hdr r)"
  shows "walFindPage r g (apWiData w ! h) (page_zero h) =
    Some (let v = last_hit (\<lambda>v. in_log fs g (minFrame r) (page_zero h + v)) (min (mxFrame (hdr r) - page_zero h) (page_room h))
          in if v = 0 then 0 else v + page_zero h)"
proof -
  let ?p = "apWiData w ! h" and ?z = "page_zero h" and ?l = "mxFrame (hdr r)"
  let ?u = "min (length fs - ?z) (page_room h)" and ?m = "min (?l - ?z) (page_room h)"
  obtain used where u: "tbl_ok (page_room h) used ?p" "?u \<le> used" "\<And>i. i < ?u \<Longrightarrow> aPgno ?p ! i = fs ! (?z + i)"
    using index_okD(5) [OF ok, of h] z r(2) unfolding page_holds_def Let_def by (auto intro: order.strict_trans2)
  define hit where "hit = (\<lambda>v. v + ?z \<le> ?l \<and> v + ?z \<ge> minFrame r \<and> aPgno ?p ! (v - 1) = g)"
  have "walFindPage r g ?p ?z = Some (let v = last_hit hit used in if v = 0 then 0 else v + ?z)"
    unfolding walFindPage_def hit_def [symmetric]
    by (rule find_key_newest [OF u(1)]) (simp add: hit_def)
  also have "last_hit hit used = last_hit hit ?m"
  proof (rule last_hit_shorter)
    show "?m \<le> used" using u(2) r(2) by linarith
    show "\<not> hit i" if "?m < i" "i \<le> used" for i
      using that tbl_okD(2) [OF u(1)] by (auto simp: hit_def)
  qed
  also have "\<dots> = last_hit (\<lambda>v. in_log fs g (minFrame r) (?z + v)) ?m"
  proof (rule last_hit_cong)
    fix i assume i: "1 \<le> i" "i \<le> ?m"
    then have "aPgno ?p ! (i - 1) = fs ! (?z + (i - 1))" using u(3) [of "i - 1"] r(2) by (cases i) auto
    then show "hit i = in_log fs g (minFrame r) (?z + i)" using i by (auto simp: hit_def in_log_def add.commute)
  qed
  finally show ?thesis .
qed


lemma find_pages_log:
  assumes ok: "index_ok w fs" and r: "apWiData r = apWiData w" "mxFrame (hdr r) \<le> length fs"
  shows "page_zero h < mxFrame (hdr r) \<Longrightarrow> find_pages (\<lambda>_. SQLITE_OK) r g h =
    (SQLITE_OK, last_hit (in_log fs g (minFrame r)) (min (mxFrame (hdr r)) (page_zero h + page_room h)))"
proof (induction h)
  have step: "find_pages (\<lambda>_. SQLITE_OK) r g h =
      (let v = last_hit (\<lambda>v. in_log fs g (minFrame r) (page_zero h + v)) (min (mxFrame (hdr r) - page_zero h) (page_room h))
       in if h < walFramePage (minFrame r) then (SQLITE_OK, 0)
          else if v \<noteq> 0 then (SQLITE_OK, v + page_zero h)
          else case h of 0 \<Rightarrow> (SQLITE_OK, 0) | Suc i \<Rightarrow> find_pages (\<lambda>_. SQLITE_OK) r g i)"
    if z: "page_zero h < mxFrame (hdr r)" for h
  proof -
    have "h < length (apWiData r)" using index_okD(4) [OF ok, of h] z r by simp
    then have "walHashGet SQLITE_OK r h = (Inr (apWiData w ! h, page_zero h), r)"
      using r(1) by (simp add: walHashGet_def walIndexPage_def)
    then show ?thesis
      by (subst find_pages.simps) (simp add: walFindPage_log [OF ok r z] Let_def split: nat.split)
  qed
  have low: "last_hit (in_log fs g (minFrame r)) m = 0" if "h < walFramePage (minFrame r)" "m \<le> page_zero h + page_room h" for h m
  proof -
    have "\<not> (minFrame r \<le> page_zero h + page_room h)"
    proof
      assume "minFrame r \<le> page_zero h + page_room h"
      then have "walFramePage (minFrame r) \<le> walFramePage (page_zero h + page_room h)" by (rule walFramePage_mono)
      also have "walFramePage (page_zero h + page_room h) = h" using page_room_bounds(2) [of h] by (subst walFramePage_iff) simp_all
      finally show False using that(1) by simp
    qed
    then show ?thesis using last_hit_le [of "in_log fs g (minFrame r)" m] last_hit_hit [of "in_log fs g (minFrame r)" m] that(2)
      by (auto simp: in_log_def)
  qed
  {
    case 0
    have "page_zero 0 = 0" by (simp add: page_zero_def)
    then show ?case using step [OF 0] low [of 0] by (auto simp: Let_def)
  next
    case (Suc h)
    let ?v = "last_hit (\<lambda>v. in_log fs g (minFrame r) (page_zero (Suc h) + v)) (min (mxFrame (hdr r) - page_zero (Suc h)) (page_room (Suc h)))"
    have "min (mxFrame (hdr r)) (page_zero (Suc h) + page_room (Suc h)) =
        page_zero (Suc h) + min (mxFrame (hdr r) - page_zero (Suc h)) (page_room (Suc h))" using Suc.prems by linarith
    then have split: "last_hit (in_log fs g (minFrame r)) (min (mxFrame (hdr r)) (page_zero (Suc h) + page_room (Suc h))) =
        (if ?v = 0 then last_hit (in_log fs g (minFrame r)) (page_zero (Suc h)) else page_zero (Suc h) + ?v)"
      by (simp add: last_hit_split Let_def)
    have "min (mxFrame (hdr r)) (page_zero h + page_room h) = page_zero (Suc h)" "page_zero h < mxFrame (hdr r)"
      using Suc.prems by (simp_all add: page_zero_Suc)
    then have IH: "find_pages (\<lambda>_. SQLITE_OK) r g h = (SQLITE_OK, last_hit (in_log fs g (minFrame r)) (page_zero (Suc h)))"
      using Suc.IH by simp
    show ?case
    proof (cases "Suc h < walFramePage (minFrame r)")
      case True
      then show ?thesis using step [OF Suc.prems] low [OF True] by (simp add: Let_def)
    next
      case False
      then show ?thesis using step [OF Suc.prems] IH split by (simp add: Let_def add.commute)
    qed
  }
qed

lemma walFindFrame_log:
  assumes ok: "index_ok w fs" and r: "apWiData r = apWiData w" "mxFrame (hdr r) \<le> length fs"
    and lock: "readLock r \<noteq> 0 \<or> bShmUnreliable r"
  shows "walFindFrame (\<lambda>_. SQLITE_OK) r g = (SQLITE_OK, last_hit (in_log fs g (minFrame r)) (mxFrame (hdr r)))"
proof (cases "mxFrame (hdr r) = 0")
  case True
  then show ?thesis by (simp add: walFindFrame_def)
next
  case False
  have "page_zero (walFramePage (mxFrame (hdr r))) < mxFrame (hdr r)"
    "mxFrame (hdr r) \<le> page_zero (walFramePage (mxFrame (hdr r))) + page_room (walFramePage (mxFrame (hdr r)))"
    using walFramePage_bounds False by simp_all
  then show ?thesis using find_pages_log [OF ok r, of "walFramePage (mxFrame (hdr r))" g] False lock
    by (auto simp: walFindFrame_def min_absorb1)
qed

end
