(* ===== verification/WalLog.thy ===== *)
theory WalLog
  imports WalIndex
begin

text \<open>
  The life of a write-ahead log as its index sees it (\<open>wal.c\<close>): frames are appended, transactions commit, roll
  back to a savepoint or altogether, fail half way or die with their process, and the log starts over.  What a
  reader finds in the index is the log up to the end of its snapshot, and stays so while a writer works.
\<close>

section \<open>Steps\<close>

text \<open>The index with the private header of the writer, the page numbers of the frames, and the savepoints taken.\<close>

type_synonym wal_sys = "wal \<times> nat list \<times> wal_savepoint list"

definition page_size_code :: "nat \<Rightarrow> nat" where
  "page_size_code sz = ((sz div 2 ^ 8 * 2 ^ 8) mod 2 ^ 16 + sz div 2 ^ 16) mod 2 ^ 16"

definition written :: "wal \<Rightarrow> nat \<Rightarrow> wal" where
  "written w n = w\<lparr>hdr := (hdr w)\<lparr>hdr_szPage := page_size_code (szPage w), mxFrame := n\<rparr>\<rparr>"

definition committed :: "wal \<Rightarrow> nat \<Rightarrow> nat \<Rightarrow> wal" where
  "committed w n nTruncate =
    (let w = written w n
     in walIndexWriteHdr (w\<lparr>hdr := (hdr w)\<lparr>iChange := (iChange (hdr w) + 1) mod 2 ^ 32, nPage := nTruncate\<rparr>\<rparr>))"

inductive writer_step :: "wal_sys \<Rightarrow> wal_sys \<Rightarrow> bool" where
  append: "g \<noteq> 0 \<Longrightarrow> walIndexAppend SQLITE_OK w (length fs + 1) g = (SQLITE_OK, w') \<Longrightarrow>
    writer_step (w, fs, sps) (w', fs @ [g], sps)"
| spill: "writer_step (w, fs, sps) (written w (length fs), fs, sps)"
| commit: "writer_step (w, fs, sps) (committed w (length fs) nTruncate, fs, [])"
| fail: "writer_step (w, fs, sps) (w, take (mxFrame (hdr w)) fs, sps)"
| savepoint: "writer_step (w, fs, sps) (w, fs, sqlite3WalSavepoint w # sps)"
| rollback_to: "sp \<in> set sps \<Longrightarrow> sqlite3WalSavepointUndo w sp = (sp', w') \<Longrightarrow>
    writer_step (w, fs, sps) (w', take (mxFrame (hdr w')) fs, sp' # sps)"
| rollback: "sqlite3WalUndo w = (undone, w') \<Longrightarrow> writer_step (w, fs, sps) (w', take (mxFrame (hdr w')) fs, [])"
| death: "writer_step (w, fs, sps) (w\<lparr>hdr := shm_hdr w\<rparr>, take (mxFrame (shm_hdr w)) fs, [])"

inductive log_reachable :: "wal_sys \<Rightarrow> bool" where
  init: "mxFrame (hdr w) = 0 \<Longrightarrow> mxFrame (shm_hdr w) = 0 \<Longrightarrow>
    (\<forall>h < length (apWiData w). page_shape (page_room h) (apWiData w ! h)) \<Longrightarrow> log_reachable (w, [], [])"
| writer: "log_reachable s \<Longrightarrow> writer_step s s' \<Longrightarrow> log_reachable s'"
| restart: "log_reachable (w, fs, sps) \<Longrightarrow> log_reachable (walRestartHdr w salt1, [], sps)"

inductive_cases writer_stepE: "writer_step (w, fs, sps) s'"

section \<open>The invariant\<close>

definition log_inv :: "wal_sys \<Rightarrow> bool" where
  "log_inv s = (case s of (w, fs, sps) \<Rightarrow> index_ok w fs \<and> mxFrame (shm_hdr w) \<le> mxFrame (hdr w)
     \<and> (\<forall>(mx, ck, n) \<in> set sps. if n = nCkpt w then mxFrame (shm_hdr w) \<le> mx else mxFrame (shm_hdr w) = 0))"

lemma index_ok_take:
  assumes ok: "index_ok w fs" and m: "m \<le> length fs" "apWiData w' = apWiData w" "mxFrame (hdr w') = m"
  shows "index_ok w' (take m fs)"
proof -
  have "page_holds (take m fs) False h (apWiData w ! h)" if "page_zero h < m" for h
    by (rule page_holds_cong [OF index_okD(5) [OF ok]]) (use that m in auto)
  moreover have "h < length (apWiData w)" if "page_zero h < m" for h
    using index_okD(4) [OF ok, of h] that m(1) by simp
  moreover have "0 \<notin> set (take m fs)" using index_okD(2) [OF ok] by (meson in_set_takeD)
  ultimately show ?thesis
    unfolding index_ok_def using m index_okD(3) [OF ok] by (simp add: min_absorb2)
qed

lemma index_ok_hdr:
  assumes "index_ok w fs" "mxFrame (hdr w') = length fs" "apWiData w' = apWiData w"
  shows "index_ok w' fs"
  using index_ok_take [OF assms(1) order.refl assms(3,2)] by simp

lemma index_ok_cleanup:
  assumes ok: "index_ok w fs" and mx: "mxFrame (hdr w) = length fs"
  shows "index_ok (walCleanupHash w) fs"
proof (cases "fs = []")
  case True
  then show ?thesis using ok mx by (simp add: walCleanupHash_def)
next
  case False
  let ?n = "length fs"
  define h where "h = walFramePage ?n"
  have n1: "1 \<le> ?n" using False by (simp add: Suc_le_eq)
  have b: "page_zero h < ?n" "?n \<le> page_zero h + page_room h" using walFramePage_bounds [OF n1] by (simp_all add: h_def)
  let ?p = "apWiData w ! h" and ?q = "cleanup_page (?n - page_zero h) (apWiData w ! h)"
  have m: "min (?n - page_zero h) (page_room h) = ?n - page_zero h" using b by simp
  obtain used where u: "tbl_ok (page_room h) used ?p" "?n - page_zero h \<le> used"
      "\<And>i. i < ?n - page_zero h \<Longrightarrow> aPgno ?p ! i = fs ! (page_zero h + i)"
    using index_okD(5) [OF ok b(1)] unfolding page_holds_def Let_def m by blast
  have q: "tbl_ok (page_room h) (?n - page_zero h) ?q" by (rule cleanup_tbl_ok [OF u(1,2)])
  have at: "aPgno ?q ! i = fs ! (page_zero h + i)" if "i < ?n - page_zero h" for i
    using u(3) [OF that] that tbl_okD(1) [OF u(1)] b by (simp add: cleanup_page_def nth_append page_shape_def)
  have holds: "page_holds fs False h ?q"
    unfolding page_holds_def Let_def m using q at by blast
  have w: "walCleanupHash w = w\<lparr>apWiData := (apWiData w)[h := ?q]\<rparr>"
    using False mx by (simp add: walCleanupHash_def h_def Let_def)
  have "h' < length (apWiData w) \<and> page_holds fs False h' ((apWiData w)[h := ?q] ! h')" if "page_zero h' < ?n" for h'
    using index_okD(4,5) [OF ok that] holds mx by (cases "h' = h") (auto simp: page_holds_def)
  moreover have "page_shape (page_room h') ((apWiData w)[h := ?q] ! h')" if "h' < length (apWiData w)" for h'
    using index_okD(3) [OF ok that] tbl_okD(1) [OF q] that by (cases "h' = h") simp_all
  ultimately show ?thesis unfolding index_ok_def w using index_okD(1,2) [OF ok] mx by simp
qed

lemma walCleanupHash_frame [simp]:
  "hdr (walCleanupHash w) = hdr w" "shm_hdr (walCleanupHash w) = shm_hdr w" "nCkpt (walCleanupHash w) = nCkpt w"
  "readLock (walCleanupHash w) = readLock w" "bShmUnreliable (walCleanupHash w) = bShmUnreliable w"
  "minFrame (walCleanupHash w) = minFrame w"
  by (simp_all add: walCleanupHash_def Let_def)

text \<open>Both kinds of rollback leave a log cut at the new end.\<close>

lemma walUndo_ok:
  assumes ok: "index_ok w fs" and "mxFrame (shm_hdr w) \<le> mxFrame (hdr w)" "sqlite3WalUndo w = (undone, w')"
  shows "index_ok w' (take (mxFrame (hdr w')) fs)" "hdr w' = shm_hdr w" "shm_hdr w' = shm_hdr w"
proof -
  define w1 where "w1 = w\<lparr>hdr := shm_hdr w\<rparr>"
  have k: "index_ok w1 (take (mxFrame (shm_hdr w)) fs)"
    by (rule index_ok_take [OF ok]) (use assms(2) index_okD(1) [OF ok] in \<open>simp_all add: w1_def\<close>)
  then have c: "index_ok (walCleanupHash w1) (take (mxFrame (shm_hdr w)) fs)"
    by (rule index_ok_cleanup) (use assms(2) index_okD(1) [OF ok] in \<open>simp add: w1_def min_absorb2\<close>)
  have w': "w' = (if mxFrame (hdr w) \<noteq> mxFrame (shm_hdr w) then walCleanupHash w1 else w1)\<lparr>iReCksum := 0\<rparr>"
    using assms(3) by (auto simp: sqlite3WalUndo_def Let_def w1_def)
  show "hdr w' = shm_hdr w" "shm_hdr w' = shm_hdr w" by (simp_all add: w' w1_def)
  then show "index_ok w' (take (mxFrame (hdr w')) fs)" using k c by (auto simp: w' index_ok_def)
qed


definition savepoint_ok :: "wal \<Rightarrow> wal_savepoint \<Rightarrow> bool" where
  "savepoint_ok w sp = (case sp of (mx, ck, n) \<Rightarrow>
     if n = nCkpt w then mxFrame (shm_hdr w) \<le> mx else mxFrame (shm_hdr w) = 0)"

lemma savepointUndo_ok:
  assumes ok: "index_ok w fs" and shm: "mxFrame (shm_hdr w) \<le> mxFrame (hdr w)" and sp: "savepoint_ok w sp"
    and undo: "sqlite3WalSavepointUndo w sp = (sp', w')"
  shows "index_ok w' (take (mxFrame (hdr w')) fs)" "mxFrame (shm_hdr w) \<le> mxFrame (hdr w')"
    "shm_hdr w' = shm_hdr w" "nCkpt w' = nCkpt w" "savepoint_ok w' sp'"
proof -
  obtain mx ck n where spd: "sp = (mx, ck, n)" by (cases sp)
  define m where "m = (if n \<noteq> nCkpt w then 0 else mx)"
  have shm_m: "mxFrame (shm_hdr w) \<le> m" using sp by (auto simp: spd m_def savepoint_ok_def split: if_splits)
  have sp': "sp' = (m, ck, nCkpt w)" using undo by (auto simp: sqlite3WalSavepointUndo_def spd m_def Let_def split: if_splits)
  define w1 where "w1 = w\<lparr>hdr := (hdr w)\<lparr>mxFrame := m, aFrameCksum := ck\<rparr>\<rparr>"
  define w2 where "w2 = walCleanupHash w1"
  have w': "w' = (if m < mxFrame (hdr w) then (if m < iReCksum w2 then w2\<lparr>iReCksum := 0\<rparr> else w2) else w)"
    using undo by (auto simp: sqlite3WalSavepointUndo_def spd m_def w1_def w2_def Let_def split: if_splits)
  have "mxFrame (hdr w) \<le> length fs" by (rule index_okD(1) [OF ok])
  then have "index_ok w1 (take m fs)" if "m < mxFrame (hdr w)"
    by (intro index_ok_take [OF ok]) (use that in \<open>simp_all add: w1_def\<close>)
  then have "index_ok w2 (take m fs)" if "m < mxFrame (hdr w)"
    unfolding w2_def using that index_okD(1) [OF ok] by (intro index_ok_cleanup) (simp_all add: w1_def)
  moreover have "index_ok w (take (mxFrame (hdr w)) fs)"
    by (rule index_ok_take [OF ok index_okD(1) [OF ok] refl refl])
  ultimately show "index_ok w' (take (mxFrame (hdr w')) fs)"
    by (auto simp: w' w2_def w1_def index_ok_def)
  show "mxFrame (shm_hdr w) \<le> mxFrame (hdr w')" "shm_hdr w' = shm_hdr w" "nCkpt w' = nCkpt w"
    using shm shm_m by (simp_all add: w' w2_def w1_def)
  then show "savepoint_ok w' sp'" using shm_m by (simp add: savepoint_ok_def sp')
qed

lemma log_inv_iff:
  "log_inv (w, fs, sps) \<longleftrightarrow> index_ok w fs \<and> mxFrame (shm_hdr w) \<le> mxFrame (hdr w) \<and> (\<forall>sp \<in> set sps. savepoint_ok w sp)"
  by (auto simp: log_inv_def savepoint_ok_def)

lemma savepoint_ok_cong:
  "savepoint_ok w sp \<Longrightarrow> shm_hdr w' = shm_hdr w \<Longrightarrow> nCkpt w' = nCkpt w \<Longrightarrow> savepoint_ok w' sp"
  by (cases sp) (simp add: savepoint_ok_def)

text \<open>A step keeps the invariant, never shortens what is committed, and changes no committed frame.\<close>

lemma writer_step_ok:
  assumes "writer_step (w, fs, sps) (w', fs', sps')" and inv: "log_inv (w, fs, sps)"
  shows "log_inv (w', fs', sps') \<and> mxFrame (shm_hdr w) \<le> mxFrame (shm_hdr w')
    \<and> take (mxFrame (shm_hdr w)) fs' = take (mxFrame (shm_hdr w)) fs"
proof -
  have ok: "index_ok w fs" and shm: "mxFrame (shm_hdr w) \<le> mxFrame (hdr w)"
    and sp: "\<And>sp. sp \<in> set sps \<Longrightarrow> savepoint_ok w sp" using inv by (auto simp: log_inv_iff)
  have mx: "mxFrame (hdr w) \<le> length fs" by (rule index_okD(1) [OF ok])
  show ?thesis
    using assms(1)
  proof (cases rule: writer_step.cases)
    case (append g)
    obtain ps where "w' = w\<lparr>apWiData := ps\<rparr>" "index_ok w' (fs @ [g])"
      using walIndexAppend_ok [OF ok append(3)] append(4) by auto
    then show ?thesis using append sp shm mx by (auto simp: log_inv_iff savepoint_ok_def)
  next
    case spill
    have "index_ok w' fs" by (rule index_ok_hdr [OF ok]) (simp_all add: spill written_def)
    then show ?thesis using spill sp shm mx by (auto simp: log_inv_iff savepoint_ok_def written_def)
  next
    case (commit nTruncate)
    have "index_ok w' fs"
      by (rule index_ok_hdr [OF ok]) (simp_all add: commit committed_def written_def Let_def walIndexWriteHdr_def)
    then show ?thesis using commit shm mx by (auto simp: log_inv_iff committed_def written_def Let_def walIndexWriteHdr_def)
  next
    case fail
    then show ?thesis using index_ok_take [OF ok mx refl refl] sp shm by (auto simp: log_inv_iff min_absorb1)
  next
    case savepoint
    then show ?thesis using inv shm by (auto simp: log_inv_iff savepoint_ok_def sqlite3WalSavepoint_def)
  next
    case (rollback_to sp sp')
    note U = savepointUndo_ok [OF ok shm assms(2)[unfolded log_inv_iff, THEN conjunct2, THEN conjunct2, rule_format, OF rollback_to(3)] rollback_to(4)]
    have "savepoint_ok w' sp1" if "sp1 \<in> set sps" for sp1
      by (rule savepoint_ok_cong [OF sp [OF that] U(3,4)])
    then show ?thesis using U rollback_to(1,2) by (auto simp: log_inv_iff min_absorb1)
  next
    case (rollback undone)
    then show ?thesis using walUndo_ok [OF ok shm rollback(3)] by (auto simp: log_inv_iff min_absorb1)
  next
    case death
    then show ?thesis using index_ok_take [OF ok, of "mxFrame (shm_hdr w)" "w\<lparr>hdr := shm_hdr w\<rparr>"] shm mx
      by (auto simp: log_inv_iff min_absorb1)
  qed
qed

lemma log_reachable_inv: "log_reachable s \<Longrightarrow> log_inv s"
proof (induction rule: log_reachable.induct)
  case (init w)
  then show ?case by (simp add: log_inv_iff index_ok_def)
next
  case (writer s s')
  obtain w f p w' f' p' where "s = (w, f, p)" "s' = (w', f', p')" by (metis surj_pair)
  then show ?case using writer writer_step_ok [of w f p w' f' p'] by simp
next
  case (restart w fs sps salt1)
  then show ?case
    by (auto simp: log_inv_iff index_ok_def walRestartHdr_def walIndexWriteHdr_def savepoint_ok_def Let_def)
qed

lemma writer_steps_ok:
  assumes "writer_step\<^sup>*\<^sup>* s s'" "log_inv s"
  shows "log_inv s' \<and> mxFrame (shm_hdr (fst s)) \<le> mxFrame (shm_hdr (fst s'))
    \<and> take (mxFrame (shm_hdr (fst s))) (fst (snd s')) = take (mxFrame (shm_hdr (fst s))) (fst (snd s))"
  using assms
proof (induction rule: rtranclp_induct)
  case base
  then show ?case by simp
next
  case (step s1 s2)
  obtain w1 f1 p1 w2 f2 p2 where s: "s1 = (w1, f1, p1)" "s2 = (w2, f2, p2)" by (metis surj_pair)
  let ?m = "mxFrame (shm_hdr (fst s))"
  have W: "log_inv (w2, f2, p2)" "mxFrame (shm_hdr w1) \<le> mxFrame (shm_hdr w2)"
      "take (mxFrame (shm_hdr w1)) f2 = take (mxFrame (shm_hdr w1)) f1"
    using writer_step_ok [of w1 f1 p1 w2 f2 p2] step s by auto
  have "?m \<le> mxFrame (shm_hdr w1)" using step s by simp
  then have "take ?m f2 = take ?m f1" using W(3) by (metis min.absorb1 take_take)
  then show ?case using W step s by simp
qed


section \<open>Properties\<close>

text \<open>Concrete states: a new log, and one with the pages 5, 7 and again 5, the first two committed.\<close>

definition wal_fresh :: wal where
  "wal_fresh =
    (let h = \<lparr>iChange = 0, bigEndCksum = False, hdr_szPage = 4096, mxFrame = 0, nPage = 0, aFrameCksum = (0, 0), aSalt = replicate 8 0\<rparr>
     in \<lparr>apWiData = [], shm_hdr = h, pInfo = \<lparr>nBackfill = 0, nBackfillAttempted = 0, aReadMark = replicate 5 0\<rparr>, hdr = h,
         szPage = 4096, minFrame = 1, readLock = 1, bShmUnreliable = False, iReCksum = 0, nCkpt = 0\<rparr>)"

lemma wal_fresh_reachable: "log_reachable (wal_fresh, [], [])"
  by (rule log_reachable.init) (simp_all add: wal_fresh_def Let_def)

lemma can_append:
  assumes "log_reachable (w, fs, sps)" "g \<noteq> 0" "n = length fs"
  obtains ps where "log_reachable (w\<lparr>apWiData := ps\<rparr>, fs @ [g], sps)"
    "walIndexAppend SQLITE_OK w (n + 1) g = (SQLITE_OK, w\<lparr>apWiData := ps\<rparr>)"
proof -
  have "index_ok w fs" using log_reachable_inv [OF assms(1)] by (simp add: log_inv_iff)
  then obtain ps where ps: "walIndexAppend SQLITE_OK w (length fs + 1) g = (SQLITE_OK, w\<lparr>apWiData := ps\<rparr>)"
    using walIndexAppend_ok assms(2) by blast
  then show thesis using that [of ps] log_reachable.writer [OF assms(1) writer_step.append [OF assms(2) ps]] assms(3) by simp
qed

lemma wal_example:
  obtains ps where "log_reachable ((committed wal_fresh 2 2)\<lparr>apWiData := ps, hdr := (hdr (committed wal_fresh 2 2))\<lparr>mxFrame := 3\<rparr>\<rparr>, [5, 7, 5], [])"
proof -
  obtain p1 where 1: "log_reachable (wal_fresh\<lparr>apWiData := p1\<rparr>, [] @ [5], [])"
    using can_append [OF wal_fresh_reachable, of 5] by auto
  obtain p2 where 2: "log_reachable (wal_fresh\<lparr>apWiData := p2\<rparr>, [5, 7], [])"
    using can_append [OF 1, of 7] by auto
  have c: "log_reachable (committed (wal_fresh\<lparr>apWiData := p2\<rparr>) 2 2, [5, 7], [])"
    using log_reachable.writer [OF 2 writer_step.commit [of _ _ _ 2]] by (simp add: eval_nat_numeral)
  obtain p3 where 3: "log_reachable (committed (wal_fresh\<lparr>apWiData := p2\<rparr>) 2 2\<lparr>apWiData := p3\<rparr>, [5, 7, 5], [])"
    using can_append [OF c, of 5 2] by auto
  have "written (committed (wal_fresh\<lparr>apWiData := p2\<rparr>) 2 2\<lparr>apWiData := p3\<rparr>) (length [5, 7, 5 :: nat])
      = (committed wal_fresh 2 2)\<lparr>apWiData := p3, hdr := (hdr (committed wal_fresh 2 2))\<lparr>mxFrame := 3\<rparr>\<rparr>"
    by (simp add: committed_def written_def Let_def walIndexWriteHdr_def)
  then show thesis using that log_reachable.writer [OF 3 writer_step.spill] by simp
qed

text \<open>The linear search that the code runs as a check of the tables in its expensive self-test.\<close>

definition linear_search :: "wal \<Rightarrow> nat \<Rightarrow> nat" where
  "linear_search w pgno = last_hit (\<lambda>iTest. minFrame w \<le> iTest \<and> walFramePgno w iTest = pgno) (mxFrame (hdr w))"

lemma walFramePgno_cong: "apWiData r = apWiData w \<Longrightarrow> walFramePgno r i = walFramePgno w i"
  by (simp add: walFramePgno_def Let_def)

lemma reader_finds:
  assumes "log_inv (w, fs, sps)" "apWiData r = apWiData w" "mxFrame (hdr r) \<le> length fs" "readLock r \<noteq> 0 \<or> bShmUnreliable r"
  shows "walFindFrame (\<lambda>_. SQLITE_OK) r g = (SQLITE_OK, last_hit (in_log fs g (minFrame r)) (mxFrame (hdr r)))"
  using assms by (intro walFindFrame_log) (auto simp: log_inv_iff)

text \<open>C7.  The hash tables of the index answer as the linear search through the frames does: in every state that writers,
  rollbacks, dead processes and restarts can produce, a reader with any snapshot of the log finds the newest frame of
  a page within its snapshot, never an error.
\<close>

theorem wal_hash_is_linear_search:
  assumes "log_reachable (w, fs, sps)" "apWiData r = apWiData w" "mxFrame (hdr r) \<le> length fs"
    "readLock r \<noteq> 0 \<or> bShmUnreliable r"
  shows "walFindFrame (\<lambda>_. SQLITE_OK) r pgno = (SQLITE_OK, linear_search r pgno)"
proof -
  have inv: "log_inv (w, fs, sps)" by (rule log_reachable_inv [OF assms(1)])
  then have ok: "index_ok w fs" by (simp add: log_inv_iff)
  have "walFramePgno r i = fs ! (i - 1)" if "1 \<le> i" "i \<le> length fs" for i
    using walFramePgno_log [OF ok that] walFramePgno_cong [OF assms(2)] by simp
  then have "last_hit (in_log fs pgno (minFrame r)) (mxFrame (hdr r)) = linear_search r pgno"
    unfolding linear_search_def using assms(3) by (intro last_hit_cong) (simp add: in_log_def)
  then show ?thesis using reader_finds [OF inv assms(2-4)] by simp
qed

theorem wal_hash_is_linear_search_witness:
  "\<exists>w. log_reachable (w, [5, 7, 5], []) \<and> walFindFrame (\<lambda>_. SQLITE_OK) w 5 = (SQLITE_OK, 3) \<and> walFindFrame (\<lambda>_. SQLITE_OK) w 7 = (SQLITE_OK, 2)"
proof -
  obtain ps where r: "log_reachable ((committed wal_fresh 2 2)\<lparr>apWiData := ps, hdr := (hdr (committed wal_fresh 2 2))\<lparr>mxFrame := 3\<rparr>\<rparr>, [5, 7, 5], [])"
    (is "log_reachable (?w, _, _)") using wal_example by blast
  have "index_ok ?w [5, 7, 5]" using log_reachable_inv [OF r] by (simp add: log_inv_iff)
  then have "walFramePgno ?w 1 = 5" "walFramePgno ?w 2 = 7" "walFramePgno ?w 3 = 5"
    using walFramePgno_log [of ?w "[5, 7, 5]"] by simp_all
  moreover have "minFrame ?w = 1" "mxFrame (hdr ?w) = 3" "readLock ?w = 1"
    by (simp_all add: committed_def written_def walIndexWriteHdr_def wal_fresh_def Let_def)
  ultimately have "linear_search ?w 5 = 3" "linear_search ?w 7 = 2"
    by (simp_all add: linear_search_def eval_nat_numeral)
  then show ?thesis
    using r wal_hash_is_linear_search [OF r refl, of 5] wal_hash_is_linear_search [OF r refl, of 7] \<open>readLock ?w = 1\<close> \<open>mxFrame (hdr ?w) = 3\<close>
    by (intro exI [of _ ?w]) simp
qed

text \<open>C3.  Readers are isolated from the writer: whatever the writer does after a reader has taken its snapshot of the
  shared header - append, commit, roll back to savepoints, fail or die - short of starting the log over, each lookup
  of the reader in the changed tables gives the frame it would have given at first.
\<close>

theorem wal_snapshot_isolation:
  assumes "log_reachable (w, fs, sps)" "writer_step\<^sup>*\<^sup>* (w, fs, sps) (w', fs', sps')"
    "hdr r = shm_hdr w" "readLock r \<noteq> 0 \<or> bShmUnreliable r"
  shows "walFindFrame (\<lambda>_. SQLITE_OK) (r\<lparr>apWiData := apWiData w'\<rparr>) pgno = walFindFrame (\<lambda>_. SQLITE_OK) (r\<lparr>apWiData := apWiData w\<rparr>) pgno"
proof -
  let ?m = "mxFrame (shm_hdr w)"
  have inv: "log_inv (w, fs, sps)" by (rule log_reachable_inv [OF assms(1)])
  have S: "log_inv (w', fs', sps')" "?m \<le> mxFrame (shm_hdr w')" "take ?m fs' = take ?m fs"
    using writer_steps_ok [OF assms(2) inv] by simp_all
  have m: "?m \<le> length fs" "?m \<le> length fs'" using inv S by (auto simp: log_inv_iff index_ok_def)
  have "in_log fs' pgno (minFrame r) i = in_log fs pgno (minFrame r) i" if "1 \<le> i" "i \<le> ?m" for i
  proof -
    have "take ?m fs' ! (i - 1) = take ?m fs ! (i - 1)" by (simp only: S(3))
    then show ?thesis using that by (simp add: in_log_def)
  qed
  then have "last_hit (in_log fs' pgno (minFrame r)) ?m = last_hit (in_log fs pgno (minFrame r)) ?m" by (rule last_hit_cong)
  then show ?thesis
    using reader_finds [OF S(1), of "r\<lparr>apWiData := apWiData w'\<rparr>" pgno]
      reader_finds [OF inv, of "r\<lparr>apWiData := apWiData w\<rparr>" pgno] assms(3,4) m by simp
qed

theorem wal_snapshot_isolation_witness:
  "\<exists>w ps. log_reachable (w, [5, 7, 5], [])
    \<and> walFindFrame (\<lambda>_. SQLITE_OK) ((w\<lparr>hdr := shm_hdr w\<rparr>)\<lparr>apWiData := ps\<rparr>) 5
      = walFindFrame (\<lambda>_. SQLITE_OK) ((w\<lparr>hdr := shm_hdr w\<rparr>)\<lparr>apWiData := apWiData w\<rparr>) 5"
proof -
  obtain ps where r: "log_reachable ((committed wal_fresh 2 2)\<lparr>apWiData := ps, hdr := (hdr (committed wal_fresh 2 2))\<lparr>mxFrame := 3\<rparr>\<rparr>, [5, 7, 5], [])"
    (is "log_reachable (?w, _, _)") using wal_example by blast
  obtain qs where "walIndexAppend SQLITE_OK ?w (length [5, 7, 5 :: nat] + 1) 5 = (SQLITE_OK, ?w\<lparr>apWiData := qs\<rparr>)"
    using can_append [OF r numeral_neq_zero refl, of "num.Bit1 (num.Bit0 num.One)"] by blast
  then have "writer_step (?w, [5, 7, 5], []) (?w\<lparr>apWiData := qs\<rparr>, [5, 7, 5] @ [5], [])"
    by (rule writer_step.append [OF numeral_neq_zero])
  from wal_snapshot_isolation [OF r r_into_rtranclp [of writer_step, OF this], of "?w\<lparr>hdr := shm_hdr ?w\<rparr>" 5]
  have "walFindFrame (\<lambda>_. SQLITE_OK) ((?w\<lparr>hdr := shm_hdr ?w\<rparr>)\<lparr>apWiData := qs\<rparr>) 5
      = walFindFrame (\<lambda>_. SQLITE_OK) ((?w\<lparr>hdr := shm_hdr ?w\<rparr>)\<lparr>apWiData := apWiData ?w\<rparr>) 5"
    by (simp add: committed_def written_def walIndexWriteHdr_def wal_fresh_def Let_def)
  then show ?thesis using r by blast
qed

text \<open>C22.  A page that is written is found: in every reachable state the next frame can be entered in the index - no table
  overflows and no remnant of a dead writer is in the way - and once it is counted, a lookup of its page gives it.
\<close>

theorem wal_append_is_found:
  assumes "log_reachable (w, fs, sps)" "pgno \<noteq> 0"
  shows "\<exists>w'. walIndexAppend SQLITE_OK w (length fs + 1) pgno = (SQLITE_OK, w')
    \<and> walFindFrame (\<lambda>_. SQLITE_OK) (written w' (length fs + 1)\<lparr>readLock := 1, minFrame := 1\<rparr>) pgno = (SQLITE_OK, length fs + 1)"
proof -
  have inv: "log_inv (w, fs, sps)" by (rule log_reachable_inv [OF assms(1)])
  then obtain ps where ps: "walIndexAppend SQLITE_OK w (length fs + 1) pgno = (SQLITE_OK, w\<lparr>apWiData := ps\<rparr>)"
      "index_ok (w\<lparr>apWiData := ps\<rparr>) (fs @ [pgno])"
    using walIndexAppend_ok assms(2) unfolding log_inv_iff by blast
  have "walFindFrame (\<lambda>_. SQLITE_OK) (written (w\<lparr>apWiData := ps\<rparr>) (length fs + 1)\<lparr>readLock := 1, minFrame := 1\<rparr>) pgno
      = (SQLITE_OK, last_hit (in_log (fs @ [pgno]) pgno 1) (length fs + 1))"
    using walFindFrame_log [OF ps(2), of "written (w\<lparr>apWiData := ps\<rparr>) (length fs + 1)\<lparr>readLock := 1, minFrame := 1\<rparr>"]
    by (simp add: written_def)
  then show ?thesis using ps(1) by (simp add: in_log_def)
qed

theorem wal_append_is_found_witness:
  "\<exists>w'. walIndexAppend SQLITE_OK wal_fresh 1 9 = (SQLITE_OK, w')
    \<and> walFindFrame (\<lambda>_. SQLITE_OK) (written w' 1\<lparr>readLock := 1, minFrame := 1\<rparr>) 9 = (SQLITE_OK, 1)"
  using wal_append_is_found [OF wal_fresh_reachable, of 9] by simp

lemma walUndo_pages:
  "fst (sqlite3WalUndo w) = map (walFramePgno (w\<lparr>hdr := shm_hdr w\<rparr>)) [mxFrame (shm_hdr w) + 1..<mxFrame (hdr w) + 1]"
  unfolding sqlite3WalUndo_def Let_def fst_conv by (simp del: upt_Suc)

lemma walUndo_frame:
  "readLock (snd (sqlite3WalUndo w)) = readLock w" "bShmUnreliable (snd (sqlite3WalUndo w)) = bShmUnreliable w"
  "minFrame (snd (sqlite3WalUndo w)) = minFrame w"
  by (simp_all add: sqlite3WalUndo_def Let_def del: upt_Suc)

text \<open>C35.  A rollback tells the pager to forget exactly the pages written since the last commit, frame by frame, and leaves
  an index in which every lookup of the writer gives the newest committed frame.
\<close>

theorem wal_undo_restores_commit:
  assumes "log_reachable (w, fs, sps)" "mxFrame (hdr w) = length fs" "sqlite3WalUndo w = (undone, w')"
    "readLock w \<noteq> 0 \<or> bShmUnreliable w"
  shows "undone = drop (mxFrame (shm_hdr w)) fs \<and> hdr w' = shm_hdr w
    \<and> walFindFrame (\<lambda>_. SQLITE_OK) w' pgno = (SQLITE_OK, last_hit (in_log (take (mxFrame (shm_hdr w)) fs) pgno (minFrame w)) (mxFrame (shm_hdr w)))"
proof -
  have inv: "index_ok w fs" "mxFrame (shm_hdr w) \<le> mxFrame (hdr w)"
    using log_reachable_inv [OF assms(1)] by (auto simp: log_inv_iff)
  note U = walUndo_ok [OF inv assms(3)]
  have "undone = map (walFramePgno (w\<lparr>hdr := shm_hdr w\<rparr>)) [mxFrame (shm_hdr w) + 1..<length fs + 1]"
    using walUndo_pages [of w] assms(2,3) by simp
  also have "\<dots> = map (\<lambda>i. fs ! (i - 1)) [mxFrame (shm_hdr w) + 1..<length fs + 1]"
  proof (rule map_cong [OF refl])
    fix i assume "i \<in> set [mxFrame (shm_hdr w) + 1..<length fs + 1]"
    then show "walFramePgno (w\<lparr>hdr := shm_hdr w\<rparr>) i = fs ! (i - 1)"
      using walFramePgno_log [OF inv(1), of i] walFramePgno_cong [of "w\<lparr>hdr := shm_hdr w\<rparr>" w] by auto
  qed
  also have "\<dots> = drop (mxFrame (shm_hdr w)) fs"
    using inv(2) assms(2) by (intro nth_equalityI) (auto simp del: upt_Suc)
  finally have "undone = drop (mxFrame (shm_hdr w)) fs" .
  moreover have "readLock w' = readLock w" "bShmUnreliable w' = bShmUnreliable w" "minFrame w' = minFrame w"
    using walUndo_frame [of w] assms(3) by simp_all
  ultimately show ?thesis
    using walFindFrame_log [OF U(1), of w' pgno] index_okD(1) [OF U(1)] U(2) assms(4) inv assms(2) by (simp add: min_absorb1)
qed

theorem wal_undo_restores_commit_witness:
  "\<exists>w w'. log_reachable (w, [5, 7, 5], []) \<and> sqlite3WalUndo w = ([5], w') \<and> walFindFrame (\<lambda>_. SQLITE_OK) w' 5 = (SQLITE_OK, 1)"
proof -
  obtain ps where r: "log_reachable ((committed wal_fresh 2 2)\<lparr>apWiData := ps, hdr := (hdr (committed wal_fresh 2 2))\<lparr>mxFrame := 3\<rparr>\<rparr>, [5, 7, 5], [])"
    (is "log_reachable (?w, _, _)") using wal_example by blast
  obtain undone w' where u: "sqlite3WalUndo ?w = (undone, w')" by (metis surj_pair)
  have f: "minFrame ?w = 1" "mxFrame (hdr ?w) = length [5, 7, 5 :: nat]" "readLock ?w = 1" "mxFrame (shm_hdr ?w) = 2"
    by (simp_all add: committed_def written_def walIndexWriteHdr_def wal_fresh_def Let_def)
  have "undone = [5] \<and> walFindFrame (\<lambda>_. SQLITE_OK) w' 5 = (SQLITE_OK, 1)"
    using wal_undo_restores_commit [OF r f(2) u, of 5] f by (simp add: in_log_def eval_nat_numeral)
  then show ?thesis using r u by blast
qed

end
