(* ===== verification/WalSort.thy ===== *)
theory WalSort
  imports Prelude
begin

text \<open>
  The merge sort of the checkpointer (\<open>wal.c\<close>): the frames of one table in the order of their page numbers, of
  frames with equal page number only the newest.  Sublists are merged in place in the code; here they are lists.
\<close>

section \<open>Merging\<close>

text \<open>One round takes the smaller head - the right one if they are equal - and drops an equal head on the left.\<close>

definition drop_equal :: "(nat \<Rightarrow> nat) \<Rightarrow> nat \<Rightarrow> nat list \<Rightarrow> nat list" where
  "drop_equal aContent dbpage aLeft =
    (case aLeft of [] \<Rightarrow> [] | l # ls \<Rightarrow> if aContent l = dbpage then ls else aLeft)"

lemma length_drop_equal [simp]: "length (drop_equal c d ls) \<le> length ls"
  by (cases ls) (simp_all add: drop_equal_def)

lemma drop_equal_shrinks: "length (drop_equal c d (l # ls)) + n < Suc (Suc (length ls + n))"
  using length_drop_equal [of c d "l # ls"] by simp

function walMerge :: "(nat \<Rightarrow> nat) \<Rightarrow> nat list \<Rightarrow> nat list \<Rightarrow> nat list" where
  "walMerge aContent [] [] = []"
| "walMerge aContent (l # ls) [] = l # walMerge aContent (drop_equal aContent (aContent l) ls) []"
| "walMerge aContent [] (r # rs) = r # walMerge aContent [] rs"
| "walMerge aContent (l # ls) (r # rs) =
    (if aContent l < aContent r then l # walMerge aContent (drop_equal aContent (aContent l) ls) (r # rs)
     else r # walMerge aContent (drop_equal aContent (aContent r) (l # ls)) rs)"
  by pat_completeness auto
termination
  by (relation "measure (\<lambda>(c, ls, rs). length ls + length rs)") (auto simp: le_imp_less_Suc drop_equal_shrinks)

declare walMerge.simps [simp del]

section \<open>Sorting\<close>

text \<open>
  \<open>aSub ! k\<close> is the sublist of the last \<open>2 ^ k\<close> positions of bit \<open>k\<close> of the position.  The carry of a new
  element runs through the set bits, as in a binary counter.
\<close>

function carry :: "(nat \<Rightarrow> nat) \<Rightarrow> nat list list \<Rightarrow> nat \<Rightarrow> nat \<Rightarrow> nat list \<Rightarrow> nat \<times> nat list" where
  "carry aContent aSub iList iSub aMerge =
    (if odd (iList div 2 ^ iSub)
     then carry aContent aSub iList (iSub + 1) (walMerge aContent (aSub ! iSub) aMerge)
     else (iSub, aMerge))"
  by pat_completeness auto
termination
proof (relation "measure (\<lambda>(c, aSub, i, k, m). i div 2 ^ k)")
  fix i k :: nat assume "odd (i div 2 ^ k)"
  then have "i div 2 ^ k div 2 < i div 2 ^ k" by (intro div_less_dividend) (auto intro!: Nat.gr0I)
  moreover have "i div 2 ^ (k + 1) = i div 2 ^ k div 2" by (metis div_mult2_eq power_add power_one_right)
  ultimately show "((c, aSub, i, k + 1, walMerge c (aSub ! k) m), c, aSub, i, k, m) \<in> measure (\<lambda>(c, aSub, i, k, m). i div 2 ^ k)"
    for c :: "nat \<Rightarrow> nat" and aSub m by simp
qed simp

declare carry.simps [simp del]

definition sort_step :: "(nat \<Rightarrow> nat) \<Rightarrow> nat list \<Rightarrow> nat list list \<times> nat \<times> nat list \<Rightarrow> nat \<Rightarrow> nat list list \<times> nat \<times> nat list" where
  "sort_step aContent aList st iList =
    (case st of (aSub, _, _) \<Rightarrow>
       case carry aContent aSub iList 0 [aList ! iList] of
         (iSub, aMerge) \<Rightarrow> (aSub[iSub := aMerge], iSub, aMerge))"

definition merge_rest :: "(nat \<Rightarrow> nat) \<Rightarrow> nat list list \<Rightarrow> nat \<Rightarrow> nat list \<Rightarrow> nat \<Rightarrow> nat list" where
  "merge_rest aContent aSub nList aMerge iSub =
    (if odd (nList div 2 ^ iSub) then walMerge aContent (aSub ! iSub) aMerge else aMerge)"

definition walMergesort :: "(nat \<Rightarrow> nat) \<Rightarrow> nat list \<Rightarrow> nat list" where
  "walMergesort aContent aList =
    (case foldl (sort_step aContent aList) (replicate 13 [], 0, []) [0..<length aList] of
       (aSub, iSub, aMerge) \<Rightarrow> foldl (merge_rest aContent aSub (length aList)) aMerge [iSub + 1..<13])"

section \<open>The sorted list of the newest frames\<close>

definition newest :: "(nat \<Rightarrow> nat) \<Rightarrow> nat set \<Rightarrow> nat set" where
  "newest c S = {x \<in> S. \<forall>y \<in> S. c y = c x \<longrightarrow> y \<le> x}"

definition sorts :: "(nat \<Rightarrow> nat) \<Rightarrow> nat set \<Rightarrow> nat list \<Rightarrow> bool" where
  "sorts c S xs = (sorted_wrt (\<lambda>x y. c x < c y) xs \<and> set xs = newest c S)"

lemma newest_image: "finite S \<Longrightarrow> c ` newest c S = c ` S"
proof
  show "c ` newest c S \<subseteq> c ` S" by (auto simp: newest_def)
  assume fin: "finite S"
  show "c ` S \<subseteq> c ` newest c S"
  proof
    fix k assume "k \<in> c ` S"
    then have ne: "{y \<in> S. c y = k} \<noteq> {}" by auto
    have f: "finite {y \<in> S. c y = k}" using fin by simp
    have "Max {y \<in> S. c y = k} \<in> newest c S"
      using Max_in [OF f ne] Max_ge [OF f] by (auto simp: newest_def)
    moreover have "c (Max {y \<in> S. c y = k}) = k" using Max_in [OF f ne] by simp
    ultimately show "k \<in> c ` newest c S" by force
  qed
qed

lemma newest_union:
  assumes "finite B" "\<And>a b. a \<in> A \<Longrightarrow> b \<in> B \<Longrightarrow> a < b"
  shows "newest c (A \<union> B) = {a \<in> newest c A. c a \<notin> c ` newest c B} \<union> newest c B"
proof -
  have "x \<in> newest c (A \<union> B) \<longleftrightarrow> x \<in> newest c A \<and> c x \<notin> c ` B \<or> x \<in> newest c B" for x
  proof -
    have "y \<le> x" if "x \<in> B" "y \<in> A" for y using assms(2) [OF that(2,1)] by simp
    moreover have "\<not> y \<le> x" if "x \<in> A" "y \<in> B" for y using assms(2) [OF that] by simp
    ultimately show ?thesis unfolding newest_def by (auto simp: image_iff)
  qed
  then show ?thesis unfolding newest_image [OF assms(1)] by blast
qed

lemma sorted_drop_equal:
  assumes "sorted_wrt (\<lambda>x y. c x < c y) ls" "\<And>l. l \<in> set ls \<Longrightarrow> d \<le> c l"
  shows "set (drop_equal c d ls) = {l \<in> set ls. c l \<noteq> d}" "sorted_wrt (\<lambda>x y. c x < c y) (drop_equal c d ls)"
proof -
  have "set (drop_equal c d ls) = {l \<in> set ls. c l \<noteq> d} \<and> sorted_wrt (\<lambda>x y. c x < c y) (drop_equal c d ls)"
  proof (cases ls)
    case Nil
    then show ?thesis by (simp add: drop_equal_def)
  next
    case (Cons l ls')
    then have "d \<le> c l" "\<forall>x \<in> set ls'. c l < c x" "sorted_wrt (\<lambda>x y. c x < c y) ls'" using assms by simp_all
    then show ?thesis unfolding Cons by (auto simp: drop_equal_def)
  qed
  then show "set (drop_equal c d ls) = {l \<in> set ls. c l \<noteq> d}" "sorted_wrt (\<lambda>x y. c x < c y) (drop_equal c d ls)"
    by simp_all
qed

lemma walMerge_merges:
  "sorted_wrt (\<lambda>x y. c x < c y) ls \<Longrightarrow> sorted_wrt (\<lambda>x y. c x < c y) rs \<Longrightarrow>
   set (walMerge c ls rs) = {l \<in> set ls. c l \<notin> c ` set rs} \<union> set rs \<and> sorted_wrt (\<lambda>x y. c x < c y) (walMerge c ls rs)"
proof (induction c ls rs rule: walMerge.induct)
  case (1 c)
  then show ?case by (simp add: walMerge.simps)
next
  case (2 c l ls)
  have "drop_equal c (c l) ls = ls" using 2(2) by (cases ls) (auto simp: drop_equal_def)
  then show ?case using 2 by (auto simp: walMerge.simps)
next
  case (3 c r rs)
  then show ?case by (auto simp: walMerge.simps)
next
  case (4 c l ls r rs)
  show ?case
  proof (cases "c l < c r")
    case True
    have "drop_equal c (c l) ls = ls" using 4(3) by (cases ls) (auto simp: drop_equal_def)
    then show ?thesis using 4 True by (fastforce simp: walMerge.simps)
  next
    case False
    have le: "c r \<le> c x" if "x \<in> set (l # ls)" for x using that 4(3) False by fastforce
    have D: "set (drop_equal c (c r) (l # ls)) = {x \<in> set (l # ls). c x \<noteq> c r}"
        "sorted_wrt (\<lambda>x y. c x < c y) (drop_equal c (c r) (l # ls))"
      using sorted_drop_equal [OF 4(3) le] by simp_all
    have IH: "set (walMerge c (drop_equal c (c r) (l # ls)) rs) =
        {x \<in> set (drop_equal c (c r) (l # ls)). c x \<notin> c ` set rs} \<union> set rs"
      "sorted_wrt (\<lambda>x y. c x < c y) (walMerge c (drop_equal c (c r) (l # ls)) rs)"
      using 4(2) [OF False D(2)] 4(4) by simp_all
    have eq: "walMerge c (l # ls) (r # rs) = r # walMerge c (drop_equal c (c r) (l # ls)) rs"
      using False by (simp add: walMerge.simps)
    have "c r < c x" if "x \<in> set (walMerge c (drop_equal c (c r) (l # ls)) rs)" for x
      using that 4(3,4) False unfolding IH(1) D(1) by (fastforce simp: less_le)
    then show ?thesis unfolding eq using IH(2) by (auto simp: IH(1) D(1))
  qed
qed

lemma walMerge_sorts:
  assumes "sorts c A ls" "sorts c B rs" "finite B" "\<And>a b. a \<in> A \<Longrightarrow> b \<in> B \<Longrightarrow> a < b"
  shows "sorts c (A \<union> B) (walMerge c ls rs)"
  using walMerge_merges [of c ls rs] newest_union [where c = c, OF assms(3,4)] assms(1,2) by (auto simp: sorts_def)


section \<open>The binary counter of sublists\<close>

definition seg :: "nat list \<Rightarrow> nat \<Rightarrow> nat \<Rightarrow> nat set" where
  "seg xs a b = (!) xs ` {a..<b}"

lemma seg_all: "seg xs 0 (length xs) = set xs"
  by (auto simp: seg_def in_set_conv_nth)

lemma sorts_seg_merge:
  assumes "sorted_wrt (<) xs" "sorts c (seg xs a b) ls" "sorts c (seg xs b d) rs" "a \<le> b" "b \<le> d" "d \<le> length xs"
  shows "sorts c (seg xs a d) (walMerge c ls rs)"
proof -
  have "sorts c (seg xs a b \<union> seg xs b d) (walMerge c ls rs)"
  proof (rule walMerge_sorts [OF assms(2,3)])
    show "finite (seg xs b d)" by (simp add: seg_def)
    show "x < y" if "x \<in> seg xs a b" "y \<in> seg xs b d" for x y
      using that assms(1,6) by (auto simp: seg_def intro: sorted_wrt_nth_less)
  qed
  moreover have "seg xs a b \<union> seg xs b d = seg xs a d"
    unfolding seg_def image_Un [symmetric] ivl_disj_un_two(3) [OF assms(4,5)] ..
  ultimately show ?thesis by simp
qed

text \<open>After \<open>n\<close> elements, sublist \<open>k\<close> of a set bit \<open>k\<close> of \<open>n\<close> holds its block, sorted.\<close>

definition subs_ok :: "(nat \<Rightarrow> nat) \<Rightarrow> nat list \<Rightarrow> nat \<Rightarrow> nat list list \<Rightarrow> bool" where
  "subs_ok c xs n aSub = (length aSub = 13 \<and>
    (\<forall>k. odd (n div 2 ^ k) \<longrightarrow> sorts c (seg xs ((n div 2 ^ k - 1) * 2 ^ k) (n div 2 ^ k * 2 ^ k)) (aSub ! k)))"

lemma div_pow_Suc: "(n :: nat) div 2 ^ Suc k = n div 2 ^ k div 2"
  by (metis div_mult2_eq power_Suc2)

lemma pred_div_pow:
  fixes i :: nat
  assumes "i + 1 = h * 2 ^ k"
  shows "i div 2 ^ k = h - 1"
proof (cases h)
  case 0
  then show ?thesis using assms by simp
next
  case (Suc g)
  then have "i + 1 = g * 2 ^ k + 2 ^ k" using assms by simp
  moreover have "(2 :: nat) ^ k > 0" by simp
  ultimately have "2 ^ k * g \<le> i" "i < 2 ^ k * Suc g" unfolding mult_Suc_right mult.commute [of "2 ^ k" g] by linarith+
  then show ?thesis using Suc by (simp add: div_nat_eqI)
qed

lemma carry_sorts:
  "sorted_wrt (<) xs \<Longrightarrow> subs_ok c xs i aSub \<Longrightarrow> i < length xs \<Longrightarrow>
   i + 1 = h * 2 ^ k \<Longrightarrow> sorts c (seg xs ((h - 1) * 2 ^ k) (h * 2 ^ k)) m \<Longrightarrow>
   \<exists>h' k' m'. carry c aSub i k m = (k', m') \<and> i + 1 = h' * 2 ^ k' \<and> odd h' \<and> sorts c (seg xs ((h' - 1) * 2 ^ k') (h' * 2 ^ k')) m'"
proof (induction c aSub i k m arbitrary: h rule: carry.induct)
  case (1 c aSub i k m)
  note q = pred_div_pow [OF "1.prems"(4)]
  have h0: "h \<noteq> 0" using "1.prems"(4) by (metis Suc_eq_plus1 mult_0 nat.distinct(1))
  show ?case
  proof (cases "odd (i div 2 ^ k)")
    case False
    then have "carry c aSub i k m = (k, m)" by (subst carry.simps) simp
    moreover have "odd h" using False h0 by (simp add: q)
    ultimately show ?thesis using "1.prems"(4,5) by blast
  next
    case True
    then have "even h" using h0 by (simp add: q)
    then obtain g where g: "h = 2 * g" by blast
    have g0: "g \<noteq> 0" using g h0 by simp
    have eq: "carry c aSub i k m = carry c aSub i (k + 1) (walMerge c (aSub ! k) m)"
      using True by (subst carry.simps) simp
    have sub: "sorts c (seg xs ((h - 1 - 1) * 2 ^ k) ((h - 1) * 2 ^ k)) (aSub ! k)"
      using "1.prems"(2) True unfolding subs_ok_def q [symmetric] by blast
    have "sorts c (seg xs ((h - 1 - 1) * 2 ^ k) (h * 2 ^ k)) (walMerge c (aSub ! k) m)"
      using sorts_seg_merge [OF "1.prems"(1) sub "1.prems"(5)] "1.prems"(3,4) by simp
    then have "sorts c (seg xs ((g - 1) * 2 ^ (k + 1)) (g * 2 ^ (k + 1))) (walMerge c (aSub ! k) m)"
      using g g0 by (cases g) (simp_all add: mult_ac)
    moreover have "i + 1 = g * 2 ^ (k + 1)" using "1.prems"(4) g by simp
    ultimately show ?thesis unfolding eq using "1.IH" [OF True "1.prems"(1-3)] by blast
  qed
qed

lemma sort_step_ok:
  assumes "sorted_wrt (<) xs" "subs_ok c xs i aSub" "i < length xs" "length xs \<le> 4096"
    and "sort_step c xs (aSub, k0, m0) i = (aSub', k, m)"
  shows "subs_ok c xs (i + 1) aSub' \<and> (\<exists>h. i + 1 = h * 2 ^ k \<and> odd h \<and> sorts c (seg xs ((h - 1) * 2 ^ k) (i + 1)) m)"
proof -
  have one: "sorts c (seg xs ((i + 1 - 1) * 2 ^ 0) ((i + 1) * 2 ^ 0)) [xs ! i]"
    by (auto simp: sorts_def seg_def newest_def)
  have "sort_step c xs (aSub, k0, m0) i = (case carry c aSub i 0 [xs ! i] of (k, m) \<Rightarrow> (aSub[k := m], k, m))"
    by (simp add: sort_step_def)
  then obtain h where h: "carry c aSub i 0 [xs ! i] = (k, m)" "i + 1 = h * 2 ^ k" "odd h"
      "sorts c (seg xs ((h - 1) * 2 ^ k) (h * 2 ^ k)) m" "aSub' = aSub[k := m]"
    using carry_sorts [OF assms(1-3) _ one] assms(5) by auto
  have h1: "1 \<le> h" using h(3) by (cases h) simp_all
  have k: "k < 13"
  proof (rule ccontr)
    assume "\<not> k < 13"
    then have "(2 :: nat) ^ 13 \<le> 2 ^ k" by (intro power_increasing) simp_all
    also have "\<dots> \<le> h * 2 ^ k" using h1 by simp
    finally show False using h(2) assms(3,4) by simp
  qed
  have len: "length aSub = 13" using assms(2) by (simp add: subs_ok_def)
  have "sorts c (seg xs (((i + 1) div 2 ^ j - 1) * 2 ^ j) ((i + 1) div 2 ^ j * 2 ^ j)) (aSub' ! j)"
    if odd: "odd ((i + 1) div 2 ^ j)" for j
  proof (cases j k rule: linorder_cases)
    case less
    then obtain d where "k = j + Suc d" by (metis add_Suc_right less_iff_Suc_add)
    then have "(i + 1) div 2 ^ j = h * 2 ^ Suc d" unfolding h(2) by (simp add: power_add mult.assoc [symmetric] mult.commute [of h])
    then show ?thesis using odd by simp
  next
    case equal
    then have "(i + 1) div 2 ^ j = h" unfolding h(2) by simp
    then show ?thesis using h(4,5) k len equal by simp
  next
    case greater
    then obtain d where d: "j = k + Suc d" by (metis add_Suc_right less_iff_Suc_add)
    have "(i + 1) div 2 ^ j = h div 2 div 2 ^ d" unfolding d power_add div_mult2_eq h(2) by (simp add: div_mult2_eq)
    moreover have "i div 2 ^ j = (h - 1) div 2 div 2 ^ d"
      unfolding d power_add div_mult2_eq pred_div_pow [OF h(2)] by (simp add: div_mult2_eq)
    moreover have "(h - 1) div 2 = h div 2" using h(3) by presburger
    ultimately have e: "(i + 1) div 2 ^ j = i div 2 ^ j" by simp
    then show ?thesis using assms(2) odd greater unfolding subs_ok_def h(5) e by simp
  qed
  then show ?thesis using h len unfolding subs_ok_def by auto
qed


lemma sort_steps_ok:
  assumes "sorted_wrt (<) xs" "length xs \<le> 4096"
  shows "n \<le> length xs \<Longrightarrow> case foldl (sort_step c xs) (replicate 13 [], 0, []) [0..<n] of
    (aSub, k, m) \<Rightarrow> subs_ok c xs n aSub \<and> (n \<noteq> 0 \<longrightarrow> (\<exists>h. n = h * 2 ^ k \<and> odd h \<and> sorts c (seg xs ((h - 1) * 2 ^ k) n) m))"
proof (induction n)
  case 0
  then show ?case by (simp add: subs_ok_def)
next
  case (Suc n)
  obtain aSub k0 m0 where st: "foldl (sort_step c xs) (replicate 13 [], 0, []) [0..<n] = (aSub, k0, m0)" by (metis surj_pair)
  obtain aSub' k m where st': "sort_step c xs (aSub, k0, m0) n = (aSub', k, m)" by (metis surj_pair)
  have "subs_ok c xs n aSub" using Suc st by simp
  from sort_step_ok [OF assms(1) this _ assms(2) st'] show ?case using Suc.prems st st' by simp
qed

lemma merge_rest_ok:
  assumes "sorted_wrt (<) xs" "subs_ok c xs (length xs) aSub"
    and "sorts c (seg xs (length xs div 2 ^ j * 2 ^ j) (length xs)) m"
  shows "sorts c (seg xs (length xs div 2 ^ Suc j * 2 ^ Suc j) (length xs)) (merge_rest c aSub (length xs) m j)"
proof (cases "odd (length xs div 2 ^ j)")
  case True
  let ?q = "length xs div 2 ^ j"
  have "sorts c (seg xs ((?q - 1) * 2 ^ j) (?q * 2 ^ j)) (aSub ! j)" using assms(2) True by (simp add: subs_ok_def)
  then have "sorts c (seg xs ((?q - 1) * 2 ^ j) (length xs)) (walMerge c (aSub ! j) m)"
    by (rule sorts_seg_merge [OF assms(1) _ assms(3)]) simp_all
  moreover have "?q div 2 * 2 ^ Suc j = (?q - 1) * 2 ^ j" using True by (auto elim!: oddE)
  ultimately show ?thesis using True by (simp add: merge_rest_def div_pow_Suc del: power_Suc)
next
  case False
  then have "length xs div 2 ^ Suc j * 2 ^ Suc j = length xs div 2 ^ j * 2 ^ j" unfolding div_pow_Suc by auto
  then show ?thesis using False assms(3) by (simp add: merge_rest_def del: power_Suc)
qed

lemma merge_rests_ok:
  assumes "sorted_wrt (<) xs" "subs_ok c xs (length xs) aSub"
    and "sorts c (seg xs (length xs div 2 ^ a * 2 ^ a) (length xs)) m"
  shows "sorts c (seg xs (length xs div 2 ^ (a + d) * 2 ^ (a + d)) (length xs)) (foldl (merge_rest c aSub (length xs)) m [a..<a + d])"
proof (induction d)
  case 0
  then show ?case using assms(3) by simp
next
  case (Suc d)
  have "[a..<a + Suc d] = [a..<a + d] @ [a + d]" by simp
  then show ?case using merge_rest_ok [OF assms(1,2) Suc] by (simp del: upt_Suc power_Suc)
qed

lemma walMergesort_ok:
  assumes "sorted_wrt (<) aList" "aList \<noteq> []" "length aList \<le> 4096"
  shows "sorts aContent (set aList) (walMergesort aContent aList)"
proof -
  let ?n = "length aList"
  obtain aSub k m where st: "foldl (sort_step aContent aList) (replicate 13 [], 0, []) [0..<?n] = (aSub, k, m)"
    by (metis surj_pair)
  then obtain h where S: "subs_ok aContent aList ?n aSub" "?n = h * 2 ^ k" "odd h"
      "sorts aContent (seg aList ((h - 1) * 2 ^ k) ?n) m"
    using sort_steps_ok [OF assms(1,3) order.refl, of aContent] assms(2) by auto
  have k: "k < 13"
  proof (rule ccontr)
    assume "\<not> k < 13"
    then have "(2 :: nat) ^ 13 \<le> 2 ^ k" by (intro power_increasing) simp_all
    also have "\<dots> \<le> h * 2 ^ k" using S(3) by (cases h) simp_all
    finally show False using S(2) assms(3) by simp
  qed
  obtain b where b: "h = 2 * b + 1" using S(3) by (rule oddE)
  have "h * 2 ^ k div 2 ^ Suc k = b" unfolding div_pow_Suc by (simp add: b)
  then have "?n div 2 ^ (k + 1) * 2 ^ (k + 1) = (h - 1) * 2 ^ k" unfolding S(2) by (simp add: b)
  then have "sorts aContent (seg aList (?n div 2 ^ (k + 1) * 2 ^ (k + 1)) ?n) m" using S(4) by (simp only:)
  from merge_rests_ok [OF assms(1) S(1) this, of "13 - (k + 1)"]
  have "sorts aContent (seg aList (?n div 2 ^ 13 * 2 ^ 13) ?n) (walMergesort aContent aList)"
    using k by (simp add: walMergesort_def st)
  moreover have "?n div 2 ^ 13 = 0" using assms(3) by simp
  ultimately show ?thesis by (simp add: seg_all)
qed

text \<open>C36.  The merge sort of a table: of any list of up to 4096 frames in the order of the log it gives the frames in
  strictly ascending order of their page numbers, and of each page exactly the newest frame.
\<close>

theorem walMergesort_sorts:
  assumes "sorted_wrt (<) aList" "aList \<noteq> []" "length aList \<le> 4096"
  shows "sorted_wrt (\<lambda>x y. aContent x < aContent y) (walMergesort aContent aList)
    \<and> set (walMergesort aContent aList) = {x \<in> set aList. \<forall>y \<in> set aList. aContent y = aContent x \<longrightarrow> y \<le> x}"
  using walMergesort_ok [OF assms, of aContent] by (simp add: sorts_def newest_def)

theorem walMergesort_sorts_witness:
  "sorted_wrt (\<lambda>x y. [7, 3, 7, 5, 3 :: nat] ! x < [7, 3, 7, 5, 3] ! y) (walMergesort ((!) [7, 3, 7, 5, 3]) [0, 1, 2, 3, 4])"
  using walMergesort_sorts [of "[0, 1, 2, 3, 4]" "(!) [7, 3, 7, 5, 3]"] by simp

end
