(* ===== verification/WalIter.thy ===== *)
theory WalIter
  imports WalLog WalSort
begin

text \<open>
  The iterator of the checkpointer (\<open>wal.c\<close>): every page of the log once, in ascending order, with its newest
  frame.  A segment is the sorted index of one table.
\<close>

section \<open>The iterator\<close>

record wal_segment =
  iNext :: nat
  aIndex :: "nat list"
  aSegPgno :: "nat list"
  seg_nEntry :: nat
  seg_iZero :: nat

record wal_iterator =
  iPrior :: nat
  aSegment :: "wal_segment list"

definition empty_segment :: wal_segment where
  "empty_segment = \<lparr>iNext = 0, aIndex = [], aSegPgno = [], seg_nEntry = 0, seg_iZero = 0\<rparr>"

definition iter_segment :: "nat list \<Rightarrow> nat \<Rightarrow> nat \<Rightarrow> wal_segment" where
  "iter_segment pgnos iZero nEntry =
    (let sorted = walMergesort ((!) pgnos) [0..<nEntry]
     in \<lparr>iNext = 0, aIndex = sorted, aSegPgno = pgnos, seg_nEntry = length sorted, seg_iZero = iZero + 1\<rparr>)"

text \<open>The tables from \<open>i\<close> on, \<open>n\<close> of them; \<open>ok\<close> answers for their mapping.\<close>

primrec iter_segments :: "(nat \<Rightarrow> rc) \<Rightarrow> nat \<Rightarrow> nat \<Rightarrow> wal \<Rightarrow> (rc + wal_segment list) \<times> wal" where
  "iter_segments ok nSegment 0 w = (Inr [], w)"
| "iter_segments ok nSegment (Suc n) w =
    (let i = nSegment - Suc n
     in case walHashGet (ok i) w i of
          (Inl rc, w) \<Rightarrow> (Inl rc, w)
        | (Inr (p, iZero), w) \<Rightarrow>
            let nEntry = (if i + 1 = nSegment then mxFrame (hdr w) - iZero else length (aPgno p));
                s = iter_segment (aPgno p) iZero nEntry
            in (case iter_segments ok nSegment n w of
                  (Inl rc, w) \<Rightarrow> (Inl rc, w)
                | (Inr ss, w) \<Rightarrow> (Inr (s # ss), w)))"

text \<open>\<open>mem\<close> is whether the iterator can be allocated.\<close>

definition walIteratorInit :: "bool \<Rightarrow> (nat \<Rightarrow> rc) \<Rightarrow> wal \<Rightarrow> nat \<Rightarrow> (rc + wal_iterator) \<times> wal" where
  "walIteratorInit mem ok w backfilled =
    (let nSegment = walFramePage (mxFrame (hdr w)) + 1;
         first = walFramePage (backfilled + 1)
     in if \<not> mem then (Inl SQLITE_NOMEM, w)
        else case iter_segments ok nSegment (nSegment - first) w of
               (Inl rc, w) \<Rightarrow> (Inl rc, w)
             | (Inr ss, w) \<Rightarrow> (Inr \<lparr>iPrior = 0, aSegment = replicate (min first nSegment) empty_segment @ ss\<rparr>, w))"

definition seg_page :: "wal_segment \<Rightarrow> nat" where
  "seg_page s = aSegPgno s ! (aIndex s ! iNext s)"

text \<open>The entries of a segment up to \<open>iMin\<close> are passed over.\<close>

function skip_seen :: "nat \<Rightarrow> wal_segment \<Rightarrow> wal_segment" where
  "skip_seen iMin s =
    (if iNext s < seg_nEntry s \<and> seg_page s \<le> iMin then skip_seen iMin (s\<lparr>iNext := iNext s + 1\<rparr>) else s)"
  by pat_completeness auto
termination
  by (relation "measure (\<lambda>(m, s). seg_nEntry s - iNext s)") auto

declare skip_seen.simps [simp del]

text \<open>The segments from the last to the first: the smallest page, of equal ones in the last segment.\<close>

primrec iter_scan :: "nat \<Rightarrow> wal_segment list \<Rightarrow> nat \<Rightarrow> nat \<Rightarrow> wal_segment list \<times> nat \<times> nat" where
  "iter_scan iMin [] iRet iFrame = ([], iRet, iFrame)"
| "iter_scan iMin (s # ss) iRet iFrame =
    (let s = skip_seen iMin s;
         hit = iNext s < seg_nEntry s \<and> seg_page s < iRet;
         iFrame = (if hit then seg_iZero s + aIndex s ! iNext s else iFrame);
         iRet = (if hit then seg_page s else iRet)
     in case iter_scan iMin ss iRet iFrame of (ss, iRet, iFrame) \<Rightarrow> (s # ss, iRet, iFrame))"

definition walIteratorNext :: "wal_iterator \<Rightarrow> nat \<Rightarrow> bool \<times> nat \<times> nat \<times> wal_iterator" where
  "walIteratorNext p piFrame =
    (case iter_scan (iPrior p) (rev (aSegment p)) 0xFFFFFFFF piFrame of
       (ss, iRet, iFrame) \<Rightarrow> (iRet = 0xFFFFFFFF, iRet, iFrame, p\<lparr>iPrior := iRet, aSegment := rev ss\<rparr>))"

section \<open>What a scan finds\<close>

text \<open>A segment is good for \<open>iMin\<close> if it ascends and only entries up to \<open>iMin\<close> are passed over.\<close>

definition seg_ok :: "nat \<Rightarrow> wal_segment \<Rightarrow> bool" where
  "seg_ok iMin s = (sorted_wrt (\<lambda>x y. aSegPgno s ! x < aSegPgno s ! y) (aIndex s) \<and> seg_nEntry s = length (aIndex s)
     \<and> (\<forall>j < iNext s. j < seg_nEntry s \<longrightarrow> aSegPgno s ! (aIndex s ! j) \<le> iMin))"

definition seg_map :: "wal_segment \<Rightarrow> nat \<rightharpoonup> nat" where
  "seg_map s = map_of (map (\<lambda>a. (aSegPgno s ! a, seg_iZero s + a)) (aIndex s))"

text \<open>The first segment of the list that has a page counts.\<close>

primrec segs_map :: "wal_segment list \<Rightarrow> nat \<rightharpoonup> nat" where
  "segs_map [] = Map.empty"
| "segs_map (s # ss) = segs_map ss ++ seg_map s"

lemma seg_map_dom: "dom (seg_map s) = (!) (aSegPgno s) ` set (aIndex s)"
  by (force simp: seg_map_def dom_map_of_conv_image_fst)

lemma seg_map_at:
  assumes "seg_ok m s" "j < seg_nEntry s"
  shows "seg_map s (aSegPgno s ! (aIndex s ! j)) = Some (seg_iZero s + aIndex s ! j)"
proof -
  have len: "seg_nEntry s = length (aIndex s)" using assms by (simp add: seg_ok_def)
  have "distinct (map fst (map (\<lambda>a. (aSegPgno s ! a, seg_iZero s + a)) (aIndex s)))"
  proof -
    have "sorted_wrt (<) (map ((!) (aSegPgno s)) (aIndex s))" using assms(1) by (simp add: seg_ok_def sorted_wrt_map)
    then show ?thesis by (simp add: strict_sorted_iff comp_def)
  qed
  moreover have "(aSegPgno s ! (aIndex s ! j), seg_iZero s + aIndex s ! j) \<in> set (map (\<lambda>a. (aSegPgno s ! a, seg_iZero s + a)) (aIndex s))"
    using assms(2) len by auto
  ultimately show ?thesis unfolding seg_map_def by (simp add: map_of_is_SomeI)
qed


lemma seg_ok_mono: "seg_ok m s \<Longrightarrow> m \<le> m' \<Longrightarrow> seg_ok m' s"
  unfolding seg_ok_def using le_trans by blast

lemma skip_seen_frame:
  "aIndex (skip_seen m s) = aIndex s \<and> aSegPgno (skip_seen m s) = aSegPgno s
   \<and> seg_nEntry (skip_seen m s) = seg_nEntry s \<and> seg_iZero (skip_seen m s) = seg_iZero s"
proof (induction m s rule: skip_seen.induct)
  case (1 m s)
  show ?case
  proof (cases "iNext s < seg_nEntry s \<and> seg_page s \<le> m")
    case True
    then have "skip_seen m s = skip_seen m (s\<lparr>iNext := iNext s + 1\<rparr>)" by (subst skip_seen.simps) simp
    then show ?thesis using "1.IH" [OF True] by simp
  next
    case False
    then show ?thesis by (subst (1 2 3 4) skip_seen.simps) auto
  qed
qed

lemma skip_seen_map [simp]: "seg_map (skip_seen m s) = seg_map s"
  by (simp add: seg_map_def skip_seen_frame)

lemma skip_seen_ok:
  "seg_ok m s \<Longrightarrow> seg_ok m (skip_seen m s) \<and> (iNext (skip_seen m s) < seg_nEntry s \<longrightarrow> m < seg_page (skip_seen m s))"
proof (induction m s rule: skip_seen.induct)
  case (1 m s)
  show ?case
  proof (cases "iNext s < seg_nEntry s \<and> seg_page s \<le> m")
    case True
    have "seg_ok m (s\<lparr>iNext := iNext s + 1\<rparr>)"
      using "1.prems" True by (auto simp: seg_ok_def seg_page_def less_Suc_eq)
    then show ?thesis using "1.IH" [OF True] True by (subst (1 2 3) skip_seen.simps) simp
  next
    case False
    then have "skip_seen m s = s" by (subst skip_seen.simps) auto
    then show ?thesis using "1.prems" False by auto
  qed
qed

lemma skip_seen_least:
  assumes ok: "seg_ok m s" and pg: "pg \<in> dom (seg_map s)" "m < pg"
  shows "iNext (skip_seen m s) < seg_nEntry s \<and> seg_page (skip_seen m s) \<le> pg"
proof -
  let ?t = "skip_seen m s"
  have S: "seg_ok m ?t" using skip_seen_ok [OF ok] by simp
  note F = skip_seen_frame [of m s]
  have len: "seg_nEntry s = length (aIndex s)" using ok by (simp add: seg_ok_def)
  obtain j where j: "j < seg_nEntry s" "aSegPgno s ! (aIndex s ! j) = pg"
    using pg(1) len by (auto simp: seg_map_dom in_set_conv_nth)
  have "\<not> j < iNext ?t" using S j pg(2) F unfolding seg_ok_def by auto
  then have le: "iNext ?t \<le> j" by simp
  have "sorted_wrt (\<lambda>x y. aSegPgno s ! x < aSegPgno s ! y) (aIndex s)" using ok by (simp add: seg_ok_def)
  then have "seg_page ?t \<le> pg"
    using le j len F sorted_wrt_nth_less [of "\<lambda>x y. aSegPgno s ! x < aSegPgno s ! y" "aIndex s" "iNext ?t" j]
    by (cases "iNext ?t = j") (auto simp: seg_page_def)
  then show ?thesis using le j by simp
qed

lemma iter_scan_finds:
  "\<forall>s \<in> set ss. seg_ok m s \<Longrightarrow> iter_scan m ss r0 f0 = (ss', r, f) \<Longrightarrow>
   length ss' = length ss \<and> (\<forall>s \<in> set ss'. seg_ok m s) \<and> segs_map ss' = segs_map ss
   \<and> (if \<exists>pg \<in> dom (segs_map ss). m < pg \<and> pg < r0
      then m < r \<and> r < r0 \<and> segs_map ss r = Some f \<and> (\<forall>pg \<in> dom (segs_map ss). m < pg \<longrightarrow> r \<le> pg)
      else r = r0 \<and> f = f0)"
proof (induction ss arbitrary: r0 f0 ss' r f)
  case Nil
  then show ?case by simp
next
  case (Cons s ss)
  define t where "t = skip_seen m s"
  define hit where "hit = (iNext t < seg_nEntry t \<and> seg_page t < r0)"
  define r1 where "r1 = (if hit then seg_page t else r0)"
  define f1 where "f1 = (if hit then seg_iZero t + aIndex t ! iNext t else f0)"
  obtain us r2 f2 where rec: "iter_scan m ss r1 f1 = (us, r2, f2)" by (metis surj_pair)
  have eq: "ss' = t # us" "r = r2" "f = f2"
    using Cons.prems(2) rec by (simp_all add: t_def [symmetric] hit_def [symmetric] r1_def [symmetric] f1_def [symmetric] Let_def)
  have ok: "seg_ok m s" "\<forall>s \<in> set ss. seg_ok m s" using Cons.prems(1) by simp_all
  note T = skip_seen_ok [OF ok(1), folded t_def] and F = skip_seen_frame [of m s, folded t_def]
  note IH = Cons.IH [OF ok(2) rec]
  have low: "r1 \<le> pg" if "pg \<in> dom (seg_map s)" "m < pg" "pg < r0" for pg
    using skip_seen_least [OF ok(1) that(1,2), folded t_def] that(3) F by (auto simp: r1_def hit_def)
  have hitmap: "seg_map s r1 = Some f1" "m < r1" "r1 < r0" if hit
  proof -
    have "iNext t < seg_nEntry t" "seg_page t < r0" using that by (simp_all add: hit_def)
    moreover have "seg_map t (seg_page t) = Some f1"
      using seg_map_at [of m t "iNext t"] T calculation that by (simp add: seg_page_def f1_def)
    ultimately show "seg_map s r1 = Some f1" "m < r1" "r1 < r0" using that T F by (simp_all add: r1_def t_def)
  qed
  have r1: "r1 \<le> r0" "\<not> hit \<Longrightarrow> r1 = r0 \<and> f1 = f0" by (auto simp: r1_def f1_def hit_def)
  have low2: "r1 \<le> pg" if "pg \<in> dom (seg_map s)" "m < pg" for pg
    using low [OF that] r1(1) by (cases "pg < r0") simp_all
  have base: "length ss' = length (s # ss)" "\<forall>s \<in> set ss'. seg_ok m s" "segs_map ss' = segs_map (s # ss)"
    using IH T eq by (simp_all add: t_def)
  have dom: "dom (segs_map (s # ss)) = dom (segs_map ss) \<union> dom (seg_map s)" by auto
  show ?case
  proof (cases "\<exists>pg \<in> dom (segs_map ss). m < pg \<and> pg < r1")
    case True
    then have R: "m < r2" "r2 < r1" "segs_map ss r2 = Some f2" "\<forall>pg \<in> dom (segs_map ss). m < pg \<longrightarrow> r2 \<le> pg"
      using IH by auto
    have "r2 \<notin> dom (seg_map s)" using low [of r2] R(1,2) r1(1) by auto
    then have "segs_map (s # ss) r2 = Some f2" using R(3) by (simp add: map_add_dom_app_simps)
    moreover have "r2 \<le> pg" if "pg \<in> dom (segs_map (s # ss))" "m < pg" for pg
    proof (cases "pg \<in> dom (segs_map ss)")
      case True
      then show ?thesis using R(4) that(2) by blast
    next
      case False
      then have "pg \<in> dom (seg_map s)" using that(1) unfolding dom by blast
      then have "r1 \<le> pg" using low2 that(2) by blast
      then show ?thesis using R(2) by simp
    qed
    moreover have "\<exists>pg \<in> dom (segs_map (s # ss)). m < pg \<and> pg < r0" using True r1(1) unfolding dom by (meson UnI1 less_le_trans)
    ultimately show ?thesis using base eq R(1,2) r1(1) by auto
  next
    case False
    then have r2: "r2 = r1" "f2 = f1" using IH by auto
    show ?thesis
    proof (cases hit)
      case True
      note H = hitmap [OF True]
      have "segs_map (s # ss) r1 = Some f1" using H(1) by simp
      moreover have "r1 \<le> pg" if "pg \<in> dom (segs_map (s # ss))" "m < pg" for pg
        using that False low2 [of pg] unfolding dom by (metis UnE not_less)
      moreover have "\<exists>pg \<in> dom (segs_map (s # ss)). m < pg \<and> pg < r0" using H unfolding dom by blast
      ultimately show ?thesis using base eq r2 H by auto
    next
      case F: False
      have "\<not> (\<exists>pg \<in> dom (segs_map (s # ss)). m < pg \<and> pg < r0)"
        using False low r1(2) [OF F] unfolding dom by force
      then show ?thesis using base eq r2 r1(2) [OF F] by auto
    qed
  qed
qed


section \<open>Steps of the iterator\<close>

definition iter_ok :: "wal_iterator \<Rightarrow> (nat \<rightharpoonup> nat) \<Rightarrow> bool" where
  "iter_ok p M = ((\<forall>s \<in> set (aSegment p). seg_ok (iPrior p) s) \<and> segs_map (rev (aSegment p)) = M)"

text \<open>The next page of the map, or the end.\<close>

lemma walIteratorNext_ok:
  assumes ok: "iter_ok p M" and pgs: "\<forall>pg \<in> dom M. pg < 0xFFFFFFFF" and prior: "iPrior p \<le> 0xFFFFFFFF"
    and step: "walIteratorNext p f0 = (done, pg, f, p')"
  shows "iter_ok p' M \<and> iPrior p' = pg \<and> pg \<le> 0xFFFFFFFF \<and> (done \<longleftrightarrow> \<not> (\<exists>g \<in> dom M. iPrior p < g))
    \<and> (\<not> done \<longrightarrow> iPrior p < pg \<and> M pg = Some f \<and> (\<forall>g \<in> dom M. iPrior p < g \<longrightarrow> pg \<le> g))"
proof -
  obtain ss r f' where sc: "iter_scan (iPrior p) (rev (aSegment p)) 0xFFFFFFFF f0 = (ss, r, f')" by (metis surj_pair)
  have eq: "done = (r = 0xFFFFFFFF)" "pg = r" "f = f'" "p' = p\<lparr>iPrior := r, aSegment := rev ss\<rparr>"
    using step sc by (auto simp: walIteratorNext_def)
  have "\<forall>s \<in> set (rev (aSegment p)). seg_ok (iPrior p) s" using ok by (simp add: iter_ok_def)
  note S = iter_scan_finds [OF this sc]
  have M: "segs_map (rev (aSegment p)) = M" using ok by (simp add: iter_ok_def)
  show ?thesis
  proof (cases "\<exists>g \<in> dom M. iPrior p < g")
    case True
    then have "\<exists>g \<in> dom M. iPrior p < g \<and> g < 0xFFFFFFFF" using pgs by blast
    then have R: "iPrior p < r" "r < 0xFFFFFFFF" "M r = Some f'" "\<forall>g \<in> dom M. iPrior p < g \<longrightarrow> r \<le> g"
      using S unfolding M by auto
    have "seg_ok r s" if "s \<in> set ss" for s using S that seg_ok_mono R(1) less_imp_le by blast
    then have "iter_ok p' M" using S M unfolding iter_ok_def eq by simp
    then show ?thesis using R True unfolding eq by simp
  next
    case False
    then have "r = 0xFFFFFFFF" using S unfolding M by auto
    moreover have "seg_ok r s" if "s \<in> set ss" for s using S that seg_ok_mono prior calculation by blast
    then have "iter_ok p' M" using S M unfolding iter_ok_def eq by simp
    ultimately show ?thesis using False unfolding eq by simp
  qed
qed

section \<open>The start of the iterator\<close>

lemma segs_map_append: "segs_map (xs @ ys) = segs_map ys ++ segs_map xs"
  by (induction xs) (simp_all add: map_add_assoc)

definition some_frame :: "nat \<Rightarrow> nat option" where
  "some_frame v = (if v = 0 then None else Some v)"

lemma map_add_some_frame: "(M ++ N) pg = (case N pg of None \<Rightarrow> M pg | Some x \<Rightarrow> Some x)"
  by (simp add: map_add_def split: option.splits)

lemma iter_segment_ok:
  assumes "1 \<le> n" "n \<le> 4096"
  shows "seg_ok 0 (iter_segment pgnos z n)"
    "seg_map (iter_segment pgnos z n) pg = map_option (\<lambda>v. z + v) (some_frame (last_hit (\<lambda>v. pgnos ! (v - 1) = pg) n))"
proof -
  define xs where "xs = walMergesort ((!) pgnos) [0..<n]"
  define s where "s = iter_segment pgnos z n"
  have "sorted_wrt (<) [0..<n]" by simp
  then have S: "sorts ((!) pgnos) {0..<n} xs" unfolding xs_def using walMergesort_ok [of "[0..<n]" "(!) pgnos"] assms by simp
  have s: "iNext s = 0" "aIndex s = xs" "aSegPgno s = pgnos" "seg_nEntry s = length xs" "seg_iZero s = z + 1"
    by (simp_all add: s_def iter_segment_def xs_def Let_def)
  have ok: "seg_ok 0 s" using S by (simp add: seg_ok_def s sorts_def)
  then show "seg_ok 0 (iter_segment pgnos z n)" by (simp add: s_def)
  let ?v = "last_hit (\<lambda>v. pgnos ! (v - 1) = pg) n"
  have "seg_map s pg = map_option (\<lambda>v. z + v) (some_frame ?v)"
  proof (cases "?v = 0")
    case True
    have "pgnos ! a \<noteq> pg" if "a < n" for a
      using last_hit_newest [of "\<lambda>v. pgnos ! (v - 1) = pg" "Suc a" n] that True by auto
    then have "pg \<notin> dom (seg_map s)" using S by (auto simp: seg_map_dom s sorts_def newest_def)
    then show ?thesis using True by (simp add: some_frame_def domIff)
  next
    case False
    let ?a = "?v - 1"
    have a: "?a < n" "pgnos ! ?a = pg" using last_hit_le [of _ n] last_hit_hit [OF False] False
      by (simp_all add: less_le_trans [OF diff_less])
    have "b \<le> ?a" if "b < n" "pgnos ! b = pg" for b
      using last_hit_newest [of "\<lambda>v. pgnos ! (v - 1) = pg" "Suc b" n] that by simp
    then have "?a \<in> newest ((!) pgnos) {0..<n}" using a by (auto simp: newest_def)
    then have "?a \<in> set xs" using S by (simp add: sorts_def)
    then obtain j where "j < length xs" "xs ! j = ?a" by (auto simp: in_set_conv_nth)
    then have "seg_map s pg = Some (z + 1 + ?a)" using seg_map_at [OF ok, of j] a by (simp add: s)
    then show ?thesis using False by (simp add: some_frame_def)
  qed
  then show "seg_map (iter_segment pgnos z n) pg = map_option (\<lambda>v. z + v) (some_frame ?v)" by (simp add: s_def)
qed

lemma last_hit_lower:
  assumes "lo \<le> m + 1"
  shows "last_hit (in_log fs pg lo) (m + n) =
    (let v = last_hit (in_log fs pg (m + 1)) (m + n) in if v = 0 then last_hit (in_log fs pg lo) m else v)"
proof (induction n)
  case 0
  have "last_hit (in_log fs pg (m + 1)) m = 0"
    using last_hit_hit [of "in_log fs pg (m + 1)" m] last_hit_le [of "in_log fs pg (m + 1)" m] by (auto simp: in_log_def)
  then show ?case by simp
next
  case (Suc n)
  then show ?case using assms by (auto simp: in_log_def Let_def)
qed

lemma last_hit_above: "last_hit (in_log fs pg (m + 1)) n = 0" if "n \<le> m"
  using last_hit_hit [of "in_log fs pg (m + 1)" n] last_hit_le [of "in_log fs pg (m + 1)" n] that by (auto simp: in_log_def)

lemma iter_segment_log:
  assumes ok: "index_ok w fs" and mx: "mxFrame (hdr w) \<le> length fs" and z: "page_zero i < mxFrame (hdr w)"
    and n: "n = min (mxFrame (hdr w) - page_zero i) (page_room i)"
  shows "seg_ok 0 (iter_segment (aPgno (apWiData w ! i)) (page_zero i) n)"
    "seg_map (iter_segment (aPgno (apWiData w ! i)) (page_zero i) n) pg =
       some_frame (last_hit (in_log fs pg (page_zero i + 1)) (page_zero i + n))"
proof -
  have n1: "1 \<le> n" "n \<le> 4096" using z page_room_bounds [of i] by (auto simp: n HASHTABLE_NPAGE_def min_def)
  note S = iter_segment_ok [OF n1, of "aPgno (apWiData w ! i)" "page_zero i"]
  show "seg_ok 0 (iter_segment (aPgno (apWiData w ! i)) (page_zero i) n)" by (rule S(1))
  have "aPgno (apWiData w ! i) ! (v - 1) = fs ! (page_zero i + v - 1)" if "1 \<le> v" "v \<le> n" for v
  proof -
    have "page_zero i < length fs" using z mx by simp
    note page_holds_at [OF index_okD(5) [OF ok this], of "page_zero i + v"]
    moreover have "page_zero i + v \<le> length fs" "v \<le> page_room i" using that n mx z by auto
    ultimately show ?thesis using that by simp
  qed
  then have "last_hit (\<lambda>v. aPgno (apWiData w ! i) ! (v - 1) = pg) n = last_hit (\<lambda>v. in_log fs pg (page_zero i + 1) (page_zero i + v)) n"
    by (intro last_hit_cong) (simp add: in_log_def)
  moreover have "last_hit (in_log fs pg (page_zero i + 1)) (page_zero i) = 0" by (rule last_hit_above) simp
  ultimately show "seg_map (iter_segment (aPgno (apWiData w ! i)) (page_zero i) n) pg =
       some_frame (last_hit (in_log fs pg (page_zero i + 1)) (page_zero i + n))"
    unfolding S(2) last_hit_split by (simp add: some_frame_def Let_def)
qed

lemma iter_segments_ok:
  assumes ix: "index_ok w fs" and mx: "mxFrame (hdr w) \<le> length fs" "0 < mxFrame (hdr w)"
    and last: "nSegment = walFramePage (mxFrame (hdr w)) + 1"
  shows "n \<le> nSegment \<Longrightarrow> \<exists>ss. iter_segments ok nSegment n w = (Inr ss, w) \<and> (\<forall>s \<in> set ss. seg_ok 0 s)
    \<and> (\<forall>pg. segs_map (rev ss) pg = some_frame (last_hit (in_log fs pg (page_zero (nSegment - n) + 1)) (mxFrame (hdr w))))"
proof (induction n)
  case 0
  have "mxFrame (hdr w) \<le> page_zero nSegment"
    using walFramePage_bounds(2) [of "mxFrame (hdr w)"] mx(2) unfolding last by (simp add: page_zero_Suc)
  then show ?case by (simp add: last_hit_above [simplified] some_frame_def)
next
  case (Suc n)
  define i where "i = nSegment - Suc n"
  have i: "nSegment - n = Suc i" "i \<le> walFramePage (mxFrame (hdr w))" using Suc.prems last by (simp_all add: i_def)
  have z: "page_zero i < mxFrame (hdr w)"
    using page_zero_mono [OF i(2)] walFramePage_bounds(1) [of "mxFrame (hdr w)"] mx(2) by simp
  have il: "i < length (apWiData w)" using index_okD(4) [OF ix, of i] z mx by simp
  obtain ss where ss: "iter_segments ok nSegment n w = (Inr ss, w)" "\<forall>s \<in> set ss. seg_ok 0 s"
      "\<And>pg. segs_map (rev ss) pg = some_frame (last_hit (in_log fs pg (page_zero (Suc i) + 1)) (mxFrame (hdr w)))"
    using Suc i(1) by auto
  define k where "k = (if i + 1 = nSegment then mxFrame (hdr w) - page_zero i else length (aPgno (apWiData w ! i)))"
  have len: "length (aPgno (apWiData w ! i)) = page_room i" using index_okD(3) [OF ix il] by (simp add: page_shape_def)
  have k: "k = min (mxFrame (hdr w) - page_zero i) (page_room i)"
  proof (cases "i + 1 = nSegment")
    case True
    then show ?thesis using walFramePage_bounds(2) [of "mxFrame (hdr w)"] mx(2) last by (simp add: k_def)
  next
    case False
    then have "page_zero (Suc i) \<le> page_zero (walFramePage (mxFrame (hdr w)))"
      using i(2) last by (intro page_zero_mono) simp
    then have "page_zero i + page_room i < mxFrame (hdr w)"
      using walFramePage_bounds(1) [of "mxFrame (hdr w)"] mx(2) by (simp add: page_zero_Suc)
    then show ?thesis using False len by (simp add: k_def)
  qed
  define s where "s = iter_segment (aPgno (apWiData w ! i)) (page_zero i) k"
  note S = iter_segment_log [OF ix mx(1) z k, folded s_def]
  have "iter_segments ok nSegment (Suc n) w = (Inr (s # ss), w)"
    using il ss(1) by (simp add: i_def [symmetric] walHashGet_def walIndexPage_def Let_def s_def k_def)
  moreover have "segs_map (rev (s # ss)) pg = some_frame (last_hit (in_log fs pg (page_zero i + 1)) (mxFrame (hdr w)))" for pg
  proof -
    have "segs_map (rev (s # ss)) pg = (case segs_map (rev ss) pg of None \<Rightarrow> seg_map s pg | Some x \<Rightarrow> Some x)"
      by (simp add: segs_map_append map_add_some_frame)
    also have "\<dots> = some_frame (last_hit (in_log fs pg (page_zero i + 1)) (mxFrame (hdr w)))"
    proof (cases "mxFrame (hdr w) \<le> page_zero (Suc i)")
      case True
      then have "page_zero i + k = mxFrame (hdr w)" using k z by (simp add: page_zero_Suc)
      then show ?thesis using ss(3) S(2) [of pg] last_hit_above [OF True, of fs pg] by (simp add: some_frame_def)
    next
      case False
      then obtain d where d: "mxFrame (hdr w) = page_zero (Suc i) + d" by (metis le_iff_add linear)
      have "page_zero i + k = page_zero (Suc i)" using k False by (simp add: page_zero_Suc)
      then show ?thesis using ss(3) S(2) [of pg] last_hit_lower [of "page_zero i + 1" "page_zero (Suc i)" fs pg d] page_zero_Suc [of i]
        unfolding d [symmetric] by (simp add: some_frame_def Let_def split: option.splits)
    qed
    finally show ?thesis .
  qed
  ultimately show ?case using S(1) ss(2) unfolding i_def [symmetric] by simp
qed

lemma walIteratorInit_ok:
  assumes ix: "index_ok w fs" and mx: "mxFrame (hdr w) \<le> length fs" "backfilled < mxFrame (hdr w)"
  shows "\<exists>p. walIteratorInit True ok w backfilled = (Inr p, w) \<and> iPrior p = 0
    \<and> iter_ok p (\<lambda>pg. some_frame (last_hit (in_log fs pg (page_zero (walFramePage (backfilled + 1)) + 1)) (mxFrame (hdr w))))"
proof -
  define nSegment where "nSegment = walFramePage (mxFrame (hdr w)) + 1"
  define first where "first = walFramePage (backfilled + 1)"
  have first: "first < nSegment" using walFramePage_mono [of "backfilled + 1" "mxFrame (hdr w)"] mx(2)
    by (simp add: first_def nSegment_def)
  obtain ss where ss: "iter_segments ok nSegment (nSegment - first) w = (Inr ss, w)" "\<forall>s \<in> set ss. seg_ok 0 s"
      "\<And>pg. segs_map (rev ss) pg = some_frame (last_hit (in_log fs pg (page_zero first + 1)) (mxFrame (hdr w)))"
    using iter_segments_ok [where ok = ok, OF ix mx(1) _ nSegment_def, of "nSegment - first"] mx(2) first by auto
  have empty: "segs_map (replicate n empty_segment) = Map.empty" for n
    by (induction n) (simp_all add: seg_map_def empty_segment_def)
  define p where "p = \<lparr>iPrior = 0, aSegment = replicate first empty_segment @ ss\<rparr>"
  have "walIteratorInit True ok w backfilled = (Inr p, w)"
    using ss(1) first by (simp add: walIteratorInit_def Let_def nSegment_def first_def p_def)
  moreover have "seg_ok 0 empty_segment" by (simp add: seg_ok_def empty_segment_def)
  then have "iter_ok p (\<lambda>pg. some_frame (last_hit (in_log fs pg (page_zero first + 1)) (mxFrame (hdr w))))"
    using ss(2,3) by (auto simp: iter_ok_def p_def segs_map_append empty)
  ultimately show ?thesis by (simp add: p_def first_def)
qed

end
