(* ===== verification/WalCheckpoint.thy ===== *)
theory WalCheckpoint
  imports WalIter
begin

text \<open>
  The checkpoint (\<open>walCheckpoint\<close> of \<open>wal.c\<close>): frames that no reader needs the old content for are copied from
  the log to the database.  The answers of locks, of the allocator and of the files are a parameter; each may fail.
\<close>

section \<open>Files\<close>

text \<open>The database is a list of pages, the log the list of the contents of its frames.\<close>

definition db_page :: "bytes \<Rightarrow> bytes list \<Rightarrow> nat \<Rightarrow> bytes" where
  "db_page zero db pg = (if pg - 1 < length db then db ! (pg - 1) else zero)"

definition db_write :: "bytes \<Rightarrow> bytes list \<Rightarrow> nat \<Rightarrow> bytes \<Rightarrow> bytes list" where
  "db_write zero db pg x = (db @ replicate (pg - length db) zero)[pg - 1 := x]"

definition db_truncate :: "bytes \<Rightarrow> nat \<Rightarrow> bytes list \<Rightarrow> bytes list" where
  "db_truncate zero n db = take n db @ replicate (n - length db) zero"

text \<open>What a reader sees of a page: its frame of the log, or the database.\<close>

definition page_view :: "bytes \<Rightarrow> bytes list \<Rightarrow> bytes list \<Rightarrow> wal \<Rightarrow> nat \<Rightarrow> bytes" where
  "page_view zero db log r pg =
    (case walFindFrame (\<lambda>_. SQLITE_OK) r pg of (rc, f) \<Rightarrow> if f = 0 then db_page zero db pg else log ! (f - 1))"

section \<open>The checkpoint\<close>

datatype ckpt_mode = CHECKPOINT_PASSIVE | CHECKPOINT_FULL | CHECKPOINT_RESTART | CHECKPOINT_TRUNCATE

text \<open>The answers of the environment; a failing write leaves something in the page.\<close>

record ckpt_env =
  ck_lock :: "nat \<Rightarrow> rc"
  ck_restart_lock :: rc
  ck_mem :: bool
  ck_map :: "nat \<Rightarrow> rc"
  ck_sync_wal :: rc
  ck_size :: rc
  ck_interrupt :: "nat \<Rightarrow> bool"
  ck_malloc_failed :: bool
  ck_read :: "nat \<Rightarrow> rc"
  ck_write :: "nat \<Rightarrow> rc \<times> bytes"
  ck_truncate :: rc
  ck_sync_db :: rc
  ck_truncate_wal :: rc
  ck_salt1 :: bytes

definition WAL_NREADER :: nat where "WAL_NREADER = 5"

definition walPagesize :: "wal \<Rightarrow> nat" where
  "walPagesize w = (hdr_szPage (hdr w) div 512 * 512) mod 2 ^ 16 + (hdr_szPage (hdr w) mod 2) * 2 ^ 16"

text \<open>The last frame that may be copied: behind the mark of each reader whose lock is held.\<close>

primrec safe_frame :: "ckpt_env \<Rightarrow> nat list \<Rightarrow> nat \<Rightarrow> wal_ckpt \<Rightarrow> (rc + nat) \<times> wal_ckpt" where
  "safe_frame e [] mxSafe info = (Inr mxSafe, info)"
| "safe_frame e (i # is) mxSafe info =
    (let y = aReadMark info ! i
     in if mxSafe > y then
          (case ck_lock e i of
             SQLITE_OK \<Rightarrow> safe_frame e is mxSafe
               (info\<lparr>aReadMark := (aReadMark info)[i := if i = 1 then mxSafe else READMARK_NOT_USED]\<rparr>)
           | SQLITE_BUSY \<Rightarrow> safe_frame e is y info
           | rc \<Rightarrow> (Inl rc, info))
        else safe_frame e is mxSafe info)"

text \<open>The copying loop; \<open>None\<close> is a loop that has not ended after the given number of rounds.\<close>

primrec backfill :: "ckpt_env \<Rightarrow> bytes \<Rightarrow> bytes list \<Rightarrow> nat \<Rightarrow> nat \<Rightarrow> nat \<Rightarrow> nat \<Rightarrow> wal_iterator \<Rightarrow> nat \<Rightarrow> bytes list \<Rightarrow> (rc \<times> bytes list) option" where
  "backfill e zero log filled mxSafe mxPage 0 it iFrame db = None"
| "backfill e zero log filled mxSafe mxPage (Suc n) it iFrame db =
    (case walIteratorNext it iFrame of
       (done, iDbpage, iFrame, it) \<Rightarrow>
         if done then Some (SQLITE_OK, db)
         else if ck_interrupt e iDbpage then Some (if ck_malloc_failed e then SQLITE_NOMEM else SQLITE_INTERRUPT, db)
         else if iFrame \<le> filled \<or> iFrame > mxSafe \<or> iDbpage > mxPage
         then backfill e zero log filled mxSafe mxPage n it iFrame db
         else if ck_read e iFrame \<noteq> SQLITE_OK then Some (ck_read e iFrame, db)
         else if fst (ck_write e iDbpage) \<noteq> SQLITE_OK
         then Some (fst (ck_write e iDbpage), db_write zero db iDbpage (snd (ck_write e iDbpage)))
         else backfill e zero log filled mxSafe mxPage n it iFrame (db_write zero db iDbpage (log ! (iFrame - 1))))"

text \<open>The work under the lock of slot 0.\<close>

definition ckpt_sizes :: "ckpt_env \<Rightarrow> wal \<Rightarrow> bytes list \<Rightarrow> rc" where
  "ckpt_sizes e w db =
    (let szPage = walPagesize w; nReq = nPage (hdr w) * szPage; nSize = length db * szPage
     in if ck_sync_wal e \<noteq> SQLITE_OK then ck_sync_wal e
        else if ck_size e \<noteq> SQLITE_OK then ck_size e
        else if nSize < nReq \<and> nSize + 65536 + mxFrame (hdr w) * szPage < nReq then SQLITE_CORRUPT
        else SQLITE_OK)"

definition ckpt_finish :: "ckpt_env \<Rightarrow> bytes \<Rightarrow> nat \<Rightarrow> wal \<Rightarrow> bytes list \<Rightarrow> rc \<times> wal \<times> bytes list" where
  "ckpt_finish e zero mxSafe w db =
    (let (rc, db) =
       (if mxSafe = mxFrame (shm_hdr w)
        then if ck_truncate e \<noteq> SQLITE_OK then (ck_truncate e, db)
             else (ck_sync_db e, db_truncate zero (nPage (hdr w)) db)
        else (SQLITE_OK, db))
     in (rc, if rc = SQLITE_OK then w\<lparr>pInfo := (pInfo w)\<lparr>nBackfill := mxSafe\<rparr>\<rparr> else w, db))"

definition ckpt_copy :: "ckpt_env \<Rightarrow> bytes \<Rightarrow> bytes list \<Rightarrow> nat \<Rightarrow> wal \<Rightarrow> wal_iterator \<Rightarrow> bytes list \<Rightarrow> rc \<times> wal \<times> bytes list" where
  "ckpt_copy e zero log mxSafe w it db =
    (let filled = nBackfill (pInfo w)
     in if aSalt (shm_hdr w) \<noteq> aSalt (hdr w) then (SQLITE_OK, w, db)
        else (let w = w\<lparr>pInfo := (pInfo w)\<lparr>nBackfillAttempted := mxSafe\<rparr>\<rparr>; rc = ckpt_sizes e w db
              in if rc \<noteq> SQLITE_OK then (rc, w, db)
                 else (case backfill e zero log filled mxSafe (nPage (hdr w)) (mxFrame (hdr w) + 1) it 0 db of
                         None \<Rightarrow> (SQLITE_INTERNAL, w, db)
                       | Some (rc, db) \<Rightarrow> if rc = SQLITE_OK then ckpt_finish e zero mxSafe w db else (rc, w, db))))"

definition ckpt_work :: "ckpt_env \<Rightarrow> bytes \<Rightarrow> bytes list \<Rightarrow> wal \<Rightarrow> bytes list \<Rightarrow> rc \<times> wal \<times> bytes list" where
  "ckpt_work e zero log w db =
    (if nBackfill (pInfo w) < mxFrame (hdr w) then
       (case safe_frame e [1..<WAL_NREADER] (mxFrame (hdr w)) (pInfo w) of
          (Inl rc, info) \<Rightarrow> (rc, w\<lparr>pInfo := info\<rparr>, db)
        | (Inr mxSafe, info) \<Rightarrow>
            let w = w\<lparr>pInfo := info\<rparr>
            in if nBackfill info < mxSafe then
                 (case walIteratorInit (ck_mem e) (ck_map e) w (nBackfill info) of
                    (Inl rc, w) \<Rightarrow> (rc, w, db)
                  | (Inr it, w) \<Rightarrow>
                      if ck_lock e 0 = SQLITE_OK then ckpt_copy e zero log mxSafe w it db else (ck_lock e 0, w, db))
               else (SQLITE_OK, w, db))
     else (SQLITE_OK, w, db))"

text \<open>The modes other than passive: all must be copied, and the log is made to start over.\<close>

definition ckpt_restart :: "ckpt_env \<Rightarrow> ckpt_mode \<Rightarrow> wal \<Rightarrow> bytes list \<Rightarrow> rc \<times> wal \<times> bytes list" where
  "ckpt_restart e eMode w log =
    (if eMode = CHECKPOINT_PASSIVE then (SQLITE_OK, w, log)
     else if nBackfill (pInfo w) < mxFrame (hdr w) then (SQLITE_BUSY, w, log)
     else if eMode = CHECKPOINT_FULL then (SQLITE_OK, w, log)
     else if ck_restart_lock e \<noteq> SQLITE_OK then (ck_restart_lock e, w, log)
     else if eMode = CHECKPOINT_RESTART then (SQLITE_OK, w, log)
     else (ck_truncate_wal e, walRestartHdr w (ck_salt1 e), if ck_truncate_wal e = SQLITE_OK then [] else log))"

definition walCheckpoint :: "ckpt_env \<Rightarrow> bytes \<Rightarrow> ckpt_mode \<Rightarrow> wal \<Rightarrow> bytes list \<Rightarrow> bytes list \<Rightarrow> rc \<times> wal \<times> bytes list \<times> bytes list" where
  "walCheckpoint e zero eMode w db log =
    (case ckpt_work e zero log w db of
       (rc, w, db) \<Rightarrow>
         if rc = SQLITE_OK \<or> rc = SQLITE_BUSY
         then (case ckpt_restart e eMode w log of (rc, w, log) \<Rightarrow> (rc, w, db, log))
         else (rc, w, db, log))"


section \<open>What a checkpoint changes\<close>

lemma db_page_write:
  "1 \<le> pg \<Longrightarrow> 1 \<le> q \<Longrightarrow> db_page zero (db_write zero db pg x) q = (if q = pg then x else db_page zero db q)"
  by (auto simp: db_page_def db_write_def nth_append nth_list_update)

lemma db_page_truncate:
  "1 \<le> q \<Longrightarrow> db_page zero (db_truncate zero n db) q = (if q \<le> n then db_page zero db q else zero)"
  by (auto simp: db_page_def db_truncate_def nth_append)

lemma safe_frame_ok:
  "distinct is \<Longrightarrow> safe_frame e is m info = (Inr s, info') \<Longrightarrow>
   s \<le> m \<and> nBackfill info' = nBackfill info \<and> (\<forall>i \<in> set is. ck_lock e i = SQLITE_BUSY \<longrightarrow> s \<le> aReadMark info ! i)"
proof (induction "is" arbitrary: m info)
  case Nil
  then show ?case by simp
next
  case (Cons i ks)
  show ?case
  proof (cases "m > aReadMark info ! i")
    case False
    then have "safe_frame e ks m info = (Inr s, info')" using Cons.prems(2) by simp
    then show ?thesis using Cons.IH [of m info] Cons.prems(1) False by auto
  next
    case True
    consider (ok) "ck_lock e i = SQLITE_OK" | (busy) "ck_lock e i = SQLITE_BUSY"
      using Cons.prems(2) True by (cases "ck_lock e i") simp_all
    then show ?thesis
    proof cases
      case ok
      define inf where "inf = info\<lparr>aReadMark := (aReadMark info)[i := if i = 1 then m else READMARK_NOT_USED]\<rparr>"
      have "safe_frame e ks m inf = (Inr s, info')" using Cons.prems(2) True ok by (simp add: inf_def)
      note IH = Cons.IH [OF _ this]
      have "aReadMark inf ! j = aReadMark info ! j" if "j \<in> set ks" for j
        using that Cons.prems(1) by (cases "j = i") (auto simp: inf_def)
      then show ?thesis using IH Cons.prems(1) ok by (auto simp: inf_def)
    next
      case busy
      have "safe_frame e ks (aReadMark info ! i) info = (Inr s, info')" using Cons.prems(2) True busy by simp
      from Cons.IH [OF _ this] show ?thesis using Cons.prems(1) True by auto
    qed
  qed
qed

text \<open>The loop ends, changes only pages of frames in the range, and leaves each of those with its newest frame.\<close>

definition copied :: "nat \<Rightarrow> nat \<Rightarrow> nat \<Rightarrow> (nat \<rightharpoonup> nat) \<Rightarrow> nat \<Rightarrow> nat \<Rightarrow> bool" where
  "copied filled mxSafe mxPage M pg f = (M pg = Some f \<and> filled < f \<and> f \<le> mxSafe \<and> pg \<le> mxPage)"

lemma backfill_ok:
  assumes pgs: "\<forall>pg \<in> dom M. pg < 0xFFFFFFFF" and fin: "finite (dom M)"
  shows "iter_ok it M \<Longrightarrow> iPrior it \<le> 0xFFFFFFFF \<Longrightarrow> card {g \<in> dom M. iPrior it < g} < n \<Longrightarrow>
    \<exists>rc db'. backfill e zero log filled mxSafe mxPage n it f0 db = Some (rc, db')
      \<and> (\<forall>p. 1 \<le> p \<longrightarrow> db_page zero db' p \<noteq> db_page zero db p \<longrightarrow> iPrior it < p \<and> (\<exists>f. copied filled mxSafe mxPage M p f))
      \<and> (rc = SQLITE_OK \<longrightarrow> (\<forall>p f. iPrior it < p \<longrightarrow> copied filled mxSafe mxPage M p f \<longrightarrow> db_page zero db' p = log ! (f - 1)))"
proof (induction n arbitrary: it f0 db)
  case 0
  then show ?case by simp
next
  case (Suc n)
  obtain dn pg f it' where step: "walIteratorNext it f0 = (dn, pg, f, it')" by (metis surj_pair)
  note N = walIteratorNext_ok [OF Suc.prems(1) pgs Suc.prems(2) step]
  show ?case
  proof (cases dn)
    case True
    then have "\<not> (iPrior it < p \<and> copied filled mxSafe mxPage M p f)" for p f using N by (auto simp: copied_def)
    then show ?thesis using True step by auto
  next
    case False
    then have N': "iter_ok it' M" "iPrior it' = pg" "pg \<le> 0xFFFFFFFF" "iPrior it < pg" "M pg = Some f"
        "\<And>g. g \<in> dom M \<Longrightarrow> iPrior it < g \<Longrightarrow> pg \<le> g" using N by auto
    have pg1: "1 \<le> pg" using N'(4) by simp
    have "{g \<in> dom M. iPrior it' < g} \<subset> {g \<in> dom M. iPrior it < g}" using N' by auto
    then have "card {g \<in> dom M. iPrior it' < g} < card {g \<in> dom M. iPrior it < g}"
      using fin by (intro psubset_card_mono) simp_all
    then have card: "card {g \<in> dom M. iPrior it' < g} < n" using Suc.prems(3) by simp
    have rec: "\<exists>rc db''. backfill e zero log filled mxSafe mxPage n it' f db' = Some (rc, db'')
        \<and> (\<forall>p. 1 \<le> p \<longrightarrow> db_page zero db'' p \<noteq> db_page zero db' p \<longrightarrow> pg < p \<and> (\<exists>f. copied filled mxSafe mxPage M p f))
        \<and> (rc = SQLITE_OK \<longrightarrow> (\<forall>p f. pg < p \<longrightarrow> copied filled mxSafe mxPage M p f \<longrightarrow> db_page zero db'' p = log ! (f - 1)))" for db'
      using Suc.IH [OF N'(1) _ card, of f db'] N'(2,3) by simp
    have split: "pg = p \<or> pg < p" if "iPrior it < p" "copied filled mxSafe mxPage M p f1" for p f1
      using N'(6) [OF domI that(1), of f1] that(2) by (auto simp: copied_def)
    show ?thesis
    proof (cases "copied filled mxSafe mxPage M pg f")
      case skip: False
      obtain rc db'' where R: "backfill e zero log filled mxSafe mxPage n it' f db = Some (rc, db'')"
        "\<And>p. 1 \<le> p \<Longrightarrow> db_page zero db'' p \<noteq> db_page zero db p \<Longrightarrow> pg < p \<and> (\<exists>f. copied filled mxSafe mxPage M p f)"
        "\<And>p f. rc = SQLITE_OK \<Longrightarrow> pg < p \<Longrightarrow> copied filled mxSafe mxPage M p f \<Longrightarrow> db_page zero db'' p = log ! (f - 1)"
        using rec [of db] by blast
      have nf: "f \<le> filled \<or> mxSafe < f \<or> mxPage < pg" using skip N'(5) by (auto simp: copied_def)
      show ?thesis
      proof (cases "ck_interrupt e pg")
        case True
        then show ?thesis using False step by auto
      next
        case go: False
        have "backfill e zero log filled mxSafe mxPage (Suc n) it f0 db = Some (rc, db'')"
          using False step go nf R(1) by auto
        moreover have "db_page zero db'' p = log ! (f1 - 1)" if "rc = SQLITE_OK" "iPrior it < p" "copied filled mxSafe mxPage M p f1" for p f1
          using split [OF that(2,3)] R(3) [OF that(1) _ that(3)] skip that(3) N'(5) by (auto simp: copied_def)
        moreover have "iPrior it < p \<and> (\<exists>f. copied filled mxSafe mxPage M p f)" if "1 \<le> p" "db_page zero db'' p \<noteq> db_page zero db p" for p
          using R(2) [OF that] N'(4) by auto
        ultimately show ?thesis by blast
      qed
    next
      case copy: True
      then have nf: "\<not> (f \<le> filled \<or> mxSafe < f \<or> mxPage < pg)" by (auto simp: copied_def)
      define x where "x = (if fst (ck_write e pg) = SQLITE_OK then log ! (f - 1) else snd (ck_write e pg))"
      define db1 where "db1 = db_write zero db pg x"
      have db1: "db_page zero db1 p = (if p = pg then x else db_page zero db p)" if "1 \<le> p" for p
        unfolding db1_def using that pg1 by (rule db_page_write [rotated])
      obtain rc db'' where R: "backfill e zero log filled mxSafe mxPage n it' f db1 = Some (rc, db'')"
        "\<And>p. 1 \<le> p \<Longrightarrow> db_page zero db'' p \<noteq> db_page zero db1 p \<Longrightarrow> pg < p \<and> (\<exists>f. copied filled mxSafe mxPage M p f)"
        "\<And>p f. rc = SQLITE_OK \<Longrightarrow> pg < p \<Longrightarrow> copied filled mxSafe mxPage M p f \<Longrightarrow> db_page zero db'' p = log ! (f - 1)"
        using rec [of db1] by blast
      have bad: "db_write zero db pg (snd (ck_write e pg)) = db1" if "fst (ck_write e pg) \<noteq> SQLITE_OK"
        using that by (simp add: db1_def x_def)
      have good: "db_write zero db pg (log ! (f - 1)) = db1" if "fst (ck_write e pg) = SQLITE_OK"
        using that by (simp add: db1_def x_def)
      have e: "backfill e zero log filled mxSafe mxPage (Suc n) it f0 db =
          (if ck_interrupt e pg then Some (if ck_malloc_failed e then SQLITE_NOMEM else SQLITE_INTERRUPT, db)
           else if ck_read e f \<noteq> SQLITE_OK then Some (ck_read e f, db)
           else if fst (ck_write e pg) \<noteq> SQLITE_OK then Some (fst (ck_write e pg), db1)
           else Some (rc, db''))"
        using False nf bad good R(1) by (simp add: step del: not_less not_le)
      consider (fail) rc1 where "rc1 \<noteq> SQLITE_OK" "backfill e zero log filled mxSafe mxPage (Suc n) it f0 db = Some (rc1, db)"
        | (badwrite) rc1 where "rc1 \<noteq> SQLITE_OK" "backfill e zero log filled mxSafe mxPage (Suc n) it f0 db = Some (rc1, db1)"
        | (wrote) "fst (ck_write e pg) = SQLITE_OK" "backfill e zero log filled mxSafe mxPage (Suc n) it f0 db = Some (rc, db'')"
      proof (cases "ck_interrupt e pg \<or> ck_read e f \<noteq> SQLITE_OK")
        case True
        then show ?thesis using e fail by (cases "ck_interrupt e pg"; cases "ck_malloc_failed e") auto
      next
        case F: False
        then show ?thesis using e badwrite wrote by (cases "fst (ck_write e pg) = SQLITE_OK") auto
      qed
      then show ?thesis
      proof cases
        case fail
        then show ?thesis by auto
      next
        case badwrite
        have "iPrior it < p \<and> (\<exists>f. copied filled mxSafe mxPage M p f)" if "1 \<le> p" "db_page zero db1 p \<noteq> db_page zero db p" for p
          using that db1 [OF that(1)] copy N'(4) by (auto split: if_splits)
        then show ?thesis using badwrite by auto
      next
        case wrote
        have x: "x = log ! (f - 1)" using wrote(1) by (simp add: x_def)
        have "iPrior it < p \<and> (\<exists>f. copied filled mxSafe mxPage M p f)" if "1 \<le> p" "db_page zero db'' p \<noteq> db_page zero db p" for p
        proof (cases "db_page zero db'' p = db_page zero db1 p")
          case True
          then show ?thesis using that db1 [OF that(1)] copy N'(4) by (auto split: if_splits)
        next
          case F: False
          then show ?thesis using R(2) [OF that(1) F] N'(4) by auto
        qed
        moreover have "db_page zero db'' p = log ! (f1 - 1)" if "rc = SQLITE_OK" "iPrior it < p" "copied filled mxSafe mxPage M p f1" for p f1
        proof (cases "pg < p")
          case True
          then show ?thesis using R(3) that by blast
        next
          case F: False
          then have p: "p = pg" using split [OF that(2,3)] by simp
          then have "f1 = f" using that(3) N'(5) by (simp add: copied_def)
          moreover have "db_page zero db'' pg = db_page zero db1 pg" using R(2) [OF pg1] by auto
          ultimately show ?thesis using db1 [OF pg1] x p by simp
        qed
        ultimately show ?thesis using wrote(2) by blast
      qed
    qed
  qed
qed


declare backfill.simps [simp del]

text \<open>The newest frame of a page among those not yet copied.\<close>

definition uncopied :: "nat list \<Rightarrow> nat \<Rightarrow> nat \<Rightarrow> nat \<Rightarrow> nat" where
  "uncopied fs filled mx pg = last_hit (in_log fs pg (filled + 1)) mx"

lemma uncopied_range: "uncopied fs b m pg \<noteq> 0 \<Longrightarrow> b < uncopied fs b m pg \<and> uncopied fs b m pg \<le> m \<and> fs ! (uncopied fs b m pg - 1) = pg"
  using last_hit_hit [of "in_log fs pg (b + 1)" m] last_hit_le [of "in_log fs pg (b + 1)" m] by (auto simp: uncopied_def in_log_def)

lemma uncopied_none: "uncopied fs b m pg = 0 \<Longrightarrow> b < i \<Longrightarrow> i \<le> m \<Longrightarrow> fs ! (i - 1) \<noteq> pg"
  using last_hit_newest [of "in_log fs pg (b + 1)" i m] by (auto simp: uncopied_def in_log_def)

definition iter_map :: "nat list \<Rightarrow> nat \<Rightarrow> nat \<Rightarrow> nat \<rightharpoonup> nat" where
  "iter_map fs filled mx = (\<lambda>pg. some_frame (last_hit (in_log fs pg (page_zero (walFramePage (filled + 1)) + 1)) mx))"

lemma iter_map_dom:
  assumes "m \<le> length fs"
  shows "dom (iter_map fs b m) \<subseteq> (\<lambda>f. fs ! (f - 1)) ` {1..m}" "dom (iter_map fs b m) \<subseteq> set fs"
proof -
  have "pg \<in> (\<lambda>f. fs ! (f - 1)) ` {1..m}" if "pg \<in> dom (iter_map fs b m)" for pg
  proof -
    let ?f = "last_hit (in_log fs pg (page_zero (walFramePage (b + 1)) + 1)) m"
    have "?f \<noteq> 0" using that by (auto simp: iter_map_def some_frame_def split: if_splits)
    then have "pg = fs ! (?f - 1)" "?f \<in> {1..m}"
      using last_hit_hit [OF \<open>?f \<noteq> 0\<close>] last_hit_le by (auto simp: in_log_def Suc_le_eq)
    then show ?thesis by blast
  qed
  then show "dom (iter_map fs b m) \<subseteq> (\<lambda>f. fs ! (f - 1)) ` {1..m}" by blast
  then show "dom (iter_map fs b m) \<subseteq> set fs" using assms by fastforce
qed

lemma iter_map_card:
  assumes "m \<le> length fs"
  shows "finite (dom (iter_map fs b m))" "card (dom (iter_map fs b m)) \<le> m"
proof -
  show "finite (dom (iter_map fs b m))" using iter_map_dom(2) [OF assms] finite_subset by blast
  have "card (dom (iter_map fs b m)) \<le> card ((\<lambda>f. fs ! (f - 1)) ` {1..m})"
    by (rule card_mono) (use iter_map_dom(1) [OF assms] in simp_all)
  also have "\<dots> \<le> card {1..m}" by (rule card_image_le) simp
  finally show "card (dom (iter_map fs b m)) \<le> m" by simp
qed

text \<open>The iterator starts with the table of the first frame to copy; earlier frames of it are left out by the loop.\<close>

lemma copied_uncopied:
  assumes "b < m"
  shows "copied b s mxPage (iter_map fs b m) p f \<longleftrightarrow> f = uncopied fs b m p \<and> f \<noteq> 0 \<and> f \<le> s \<and> p \<le> mxPage"
proof -
  let ?lo = "page_zero (walFramePage (b + 1)) + 1"
  let ?g = "last_hit (in_log fs p ?lo) m"
  obtain d where d: "m = b + d" using assms le_Suc_ex less_imp_le by blast
  have "?lo \<le> b + 1" using walFramePage_bounds(1) [of "b + 1"] by simp
  from last_hit_lower [OF this, of fs p d]
  have g: "?g = (if uncopied fs b m p = 0 then last_hit (in_log fs p ?lo) b else uncopied fs b m p)"
    unfolding uncopied_def d Let_def by simp
  have "last_hit (in_log fs p ?lo) b \<le> b" by (rule last_hit_le)
  then show ?thesis using g uncopied_range [of fs b m p]
    by (auto simp: copied_def iter_map_def some_frame_def split: if_splits)
qed

definition ckpt_effect :: "nat list \<Rightarrow> bytes \<Rightarrow> bytes list \<Rightarrow> nat \<Rightarrow> wal \<Rightarrow> bytes list \<Rightarrow> wal \<Rightarrow> bytes list \<Rightarrow> bool" where
  "ckpt_effect fs zero log s w db w' db' =
    (let b = nBackfill (pInfo w); m = mxFrame (hdr w)
     in w' = w\<lparr>pInfo := pInfo w'\<rparr>
      \<and> (\<forall>p \<ge> 1. db_page zero db' p \<noteq> db_page zero db p \<longrightarrow>
            uncopied fs b m p \<noteq> 0 \<and> uncopied fs b m p \<le> s \<and> p \<le> nPage (hdr w) \<or> s = m \<and> nPage (hdr w) < p)
      \<and> (nBackfill (pInfo w') = b
         \<or> nBackfill (pInfo w') = s \<and> b < s
           \<and> (\<forall>p. 1 \<le> p \<longrightarrow> p \<le> nPage (hdr w) \<longrightarrow> uncopied fs b m p \<noteq> 0 \<longrightarrow> uncopied fs b m p \<le> s \<longrightarrow>
                 db_page zero db' p = log ! (uncopied fs b m p - 1))))"

lemma ckpt_copy_ok:
  assumes ok: "index_ok w fs" and shm: "hdr w = shm_hdr w" and pgs: "\<forall>g \<in> set fs. g < 0xFFFFFFFF"
    and b: "nBackfill (pInfo w) < s" "s \<le> mxFrame (hdr w)"
    and it: "iter_ok it (iter_map fs (nBackfill (pInfo w)) (mxFrame (hdr w)))" "iPrior it = 0"
    and copy: "ckpt_copy e zero log s w it db = (rc, w', db')"
  shows "ckpt_effect fs zero log s w db w' db'"
proof -
  let ?b = "nBackfill (pInfo w)" and ?m = "mxFrame (hdr w)"
  have mx: "?m \<le> length fs" by (rule index_okD(1) [OF ok])
  have bm: "?b < ?m" using b by simp
  define w1 where "w1 = w\<lparr>pInfo := (pInfo w)\<lparr>nBackfillAttempted := s\<rparr>\<rparr>"
  have w1: "hdr w1 = hdr w" by (simp add: w1_def)
  have quiet: "ckpt_effect fs zero log s w db (w\<lparr>pInfo := info\<rparr>) db" if "nBackfill info = ?b" for info
    using that by (simp add: ckpt_effect_def Let_def)
  have "\<forall>pg \<in> dom (iter_map fs ?b ?m). pg < 0xFFFFFFFF" using pgs iter_map_dom(2) [OF mx] by blast
  moreover have "card {g \<in> dom (iter_map fs ?b ?m). iPrior it < g} < ?m + 1"
    using iter_map_card [OF mx, of ?b] card_mono [OF iter_map_card(1) [OF mx, of ?b], of "{g \<in> dom (iter_map fs ?b ?m). iPrior it < g}"]
    by fastforce
  ultimately obtain rc1 db1 where R: "backfill e zero log ?b s (nPage (hdr w)) (?m + 1) it 0 db = Some (rc1, db1)"
    "\<forall>p. 1 \<le> p \<longrightarrow> db_page zero db1 p \<noteq> db_page zero db p \<longrightarrow>
       iPrior it < p \<and> (\<exists>f. copied ?b s (nPage (hdr w)) (iter_map fs ?b ?m) p f)"
    "rc1 = SQLITE_OK \<longrightarrow> (\<forall>p f. iPrior it < p \<longrightarrow> copied ?b s (nPage (hdr w)) (iter_map fs ?b ?m) p f \<longrightarrow> db_page zero db1 p = log ! (f - 1))"
    using backfill_ok [OF _ iter_map_card(1) [OF mx] it(1), of "?m + 1" e zero log ?b s "nPage (hdr w)" 0 db] it(2) by auto
  note B = R(1) R(2) [unfolded copied_uncopied [OF bm], rule_format] R(3) [unfolded copied_uncopied [OF bm] it(2), rule_format]
  show ?thesis
  proof (cases "aSalt (shm_hdr w) \<noteq> aSalt (hdr w) \<or> ckpt_sizes e w1 db \<noteq> SQLITE_OK")
    case True
    then show ?thesis using copy quiet [of "pInfo w"] quiet [of "(pInfo w)\<lparr>nBackfillAttempted := s\<rparr>"]
      by (auto simp: ckpt_copy_def Let_def w1_def [symmetric] split: if_splits)
  next
    case False
    then have c: "(rc, w', db') = (if rc1 = SQLITE_OK then ckpt_finish e zero s w1 db1 else (rc1, w1, db1))"
      using copy B(1) w1 False by (simp add: ckpt_copy_def Let_def w1_def [symmetric])
    show ?thesis
    proof (cases "rc1 = SQLITE_OK")
      case False
      then show ?thesis using c B(2) by (auto simp: ckpt_effect_def Let_def w1_def)
    next
      case True
      define db2 where "db2 = (if s = ?m \<and> ck_truncate e = SQLITE_OK then db_truncate zero (nPage (hdr w)) db1 else db1)"
      have db2: "db_page zero db2 p = db_page zero db1 p" if "1 \<le> p" "p \<le> nPage (hdr w) \<or> s \<noteq> ?m" for p
        using that by (auto simp: db2_def db_page_truncate)
      have f: "db' = db2" "w' = w1 \<or> w' = w1\<lparr>pInfo := (pInfo w1)\<lparr>nBackfill := s\<rparr>\<rparr>"
        using c True shm by (auto simp: ckpt_finish_def Let_def db2_def w1_def split: if_splits)
      have "uncopied fs ?b ?m p \<noteq> 0 \<and> uncopied fs ?b ?m p \<le> s \<and> p \<le> nPage (hdr w) \<or> s = ?m \<and> nPage (hdr w) < p"
        if "1 \<le> p" "db_page zero db' p \<noteq> db_page zero db p" for p
        using that B(2) [of p] db2 [OF that(1)] unfolding f(1) by (cases "p \<le> nPage (hdr w) \<or> s \<noteq> ?m") auto
      moreover have "db_page zero db' p = log ! (uncopied fs ?b ?m p - 1)"
        if "1 \<le> p" "p \<le> nPage (hdr w)" "uncopied fs ?b ?m p \<noteq> 0" "uncopied fs ?b ?m p \<le> s" for p
        using B(3) [OF True, of p "uncopied fs ?b ?m p"] db2 [OF that(1)] that unfolding f(1) by simp
      ultimately show ?thesis using f(2) b(1) unfolding ckpt_effect_def Let_def w1_def by auto
    qed
  qed
qed


lemma safe_frame_filled: "safe_frame e is m info = (r, info') \<Longrightarrow> nBackfill info' = nBackfill info"
  by (induction "is" arbitrary: m info) (auto simp: Let_def split: if_splits rc.splits)

text \<open>The effect of the copying part, up to a frame \<open>s\<close> behind no reader.\<close>

definition behind_readers :: "ckpt_env \<Rightarrow> wal \<Rightarrow> nat \<Rightarrow> bool" where
  "behind_readers e w s = (\<forall>i \<in> {1..<WAL_NREADER}. ck_lock e i = SQLITE_BUSY \<longrightarrow> s \<le> aReadMark (pInfo w) ! i)"

lemma ckpt_effect_quiet: "ckpt_effect fs zero log s w db (w\<lparr>pInfo := info\<rparr>) db" if "nBackfill info = nBackfill (pInfo w)"
  using that by (simp add: ckpt_effect_def Let_def)

lemma ckpt_effect_marks:
  "ckpt_effect fs zero log s (w\<lparr>pInfo := info\<rparr>) db w' db' \<Longrightarrow> nBackfill info = nBackfill (pInfo w) \<Longrightarrow> ckpt_effect fs zero log s w db w' db'"
  by (simp add: ckpt_effect_def Let_def)

lemma ckpt_work_ok:
  assumes ok: "index_ok w fs" and shm: "hdr w = shm_hdr w" and pgs: "\<forall>g \<in> set fs. g < 0xFFFFFFFF"
    and work: "ckpt_work e zero log w db = (rc, w', db')"
  shows "\<exists>s. s \<le> mxFrame (hdr w) \<and> ckpt_effect fs zero log s w db w' db' \<and> behind_readers e w s"
proof -
  let ?b = "nBackfill (pInfo w)" and ?m = "mxFrame (hdr w)"
  have mx: "?m \<le> length fs" by (rule index_okD(1) [OF ok])
  have quiet: ?thesis if "w' = w\<lparr>pInfo := info\<rparr>" "db' = db" "nBackfill info = ?b" for info
    using that ckpt_effect_quiet [of info w fs zero log 0 db] by (intro exI [of _ 0]) (simp add: behind_readers_def)
  obtain r info where sf: "safe_frame e [1..<WAL_NREADER] ?m (pInfo w) = (r, info)" by (metis surj_pair)
  have fill: "nBackfill info = ?b" by (rule safe_frame_filled [OF sf])
  define w1 where "w1 = w\<lparr>pInfo := info\<rparr>"
  have w1: "hdr w1 = hdr w" "shm_hdr w1 = shm_hdr w" "pInfo w1 = info" "apWiData w1 = apWiData w" by (simp_all add: w1_def)
  show ?thesis
  proof (cases "?b < ?m \<and> (\<exists>s. r = Inr s \<and> ?b < s)")
    case False
    then show ?thesis using work sf fill quiet [of "pInfo w"] quiet [of info]
      by (auto simp: ckpt_work_def Let_def split: if_splits sum.splits)
  next
    case True
    then obtain s where s: "r = Inr s" "?b < s" and bm: "?b < ?m" by blast
    have S: "s \<le> ?m" "behind_readers e w s"
      using safe_frame_ok [of "[1..<WAL_NREADER]" e ?m "pInfo w" s info] sf s(1) by (auto simp: behind_readers_def)
    have ok1: "index_ok w1 fs" using ok by (simp add: index_ok_def w1)
    obtain it where it: "walIteratorInit True (ck_map e) w1 ?b = (Inr it, w1)" "iPrior it = 0" "iter_ok it (iter_map fs ?b ?m)"
      using walIteratorInit_ok [OF ok1, of ?b "ck_map e"] mx bm by (auto simp: w1 iter_map_def)
    have eq: "ckpt_work e zero log w db = (case walIteratorInit (ck_mem e) (ck_map e) w1 ?b of
        (Inl rc, w) \<Rightarrow> (rc, w, db)
      | (Inr it, w) \<Rightarrow> if ck_lock e 0 = SQLITE_OK then ckpt_copy e zero log s w it db else (ck_lock e 0, w, db))"
      using sf s bm fill by (simp add: ckpt_work_def Let_def w1_def)
    have nomem: "walIteratorInit False (ck_map e) w1 ?b = (Inl SQLITE_NOMEM, w1)" by (simp add: walIteratorInit_def Let_def)
    show ?thesis
    proof (cases "ck_mem e \<and> ck_lock e 0 = SQLITE_OK")
      case False
      then have "w' = w1" "db' = db" using work nomem it(1) unfolding eq by (cases "ck_mem e"; simp)+
      then show ?thesis using quiet [of info] fill by (simp add: w1_def)
    next
      case True
      then have copy: "ckpt_copy e zero log s w1 it db = (rc, w', db')" using work it(1) unfolding eq by simp
      have "ckpt_effect fs zero log s w1 db w' db'"
        by (rule ckpt_copy_ok [OF ok1 _ pgs _ _ _ it(2) copy]) (use shm s(2) S(1) fill it(3) in \<open>simp_all add: w1\<close>)
      then show ?thesis using S fill ckpt_effect_marks unfolding w1_def by blast
    qed
  qed
qed

lemma ckpt_work_slot0: "ck_lock e 0 \<noteq> SQLITE_OK \<Longrightarrow> ckpt_work e zero log w db = (rc, w', db') \<Longrightarrow> db' = db"
  by (auto simp: ckpt_work_def Let_def split: if_splits sum.splits prod.splits)

section \<open>Properties\<close>

text \<open>A concrete log with the pages 5 and 7 committed in a database of 8 pages, and an environment that refuses one lock.\<close>

definition example_env :: "(nat \<Rightarrow> rc) \<Rightarrow> ckpt_env" where
  "example_env lock = \<lparr>ck_lock = lock, ck_restart_lock = lock 1, ck_mem = True, ck_map = (\<lambda>_. SQLITE_OK), ck_sync_wal = SQLITE_OK,
     ck_size = SQLITE_OK, ck_interrupt = (\<lambda>_. False), ck_malloc_failed = False, ck_read = (\<lambda>_. SQLITE_OK),
     ck_write = (\<lambda>_. (SQLITE_OK, [])), ck_truncate = SQLITE_OK, ck_sync_db = SQLITE_OK, ck_truncate_wal = SQLITE_OK,
     ck_salt1 = [1, 2, 3, 4]\<rparr>"

lemma ckpt_example:
  obtains w where "log_reachable (w, [5, 7], [])" "hdr w = shm_hdr w" "mxFrame (hdr w) = 2" "nPage (hdr w) = 8"
    "nBackfill (pInfo w) = 0" "aReadMark (pInfo w) ! 1 = 0"
proof -
  obtain p1 where 1: "log_reachable (wal_fresh\<lparr>apWiData := p1\<rparr>, [] @ [5], [])"
    using can_append [OF wal_fresh_reachable, of 5] by auto
  obtain p2 where 2: "log_reachable (wal_fresh\<lparr>apWiData := p2\<rparr>, [5, 7], [])"
    using can_append [OF 1, of 7] by auto
  have "log_reachable (committed (wal_fresh\<lparr>apWiData := p2\<rparr>) (length [5, 7 :: nat]) 8, [5, 7], [])"
    by (rule log_reachable.writer [OF 2 writer_step.commit])
  then show thesis
    by (rule that) (simp_all add: committed_def written_def walIndexWriteHdr_def wal_fresh_def Let_def)
qed

text \<open>A snapshot: the tables, a committed end of the log and the size of the database at that point.\<close>

definition snapshot_of :: "wal \<Rightarrow> wal \<Rightarrow> bool" where
  "snapshot_of r w = (apWiData r = apWiData w \<and> mxFrame (hdr r) \<le> mxFrame (hdr w)
     \<and> (mxFrame (hdr r) = mxFrame (hdr w) \<longrightarrow> nPage (hdr r) = nPage (hdr w))
     \<and> minFrame r \<le> nBackfill (pInfo w) + 1)"

text \<open>
  The read lock of an open reader, as its connection and the checkpoint see it: in slot 0 the reader leaves the log
  aside; in the others its mark is at or before its snapshot, and the lock of all these slots is refused as well.
  A read-only connection without shared memory (\<open>bShmUnreliable\<close>), which reads the log from slot 0 with a private
  index, is not meant.
\<close>

definition holds_read_lock :: "ckpt_env \<Rightarrow> wal \<Rightarrow> wal \<Rightarrow> bool" where
  "holds_read_lock e w r =
    (0 \<le> readLock r \<and> readLock r < int WAL_NREADER \<and> ck_lock e (nat (readLock r)) = SQLITE_BUSY
     \<and> (if readLock r = 0 then \<not> bShmUnreliable r
        else aReadMark (pInfo w) ! nat (readLock r) \<le> mxFrame (hdr r) \<and> ck_restart_lock e = SQLITE_BUSY))"

lemma view_log:
  assumes "index_ok w fs" "apWiData r = apWiData w" "mxFrame (hdr r) \<le> length fs" "readLock r \<noteq> 0"
  shows "page_view zero db log r p = (let f = last_hit (in_log fs p (minFrame r)) (mxFrame (hdr r))
    in if f = 0 then db_page zero db p else log ! (f - 1))"
  using walFindFrame_log [OF assms(1-3), of p] assms(4) by (simp add: page_view_def)

text \<open>Where a page of the database has changed, a reader in front of the copied frames reads the log.\<close>

lemma ckpt_effect_view:
  assumes ok: "index_ok w fs" and eff: "ckpt_effect fs zero log s w db w' db'" and s: "s \<le> mxFrame (hdr r)"
    and r: "snapshot_of r w" "readLock r \<noteq> 0" and p: "1 \<le> p" "p \<le> nPage (hdr r)"
  shows "page_view zero db' log r p = page_view zero db log r p"
proof -
  let ?b = "nBackfill (pInfo w)" and ?m = "mxFrame (hdr w)" and ?f = "last_hit (in_log fs p (minFrame r)) (mxFrame (hdr r))"
  have m: "mxFrame (hdr r) \<le> ?m" "?m \<le> length fs" using r(1) index_okD(1) [OF ok] by (simp_all add: snapshot_of_def)
  have V: "page_view zero d log r p = (if ?f = 0 then db_page zero d p else log ! (?f - 1))" for d
    using view_log [OF ok, of r zero d log p] r m by (simp add: snapshot_of_def Let_def)
  have "db_page zero db' p = db_page zero db p" if "?f = 0"
  proof (rule ccontr)
    assume "db_page zero db' p \<noteq> db_page zero db p"
    then consider (copied) "uncopied fs ?b ?m p \<noteq> 0" "uncopied fs ?b ?m p \<le> s" | (cut) "s = ?m" "nPage (hdr w) < p"
      using eff p(1) unfolding ckpt_effect_def Let_def by blast
    then show False
    proof cases
      case copied
      then have "in_log fs p (minFrame r) (uncopied fs ?b ?m p)" using uncopied_range [OF copied(1)] r by (auto simp: in_log_def snapshot_of_def)
      then have "uncopied fs ?b ?m p \<le> ?f" using copied s by (intro last_hit_newest) simp_all
      then show False using copied that by simp
    next
      case cut
      then show False using r s m p(2) by (simp add: snapshot_of_def)
    qed
  qed
  then show ?thesis unfolding V by simp
qed

lemma slot0_view: "readLock r = 0 \<Longrightarrow> \<not> bShmUnreliable r \<Longrightarrow> page_view zero db log r p = db_page zero db p"
  by (simp add: page_view_def walFindFrame_def)

text \<open>C4.  A checkpoint changes nothing that an open reader sees.  Whatever succeeds or fails on the way - locks, memory,
  reads, writes that leave garbage, syncs, an interrupt - and in every mode, every page of the snapshot of a reader
  reads afterwards as it read before.  The reader holds the lock of any of the five slots: in slots 1 to 4 its mark
  is at or before its snapshot, and frames up to it may be copied over the database; in slot 0 it reads the database
  without the log, which the checkpoint then leaves alone, although it may still make the log start over.
\<close>

theorem checkpoint_keeps_readers:
  assumes "log_reachable (w, fs, sps)" "hdr w = shm_hdr w" "\<forall>g \<in> set fs. g < 0xFFFFFFFF"
    and "snapshot_of r w" "holds_read_lock e w r"
    and "walCheckpoint e zero eMode w db log = (rc, w', db', log')" "1 \<le> p" "p \<le> nPage (hdr r)"
  shows "page_view zero db' log' r p = page_view zero db log r p"
proof -
  have ok: "index_ok w fs" using log_reachable_inv [OF assms(1)] by (simp add: log_inv_iff)
  obtain rc1 w1 where work: "ckpt_work e zero log w db = (rc1, w1, db')"
    using assms(6) by (auto simp: walCheckpoint_def split: prod.splits if_splits)
  show ?thesis
  proof (cases "readLock r = 0")
    case True
    then have "db' = db" using ckpt_work_slot0 [OF _ work] assms(5) by (simp add: holds_read_lock_def)
    then show ?thesis using assms(5) True by (simp add: slot0_view holds_read_lock_def)
  next
    case False
    then have held: "nat (readLock r) \<in> {1..<WAL_NREADER}" "ck_lock e (nat (readLock r)) = SQLITE_BUSY"
      "aReadMark (pInfo w) ! nat (readLock r) \<le> mxFrame (hdr r)" "ck_restart_lock e = SQLITE_BUSY"
      using assms(5) by (auto simp: holds_read_lock_def)
    have log: "log' = log"
      using assms(6) work held(4) by (auto simp: walCheckpoint_def ckpt_restart_def split: prod.splits if_splits)
    obtain s where s: "ckpt_effect fs zero log s w db w1 db'" "behind_readers e w s"
      using ckpt_work_ok [OF ok assms(2,3) work] by blast
    have "s \<le> mxFrame (hdr r)" using s(2) held(1-3) unfolding behind_readers_def by fastforce
    then show ?thesis using ckpt_effect_view [OF ok s(1) _ assms(4) False assms(7,8)] log by simp
  qed
qed

text \<open>The pages 5 and 7 are in the log; a reader from before them, in slot 1 and in slot 0.\<close>

theorem checkpoint_keeps_readers_witness:
  "\<exists>w. log_reachable (w, [5, 7], [])
    \<and> (\<forall>i \<in> {0, 1}. case walCheckpoint (example_env (\<lambda>j. if j = i then SQLITE_BUSY else SQLITE_OK)) [0] CHECKPOINT_PASSIVE w (replicate 8 [1]) [[2], [3]] of
         (rc, w', db', log') \<Rightarrow> page_view [0] db' log' (w\<lparr>minFrame := 1, readLock := int i, bShmUnreliable := False\<rparr>) 5
           = page_view [0] (replicate 8 [1]) [[2], [3]] (w\<lparr>minFrame := 1, readLock := int i, bShmUnreliable := False\<rparr>) 5)"
proof -
  obtain w where w: "log_reachable (w, [5, 7], [])" "hdr w = shm_hdr w" "mxFrame (hdr w) = 2" "nPage (hdr w) = 8"
    "nBackfill (pInfo w) = 0" "aReadMark (pInfo w) ! 1 = 0" by (rule ckpt_example)
  have "case walCheckpoint (example_env (\<lambda>j. if j = i then SQLITE_BUSY else SQLITE_OK)) [0] CHECKPOINT_PASSIVE w (replicate 8 [1]) [[2], [3]] of
         (rc, w', db', log') \<Rightarrow> page_view [0] db' log' (w\<lparr>minFrame := 1, readLock := int i, bShmUnreliable := False\<rparr>) 5
           = page_view [0] (replicate 8 [1]) [[2], [3]] (w\<lparr>minFrame := 1, readLock := int i, bShmUnreliable := False\<rparr>) 5"
    if i: "i \<in> {0, 1}" for i
  proof -
    let ?e = "example_env (\<lambda>j. if j = i then SQLITE_BUSY else SQLITE_OK)" and ?r = "w\<lparr>minFrame := 1, readLock := int i, bShmUnreliable := False\<rparr>"
    obtain rc w' db' log' where c: "walCheckpoint ?e [0] CHECKPOINT_PASSIVE w (replicate 8 [1]) [[2], [3]] = (rc, w', db', log')"
      by (metis surj_pair)
    have "holds_read_lock ?e w ?r" using w i by (auto simp: holds_read_lock_def WAL_NREADER_def example_env_def)
    moreover have "snapshot_of ?r w" "5 \<le> nPage (hdr ?r)" using w by (simp_all add: snapshot_of_def)
    moreover have "\<forall>g \<in> set [5, 7 :: nat]. g < 0xFFFFFFFF" by simp
    ultimately have "page_view [0] db' log' ?r 5 = page_view [0] (replicate 8 [1]) [[2], [3]] ?r 5"
      by (intro checkpoint_keeps_readers [OF w(1,2) _ _ _ c]) (simp_all only: one_le_numeral)
    then show ?thesis unfolding c prod.case .
  qed
  then show ?thesis using w(1) by (intro exI conjI ballI)
qed


text \<open>The next reader, which uses the frames that are not copied.\<close>

definition next_reader :: "wal \<Rightarrow> wal" where
  "next_reader w = w\<lparr>minFrame := nBackfill (pInfo w) + 1, readLock := 1\<rparr>"

lemma next_view:
  assumes "index_ok w fs"
  shows "page_view zero db log (next_reader w) p = (let f = uncopied fs (nBackfill (pInfo w)) (mxFrame (hdr w)) p
    in if f = 0 then db_page zero db p else log ! (f - 1))"
  using view_log [OF assms, of "next_reader w" zero db log p] index_okD(1) [OF assms] by (simp add: next_reader_def uncopied_def)

lemma ckpt_effect_next:
  assumes ok: "index_ok w fs" and eff: "ckpt_effect fs zero log s w db w' db'" and s: "s \<le> mxFrame (hdr w)"
    and p: "1 \<le> p" "p \<le> nPage (hdr w)"
  shows "index_ok w' fs" "hdr w' = hdr w" "page_view zero db' log (next_reader w') p = page_view zero db log (next_reader w) p"
proof -
  let ?b = "nBackfill (pInfo w)" and ?m = "mxFrame (hdr w)"
  let ?f = "uncopied fs ?b ?m p"
  obtain info where w': "w' = w\<lparr>pInfo := info\<rparr>" using eff unfolding ckpt_effect_def Let_def by blast
  show ok': "index_ok w' fs" and h: "hdr w' = hdr w" using ok by (simp_all add: w' index_ok_def)
  have changed: "?f \<noteq> 0 \<and> ?f \<le> s" if "db_page zero db' p \<noteq> db_page zero db p"
    using eff that p unfolding ckpt_effect_def Let_def by auto
  have kept: "db_page zero db' p = db_page zero db p" if "?f = 0" using changed that by blast
  consider (same) "nBackfill info = ?b"
    | (new) "nBackfill info = s" "?b < s" "?f \<noteq> 0 \<Longrightarrow> ?f \<le> s \<Longrightarrow> db_page zero db' p = log ! (?f - 1)"
    using eff p unfolding ckpt_effect_def Let_def w' by auto
  then show "page_view zero db' log (next_reader w') p = page_view zero db log (next_reader w) p"
  proof cases
    case same
    then show ?thesis unfolding next_view [OF ok] next_view [OF ok'] h using kept by (simp add: w' Let_def)
  next
    case new
    obtain d where d: "?m = s + d" using s by (metis le_Suc_ex)
    have "?f = (if uncopied fs s ?m p = 0 then uncopied fs ?b s p else uncopied fs s ?m p)"
      using last_hit_lower [of "?b + 1" s fs p d] new(2) by (simp add: uncopied_def d Let_def)
    moreover have "uncopied fs ?b s p \<le> s" unfolding uncopied_def by (rule last_hit_le)
    ultimately have "?f \<noteq> 0 \<and> ?f \<le> s" if "uncopied fs s ?m p = 0" "?f \<noteq> 0" using that by simp
    moreover have "uncopied fs s ?m p = ?f" if "uncopied fs s ?m p \<noteq> 0" using \<open>?f = _\<close> that by simp
    ultimately show ?thesis unfolding next_view [OF ok] next_view [OF ok'] h using new kept
      by (cases "uncopied fs s ?m p = 0"; cases "?f = 0") (simp_all add: w' Let_def)
  qed
qed

text \<open>C5.  The content of the database survives every checkpoint: whatever succeeds or fails, in every mode, the next reader
  - which starts behind the frames that now count as copied, or finds the log empty after it was made to start over -
  reads in every page of the database what the last commit left there.
\<close>

theorem checkpoint_keeps_content:
  assumes "log_reachable (w, fs, sps)" "hdr w = shm_hdr w" "\<forall>g \<in> set fs. g < 0xFFFFFFFF"
    and "walCheckpoint e zero eMode w db log = (rc, w', db', log')" "1 \<le> p" "p \<le> nPage (hdr w)"
  shows "nPage (hdr w') = nPage (hdr w) \<and> page_view zero db' log' (next_reader w') p = page_view zero db log (next_reader w) p"
proof -
  have ok: "index_ok w fs" using log_reachable_inv [OF assms(1)] by (simp add: log_inv_iff)
  obtain rc1 w1 db1 where work: "ckpt_work e zero log w db = (rc1, w1, db1)" by (metis surj_pair)
  obtain s where s: "s \<le> mxFrame (hdr w)" "ckpt_effect fs zero log s w db w1 db1"
    using ckpt_work_ok [OF ok assms(2,3) work] by blast
  note N = ckpt_effect_next [OF ok s(2,1) assms(5,6)]
  have db: "db' = db1" using assms(4) work by (auto simp: walCheckpoint_def split: prod.splits if_splits)
  show ?thesis
  proof (cases "w' = w1 \<and> log' = log")
    case True
    then show ?thesis using N db by simp
  next
    case False
    then have restart: "w' = walRestartHdr w1 (ck_salt1 e)" "\<not> nBackfill (pInfo w1) < mxFrame (hdr w1)"
      using assms(4) work by (auto simp: walCheckpoint_def ckpt_restart_def split: prod.splits if_splits)
    have w': "mxFrame (hdr (next_reader w')) = 0" "nPage (hdr w') = nPage (hdr w1)"
      by (simp_all add: restart(1) next_reader_def walRestartHdr_def walIndexWriteHdr_def Let_def)
    have "page_view zero db' log' (next_reader w') p = db_page zero db1 p"
      using w'(1) db by (simp add: page_view_def walFindFrame_def)
    moreover have "uncopied fs (nBackfill (pInfo w1)) (mxFrame (hdr w1)) p = 0"
      unfolding uncopied_def using restart(2) last_hit_above [of "mxFrame (hdr w1)" "nBackfill (pInfo w1)" fs p] by simp
    then have "page_view zero db1 log (next_reader w1) p = db_page zero db1 p" unfolding next_view [OF N(1)] by simp
    ultimately show ?thesis using N w'(2) by simp
  qed
qed

theorem checkpoint_keeps_content_witness:
  "\<exists>w. log_reachable (w, [5, 7], [])
    \<and> (case walCheckpoint (example_env (\<lambda>_. SQLITE_OK)) [0] CHECKPOINT_TRUNCATE w (replicate 8 [1]) [[2], [3]] of
         (rc, w', db', log') \<Rightarrow> page_view [0] db' log' (next_reader w') 5 = [2])"
proof -
  obtain w where w: "log_reachable (w, [5, 7], [])" "hdr w = shm_hdr w" "mxFrame (hdr w) = 2" "nPage (hdr w) = 8"
    "nBackfill (pInfo w) = 0" "aReadMark (pInfo w) ! 1 = 0" by (rule ckpt_example)
  obtain rc w' db' log' where c: "walCheckpoint (example_env (\<lambda>_. SQLITE_OK)) [0] CHECKPOINT_TRUNCATE w (replicate 8 [1]) [[2], [3]] = (rc, w', db', log')"
    by (metis surj_pair)
  have "index_ok w [5, 7]" using log_reachable_inv [OF w(1)] by (simp add: log_inv_iff)
  then have "page_view [0] (replicate 8 [1]) [[2], [3]] (next_reader w) 5 = [2]"
    using w by (simp add: next_view uncopied_def in_log_def eval_nat_numeral)
  then have "page_view [0] db' log' (next_reader w') 5 = [2]"
    using checkpoint_keeps_content [OF w(1,2) _ c, of 5] w(4) by simp
  then show ?thesis using w(1) c by auto
qed

text \<open>An environment in which nothing fails and no reader holds a lock.\<close>

definition all_well :: "ckpt_env \<Rightarrow> bool" where
  "all_well e = ((\<forall>i. ck_lock e i = SQLITE_OK) \<and> ck_mem e \<and> ck_sync_wal e = SQLITE_OK \<and> ck_size e = SQLITE_OK
     \<and> (\<forall>p. \<not> ck_interrupt e p) \<and> (\<forall>f. ck_read e f = SQLITE_OK) \<and> (\<forall>p. fst (ck_write e p) = SQLITE_OK)
     \<and> ck_truncate e = SQLITE_OK \<and> ck_sync_db e = SQLITE_OK
     \<and> ck_restart_lock e = SQLITE_OK \<and> ck_truncate_wal e = SQLITE_OK)"

lemma safe_frame_all: "all_well e \<Longrightarrow> \<exists>info'. safe_frame e is m info = (Inr m, info')"
  by (induction "is" arbitrary: info) (auto simp: all_well_def Let_def)

lemma safe_frame_length: "safe_frame e is m info = (r, info') \<Longrightarrow> length (aReadMark info') = length (aReadMark info)"
  by (induction "is" arbitrary: m info) (auto simp: Let_def split: if_splits rc.splits)

lemma backfill_rc: "all_well e \<Longrightarrow> backfill e zero log b s mp n it f db = Some (rc, db') \<Longrightarrow> rc = SQLITE_OK"
  by (induction n arbitrary: it f db) (auto simp: backfill.simps all_well_def split: prod.splits if_splits)

lemma ckpt_work_completes:
  assumes ok: "index_ok w fs" and shm: "hdr w = shm_hdr w" and pgs: "\<forall>g \<in> set fs. g < 0xFFFFFFFF"
    and well: "all_well e" and b: "nBackfill (pInfo w) \<le> mxFrame (hdr w)" and size: "nPage (hdr w) \<le> length db + mxFrame (hdr w)"
    and work: "ckpt_work e zero log w db = (rc, w', db')"
  shows "rc = SQLITE_OK" "hdr w' = hdr w" "nBackfill (pInfo w') = mxFrame (hdr w)"
    "length (aReadMark (pInfo w')) = length (aReadMark (pInfo w))"
proof -
  let ?b = "nBackfill (pInfo w)" and ?m = "mxFrame (hdr w)"
  have mx: "?m \<le> length fs" by (rule index_okD(1) [OF ok])
  have "rc = SQLITE_OK \<and> hdr w' = hdr w \<and> nBackfill (pInfo w') = ?m \<and> length (aReadMark (pInfo w')) = length (aReadMark (pInfo w))"
  proof (cases "?b < ?m")
    case False
    then show ?thesis using work b by (auto simp: ckpt_work_def)
  next
    case bm: True
    obtain info where sf: "safe_frame e [1..<WAL_NREADER] ?m (pInfo w) = (Inr ?m, info)" using safe_frame_all [OF well] by blast
    have fill: "nBackfill info = ?b" by (rule safe_frame_filled [OF sf])
    define w1 where "w1 = w\<lparr>pInfo := info\<rparr>"
    have w1: "hdr w1 = hdr w" "shm_hdr w1 = hdr w" "nBackfill (pInfo w1) = ?b"
      "length (aReadMark (pInfo w1)) = length (aReadMark (pInfo w))"
      using shm fill safe_frame_length [OF sf] by (simp_all add: w1_def)
    have ok1: "index_ok w1 fs" using ok by (simp add: index_ok_def w1_def)
    obtain it where it: "walIteratorInit True (ck_map e) w1 ?b = (Inr it, w1)" "iPrior it = 0" "iter_ok it (iter_map fs ?b ?m)"
      using walIteratorInit_ok [OF ok1, of ?b "ck_map e"] mx bm by (auto simp: w1 iter_map_def)
    have copy: "ckpt_copy e zero log ?m w1 it db = (rc, w', db')"
      using work sf bm fill it(1) well by (simp add: ckpt_work_def Let_def w1_def [symmetric] all_well_def)
    have dom: "\<forall>pg \<in> dom (iter_map fs ?b ?m). pg < 0xFFFFFFFF" using pgs iter_map_dom(2) [OF mx] by blast
    have "card {g \<in> dom (iter_map fs ?b ?m). iPrior it < g} < ?m + 1"
      using iter_map_card [OF mx, of ?b] card_mono [OF iter_map_card(1) [OF mx, of ?b], of "{g \<in> dom (iter_map fs ?b ?m). iPrior it < g}"]
      by fastforce
    then obtain rc2 db2 where B: "backfill e zero log ?b ?m (nPage (hdr w)) (?m + 1) it 0 db = Some (rc2, db2)"
      using backfill_ok [OF dom iter_map_card(1) [OF mx] it(3), of "?m + 1" e zero log ?b ?m "nPage (hdr w)" 0 db] it(2) by auto
    have "nPage (hdr w) * walPagesize w1 \<le> length db * walPagesize w1 + ?m * walPagesize w1"
      using size by (metis add_mult_distrib mult_le_mono1)
    then have "ckpt_sizes e (w1\<lparr>pInfo := (pInfo w1)\<lparr>nBackfillAttempted := ?m\<rparr>\<rparr>) db = SQLITE_OK"
      using well by (simp add: ckpt_sizes_def Let_def all_well_def walPagesize_def w1)
    then show ?thesis
      using copy B backfill_rc [OF well B] well w1(4) by (auto simp: ckpt_copy_def Let_def w1 ckpt_finish_def all_well_def)
  qed
  then show "rc = SQLITE_OK" "hdr w' = hdr w" "nBackfill (pInfo w') = mxFrame (hdr w)"
    "length (aReadMark (pInfo w')) = length (aReadMark (pInfo w))" by simp_all
qed

text \<open>What a complete checkpoint leaves: all frames count as copied; only the truncating mode starts an empty log.\<close>

definition ckpt_done :: "ckpt_mode \<Rightarrow> wal \<Rightarrow> bytes list \<Rightarrow> wal \<Rightarrow> bytes list \<Rightarrow> bool" where
  "ckpt_done eMode w log w' log' =
    (if eMode = CHECKPOINT_TRUNCATE
     then log' = [] \<and> mxFrame (hdr w') = 0 \<and> nPage (hdr w') = nPage (hdr w) \<and> shm_hdr w' = hdr w'
       \<and> nBackfill (pInfo w') = 0
       \<and> tl (aReadMark (pInfo w')) = 0 # replicate (length (aReadMark (pInfo w)) - 2) READMARK_NOT_USED
     else log' = log \<and> hdr w' = hdr w \<and> nBackfill (pInfo w') = mxFrame (hdr w))"

text \<open>C20.  A checkpoint that nothing hinders completes, in each of the four modes: it returns success and the database file by
  itself holds every page as the last commit left it.  In the modes passive, full and restart all frames then count
  as copied and the log stays as it was; in the mode truncate the log is empty, and the header, the counter of copied
  frames and the read marks are those of a log that starts over.
\<close>

theorem checkpoint_completes:
  assumes "log_reachable (w, fs, sps)" "hdr w = shm_hdr w" "\<forall>g \<in> set fs. g < 0xFFFFFFFF"
    and "all_well e" "nBackfill (pInfo w) \<le> mxFrame (hdr w)" "nPage (hdr w) \<le> length db + mxFrame (hdr w)"
    and "walCheckpoint e zero eMode w db log = (rc, w', db', log')"
  shows "rc = SQLITE_OK \<and> ckpt_done eMode w log w' log'
    \<and> (\<forall>p. 1 \<le> p \<longrightarrow> p \<le> nPage (hdr w) \<longrightarrow> db_page zero db' p = page_view zero db log (next_reader w) p)"
proof -
  let ?m = "mxFrame (hdr w)"
  have ok: "index_ok w fs" using log_reachable_inv [OF assms(1)] by (simp add: log_inv_iff)
  obtain rc1 w1 where work: "ckpt_work e zero log w db = (rc1, w1, db')"
    using assms(7) by (auto simp: walCheckpoint_def split: prod.splits if_splits)
  note W = ckpt_work_completes [OF ok assms(2-6) work]
  obtain s where s: "ckpt_effect fs zero log s w db w1 db'" "s \<le> ?m"
    using ckpt_work_ok [OF ok assms(2,3) work] by blast
  have "db_page zero db' p = page_view zero db log (next_reader w) p" if "1 \<le> p" "p \<le> nPage (hdr w)" for p
  proof -
    note N = ckpt_effect_next [OF ok s that]
    have "uncopied fs ?m ?m p = 0" unfolding uncopied_def using last_hit_above [of ?m ?m fs p] by simp
    then show ?thesis using N next_view [OF N(1), of zero db' log p] W(2,3) by simp
  qed
  moreover have "rc = SQLITE_OK \<and> ckpt_done eMode w log w' log'"
    using assms(4,7) work W by (cases eMode)
      (auto simp: walCheckpoint_def ckpt_restart_def ckpt_done_def all_well_def walRestartHdr_def walIndexWriteHdr_def Let_def)
  ultimately show ?thesis by blast
qed

text \<open>The log of the pages 5 and 7, in each mode.\<close>

theorem checkpoint_completes_witness:
  "\<exists>w. log_reachable (w, [5, 7], [])
    \<and> (\<forall>eMode. case walCheckpoint (example_env (\<lambda>_. SQLITE_OK)) [0] eMode w (replicate 8 [1]) [[2], [3]] of
         (rc, w', db', log') \<Rightarrow> rc = SQLITE_OK \<and> log' = (if eMode = CHECKPOINT_TRUNCATE then [] else [[2], [3]])
           \<and> nBackfill (pInfo w') = (if eMode = CHECKPOINT_TRUNCATE then 0 else 2) \<and> db_page [0] db' 7 = [3])"
proof -
  obtain w where w: "log_reachable (w, [5, 7], [])" "hdr w = shm_hdr w" "mxFrame (hdr w) = 2" "nPage (hdr w) = 8"
    "nBackfill (pInfo w) = 0" "aReadMark (pInfo w) ! 1 = 0" by (rule ckpt_example)
  have "index_ok w [5, 7]" using log_reachable_inv [OF w(1)] by (simp add: log_inv_iff)
  then have view: "page_view [0] (replicate 8 [1]) [[2], [3]] (next_reader w) 7 = [3]"
    using w by (simp add: next_view uncopied_def in_log_def eval_nat_numeral)
  have well: "all_well (example_env (\<lambda>_. SQLITE_OK))" by (simp add: all_well_def example_env_def)
  have "case walCheckpoint (example_env (\<lambda>_. SQLITE_OK)) [0] eMode w (replicate 8 [1]) [[2], [3]] of
         (rc, w', db', log') \<Rightarrow> rc = SQLITE_OK \<and> log' = (if eMode = CHECKPOINT_TRUNCATE then [] else [[2], [3]])
           \<and> nBackfill (pInfo w') = (if eMode = CHECKPOINT_TRUNCATE then 0 else 2) \<and> db_page [0] db' 7 = [3]" for eMode
  proof -
    obtain rc w' db' log' where c: "walCheckpoint (example_env (\<lambda>_. SQLITE_OK)) [0] eMode w (replicate 8 [1]) [[2], [3]] = (rc, w', db', log')"
      by (metis surj_pair)
    show ?thesis using checkpoint_completes [OF w(1,2) _ well _ _ c] w view c by (simp add: ckpt_done_def split: if_splits)
  qed
  then show ?thesis using w(1) by blast
qed

end
