(* ===== verification/WalProtocol.thy ===== *)
theory WalProtocol
  imports WalCheckpoint
begin

text \<open>
  The protocol of the locks (\<open>wal.c\<close>): connections of several processes share the header of the index, the read
  marks, the log and the database.  Each step is one access to shared memory, one lock, or one page of a file, so
  that the steps of the connections interleave at any point.  The name of the function that a step belongs to is
  the name of its definition; its program points are those of the datatype \<open>wal_pc\<close>.  Left out are errors of the
  locks other than busy, the delays between retries and their limit, the busy handler, connections that are
  read-only or without shared memory, savepoints, and the recovery lock.
\<close>

section \<open>The shared state\<close>

text \<open>
  Of the header the protocol looks at the salt, which a restart of the log renews, the number of frames and
  the size of the database.  The copies and the checksum of the header make its reading one step.
\<close>

record wal_head =
  hd_salt :: nat
  hd_mxFrame :: nat
  hd_nPage :: nat

text \<open>
  The last three fields are not in the program: the commits to the log since it began, the database when it
  began, and the content of the database as the commits define it.
\<close>

record 'a wal_shared =
  sh_live :: wal_head
  sh_nBackfill :: nat
  sh_marks :: "nat list"
  sh_log :: "(nat \<times> 'a) list"
  sh_db :: "nat \<Rightarrow> 'a"
  sh_commits :: "wal_head list"
  sh_base :: "nat \<Rightarrow> 'a"
  sh_truth :: "nat \<Rightarrow> 'a"

section \<open>Connections\<close>

text \<open>Where a connection is: beginning to read, reading, beginning to write, restarting the log, checkpointing.\<close>

datatype wal_pc =
  Idle
| BgHdr | BgFilled | BgLock0 | BgCheck0
| BgScan nat nat nat | BgClaim nat nat nat | BgStore nat | BgRelease nat
| BgLock nat nat | BgMin nat nat | BgMark nat nat | BgLive nat nat
| Reading
| WrCheck
| RsLock | RsHdr | RsFilled | RsMarks | RsLog | RsRelease
| CkWrite | CkHdr | CkTest | CkScan nat | CkTry nat nat | CkMark nat | CkRelease nat
| CkIter | CkLock0 | CkSalt | CkCopy | CkSize | CkTrunc | CkFill | CkFree0 | CkMode

text \<open>
  A connection is a part of \<open>Wal\<close> with the local variables of the functions.  The last two fields are not in the
  program: the header its snapshot began with, and the database at that time.
\<close>

record 'a wal_conn =
  c_pc :: wal_pc
  c_hdr :: wal_head
  c_minFrame :: nat
  c_readLock :: "nat option"
  c_writeLock :: bool
  c_ckptLock :: bool
  c_mode :: ckpt_mode
  c_mxSafe :: nat
  c_nBackfill :: nat
  c_todo :: "(nat \<times> nat) list"
  c_start :: wal_head
  c_snap :: "nat \<Rightarrow> 'a"

record 'a wal_system =
  shared :: "'a wal_shared"
  conns :: "'a wal_conn list"

definition conn_at :: "'a wal_system \<Rightarrow> nat \<Rightarrow> 'a wal_conn" where
  "conn_at s c = conns s ! c"

definition set_conn :: "nat \<Rightarrow> 'a wal_conn \<Rightarrow> 'a wal_system \<Rightarrow> 'a wal_system" where
  "set_conn c k s = s\<lparr>conns := (conns s)[c := k]\<rparr>"

definition set_both :: "nat \<Rightarrow> 'a wal_conn \<Rightarrow> 'a wal_shared \<Rightarrow> 'a wal_system \<Rightarrow> 'a wal_system" where
  "set_both c k m s = s\<lparr>shared := m, conns := (conns s)[c := k]\<rparr>"

section \<open>Locks\<close>

definition WAL_WRITE_LOCK :: nat where "WAL_WRITE_LOCK = 0"
definition WAL_CKPT_LOCK :: nat where "WAL_CKPT_LOCK = 1"
definition WAL_READ_LOCK :: "nat \<Rightarrow> nat" where "WAL_READ_LOCK i = 3 + i"

definition WAL_READERS :: "nat set" where "WAL_READERS = {WAL_READ_LOCK 1, WAL_READ_LOCK 2, WAL_READ_LOCK 3, WAL_READ_LOCK 4}"

text \<open>The locks a connection holds follow from where it is (\<open>walAssertLockmask\<close>).\<close>

definition shared_locks :: "'a wal_conn \<Rightarrow> nat set" where
  "shared_locks k =
    (case c_readLock k of None \<Rightarrow> {} | Some i \<Rightarrow> {WAL_READ_LOCK i}) \<union>
    (case c_pc k of
       BgCheck0 \<Rightarrow> {WAL_READ_LOCK 0}
     | BgMin i m \<Rightarrow> {WAL_READ_LOCK i} | BgMark i m \<Rightarrow> {WAL_READ_LOCK i} | BgLive i m \<Rightarrow> {WAL_READ_LOCK i}
     | _ \<Rightarrow> {})"

definition excl_locks :: "'a wal_conn \<Rightarrow> nat set" where
  "excl_locks k =
    (if c_writeLock k then {WAL_WRITE_LOCK} else {}) \<union> (if c_ckptLock k then {WAL_CKPT_LOCK} else {}) \<union>
    (case c_pc k of
       BgStore i \<Rightarrow> {WAL_READ_LOCK i} | BgRelease i \<Rightarrow> {WAL_READ_LOCK i}
     | CkMark i \<Rightarrow> {WAL_READ_LOCK i} | CkRelease i \<Rightarrow> {WAL_READ_LOCK i}
     | CkSalt \<Rightarrow> {WAL_READ_LOCK 0} | CkCopy \<Rightarrow> {WAL_READ_LOCK 0} | CkSize \<Rightarrow> {WAL_READ_LOCK 0}
     | CkTrunc \<Rightarrow> {WAL_READ_LOCK 0} | CkFill \<Rightarrow> {WAL_READ_LOCK 0} | CkFree0 \<Rightarrow> {WAL_READ_LOCK 0}
     | RsHdr \<Rightarrow> WAL_READERS | RsFilled \<Rightarrow> WAL_READERS | RsMarks \<Rightarrow> WAL_READERS | RsLog \<Rightarrow> WAL_READERS | RsRelease \<Rightarrow> WAL_READERS
     | _ \<Rightarrow> {})"

text \<open>
  A lock is granted if no other connection holds one that conflicts: what the documentation of \<open>xShmLock\<close> promises,
  to which \<open>walLockShared\<close> and \<open>walLockExclusive\<close> pass the request on.
\<close>

definition can_share :: "'a wal_system \<Rightarrow> nat \<Rightarrow> nat \<Rightarrow> bool" where
  "can_share s c l = (\<forall>d < length (conns s). d \<noteq> c \<longrightarrow> l \<notin> excl_locks (conn_at s d))"

definition can_excl :: "'a wal_system \<Rightarrow> nat \<Rightarrow> nat set \<Rightarrow> bool" where
  "can_excl s c ls = (\<forall>d < length (conns s). d \<noteq> c \<longrightarrow> ls \<inter> (excl_locks (conn_at s d) \<union> shared_locks (conn_at s d)) = {})"

section \<open>Beginning to read\<close>

text \<open>
  After \<open>WAL_RETRY\<close> all is tried again; a writer that restarted the log keeps its header (\<open>useWal\<close>).  The scan of the
  marks is \<open>BgScan i mxI mxReadMark\<close>, the claim of a slot \<open>BgClaim\<close>, \<open>BgStore\<close> and \<open>BgRelease\<close>.
\<close>

definition begin_retry :: "'a wal_conn \<Rightarrow> 'a wal_conn" where
  "begin_retry k = k\<lparr>c_pc := if c_writeLock k then BgScan 1 0 0 else BgHdr\<rparr>"

definition begin_reading :: "'a wal_shared \<Rightarrow> nat \<Rightarrow> 'a wal_conn \<Rightarrow> 'a wal_conn" where
  "begin_reading m i k = k\<lparr>c_pc := Reading, c_readLock := Some i, c_start := c_hdr k, c_snap := sh_truth m\<rparr>"

definition walTryBeginRead :: "nat \<Rightarrow> 'a wal_system \<Rightarrow> 'a wal_system" where
  "walTryBeginRead c s =
    (let k = conn_at s c; m = shared s
     in case c_pc k of
          BgHdr \<Rightarrow> set_conn c (k\<lparr>c_hdr := sh_live m, c_pc := BgFilled\<rparr>) s
        | BgFilled \<Rightarrow> set_conn c (k\<lparr>c_pc := if sh_nBackfill m = hd_mxFrame (c_hdr k) then BgLock0 else BgScan 1 0 0\<rparr>) s
        | BgLock0 \<Rightarrow> set_conn c (k\<lparr>c_pc := if can_share s c (WAL_READ_LOCK 0) then BgCheck0 else BgScan 1 0 0\<rparr>) s
        | BgCheck0 \<Rightarrow> set_conn c (if sh_live m \<noteq> c_hdr k then begin_retry k else begin_reading m 0 k) s
        | BgScan i mxI mxReadMark \<Rightarrow>
            (if i < WAL_NREADER then
               (let thisMark = sh_marks m ! i
                in if mxReadMark \<le> thisMark \<and> thisMark \<le> hd_mxFrame (c_hdr k)
                   then set_conn c (k\<lparr>c_pc := BgScan (i + 1) i thisMark\<rparr>) s
                   else set_conn c (k\<lparr>c_pc := BgScan (i + 1) mxI mxReadMark\<rparr>) s)
             else if mxReadMark < hd_mxFrame (c_hdr k) \<or> mxI = 0 then set_conn c (k\<lparr>c_pc := BgClaim 1 mxI mxReadMark\<rparr>) s
             else set_conn c (k\<lparr>c_pc := BgLock mxI mxReadMark\<rparr>) s)
        | BgClaim i mxI mxReadMark \<Rightarrow>
            (if i < WAL_NREADER then
               if can_excl s c {WAL_READ_LOCK i} then set_conn c (k\<lparr>c_pc := BgStore i\<rparr>) s
               else set_conn c (k\<lparr>c_pc := BgClaim (i + 1) mxI mxReadMark\<rparr>) s
             else if mxI = 0 then set_conn c (begin_retry k) s
             else set_conn c (k\<lparr>c_pc := BgLock mxI mxReadMark\<rparr>) s)
        | BgStore i \<Rightarrow> set_both c (k\<lparr>c_pc := BgRelease i\<rparr>) (m\<lparr>sh_marks := (sh_marks m)[i := hd_mxFrame (c_hdr k)]\<rparr>) s
        | BgRelease i \<Rightarrow> set_conn c (k\<lparr>c_pc := BgLock i (hd_mxFrame (c_hdr k))\<rparr>) s
        | BgLock mxI mxReadMark \<Rightarrow>
            set_conn c (if can_share s c (WAL_READ_LOCK mxI) then k\<lparr>c_pc := BgMin mxI mxReadMark\<rparr> else begin_retry k) s
        | BgMin mxI mxReadMark \<Rightarrow> set_conn c (k\<lparr>c_minFrame := sh_nBackfill m + 1, c_pc := BgMark mxI mxReadMark\<rparr>) s
        | BgMark mxI mxReadMark \<Rightarrow>
            set_conn c (if sh_marks m ! mxI \<noteq> mxReadMark then begin_retry k else k\<lparr>c_pc := BgLive mxI mxReadMark\<rparr>) s
        | BgLive mxI mxReadMark \<Rightarrow> set_conn c (if sh_live m \<noteq> c_hdr k then begin_retry k else begin_reading m mxI k) s
        | _ \<Rightarrow> s)"

text \<open>What a reader sees of a page: \<open>walFindFrame\<close> looks from \<open>minFrame\<close> to \<open>mxFrame\<close>, not at all in slot 0.\<close>

definition read_page :: "'a wal_shared \<Rightarrow> 'a wal_conn \<Rightarrow> nat \<Rightarrow> 'a" where
  "read_page m k p =
    (let f = (if c_readLock k = Some 0 then 0
              else last_hit (in_log (map fst (sh_log m)) p (c_minFrame k)) (hd_mxFrame (c_hdr k)))
     in if f = 0 then sh_db m p else snd (sh_log m ! (f - 1)))"

section \<open>Writing\<close>

text \<open>Another connection may have committed since the snapshot was taken: then there is no write lock to be had.\<close>

definition walBeginWrite :: "nat \<Rightarrow> 'a wal_system \<Rightarrow> 'a wal_system" where
  "walBeginWrite c s =
    (let k = conn_at s c
     in case c_pc k of
          Reading \<Rightarrow> if \<not> c_writeLock k \<and> can_excl s c {WAL_WRITE_LOCK} then set_conn c (k\<lparr>c_writeLock := True, c_pc := WrCheck\<rparr>) s else s
        | WrCheck \<Rightarrow> set_conn c (k\<lparr>c_writeLock := (sh_live (shared s) = c_hdr k), c_pc := Reading\<rparr>) s
        | _ \<Rightarrow> s)"

text \<open>The restart of the log, by a writer in slot 0 or by a checkpoint; the latter also empties the file.\<close>

definition restarted :: "wal_head \<Rightarrow> wal_head" where
  "restarted h = h\<lparr>hd_salt := hd_salt h + 1, hd_mxFrame := 0\<rparr>"

definition walRestart :: "nat \<Rightarrow> 'a wal_system \<Rightarrow> 'a wal_system" where
  "walRestart c s =
    (let k = conn_at s c; m = shared s
     in case c_pc k of
          RsLock \<Rightarrow>
            if sh_nBackfill m > 0 \<and> can_excl s c WAL_READERS then set_conn c (k\<lparr>c_pc := RsHdr\<rparr>) s
            else set_conn c (k\<lparr>c_readLock := None, c_pc := BgScan 1 0 0\<rparr>) s
        | RsHdr \<Rightarrow>
            (let h = restarted (c_hdr k)
             in set_both c (k\<lparr>c_hdr := h, c_pc := RsFilled\<rparr>) (m\<lparr>sh_live := h, sh_commits := [h], sh_base := sh_db m\<rparr>) s)
        | RsFilled \<Rightarrow> set_both c (k\<lparr>c_pc := RsMarks\<rparr>) (m\<lparr>sh_nBackfill := 0\<rparr>) s
        | RsMarks \<Rightarrow>
            set_both c (k\<lparr>c_pc := if c_ckptLock k then RsLog else RsRelease\<rparr>)
              (m\<lparr>sh_marks := sh_marks m ! 0 # 0 # replicate (WAL_NREADER - 2) READMARK_NOT_USED\<rparr>) s
        | RsLog \<Rightarrow> set_both c (k\<lparr>c_pc := RsRelease\<rparr>) (m\<lparr>sh_log := []\<rparr>) s
        | RsRelease \<Rightarrow>
            if c_ckptLock k then set_conn c (k\<lparr>c_pc := Idle, c_writeLock := False, c_ckptLock := False\<rparr>) s
            else set_conn c (k\<lparr>c_readLock := None, c_pc := BgScan 1 0 0\<rparr>) s
        | _ \<Rightarrow> s)"

definition can_write :: "'a wal_conn \<Rightarrow> bool" where
  "can_write k = (c_pc k = Reading \<and> c_writeLock k \<and> c_readLock k \<noteq> Some 0)"

text \<open>A frame is appended, or one of the same transaction for the same page is written again (\<open>iReCksum\<close>).\<close>

definition write_frame :: "nat \<Rightarrow> nat \<Rightarrow> 'a \<Rightarrow> 'a wal_system \<Rightarrow> 'a wal_system" where
  "write_frame c p x s =
    (let k = conn_at s c; m = shared s; n = hd_mxFrame (c_hdr k)
     in if can_write k
        then set_both c (k\<lparr>c_hdr := (c_hdr k)\<lparr>hd_mxFrame := n + 1\<rparr>\<rparr>) (m\<lparr>sh_log := take n (sh_log m) @ (p, x) # drop (n + 1) (sh_log m)\<rparr>) s
        else s)"

definition rewrite_frame :: "nat \<Rightarrow> nat \<Rightarrow> 'a \<Rightarrow> 'a wal_system \<Rightarrow> 'a wal_system" where
  "rewrite_frame c i x s =
    (let k = conn_at s c; m = shared s
     in if can_write k \<and> hd_mxFrame (sh_live m) < i \<and> i \<le> hd_mxFrame (c_hdr k)
        then set_both c k (m\<lparr>sh_log := (sh_log m)[i - 1 := (fst (sh_log m ! (i - 1)), x)]\<rparr>) s else s)"

text \<open>What the frames after number \<open>b\<close> define.\<close>

definition last_frame :: "(nat \<times> 'a) list \<Rightarrow> nat \<Rightarrow> nat \<Rightarrow> nat \<Rightarrow> nat" where
  "last_frame fs p b n = last_hit (in_log (map fst fs) p (b + 1)) n"

definition over :: "(nat \<times> 'a) list \<Rightarrow> nat \<Rightarrow> nat \<Rightarrow> (nat \<Rightarrow> 'a) \<Rightarrow> nat \<Rightarrow> 'a" where
  "over fs b n f p = (let i = last_frame fs p b n in if i = 0 then f p else snd (fs ! (i - 1)))"

text \<open>The pager writes every page that the database grows by; a commit has at least one frame.\<close>

definition may_commit :: "'a wal_shared \<Rightarrow> 'a wal_conn \<Rightarrow> nat \<Rightarrow> bool" where
  "may_commit m k n = (can_write k \<and> hd_mxFrame (sh_live m) < hd_mxFrame (c_hdr k)
    \<and> (\<forall>p \<le> n. hd_nPage (sh_live m) < p \<longrightarrow> last_frame (sh_log m) p (hd_mxFrame (sh_live m)) (hd_mxFrame (c_hdr k)) \<noteq> 0))"

definition commit :: "nat \<Rightarrow> nat \<Rightarrow> 'a wal_system \<Rightarrow> 'a wal_system" where
  "commit c n s =
    (let k = conn_at s c; m = shared s; h = (c_hdr k)\<lparr>hd_nPage := n\<rparr>;
         t = over (sh_log m) (hd_mxFrame (sh_live m)) (hd_mxFrame h) (sh_truth m)
     in if may_commit m k n
        then set_both c (k\<lparr>c_hdr := h, c_start := h, c_snap := t\<rparr>) (m\<lparr>sh_live := h, sh_commits := sh_commits m @ [h], sh_truth := t\<rparr>) s
        else s)"

definition rollback :: "nat \<Rightarrow> 'a wal_system \<Rightarrow> 'a wal_system" where
  "rollback c s =
    (let k = conn_at s c in if c_pc k = Reading \<and> c_writeLock k then set_conn c (k\<lparr>c_hdr := sh_live (shared s)\<rparr>) s else s)"

definition end_write :: "nat \<Rightarrow> 'a wal_system \<Rightarrow> 'a wal_system" where
  "end_write c s =
    (let k = conn_at s c
     in if c_pc k = Reading \<and> c_writeLock k \<and> c_hdr k = sh_live (shared s) then set_conn c (k\<lparr>c_writeLock := False\<rparr>) s else s)"

text \<open>Leaving in any state releases all locks: the end of a transaction, a failure, the death of the process.\<close>

definition leave :: "'a wal_conn \<Rightarrow> 'a wal_conn" where
  "leave k = k\<lparr>c_pc := Idle, c_readLock := None, c_writeLock := False, c_ckptLock := False\<rparr>"

section \<open>Checkpoints\<close>

text \<open>The pages of the iterator, each with its last frame: the tables are looked at from that of the first frame on.\<close>

definition iter_start :: "nat \<Rightarrow> nat" where
  "iter_start b = page_zero (walFramePage (b + 1))"

definition iter_pages :: "(nat \<times> 'a) list \<Rightarrow> nat \<Rightarrow> nat \<Rightarrow> (nat \<times> nat) list" where
  "iter_pages fs b n =
    map (\<lambda>p. (p, last_frame fs p (iter_start b) n)) (sort (remdups (map fst (drop (iter_start b) (take n fs)))))"

text \<open>
  \<open>CkWrite\<close> and \<open>CkHdr\<close> are in \<open>sqlite3WalCheckpoint\<close>: without the lock of the writer every mode goes on as passive.  The
  lock of a mark may be busy: then the frames behind the mark stay.  One page is copied at a time, the file is
  cut to its size, the counter is stored, each in a step of its own.  A page past the end of the file reads as zero.
\<close>

definition walCheckpointStep :: "nat \<Rightarrow> ('a :: zero) wal_system \<Rightarrow> 'a wal_system" where
  "walCheckpointStep c s =
    (let k = conn_at s c; m = shared s
     in case c_pc k of
          CkWrite \<Rightarrow>
            set_conn c (if c_mode k = CHECKPOINT_PASSIVE then k\<lparr>c_pc := CkHdr\<rparr>
                        else if can_excl s c {WAL_WRITE_LOCK} then k\<lparr>c_writeLock := True, c_pc := CkHdr\<rparr>
                        else k\<lparr>c_mode := CHECKPOINT_PASSIVE, c_pc := CkHdr\<rparr>) s
        | CkHdr \<Rightarrow> set_conn c (k\<lparr>c_hdr := sh_live m, c_pc := CkTest\<rparr>) s
        | CkTest \<Rightarrow>
            set_conn c (if sh_nBackfill m < hd_mxFrame (c_hdr k) then k\<lparr>c_mxSafe := hd_mxFrame (c_hdr k), c_pc := CkScan 1\<rparr>
                        else k\<lparr>c_pc := CkMode\<rparr>) s
        | CkScan i \<Rightarrow>
            (if i < WAL_NREADER then
               (let y = sh_marks m ! i
                in set_conn c (if c_mxSafe k > y then k\<lparr>c_pc := CkTry i y\<rparr> else k\<lparr>c_pc := CkScan (i + 1)\<rparr>) s)
             else set_conn c (if sh_nBackfill m < c_mxSafe k then k\<lparr>c_pc := CkIter\<rparr> else k\<lparr>c_pc := CkMode\<rparr>) s)
        | CkTry i y \<Rightarrow>
            set_conn c (if can_excl s c {WAL_READ_LOCK i} then k\<lparr>c_pc := CkMark i\<rparr> else k\<lparr>c_mxSafe := y, c_pc := CkScan (i + 1)\<rparr>) s
        | CkMark i \<Rightarrow>
            set_both c (k\<lparr>c_pc := CkRelease i\<rparr>) (m\<lparr>sh_marks := (sh_marks m)[i := if i = 1 then c_mxSafe k else READMARK_NOT_USED]\<rparr>) s
        | CkRelease i \<Rightarrow> set_conn c (k\<lparr>c_pc := CkScan (i + 1)\<rparr>) s
        | CkIter \<Rightarrow> set_conn c (k\<lparr>c_todo := iter_pages (sh_log m) (sh_nBackfill m) (hd_mxFrame (c_hdr k)), c_pc := CkLock0\<rparr>) s
        | CkLock0 \<Rightarrow> set_conn c (if can_excl s c {WAL_READ_LOCK 0} then k\<lparr>c_pc := CkSalt\<rparr> else k\<lparr>c_pc := CkMode\<rparr>) s
        | CkSalt \<Rightarrow>
            set_conn c (if hd_salt (sh_live m) \<noteq> hd_salt (c_hdr k) then k\<lparr>c_pc := CkFree0\<rparr>
                        else k\<lparr>c_nBackfill := sh_nBackfill m, c_pc := CkCopy\<rparr>) s
        | CkCopy \<Rightarrow>
            (case c_todo k of
               [] \<Rightarrow> set_conn c (k\<lparr>c_pc := CkSize\<rparr>) s
             | (p, f) # todo \<Rightarrow>
                 if f \<le> c_nBackfill k \<or> f > c_mxSafe k \<or> p > hd_nPage (c_hdr k) then set_conn c (k\<lparr>c_todo := todo\<rparr>) s
                 else set_both c (k\<lparr>c_todo := todo\<rparr>) (m\<lparr>sh_db := (sh_db m)(p := snd (sh_log m ! (f - 1)))\<rparr>) s)
        | CkSize \<Rightarrow> set_conn c (k\<lparr>c_pc := if c_mxSafe k = hd_mxFrame (sh_live m) then CkTrunc else CkFill\<rparr>) s
        | CkTrunc \<Rightarrow>
            set_both c (k\<lparr>c_pc := CkFill\<rparr>) (m\<lparr>sh_db := (\<lambda>p. if p \<le> hd_nPage (c_hdr k) then sh_db m p else 0)\<rparr>) s
        | CkFill \<Rightarrow> set_both c (k\<lparr>c_pc := CkFree0\<rparr>) (m\<lparr>sh_nBackfill := c_mxSafe k\<rparr>) s
        | CkFree0 \<Rightarrow> set_conn c (k\<lparr>c_pc := CkMode\<rparr>) s
        | CkMode \<Rightarrow>
            set_conn c (if c_mode k = CHECKPOINT_TRUNCATE \<and> hd_mxFrame (c_hdr k) \<le> sh_nBackfill m \<and> can_excl s c WAL_READERS
                        then k\<lparr>c_pc := RsHdr\<rparr> else leave k) s
        | _ \<Rightarrow> s)"

section \<open>The system\<close>

definition start_read :: "nat \<Rightarrow> 'a wal_system \<Rightarrow> 'a wal_system" where
  "start_read c s = (let k = conn_at s c in if c_pc k = Idle then set_conn c (k\<lparr>c_pc := BgHdr\<rparr>) s else s)"

definition start_checkpoint :: "nat \<Rightarrow> ckpt_mode \<Rightarrow> 'a wal_system \<Rightarrow> 'a wal_system" where
  "start_checkpoint c mode s =
    (let k = conn_at s c
     in if c_pc k = Idle \<and> can_excl s c {WAL_CKPT_LOCK} then set_conn c (k\<lparr>c_ckptLock := True, c_mode := mode, c_pc := CkWrite\<rparr>) s else s)"

definition start_restart :: "nat \<Rightarrow> 'a wal_system \<Rightarrow> 'a wal_system" where
  "start_restart c s =
    (let k = conn_at s c
     in if c_pc k = Reading \<and> c_writeLock k \<and> c_readLock k = Some 0 then set_conn c (k\<lparr>c_pc := RsLock\<rparr>) s else s)"

text \<open>
  A process may die at any point but one: between the new header of a restart and the counter of the frames that
  are in the database.
\<close>

inductive wal_step :: "('a :: zero) wal_system \<Rightarrow> 'a wal_system \<Rightarrow> bool" where
  start_read: "c < length (conns s) \<Longrightarrow> wal_step s (start_read c s)"
| begin_read: "c < length (conns s) \<Longrightarrow> wal_step s (walTryBeginRead c s)"
| begin_write: "c < length (conns s) \<Longrightarrow> wal_step s (walBeginWrite c s)"
| start_restart: "c < length (conns s) \<Longrightarrow> wal_step s (start_restart c s)"
| restart: "c < length (conns s) \<Longrightarrow> wal_step s (walRestart c s)"
| append: "c < length (conns s) \<Longrightarrow> wal_step s (write_frame c p x s)"
| rewrite: "c < length (conns s) \<Longrightarrow> wal_step s (rewrite_frame c i x s)"
| commit: "c < length (conns s) \<Longrightarrow> wal_step s (commit c n s)"
| rollback: "c < length (conns s) \<Longrightarrow> wal_step s (rollback c s)"
| end_write: "c < length (conns s) \<Longrightarrow> wal_step s (end_write c s)"
| start_checkpoint: "c < length (conns s) \<Longrightarrow> wal_step s (start_checkpoint c mode s)"
| checkpoint: "c < length (conns s) \<Longrightarrow> wal_step s (walCheckpointStep c s)"
| leave: "c < length (conns s) \<Longrightarrow> c_pc (conn_at s c) \<noteq> RsFilled \<Longrightarrow> wal_step s (set_conn c (leave (conn_at s c)) s)"

text \<open>A database with an empty log.\<close>

definition new_conn :: "'a wal_conn" where
  "new_conn = \<lparr>c_pc = Idle, c_hdr = \<lparr>hd_salt = 0, hd_mxFrame = 0, hd_nPage = 0\<rparr>, c_minFrame = 0, c_readLock = None,
     c_writeLock = False, c_ckptLock = False, c_mode = CHECKPOINT_PASSIVE, c_mxSafe = 0, c_nBackfill = 0, c_todo = [],
     c_start = \<lparr>hd_salt = 0, hd_mxFrame = 0, hd_nPage = 0\<rparr>, c_snap = (\<lambda>_. undefined)\<rparr>"

definition new_system :: "nat \<Rightarrow> nat \<Rightarrow> (nat \<Rightarrow> 'a) \<Rightarrow> 'a wal_system" where
  "new_system conn_count n pages =
    (let h = \<lparr>hd_salt = 1, hd_mxFrame = 0, hd_nPage = n\<rparr>
     in \<lparr>shared = \<lparr>sh_live = h, sh_nBackfill = 0, sh_marks = [0, READMARK_NOT_USED, READMARK_NOT_USED, READMARK_NOT_USED, READMARK_NOT_USED],
           sh_log = [], sh_db = pages, sh_commits = [h], sh_base = pages, sh_truth = pages\<rparr>,
         conns = replicate conn_count new_conn\<rparr>)"

inductive wal_reachable :: "('a :: zero) wal_system \<Rightarrow> bool" where
  new: "wal_reachable (new_system k n pages)"
| step: "wal_reachable s \<Longrightarrow> wal_step s s' \<Longrightarrow> wal_reachable s'"

end
