(* ===== verification/WalProtocolInv.thy ===== *)
theory WalProtocolInv
  imports WalProtocol
begin

text \<open>
  The invariant of the protocol: what holds of the shared state, of each connection where it is, and of each pair.
\<close>

section \<open>Frames of a page\<close>

lemma in_log_map [simp]: "i - 1 < length fs \<Longrightarrow> in_log (map fst fs) p b i = (b \<le> i \<and> fst (fs ! (i - 1)) = p)"
  by (simp add: in_log_def)

lemma last_frame_le: "last_frame fs p b n \<le> n"
  by (simp add: last_frame_def last_hit_le)

lemma last_frame_hit: "last_frame fs p b n \<noteq> 0 \<Longrightarrow> b < last_frame fs p b n"
  using last_hit_hit [of "in_log (map fst fs) p (b + 1)" n] by (simp add: last_frame_def in_log_def)

lemma last_frame_page: "last_frame fs p b n \<noteq> 0 \<Longrightarrow> n \<le> length fs \<Longrightarrow> fst (fs ! (last_frame fs p b n - 1)) = p"
  using last_hit_hit [of "in_log (map fst fs) p (b + 1)" n] last_hit_le [of "in_log (map fst fs) p (b + 1)" n]
  by (auto simp: last_frame_def in_log_def)

lemma last_frame_newest: "fst (fs ! (i - 1)) = p \<Longrightarrow> b < i \<Longrightarrow> i \<le> n \<Longrightarrow> n \<le> length fs \<Longrightarrow> i \<le> last_frame fs p b n"
  unfolding last_frame_def by (rule last_hit_newest) (auto simp: in_log_def)

lemma last_frame_cong:
  assumes "\<And>i. i < n \<Longrightarrow> fst (fs ! i) = fst (fs' ! i)" "n \<le> length fs" "n \<le> length fs'"
  shows "last_frame fs p b n = last_frame fs' p b n"
  unfolding last_frame_def by (rule last_hit_cong) (use assms in \<open>auto simp: in_log_def\<close>)

text \<open>The last frame after \<open>b\<close> is the last frame of all, if that is after \<open>b\<close>.\<close>

lemma last_frame_cut:
  assumes "n \<le> length fs"
  shows "last_frame fs p b n = (if b < last_frame fs p 0 n then last_frame fs p 0 n else 0)"
proof (cases "last_frame fs p b n = 0")
  case True
  have "\<not> b < last_frame fs p 0 n"
  proof
    assume "b < last_frame fs p 0 n"
    then have "last_frame fs p 0 n \<le> last_frame fs p b n"
      using last_frame_page [of fs p 0 n] last_frame_le [of fs p 0 n] assms by (intro last_frame_newest) auto
    then show False using True \<open>b < last_frame fs p 0 n\<close> by simp
  qed
  then show ?thesis using True by simp
next
  case False
  let ?i = "last_frame fs p b n"
  have i: "b < ?i" "fst (fs ! (?i - 1)) = p" "?i \<le> n"
    using False last_frame_hit [of fs p b n] last_frame_page [of fs p b n] last_frame_le [of fs p b n] assms by auto
  then have ge: "?i \<le> last_frame fs p 0 n" by (intro last_frame_newest) (use assms in auto)
  then have "last_frame fs p 0 n \<le> ?i"
    using i last_frame_page [of fs p 0 n] last_frame_le [of fs p 0 n] assms by (intro last_frame_newest) auto
  then show ?thesis using i ge by simp
qed

lemma last_frame_more:
  assumes "m \<le> n" "n \<le> length fs"
  shows "last_frame fs p 0 m \<le> last_frame fs p 0 n"
    and "last_frame fs p 0 n \<le> m \<Longrightarrow> last_frame fs p 0 n = last_frame fs p 0 m"
proof -
  show le: "last_frame fs p 0 m \<le> last_frame fs p 0 n"
  proof (cases "last_frame fs p 0 m = 0")
    case False
    then show ?thesis
      using assms last_frame_page [of fs p 0 m] last_frame_le [of fs p 0 m] by (intro last_frame_newest) auto
  qed simp
  assume a: "last_frame fs p 0 n \<le> m"
  show "last_frame fs p 0 n = last_frame fs p 0 m"
  proof (cases "last_frame fs p 0 n = 0")
    case True
    then show ?thesis using le by simp
  next
    case False
    then have "last_frame fs p 0 n \<le> last_frame fs p 0 m"
      using a assms last_frame_page [of fs p 0 n] by (intro last_frame_newest) auto
    then show ?thesis using le by simp
  qed
qed

lemma over_cut: "n \<le> length fs \<Longrightarrow> last_frame fs p 0 n \<le> b \<Longrightarrow> over fs b n f p = f p"
  by (simp add: over_def last_frame_cut [of n fs p b])

section \<open>The invariant\<close>

text \<open>The database of a header of the log.\<close>

definition view :: "'a wal_shared \<Rightarrow> wal_head \<Rightarrow> nat \<Rightarrow> 'a" where
  "view m h = over (sh_log m) 0 (hd_mxFrame h) (sh_base m)"

definition last_of :: "'a wal_shared \<Rightarrow> nat \<Rightarrow> wal_head \<Rightarrow> nat" where
  "last_of m p h = last_frame (sh_log m) p 0 (hd_mxFrame h)"

text \<open>From one commit to a later one.\<close>

definition leads :: "'a wal_shared \<Rightarrow> wal_head \<Rightarrow> wal_head \<Rightarrow> bool" where
  "leads m h h' = (hd_salt h = hd_salt h' \<and> hd_mxFrame h < hd_mxFrame h'
    \<and> (\<forall>p. hd_nPage h < p \<longrightarrow> p \<le> hd_nPage h' \<longrightarrow> hd_mxFrame h < last_of m p h'))"

definition shared_ok :: "'a wal_shared \<Rightarrow> bool" where
  "shared_ok m = (length (sh_marks m) = 5 \<and> sh_commits m \<noteq> [] \<and> last (sh_commits m) = sh_live m
    \<and> sorted_wrt (leads m) (sh_commits m) \<and> hd_mxFrame (sh_live m) \<le> length (sh_log m)
    \<and> (\<forall>p \<le> hd_nPage (sh_live m). view m (sh_live m) p = sh_truth m p)
    \<and> (\<forall>p \<le> hd_nPage (sh_live m). last_of m p (sh_live m) \<le> sh_nBackfill m \<longrightarrow> sh_db m p = view m (sh_live m) p))"

definition past :: "'a wal_shared \<Rightarrow> wal_head \<Rightarrow> bool" where
  "past m h = (hd_salt h < hd_salt (sh_live m) \<or> h \<in> set (sh_commits m))"

text \<open>Which locks and transactions go with a place.\<close>

definition place_ok :: "'a wal_conn \<Rightarrow> bool" where
  "place_ok k =
    (let r = c_readLock k; w = c_writeLock k; ck = c_ckptLock k; held = (c_mode k = CHECKPOINT_TRUNCATE \<longrightarrow> w)
     in case c_pc k of
          Idle \<Rightarrow> r = None \<and> \<not> w \<and> \<not> ck
        | BgHdr \<Rightarrow> r = None \<and> \<not> w \<and> \<not> ck | BgFilled \<Rightarrow> r = None \<and> \<not> w \<and> \<not> ck
        | BgLock0 \<Rightarrow> r = None \<and> \<not> w \<and> \<not> ck | BgCheck0 \<Rightarrow> r = None \<and> \<not> w \<and> \<not> ck
        | BgScan i j y \<Rightarrow> r = None \<and> \<not> ck \<and> 1 \<le> i \<and> j < 5 \<and> (j \<noteq> 0 \<longrightarrow> y \<le> hd_mxFrame (c_hdr k))
        | BgClaim i j y \<Rightarrow> r = None \<and> \<not> ck \<and> 1 \<le> i \<and> j < 5 \<and> (j \<noteq> 0 \<longrightarrow> y \<le> hd_mxFrame (c_hdr k))
        | BgStore i \<Rightarrow> r = None \<and> \<not> ck \<and> 1 \<le> i \<and> i < 5 | BgRelease i \<Rightarrow> r = None \<and> \<not> ck \<and> 1 \<le> i \<and> i < 5
        | BgLock i y \<Rightarrow> r = None \<and> \<not> ck \<and> 1 \<le> i \<and> i < 5 \<and> y \<le> hd_mxFrame (c_hdr k)
        | BgMin i y \<Rightarrow> r = None \<and> \<not> ck \<and> 1 \<le> i \<and> i < 5 \<and> y \<le> hd_mxFrame (c_hdr k)
        | BgMark i y \<Rightarrow> r = None \<and> \<not> ck \<and> 1 \<le> i \<and> i < 5 \<and> y \<le> hd_mxFrame (c_hdr k)
        | BgLive i y \<Rightarrow> r = None \<and> \<not> ck \<and> 1 \<le> i \<and> i < 5 \<and> y \<le> hd_mxFrame (c_hdr k)
        | Reading \<Rightarrow> r \<noteq> None \<and> \<not> ck | WrCheck \<Rightarrow> r \<noteq> None \<and> w \<and> \<not> ck
        | RsLock \<Rightarrow> r = Some 0 \<and> w \<and> \<not> ck
        | RsHdr \<Rightarrow> w \<and> (if ck then r = None else r = Some 0) | RsFilled \<Rightarrow> w \<and> (if ck then r = None else r = Some 0)
        | RsMarks \<Rightarrow> w \<and> (if ck then r = None else r = Some 0) | RsLog \<Rightarrow> w \<and> (if ck then r = None else r = Some 0)
        | RsRelease \<Rightarrow> w \<and> (if ck then r = None else r = Some 0)
        | CkWrite \<Rightarrow> r = None \<and> ck \<and> \<not> w
        | CkScan i \<Rightarrow> r = None \<and> ck \<and> 1 \<le> i \<and> held | CkTry i y \<Rightarrow> r = None \<and> ck \<and> 1 \<le> i \<and> i < 5 \<and> held
        | CkMark i \<Rightarrow> r = None \<and> ck \<and> 1 \<le> i \<and> i < 5 \<and> held | CkRelease i \<Rightarrow> r = None \<and> ck \<and> 1 \<le> i \<and> i < 5 \<and> held
        | _ \<Rightarrow> r = None \<and> ck \<and> held)"


text \<open>The header it holds and what follows from where it is.\<close>

definition head_ok :: "'a wal_shared \<Rightarrow> 'a wal_conn \<Rightarrow> bool" where
  "head_ok m k =
    (let h = c_hdr k; live = sh_live m; filled = sh_nBackfill m; w = c_writeLock k;
         known = past m h \<and> (w \<longrightarrow> h = live)
     in case c_pc k of
          Idle \<Rightarrow> True | BgHdr \<Rightarrow> True | CkWrite \<Rightarrow> True | CkHdr \<Rightarrow> True
        | Reading \<Rightarrow>
            if w then c_start k = live \<and> hd_salt h = hd_salt live \<and> hd_mxFrame live \<le> hd_mxFrame h
                    \<and> hd_mxFrame h \<le> length (sh_log m) \<and> hd_nPage h = hd_nPage live
                    \<and> (c_readLock k = Some 0 \<longrightarrow> h = live)
            else h = c_start k
        | WrCheck \<Rightarrow> h = c_start k
        | RsLock \<Rightarrow> h = live \<and> c_start k = live
        | RsHdr \<Rightarrow> h = live \<and> hd_mxFrame live \<le> filled
        | RsFilled \<Rightarrow> h = live \<and> hd_mxFrame live = 0
        | RsMarks \<Rightarrow> h = live \<and> hd_mxFrame live = 0 \<and> filled = 0
        | RsLog \<Rightarrow> h = live \<and> hd_mxFrame live = 0 \<and> filled = 0
        | RsRelease \<Rightarrow> h = live \<and> hd_mxFrame live = 0 \<and> filled = 0
        | BgLock0 \<Rightarrow> known \<and> (h = live \<longrightarrow> filled = hd_mxFrame live)
        | BgCheck0 \<Rightarrow> known \<and> (h = live \<longrightarrow> filled = hd_mxFrame live)
        | BgMark i y \<Rightarrow> known \<and> 1 \<le> c_minFrame k \<and> c_minFrame k - 1 \<le> filled
        | BgLive i y \<Rightarrow> known \<and> 1 \<le> c_minFrame k \<and> c_minFrame k - 1 \<le> filled \<and> sh_marks m ! i = y
        | _ \<Rightarrow> known)"

text \<open>A reader: what it finds is its snapshot, in the log or in the database.\<close>

definition read_ok :: "'a wal_shared \<Rightarrow> 'a wal_conn \<Rightarrow> bool" where
  "read_ok m k =
    (case c_readLock k of
       None \<Rightarrow> True
     | Some i \<Rightarrow>
         i < 5 \<and> past m (c_start k) \<and>
         (if i = 0 then
            (\<forall>p \<le> hd_nPage (c_start k). sh_db m p = c_snap k p) \<and> (c_start k = sh_live m \<longrightarrow> sh_nBackfill m = hd_mxFrame (sh_live m))
          else c_start k \<in> set (sh_commits m) \<and> sh_marks m ! i \<le> hd_mxFrame (c_start k)
            \<and> 1 \<le> c_minFrame k \<and> c_minFrame k - 1 \<le> sh_nBackfill m
            \<and> (\<forall>p \<le> hd_nPage (c_start k). view m (c_start k) p = c_snap k p)
            \<and> (\<forall>p \<le> hd_nPage (c_start k). last_of m p (c_start k) < c_minFrame k \<longrightarrow> sh_db m p = view m (c_start k) p)))"

text \<open>A checkpoint.  If the log was restarted meanwhile, nothing is known, and the salt will tell.\<close>

definition current :: "'a wal_shared \<Rightarrow> 'a wal_conn \<Rightarrow> bool" where
  "current m k = (hd_salt (c_hdr k) = hd_salt (sh_live m))"

definition todo_ok :: "'a wal_shared \<Rightarrow> 'a wal_conn \<Rightarrow> bool" where
  "todo_ok m k = (\<forall>(p, f) \<in> set (c_todo k). sh_nBackfill m < f \<longrightarrow> f = last_of m p (c_hdr k))"

definition to_copy :: "'a wal_shared \<Rightarrow> 'a wal_conn \<Rightarrow> nat \<Rightarrow> bool" where
  "to_copy m k p = (p \<le> hd_nPage (c_hdr k) \<and> sh_nBackfill m < last_of m p (c_hdr k) \<and> last_of m p (c_hdr k) \<le> c_mxSafe k)"

definition in_db :: "'a wal_shared \<Rightarrow> 'a wal_conn \<Rightarrow> nat \<Rightarrow> bool" where
  "in_db m k p = (sh_db m p = snd (sh_log m ! (last_of m p (c_hdr k) - 1)))"

definition ckpt_ok :: "'a wal_shared \<Rightarrow> 'a wal_conn \<Rightarrow> bool" where
  "ckpt_ok m k =
    (let safe = c_mxSafe k; filled = sh_nBackfill m; cur = current m k;
         bound = (safe \<le> hd_mxFrame (c_hdr k)); work = (bound \<and> (cur \<longrightarrow> filled < safe));
         listed = (todo_ok m k \<and> (\<forall>p. to_copy m k p \<longrightarrow> (p, last_of m p (c_hdr k)) \<in> set (c_todo k)));
         copied = (cur \<and> bound \<and> filled < safe \<and> (\<forall>p. to_copy m k p \<longrightarrow> in_db m k p))
     in case c_pc k of
          CkScan i \<Rightarrow> bound | CkTry i y \<Rightarrow> bound \<and> y < safe | CkMark i \<Rightarrow> bound | CkRelease i \<Rightarrow> bound
        | CkIter \<Rightarrow> work
        | CkLock0 \<Rightarrow> work \<and> (cur \<longrightarrow> listed) | CkSalt \<Rightarrow> work \<and> (cur \<longrightarrow> listed)
        | CkCopy \<Rightarrow> cur \<and> bound \<and> filled < safe \<and> c_nBackfill k = filled \<and> todo_ok m k
            \<and> (\<forall>p. to_copy m k p \<longrightarrow> (p, last_of m p (c_hdr k)) \<in> set (c_todo k) \<or> in_db m k p)
        | CkSize \<Rightarrow> copied | CkTrunc \<Rightarrow> copied \<and> safe = hd_mxFrame (c_hdr k) | CkFill \<Rightarrow> copied
        | _ \<Rightarrow> True)"

definition conn_ok :: "'a wal_shared \<Rightarrow> 'a wal_conn \<Rightarrow> bool" where
  "conn_ok m k = (place_ok k \<and> head_ok m k \<and> read_ok m k \<and> ckpt_ok m k)"

text \<open>Two connections: their locks do not conflict, and a checkpoint stays behind the readers it has met.\<close>

definition compatible :: "'a wal_conn \<Rightarrow> 'a wal_conn \<Rightarrow> bool" where
  "compatible k d = (excl_locks k \<inter> (excl_locks d \<union> shared_locks d) = {})"

definition behind :: "'a wal_conn \<Rightarrow> 'a wal_conn \<Rightarrow> bool" where
  "behind k d =
    (case c_readLock d of
       None \<Rightarrow> True
     | Some j \<Rightarrow> j = 0 \<or>
         (let ok = (c_mxSafe k \<le> hd_mxFrame (c_start d))
          in case c_pc k of
               CkScan i \<Rightarrow> j < i \<longrightarrow> ok | CkMark i \<Rightarrow> j < i \<longrightarrow> ok | CkRelease i \<Rightarrow> j < i \<longrightarrow> ok
             | CkTry i y \<Rightarrow> (j < i \<longrightarrow> ok) \<and> (j = i \<longrightarrow> y \<le> hd_mxFrame (c_start d))
             | CkIter \<Rightarrow> ok | CkLock0 \<Rightarrow> ok | CkSalt \<Rightarrow> ok | CkCopy \<Rightarrow> ok | CkSize \<Rightarrow> ok | CkTrunc \<Rightarrow> ok | CkFill \<Rightarrow> ok
             | _ \<Rightarrow> True))"

definition pair_ok :: "'a wal_shared \<Rightarrow> 'a wal_conn \<Rightarrow> 'a wal_conn \<Rightarrow> bool" where
  "pair_ok m k d = (compatible k d \<and> (current m k \<longrightarrow> behind k d))"

definition wal_inv :: "'a wal_system \<Rightarrow> bool" where
  "wal_inv s =
    (shared_ok (shared s)
     \<and> (\<forall>c < length (conns s). conn_ok (shared s) (conn_at s c))
     \<and> (\<forall>c < length (conns s). \<forall>d < length (conns s). c \<noteq> d \<longrightarrow> pair_ok (shared s) (conn_at s c) (conn_at s d))
     \<and> ((\<forall>c < length (conns s). c_pc (conn_at s c) \<noteq> RsFilled) \<longrightarrow> sh_nBackfill (shared s) \<le> hd_mxFrame (sh_live (shared s))))"

section \<open>Keeping the invariant\<close>

lemma set_conn_simps [simp]:
  "shared (set_conn c k s) = shared s" "length (conns (set_conn c k s)) = length (conns s)"
  "c < length (conns s) \<Longrightarrow> conn_at (set_conn c k s) d = (if d = c then k else conn_at s d)"
  "shared (set_both c k m s) = m" "length (conns (set_both c k m s)) = length (conns s)"
  "c < length (conns s) \<Longrightarrow> conn_at (set_both c k m s) d = (if d = c then k else conn_at s d)"
  by (simp_all add: set_conn_def set_both_def conn_at_def)

lemma inv_both:
  assumes "c < length (conns s)" "shared_ok m" "conn_ok m k"
    and "\<And>d. d < length (conns s) \<Longrightarrow> d \<noteq> c \<Longrightarrow> conn_ok m (conn_at s d)"
    and "\<And>d. d < length (conns s) \<Longrightarrow> d \<noteq> c \<Longrightarrow> pair_ok m k (conn_at s d) \<and> pair_ok m (conn_at s d) k"
    and "\<And>d e. d < length (conns s) \<Longrightarrow> e < length (conns s) \<Longrightarrow> d \<noteq> c \<Longrightarrow> e \<noteq> c \<Longrightarrow> d \<noteq> e \<Longrightarrow> pair_ok m (conn_at s d) (conn_at s e)"
    and "c_pc k \<noteq> RsFilled \<Longrightarrow> (\<And>d. d < length (conns s) \<Longrightarrow> d \<noteq> c \<Longrightarrow> c_pc (conn_at s d) \<noteq> RsFilled) \<Longrightarrow> sh_nBackfill m \<le> hd_mxFrame (sh_live m)"
  shows "wal_inv (set_both c k m s)"
  unfolding wal_inv_def set_conn_simps set_conn_simps(6) [OF assms(1)] using assms by (auto split: if_splits)

lemma inv_local:
  assumes "wal_inv s" "c < length (conns s)" "conn_ok (shared s) k" "c_pc (conn_at s c) \<noteq> RsFilled" 
    and "\<And>d. d < length (conns s) \<Longrightarrow> d \<noteq> c \<Longrightarrow> pair_ok (shared s) k (conn_at s d) \<and> pair_ok (shared s) (conn_at s d) k"
  shows "wal_inv (set_conn c k s)"
  unfolding wal_inv_def set_conn_simps set_conn_simps(3) [OF assms(2)] using assms unfolding wal_inv_def by (auto split: if_splits)


lemma invD:
  assumes "wal_inv s"
  shows "shared_ok (shared s)" "c < length (conns s) \<Longrightarrow> conn_ok (shared s) (conn_at s c)"
    "c < length (conns s) \<Longrightarrow> d < length (conns s) \<Longrightarrow> c \<noteq> d \<Longrightarrow> pair_ok (shared s) (conn_at s c) (conn_at s d)"
    "(\<And>c. c < length (conns s) \<Longrightarrow> c_pc (conn_at s c) \<noteq> RsFilled) \<Longrightarrow> sh_nBackfill (shared s) \<le> hd_mxFrame (sh_live (shared s))"
  using assms unfolding wal_inv_def by blast+

lemma pair_step:
  assumes "wal_inv s" "c < length (conns s)" "d < length (conns s)" "d \<noteq> c"
    and "excl_locks k \<subseteq> excl_locks (conn_at s c) \<union> X" "shared_locks k \<subseteq> shared_locks (conn_at s c) \<union> Y"
    and "X = {} \<or> can_excl s c X" "\<forall>l \<in> Y. can_share s c l"
    and "current (shared s) k \<Longrightarrow> behind k (conn_at s d)" "current (shared s) (conn_at s d) \<Longrightarrow> behind (conn_at s d) k"
  shows "pair_ok (shared s) k (conn_at s d) \<and> pair_ok (shared s) (conn_at s d) k"
proof -
  let ?k = "conn_at s c" and ?d = "conn_at s d"
  have p: "compatible ?k ?d" "compatible ?d ?k" using invD(3) [OF assms(1)] assms(2-4) by (auto simp: pair_ok_def)
  have "X \<inter> (excl_locks ?d \<union> shared_locks ?d) = {}" using assms(3,4,7) by (auto simp: can_excl_def)
  moreover have "Y \<inter> excl_locks ?d = {}" using assms(3,4,8) by (auto simp: can_share_def)
  ultimately have "compatible k ?d" "compatible ?d k" using p assms(5,6) unfolding compatible_def by blast+
  then show ?thesis using assms(9,10) by (simp add: pair_ok_def)
qed

lemma commits_le:
  assumes "shared_ok m" "h \<in> set (sh_commits m)"
  shows "h = sh_live m \<or> leads m h (sh_live m)"
proof -
  obtain xs where xs: "sh_commits m = xs @ [sh_live m]"
    using assms(1) by (metis shared_ok_def append_butlast_last_id)
  then show ?thesis using assms by (auto simp: shared_ok_def sorted_wrt_append)
qed

lemma past_current: "past m h \<Longrightarrow> hd_salt h = hd_salt (sh_live m) \<Longrightarrow> h \<in> set (sh_commits m)"
  by (simp add: past_def)

lemma past_mx: "shared_ok m \<Longrightarrow> past m h \<Longrightarrow> hd_salt h = hd_salt (sh_live m) \<Longrightarrow> hd_mxFrame h \<le> hd_mxFrame (sh_live m)"
  using commits_le [of m h] past_current [of m h] by (auto simp: leads_def)

lemma past_live [simp]: "shared_ok m \<Longrightarrow> past m (sh_live m)"
  by (metis past_def shared_ok_def last_in_set)

text \<open>A checkpoint is behind a reader that begins.\<close>

lemma behind_new:
  assumes "shared_ok m" "conn_ok m d" "current m d" "c_start k = sh_live m"
  shows "behind d k"
proof -
  have h: "hd_mxFrame (c_hdr d) \<le> hd_mxFrame (sh_live m)" if "past m (c_hdr d)"
    using past_mx [OF assms(1) that] assms(3) by (simp add: current_def)
  show ?thesis
    using assms(2,4) h unfolding behind_def conn_ok_def ckpt_ok_def head_ok_def Let_def
    by (cases "c_pc d") (auto split: option.splits)
qed

lemma live_in [simp]: "shared_ok m \<Longrightarrow> sh_live m \<in> set (sh_commits m)"
  by (metis shared_ok_def last_in_set)

text \<open>The places where a checkpoint has looked at marks.\<close>

definition scanning :: "wal_pc \<Rightarrow> bool" where
  "scanning a = (case a of CkScan i \<Rightarrow> True | CkTry i y \<Rightarrow> True | CkMark i \<Rightarrow> True | CkRelease i \<Rightarrow> True | CkIter \<Rightarrow> True
     | CkLock0 \<Rightarrow> True | CkSalt \<Rightarrow> True | CkCopy \<Rightarrow> True | CkSize \<Rightarrow> True | CkTrunc \<Rightarrow> True | CkFill \<Rightarrow> True | _ \<Rightarrow> False)"

lemma behind_quiet [simp]: "\<not> scanning (c_pc k) \<Longrightarrow> behind k d"
  by (cases "c_pc k") (simp_all add: scanning_def behind_def split: option.splits)

lemma behind_same: "c_readLock k = c_readLock k' \<Longrightarrow> c_start k = c_start k' \<Longrightarrow> behind d k = behind d k'"
  by (cases "c_pc d") (simp_all add: behind_def split: option.splits)

lemma behind_none [simp]: "c_readLock k = None \<Longrightarrow> behind d k"
  by (simp add: behind_def)

section \<open>Beginning to read\<close>

lemmas inv_simps = conn_ok_def place_ok_def head_ok_def read_ok_def ckpt_ok_def Let_def

lemma inv_move:
  assumes "wal_inv s" "c < length (conns s)" "conn_ok (shared s) k" "c_pc (conn_at s c) \<noteq> RsFilled"
    and "\<And>d. d < length (conns s) \<Longrightarrow> d \<noteq> c \<Longrightarrow> current (shared s) k \<Longrightarrow> behind k (conn_at s d)"
    and "excl_locks k \<subseteq> excl_locks (conn_at s c) \<union> X" "shared_locks k \<subseteq> shared_locks (conn_at s c) \<union> Y"
    and "X = {} \<or> can_excl s c X" "\<forall>l \<in> Y. can_share s c l"
    and "c_readLock k = None \<or> c_start k = sh_live (shared s) \<or> c_readLock k = c_readLock (conn_at s c) \<and> c_start k = c_start (conn_at s c)"
  shows "wal_inv (set_conn c k s)"
proof (rule inv_local [OF assms(1-4)])
  fix d assume d: "d < length (conns s)" "d \<noteq> c"
  show "pair_ok (shared s) k (conn_at s d) \<and> pair_ok (shared s) (conn_at s d) k"
  proof (rule pair_step [OF assms(1,2) d assms(6-9)])
    show "current (shared s) k \<Longrightarrow> behind k (conn_at s d)" by (rule assms(5) [OF d])
    assume cur: "current (shared s) (conn_at s d)"
    have old: "behind (conn_at s d) (conn_at s c)" using invD(3) [OF assms(1) d(1) assms(2) d(2)] cur by (simp add: pair_ok_def)
    show "behind (conn_at s d) k"
      using assms(10)
    proof (elim disjE)
      assume "c_start k = sh_live (shared s)"
      then show ?thesis by (rule behind_new [OF invD(1) [OF assms(1)] invD(2) [OF assms(1) d(1)] cur])
    qed (use old behind_same in auto)
  qed
qed

lemma inv_quiet:
  assumes "wal_inv s" "c < length (conns s)" "conn_ok (shared s) k" "c_pc (conn_at s c) \<noteq> RsFilled" "\<not> scanning (c_pc k)"
    and "excl_locks k \<subseteq> excl_locks (conn_at s c) \<union> X" "shared_locks k \<subseteq> shared_locks (conn_at s c) \<union> Y"
    and "X = {} \<or> can_excl s c X" "\<forall>l \<in> Y. can_share s c l"
    and "c_readLock k = None \<or> c_start k = sh_live (shared s) \<or> c_readLock k = c_readLock (conn_at s c) \<and> c_start k = c_start (conn_at s c)"
  shows "wal_inv (set_conn c k s)"
  by (rule inv_move [OF assms(1-4) _ assms(6-10)]) (use assms(5) in simp)

lemma retry_ok:
  assumes "conn_ok m k" "\<exists>i y. c_pc k \<in> {BgCheck0, BgClaim i 0 y, BgLock i y, BgMark i y, BgLive i y}"
  shows "conn_ok m (begin_retry k)"
  using assms by (auto simp: inv_simps begin_retry_def)

lemma retry_simps [simp]:
  "c_readLock (begin_retry k) = c_readLock k" "c_start (begin_retry k) = c_start k"
  "excl_locks (begin_retry k) \<subseteq> excl_locks k" "shared_locks (begin_retry k) \<subseteq> shared_locks k" "\<not> scanning (c_pc (begin_retry k))"
  by (auto simp: begin_retry_def excl_locks_def shared_locks_def scanning_def)

lemma inv_retry:
  assumes "wal_inv s" "c < length (conns s)" "\<exists>i y. c_pc (conn_at s c) \<in> {BgCheck0, BgClaim i 0 y, BgLock i y, BgMark i y, BgLive i y}"
  shows "wal_inv (set_conn c (begin_retry (conn_at s c)) s)"
  by (rule inv_quiet [OF assms(1,2) retry_ok [OF invD(2) [OF assms(1,2)] assms(3)], where X = "{}" and Y = "{}"]) (use assms(3) in auto)

lemma reading_ok:
  assumes "conn_ok m k" "shared_ok m" "c_pc k = BgLive i y" "sh_live m = c_hdr k"
  shows "conn_ok m (begin_reading m i k)"
proof -
  have "c_hdr k \<in> set (sh_commits m)" using live_in [OF assms(2)] assms(4) by simp
  then show ?thesis using assms by (auto simp: inv_simps begin_reading_def shared_ok_def view_def last_of_def)
qed

lemma reading0_ok:
  assumes "conn_ok m k" "shared_ok m" "c_pc k = BgCheck0" "sh_live m = c_hdr k"
  shows "conn_ok m (begin_reading m 0 k)"
  using assms by (auto simp: inv_simps begin_reading_def shared_ok_def view_def last_of_def last_frame_le)

text \<open>A mark is set under the lock of its slot.\<close>

lemma marks_simps [simp]:
  "view (m\<lparr>sh_marks := x\<rparr>) = view m" "last_of (m\<lparr>sh_marks := x\<rparr>) = last_of m" "past (m\<lparr>sh_marks := x\<rparr>) = past m"
  "leads (m\<lparr>sh_marks := x\<rparr>) = leads m" "current (m\<lparr>sh_marks := x\<rparr>) = current m" "to_copy (m\<lparr>sh_marks := x\<rparr>) = to_copy m"
  "in_db (m\<lparr>sh_marks := x\<rparr>) = in_db m" "todo_ok (m\<lparr>sh_marks := x\<rparr>) = todo_ok m" "pair_ok (m\<lparr>sh_marks := x\<rparr>) = pair_ok m"
  "ckpt_ok (m\<lparr>sh_marks := x\<rparr>) = ckpt_ok m"
proof -
  show *: "view (m\<lparr>sh_marks := x\<rparr>) = view m" "last_of (m\<lparr>sh_marks := x\<rparr>) = last_of m" "past (m\<lparr>sh_marks := x\<rparr>) = past m"
    "current (m\<lparr>sh_marks := x\<rparr>) = current m" "in_db (m\<lparr>sh_marks := x\<rparr>) = in_db m"
    "todo_ok (m\<lparr>sh_marks := x\<rparr>) = todo_ok m" "leads (m\<lparr>sh_marks := x\<rparr>) = leads m" "to_copy (m\<lparr>sh_marks := x\<rparr>) = to_copy m"
    by (auto simp: fun_eq_iff view_def last_of_def past_def leads_def current_def to_copy_def in_db_def todo_ok_def)
  show "pair_ok (m\<lparr>sh_marks := x\<rparr>) = pair_ok m" by (simp add: fun_eq_iff pair_ok_def *)
  show "ckpt_ok (m\<lparr>sh_marks := x\<rparr>) = ckpt_ok m" by (rule ext) (unfold ckpt_ok_def *, simp)
qed

lemma conn_ok_marks:
  assumes "conn_ok m d" "\<And>j. j < 5 \<Longrightarrow> x ! j \<noteq> sh_marks m ! j \<Longrightarrow> WAL_READ_LOCK j \<notin> shared_locks d"
  shows "conn_ok (m\<lparr>sh_marks := x\<rparr>) d"
proof -
  have "head_ok (m\<lparr>sh_marks := x\<rparr>) d"
    using assms by (cases "c_pc d") (auto simp: conn_ok_def place_ok_def head_ok_def Let_def shared_locks_def)
  moreover have "read_ok (m\<lparr>sh_marks := x\<rparr>) d"
  proof (cases "c_readLock d")
    case (Some i)
    then have "x ! i = sh_marks m ! i" using assms by (auto simp: shared_locks_def conn_ok_def read_ok_def)
    then show ?thesis using assms(1) Some by (auto simp: conn_ok_def read_ok_def)
  qed (simp add: read_ok_def)
  ultimately show ?thesis using assms(1) by (simp add: conn_ok_def)
qed

lemma inv_marks:
  assumes "wal_inv s" "c < length (conns s)" "conn_ok ((shared s)\<lparr>sh_marks := x\<rparr>) k" "c_pc (conn_at s c) \<noteq> RsFilled"
    and "length x = 5" "\<And>j. j < 5 \<Longrightarrow> x ! j \<noteq> sh_marks (shared s) ! j \<Longrightarrow> WAL_READ_LOCK j \<in> excl_locks (conn_at s c)"
    and "excl_locks k \<subseteq> excl_locks (conn_at s c)" "shared_locks k \<subseteq> shared_locks (conn_at s c)"
    and "c_readLock k = None \<or> c_readLock k = c_readLock (conn_at s c) \<and> c_start k = c_start (conn_at s c)"
    and "\<And>d. d < length (conns s) \<Longrightarrow> d \<noteq> c \<Longrightarrow> current (shared s) k \<Longrightarrow> behind k (conn_at s d)"
  shows "wal_inv (set_both c k ((shared s)\<lparr>sh_marks := x\<rparr>) s)"
proof (rule inv_both [OF assms(2)])
  show "shared_ok ((shared s)\<lparr>sh_marks := x\<rparr>)" using invD(1) [OF assms(1)] assms(5) by (simp add: shared_ok_def)
  show "conn_ok ((shared s)\<lparr>sh_marks := x\<rparr>) k" by (rule assms(3))
  fix d assume d: "d < length (conns s)" "d \<noteq> c"
  have p: "pair_ok (shared s) (conn_at s c) (conn_at s d)" by (rule invD(3) [OF assms(1,2) d(1) d(2) [symmetric]])
  then show "conn_ok ((shared s)\<lparr>sh_marks := x\<rparr>) (conn_at s d)"
    by (intro conn_ok_marks invD(2) [OF assms(1) d(1)]) (use assms(6) in \<open>auto simp: pair_ok_def compatible_def\<close>)
  have old: "current (shared s) (conn_at s d) \<Longrightarrow> behind (conn_at s d) (conn_at s c)"
    using invD(3) [OF assms(1) d(1) assms(2) d(2)] by (simp add: pair_ok_def)
  show "pair_ok ((shared s)\<lparr>sh_marks := x\<rparr>) k (conn_at s d) \<and> pair_ok ((shared s)\<lparr>sh_marks := x\<rparr>) (conn_at s d) k"
    unfolding marks_simps
  proof (rule pair_step [OF assms(1,2) d, where X = "{}" and Y = "{}"])
    show "current (shared s) (conn_at s d) \<Longrightarrow> behind (conn_at s d) k" using assms(9) old behind_same [of k "conn_at s c"] by auto
  qed (use assms(7,8,10) d in auto)
next
  fix d e assume "d < length (conns s)" "e < length (conns s)" "d \<noteq> e"
  then show "pair_ok ((shared s)\<lparr>sh_marks := x\<rparr>) (conn_at s d) (conn_at s e)" using invD(3) [OF assms(1)] by simp
next
  assume "\<And>d. d < length (conns s) \<Longrightarrow> d \<noteq> c \<Longrightarrow> c_pc (conn_at s d) \<noteq> RsFilled"
  then have "c_pc (conn_at s d) \<noteq> RsFilled" if "d < length (conns s)" for d using that assms(4) by blast
  from invD(4) [OF assms(1) this]
  show "sh_nBackfill ((shared s)\<lparr>sh_marks := x\<rparr>) \<le> hd_mxFrame (sh_live ((shared s)\<lparr>sh_marks := x\<rparr>))" by simp
qed

lemma inv_begin:
  assumes "wal_inv s" "c < length (conns s)"
  shows "wal_inv (walTryBeginRead c s)"
proof -
  let ?m = "shared s" and ?k = "conn_at s c"
  note S = invD(1) [OF assms(1)] and K = invD(2) [OF assms]
  note q = inv_quiet [OF assms, where X = "{}" and Y = "{}"]
  note D = inv_simps excl_locks_def shared_locks_def scanning_def
  note B = walTryBeginRead_def Let_def wal_pc.case
  show ?thesis
  proof (cases "c_pc ?k")
    case BgHdr
    show ?thesis unfolding B BgHdr by (rule q) (use K S BgHdr in \<open>auto simp: D\<close>)
  next
    case BgFilled
    show ?thesis unfolding B BgFilled by (rule q) (use K S BgFilled in \<open>auto simp: D\<close>)
  next
    case BgLock0
    show ?thesis unfolding B BgLock0
      by (rule inv_quiet [OF assms, where X = "{}" and Y = "if can_share s c (WAL_READ_LOCK 0) then {WAL_READ_LOCK 0} else {}"])
        (use K BgLock0 in \<open>auto simp: D\<close>)
  next
    case BgCheck0
    show ?thesis
    proof (cases "sh_live ?m = c_hdr ?k")
      case True
      have "conn_ok ?m (begin_reading ?m 0 ?k)" by (rule reading0_ok [OF K S BgCheck0 True])
      then have "wal_inv (set_conn c (begin_reading ?m 0 ?k) s)"
        by (rule q) (use K True BgCheck0 in \<open>auto simp: D begin_reading_def\<close>)
      then show ?thesis by (simp add: walTryBeginRead_def BgCheck0 True)
    qed (use inv_retry [OF assms] BgCheck0 in \<open>simp add: walTryBeginRead_def\<close>)
  next
    case (BgScan i j y)
    have "wal_inv (set_conn c (?k\<lparr>c_pc := a\<rparr>) s)"
      if "a \<in> {BgScan (i + 1) j y, BgClaim 1 j y} \<or> (j \<noteq> 0 \<and> a = BgLock j y)
        \<or> i < WAL_NREADER \<and> sh_marks ?m ! i \<le> hd_mxFrame (c_hdr ?k) \<and> a = BgScan (i + 1) i (sh_marks ?m ! i)" for a
      by (rule q) (use K S BgScan that in \<open>auto simp: D WAL_NREADER_def\<close>)
    then show ?thesis unfolding B BgScan by simp
  next
    case (BgClaim i j y)
    have go: "wal_inv (set_conn c (?k\<lparr>c_pc := a\<rparr>) s)" if "a = BgClaim (i + 1) j y \<or> (j \<noteq> 0 \<and> a = BgLock j y)" for a
      by (rule q) (use K S BgClaim that in \<open>auto simp: D\<close>)
    have "wal_inv (set_conn c (?k\<lparr>c_pc := BgStore i\<rparr>) s)" if "can_excl s c {WAL_READ_LOCK i}" "i < WAL_NREADER"
      by (rule inv_quiet [OF assms, where X = "{WAL_READ_LOCK i}" and Y = "{}"]) (use K BgClaim that in \<open>auto simp: D WAL_NREADER_def\<close>)
    moreover have "wal_inv (set_conn c (begin_retry ?k) s)" if "j = 0" using inv_retry [OF assms] BgClaim that by auto
    ultimately show ?thesis using go unfolding B BgClaim by simp
  next
    case (BgRelease i)
    show ?thesis unfolding B BgRelease by (rule q) (use K BgRelease in \<open>auto simp: D\<close>)
  next
    case (BgLock i y)
    have "wal_inv (set_conn c (?k\<lparr>c_pc := BgMin i y\<rparr>) s)" if "can_share s c (WAL_READ_LOCK i)"
      by (rule inv_quiet [OF assms, where X = "{}" and Y = "{WAL_READ_LOCK i}"]) (use K BgLock that in \<open>auto simp: D\<close>)
    moreover have "wal_inv (set_conn c (begin_retry ?k) s)" using inv_retry [OF assms] BgLock by auto
    ultimately show ?thesis unfolding B BgLock by simp
  next
    case (BgMin i y)
    show ?thesis unfolding B BgMin by (rule q) (use K BgMin in \<open>auto simp: D\<close>)
  next
    case (BgMark i y)
    have "wal_inv (set_conn c (?k\<lparr>c_pc := BgLive i y\<rparr>) s)" if "sh_marks ?m ! i = y"
      by (rule q) (use K BgMark that in \<open>auto simp: D\<close>)
    moreover have "wal_inv (set_conn c (begin_retry ?k) s)" using inv_retry [OF assms] BgMark by auto
    ultimately show ?thesis unfolding B BgMark by simp
  next
    case (BgLive i y)
    show ?thesis
    proof (cases "sh_live ?m = c_hdr ?k")
      case True
      have "conn_ok ?m (begin_reading ?m i ?k)" by (rule reading_ok [OF K S BgLive True])
      then have "wal_inv (set_conn c (begin_reading ?m i ?k) s)"
        by (rule q) (use K True BgLive in \<open>auto simp: D begin_reading_def\<close>)
      then show ?thesis by (simp add: walTryBeginRead_def BgLive True)
    qed (use inv_retry [OF assms] BgLive in \<open>auto simp: walTryBeginRead_def\<close>)
  next
    case (BgStore i)
    show ?thesis unfolding B BgStore
      by (rule inv_marks [OF assms])
        (use K S BgStore in \<open>auto simp: D shared_ok_def nth_list_update split: if_splits\<close>)
  qed (use assms in \<open>simp_all add: walTryBeginRead_def Let_def\<close>)
qed


section \<open>Beginning and ending to write\<close>

lemma inv_begin_write:
  assumes "wal_inv s" "c < length (conns s)"
  shows "wal_inv (walBeginWrite c s)"
proof -
  let ?m = "shared s" and ?k = "conn_at s c"
  note K = invD(2) [OF assms] and S = invD(1) [OF assms(1)]
  note D = inv_simps excl_locks_def shared_locks_def scanning_def
  consider "c_pc ?k = Reading" "\<not> c_writeLock ?k" "can_excl s c {WAL_WRITE_LOCK}" | "c_pc ?k = WrCheck" | "walBeginWrite c s = s"
    by (cases "c_pc ?k"; cases "\<not> c_writeLock ?k \<and> can_excl s c {WAL_WRITE_LOCK}") (auto simp: walBeginWrite_def Let_def)
  then show ?thesis
  proof cases
    case 1
    have "wal_inv (set_conn c (?k\<lparr>c_writeLock := True, c_pc := WrCheck\<rparr>) s)"
      by (rule inv_quiet [OF assms, where X = "{WAL_WRITE_LOCK}" and Y = "{}"]) (use K 1 in \<open>auto simp: D\<close>)
    then show ?thesis using 1 by (simp add: walBeginWrite_def Let_def)
  next
    case 2
    have "wal_inv (set_conn c (?k\<lparr>c_writeLock := (sh_live ?m = c_hdr ?k), c_pc := Reading\<rparr>) s)"
      by (rule inv_quiet [OF assms, where X = "{}" and Y = "{}"]) (use K S 2 in \<open>auto simp: D shared_ok_def split: if_splits\<close>)
    then show ?thesis using 2 by (simp add: walBeginWrite_def Let_def)
  qed (use assms in simp)
qed

lemma inv_ends:
  assumes "wal_inv s" "c < length (conns s)"
  shows "wal_inv (start_read c s)" "wal_inv (start_restart c s)" "wal_inv (rollback c s)" "wal_inv (end_write c s)"
    "wal_inv (start_checkpoint c mode s)" "c_pc (conn_at s c) \<noteq> RsFilled \<Longrightarrow> wal_inv (set_conn c (leave (conn_at s c)) s)"
proof -
  let ?m = "shared s" and ?k = "conn_at s c"
  note K = invD(2) [OF assms] and S = invD(1) [OF assms(1)]
  note D = inv_simps excl_locks_def shared_locks_def scanning_def
  note q = inv_quiet [OF assms, where X = "{}" and Y = "{}"]
  have "wal_inv (set_conn c (?k\<lparr>c_pc := BgHdr\<rparr>) s)" if "c_pc ?k = Idle" by (rule q) (use K that in \<open>auto simp: D\<close>)
  then show "wal_inv (start_read c s)" using assms by (simp add: start_read_def Let_def)
  have "wal_inv (set_conn c (?k\<lparr>c_pc := RsLock\<rparr>) s)" if "c_pc ?k = Reading" "c_writeLock ?k" "c_readLock ?k = Some 0"
    by (rule q) (use K that in \<open>auto simp: D\<close>)
  then show "wal_inv (start_restart c s)" using assms by (simp add: start_restart_def Let_def)
  have "wal_inv (set_conn c (?k\<lparr>c_hdr := sh_live ?m\<rparr>) s)" if "c_pc ?k = Reading" "c_writeLock ?k"
    by (rule q) (use K S that in \<open>auto simp: D shared_ok_def split: option.splits\<close>)
  then show "wal_inv (rollback c s)" using assms by (simp add: rollback_def Let_def)
  have "wal_inv (set_conn c (?k\<lparr>c_writeLock := False\<rparr>) s)" if "c_pc ?k = Reading" "c_writeLock ?k" "c_hdr ?k = sh_live ?m"
    by (rule q) (use K S that in \<open>auto simp: D split: option.splits\<close>)
  then show "wal_inv (end_write c s)" using assms by (simp add: end_write_def Let_def)
  have "wal_inv (set_conn c (?k\<lparr>c_ckptLock := True, c_mode := mode, c_pc := CkWrite\<rparr>) s)"
    if "c_pc ?k = Idle" "can_excl s c {WAL_CKPT_LOCK}"
    by (rule inv_quiet [OF assms, where X = "{WAL_CKPT_LOCK}" and Y = "{}"]) (use K that in \<open>auto simp: D\<close>)
  then show "wal_inv (start_checkpoint c mode s)" using assms by (simp add: start_checkpoint_def Let_def)
  show "wal_inv (set_conn c (leave ?k) s)" if "c_pc ?k \<noteq> RsFilled"
    by (rule q) (use K that in \<open>auto simp: D leave_def\<close>)
qed

section \<open>Frames that readers do not look at\<close>

text \<open>A change of the log behind the last commit is seen by nobody.\<close>

definition same_commits :: "'a wal_shared \<Rightarrow> 'a wal_shared \<Rightarrow> bool" where
  "same_commits m m' = (\<exists>l. m' = m\<lparr>sh_log := l\<rparr> \<and> (\<forall>i < hd_mxFrame (sh_live m). l ! i = sh_log m ! i)
    \<and> hd_mxFrame (sh_live m) \<le> length l)"

lemma same_commits_of:
  assumes "same_commits m m'" "shared_ok m" "hd_mxFrame h \<le> hd_mxFrame (sh_live m)"
  shows "last_of m' p h = last_of m p h" "view m' h = view m h"
    "last_of m p h \<noteq> 0 \<Longrightarrow> sh_log m' ! (last_of m p h - 1) = sh_log m ! (last_of m p h - 1)"
proof -
  obtain l where l: "m' = m\<lparr>sh_log := l\<rparr>" "\<forall>i < hd_mxFrame (sh_live m). l ! i = sh_log m ! i" "hd_mxFrame (sh_live m) \<le> length l"
    using assms(1) by (auto simp: same_commits_def)
  have len: "hd_mxFrame (sh_live m) \<le> length (sh_log m)" using assms(2) by (simp add: shared_ok_def)
  have lf: "last_frame l q 0 (hd_mxFrame h) = last_frame (sh_log m) q 0 (hd_mxFrame h)" for q
    by (rule last_frame_cong) (use l len assms(3) in auto)
  then show "last_of m' p h = last_of m p h" by (simp add: last_of_def l(1))
  have at: "l ! (last_frame (sh_log m) q 0 (hd_mxFrame h) - 1) = sh_log m ! (last_frame (sh_log m) q 0 (hd_mxFrame h) - 1)"
    if "last_frame (sh_log m) q 0 (hd_mxFrame h) \<noteq> 0" for q
    using l(2) last_frame_le [of "sh_log m" q 0 "hd_mxFrame h"] assms(3) that by simp
  then show "last_of m p h \<noteq> 0 \<Longrightarrow> sh_log m' ! (last_of m p h - 1) = sh_log m ! (last_of m p h - 1)"
    by (simp add: last_of_def l(1))
  show "view m' h = view m h" using at by (auto simp: fun_eq_iff view_def over_def Let_def lf l(1))
qed


lemma same_commits_shared:
  assumes "same_commits m m'" "shared_ok m"
  shows "shared_ok m'"
proof -
  obtain l where l: "m' = m\<lparr>sh_log := l\<rparr>" "hd_mxFrame (sh_live m) \<le> length l" using assms(1) by (auto simp: same_commits_def)
  note same = same_commits_of [OF assms]
  have mx: "hd_mxFrame h \<le> hd_mxFrame (sh_live m)" if "h \<in> set (sh_commits m)" for h
    using commits_le [OF assms(2) that] by (auto simp: leads_def)
  have "sorted_wrt (leads m') (sh_commits m)"
  proof (rule sorted_wrt_mono_rel [of _ "leads m"])
    show "leads m' h h'" if "h \<in> set (sh_commits m)" "h' \<in> set (sh_commits m)" "leads m h h'" for h h'
      using that(3) same(1) [OF mx [OF that(2)]] by (simp add: leads_def)
    show "sorted_wrt (leads m) (sh_commits m)" using assms(2) by (simp add: shared_ok_def)
  qed
  moreover have "view m' (sh_live m) = view m (sh_live m)" "\<And>p. last_of m' p (sh_live m) = last_of m p (sh_live m)"
    using same by simp_all
  ultimately show ?thesis using assms(2) l by (simp add: shared_ok_def)
qed

lemma current_past: "head_ok m k \<Longrightarrow> scanning (c_pc k) \<Longrightarrow> past m (c_hdr k)"
  by (cases "c_pc k") (auto simp: head_ok_def scanning_def Let_def)

lemma ckpt_not_scanning: "\<not> scanning (c_pc k) \<Longrightarrow> ckpt_ok m k"
  by (cases "c_pc k") (simp_all add: scanning_def ckpt_ok_def Let_def)

lemma same_commits_conn:
  assumes "same_commits m m'" "shared_ok m" "conn_ok m k" "c_writeLock k \<longrightarrow> hd_mxFrame (c_hdr k) \<le> length (sh_log m')"
  shows "conn_ok m' k"
proof -
  obtain l where l: "m' = m\<lparr>sh_log := l\<rparr>" using assms(1) by (auto simp: same_commits_def)
  note same = same_commits_of [OF assms(1,2)]
  have e: "sh_live m' = sh_live m" "sh_marks m' = sh_marks m" "sh_db m' = sh_db m" "sh_nBackfill m' = sh_nBackfill m"
    "sh_commits m' = sh_commits m" "past m' = past m" "current m' = current m"
    by (simp_all add: l past_def current_def fun_eq_iff)
  have mx: "hd_mxFrame h \<le> hd_mxFrame (sh_live m)" if "h \<in> set (sh_commits m)" for h
    using commits_le [OF assms(2) that] by (auto simp: leads_def)
  have "head_ok m' k" using assms(3,4) by (cases "c_pc k") (auto simp: conn_ok_def head_ok_def Let_def e)
  moreover have "read_ok m' k"
  proof (cases "c_readLock k")
    case (Some i)
    show ?thesis
    proof (cases "i = 0")
      case False
      then have "c_start k \<in> set (sh_commits m)" using assms(3) Some by (simp add: conn_ok_def read_ok_def)
      note s = same(1,2) [OF mx [OF this]]
      show ?thesis using assms(3) Some False unfolding conn_ok_def read_ok_def e s by simp
    qed (use assms(3) Some in \<open>simp add: conn_ok_def read_ok_def e\<close>)
  qed (simp add: read_ok_def)
  moreover have "ckpt_ok m' k"
  proof (cases "scanning (c_pc k)")
    case True
    then have p: "past m (c_hdr k)" using current_past assms(3) by (auto simp: conn_ok_def)
    show ?thesis
    proof (cases "current m k")
      case cur: True
      then have "hd_mxFrame (c_hdr k) \<le> hd_mxFrame (sh_live m)" using past_mx [OF assms(2) p] by (simp add: current_def)
      note s = same [OF this]
      have t: "todo_ok m' k = todo_ok m k" "to_copy m' k = to_copy m k" by (auto simp: todo_ok_def to_copy_def fun_eq_iff s e)
      have d: "in_db m' k p = in_db m k p" if "to_copy m k p" for p
      proof -
        have "last_of m p (c_hdr k) \<noteq> 0" using that by (simp add: to_copy_def)
        from s(3) [OF this] show ?thesis unfolding in_db_def s(1) e by (simp only:)
      qed
      show ?thesis using assms(3) d unfolding conn_ok_def ckpt_ok_def e t s(1) by (auto simp: Let_def split: wal_pc.splits)
    next
      case False
      then show ?thesis using assms(3) unfolding conn_ok_def ckpt_ok_def e by (auto simp: Let_def split: wal_pc.splits)
    qed
  qed (rule ckpt_not_scanning)
  ultimately show ?thesis using assms(3) by (simp add: conn_ok_def)
qed

lemma writer_unique:
  assumes "wal_inv s" "c < length (conns s)" "d < length (conns s)" "d \<noteq> c" "c_writeLock (conn_at s c)"
  shows "\<not> c_writeLock (conn_at s d)"
  using invD(3) [OF assms(1-3)] assms(4,5) by (auto simp: pair_ok_def compatible_def excl_locks_def)

lemma place_restart: "place_ok k \<Longrightarrow> c_pc k = RsFilled \<Longrightarrow> c_writeLock k"
  by (simp add: place_ok_def Let_def)

text \<open>A change of the log behind the last commit by the writer.\<close>

lemma inv_log:
  assumes "wal_inv s" "c < length (conns s)" "same_commits (shared s) m" "conn_ok m k" "c_writeLock (conn_at s c)"
    and "c_pc (conn_at s c) \<noteq> RsFilled" "\<not> scanning (c_pc k)"
    and "excl_locks k \<subseteq> excl_locks (conn_at s c)" "shared_locks k \<subseteq> shared_locks (conn_at s c)"
    and "c_readLock k = c_readLock (conn_at s c)" "c_start k = c_start (conn_at s c)"
  shows "wal_inv (set_both c k m s)"
proof (rule inv_both [OF assms(2) same_commits_shared [OF assms(3) invD(1) [OF assms(1)]] assms(4)])
  obtain l where l: "m = (shared s)\<lparr>sh_log := l\<rparr>" using assms(3) by (auto simp: same_commits_def)
  have p: "pair_ok m = pair_ok (shared s)" by (simp add: l fun_eq_iff pair_ok_def current_def)
  {
    fix d assume d: "d < length (conns s)" "d \<noteq> c"
    show "conn_ok m (conn_at s d)"
      by (rule same_commits_conn [OF assms(3) invD(1) [OF assms(1)] invD(2) [OF assms(1) d(1)]])
        (use writer_unique [OF assms(1,2) d assms(5)] in simp)
    have old: "behind (conn_at s d) k" if "current (shared s) (conn_at s d)"
      using invD(3) [OF assms(1) d(1) assms(2) d(2)] that assms(10,11) behind_same by (auto simp: pair_ok_def)
    show "pair_ok m k (conn_at s d) \<and> pair_ok m (conn_at s d) k" unfolding p
      by (rule pair_step [OF assms(1,2) d, where X = "{}" and Y = "{}"]) (use assms(7-9) old in auto)
  }
  show "pair_ok m (conn_at s d) (conn_at s e)" if "d < length (conns s)" "e < length (conns s)" "d \<noteq> e" for d e
    using invD(3) [OF assms(1) that] by (simp add: p)
  assume "\<And>d. d < length (conns s) \<Longrightarrow> d \<noteq> c \<Longrightarrow> c_pc (conn_at s d) \<noteq> RsFilled"
  then have "c_pc (conn_at s d) \<noteq> RsFilled" if "d < length (conns s)" for d using that assms(6) by blast
  from invD(4) [OF assms(1) this] show "sh_nBackfill m \<le> hd_mxFrame (sh_live m)" by (simp add: l)
qed

lemma read_ok_pc [simp]: "read_ok m (k\<lparr>c_pc := a\<rparr>) = read_ok m k"
  by (cases "c_readLock k") (simp_all add: read_ok_def)

lemma read_ok_hdr [simp]: "read_ok m (k\<lparr>c_hdr := h\<rparr>) = read_ok m k"
  by (cases "c_readLock k") (simp_all add: read_ok_def)

lemma inv_write_frame:
  assumes "wal_inv s" "c < length (conns s)"
  shows "wal_inv (write_frame c p x s)" "wal_inv (rewrite_frame c i x s)"
proof -
  let ?m = "shared s" and ?k = "conn_at s c"
  note K = invD(2) [OF assms] and S = invD(1) [OF assms(1)]
  let ?n = "hd_mxFrame (c_hdr ?k)"
  have w: "hd_mxFrame (sh_live ?m) \<le> ?n" "?n \<le> length (sh_log ?m)" "c_pc ?k = Reading" "c_writeLock ?k" "c_readLock ?k \<noteq> Some 0"
    if "can_write ?k" using K that by (auto simp: inv_simps can_write_def)
  {
    assume cw: "can_write ?k"
    let ?l = "take ?n (sh_log ?m) @ (p, x) # drop (?n + 1) (sh_log ?m)"
    have same: "same_commits ?m (?m\<lparr>sh_log := ?l\<rparr>)" using w [OF cw] by (auto simp: same_commits_def nth_append)
    have "conn_ok (?m\<lparr>sh_log := ?l\<rparr>) ?k" by (rule same_commits_conn [OF same S K]) (use w [OF cw] in auto)
    then have "conn_ok (?m\<lparr>sh_log := ?l\<rparr>) (?k\<lparr>c_hdr := (c_hdr ?k)\<lparr>hd_mxFrame := ?n + 1\<rparr>\<rparr>)"
      using w [OF cw] by (auto simp: conn_ok_def place_ok_def head_ok_def ckpt_ok_def Let_def)
    then have "wal_inv (set_both c (?k\<lparr>c_hdr := (c_hdr ?k)\<lparr>hd_mxFrame := ?n + 1\<rparr>\<rparr>) (?m\<lparr>sh_log := ?l\<rparr>) s)"
      by (rule inv_log [OF assms same]) (use w [OF cw] in \<open>auto simp: excl_locks_def shared_locks_def scanning_def\<close>)
  }
  then show "wal_inv (write_frame c p x s)" using assms by (simp add: write_frame_def Let_def)
  {
    assume cw: "can_write ?k" and i: "hd_mxFrame (sh_live ?m) < i" "i \<le> ?n"
    let ?l = "(sh_log ?m)[i - 1 := (fst (sh_log ?m ! (i - 1)), x)]"
    have same: "same_commits ?m (?m\<lparr>sh_log := ?l\<rparr>)" using w [OF cw] i by (auto simp: same_commits_def)
    have "conn_ok (?m\<lparr>sh_log := ?l\<rparr>) ?k" by (rule same_commits_conn [OF same S K]) (use w [OF cw] in auto)
    then have "wal_inv (set_both c ?k (?m\<lparr>sh_log := ?l\<rparr>) s)"
      by (rule inv_log [OF assms same]) (use w [OF cw] in \<open>auto simp: scanning_def\<close>)
  }
  then show "wal_inv (rewrite_frame c i x s)" using assms by (simp add: rewrite_frame_def Let_def)
qed


section \<open>Commits\<close>

lemma leads_trans: "leads m a b \<Longrightarrow> leads m b c \<Longrightarrow> hd_mxFrame c \<le> length (sh_log m) \<Longrightarrow> leads m a c"
proof -
  assume a: "leads m a b" "leads m b c" "hd_mxFrame c \<le> length (sh_log m)"
  have "hd_mxFrame a < last_of m p c" if "hd_nPage a < p" "p \<le> hd_nPage c" for p
  proof (cases "p \<le> hd_nPage b")
    case True
    then have "hd_mxFrame a < last_of m p b" using a(1) that by (simp add: leads_def)
    also have "\<dots> \<le> last_of m p c" using a last_frame_more(1) [of "hd_mxFrame b" "hd_mxFrame c" "sh_log m" p] by (simp add: leads_def last_of_def)
    finally show ?thesis .
  next
    case False
    then have "hd_mxFrame b < last_of m p c" using a(2) that by (simp add: leads_def)
    then show ?thesis using a(1) by (simp add: leads_def)
  qed
  then show ?thesis using a by (auto simp: leads_def)
qed

definition committed_state :: "'a wal_shared \<Rightarrow> wal_head \<Rightarrow> 'a wal_shared" where
  "committed_state m h = m\<lparr>sh_live := h, sh_commits := sh_commits m @ [h],
     sh_truth := over (sh_log m) (hd_mxFrame (sh_live m)) (hd_mxFrame h) (sh_truth m)\<rparr>"

lemma committed_simps [simp]:
  "sh_live (committed_state m h) = h" "sh_commits (committed_state m h) = sh_commits m @ [h]" "sh_log (committed_state m h) = sh_log m"
  "sh_marks (committed_state m h) = sh_marks m" "sh_db (committed_state m h) = sh_db m"
  "sh_nBackfill (committed_state m h) = sh_nBackfill m" "sh_base (committed_state m h) = sh_base m"
  "view (committed_state m h) = view m" "last_of (committed_state m h) = last_of m" "leads (committed_state m h) = leads m"
  "todo_ok (committed_state m h) = todo_ok m" "to_copy (committed_state m h) = to_copy m" "in_db (committed_state m h) = in_db m"
  by (auto simp: committed_state_def view_def last_of_def leads_def todo_ok_def to_copy_def in_db_def fun_eq_iff)

lemma commit_shared:
  assumes S: "shared_ok m" and h: "leads m (sh_live m) h" "hd_mxFrame h \<le> length (sh_log m)"
    and F: "sh_nBackfill m \<le> hd_mxFrame (sh_live m)"
  shows "shared_ok (committed_state m h)"
    and "p \<le> hd_nPage h \<Longrightarrow> view m h p = sh_truth (committed_state m h) p"
    and "p \<le> hd_nPage h \<Longrightarrow> last_of m p h \<le> sh_nBackfill m \<Longrightarrow> sh_db m p = view m h p"
proof -
  let ?n = "hd_mxFrame (sh_live m)"
  have mn: "?n < hd_mxFrame h" and old: "p \<le> hd_nPage h \<Longrightarrow> last_of m p h \<le> ?n \<Longrightarrow> p \<le> hd_nPage (sh_live m)" for p
    using h(1) by (auto simp: leads_def not_less [symmetric])
  have same: "last_of m p h = last_of m p (sh_live m)" if "last_of m p h \<le> ?n" for p
    using last_frame_more(2) [of ?n "hd_mxFrame h" "sh_log m" p] that mn h(2) by (simp add: last_of_def)
  have vold: "view m h p = view m (sh_live m) p" if "last_of m p h \<le> ?n" for p
    using same [OF that] by (simp add: view_def over_def last_of_def)
  show v: "view m h p = sh_truth (committed_state m h) p" if "p \<le> hd_nPage h" for p
  proof (cases "last_of m p h \<le> ?n")
    case True
    have "sh_truth (committed_state m h) p = sh_truth m p"
      using over_cut [OF h(2)] True by (simp add: committed_state_def last_of_def)
    also have "\<dots> = view m (sh_live m) p" using S old [OF that True] by (simp add: shared_ok_def)
    finally show ?thesis using vold [OF True] by simp
  next
    case False
    then show ?thesis
      using last_frame_cut [OF h(2), of p ?n] by (simp add: committed_state_def view_def over_def last_of_def Let_def)
  qed
  show d: "sh_db m p = view m h p" if "p \<le> hd_nPage h" "last_of m p h \<le> sh_nBackfill m" for p
  proof -
    have "last_of m p h \<le> ?n" using that(2) F by simp
    then show ?thesis using S that old [OF that(1)] same vold by (auto simp: shared_ok_def)
  qed
  have "sorted_wrt (leads m) (sh_commits m @ [h])"
  proof -
    have "leads m x h" if "x \<in> set (sh_commits m)" for x
      using commits_le [OF S that] leads_trans [OF _ h(1,2), of x] h(1) by auto
    then show ?thesis using S by (auto simp: sorted_wrt_append shared_ok_def)
  qed
  then show "shared_ok (committed_state m h)"
    using S h(2) v d unfolding shared_ok_def committed_simps by simp
qed

lemma commit_conn:
  assumes "conn_ok m d" "shared_ok m" "leads m (sh_live m) h" "\<not> c_writeLock d"
  shows "conn_ok (committed_state m h) d"
proof -
  have new: "x \<noteq> h" if "past m x" for x
  proof
    assume "x = h"
    then have "hd_salt x = hd_salt (sh_live m)" "hd_mxFrame (sh_live m) < hd_mxFrame x" using assms(3) by (auto simp: leads_def)
    then show False using past_mx [OF assms(2) that] by simp
  qed
  have s: "hd_salt h = hd_salt (sh_live m)" using assms(3) by (simp add: leads_def)
  have past: "past (committed_state m h) x" if "past m x" for x using that s by (auto simp: past_def)
  have cur: "current (committed_state m h) = current m" by (simp add: current_def fun_eq_iff s)
  have "place_ok d" using assms(1) by (simp add: conn_ok_def)
  moreover have "head_ok (committed_state m h) d"
    using assms(1,4) past new by (cases "c_pc d") (auto simp: conn_ok_def head_ok_def place_ok_def Let_def)
  moreover have "read_ok (committed_state m h) d"
    using assms(1) past new unfolding conn_ok_def read_ok_def committed_simps by (auto split: option.splits)
  moreover have "ckpt_ok (committed_state m h) d"
    using assms(1) unfolding conn_ok_def ckpt_ok_def committed_simps cur by simp
  ultimately show ?thesis by (simp add: conn_ok_def)
qed

lemma inv_commit:
  assumes "wal_inv s" "c < length (conns s)"
  shows "wal_inv (commit c n s)"
proof (cases "may_commit (shared s) (conn_at s c) n")
  case False
  then show ?thesis using assms by (simp add: commit_def Let_def)
next
  case True
  let ?m = "shared s" and ?k = "conn_at s c"
  note K = invD(2) [OF assms] and S = invD(1) [OF assms(1)]
  define h where "h = (c_hdr ?k)\<lparr>hd_nPage := n\<rparr>"
  define m where "m = committed_state ?m h"
  define k where "k = ?k\<lparr>c_hdr := h, c_start := h, c_snap := sh_truth m\<rparr>"
  obtain i where w: "c_pc ?k = Reading" "c_writeLock ?k" "c_readLock ?k = Some i" "i \<noteq> 0"
    using True K by (auto simp: may_commit_def can_write_def inv_simps)
  have hd: "c_start ?k = sh_live ?m" "hd_salt h = hd_salt (sh_live ?m)" "hd_mxFrame h \<le> length (sh_log ?m)"
    using K w by (auto simp: inv_simps h_def)
  have lead: "leads ?m (sh_live ?m) h"
  proof -
    have "hd_mxFrame (sh_live ?m) < last_of ?m p h" if "hd_nPage (sh_live ?m) < p" "p \<le> n" for p
    proof -
      have "last_frame (sh_log ?m) p (hd_mxFrame (sh_live ?m)) (hd_mxFrame h) \<noteq> 0"
        using True that by (simp add: may_commit_def h_def)
      then show ?thesis using last_frame_cut [OF hd(3), of p "hd_mxFrame (sh_live ?m)"] by (simp add: last_of_def split: if_splits)
    qed
    then show ?thesis using True hd(2) by (simp add: leads_def may_commit_def h_def)
  qed
  have nofill: "c_pc (conn_at s d) \<noteq> RsFilled" if "d < length (conns s)" for d
  proof (cases "d = c")
    case False
    then show ?thesis
      using writer_unique [OF assms that False w(2)] place_restart invD(2) [OF assms(1) that] by (auto simp: conn_ok_def)
  qed (use w(1) in simp)
  have F: "sh_nBackfill ?m \<le> hd_mxFrame (sh_live ?m)" by (rule invD(4) [OF assms(1) nofill])
  note C = commit_shared [OF S lead hd(3) F]
  have "c_snap k p = view ?m h p" if "p \<le> hd_nPage h" for p using C(2) [OF that] by (simp add: k_def m_def)
  moreover have "sh_db ?m p = view ?m h p" if "p \<le> hd_nPage h" "last_of ?m p h < c_minFrame ?k" for p
    using C(3) [OF that(1)] that(2) K w(3,4) by (auto simp: inv_simps)
  moreover have "sh_marks ?m ! i \<le> hd_mxFrame h" using K w(3,4) hd(1) lead by (auto simp: inv_simps leads_def)
  moreover have "past m h" by (simp add: m_def past_def)
  ultimately have "read_ok m k"
    using K w(3,4) by (auto simp: conn_ok_def read_ok_def k_def m_def)
  moreover have "place_ok k" "head_ok m k" "ckpt_ok m k"
    using K w hd by (auto simp: conn_ok_def place_ok_def head_ok_def ckpt_ok_def Let_def k_def m_def)
  ultimately have own: "conn_ok m k" by (simp add: conn_ok_def)
  have p: "pair_ok m = pair_ok ?m" by (simp add: m_def fun_eq_iff pair_ok_def current_def hd(2))
  have "wal_inv (set_both c k m s)"
  proof (rule inv_both [OF assms(2) _ own])
    show "shared_ok m" using C(1) by (simp add: m_def)
    fix d assume d: "d < length (conns s)" "d \<noteq> c"
    show "conn_ok m (conn_at s d)"
      unfolding m_def by (rule commit_conn [OF invD(2) [OF assms(1) d(1)] S lead writer_unique [OF assms d w(2)]])
    have old: "behind (conn_at s d) k" if "current ?m (conn_at s d)"
    proof -
      have "behind (conn_at s d) ?k" using invD(3) [OF assms(1) d(1) assms(2) d(2)] that by (simp add: pair_ok_def)
      moreover have "hd_mxFrame (c_start ?k) \<le> hd_mxFrame (c_start k)" using lead hd(1) by (simp add: k_def leads_def)
      ultimately show ?thesis by (cases "c_pc (conn_at s d)") (auto simp: behind_def k_def w(3))
    qed
    show "pair_ok m k (conn_at s d) \<and> pair_ok m (conn_at s d) k" unfolding p
      by (rule pair_step [OF assms d, where X = "{}" and Y = "{}"])
        (use old w in \<open>auto simp: k_def excl_locks_def shared_locks_def scanning_def\<close>)
  next
    show "pair_ok m (conn_at s d) (conn_at s e)" if "d < length (conns s)" "e < length (conns s)" "d \<noteq> e" for d e
      using invD(3) [OF assms(1) that] by (simp add: p)
    show "sh_nBackfill m \<le> hd_mxFrame (sh_live m)" using F lead by (simp add: m_def leads_def)
  qed
  moreover have "commit c n s = set_both c k m s"
    using True by (simp add: commit_def Let_def k_def m_def h_def committed_state_def)
  ultimately show ?thesis by simp
qed


section \<open>Restarts\<close>

lemma past_salt: "shared_ok m \<Longrightarrow> past m h \<Longrightarrow> hd_salt h \<le> hd_salt (sh_live m)"
  using commits_le [of m h] by (auto simp: past_def leads_def)

definition restarted_state :: "'a wal_shared \<Rightarrow> 'a wal_shared" where
  "restarted_state m = m\<lparr>sh_live := restarted (sh_live m), sh_commits := [restarted (sh_live m)], sh_base := sh_db m\<rparr>"

lemma restarted_simps [simp]:
  "sh_nBackfill (restarted_state m) = sh_nBackfill m" "sh_marks (restarted_state m) = sh_marks m" "sh_log (restarted_state m) = sh_log m"
  "sh_db (restarted_state m) = sh_db m" "sh_live (restarted_state m) = restarted (sh_live m)" "hd_mxFrame (restarted h) = 0"
  "hd_salt (restarted h) = hd_salt h + 1" "hd_nPage (restarted h) = hd_nPage h" "sh_commits (restarted_state m) = [restarted (sh_live m)]"
  by (simp_all add: restarted_state_def restarted_def)

lemma restart_shared:
  assumes S: "shared_ok m" and all: "hd_mxFrame (sh_live m) \<le> sh_nBackfill m"
  shows "shared_ok (restarted_state m)"
proof -
  have "sh_db m p = sh_truth m p" if "p \<le> hd_nPage (sh_live m)" for p
    using S that all last_frame_le [of "sh_log m" p 0 "hd_mxFrame (sh_live m)"] by (auto simp: shared_ok_def last_of_def)
  then show ?thesis
    using S by (simp add: shared_ok_def restarted_state_def restarted_def view_def over_def last_of_def last_frame_def)
qed

lemma ckpt_lock_held: "c_ckptLock k \<Longrightarrow> WAL_CKPT_LOCK \<in> excl_locks k"
  by (simp add: excl_locks_def)

lemma restart_conn:
  assumes "conn_ok m d" "shared_ok m" "\<not> c_writeLock d" "WAL_READERS \<inter> shared_locks d = {}" "WAL_READ_LOCK 0 \<notin> excl_locks d \<or> \<not> c_ckptLock d"
  shows "conn_ok (restarted_state m) d"
proof -
  have old: "hd_salt h < hd_salt (sh_live (restarted_state m))" if "past m h" for h
    using past_salt [OF assms(2) that] by simp
  have past: "past (restarted_state m) h" if "past m h" for h using old [OF that] by (simp add: past_def)
  have ne: "h \<noteq> restarted (sh_live m)" if "past m h" for h using old [OF that] by auto
  have slot: "i = 0" if "WAL_READ_LOCK i \<in> shared_locks d" "i < 5" for i
  proof -
    have "i = 0 \<or> i = 1 \<or> i = 2 \<or> i = 3 \<or> i = 4" using that(2) by linarith
    then show ?thesis using assms(4) that(1) by (auto simp: WAL_READERS_def)
  qed
  have P: "place_ok d" "head_ok m d" "read_ok m d" "ckpt_ok m d" using assms(1) by (simp_all add: conn_ok_def)
  have "head_ok (restarted_state m) d"
    using P(1,2) assms(3) past ne slot by (cases "c_pc d") (auto simp: head_ok_def place_ok_def Let_def shared_locks_def)
  moreover have "read_ok (restarted_state m) d"
  proof (cases "c_readLock d")
    case (Some i)
    then have i: "i = 0" using slot [of i] P(3) by (simp add: read_ok_def shared_locks_def)
    have "past m (c_start d)" using P(3) Some by (simp add: read_ok_def)
    then show ?thesis using P(3) Some i past [of "c_start d"] ne [of "c_start d"] by (auto simp: read_ok_def)
  qed (simp add: read_ok_def)
  moreover have "ckpt_ok (restarted_state m) d"
  proof (cases "scanning (c_pc d)")
    case True
    have "\<not> current (restarted_state m) d"
      using old [OF current_past [OF P(2) True]] by (simp add: current_def)
    then show ?thesis
      using P(1,4) True assms(5) by (cases "c_pc d") (auto simp: ckpt_ok_def scanning_def place_ok_def excl_locks_def Let_def)
  qed (rule ckpt_not_scanning)
  ultimately show ?thesis using P(1) by (simp add: conn_ok_def)
qed

lemma inv_RsHdr:
  assumes "wal_inv s" "c < length (conns s)" "c_pc (conn_at s c) = RsHdr"
  shows "wal_inv (walRestart c s)"
proof -
  let ?m = "shared s" and ?k = "conn_at s c"
  note K = invD(2) [OF assms(1,2)] and S = invD(1) [OF assms(1)]
  have h: "c_hdr ?k = sh_live ?m" "hd_mxFrame (sh_live ?m) \<le> sh_nBackfill ?m" "c_writeLock ?k"
    using K assms(3) by (simp_all add: conn_ok_def head_ok_def place_ok_def Let_def)
  let ?m' = "restarted_state ?m" and ?k' = "?k\<lparr>c_hdr := restarted (c_hdr ?k), c_pc := RsFilled\<rparr>"
  have locks: "WAL_READERS \<subseteq> excl_locks ?k" "WAL_READ_LOCK 0 \<in> shared_locks ?k \<or> WAL_CKPT_LOCK \<in> excl_locks ?k"
    using K assms(3) by (auto simp: excl_locks_def shared_locks_def conn_ok_def place_ok_def Let_def split: if_splits)
  have "wal_inv (set_both c ?k' ?m' s)"
  proof (rule inv_both [OF assms(2) restart_shared [OF S h(2)]])
    have salt: "hd_salt (sh_live ?m') = hd_salt (sh_live ?m) + 1" "hd_mxFrame (sh_live ?m') = 0" by simp_all
    have "read_ok ?m' ?k'"
    proof (cases "c_readLock ?k")
      case (Some i)
      have i: "i = 0" using K assms(3) Some by (auto simp: conn_ok_def place_ok_def Let_def split: if_splits)
      have p: "past ?m (c_start ?k)" using K Some by (simp add: conn_ok_def read_ok_def)
      then have "hd_salt (c_start ?k) < hd_salt (sh_live ?m')" using past_salt [OF S p] salt by simp
      then have "past ?m' (c_start ?k)" "c_start ?k \<noteq> sh_live ?m'" by (auto simp: past_def)
      then show ?thesis using K Some i by (simp add: conn_ok_def read_ok_def)
    qed (simp add: read_ok_def)
    then show "conn_ok ?m' ?k'"
      using K assms(3) h by (simp add: conn_ok_def place_ok_def head_ok_def ckpt_ok_def Let_def)
    fix d assume d: "d < length (conns s)" "d \<noteq> c"
    have comp: "compatible ?k (conn_at s d)" "compatible (conn_at s d) ?k"
      using invD(3) [OF assms(1)] assms(2) d by (auto simp: pair_ok_def)
    show "conn_ok ?m' (conn_at s d)"
    proof (rule restart_conn [OF invD(2) [OF assms(1) d(1)] S writer_unique [OF assms(1,2) d h(3)]])
      show "WAL_READERS \<inter> shared_locks (conn_at s d) = {}" using comp(1) locks(1) by (auto simp: compatible_def)
      show "WAL_READ_LOCK 0 \<notin> excl_locks (conn_at s d) \<or> \<not> c_ckptLock (conn_at s d)"
        using comp locks(2) ckpt_lock_held [of "conn_at s d"] unfolding compatible_def by blast
    qed
    have stale: "behind e f" if "e = conn_at s d" "current ?m' e" for e f
    proof (cases "scanning (c_pc e)")
      case True
      have "past ?m (c_hdr e)" using current_past [OF _ True] invD(2) [OF assms(1) d(1)] that(1) by (auto simp: conn_ok_def)
      then show ?thesis using past_salt [OF S, of "c_hdr e"] that(2) salt by (simp add: current_def)
    qed simp
    have "compatible ?k' (conn_at s d)" "compatible (conn_at s d) ?k'"
      using comp assms(3) by (simp_all add: compatible_def excl_locks_def shared_locks_def)
    then show "pair_ok ?m' ?k' (conn_at s d) \<and> pair_ok ?m' (conn_at s d) ?k'" using stale by (simp add: pair_ok_def scanning_def)
  next
    fix d e assume d: "d < length (conns s)" "e < length (conns s)" "d \<noteq> e"
    have "behind (conn_at s d) (conn_at s e)" if "current ?m' (conn_at s d)"
    proof (cases "scanning (c_pc (conn_at s d))")
      case True
      have "past ?m (c_hdr (conn_at s d))" using current_past [OF _ True] invD(2) [OF assms(1) d(1)] by (auto simp: conn_ok_def)
      then show ?thesis using past_salt [OF S, of "c_hdr (conn_at s d)"] that by (simp add: current_def)
    qed simp
    then show "pair_ok ?m' (conn_at s d) (conn_at s e)" using invD(3) [OF assms(1) d] by (simp add: pair_ok_def)
  qed simp
  moreover have "walRestart c s = set_both c ?k' ?m' s"
    using assms(3) h(1) by (simp add: walRestart_def Let_def restarted_state_def)
  ultimately show ?thesis by simp
qed


lemma filled_simps [simp]:
  "view (m\<lparr>sh_nBackfill := x\<rparr>) = view m" "last_of (m\<lparr>sh_nBackfill := x\<rparr>) = last_of m" "past (m\<lparr>sh_nBackfill := x\<rparr>) = past m"
  "leads (m\<lparr>sh_nBackfill := x\<rparr>) = leads m" "current (m\<lparr>sh_nBackfill := x\<rparr>) = current m" "in_db (m\<lparr>sh_nBackfill := x\<rparr>) = in_db m"
  "pair_ok (m\<lparr>sh_nBackfill := x\<rparr>) = pair_ok m"
  by (auto simp: fun_eq_iff view_def last_of_def past_def leads_def current_def in_db_def pair_ok_def)

text \<open>While nothing is committed to a new log, no checkpoint is under way.\<close>

lemma no_work:
  assumes "conn_ok m d" "shared_ok m" "hd_mxFrame (sh_live m) = 0"
    and "c_pc d \<in> {CkIter, CkLock0, CkSalt, CkCopy, CkSize, CkTrunc, CkFill}"
  shows "\<not> current m d \<and> c_pc d \<notin> {CkCopy, CkSize, CkTrunc, CkFill}"
proof -
  have p: "past m (c_hdr d)" using current_past [of m d] assms(1,4) by (auto simp: conn_ok_def scanning_def)
  have "\<not> current m d"
  proof
    assume cur: "current m d"
    then have "hd_mxFrame (c_hdr d) = 0" using past_mx [OF assms(2) p] assms(3) by (simp add: current_def)
    then show False using assms(1,4) cur by (auto simp: conn_ok_def ckpt_ok_def Let_def)
  qed
  then show ?thesis using assms(1) by (auto simp: conn_ok_def ckpt_ok_def Let_def)
qed

lemma unfilled_conn:
  assumes "conn_ok m d" "shared_ok m" "\<not> c_writeLock d" "WAL_READERS \<inter> shared_locks d = {}" "hd_mxFrame (sh_live m) = 0"
  shows "conn_ok (m\<lparr>sh_nBackfill := 0\<rparr>) d"
proof -
  have slot: "i = 0" if "WAL_READ_LOCK i \<in> shared_locks d" "i < 5" for i
  proof -
    have "i = 0 \<or> i = 1 \<or> i = 2 \<or> i = 3 \<or> i = 4" using that(2) by linarith
    then show ?thesis using assms(4) that(1) by (auto simp: WAL_READERS_def)
  qed
  have P: "place_ok d" "head_ok m d" "read_ok m d" "ckpt_ok m d" using assms(1) by (simp_all add: conn_ok_def)
  have "head_ok (m\<lparr>sh_nBackfill := 0\<rparr>) d"
    using P(1,2) assms(3,5) slot by (cases "c_pc d") (auto simp: head_ok_def place_ok_def Let_def shared_locks_def)
  moreover have "read_ok (m\<lparr>sh_nBackfill := 0\<rparr>) d"
  proof (cases "c_readLock d")
    case (Some i)
    then have i: "i = 0" using slot [of i] P(3) by (simp add: read_ok_def shared_locks_def)
    then show ?thesis using P(3) Some assms(5) by (simp add: read_ok_def)
  qed (simp add: read_ok_def)
  moreover have "ckpt_ok (m\<lparr>sh_nBackfill := 0\<rparr>) d"
    using P(4) no_work [OF assms(1,2,5)] by (cases "c_pc d") (simp_all add: ckpt_ok_def Let_def)
  ultimately show ?thesis using P(1) by (simp add: conn_ok_def)
qed

lemma inv_RsFilled:
  assumes "wal_inv s" "c < length (conns s)" "c_pc (conn_at s c) = RsFilled"
  shows "wal_inv (walRestart c s)"
proof -
  let ?m = "shared s" and ?k = "conn_at s c"
  note K = invD(2) [OF assms(1,2)] and S = invD(1) [OF assms(1)]
  have h: "c_hdr ?k = sh_live ?m" "hd_mxFrame (sh_live ?m) = 0" "c_writeLock ?k" "c_readLock ?k = None \<or> c_readLock ?k = Some 0"
    using K assms(3) by (auto simp: conn_ok_def head_ok_def place_ok_def Let_def split: if_splits)
  let ?m' = "?m\<lparr>sh_nBackfill := 0\<rparr>" and ?k' = "?k\<lparr>c_pc := RsMarks\<rparr>"
  have "wal_inv (set_both c ?k' ?m' s)"
  proof (rule inv_both [OF assms(2)])
    have "sh_db ?m p = view ?m (sh_live ?m) p" if "p \<le> hd_nPage (sh_live ?m)" for p
      using S that last_frame_le [of "sh_log ?m" p 0 "hd_mxFrame (sh_live ?m)"] h(2) by (simp add: shared_ok_def last_of_def)
    then show "shared_ok ?m'" using S by (simp add: shared_ok_def)
    have "read_ok ?m' ?k'" using K h(2,4) by (auto simp: conn_ok_def read_ok_def)
    then show "conn_ok ?m' ?k'"
      using K assms(3) h by (simp add: conn_ok_def place_ok_def head_ok_def ckpt_ok_def Let_def)
    fix d assume d: "d < length (conns s)" "d \<noteq> c"
    have comp: "compatible ?k (conn_at s d)" using invD(3) [OF assms(1)] assms(2) d by (auto simp: pair_ok_def)
    show "conn_ok ?m' (conn_at s d)"
      by (rule unfilled_conn [OF invD(2) [OF assms(1) d(1)] S writer_unique [OF assms(1,2) d h(3)] _ h(2)])
        (use comp assms(3) in \<open>auto simp: compatible_def excl_locks_def\<close>)
    have old: "behind (conn_at s d) ?k'" if "current ?m (conn_at s d)"
      using invD(3) [OF assms(1) d(1) assms(2) d(2)] that behind_same [of ?k ?k'] by (simp add: pair_ok_def)
    show "pair_ok ?m' ?k' (conn_at s d) \<and> pair_ok ?m' (conn_at s d) ?k'" unfolding filled_simps
      by (rule pair_step [OF assms(1,2) d, where X = "{}" and Y = "{}"])
        (use old assms(3) in \<open>auto simp: excl_locks_def shared_locks_def scanning_def\<close>)
  next
    show "pair_ok ?m' (conn_at s d) (conn_at s e)" if "d < length (conns s)" "e < length (conns s)" "d \<noteq> e" for d e
      using invD(3) [OF assms(1) that] by simp
  qed simp
  then show ?thesis using assms(3) by (simp add: walRestart_def Let_def)
qed

lemma inv_restart:
  assumes "wal_inv s" "c < length (conns s)"
  shows "wal_inv (walRestart c s)"
proof -
  let ?m = "shared s" and ?k = "conn_at s c"
  note K = invD(2) [OF assms] and S = invD(1) [OF assms(1)]
  note D = conn_ok_def place_ok_def head_ok_def ckpt_ok_def Let_def excl_locks_def shared_locks_def scanning_def
  note B = walRestart_def Let_def wal_pc.case
  have out: "wal_inv (set_conn c (?k\<lparr>c_readLock := None, c_pc := BgScan 1 0 0\<rparr>) s)"
    if "c_pc ?k = RsLock \<or> c_pc ?k = RsRelease \<and> \<not> c_ckptLock ?k"
    by (rule inv_quiet [OF assms, where X = "{}" and Y = "{}"]) (use K S that in \<open>auto simp: D read_ok_def\<close>)
  show ?thesis
  proof (cases "c_pc ?k")
    case RsLock
    have "wal_inv (set_conn c (?k\<lparr>c_pc := RsHdr\<rparr>) s)" if "can_excl s c WAL_READERS"
      by (rule inv_quiet [OF assms, where X = "WAL_READERS" and Y = "{}"])
        (use K RsLock that in \<open>auto simp: D read_ok_def\<close>)
    then show ?thesis unfolding B RsLock using out RsLock by simp
  next
    case RsHdr
    then show ?thesis by (rule inv_RsHdr [OF assms])
  next
    case RsFilled
    then show ?thesis by (rule inv_RsFilled [OF assms])
  next
    case RsMarks
    let ?x = "sh_marks ?m ! 0 # 0 # replicate (WAL_NREADER - 2) READMARK_NOT_USED"
      and ?k' = "?k\<lparr>c_pc := if c_ckptLock ?k then RsLog else RsRelease\<rparr>"
    have slots: "WAL_READ_LOCK j \<in> WAL_READERS" if "j < 5" "?x ! j \<noteq> sh_marks ?m ! j" for j
    proof -
      have "j = 0 \<or> j = 1 \<or> j = 2 \<or> j = 3 \<or> j = 4" using that(1) by linarith
      then show ?thesis using that(2) by (auto simp: WAL_READERS_def)
    qed
    have h: "c_hdr ?k = sh_live ?m" "hd_mxFrame (sh_live ?m) = 0" "sh_nBackfill ?m = 0" "c_writeLock ?k"
      and r: "c_readLock ?k = None \<or> c_readLock ?k = Some 0"
      using K RsMarks by (auto simp: conn_ok_def head_ok_def place_ok_def Let_def split: if_splits)
    have "read_ok (?m\<lparr>sh_marks := ?x\<rparr>) ?k'" using K r by (auto simp: conn_ok_def read_ok_def)
    then have own: "conn_ok (?m\<lparr>sh_marks := ?x\<rparr>) ?k'" using K RsMarks h by (simp add: conn_ok_def head_ok_def place_ok_def ckpt_ok_def Let_def)
    have "wal_inv (set_both c ?k' (?m\<lparr>sh_marks := ?x\<rparr>) s)"
      by (rule inv_marks [OF assms own])
        (use RsMarks slots in \<open>auto simp: excl_locks_def shared_locks_def scanning_def WAL_NREADER_def\<close>)
    then show ?thesis unfolding B RsMarks .
  next
    case RsLog
    have h: "c_hdr ?k = sh_live ?m" "hd_mxFrame (sh_live ?m) = 0" "c_writeLock ?k"
      using K RsLog by (auto simp: conn_ok_def head_ok_def place_ok_def Let_def)
    have same: "same_commits ?m (?m\<lparr>sh_log := []\<rparr>)" by (auto simp: same_commits_def h(2))
    have "conn_ok (?m\<lparr>sh_log := []\<rparr>) ?k" by (rule same_commits_conn [OF same S K]) (simp add: h)
    then have own: "conn_ok (?m\<lparr>sh_log := []\<rparr>) (?k\<lparr>c_pc := RsRelease\<rparr>)"
      using RsLog by (simp add: conn_ok_def head_ok_def place_ok_def ckpt_ok_def Let_def)
    show ?thesis unfolding B RsLog
      by (rule inv_log [OF assms same own h(3)]) (use RsLog in \<open>auto simp: excl_locks_def shared_locks_def scanning_def\<close>)
  next
    case RsRelease
    have "wal_inv (set_conn c (?k\<lparr>c_pc := Idle, c_writeLock := False, c_ckptLock := False\<rparr>) s)" if "c_ckptLock ?k"
      by (rule inv_quiet [OF assms, where X = "{}" and Y = "{}"]) (use K RsRelease that in \<open>auto simp: D read_ok_def\<close>)
    then show ?thesis unfolding B RsRelease using out RsRelease by simp
  qed (use assms in \<open>simp_all add: walRestart_def Let_def\<close>)
qed


section \<open>Checkpoints\<close>

lemma iter_start_le: "iter_start b \<le> b"
proof -
  have "walFramePage (b + 1) * 4096 \<le> b + 34" by (simp add: walFramePage_def wal_sizes)
  then show ?thesis by (auto simp: iter_start_def page_zero_def wal_sizes diff_mult_distrib)
qed

lemma iter_pages_ok:
  assumes "n \<le> length fs"
  shows "(p, f) \<in> set (iter_pages fs b n) \<Longrightarrow> b < f \<Longrightarrow> f = last_frame fs p 0 n"
    and "b < last_frame fs p 0 n \<Longrightarrow> (p, last_frame fs p 0 n) \<in> set (iter_pages fs b n)"
proof -
  assume "(p, f) \<in> set (iter_pages fs b n)" "b < f"
  then have "f = last_frame fs p (iter_start b) n" "f \<noteq> 0" by (auto simp: iter_pages_def)
  then show "f = last_frame fs p 0 n" using last_frame_cut [OF assms, of p "iter_start b"] by (simp split: if_splits)
next
  let ?f = "last_frame fs p 0 n"
  assume b: "b < ?f"
  have f: "iter_start b < ?f" "?f \<le> n" using b iter_start_le [of b] last_frame_le [of fs p 0 n] by simp_all
  have "drop (iter_start b) (take n fs) ! (?f - 1 - iter_start b) = fs ! (?f - 1)" using f assms by simp
  moreover have "?f - 1 - iter_start b < length (drop (iter_start b) (take n fs))" using f assms by simp
  ultimately have "fs ! (?f - 1) \<in> set (drop (iter_start b) (take n fs))" by (metis nth_mem)
  moreover have "fst (fs ! (?f - 1)) = p" using last_frame_page [of fs p 0 n] b assms by simp
  ultimately have "p \<in> set (map fst (drop (iter_start b) (take n fs)))" by (metis image_eqI set_map)
  then show "(p, ?f) \<in> set (iter_pages fs b n)"
    using last_frame_cut [OF assms, of p "iter_start b"] f(1) by (auto simp: iter_pages_def)
qed

lemma slot_free:
  assumes "compatible k d" "WAL_READ_LOCK i \<in> excl_locks k"
  shows "c_readLock d \<noteq> Some i"
  using assms by (auto simp: compatible_def shared_locks_def)

text \<open>The database is written to under the lock of slot 0.\<close>

lemma db_simps [simp]:
  "view (m\<lparr>sh_db := x\<rparr>) = view m" "last_of (m\<lparr>sh_db := x\<rparr>) = last_of m" "past (m\<lparr>sh_db := x\<rparr>) = past m"
  "leads (m\<lparr>sh_db := x\<rparr>) = leads m" "current (m\<lparr>sh_db := x\<rparr>) = current m" "to_copy (m\<lparr>sh_db := x\<rparr>) = to_copy m"
  "todo_ok (m\<lparr>sh_db := x\<rparr>) = todo_ok m" "pair_ok (m\<lparr>sh_db := x\<rparr>) = pair_ok m" "head_ok (m\<lparr>sh_db := x\<rparr>) = head_ok m"
proof -
  show *: "view (m\<lparr>sh_db := x\<rparr>) = view m" "last_of (m\<lparr>sh_db := x\<rparr>) = last_of m" "past (m\<lparr>sh_db := x\<rparr>) = past m"
    "leads (m\<lparr>sh_db := x\<rparr>) = leads m" "current (m\<lparr>sh_db := x\<rparr>) = current m" "to_copy (m\<lparr>sh_db := x\<rparr>) = to_copy m"
    "todo_ok (m\<lparr>sh_db := x\<rparr>) = todo_ok m" "pair_ok (m\<lparr>sh_db := x\<rparr>) = pair_ok m"
    by (auto simp: fun_eq_iff view_def last_of_def past_def leads_def current_def to_copy_def todo_ok_def pair_ok_def)
  show "head_ok (m\<lparr>sh_db := x\<rparr>) = head_ok m"
  proof
    fix k
    show "head_ok (m\<lparr>sh_db := x\<rparr>) k = head_ok m k" by (cases "c_pc k") (simp_all add: head_ok_def Let_def *)
  qed
qed

lemma no_other_ckpt:
  assumes "wal_inv s" "c < length (conns s)" "d < length (conns s)" "d \<noteq> c" "c_ckptLock (conn_at s c)"
  shows "\<not> c_ckptLock (conn_at s d)"
  using invD(3) [OF assms(1-3)] assms(4,5) ckpt_lock_held [of "conn_at s c"] ckpt_lock_held [of "conn_at s d"]
  by (auto simp: pair_ok_def compatible_def)

lemma scanning_ckpt: "place_ok k \<Longrightarrow> scanning (c_pc k) \<Longrightarrow> c_ckptLock k"
  by (cases "c_pc k") (auto simp: place_ok_def scanning_def Let_def)

text \<open>Pages change whose last frame is behind every reader, or that are past the end of the database.\<close>

lemma inv_db:
  assumes "wal_inv s" "c < length (conns s)" "c_ckptLock (conn_at s c)" "WAL_READ_LOCK 0 \<in> excl_locks (conn_at s c)"
    and "conn_ok ((shared s)\<lparr>sh_db := x\<rparr>) k" "c_pc (conn_at s c) \<noteq> RsFilled"
    and page: "\<And>p h. x p \<noteq> sh_db (shared s) p \<Longrightarrow> h \<in> set (sh_commits (shared s)) \<Longrightarrow> p \<le> hd_nPage h
      \<Longrightarrow> c_mxSafe (conn_at s c) \<le> hd_mxFrame h \<Longrightarrow> sh_nBackfill (shared s) < last_of (shared s) p h"
    and safe: "c_mxSafe (conn_at s c) \<le> hd_mxFrame (sh_live (shared s))"
    and behind: "\<And>d i. d < length (conns s) \<Longrightarrow> d \<noteq> c \<Longrightarrow> c_readLock (conn_at s d) = Some i \<Longrightarrow> i \<noteq> 0
      \<Longrightarrow> c_mxSafe (conn_at s c) \<le> hd_mxFrame (c_start (conn_at s d))"
    and "\<And>d. d < length (conns s) \<Longrightarrow> d \<noteq> c \<Longrightarrow> behind k (conn_at s d)"
    and "excl_locks k \<subseteq> excl_locks (conn_at s c)" "shared_locks k \<subseteq> shared_locks (conn_at s c)" "c_readLock k = None"
  shows "wal_inv (set_both c k ((shared s)\<lparr>sh_db := x\<rparr>) s)"
proof (rule inv_both [OF assms(2) _ assms(5)])
  let ?m = "shared s" let ?m' = "?m\<lparr>sh_db := x\<rparr>"
  note S = invD(1) [OF assms(1)]
  have "x p = sh_db ?m p" if "p \<le> hd_nPage (sh_live ?m)" "last_of ?m p (sh_live ?m) \<le> sh_nBackfill ?m" for p
    using page [of p "sh_live ?m"] that live_in [OF S] safe by fastforce
  then show "shared_ok ?m'" using S by (simp add: shared_ok_def)
  {
    fix d assume d: "d < length (conns s)" "d \<noteq> c"
    have comp: "compatible (conn_at s c) (conn_at s d)" using invD(3) [OF assms(1)] assms(2) d by (auto simp: pair_ok_def)
    have K: "conn_ok ?m (conn_at s d)" by (rule invD(2) [OF assms(1) d(1)])
    have "read_ok ?m' (conn_at s d)"
    proof (cases "c_readLock (conn_at s d)")
      case (Some i)
      have i: "i \<noteq> 0" using slot_free [OF comp assms(4)] Some by auto
      let ?h = "c_start (conn_at s d)"
      have r: "?h \<in> set (sh_commits ?m)" "c_minFrame (conn_at s d) - 1 \<le> sh_nBackfill ?m" "1 \<le> c_minFrame (conn_at s d)"
        using K Some i by (auto simp: conn_ok_def read_ok_def)
      have "x p = sh_db ?m p" if "p \<le> hd_nPage ?h" "last_of ?m p ?h < c_minFrame (conn_at s d)" for p
        using page [OF _ r(1) that(1) behind [OF d Some i]] that(2) r(2,3) by fastforce
      then show ?thesis using K Some i by (simp add: conn_ok_def read_ok_def)
    qed (simp add: read_ok_def)
    moreover have "ckpt_ok ?m' (conn_at s d)"
      using no_other_ckpt [OF assms(1,2) d assms(3)] scanning_ckpt K by (intro ckpt_not_scanning) (auto simp: conn_ok_def)
    ultimately show "conn_ok ?m' (conn_at s d)" using K by (simp add: conn_ok_def)
    have "behind (conn_at s d) k" using assms(13) by simp
    then show "pair_ok ?m' k (conn_at s d) \<and> pair_ok ?m' (conn_at s d) k" unfolding db_simps
      by (intro pair_step [OF assms(1,2) d, where X = "{}" and Y = "{}"]) (use assms(10-12) d in auto)
  }
  show "pair_ok ?m' (conn_at s d) (conn_at s e)" if "d < length (conns s)" "e < length (conns s)" "d \<noteq> e" for d e
    using invD(3) [OF assms(1) that] by simp
  assume "\<And>d. d < length (conns s) \<Longrightarrow> d \<noteq> c \<Longrightarrow> c_pc (conn_at s d) \<noteq> RsFilled"
  then have "c_pc (conn_at s d) \<noteq> RsFilled" if "d < length (conns s)" for d using that assms(6) by blast
  from invD(4) [OF assms(1) this] show "sh_nBackfill ?m' \<le> hd_mxFrame (sh_live ?m')" by simp
qed


lemma commits_comparable:
  assumes "shared_ok m" "h \<in> set (sh_commits m)" "h' \<in> set (sh_commits m)"
  shows "h = h' \<or> leads m h h' \<or> leads m h' h"
proof -
  obtain i j where "i < length (sh_commits m)" "h = sh_commits m ! i" "j < length (sh_commits m)" "h' = sh_commits m ! j"
    using assms(2,3) by (metis in_set_conv_nth)
  moreover have "sorted_wrt (leads m) (sh_commits m)" using assms(1) by (simp add: shared_ok_def)
  ultimately show ?thesis by (metis linorder_neqE_nat sorted_wrt_nth_less)
qed

lemma commits_mx: "shared_ok m \<Longrightarrow> h \<in> set (sh_commits m) \<Longrightarrow> hd_mxFrame h \<le> length (sh_log m)"
  using commits_le [of m h] by (auto simp: leads_def shared_ok_def)

text \<open>What a checkpoint that works under the lock of slot 0 knows.\<close>

lemma working:
  assumes "conn_ok m k" "shared_ok m" "c_pc k \<in> {CkCopy, CkSize, CkTrunc, CkFill}"
  shows "c_hdr k \<in> set (sh_commits m)" "c_mxSafe k \<le> hd_mxFrame (c_hdr k)" "sh_nBackfill m < c_mxSafe k"
    "c_mxSafe k \<le> hd_mxFrame (sh_live m)" "c_readLock k = None" "c_ckptLock k" "WAL_READ_LOCK 0 \<in> excl_locks k" "current m k"
proof -
  have cur: "current m k" and p: "past m (c_hdr k)"
    using assms(1,3) by (auto simp: conn_ok_def ckpt_ok_def head_ok_def Let_def)
  show s: "c_mxSafe k \<le> hd_mxFrame (c_hdr k)" "sh_nBackfill m < c_mxSafe k" "c_readLock k = None" "c_ckptLock k" "WAL_READ_LOCK 0 \<in> excl_locks k"
    using assms(1,3) by (auto simp: conn_ok_def ckpt_ok_def place_ok_def excl_locks_def Let_def)
  show "c_hdr k \<in> set (sh_commits m)" using past_current p cur by (auto simp: current_def)
  show "c_mxSafe k \<le> hd_mxFrame (sh_live m)" using past_mx [OF assms(2) p] cur s(1) by (auto simp: current_def)
  show "current m k" by (rule cur)
qed

lemma behind_working:
  assumes "wal_inv s" "c < length (conns s)" "d < length (conns s)" "d \<noteq> c" "c_pc (conn_at s c) \<in> {CkCopy, CkSize, CkTrunc, CkFill}"
    and "c_readLock (conn_at s d) = Some i" "i \<noteq> 0"
  shows "c_mxSafe (conn_at s c) \<le> hd_mxFrame (c_start (conn_at s d))"
proof -
  have "current (shared s) (conn_at s c)" by (rule working(8) [OF invD(2) [OF assms(1,2)] invD(1) [OF assms(1)] assms(5)])
  then have "behind (conn_at s c) (conn_at s d)" using invD(3) [OF assms(1-3)] assms(4) by (simp add: pair_ok_def)
  then show ?thesis using assms(5-7) by (auto simp: behind_def)
qed

lemma inv_CkCopy:
  assumes "wal_inv s" "c < length (conns s)" "c_pc (conn_at s c) = CkCopy"
  shows "wal_inv (walCheckpointStep c s)"
proof -
  let ?m = "shared s" and ?k = "conn_at s c"
  note K = invD(2) [OF assms(1,2)] and S = invD(1) [OF assms(1)]
  have pc: "c_pc ?k \<in> {CkCopy, CkSize, CkTrunc, CkFill}" using assms(3) by simp
  note W = working [OF K S pc]
  have C: "c_nBackfill ?k = sh_nBackfill ?m" "todo_ok ?m ?k"
    "\<And>p. to_copy ?m ?k p \<Longrightarrow> (p, last_of ?m p (c_hdr ?k)) \<in> set (c_todo ?k) \<or> in_db ?m ?k p"
    using K assms(3) by (auto simp: conn_ok_def ckpt_ok_def Let_def)
  have old: "behind ?k (conn_at s d)" if "d < length (conns s)" "d \<noteq> c" for d
    using invD(3) [OF assms(1,2) that(1)] that(2) W(8) by (simp add: pair_ok_def)
  note D = conn_ok_def place_ok_def head_ok_def ckpt_ok_def read_ok_def Let_def
  show ?thesis
  proof (cases "c_todo ?k")
    case Nil
    have own: "conn_ok ?m (?k\<lparr>c_pc := CkSize\<rparr>)"
      using K assms(3) W C Nil by (auto simp: D current_def to_copy_def in_db_def)
    have "wal_inv (set_conn c (?k\<lparr>c_pc := CkSize\<rparr>) s)"
    proof (rule inv_move [OF assms(1,2) own, where X = "{}" and Y = "{}"])
      show "behind (?k\<lparr>c_pc := CkSize\<rparr>) (conn_at s d)" if "d < length (conns s)" "d \<noteq> c" for d
        using old [OF that] assms(3) by (auto simp: behind_def split: option.splits)
    qed (use assms(3) W(5) in \<open>auto simp: excl_locks_def shared_locks_def\<close>)
    then show ?thesis using Nil assms(3) by (simp add: walCheckpointStep_def)
  next
    case (Cons a todo)
    obtain p f where a: "a = (p, f)" by (cases a)
    let ?k' = "?k\<lparr>c_todo := todo\<rparr>"
    have tail: "todo_ok ?m ?k'" using C(2) Cons by (simp add: todo_ok_def)
    have cong: "to_copy ?m ?k' = to_copy ?m ?k" "in_db ?m ?k' = in_db ?m ?k" "current ?m ?k' = current ?m ?k"
      by (auto simp: to_copy_def in_db_def current_def fun_eq_iff)
    have behind: "behind ?k' (conn_at s d)" if "d < length (conns s)" "d \<noteq> c" for d
      using old [OF that] assms(3) by (auto simp: behind_def split: option.splits)
    show ?thesis
    proof (cases "f \<le> c_nBackfill ?k \<or> f > c_mxSafe ?k \<or> p > hd_nPage (c_hdr ?k)")
      case True
      have "(q, last_of ?m q (c_hdr ?k)) \<in> set todo \<or> in_db ?m ?k q" if "to_copy ?m ?k q" for q
        using C(3) [OF that] that True C(1) Cons a by (auto simp: to_copy_def)
      then have "ckpt_ok ?m ?k'" using assms(3) W C(1) tail by (simp add: ckpt_ok_def Let_def cong)
      then have own: "conn_ok ?m ?k'" using K assms(3) W by (simp add: conn_ok_def place_ok_def head_ok_def read_ok_def Let_def)
      have "wal_inv (set_conn c ?k' s)"
        by (rule inv_move [OF assms(1,2) own, where X = "{}" and Y = "{}"])
          (use assms(3) W(5) behind in \<open>auto simp: excl_locks_def shared_locks_def\<close>)
      then show ?thesis using Cons a assms(3) True by (auto simp: walCheckpointStep_def Let_def)
    next
      case False
      let ?x = "(sh_db ?m)(p := snd (sh_log ?m ! (f - 1)))"
      have f: "f = last_of ?m p (c_hdr ?k)" "sh_nBackfill ?m < f" "f \<le> c_mxSafe ?k"
        using C(1,2) False Cons a by (auto simp: todo_ok_def)
      have "(q, last_of ?m q (c_hdr ?k)) \<in> set todo \<or> in_db (?m\<lparr>sh_db := ?x\<rparr>) ?k q" if "to_copy ?m ?k q" for q
        using C(3) [OF that] Cons a f(1) by (auto simp: in_db_def)
      moreover have "in_db (?m\<lparr>sh_db := ?x\<rparr>) ?k' = in_db (?m\<lparr>sh_db := ?x\<rparr>) ?k" by (simp add: in_db_def fun_eq_iff)
      ultimately have "ckpt_ok (?m\<lparr>sh_db := ?x\<rparr>) ?k'" using assms(3) W C(1) tail by (simp add: ckpt_ok_def Let_def cong)
      then have own: "conn_ok (?m\<lparr>sh_db := ?x\<rparr>) ?k'" using K assms(3) W by (simp add: conn_ok_def place_ok_def head_ok_def read_ok_def Let_def)
      have "wal_inv (set_both c ?k' (?m\<lparr>sh_db := ?x\<rparr>) s)"
      proof (rule inv_db [OF assms(1,2) W(6,7) own])
        fix q h assume q: "?x q \<noteq> sh_db ?m q" "h \<in> set (sh_commits ?m)" "q \<le> hd_nPage h" "c_mxSafe ?k \<le> hd_mxFrame h"
        have "fst (sh_log ?m ! (f - 1)) = p"
          using f(1,2) last_frame_page [OF _ commits_mx [OF S W(1)], of p 0] by (simp add: last_of_def)
        then have "f \<le> last_of ?m p h"
          unfolding last_of_def by (rule last_frame_newest) (use f q commits_mx [OF S q(2)] in auto)
        then show "sh_nBackfill ?m < last_of ?m q h" using q(1) f(2) by (auto split: if_splits)
      qed (use assms W behind behind_working [OF assms(1,2) _ _ pc] in \<open>auto simp: excl_locks_def shared_locks_def\<close>)
      then show ?thesis using Cons a assms(3) False by (auto simp: walCheckpointStep_def Let_def)
    qed
  qed
qed

lemma inv_CkTrunc:
  assumes "wal_inv s" "c < length (conns s)" "c_pc (conn_at s c) = CkTrunc"
  shows "wal_inv (walCheckpointStep c s)"
proof -
  let ?m = "shared s" and ?k = "conn_at s c"
  note K = invD(2) [OF assms(1,2)] and S = invD(1) [OF assms(1)]
  have pc: "c_pc ?k \<in> {CkCopy, CkSize, CkTrunc, CkFill}" using assms(3) by simp
  note W = working [OF K S pc]
  let ?x = "\<lambda>p. if p \<le> hd_nPage (c_hdr ?k) then sh_db ?m p else 0" and ?k' = "?k\<lparr>c_pc := CkFill\<rparr>"
  have all: "c_mxSafe ?k = hd_mxFrame (c_hdr ?k)" "\<And>p. to_copy ?m ?k p \<Longrightarrow> in_db ?m ?k p"
    using K assms(3) by (auto simp: conn_ok_def ckpt_ok_def Let_def)
  have "in_db (?m\<lparr>sh_db := ?x\<rparr>) ?k' p" if "to_copy ?m ?k p" for p using all(2) [OF that] that by (simp add: in_db_def to_copy_def)
  moreover have "to_copy ?m ?k' = to_copy ?m ?k" "current ?m ?k' = current ?m ?k" by (simp_all add: to_copy_def current_def fun_eq_iff)
  ultimately have "ckpt_ok (?m\<lparr>sh_db := ?x\<rparr>) ?k'" using assms(3) W by (simp add: ckpt_ok_def Let_def)
  then have own: "conn_ok (?m\<lparr>sh_db := ?x\<rparr>) ?k'" using K assms(3) W by (simp add: conn_ok_def place_ok_def head_ok_def read_ok_def Let_def)
  have old: "behind ?k' (conn_at s d)" if "d < length (conns s)" "d \<noteq> c" for d
    using invD(3) [OF assms(1,2) that(1)] that(2) W(8) assms(3) by (auto simp: pair_ok_def behind_def split: option.splits)
  have "wal_inv (set_both c ?k' (?m\<lparr>sh_db := ?x\<rparr>) s)"
  proof (rule inv_db [OF assms(1,2) W(6,7) own])
    fix q h assume q: "?x q \<noteq> sh_db ?m q" "h \<in> set (sh_commits ?m)" "q \<le> hd_nPage h" "c_mxSafe ?k \<le> hd_mxFrame h"
    then have "hd_nPage (c_hdr ?k) < q" by (auto split: if_splits)
    moreover have "leads ?m (c_hdr ?k) h"
      using commits_comparable [OF S W(1) q(2)] q(3,4) all(1) calculation by (auto simp: leads_def)
    ultimately show "sh_nBackfill ?m < last_of ?m q h" using q(3) W(2,3) by (fastforce simp: leads_def)
  qed (use assms W old behind_working [OF assms(1,2) _ _ pc] in \<open>auto simp: excl_locks_def shared_locks_def\<close>)
  then show ?thesis using assms(3) by (simp add: walCheckpointStep_def Let_def)
qed


lemma filled_conn:
  assumes "conn_ok m d" "sh_nBackfill m < f" "f \<le> hd_mxFrame (sh_live m)" "c_readLock d \<noteq> Some 0" "\<not> scanning (c_pc d)"
  shows "conn_ok (m\<lparr>sh_nBackfill := f\<rparr>) d"
proof -
  have P: "place_ok d" "head_ok m d" "read_ok m d" using assms(1) by (simp_all add: conn_ok_def)
  have "head_ok (m\<lparr>sh_nBackfill := f\<rparr>) d" using P(2) assms(2,3) by (cases "c_pc d") (auto simp: head_ok_def Let_def)
  moreover have "read_ok (m\<lparr>sh_nBackfill := f\<rparr>) d"
    using P(3) assms(2,4) by (cases "c_readLock d") (auto simp: read_ok_def)
  ultimately show ?thesis using P(1) ckpt_not_scanning [OF assms(5)] by (simp add: conn_ok_def)
qed

lemma inv_CkFill:
  assumes "wal_inv s" "c < length (conns s)" "c_pc (conn_at s c) = CkFill"
  shows "wal_inv (walCheckpointStep c s)"
proof -
  let ?m = "shared s" and ?k = "conn_at s c"
  note K = invD(2) [OF assms(1,2)] and S = invD(1) [OF assms(1)]
  have pc: "c_pc ?k \<in> {CkCopy, CkSize, CkTrunc, CkFill}" using assms(3) by simp
  note W = working [OF K S pc]
  let ?m' = "?m\<lparr>sh_nBackfill := c_mxSafe ?k\<rparr>" and ?k' = "?k\<lparr>c_pc := CkFree0\<rparr>"
  have all: "in_db ?m ?k p" if "to_copy ?m ?k p" for p using K assms(3) that by (auto simp: conn_ok_def ckpt_ok_def Let_def)
  have "sh_db ?m p = view ?m (sh_live ?m) p" if p: "p \<le> hd_nPage (sh_live ?m)" "last_of ?m p (sh_live ?m) \<le> c_mxSafe ?k" for p
  proof (cases "last_of ?m p (sh_live ?m) \<le> sh_nBackfill ?m")
    case True
    then show ?thesis using S p by (simp add: shared_ok_def)
  next
    case False
    have mx: "hd_mxFrame (c_hdr ?k) \<le> hd_mxFrame (sh_live ?m)" and len: "hd_mxFrame (sh_live ?m) \<le> length (sh_log ?m)"
      using commits_le [OF S W(1)] S by (auto simp: leads_def shared_ok_def)
    have same: "last_of ?m p (sh_live ?m) = last_of ?m p (c_hdr ?k)"
      using last_frame_more(2) [OF mx len, of p] p(2) W(2) by (simp add: last_of_def)
    have "p \<le> hd_nPage (c_hdr ?k)"
    proof (rule ccontr)
      assume "\<not> p \<le> hd_nPage (c_hdr ?k)"
      then have "hd_mxFrame (c_hdr ?k) < last_of ?m p (sh_live ?m)" using commits_le [OF S W(1)] p(1) by (auto simp: leads_def)
      then show False using p(2) W(2) by simp
    qed
    then have "in_db ?m ?k p" using all [of p] False p same by (simp add: to_copy_def)
    then show ?thesis using False same by (simp add: in_db_def view_def over_def last_of_def Let_def)
  qed
  then have S': "shared_ok ?m'" using S by (simp add: shared_ok_def)
  have own: "conn_ok ?m' ?k'"
    using K assms(3) W(5,6) by (simp add: conn_ok_def place_ok_def head_ok_def read_ok_def ckpt_ok_def Let_def)
  have "wal_inv (set_both c ?k' ?m' s)"
  proof (rule inv_both [OF assms(2) S' own])
    fix d assume d: "d < length (conns s)" "d \<noteq> c"
    have comp: "compatible ?k (conn_at s d)" using invD(3) [OF assms(1)] assms(2) d by (auto simp: pair_ok_def)
    have Kd: "conn_ok ?m (conn_at s d)" by (rule invD(2) [OF assms(1) d(1)])
    show "conn_ok ?m' (conn_at s d)"
    proof (rule filled_conn [OF Kd W(3,4) slot_free [OF comp W(7)]])
      show "\<not> scanning (c_pc (conn_at s d))"
        using no_other_ckpt [OF assms(1,2) d W(6)] scanning_ckpt Kd by (auto simp: conn_ok_def)
    qed
    show "pair_ok ?m' ?k' (conn_at s d) \<and> pair_ok ?m' (conn_at s d) ?k'" unfolding filled_simps
      by (rule pair_step [OF assms(1,2) d, where X = "{}" and Y = "{}"])
        (use assms(3) W(5) in \<open>auto simp: excl_locks_def shared_locks_def scanning_def\<close>)
  next
    show "pair_ok ?m' (conn_at s d) (conn_at s e)" if "d < length (conns s)" "e < length (conns s)" "d \<noteq> e" for d e
      using invD(3) [OF assms(1) that] by simp
    show "sh_nBackfill ?m' \<le> hd_mxFrame (sh_live ?m')" using W(4) by simp
  qed
  then show ?thesis using assms(3) by (simp add: walCheckpointStep_def Let_def)
qed

lemma inv_checkpoint:
  assumes "wal_inv s" "c < length (conns s)"
  shows "wal_inv (walCheckpointStep c s)"
proof -
  let ?m = "shared s" and ?k = "conn_at s c"
  note K = invD(2) [OF assms] and S = invD(1) [OF assms(1)]
  note D = conn_ok_def place_ok_def head_ok_def ckpt_ok_def read_ok_def Let_def excl_locks_def shared_locks_def scanning_def
  note B = walCheckpointStep_def Let_def wal_pc.case
  note q = inv_quiet [OF assms, where X = "{}" and Y = "{}"]
  note mv = inv_move [OF assms, where X = "{}" and Y = "{}"]
  have marks: "sh_marks ?m ! j \<le> hd_mxFrame (c_start (conn_at s d))"
    if "d < length (conns s)" "c_readLock (conn_at s d) = Some j" "j \<noteq> 0" for d j
    using invD(2) [OF assms(1) that(1)] that(2,3) by (simp add: conn_ok_def read_ok_def)
  have slots: "j < 5" if "d < length (conns s)" "c_readLock (conn_at s d) = Some j" for d j
    using invD(2) [OF assms(1) that(1)] that(2) by (simp add: conn_ok_def read_ok_def)
  have old: "behind ?k (conn_at s d)" if "d < length (conns s)" "d \<noteq> c" "current ?m ?k" for d
    using invD(3) [OF assms that(1)] that(2,3) by (simp add: pair_ok_def)
  have comp: "compatible ?k (conn_at s d)" if "d < length (conns s)" "d \<noteq> c" for d
    using invD(3) [OF assms that(1)] that(2) by (simp add: pair_ok_def)
  have cur: "current ?m (?k\<lparr>c_pc := a\<rparr>) = current ?m ?k" "current ?m (?k\<lparr>c_mxSafe := y, c_pc := a\<rparr>) = current ?m ?k"
    "current ?m (?k\<lparr>c_todo := t, c_pc := a\<rparr>) = current ?m ?k" "current ?m (?k\<lparr>c_nBackfill := b, c_pc := a\<rparr>) = current ?m ?k" for a y t b
    by (simp_all add: current_def)
  have leave: "wal_inv (set_conn c (leave ?k) s)" if "c_pc ?k \<noteq> RsFilled" by (rule inv_ends(6) [OF assms that])
  show ?thesis
  proof (cases "c_pc ?k")
    case CkWrite
    have "wal_inv (set_conn c (?k\<lparr>c_pc := CkHdr\<rparr>) s)" if "c_mode ?k = CHECKPOINT_PASSIVE"
      by (rule q) (use K CkWrite that in \<open>auto simp: D\<close>)
    moreover have "wal_inv (set_conn c (?k\<lparr>c_mode := CHECKPOINT_PASSIVE, c_pc := CkHdr\<rparr>) s)"
      by (rule q) (use K CkWrite in \<open>auto simp: D\<close>)
    moreover have "wal_inv (set_conn c (?k\<lparr>c_writeLock := True, c_pc := CkHdr\<rparr>) s)" if "can_excl s c {WAL_WRITE_LOCK}"
      by (rule inv_quiet [OF assms, where X = "{WAL_WRITE_LOCK}" and Y = "{}"]) (use K CkWrite that in \<open>auto simp: D\<close>)
    ultimately show ?thesis unfolding B CkWrite by simp
  next
    case CkHdr
    show ?thesis unfolding B CkHdr by (rule q) (use K S CkHdr in \<open>auto simp: D\<close>)
  next
    case CkTest
    have "wal_inv (set_conn c (?k\<lparr>c_mxSafe := hd_mxFrame (c_hdr ?k), c_pc := CkScan 1\<rparr>) s)"
      by (rule mv) (use K CkTest in \<open>auto simp: D behind_def split: option.splits\<close>)
    moreover have "wal_inv (set_conn c (?k\<lparr>c_pc := CkMode\<rparr>) s)" by (rule q) (use K CkTest in \<open>auto simp: D\<close>)
    ultimately show ?thesis unfolding B CkTest by simp
  next
    case (CkScan i)
    let ?y = "sh_marks ?m ! i"
    have go: "wal_inv (set_conn c (?k\<lparr>c_pc := a\<rparr>) s)"
      if a: "a = CkTry i ?y \<and> i < 5 \<and> ?y < c_mxSafe ?k \<or> a = CkScan (i + 1) \<and> c_mxSafe ?k \<le> ?y \<or> a = CkIter \<and> 5 \<le> i \<and> sh_nBackfill ?m < c_mxSafe ?k" for a
    proof (rule mv)
      show "conn_ok ?m (?k\<lparr>c_pc := a\<rparr>)" using K CkScan a by (auto simp: D cur)
      show "behind (?k\<lparr>c_pc := a\<rparr>) (conn_at s d)" if d: "d < length (conns s)" "d \<noteq> c" "current ?m (?k\<lparr>c_pc := a\<rparr>)" for d
      proof (cases "c_readLock (conn_at s d)")
        case (Some j)
        show ?thesis
        proof (cases "j = 0")
          case False
          show ?thesis using old [OF d(1,2)] d(3) marks [OF d(1) Some False] slots [OF d(1) Some] False Some CkScan a
            by (auto simp: behind_def cur Let_def less_Suc_eq)
        qed (simp add: behind_def Some)
      qed (simp add: behind_def)
    qed (use CkScan a in \<open>auto simp: excl_locks_def shared_locks_def\<close>)
    moreover have "wal_inv (set_conn c (?k\<lparr>c_pc := CkMode\<rparr>) s)" by (rule q) (use K CkScan in \<open>auto simp: D\<close>)
    ultimately show ?thesis unfolding B CkScan by (simp add: WAL_NREADER_def)
  next
    case (CkTry i y)
    have "wal_inv (set_conn c (?k\<lparr>c_pc := CkMark i\<rparr>) s)" if "can_excl s c {WAL_READ_LOCK i}"
    proof (rule inv_move [OF assms, where X = "{WAL_READ_LOCK i}" and Y = "{}"])
      show "behind (?k\<lparr>c_pc := CkMark i\<rparr>) (conn_at s d)" if "d < length (conns s)" "d \<noteq> c" "current ?m (?k\<lparr>c_pc := CkMark i\<rparr>)" for d
        using old [OF that(1,2)] that(3) CkTry by (auto simp: behind_def cur Let_def split: option.splits)
    qed (use K CkTry that in \<open>auto simp: D\<close>)
    moreover have "wal_inv (set_conn c (?k\<lparr>c_mxSafe := y, c_pc := CkScan (i + 1)\<rparr>) s)"
    proof (rule mv)
      show "behind (?k\<lparr>c_mxSafe := y, c_pc := CkScan (i + 1)\<rparr>) (conn_at s d)"
        if "d < length (conns s)" "d \<noteq> c" "current ?m (?k\<lparr>c_mxSafe := y, c_pc := CkScan (i + 1)\<rparr>)" for d
      proof -
        have "y < c_mxSafe ?k" using K CkTry by (simp add: conn_ok_def ckpt_ok_def Let_def)
        then show ?thesis using old [OF that(1,2)] that(3) CkTry
          by (auto simp: behind_def cur Let_def less_Suc_eq split: option.splits)
      qed
    qed (use K CkTry in \<open>auto simp: D\<close>)
    ultimately show ?thesis unfolding B CkTry by simp
  next
    case (CkMark i)
    let ?x = "(sh_marks ?m)[i := if i = 1 then c_mxSafe ?k else READMARK_NOT_USED]"
    have i: "i < 5" "c_readLock ?k = None" using K CkMark by (simp_all add: conn_ok_def place_ok_def Let_def)
    show ?thesis unfolding B CkMark
    proof (rule inv_marks [OF assms])
      show "conn_ok (?m\<lparr>sh_marks := ?x\<rparr>) (?k\<lparr>c_pc := CkRelease i\<rparr>)" using K CkMark i by (auto simp: D)
      show "length ?x = 5" using S by (simp add: shared_ok_def)
      show "WAL_READ_LOCK j \<in> excl_locks ?k" if "j < 5" "?x ! j \<noteq> sh_marks ?m ! j" for j
        using that CkMark by (cases "j = i") (simp_all add: excl_locks_def)
      show "behind (?k\<lparr>c_pc := CkRelease i\<rparr>) (conn_at s d)" if "d < length (conns s)" "d \<noteq> c" "current ?m (?k\<lparr>c_pc := CkRelease i\<rparr>)" for d
        using old [OF that(1,2)] that(3) CkMark by (auto simp: behind_def cur Let_def split: option.splits)
    qed (use CkMark i in \<open>auto simp: excl_locks_def shared_locks_def\<close>)
  next
    case (CkRelease i)
    show ?thesis unfolding B CkRelease
    proof (rule mv)
      show "behind (?k\<lparr>c_pc := CkScan (i + 1)\<rparr>) (conn_at s d)" if d: "d < length (conns s)" "d \<noteq> c" "current ?m (?k\<lparr>c_pc := CkScan (i + 1)\<rparr>)" for d
      proof -
        have "c_readLock (conn_at s d) \<noteq> Some i" by (rule slot_free [OF comp [OF d(1,2)]]) (simp add: excl_locks_def CkRelease)
        then show ?thesis using old [OF d(1,2)] d(3) CkRelease by (auto simp: behind_def cur Let_def less_Suc_eq split: option.splits)
      qed
    qed (use K CkRelease in \<open>auto simp: D\<close>)
  next
    case CkIter
    let ?t = "iter_pages (sh_log ?m) (sh_nBackfill ?m) (hd_mxFrame (c_hdr ?k))"
    let ?k' = "?k\<lparr>c_todo := ?t, c_pc := CkLock0\<rparr>"
    have P: "past ?m (c_hdr ?k)" "c_readLock ?k = None" "c_mxSafe ?k \<le> hd_mxFrame (c_hdr ?k)" "current ?m ?k \<Longrightarrow> sh_nBackfill ?m < c_mxSafe ?k"
      using K CkIter by (auto simp: conn_ok_def place_ok_def head_ok_def ckpt_ok_def Let_def)
    have "todo_ok ?m ?k' \<and> (\<forall>p. to_copy ?m ?k' p \<longrightarrow> (p, last_of ?m p (c_hdr ?k)) \<in> set ?t)" if "current ?m ?k"
    proof -
      have "c_hdr ?k \<in> set (sh_commits ?m)" by (rule past_current [OF P(1)]) (use that in \<open>simp add: current_def\<close>)
      note I = iter_pages_ok [OF commits_mx [OF S this], where b = "sh_nBackfill ?m"]
      show ?thesis using I by (auto simp: todo_ok_def to_copy_def last_of_def)
    qed
    then have "ckpt_ok ?m ?k'" using P(3,4) by (simp add: ckpt_ok_def Let_def cur)
    then have own: "conn_ok ?m ?k'" using K CkIter by (simp add: conn_ok_def place_ok_def head_ok_def read_ok_def Let_def)
    have "wal_inv (set_conn c ?k' s)"
    proof (rule mv [OF own])
      show "behind ?k' (conn_at s d)" if "d < length (conns s)" "d \<noteq> c" "current ?m ?k'" for d
        using old [OF that(1,2)] that(3) CkIter by (auto simp: behind_def cur Let_def split: option.splits)
    qed (use CkIter P(2) in \<open>auto simp: excl_locks_def shared_locks_def\<close>)
    then show ?thesis unfolding B CkIter .
  next
    case CkLock0
    have "wal_inv (set_conn c (?k\<lparr>c_pc := CkSalt\<rparr>) s)" if "can_excl s c {WAL_READ_LOCK 0}"
    proof (rule inv_move [OF assms, where X = "{WAL_READ_LOCK 0}" and Y = "{}"])
      have "todo_ok ?m (?k\<lparr>c_pc := CkSalt\<rparr>) = todo_ok ?m ?k" "to_copy ?m (?k\<lparr>c_pc := CkSalt\<rparr>) = to_copy ?m ?k"
        by (simp_all add: todo_ok_def to_copy_def fun_eq_iff)
      then show "conn_ok ?m (?k\<lparr>c_pc := CkSalt\<rparr>)" using K CkLock0 by (simp add: conn_ok_def place_ok_def head_ok_def ckpt_ok_def Let_def cur)
      show "behind (?k\<lparr>c_pc := CkSalt\<rparr>) (conn_at s d)" if "d < length (conns s)" "d \<noteq> c" "current ?m (?k\<lparr>c_pc := CkSalt\<rparr>)" for d
        using old [OF that(1,2)] that(3) CkLock0 by (auto simp: behind_def cur Let_def split: option.splits)
    qed (use K CkLock0 that in \<open>auto simp: conn_ok_def place_ok_def Let_def excl_locks_def shared_locks_def\<close>)
    moreover have "wal_inv (set_conn c (?k\<lparr>c_pc := CkMode\<rparr>) s)" by (rule q) (use K CkLock0 in \<open>auto simp: D\<close>)
    ultimately show ?thesis unfolding B CkLock0 by simp
  next
    case CkSalt
    let ?k' = "?k\<lparr>c_nBackfill := sh_nBackfill ?m, c_pc := CkCopy\<rparr>"
    have "wal_inv (set_conn c ?k' s)" if salt: "hd_salt (sh_live ?m) = hd_salt (c_hdr ?k)"
    proof (rule mv)
      have "todo_ok ?m ?k' = todo_ok ?m ?k" "to_copy ?m ?k' = to_copy ?m ?k" "in_db ?m ?k' = in_db ?m ?k"
        by (simp_all add: todo_ok_def to_copy_def in_db_def fun_eq_iff)
      moreover have "current ?m ?k" using salt by (simp add: current_def)
      ultimately show "conn_ok ?m ?k'" using K CkSalt by (simp add: conn_ok_def place_ok_def head_ok_def ckpt_ok_def read_ok_def Let_def cur)
      show "behind ?k' (conn_at s d)" if "d < length (conns s)" "d \<noteq> c" "current ?m ?k'" for d
        using old [OF that(1,2)] that(3) CkSalt by (auto simp: behind_def cur Let_def split: option.splits)
    qed (use K CkSalt in \<open>auto simp: conn_ok_def place_ok_def Let_def excl_locks_def shared_locks_def\<close>)
    moreover have "wal_inv (set_conn c (?k\<lparr>c_pc := CkFree0\<rparr>) s)" by (rule q) (use K CkSalt in \<open>auto simp: D\<close>)
    ultimately show ?thesis unfolding B CkSalt by simp
  next
    case CkCopy
    then show ?thesis by (rule inv_CkCopy [OF assms])
  next
    case CkSize
    have pc: "c_pc ?k \<in> {CkCopy, CkSize, CkTrunc, CkFill}" using CkSize by simp
    note W = working [OF K S pc]
    have mx: "hd_mxFrame (c_hdr ?k) \<le> hd_mxFrame (sh_live ?m)" using commits_le [OF S W(1)] by (auto simp: leads_def)
    have go: "wal_inv (set_conn c (?k\<lparr>c_pc := a\<rparr>) s)"
      if a: "a = CkFill \<or> a = CkTrunc \<and> c_mxSafe ?k = hd_mxFrame (sh_live ?m)" for a
    proof (rule mv)
      have "to_copy ?m (?k\<lparr>c_pc := a\<rparr>) = to_copy ?m ?k" "in_db ?m (?k\<lparr>c_pc := a\<rparr>) = in_db ?m ?k"
        by (simp_all add: to_copy_def in_db_def fun_eq_iff)
      then show "conn_ok ?m (?k\<lparr>c_pc := a\<rparr>)"
        using K CkSize a W(2) mx by (auto simp: conn_ok_def place_ok_def head_ok_def ckpt_ok_def Let_def cur)
      show "behind (?k\<lparr>c_pc := a\<rparr>) (conn_at s d)" if "d < length (conns s)" "d \<noteq> c" "current ?m (?k\<lparr>c_pc := a\<rparr>)" for d
        using old [OF that(1,2)] that(3) CkSize a by (auto simp: behind_def cur Let_def split: option.splits)
    qed (use CkSize a W(5) in \<open>auto simp: excl_locks_def shared_locks_def\<close>)
    then show ?thesis unfolding B CkSize by simp
  next
    case CkTrunc
    then show ?thesis by (rule inv_CkTrunc [OF assms])
  next
    case CkFill
    then show ?thesis by (rule inv_CkFill [OF assms])
  next
    case CkFree0
    show ?thesis unfolding B CkFree0 by (rule q) (use K CkFree0 in \<open>auto simp: D\<close>)
  next
    case CkMode
    have "wal_inv (set_conn c (?k\<lparr>c_pc := RsHdr\<rparr>) s)"
      if "c_mode ?k = CHECKPOINT_TRUNCATE" "hd_mxFrame (c_hdr ?k) \<le> sh_nBackfill ?m" "can_excl s c WAL_READERS"
      by (rule inv_quiet [OF assms, where X = "WAL_READERS" and Y = "{}"]) (use K CkMode that in \<open>auto simp: D\<close>)
    then show ?thesis unfolding B CkMode using leave CkMode by simp
  qed (use assms in \<open>simp_all add: walCheckpointStep_def Let_def\<close>)
qed


section \<open>The invariant holds\<close>

lemma inv_new: "wal_inv (new_system k n x)"
proof -
  have "compatible new_conn new_conn" by (simp add: compatible_def new_conn_def excl_locks_def shared_locks_def)
  moreover have "\<not> scanning (c_pc (new_conn :: 'a wal_conn))" by (simp add: new_conn_def scanning_def)
  ultimately have "pair_ok m new_conn new_conn" for m :: "'a wal_shared" by (simp add: pair_ok_def)
  moreover have "conn_ok m new_conn" for m :: "'a wal_shared"
    by (simp add: conn_ok_def place_ok_def head_ok_def read_ok_def ckpt_ok_def new_conn_def Let_def)
  ultimately show ?thesis
    by (simp add: wal_inv_def new_system_def Let_def conn_at_def shared_ok_def view_def over_def last_of_def last_frame_def)
qed

lemma inv_step: "wal_step s s' \<Longrightarrow> wal_inv s \<Longrightarrow> wal_inv s'"
  by (induction rule: wal_step.induct)
    (simp_all add: inv_begin inv_begin_write inv_ends inv_restart inv_write_frame inv_commit inv_checkpoint)

lemma inv_reachable: "wal_reachable s \<Longrightarrow> wal_inv s"
  by (induction rule: wal_reachable.induct) (auto intro: inv_new inv_step)

end
