(* ===== verification/WalIsolation.thy ===== *)
theory WalIsolation
  imports WalProtocolInv
begin

text \<open>
  What the protocol promises: readers keep their snapshot, a writer works on the latest commit, a connection that is
  alone gets to read; and what happens when a process dies in the one place the protocol does not cover.
\<close>

section \<open>Steps of the others\<close>

definition other_step :: "nat \<Rightarrow> ('a :: zero) wal_system \<Rightarrow> 'a wal_system \<Rightarrow> bool" where
  "other_step c s s' = (wal_step s s' \<and> conn_at s' c = conn_at s c)"

lemma conns_length:
  "length (conns (start_read c s)) = length (conns s)" "length (conns (walTryBeginRead c s)) = length (conns s)"
  "length (conns (walBeginWrite c s)) = length (conns s)" "length (conns (start_restart c s)) = length (conns s)"
  "length (conns (walRestart c s)) = length (conns s)" "length (conns (write_frame c p x s)) = length (conns s)"
  "length (conns (rewrite_frame c i x s)) = length (conns s)" "length (conns (commit c n s)) = length (conns s)"
  "length (conns (rollback c s)) = length (conns s)" "length (conns (end_write c s)) = length (conns s)"
  "length (conns (start_checkpoint c mode s)) = length (conns s)" "length (conns (walCheckpointStep c s)) = length (conns s)"
  by (simp_all add: start_read_def walTryBeginRead_def walBeginWrite_def start_restart_def walRestart_def write_frame_def
      rewrite_frame_def commit_def rollback_def end_write_def start_checkpoint_def walCheckpointStep_def Let_def
      split: wal_pc.splits list.splits)

lemma wal_step_length: "wal_step s s' \<Longrightarrow> length (conns s') = length (conns s)"
  by (induction rule: wal_step.induct) (simp_all add: conns_length)

lemma others_reachable:
  assumes "(other_step c)\<^sup>*\<^sup>* s s'" "wal_reachable s"
  shows "wal_reachable s' \<and> conn_at s' c = conn_at s c \<and> length (conns s') = length (conns s)"
  using assms(1)
proof induction
  case base
  then show ?case using assms(2) by simp
next
  case (step t u)
  then show ?case using wal_reachable.step [of t u] wal_step_length [of t u] by (auto simp: other_step_def)
qed

section \<open>Reading\<close>

text \<open>The lookup of a reader in the terms of the invariant.\<close>

lemma read_page_frames:
  assumes "c_readLock k \<noteq> Some 0" "1 \<le> c_minFrame k" "hd_mxFrame (c_hdr k) \<le> length (sh_log m)"
  shows "read_page m k p =
    (if c_minFrame k \<le> last_of m p (c_hdr k) then snd (sh_log m ! (last_of m p (c_hdr k) - 1)) else sh_db m p)"
proof -
  have e: "c_minFrame k - 1 + 1 = c_minFrame k" using assms(2) by simp
  have "last_hit (in_log (map fst (sh_log m)) p (c_minFrame k)) (hd_mxFrame (c_hdr k))
      = last_frame (sh_log m) p (c_minFrame k - 1) (hd_mxFrame (c_hdr k))"
    unfolding last_frame_def e by (rule refl)
  also have "\<dots> = (if c_minFrame k \<le> last_of m p (c_hdr k) then last_of m p (c_hdr k) else 0)"
    using last_frame_cut [OF assms(3), of p "c_minFrame k - 1"] assms(2) by (auto simp: last_of_def)
  finally show ?thesis using assms(1,2) by (simp add: read_page_def Let_def)
qed

lemma reader_view:
  assumes "wal_inv s" "c < length (conns s)" "c_pc (conn_at s c) = Reading" "\<not> c_writeLock (conn_at s c)"
    and p: "p \<le> hd_nPage (c_hdr (conn_at s c))"
  shows "read_page (shared s) (conn_at s c) p = c_snap (conn_at s c) p"
proof -
  let ?m = "shared s" and ?k = "conn_at s c"
  note K = invD(2) [OF assms(1,2)] and S = invD(1) [OF assms(1)]
  have h: "c_hdr ?k = c_start ?k" using K assms(3,4) by (simp add: conn_ok_def head_ok_def Let_def)
  obtain i where i: "c_readLock ?k = Some i" using K assms(3) by (auto simp: conn_ok_def place_ok_def Let_def)
  show ?thesis
  proof (cases "i = 0")
    case True
    then show ?thesis using K i p h by (simp add: conn_ok_def read_ok_def read_page_def Let_def)
  next
    case False
    have r: "c_start ?k \<in> set (sh_commits ?m)" "1 \<le> c_minFrame ?k" "view ?m (c_start ?k) p = c_snap ?k p"
      "last_of ?m p (c_start ?k) < c_minFrame ?k \<Longrightarrow> sh_db ?m p = view ?m (c_start ?k) p"
      using K i False p h by (auto simp: conn_ok_def read_ok_def)
    have "read_page ?m ?k p = (if c_minFrame ?k \<le> last_of ?m p (c_hdr ?k) then snd (sh_log ?m ! (last_of ?m p (c_hdr ?k) - 1)) else sh_db ?m p)"
      by (rule read_page_frames) (use i False r(2) h commits_mx [OF S r(1)] in auto)
    also have "\<dots> = view ?m (c_start ?k) p"
      using r(2,4) h by (auto simp: view_def over_def last_of_def Let_def not_le)
    finally show ?thesis using r(3) by simp
  qed
qed

text \<open>A writer reads its own frames over the latest commit.\<close>

lemma writer_view:
  assumes "wal_inv s" "c < length (conns s)" "c_pc (conn_at s c) = Reading" "c_writeLock (conn_at s c)"
    and p: "p \<le> hd_nPage (c_hdr (conn_at s c))"
  shows "read_page (shared s) (conn_at s c) p =
    over (sh_log (shared s)) (hd_mxFrame (sh_live (shared s))) (hd_mxFrame (c_hdr (conn_at s c))) (sh_truth (shared s)) p"
proof -
  let ?m = "shared s" and ?k = "conn_at s c"
  let ?n = "hd_mxFrame (sh_live ?m)" and ?h = "c_hdr ?k"
  note K = invD(2) [OF assms(1,2)] and S = invD(1) [OF assms(1)]
  have h: "c_start ?k = sh_live ?m" "?n \<le> hd_mxFrame ?h" "hd_mxFrame ?h \<le> length (sh_log ?m)" "hd_nPage ?h = hd_nPage (sh_live ?m)"
    "c_readLock ?k = Some 0 \<Longrightarrow> ?h = sh_live ?m"
    using K assms(3,4) by (auto simp: conn_ok_def head_ok_def Let_def)
  have truth: "view ?m (sh_live ?m) p = sh_truth ?m p" using S p h(4) by (simp add: shared_ok_def)
  obtain i where i: "c_readLock ?k = Some i" using K assms(3) by (auto simp: conn_ok_def place_ok_def Let_def)
  have nofill: "c_pc (conn_at s d) \<noteq> RsFilled" if "d < length (conns s)" for d
  proof (cases "d = c")
    case False
    then show ?thesis
      using writer_unique [OF assms(1,2) that False assms(4)] place_restart invD(2) [OF assms(1) that] by (auto simp: conn_ok_def)
  qed (use assms(3) in simp)
  have F: "sh_nBackfill ?m \<le> ?n" by (rule invD(4) [OF assms(1) nofill])
  show ?thesis
  proof (cases "i = 0")
    case True
    have "sh_nBackfill ?m = ?n" using K i True h(1) by (simp add: conn_ok_def read_ok_def)
    then have "sh_db ?m p = view ?m (sh_live ?m) p"
      using S p h(4) last_frame_le [of "sh_log ?m" p 0 ?n] by (simp add: shared_ok_def last_of_def)
    moreover have "over (sh_log ?m) ?n (hd_mxFrame ?h) (sh_truth ?m) p = sh_truth ?m p"
      using h(5) i True over_cut [OF h(3), of p ?n] last_frame_le [of "sh_log ?m" p 0 ?n] by simp
    ultimately show ?thesis using truth i True by (simp add: read_page_def)
  next
    case False
    have r: "1 \<le> c_minFrame ?k" "c_minFrame ?k - 1 \<le> sh_nBackfill ?m"
      "last_of ?m p (sh_live ?m) < c_minFrame ?k \<Longrightarrow> sh_db ?m p = view ?m (sh_live ?m) p"
      using K i False p h(1,4) by (auto simp: conn_ok_def read_ok_def)
    have read: "read_page ?m ?k p = (if c_minFrame ?k \<le> last_of ?m p ?h then snd (sh_log ?m ! (last_of ?m p ?h - 1)) else sh_db ?m p)"
      by (rule read_page_frames) (use i False r(1) h(3) in auto)
    show ?thesis
    proof (cases "last_of ?m p ?h \<le> ?n")
      case True
      have same: "last_of ?m p ?h = last_of ?m p (sh_live ?m)"
        using last_frame_more(2) [OF h(2,3), of p] True by (simp add: last_of_def)
      have "read_page ?m ?k p = view ?m (sh_live ?m) p"
        using read r(1,3) unfolding same by (auto simp: view_def over_def last_of_def Let_def not_le)
      then show ?thesis using truth over_cut [OF h(3), of p ?n "sh_truth ?m"] True by (simp add: last_of_def)
    next
      case new: False
      then have "c_minFrame ?k \<le> last_of ?m p ?h" using r(2) F by linarith
      then show ?thesis using read new last_frame_cut [OF h(3), of p ?n] by (simp add: over_def last_of_def Let_def)
    qed
  qed
qed


section \<open>Alone\<close>

definition alone :: "nat \<Rightarrow> 'a wal_system \<Rightarrow> bool" where
  "alone c s = (\<forall>d < length (conns s). d \<noteq> c \<longrightarrow> c_pc (conn_at s d) = Idle)"

lemma alone_locks:
  assumes "wal_inv s" "alone c s"
  shows "can_excl s c ls" "can_share s c l"
proof -
  have "excl_locks (conn_at s d) = {} \<and> shared_locks (conn_at s d) = {}" if "d < length (conns s)" "d \<noteq> c" for d
    using invD(2) [OF assms(1) that(1)] assms(2) that
    by (simp add: alone_def conn_ok_def place_ok_def excl_locks_def shared_locks_def)
  then show "can_excl s c ls" "can_share s c l" by (simp_all add: can_excl_def can_share_def)
qed

definition ready :: "nat \<Rightarrow> ('a :: zero) wal_system \<Rightarrow> bool" where
  "ready c s = (wal_inv s \<and> c < length (conns s) \<and> alone c s \<and> sh_live (shared s) = c_hdr (conn_at s c))"

text \<open>After some steps the connection reads.\<close>

inductive gets_to_read :: "nat \<Rightarrow> 'a wal_system \<Rightarrow> bool" where
  reads: "c_pc (conn_at s c) = Reading \<Longrightarrow> gets_to_read c s"
| later: "gets_to_read c (walTryBeginRead c s) \<Longrightarrow> gets_to_read c s"

lemma begin_others [simp]:
  "c < length (conns s) \<Longrightarrow> d \<noteq> c \<Longrightarrow> conn_at (walTryBeginRead c s) d = conn_at s d"
  by (simp add: walTryBeginRead_def Let_def split: wal_pc.splits)

lemma begin_length [simp]: "length (conns (walTryBeginRead c s)) = length (conns s)"
  by (simp add: walTryBeginRead_def Let_def split: wal_pc.splits)

lemma begin_alone: "c < length (conns s) \<Longrightarrow> alone c s \<Longrightarrow> alone c (walTryBeginRead c s)"
  by (simp add: alone_def)

lemma ready_next:
  assumes "ready c s" "sh_live (shared (walTryBeginRead c s)) = c_hdr (conn_at (walTryBeginRead c s) c)"
  shows "ready c (walTryBeginRead c s)"
  using assms inv_begin begin_alone by (auto simp: ready_def)

lemma readyD:
  assumes "ready c s"
  shows "c < length (conns s)" "can_excl s c ls" "can_share s c l" "sh_live (shared s) = c_hdr (conn_at s c)"
    "length (sh_marks (shared s)) = 5"
  using assms alone_locks [of s c] invD(1) [of s] by (auto simp: ready_def shared_ok_def)

text \<open>One step, with what it makes of the place and the marks.\<close>

lemma ready_step:
  assumes "ready c s" "c_pc (conn_at s c) \<noteq> BgHdr"
    and "sh_live (shared (walTryBeginRead c s)) = sh_live (shared s) \<and> c_hdr (conn_at (walTryBeginRead c s) c) = c_hdr (conn_at s c)"
    and "ready c (walTryBeginRead c s) \<Longrightarrow> gets_to_read c (walTryBeginRead c s)"
  shows "gets_to_read c s"
  by (rule gets_to_read.later, rule assms(4), rule ready_next [OF assms(1)]) (use assms(3) readyD(4) [OF assms(1)] in simp)

lemma from_live: "ready c s \<Longrightarrow> c_pc (conn_at s c) = BgLive i y \<Longrightarrow> gets_to_read c s"
  by (rule gets_to_read.later, rule gets_to_read.reads)
    (simp add: walTryBeginRead_def begin_reading_def Let_def readyD)

lemma from_lock:
  assumes "ready c s" "c_pc (conn_at s c) \<in> {BgLock i y, BgMin i y, BgMark i y}" "sh_marks (shared s) ! i = y"
  shows "gets_to_read c s"
proof -
  have mark: "gets_to_read c t" if "ready c t" "c_pc (conn_at t c) = BgMark i y" "sh_marks (shared t) ! i = y" for t
    by (rule ready_step [OF that(1)]) (use that readyD(1) [OF that(1)] in \<open>auto simp: walTryBeginRead_def intro: from_live\<close>)
  have min: "gets_to_read c t" if "ready c t" "c_pc (conn_at t c) = BgMin i y" "sh_marks (shared t) ! i = y" for t
    by (rule ready_step [OF that(1)]) (use that readyD(1) [OF that(1)] in \<open>auto simp: walTryBeginRead_def Let_def intro: mark\<close>)
  have "gets_to_read c t" if "ready c t" "c_pc (conn_at t c) = BgLock i y" "sh_marks (shared t) ! i = y" for t
    by (rule ready_step [OF that(1)]) (use that readyD(1,3) [OF that(1)] in \<open>auto simp: walTryBeginRead_def Let_def intro: min\<close>)
  then show ?thesis using assms mark min by auto
qed

lemma from_claim:
  assumes "ready c s" "c_pc (conn_at s c) = BgClaim 1 j y"
  shows "gets_to_read c s"
proof -
  have release: "gets_to_read c t" if "ready c t" "c_pc (conn_at t c) = BgRelease 1" "sh_marks (shared t) ! 1 = hd_mxFrame (c_hdr (conn_at t c))" for t
    by (rule ready_step [OF that(1)]) (use that readyD(1) [OF that(1)] in \<open>auto simp: walTryBeginRead_def Let_def intro: from_lock\<close>)
  have store: "gets_to_read c t" if "ready c t" "c_pc (conn_at t c) = BgStore 1" for t
    by (rule ready_step [OF that(1)]) (use that readyD(1,5) [OF that(1)] in \<open>auto simp: walTryBeginRead_def Let_def intro!: release\<close>)
  show ?thesis
    by (rule ready_step [OF assms(1)])
      (use assms readyD(1,2) [OF assms(1)] in \<open>auto simp: walTryBeginRead_def Let_def WAL_NREADER_def intro!: store\<close>)
qed

lemma from_scan:
  assumes "ready c s" "c_pc (conn_at s c) = BgScan i j y" "j \<noteq> 0 \<Longrightarrow> sh_marks (shared s) ! j = y" "1 \<le> i"
  shows "gets_to_read c s"
  using assms
proof (induction "WAL_NREADER - i" arbitrary: s i j y)
  case 0
  let ?t = "walTryBeginRead c s"
  have t: "shared ?t = shared s" "c_hdr (conn_at ?t c) = c_hdr (conn_at s c)"
    "c_pc (conn_at ?t c) = BgClaim 1 j y \<or> j \<noteq> 0 \<and> c_pc (conn_at ?t c) = BgLock j y"
    using 0 readyD(1) [OF 0(2)] by (auto simp: walTryBeginRead_def Let_def)
  show ?case
  proof (rule ready_step [OF 0(2)])
    assume r: "ready c ?t"
    show "gets_to_read c ?t" using t(3)
    proof (elim disjE conjE)
      assume "j \<noteq> 0" "c_pc (conn_at ?t c) = BgLock j y"
      then show ?thesis using from_lock [OF r, of j y] 0(4) t(1) by simp
    qed (rule from_claim [OF r])
  qed (use 0(3) t in auto)
next
  case (Suc n)
  let ?t = "walTryBeginRead c s"
  have i: "i < WAL_NREADER" using Suc(2) by simp
  have t: "shared ?t = shared s" "c_hdr (conn_at ?t c) = c_hdr (conn_at s c)"
    "c_pc (conn_at ?t c) = BgScan (i + 1) i (sh_marks (shared s) ! i) \<or> c_pc (conn_at ?t c) = BgScan (i + 1) j y"
    using Suc.prems(2) readyD(1) [OF Suc.prems(1)] i by (auto simp: walTryBeginRead_def Let_def)
  show ?case
  proof (rule ready_step [OF Suc.prems(1)])
    assume r: "ready c ?t"
    show "gets_to_read c ?t" using t(3)
    proof
      assume a: "c_pc (conn_at ?t c) = BgScan (i + 1) i (sh_marks (shared s) ! i)"
      show ?thesis by (rule Suc.hyps(1) [OF _ r a]) (use Suc.hyps(2) t in auto)
    next
      assume a: "c_pc (conn_at ?t c) = BgScan (i + 1) j y"
      show ?thesis by (rule Suc.hyps(1) [OF _ r a]) (use Suc.hyps(2) Suc.prems(3) t in auto)
    qed
  qed (use Suc.prems(2) t in auto)
qed

lemma from_filled:
  assumes "ready c s" "c_pc (conn_at s c) = BgFilled"
  shows "gets_to_read c s"
proof -
  have check: "gets_to_read c t" if "ready c t" "c_pc (conn_at t c) = BgCheck0" for t
    by (rule gets_to_read.later, rule gets_to_read.reads)
      (use that readyD(1,4) [OF that(1)] in \<open>simp add: walTryBeginRead_def begin_reading_def Let_def\<close>)
  have lock: "gets_to_read c t" if "ready c t" "c_pc (conn_at t c) = BgLock0" for t
    by (rule ready_step [OF that(1)]) (use that readyD(1,3) [OF that(1)] in \<open>auto simp: walTryBeginRead_def Let_def intro: check\<close>)
  show ?thesis
    by (rule ready_step [OF assms(1)])
      (use assms readyD(1) [OF assms(1)] in \<open>auto simp: walTryBeginRead_def Let_def intro: lock from_scan\<close>)
qed

end
