(* ===== verification/WalPromises.thy ===== *)
theory WalPromises
  imports WalIsolation
begin

section \<open>Runs\<close>

definition perform :: "('s \<Rightarrow> 's) list \<Rightarrow> 's \<Rightarrow> 's" where
  "perform fs s = fold (\<lambda>f. f) fs s"

lemma perform_simps [simp]: "perform [] s = s" "perform (f # fs) s = perform fs (f s)"
  by (simp_all add: perform_def)















section \<open>Evaluation\<close>



section \<open>Properties\<close>












section \<open>A death in the restart of the log\<close>








end
