(* ===== verification/WalFrame.thy ===== *)
theory WalFrame
  imports WalLog
begin

text \<open>
  The frames of the log file (\<open>wal.c\<close>): a header of 24 bytes and a page, chained by a running checksum.
\<close>

unbundle bit_operations_syntax

section \<open>The checksum\<close>

text \<open>Springtale runs on little-endian machines.\<close>

definition SQLITE_BIGENDIAN :: bool where "SQLITE_BIGENDIAN = False"

definition BYTESWAP32 :: "u32 \<Rightarrow> u32" where
  "BYTESWAP32 x = push_bit 24 (x AND 0x000000FF) + push_bit 8 (x AND 0x0000FF00)
     + drop_bit 8 (x AND 0x00FF0000) + drop_bit 24 (x AND 0xFF000000)"

definition cksum_round :: "(bytes \<Rightarrow> u32) \<Rightarrow> bytes \<Rightarrow> u32 \<times> u32 \<Rightarrow> u32 \<times> u32" where
  "cksum_round get a s = (let s1 = fst s + (get a + snd s); s2 = snd s + (get (drop 4 a) + s1) in (s1, s2))"

text \<open>The loops run once and then as long as data is left; one is unrolled eight times.\<close>

function cksum_loop :: "(bytes \<Rightarrow> u32) \<Rightarrow> bytes \<Rightarrow> u32 \<times> u32 \<Rightarrow> u32 \<times> u32" where
  "cksum_loop get a s =
    (let s = cksum_round get a s in if 8 < length a then cksum_loop get (drop 8 a) s else s)"
  by pat_completeness auto
termination
  by (relation "measure (\<lambda>(g, a, s). length a)") auto

function cksum_unrolled :: "bytes \<Rightarrow> u32 \<times> u32 \<Rightarrow> u32 \<times> u32" where
  "cksum_unrolled a s =
    (let s = cksum_round load32_le a s;
         s = cksum_round load32_le (drop 8 a) s;
         s = cksum_round load32_le (drop 16 a) s;
         s = cksum_round load32_le (drop 24 a) s;
         s = cksum_round load32_le (drop 32 a) s;
         s = cksum_round load32_le (drop 40 a) s;
         s = cksum_round load32_le (drop 48 a) s;
         s = cksum_round load32_le (drop 56 a) s
     in if 64 < length a then cksum_unrolled (drop 64 a) s else s)"
  by pat_completeness auto
termination
  by (relation "measure (\<lambda>(a, s). length a)") auto

declare cksum_loop.simps [simp del] cksum_unrolled.simps [simp del]

definition walChecksumBytes :: "bool \<Rightarrow> bytes \<Rightarrow> nat \<Rightarrow> (u32 \<times> u32) option \<Rightarrow> u32 \<times> u32" where
  "walChecksumBytes nativeCksum a nByte aIn =
    (let s = (case aIn of Some s \<Rightarrow> s | None \<Rightarrow> (0, 0)); a = take nByte a
     in if \<not> nativeCksum then cksum_loop (\<lambda>p. BYTESWAP32 (load32_le p)) a s
        else if nByte mod 64 = 0 then cksum_unrolled a s
        else cksum_loop load32_le a s)"

section \<open>Frames\<close>

definition WAL_FRAME_HDRSIZE :: nat where "WAL_FRAME_HDRSIZE = 24"
definition WAL_HDRSIZE :: nat where "WAL_HDRSIZE = 32"

definition walFrameOffset :: "nat \<Rightarrow> nat \<Rightarrow> nat" where
  "walFrameOffset iFrame sz = WAL_HDRSIZE + (iFrame - 1) * (sz + WAL_FRAME_HDRSIZE)"

definition set_cksum :: "wal \<Rightarrow> u32 \<times> u32 \<Rightarrow> wal" where
  "set_cksum w s = w\<lparr>hdr := (hdr w)\<lparr>aFrameCksum := s\<rparr>\<rparr>"

text \<open>The checksum of the first eight bytes of the header and of the page.\<close>

definition frame_cksum :: "wal \<Rightarrow> bytes \<Rightarrow> bytes \<Rightarrow> u32 \<times> u32" where
  "frame_cksum w aFrame aData =
    (let nativeCksum = (bigEndCksum (hdr w) = SQLITE_BIGENDIAN);
         aCksum = walChecksumBytes nativeCksum aFrame 8 (Some (aFrameCksum (hdr w)))
     in walChecksumBytes nativeCksum aData (szPage w) (Some aCksum))"

definition walEncodeFrame :: "wal \<Rightarrow> u32 \<Rightarrow> u32 \<Rightarrow> bytes \<Rightarrow> bytes \<times> wal" where
  "walEncodeFrame w iPage nTruncate aData =
    (let aFrame = sqlite3Put4byte iPage @ sqlite3Put4byte nTruncate
     in if iReCksum w = 0 then
          (let aCksum = frame_cksum w aFrame aData
           in (aFrame @ aSalt (hdr w) @ sqlite3Put4byte (fst aCksum) @ sqlite3Put4byte (snd aCksum), set_cksum w aCksum))
        else (aFrame @ replicate 16 0, w))"

definition walDecodeFrame :: "wal \<Rightarrow> bytes \<Rightarrow> bytes \<Rightarrow> (u32 \<times> u32) option \<times> wal" where
  "walDecodeFrame w aData aFrame =
    (if aSalt (hdr w) \<noteq> mslice 8 8 aFrame then (None, w)
     else (let pgno = sqlite3Get4byte aFrame
           in if pgno = 0 then (None, w)
              else (let aCksum = frame_cksum w aFrame aData; w = set_cksum w aCksum
                    in if fst aCksum \<noteq> sqlite3Get4byte (drop 16 aFrame) \<or> snd aCksum \<noteq> sqlite3Get4byte (drop 20 aFrame)
                       then (None, w)
                       else (Some (pgno, sqlite3Get4byte (drop 4 aFrame)), w))))"

section \<open>The loops agree\<close>

lemma load32_be_get [simp]: "sqlite3Get4byte = load32_be"
  by (rule ext) (simp add: sqlite3Get4byte_def load32_be_def)

lemma store32_be_put: "sqlite3Put4byte = store32_be"
  by (rule ext) (simp add: sqlite3Put4byte_def store32_be_def)

lemma no_bit_u8: "8 \<le> n \<Longrightarrow> \<not> bit (b :: u8) n"
  using bit_imp_le_length [of b n] by auto

lemma add_fields: "x AND y = (0 :: u32) \<Longrightarrow> x + y = x OR y"
  by (rule disjunctive_add_eq_or)

lemma BYTESWAP32_or:
  "BYTESWAP32 x = push_bit 24 (x AND 0x000000FF) OR push_bit 8 (x AND 0x0000FF00)
     OR drop_bit 8 (x AND 0x00FF0000) OR drop_bit 24 (x AND 0xFF000000)"
proof -
  have m: "(0x000000FF :: u32) = mask 8" "(0x0000FF00 :: u32) = push_bit 8 (mask 8)"
    "(0x00FF0000 :: u32) = push_bit 16 (mask 8)" "(0xFF000000 :: u32) = push_bit 24 (mask 8)"
    by (simp_all add: mask_eq_exp_minus_1 push_bit_eq_mult)
  show ?thesis unfolding BYTESWAP32_def m
    by (subst add_fields, (rule bit_word_eqI, auto simp: bit_simps))+ (simp add: or.assoc)
qed

lemma BYTESWAP32_load: "BYTESWAP32 (load32_le p) = load32_be p"
proof (rule bit_word_eqI)
  have m: "(0x000000FF :: u32) = mask 8" "(0x0000FF00 :: u32) = push_bit 8 (mask 8)"
    "(0x00FF0000 :: u32) = push_bit 16 (mask 8)" "(0xFF000000 :: u32) = push_bit 24 (mask 8)"
    by (simp_all add: mask_eq_exp_minus_1 push_bit_eq_mult)
  fix n assume "n < LENGTH(32)"
  then consider "n < 8" | "8 \<le> n" "n < 16" | "16 \<le> n" "n < 24" | "24 \<le> n" "n < 32" by fastforce
  then show "bit (BYTESWAP32 (load32_le p)) n \<longleftrightarrow> bit (load32_be p) n"
    by cases (auto simp: BYTESWAP32_or m load32_le_def load32_be_def bit_simps no_bit_u8)
qed


text \<open>The checksum is one round for each unit of eight bytes, over words of the byte order of the log.\<close>

primrec cksum_spec :: "(bytes \<Rightarrow> u32) \<Rightarrow> nat \<Rightarrow> bytes \<Rightarrow> u32 \<times> u32 \<Rightarrow> u32 \<times> u32" where
  "cksum_spec get 0 a s = s"
| "cksum_spec get (Suc n) a s = cksum_spec get n (drop 8 a) (cksum_round get a s)"

lemma cksum_loop_spec: "length a = 8 * n \<Longrightarrow> 1 \<le> n \<Longrightarrow> cksum_loop get a s = cksum_spec get n a s"
proof (induction n arbitrary: a s)
  case 0
  then show ?case by simp
next
  case (Suc n)
  then show ?case by (cases n; subst cksum_loop.simps) (simp_all add: Let_def)
qed

lemma cksum_spec_add: "cksum_spec get (m + n) a s = cksum_spec get n (drop (8 * m) a) (cksum_spec get m a s)"
  by (induction m arbitrary: a s) (simp_all add: add.commute)

lemma cksum_unrolled_spec: "length a = 64 * n \<Longrightarrow> 1 \<le> n \<Longrightarrow> cksum_unrolled a s = cksum_spec load32_le (8 * n) a s"
proof (induction n arbitrary: a s)
  case 0
  then show ?case by simp
next
  case (Suc n)
  define t where "t = cksum_spec load32_le 8 a s"
  have e: "cksum_unrolled a s = (if 64 < length a then cksum_unrolled (drop 64 a) t else t)"
    by (subst cksum_unrolled.simps) (simp add: t_def Let_def eval_nat_numeral)
  have "cksum_spec load32_le (8 * Suc n) a s = cksum_spec load32_le (8 * n) (drop 64 a) t"
    using cksum_spec_add [of load32_le 8 "8 * n" a s] by (simp add: t_def)
  moreover have "cksum_unrolled (drop 64 a) t = cksum_spec load32_le (8 * n) (drop 64 a) t" if "n \<noteq> 0"
    using Suc.IH [of "drop 64 a" t] Suc.prems that by simp
  ultimately show ?case using e Suc.prems by (cases "n = 0") simp_all
qed

definition log_word :: "bool \<Rightarrow> bytes \<Rightarrow> u32" where
  "log_word nativeCksum = (if nativeCksum then load32_le else load32_be)"

lemma walChecksumBytes_spec:
  assumes "8 dvd nByte" "8 \<le> nByte" "nByte \<le> length a"
  shows "walChecksumBytes nativeCksum a nByte (Some s) = cksum_spec (log_word nativeCksum) (nByte div 8) (take nByte a) s"
proof -
  have len: "length (take nByte a) = 8 * (nByte div 8)" "1 \<le> nByte div 8" using assms by auto
  show ?thesis
  proof (cases "nativeCksum \<and> nByte mod 64 = 0")
    case True
    then obtain m where m: "nByte = 64 * m" by (metis mod_0_imp_dvd dvdE)
    then have "length (take nByte a) = 64 * m" "1 \<le> m" using assms by auto
    from cksum_unrolled_spec [OF this, of s] show ?thesis using True m by (simp add: walChecksumBytes_def log_word_def)
  next
    case False
    then show ?thesis using cksum_loop_spec [OF len, of _ s]
      by (auto simp: walChecksumBytes_def Let_def log_word_def BYTESWAP32_load)
  qed
qed

section \<open>What the checksum detects\<close>

lemma cksum_round_inj_state: "cksum_round get a s = cksum_round get a s' \<Longrightarrow> s = s'"
proof -
  assume "cksum_round get a s = cksum_round get a s'"
  then have e: "fst s + (get a + snd s) = fst s' + (get a + snd s')"
    "snd s + (get (drop 4 a) + (fst s + (get a + snd s))) = snd s' + (get (drop 4 a) + (fst s' + (get a + snd s')))"
    unfolding cksum_round_def Let_def prod.inject by blast+
  have "snd s = snd s'" using e(2) unfolding e(1) by (rule add_right_imp_eq)
  then show "s = s'" using e(1) by (simp add: prod_eq_iff)
qed

lemma cksum_round_inj_data:
  "cksum_round get a s = cksum_round get a' s \<Longrightarrow> get a = get a' \<and> get (drop 4 a) = get (drop 4 a')"
  by (auto simp: cksum_round_def Let_def)

lemma cksum_spec_inj_state: "cksum_spec get n a s = cksum_spec get n a s' \<Longrightarrow> s = s'"
proof (induction n arbitrary: a s s')
  case 0
  then show ?case by simp
next
  case (Suc n)
  have "cksum_round get a s = cksum_round get a s'" by (rule Suc.IH) (use Suc.prems in simp)
  then show ?case by (rule cksum_round_inj_state)
qed

text \<open>Data that differs in one unit only has another checksum.\<close>

lemma cksum_spec_detects:
  assumes get: "\<And>p q. 4 \<le> length p \<Longrightarrow> 4 \<le> length q \<Longrightarrow> get p = get q \<Longrightarrow> take 4 p = take 4 q" and len: "length a = 8 * n" "length a' = 8 * n"
    and one: "\<And>j. j < 8 * n \<Longrightarrow> j div 8 \<noteq> i \<Longrightarrow> a ! j = a' ! j" and eq: "cksum_spec get n a s = cksum_spec get n a' s"
    and local: "\<And>p q. 8 \<le> length p \<Longrightarrow> take 8 p = take 8 q \<Longrightarrow> get p = get q \<and> get (drop 4 p) = get (drop 4 q)"
  shows "a = a'"
  using len one eq
proof (induction n arbitrary: a a' s i)
  case 0
  then show ?case by simp
next
  case (Suc n)
  have round: "cksum_round get p t = cksum_round get q t" if "8 \<le> length p" "take 8 p = take 8 q" for p q t
    using local [OF that] by (simp add: cksum_round_def)
  have split: "a = take 8 a @ drop 8 a" "a' = take 8 a' @ drop 8 a'" by simp_all
  show ?case
  proof (cases i)
    case 0
    have "drop 8 a = drop 8 a'"
      using Suc.prems(1,2) by (intro nth_equalityI) (auto intro!: Suc.prems(3) simp: 0)
    then have "cksum_round get a s = cksum_round get a' s"
      using Suc.prems(4) cksum_spec_inj_state by simp
    from cksum_round_inj_data [OF this] have "take 4 a = take 4 a'" "take 4 (drop 4 a) = take 4 (drop 4 a')"
      using get [of a a'] get [of "drop 4 a" "drop 4 a'"] Suc.prems(1,2) by auto
    then have "take 8 a = take 8 a'" using take_add [of 4 4 a] take_add [of 4 4 a'] by simp
    then show ?thesis using split \<open>drop 8 a = drop 8 a'\<close> by metis
  next
    case i: (Suc k)
    have "take 8 a = take 8 a'"
      using Suc.prems(1,2) by (intro nth_equalityI) (auto intro!: Suc.prems(3) simp: i)
    moreover have "drop 8 a = drop 8 a'"
    proof (rule Suc.IH [of _ _ k])
      show "length (drop 8 a) = 8 * n" "length (drop 8 a') = 8 * n" using Suc.prems(1,2) by simp_all
      show "cksum_spec get n (drop 8 a) (cksum_round get a s) = cksum_spec get n (drop 8 a') (cksum_round get a s)"
        using Suc.prems(1,4) round [OF _ \<open>take 8 a = take 8 a'\<close>, of s] by simp
      fix j assume "j < 8 * n" "j div 8 \<noteq> k"
      then have "(8 + j) div 8 \<noteq> i" "8 + j < 8 * Suc n" by (simp_all add: i)
      then show "drop 8 a ! j = drop 8 a' ! j" using Suc.prems(1,2) Suc.prems(3) [of "8 + j"] by simp
    qed
    ultimately show ?thesis using split by metis
  qed
qed


section \<open>Frames\<close>

lemma store32_be_length [simp]: "length (sqlite3Put4byte v) = 4"
  by (simp add: sqlite3Put4byte_def)

lemma get_put: "load32_be (sqlite3Put4byte v @ rest) = v"
  by (simp add: store32_be_put)

lemma walChecksumBytes_take: "walChecksumBytes n a k s = walChecksumBytes n (take k a) k s"
  by (simp add: walChecksumBytes_def)

lemma frame_cksum_header: "take 8 f = take 8 f' \<Longrightarrow> frame_cksum w f d = frame_cksum w f' d"
  by (simp add: frame_cksum_def Let_def walChecksumBytes_def)

text \<open>The fields of an encoded frame.\<close>

lemma encoded_frame:
  assumes "length (aSalt (hdr w)) = 8"
  shows "sqlite3Get4byte (sqlite3Put4byte p @ sqlite3Put4byte t @ aSalt (hdr w) @ sqlite3Put4byte a @ sqlite3Put4byte b) = p"
    "sqlite3Get4byte (drop 4 (sqlite3Put4byte p @ sqlite3Put4byte t @ aSalt (hdr w) @ sqlite3Put4byte a @ sqlite3Put4byte b)) = t"
    "mslice 8 8 (sqlite3Put4byte p @ sqlite3Put4byte t @ aSalt (hdr w) @ sqlite3Put4byte a @ sqlite3Put4byte b) = aSalt (hdr w)"
    "sqlite3Get4byte (drop 16 (sqlite3Put4byte p @ sqlite3Put4byte t @ aSalt (hdr w) @ sqlite3Put4byte a @ sqlite3Put4byte b)) = a"
    "sqlite3Get4byte (drop 20 (sqlite3Put4byte p @ sqlite3Put4byte t @ aSalt (hdr w) @ sqlite3Put4byte a @ sqlite3Put4byte b)) = b"
  using assms get_put [of b "[]"] by (simp_all add: get_put mslice_def)

lemma walEncode_cksum:
  assumes "iReCksum w = 0" "walEncodeFrame w iPage nTruncate aData = (aFrame, w')"
  shows "aFrameCksum (hdr w') = frame_cksum w aFrame aData"
proof -
  define h where "h = sqlite3Put4byte iPage @ sqlite3Put4byte nTruncate"
  define c where "c = frame_cksum w h aData"
  have e: "aFrame = h @ aSalt (hdr w) @ sqlite3Put4byte (fst c) @ sqlite3Put4byte (snd c)" "w' = set_cksum w c"
    using assms by (simp_all add: walEncodeFrame_def Let_def h_def c_def)
  have "length h = 8" by (simp add: h_def)
  then have "take 8 aFrame = take 8 h" by (simp add: e(1))
  then have "frame_cksum w aFrame aData = c" unfolding c_def by (rule frame_cksum_header)
  then show ?thesis by (simp add: e(2) set_cksum_def)
qed

lemma walDecode_encoded:
  assumes "length (aSalt (hdr w)) = 8" "iReCksum w = 0" "iPage \<noteq> 0" "walEncodeFrame w iPage nTruncate aData = (aFrame, w')"
  shows "walDecodeFrame w d aFrame =
    (if frame_cksum w aFrame d = aFrameCksum (hdr w') then (Some (iPage, nTruncate), w') else (None, set_cksum w (frame_cksum w aFrame d)))"
proof -
  define c where "c = frame_cksum w (sqlite3Put4byte iPage @ sqlite3Put4byte nTruncate) aData"
  have f: "aFrame = sqlite3Put4byte iPage @ sqlite3Put4byte nTruncate @ aSalt (hdr w) @ sqlite3Put4byte (fst c) @ sqlite3Put4byte (snd c)"
    and w': "w' = set_cksum w c"
    using assms(2,4) by (simp_all add: walEncodeFrame_def Let_def c_def)
  have c': "aFrameCksum (hdr w') = c" by (simp add: w' set_cksum_def)
  note E = encoded_frame [OF assms(1), of iPage nTruncate "fst c" "snd c", folded f]
  show ?thesis
  proof (cases "frame_cksum w aFrame d = c")
    case True
    then show ?thesis unfolding walDecodeFrame_def Let_def E c' using assms(3) by (simp add: w')
  next
    case False
    then have "fst (frame_cksum w aFrame d) \<noteq> fst c \<or> snd (frame_cksum w aFrame d) \<noteq> snd c" by (simp add: prod_eq_iff)
    then show ?thesis unfolding walDecodeFrame_def Let_def E c' using assms(3) False by simp
  qed
qed


lemma load32_le_inj:
  assumes "4 \<le> length p" "4 \<le> length q" "load32_le p = load32_le q"
  shows "take 4 p = take 4 q"
proof -
  have e: "store32_le (load32_le x) = take 4 x" if "4 \<le> length x" for x :: bytes
  proof -
    have "load32_le x = load32_le (take 4 x)" using that by (simp add: load32_le_def)
    moreover have "length (take 4 x) = 4" using that by simp
    ultimately show ?thesis using store_load32_le [of "take 4 x"] by simp
  qed
  show ?thesis using e [OF assms(1)] e [OF assms(2)] assms(3) by simp
qed

lemma load32_be_le: "load32_be p = BYTESWAP32 (load32_le p)" "load32_le p = BYTESWAP32 (load32_be p)"
proof -
  show "load32_be p = BYTESWAP32 (load32_le p)" by (simp add: BYTESWAP32_load)
  have "load32_be p = load32_le [p ! 3, p ! 2, p ! 1, p ! 0]" "load32_le p = load32_be [p ! 3, p ! 2, p ! 1, p ! 0]"
    by (simp_all add: load32_le_def load32_be_def numeral_2_eq_2 numeral_3_eq_3 ac_simps)
  then show "load32_le p = BYTESWAP32 (load32_be p)" by (simp add: BYTESWAP32_load)
qed

lemma log_word_inj: "4 \<le> length p \<Longrightarrow> 4 \<le> length q \<Longrightarrow> log_word n p = log_word n q \<Longrightarrow> take 4 p = take 4 q"
  using load32_le_inj [of p q] load32_be_le(2) [of p] load32_be_le(2) [of q] by (auto simp: log_word_def split: if_splits)

lemma log_word_local:
  assumes "8 \<le> length p" "take 8 p = take 8 q"
  shows "log_word n p = log_word n q \<and> log_word n (drop 4 p) = log_word n (drop 4 q)"
proof -
  have "8 \<le> length q" using assms by (metis length_take min.absorb_iff2 min.commute)
  moreover have "p ! j = q ! j" if "j < 8" for j using assms(2) that by (metis nth_take)
  ultimately show ?thesis using assms(1) by (simp add: log_word_def load32_le_def load32_be_def)
qed

section \<open>Properties\<close>

text \<open>C24.  Frames round-trip: a frame that was encoded in some state of the running checksum is accepted when it is decoded in
  the same state, with its page number and its commit mark, and leaves the same running checksum, so that chains
  of frames are accepted.
\<close>

theorem wal_frame_round_trip:
  assumes "length (aSalt (hdr w)) = 8" "iReCksum w = 0" "iPage \<noteq> 0" "walEncodeFrame w iPage nTruncate aData = (aFrame, w')"
  shows "walDecodeFrame w aData aFrame = (Some (iPage, nTruncate), w')"
  using walDecode_encoded [OF assms, of aData] walEncode_cksum [OF assms(2,4)] by simp

theorem wal_frame_round_trip_witness:
  "\<exists>f w'. walEncodeFrame (wal_fresh\<lparr>szPage := 8\<rparr>) 5 7 [1, 2, 3, 4, 5, 6, 7, 8] = (f, w')
    \<and> walDecodeFrame (wal_fresh\<lparr>szPage := 8\<rparr>) [1, 2, 3, 4, 5, 6, 7, 8] f = (Some (5, 7), w')"
proof -
  obtain f w' where e: "walEncodeFrame (wal_fresh\<lparr>szPage := 8\<rparr>) 5 7 [1, 2, 3, 4, 5, 6, 7, 8] = (f, w')" by (metis surj_pair)
  have "length (aSalt (hdr (wal_fresh\<lparr>szPage := 8\<rparr>))) = 8" "iReCksum (wal_fresh\<lparr>szPage := 8\<rparr>) = 0"
    by (simp_all add: wal_fresh_def Let_def)
  from wal_frame_round_trip [OF this _ e] show ?thesis using e by simp
qed

text \<open>C23.  Damage is noticed: if the content of a frame in the log differs from what was encoded within one unit of eight
  bytes, however it differs there, the frame is not accepted.
\<close>

theorem wal_frame_damage_rejected:
  assumes "length (aSalt (hdr w)) = 8" "iReCksum w = 0" "iPage \<noteq> 0" "walEncodeFrame w iPage nTruncate aData = (aFrame, w')"
    and "8 dvd szPage w" "8 \<le> szPage w" "length aData = szPage w" "length bData = szPage w"
    and "\<forall>j < szPage w. j div 8 \<noteq> i \<longrightarrow> aData ! j = bData ! j" "aData \<noteq> bData"
  shows "fst (walDecodeFrame w bData aFrame) = None"
proof -
  note c = walEncode_cksum [OF assms(2,4)]
  have n: "szPage w = 8 * (szPage w div 8)" using assms(5) by simp
  let ?n = "bigEndCksum (hdr w) = SQLITE_BIGENDIAN"
  have "frame_cksum w aFrame bData \<noteq> frame_cksum w aFrame aData"
  proof
    assume eq: "frame_cksum w aFrame bData = frame_cksum w aFrame aData"
    have "cksum_spec (log_word ?n) (szPage w div 8) aData (walChecksumBytes ?n aFrame 8 (Some (aFrameCksum (hdr w))))
        = cksum_spec (log_word ?n) (szPage w div 8) bData (walChecksumBytes ?n aFrame 8 (Some (aFrameCksum (hdr w))))"
      using eq assms(5-8) by (simp add: frame_cksum_def Let_def walChecksumBytes_spec)
    then have "aData = bData"
    proof (rule cksum_spec_detects [rotated 4])
      show "length aData = 8 * (szPage w div 8)" "length bData = 8 * (szPage w div 8)" using assms(7,8) n by simp_all
      show "aData ! j = bData ! j" if "j < 8 * (szPage w div 8)" "j div 8 \<noteq> i" for j using assms(9) that n by simp
    qed (fact log_word_inj log_word_local)+
    then show False using assms(10) by simp
  qed
  then show ?thesis using walDecode_encoded [OF assms(1-4), of bData] c by simp
qed

theorem wal_frame_damage_rejected_witness:
  "fst (walDecodeFrame (wal_fresh\<lparr>szPage := 8\<rparr>) [1, 2, 3, 4, 0, 6, 7, 9]
     (fst (walEncodeFrame (wal_fresh\<lparr>szPage := 8\<rparr>) 5 7 [1, 2, 3, 4, 5, 6, 7, 8]))) = None"
proof -
  obtain f w' where e: "walEncodeFrame (wal_fresh\<lparr>szPage := 8\<rparr>) 5 7 [1, 2, 3, 4, 5, 6, 7, 8] = (f, w')" by (metis surj_pair)
  have "length (aSalt (hdr (wal_fresh\<lparr>szPage := 8\<rparr>))) = 8" "iReCksum (wal_fresh\<lparr>szPage := 8\<rparr>) = 0"
    by (simp_all add: wal_fresh_def Let_def)
  from wal_frame_damage_rejected [OF this _ e, of "[1, 2, 3, 4, 0, 6, 7, 9]" 0] show ?thesis using e by simp
qed

end
