(* ===== verification/WalRecover.thy ===== *)
theory WalRecover
  imports WalFrame
begin

text \<open>
  Recovery (\<open>walIndexRecover\<close> of \<open>wal.c\<close>): the index is built anew from the log file, up to the first frame
  that is not valid, and ends at the last commit before it.
\<close>

section \<open>The code\<close>

definition WAL_MAGIC :: nat where "WAL_MAGIC = 0x377f0682"
definition WAL_MAX_VERSION :: nat where "WAL_MAX_VERSION = 3007000"
definition SQLITE_MAX_PAGE_SIZE :: nat where "SQLITE_MAX_PAGE_SIZE = 65536"

text \<open>The answers of locks, files and the allocator; the memory of a new table holds anything.\<close>

record recover_env =
  rv_lock :: rc
  rv_size :: rc
  rv_read_hdr :: rc
  rv_mem :: bool
  rv_map :: "nat \<Rightarrow> rc"
  rv_read :: "nat \<Rightarrow> rc"
  rv_private :: "nat \<Rightarrow> wal_page"
  rv_mark_lock :: "nat \<Rightarrow> rc"

text \<open>The frames of one table, \<open>n\<close> of them from \<open>iFrame\<close>; the flag tells whether the loop was left early.\<close>

definition recover_commit :: "wal \<Rightarrow> nat \<Rightarrow> u32 \<Rightarrow> wal" where
  "recover_commit w iFrame nTruncate =
    w\<lparr>hdr := (hdr w)\<lparr>mxFrame := iFrame, nPage := unat nTruncate, hdr_szPage := page_size_code (szPage w)\<rparr>\<rparr>"

primrec recover_frames :: "recover_env \<Rightarrow> bytes \<Rightarrow> nat \<Rightarrow> nat \<Rightarrow> wal \<Rightarrow> u32 \<times> u32 \<Rightarrow> rc \<times> bool \<times> wal \<times> u32 \<times> u32" where
  "recover_frames e file 0 iFrame w ck = (SQLITE_OK, False, w, ck)"
| "recover_frames e file (Suc n) iFrame w ck =
    (if rv_read e iFrame \<noteq> SQLITE_OK then (rv_read e iFrame, True, w, ck)
     else (let aFrame = mslice (walFrameOffset iFrame (szPage w)) (szPage w + WAL_FRAME_HDRSIZE) file
           in case walDecodeFrame w (drop WAL_FRAME_HDRSIZE aFrame) (take WAL_FRAME_HDRSIZE aFrame) of
                (None, w) \<Rightarrow> (SQLITE_OK, True, w, ck)
              | (Some (pgno, nTruncate), w) \<Rightarrow>
                  (case walIndexAppend SQLITE_OK w iFrame (unat pgno) of
                     (rc, w) \<Rightarrow>
                       if rc \<noteq> SQLITE_OK then (rc, True, w, ck)
                       else if nTruncate \<noteq> 0
                       then recover_frames e file n (iFrame + 1) (recover_commit w iFrame nTruncate) (aFrameCksum (hdr w))
                       else recover_frames e file n (iFrame + 1) w ck)))"

text \<open>The tables from \<open>iPg\<close> on, \<open>n\<close> of them.\<close>

primrec recover_pages :: "recover_env \<Rightarrow> bytes \<Rightarrow> nat \<Rightarrow> nat \<Rightarrow> nat \<Rightarrow> wal \<Rightarrow> u32 \<times> u32 \<Rightarrow> rc \<times> wal \<times> u32 \<times> u32" where
  "recover_pages e file iLastFrame 0 iPg w ck = (SQLITE_OK, w, ck)"
| "recover_pages e file iLastFrame (Suc n) iPg w ck =
    (let iLast = min iLastFrame (HASHTABLE_NPAGE_ONE + iPg * HASHTABLE_NPAGE);
         iFirst = 1 + page_zero iPg
     in case walIndexPage (rv_map e iPg) w iPg of
          (rc, w) \<Rightarrow>
            if rc \<noteq> SQLITE_OK then (rc, w, ck)
            else (let w = w\<lparr>apWiData := (apWiData w)[iPg := rv_private e iPg]\<rparr>
                  in case recover_frames e file (iLast + 1 - iFirst) iFirst w ck of
                       (rc, broke, w, ck) \<Rightarrow>
                         if broke then (rc, w, ck) else recover_pages e file iLastFrame n (iPg + 1) w ck))"

definition zero_hdr :: wal_hdr where
  "zero_hdr = \<lparr>iChange = 0, bigEndCksum = False, hdr_szPage = 0, mxFrame = 0, nPage = 0, aFrameCksum = (0, 0), aSalt = replicate 8 0\<rparr>"

text \<open>The header of the log; \<open>None\<close> is a log without valid content.\<close>

definition recover_header :: "bytes \<Rightarrow> wal \<Rightarrow> bool \<times> wal" where
  "recover_header aBuf w =
    (let magic = unat (sqlite3Get4byte aBuf);
         sz = unat (sqlite3Get4byte (drop 8 aBuf))
     in if magic div 2 * 2 \<noteq> WAL_MAGIC \<or> sz = 0 \<or> unat (of_nat sz AND (of_nat sz - 1) :: u32) \<noteq> 0 \<or> sz > SQLITE_MAX_PAGE_SIZE \<or> sz < 512
        then (False, w)
        else (let big = (magic mod 2 = 1);
                  ck = walChecksumBytes (big = SQLITE_BIGENDIAN) aBuf (WAL_HDRSIZE - 2 * 4) None;
                  w = w\<lparr>hdr := (hdr w)\<lparr>bigEndCksum := big, aSalt := mslice 16 8 aBuf, aFrameCksum := ck\<rparr>,
                       szPage := sz, nCkpt := unat (sqlite3Get4byte (drop 12 aBuf))\<rparr>
              in (ck = (sqlite3Get4byte (drop 24 aBuf), sqlite3Get4byte (drop 28 aBuf)), w)))"

primrec recover_marks :: "recover_env \<Rightarrow> nat list \<Rightarrow> rc \<Rightarrow> wal \<Rightarrow> rc \<times> wal" where
  "recover_marks e [] rc w = (rc, w)"
| "recover_marks e (i # is) rc w =
    (case rv_mark_lock e i of
       SQLITE_OK \<Rightarrow> recover_marks e is SQLITE_OK
         (w\<lparr>pInfo := (pInfo w)\<lparr>aReadMark := (aReadMark (pInfo w))
            [i := if i = 1 \<and> mxFrame (hdr w) \<noteq> 0 then mxFrame (hdr w) else READMARK_NOT_USED]\<rparr>\<rparr>)
     | SQLITE_BUSY \<Rightarrow> recover_marks e is SQLITE_BUSY w
     | rc \<Rightarrow> (rc, w))"

definition recover_finish :: "recover_env \<Rightarrow> rc \<Rightarrow> wal \<Rightarrow> u32 \<times> u32 \<Rightarrow> rc \<times> wal" where
  "recover_finish e rc w ck =
    (if rc \<noteq> SQLITE_OK then (rc, w)
     else (let w = walIndexWriteHdr (set_cksum w ck);
               w = w\<lparr>pInfo := \<lparr>nBackfill = 0, nBackfillAttempted = mxFrame (hdr w), aReadMark = (aReadMark (pInfo w))[0 := 0]\<rparr>\<rparr>
           in recover_marks e [1..<5] SQLITE_OK w))"

definition walIndexRecover :: "recover_env \<Rightarrow> wal \<Rightarrow> bytes \<Rightarrow> rc \<times> wal" where
  "walIndexRecover e w file =
    (if rv_lock e \<noteq> SQLITE_OK then (rv_lock e, w)
     else (let w = w\<lparr>hdr := zero_hdr\<rparr>; nSize = length file; aBuf = take WAL_HDRSIZE file
           in if rv_size e \<noteq> SQLITE_OK then (rv_size e, w)
              else if nSize \<le> WAL_HDRSIZE then recover_finish e SQLITE_OK w (0, 0)
              else if rv_read_hdr e \<noteq> SQLITE_OK then (rv_read_hdr e, w)
              else (case recover_header aBuf w of
                      (good, w) \<Rightarrow>
                        if \<not> good then recover_finish e SQLITE_OK w (0, 0)
                        else if unat (sqlite3Get4byte (drop 4 aBuf)) \<noteq> WAL_MAX_VERSION then (SQLITE_CANTOPEN, w)
                        else if \<not> rv_mem e then (SQLITE_NOMEM, w)
                        else (let iLastFrame = (nSize - WAL_HDRSIZE) div (szPage w + WAL_FRAME_HDRSIZE)
                              in case recover_pages e file iLastFrame (walFramePage iLastFrame + 1) 0 w (0, 0) of
                                   (rc, w, ck) \<Rightarrow> recover_finish e rc w ck))))"

section \<open>Valid frames\<close>

text \<open>The valid frames at the start of \<open>rest\<close>, at most \<open>n\<close>: page number, commit mark, running checksum.\<close>

primrec valid_frames :: "wal \<Rightarrow> nat \<Rightarrow> bytes \<Rightarrow> (u32 \<times> u32 \<times> u32 \<times> u32) list" where
  "valid_frames w 0 rest = []"
| "valid_frames w (Suc n) rest =
    (case walDecodeFrame w (mslice WAL_FRAME_HDRSIZE (szPage w) rest) (take WAL_FRAME_HDRSIZE rest) of
       (None, _) \<Rightarrow> []
     | (Some (p, t), w') \<Rightarrow> (p, t, aFrameCksum (hdr w')) # valid_frames w' n (drop (szPage w + WAL_FRAME_HDRSIZE) rest))"

text \<open>The last commit: its frame, the size of the database, the running checksum.\<close>

primrec last_commit :: "nat \<Rightarrow> nat \<times> nat \<times> u32 \<times> u32 \<Rightarrow> (u32 \<times> u32 \<times> u32 \<times> u32) list \<Rightarrow> nat \<times> nat \<times> u32 \<times> u32" where
  "last_commit i st [] = st"
| "last_commit i st (v # vs) =
    last_commit (i + 1) (case v of (p, t, ck) \<Rightarrow> if t \<noteq> 0 then (i, unat t, ck) else st) vs"

text \<open>Decoding depends on the byte order, the salt, the page size and the running checksum.\<close>

definition same_decode :: "wal \<Rightarrow> wal \<Rightarrow> bool" where
  "same_decode w w' = (bigEndCksum (hdr w) = bigEndCksum (hdr w') \<and> aSalt (hdr w) = aSalt (hdr w')
     \<and> szPage w = szPage w' \<and> aFrameCksum (hdr w) = aFrameCksum (hdr w'))"

lemma frame_cksum_cong: "same_decode w w' \<Longrightarrow> frame_cksum w f d = frame_cksum w' f d"
  by (simp add: same_decode_def frame_cksum_def Let_def)

lemma decode_cong:
  assumes "same_decode w w'" "walDecodeFrame w d f = (r, v)"
  obtains v' where "walDecodeFrame w' d f = (r, v')" "same_decode v v'"
proof -
  have c: "frame_cksum w f d = frame_cksum w' f d" by (rule frame_cksum_cong [OF assms(1)])
  have "fst (walDecodeFrame w' d f) = r \<and> same_decode v (snd (walDecodeFrame w' d f))"
    using assms unfolding walDecodeFrame_def Let_def c
    by (auto simp: same_decode_def set_cksum_def split: if_splits)
  then show thesis using that by (metis prod.collapse)
qed

lemma valid_frames_cong: "same_decode w w' \<Longrightarrow> valid_frames w n rest = valid_frames w' n rest"
proof (induction n arbitrary: w w' rest)
  case 0
  then show ?case by simp
next
  case (Suc n)
  have sz: "szPage w = szPage w'" using Suc.prems by (simp add: same_decode_def)
  obtain r v where d: "walDecodeFrame w (mslice WAL_FRAME_HDRSIZE (szPage w) rest) (take WAL_FRAME_HDRSIZE rest) = (r, v)"
    by (metis surj_pair)
  obtain v' where d': "walDecodeFrame w' (mslice WAL_FRAME_HDRSIZE (szPage w) rest) (take WAL_FRAME_HDRSIZE rest) = (r, v')"
    "same_decode v v'" using decode_cong [OF Suc.prems d] by blast
  have "aFrameCksum (hdr v) = aFrameCksum (hdr v')" using d'(2) by (simp add: same_decode_def)
  then show ?case using d d' sz Suc.IH [OF d'(2)] by (auto split: option.splits prod.splits)
qed


lemma decode_frame_rest:
  assumes "walDecodeFrame w d f = (r, v)"
  shows "v = set_cksum w (aFrameCksum (hdr v))" "r = Some (p, t) \<Longrightarrow> p \<noteq> 0"
  using assms by (auto simp: walDecodeFrame_def Let_def set_cksum_def split: if_splits)

lemma set_cksum_frame [simp]:
  "apWiData (set_cksum w c) = apWiData w" "mxFrame (hdr (set_cksum w c)) = mxFrame (hdr w)" "szPage (set_cksum w c) = szPage w"
  "nPage (hdr (set_cksum w c)) = nPage (hdr w)" "aFrameCksum (hdr (set_cksum w c)) = c" "pInfo (set_cksum w c) = pInfo w"
  "aSalt (hdr (set_cksum w c)) = aSalt (hdr w)" "bigEndCksum (hdr (set_cksum w c)) = bigEndCksum (hdr w)"
  by (simp_all add: set_cksum_def)

lemma same_decode_refl [simp]: "same_decode w w"
  by (simp add: same_decode_def)

lemma same_decode_trans: "same_decode u v \<Longrightarrow> same_decode v w \<Longrightarrow> same_decode u w"
  by (simp add: same_decode_def)

lemma valid_frames_split:
  "valid_frames w (m + n) rest = (let vf = valid_frames w m rest in
     if length vf < m then vf
     else vf @ valid_frames (set_cksum w (if vf = [] then aFrameCksum (hdr w) else snd (snd (last vf)))) n (drop (m * (szPage w + WAL_FRAME_HDRSIZE)) rest))"
proof (induction m arbitrary: w rest)
  case 0
  have "same_decode w (set_cksum w (aFrameCksum (hdr w)))" by (simp add: same_decode_def set_cksum_def)
  then show ?case using valid_frames_cong by simp
next
  case (Suc m)
  obtain r v where d: "walDecodeFrame w (mslice WAL_FRAME_HDRSIZE (szPage w) rest) (take WAL_FRAME_HDRSIZE rest) = (r, v)"
    by (metis surj_pair)
  show ?case
  proof (cases r)
    case None
    then show ?thesis using d by simp
  next
    case (Some pt)
    obtain p t where pt: "pt = (p, t)" by (cases pt)
    have v: "v = set_cksum w (aFrameCksum (hdr v))" by (rule decode_frame_rest(1) [OF d])
    have sz: "szPage v = szPage w" using v by (metis set_cksum_frame(3))
    have twice: "set_cksum v c = set_cksum w c" for c by (subst v) (simp add: set_cksum_def)
    show ?thesis using d Some pt Suc.IH [of v "drop (szPage w + WAL_FRAME_HDRSIZE) rest"]
      by (simp add: Let_def sz twice add.commute)
  qed
qed

text \<open>A run over the frames of one table.\<close>

lemma recover_frames_ok:
  assumes good: "\<forall>i. rv_read e i = SQLITE_OK"
  shows "index_ok w fs \<Longrightarrow> iFrame = length fs + 1 \<Longrightarrow>
    recover_frames e file n iFrame w ck = (rc, broke, w', ck') \<Longrightarrow>
    vf = valid_frames w n (drop (walFrameOffset iFrame (szPage w)) file) \<Longrightarrow>
    rc = SQLITE_OK \<and> (broke \<longleftrightarrow> length vf < n) \<and> index_ok w' (fs @ map (\<lambda>v. unat (fst v)) vf)
    \<and> (mxFrame (hdr w'), nPage (hdr w'), ck') = last_commit iFrame (mxFrame (hdr w), nPage (hdr w), ck) vf
    \<and> (\<not> broke \<longrightarrow> same_decode w' (set_cksum w (if vf = [] then aFrameCksum (hdr w) else snd (snd (last vf)))))
    \<and> szPage w' = szPage w \<and> pInfo w' = pInfo w"
proof (induction n arbitrary: w fs iFrame ck vf)
  case 0
  then show ?case by (auto simp: same_decode_def set_cksum_def)
next
  case (Suc n)
  define off where "off = walFrameOffset iFrame (szPage w)"
  let ?f = "mslice off (szPage w + WAL_FRAME_HDRSIZE) file"
  have f: "drop WAL_FRAME_HDRSIZE ?f = mslice WAL_FRAME_HDRSIZE (szPage w) (drop off file)"
      "take WAL_FRAME_HDRSIZE ?f = take WAL_FRAME_HDRSIZE (drop off file)"
    by (simp_all add: mslice_def drop_take min_def)
  obtain r v where d: "walDecodeFrame w (drop WAL_FRAME_HDRSIZE ?f) (take WAL_FRAME_HDRSIZE ?f) = (r, v)" by (metis surj_pair)
  have v: "v = set_cksum w (aFrameCksum (hdr v))" by (rule decode_frame_rest(1) [OF d])
  have vw: "szPage v = szPage w" "pInfo v = pInfo w" "aSalt (hdr v) = aSalt (hdr w)" "bigEndCksum (hdr v) = bigEndCksum (hdr w)"
    using v by (metis set_cksum_frame(3), metis set_cksum_frame(6), metis set_cksum_frame(7), metis set_cksum_frame(8))
  have okv: "index_ok v fs" using Suc.prems(1) by (subst v) (simp add: index_ok_def)
  note rf = recover_frames.simps(2) [where iFrame = iFrame and w = w, folded off_def]
  show ?case
  proof (cases r)
    case None
    then have "(rc, broke, w', ck') = (SQLITE_OK, True, v, ck)"
      using Suc.prems(3) d good unfolding rf by (simp add: Let_def)
    moreover have "vf = []" using Suc.prems(4) d None unfolding off_def [symmetric] f by simp
    ultimately show ?thesis using okv by (simp, subst (1 2 3 4) v, simp)
  next
    case (Some pt)
    obtain p t where pt: "pt = (p, t)" by (cases pt)
    have p0: "unat p \<noteq> 0" using decode_frame_rest(2) [OF d] Some pt by (simp add: unat_eq_0)
    obtain ps where ps: "walIndexAppend SQLITE_OK v (length fs + 1) (unat p) = (SQLITE_OK, v\<lparr>apWiData := ps\<rparr>)"
      "index_ok (v\<lparr>apWiData := ps\<rparr>) (fs @ [unat p])"
      using walIndexAppend_ok [OF okv p0] by blast
    define v1 where "v1 = v\<lparr>apWiData := ps\<rparr>"
    define v2 where "v2 = (if t \<noteq> 0 then recover_commit v1 iFrame t else v1)"
    define ck2 where "ck2 = (if t \<noteq> 0 then aFrameCksum (hdr v) else ck)"
    have rec: "recover_frames e file n (iFrame + 1) v2 ck2 = (rc, broke, w', ck')"
      using Suc.prems(2,3) d good Some pt ps(1) unfolding rf by (auto simp: Let_def v1_def v2_def ck2_def split: if_splits)
    have ok2: "index_ok v2 (fs @ [unat p])"
    proof (cases "t = 0")
      case True
      then show ?thesis using ps(2) by (simp add: v2_def v1_def)
    next
      case False
      then show ?thesis using index_ok_hdr [OF ps(2), of v2] Suc.prems(2) by (simp add: v2_def v1_def recover_commit_def)
    qed
    have sz: "szPage v2 = szPage w" "pInfo v2 = pInfo w" using vw by (simp_all add: v2_def v1_def recover_commit_def)
    have same: "same_decode v2 v" by (simp add: same_decode_def v2_def v1_def recover_commit_def)
    have off2: "walFrameOffset (iFrame + 1) (szPage v2) = off + (szPage w + WAL_FRAME_HDRSIZE)"
      using Suc.prems(2) by (simp add: off_def walFrameOffset_def sz)
    define vs where "vs = valid_frames v2 n (drop (walFrameOffset (iFrame + 1) (szPage v2)) file)"
    have vf: "vf = (p, t, aFrameCksum (hdr v)) # vs"
      using Suc.prems(4) d Some pt unfolding off_def [symmetric] f vs_def off2 valid_frames_cong [OF same] by (simp add: add.commute)
    note IH = Suc.IH [OF ok2 _ rec vs_def]
    have mx: "mxFrame (hdr v2) = (if t \<noteq> 0 then iFrame else mxFrame (hdr w))" "nPage (hdr v2) = (if t \<noteq> 0 then unat t else nPage (hdr w))"
      by (auto simp: v2_def v1_def recover_commit_def) (subst v, simp)+
    have same2: "same_decode (set_cksum v2 c) (set_cksum w c)" for c
      using same vw by (simp add: same_decode_def)
    have ck: "aFrameCksum (hdr v2) = aFrameCksum (hdr v)" by (simp add: v2_def v1_def recover_commit_def)
    have st: "last_commit iFrame (mxFrame (hdr w), nPage (hdr w), ck) vf = last_commit (iFrame + 1) (mxFrame (hdr v2), nPage (hdr v2), ck2) vs"
      by (simp add: vf mx ck2_def)
    have lst: "(if vf = [] then aFrameCksum (hdr w) else snd (snd (last vf))) = (if vs = [] then aFrameCksum (hdr v2) else snd (snd (last vs)))"
      by (simp add: vf ck)
    have "same_decode w' (set_cksum w (if vf = [] then aFrameCksum (hdr w) else snd (snd (last vf))))" if "\<not> broke"
      unfolding lst using IH Suc.prems(2) that same_decode_trans [OF _ same2] by simp
    then show ?thesis using IH Suc.prems(2) sz unfolding st by (simp add: vf)
  qed
qed


text \<open>A new table for the frames behind the ones that are entered may hold anything.\<close>

lemma index_ok_private:
  assumes "index_ok w fs" "length fs \<le> page_zero h" "page_shape (page_room h) p"
  shows "index_ok (w\<lparr>apWiData := (apWiData w)[h := p]\<rparr>) fs"
proof -
  have "(apWiData w)[h := p] ! h' = apWiData w ! h'" if "page_zero h' < length fs" for h'
    using that assms(2) by (cases "h' = h") simp_all
  moreover have "page_shape (page_room h') ((apWiData w)[h := p] ! h')" if "h' < length (apWiData w)" for h'
    using index_okD(3) [OF assms(1) that] assms(3) that by (cases "h' = h") simp_all
  ultimately show ?thesis using assms(1) unfolding index_ok_def by simp
qed

lemma valid_frames_length: "length (valid_frames w n rest) \<le> n"
  by (induction n arbitrary: w rest) (auto split: option.splits prod.splits)

lemma last_commit_append: "last_commit i st (xs @ ys) = last_commit (i + length xs) (last_commit i st xs) ys"
  by (induction xs arbitrary: i st) simp_all

text \<open>The run over all tables enters the valid frames and stops at the first other.\<close>

lemma recover_pages_ok:
  assumes good: "\<forall>i. rv_read e i = SQLITE_OK" "\<forall>i. rv_map e i = SQLITE_OK" "\<forall>i. page_shape (page_room i) (rv_private e i)"
    and last: "nPg = walFramePage iLastFrame + 1"
  shows "index_ok w fs \<Longrightarrow> length fs = min iLastFrame (page_zero iPg) \<Longrightarrow> nPg = iPg + n \<Longrightarrow>
    recover_pages e file iLastFrame n iPg w ck = (rc, w', ck') \<Longrightarrow>
    vf = valid_frames w (iLastFrame - length fs) (drop (walFrameOffset (length fs + 1) (szPage w)) file) \<Longrightarrow>
    rc = SQLITE_OK \<and> index_ok w' (fs @ map (\<lambda>v. unat (fst v)) vf) \<and> szPage w' = szPage w \<and> pInfo w' = pInfo w
    \<and> (mxFrame (hdr w'), nPage (hdr w'), ck') = last_commit (length fs + 1) (mxFrame (hdr w), nPage (hdr w), ck) vf"
proof (induction n arbitrary: iPg w fs ck vf)
  case 0
  have "iLastFrame \<le> page_zero iPg"
  proof (cases "iLastFrame = 0")
    case False
    then show ?thesis using walFramePage_bounds(2) [of iLastFrame] 0(3) unfolding last by (simp add: page_zero_Suc [symmetric])
  qed simp
  then show ?case using 0 by simp
next
  case (Suc n)
  have le: "page_zero iPg \<le> iLastFrame"
  proof (cases "iLastFrame = 0")
    case True
    then show ?thesis using Suc.prems(3) last by (simp add: walFramePage_def wal_sizes page_zero_def)
  next
    case False
    have "iPg \<le> walFramePage iLastFrame" using Suc.prems(3) last by simp
    then show ?thesis using page_zero_mono [of iPg "walFramePage iLastFrame"] walFramePage_bounds(1) [of iLastFrame] False by simp
  qed
  then have len: "length fs = page_zero iPg" using Suc.prems(2) by simp
  define k where "k = min iLastFrame (page_zero (Suc iPg)) - length fs"
  obtain ps where ps: "walIndexPage SQLITE_OK w iPg = (SQLITE_OK, w\<lparr>apWiData := ps\<rparr>)" "index_ok (w\<lparr>apWiData := ps\<rparr>) fs" "iPg < length ps"
    using walIndexPage_map [OF Suc.prems(1), of iPg] by blast
  define w1 where "w1 = w\<lparr>apWiData := ps[iPg := rv_private e iPg]\<rparr>"
  have ok1: "index_ok w1 fs" using index_ok_private [OF ps(2), of iPg "rv_private e iPg"] len good(3) by (simp add: w1_def)
  have same1: "same_decode w1 w" "szPage w1 = szPage w" "pInfo w1 = pInfo w" "mxFrame (hdr w1) = mxFrame (hdr w)" "nPage (hdr w1) = nPage (hdr w)"
    by (simp_all add: same_decode_def w1_def)
  obtain rc1 broke w2 ck2 where run: "recover_frames e file k (length fs + 1) w1 ck = (rc1, broke, w2, ck2)" by (metis surj_pair)
  have iLast: "min iLastFrame (HASHTABLE_NPAGE_ONE + iPg * HASHTABLE_NPAGE) + 1 - (1 + page_zero iPg) = k"
    unfolding k_def len by (simp add: page_zero_def page_room_def)
  have eq: "recover_pages e file iLastFrame (Suc n) iPg w ck =
      (if broke then (rc1, w2, ck2) else recover_pages e file iLastFrame n (iPg + 1) w2 ck2)"
    using ps(1) run good(2) by (simp add: Let_def iLast [simplified] w1_def len)
  define v1 where "v1 = valid_frames w1 k (drop (walFrameOffset (length fs + 1) (szPage w1)) file)"
  note R = recover_frames_ok [OF good(1) ok1 refl run v1_def]
  define m where "m = iLastFrame - min iLastFrame (page_zero (Suc iPg))"
  have km: "iLastFrame - length fs = k + m" using le len page_zero_Suc [of iPg] by (simp add: k_def m_def)
  define rest where "rest = drop (walFrameOffset (length fs + 1) (szPage w)) file"
  define c where "c = (if v1 = [] then aFrameCksum (hdr w) else snd (snd (last v1)))"
  have v1: "v1 = valid_frames w k rest" unfolding v1_def rest_def same1(2) by (rule valid_frames_cong [OF same1(1)])
  have vf: "vf = (if length v1 < k then v1 else v1 @ valid_frames (set_cksum w c) m (drop (k * (szPage w + WAL_FRAME_HDRSIZE)) rest))"
    using Suc.prems(5) unfolding rest_def [symmetric] km valid_frames_split v1 [symmetric] c_def Let_def .
  show ?case
  proof (cases broke)
    case True
    then have "length v1 < k" using R by simp
    then show ?thesis using R True eq Suc.prems(4) vf same1 by simp
  next
    case False
    then have lk: "length v1 = k" using R valid_frames_length [of w1 k] unfolding v1_def by (metis le_neq_implies_less)
    define fs2 where "fs2 = fs @ map (\<lambda>v. unat (fst v)) v1"
    have len2: "length fs2 = length fs + k" by (simp add: fs2_def lk)
    have len2': "length fs2 = min iLastFrame (page_zero (iPg + 1))" using len le page_zero_Suc [of iPg] by (simp add: len2 k_def)
    have mm: "iLastFrame - length fs2 = m" using km len2 by linarith
    have off: "walFrameOffset (length fs2 + 1) (szPage w2) = k * (szPage w + WAL_FRAME_HDRSIZE) + walFrameOffset (length fs + 1) (szPage w)"
      using R same1(2) by (simp add: walFrameOffset_def len2 add_mult_distrib)
    have "aFrameCksum (hdr w1) = aFrameCksum (hdr w)" using same1(1) by (simp add: same_decode_def)
    then have same2: "same_decode w2 (set_cksum w c)"
      using R False same1(1) by (auto simp: same_decode_def c_def)
    define v2 where "v2 = valid_frames w2 (iLastFrame - length fs2) (drop (walFrameOffset (length fs2 + 1) (szPage w2)) file)"
    have "v2 = valid_frames (set_cksum w c) m (drop (k * (szPage w + WAL_FRAME_HDRSIZE)) rest)"
      unfolding v2_def off mm valid_frames_cong [OF same2] by (simp add: rest_def add.commute)
    then have vf2: "vf = v1 @ v2" using vf lk by simp
    have run2: "recover_pages e file iLastFrame n (iPg + 1) w2 ck2 = (rc, w', ck')" using Suc.prems(4) eq False by simp
    have ok2: "index_ok w2 fs2" using R by (simp add: fs2_def)
    have nn: "nPg = iPg + 1 + n" using Suc.prems(3) by simp
    note IH = Suc.IH [OF ok2 len2' nn run2 v2_def]
    have "last_commit (length fs + 1) (mxFrame (hdr w), nPage (hdr w), ck) vf = last_commit (length fs2 + 1) (mxFrame (hdr w2), nPage (hdr w2), ck2) v2"
      using R same1 unfolding vf2 last_commit_append by (simp add: len2 lk)
    then show ?thesis using IH R same1 by (simp add: vf2 fs2_def)
  qed
qed


section \<open>Recovery\<close>

definition recover_well :: "recover_env \<Rightarrow> bool" where
  "recover_well e = (rv_lock e = SQLITE_OK \<and> rv_size e = SQLITE_OK \<and> rv_read_hdr e = SQLITE_OK \<and> rv_mem e
     \<and> (\<forall>i. rv_map e i = SQLITE_OK) \<and> (\<forall>i. rv_read e i = SQLITE_OK)
     \<and> (\<forall>i. page_shape (page_room i) (rv_private e i)) \<and> (\<forall>i. rv_mark_lock e i \<in> {SQLITE_OK, SQLITE_BUSY}))"

lemma recover_marks_ok:
  "\<forall>i. rv_mark_lock e i \<in> {SQLITE_OK, SQLITE_BUSY} \<Longrightarrow> rc \<in> {SQLITE_OK, SQLITE_BUSY} \<Longrightarrow> recover_marks e is rc w = (rc', w') \<Longrightarrow>
   rc' \<in> {SQLITE_OK, SQLITE_BUSY} \<and> (\<exists>info. w' = w\<lparr>pInfo := info\<rparr>)"
proof (induction "is" arbitrary: rc w)
  case Nil
  then show ?case by (auto intro: exI [of _ "pInfo w"])
next
  case (Cons i ks)
  consider "rv_mark_lock e i = SQLITE_OK" | "rv_mark_lock e i = SQLITE_BUSY" using Cons.prems(1) by blast
  then show ?case
  proof cases
    case 1
    define v where "v = w\<lparr>pInfo := (pInfo w)\<lparr>aReadMark := (aReadMark (pInfo w))
            [i := if i = 1 \<and> mxFrame (hdr w) \<noteq> 0 then mxFrame (hdr w) else READMARK_NOT_USED]\<rparr>\<rparr>"
    have "recover_marks e ks SQLITE_OK v = (rc', w')" using Cons.prems(3) 1 by (simp add: v_def)
    then have "rc' \<in> {SQLITE_OK, SQLITE_BUSY} \<and> (\<exists>info. w' = v\<lparr>pInfo := info\<rparr>)" using Cons.IH Cons.prems(1) by blast
    then show ?thesis by (auto simp: v_def)
  next
    case 2
    then show ?thesis using Cons.IH [of SQLITE_BUSY w] Cons.prems(1,3) by simp
  qed
qed

text \<open>What a good run leaves: the private and shared header end at the last commit, and the index holds the frames.\<close>

lemma walIndexRecover_ok:
  assumes e: "recover_well e" and shapes: "\<forall>h < length (apWiData w). page_shape (page_room h) (apWiData w ! h)"
    and len: "WAL_HDRSIZE < length file"
    and hd: "recover_header (take WAL_HDRSIZE file) (w\<lparr>hdr := zero_hdr\<rparr>) = (True, w1)"
    and version: "unat (sqlite3Get4byte (drop 4 (take WAL_HDRSIZE file))) = WAL_MAX_VERSION"
    and run: "walIndexRecover e w file = (rc, w')"
    and vf: "vf = valid_frames w1 ((length file - WAL_HDRSIZE) div (szPage w1 + WAL_FRAME_HDRSIZE)) (drop WAL_HDRSIZE file)"
  shows "rc \<in> {SQLITE_OK, SQLITE_BUSY} \<and> index_ok w' (map (\<lambda>v. unat (fst v)) vf) \<and> shm_hdr w' = hdr w'
    \<and> (mxFrame (hdr w'), nPage (hdr w'), aFrameCksum (hdr w')) = last_commit 1 (0, 0, 0, 0) vf"
proof -
  let ?n = "(length file - WAL_HDRSIZE) div (szPage w1 + WAL_FRAME_HDRSIZE)"
  have w1: "apWiData w1 = apWiData w" "mxFrame (hdr w1) = 0" "nPage (hdr w1) = 0"
    using hd by (auto simp: recover_header_def Let_def zero_hdr_def split: if_splits)
  have ok1: "index_ok w1 []" using shapes by (simp add: index_ok_def w1)
  obtain rc2 w2 ck2 where pages: "recover_pages e file ?n (walFramePage ?n + 1) 0 w1 (0, 0) = (rc2, w2, ck2)" by (metis surj_pair)
  have z: "length [] = min ?n (page_zero 0)" "walFramePage ?n + 1 = 0 + (walFramePage ?n + 1)" by (simp_all add: page_zero_def)
  have vf': "vf = valid_frames w1 (?n - length []) (drop (walFrameOffset (length [] + 1) (szPage w1)) file)"
    by (simp add: vf walFrameOffset_def)
  have P: "rc2 = SQLITE_OK" "index_ok w2 (map (\<lambda>v. unat (fst v)) vf)" "(mxFrame (hdr w2), nPage (hdr w2), ck2) = last_commit 1 (0, 0, 0, 0) vf"
    using recover_pages_ok [OF _ _ _ refl ok1 z(1) z(2) pages vf'] e w1(2,3) unfolding recover_well_def by simp_all
  have r: "recover_finish e SQLITE_OK w2 ck2 = (rc, w')"
    using run e len hd version pages P(1) by (simp add: walIndexRecover_def recover_well_def Let_def)
  define w3 where "w3 = (walIndexWriteHdr (set_cksum w2 ck2))
    \<lparr>pInfo := \<lparr>nBackfill = 0, nBackfillAttempted = mxFrame (hdr w2), aReadMark = (aReadMark (pInfo w2))[0 := 0]\<rparr>\<rparr>"
  have "recover_marks e [1..<5] SQLITE_OK w3 = (rc, w')"
    using r by (simp add: recover_finish_def Let_def w3_def walIndexWriteHdr_def set_cksum_def)
  then have M: "rc \<in> {SQLITE_OK, SQLITE_BUSY}" "\<exists>info. w' = w3\<lparr>pInfo := info\<rparr>"
    using recover_marks_ok [of e SQLITE_OK "[1..<5]" w3 rc w'] e by (auto simp: recover_well_def)
  then have w': "hdr w' = (hdr w2)\<lparr>aFrameCksum := ck2\<rparr>" "shm_hdr w' = hdr w'" "apWiData w' = apWiData w2"
    by (auto simp: w3_def walIndexWriteHdr_def set_cksum_def)
  then show ?thesis using M(1) P by (simp add: index_ok_def)
qed

text \<open>A log that was written frame by frame, followed by anything.\<close>

primrec encode_frames :: "wal \<Rightarrow> (u32 \<times> u32 \<times> bytes) list \<Rightarrow> bytes \<times> wal" where
  "encode_frames w [] = ([], w)"
| "encode_frames w (x # xs) =
    (case x of (p, t, d) \<Rightarrow> case walEncodeFrame w p t d of (f, w) \<Rightarrow>
       case encode_frames w xs of (fs, w) \<Rightarrow> (f @ d @ fs, w))"

definition frames_ok :: "wal \<Rightarrow> (u32 \<times> u32 \<times> bytes) list \<Rightarrow> bool" where
  "frames_ok w xs = (length (aSalt (hdr w)) = 8 \<and> iReCksum w = 0 \<and> (\<forall>(p, t, d) \<in> set xs. p \<noteq> 0 \<and> length d = szPage w))"

lemma valid_frames_encoded:
  "frames_ok w xs \<Longrightarrow> encode_frames w xs = (fs, w') \<Longrightarrow>
   \<exists>vs. valid_frames w (length xs + n) (fs @ junk) = vs @ valid_frames w' n junk
     \<and> map (\<lambda>v. (fst v, fst (snd v))) vs = map (\<lambda>x. (fst x, fst (snd x))) xs"
proof (induction xs arbitrary: w fs)
  case Nil
  then show ?case by simp
next
  case (Cons x xs)
  obtain p t d where x: "x = (p, t, d)" by (cases x) auto
  obtain f w1 where f: "walEncodeFrame w p t d = (f, w1)" by (metis surj_pair)
  obtain gs w2 where g: "encode_frames w1 xs = (gs, w2)" by (metis surj_pair)
  have a: "length (aSalt (hdr w)) = 8" "iReCksum w = 0" "p \<noteq> 0" "length d = szPage w"
    using Cons.prems(1) by (auto simp: frames_ok_def x)
  have eq: "fs = f @ d @ gs" "w2 = w'" using Cons.prems(2) f g by (simp_all add: x)
  have w1: "w1 = set_cksum w (aFrameCksum (hdr w1))" and lf: "length f = 24"
    using f a(1,2) by (auto simp: walEncodeFrame_def Let_def)
  have ok1: "frames_ok w1 xs"
    using Cons.prems(1) a(2) by (subst w1) (auto simp: frames_ok_def set_cksum_def)
  have dec: "walDecodeFrame w d f = (Some (p, t), w1)"
    using walDecode_encoded [OF a(1,2,3) f, of d] walEncode_cksum [OF a(2) f] by simp
  have "take WAL_FRAME_HDRSIZE (fs @ junk) = f" "mslice WAL_FRAME_HDRSIZE (szPage w) (fs @ junk) = d"
      "drop (szPage w + WAL_FRAME_HDRSIZE) (fs @ junk) = gs @ junk"
    using lf a(4) by (simp_all add: eq WAL_FRAME_HDRSIZE_def mslice_def)
  then have "valid_frames w (length (x # xs) + n) (fs @ junk) = (p, t, aFrameCksum (hdr w1)) # valid_frames w1 (length xs + n) (gs @ junk)"
    using dec by simp
  moreover obtain vs where "valid_frames w1 (length xs + n) (gs @ junk) = vs @ valid_frames w' n junk"
      "map (\<lambda>v. (fst v, fst (snd v))) vs = map (\<lambda>x. (fst x, fst (snd x))) xs"
    using Cons.IH [OF ok1] g eq(2) by blast
  ultimately show ?case by (intro exI [of _ "(p, t, aFrameCksum (hdr w1)) # vs"]) (simp add: x)
qed


text \<open>The header of a new log, as the first commit writes it (\<open>walFrames\<close>); \<open>salt\<close> is random.\<close>

definition new_log :: "wal \<Rightarrow> nat \<Rightarrow> bytes \<Rightarrow> bytes \<times> wal" where
  "new_log w sz salt =
    (let w = (if nCkpt w = 0 then w\<lparr>hdr := (hdr w)\<lparr>aSalt := salt\<rparr>\<rparr> else w);
         aWalHdr = sqlite3Put4byte (of_nat WAL_MAGIC OR (if SQLITE_BIGENDIAN then 1 else 0)) @ sqlite3Put4byte (of_nat WAL_MAX_VERSION)
           @ sqlite3Put4byte (of_nat sz) @ sqlite3Put4byte (of_nat (nCkpt w)) @ aSalt (hdr w);
         aCksum = walChecksumBytes True aWalHdr (WAL_HDRSIZE - 2 * 4) None
     in (aWalHdr @ sqlite3Put4byte (fst aCksum) @ sqlite3Put4byte (snd aCksum),
         w\<lparr>szPage := sz, hdr := (hdr w)\<lparr>bigEndCksum := SQLITE_BIGENDIAN, aFrameCksum := aCksum\<rparr>\<rparr>))"

definition page_sizes :: "nat set" where
  "page_sizes = {512, 1024, 2048, 4096, 8192, 16384, 32768, 65536}"

lemma new_log_recovered:
  assumes "length salt = 8" "length (aSalt (hdr w)) = 8" "sz \<in> page_sizes" "new_log w sz salt = (h, w1)"
  shows "length h = WAL_HDRSIZE" "unat (sqlite3Get4byte (drop 4 h)) = WAL_MAX_VERSION"
    "\<exists>v1. recover_header h v = (True, v1) \<and> same_decode v1 w1"
proof -
  define w0 where "w0 = (if nCkpt w = 0 then w\<lparr>hdr := (hdr w)\<lparr>aSalt := salt\<rparr>\<rparr> else w)"
  define b where "b = sqlite3Put4byte (of_nat WAL_MAGIC) @ sqlite3Put4byte (of_nat WAL_MAX_VERSION)
           @ sqlite3Put4byte (of_nat sz) @ sqlite3Put4byte (of_nat (nCkpt w0)) @ aSalt (hdr w0)"
  define c where "c = walChecksumBytes True b 24 None"
  have salt: "length (aSalt (hdr w0)) = 8" using assms(1,2) by (simp add: w0_def)
  have lb: "length b = 24" by (simp add: b_def salt)
  have h: "h = b @ sqlite3Put4byte (fst c) @ sqlite3Put4byte (snd c)"
    and w1: "w1 = w0\<lparr>szPage := sz, hdr := (hdr w0)\<lparr>bigEndCksum := False, aFrameCksum := c\<rparr>\<rparr>"
    using assms(4) by (simp_all add: new_log_def Let_def w0_def [symmetric] SQLITE_BIGENDIAN_def b_def c_def WAL_HDRSIZE_def)
  show "length h = WAL_HDRSIZE" by (simp add: h lb WAL_HDRSIZE_def)
  have g: "sqlite3Get4byte h = of_nat WAL_MAGIC" "sqlite3Get4byte (drop 4 h) = of_nat WAL_MAX_VERSION"
    "sqlite3Get4byte (drop 8 h) = of_nat sz" "mslice 16 8 h = aSalt (hdr w0)"
    using salt by (simp_all add: h b_def get_put mslice_def)
  have g2: "sqlite3Get4byte (drop 24 h) = fst c" "sqlite3Get4byte (drop 28 h) = snd c"
    using lb get_put [of "snd c" "[]"] by (simp_all add: h get_put)
  show "unat (sqlite3Get4byte (drop 4 h)) = WAL_MAX_VERSION" unfolding g by (simp add: WAL_MAX_VERSION_def)
  have m: "unat (of_nat WAL_MAGIC :: u32) = 0x377f0682" by (simp add: WAL_MAGIC_def)
  have sz: "unat (of_nat sz :: u32) = sz" "unat (of_nat sz AND (of_nat sz - 1) :: u32) = 0" "512 \<le> sz" "sz \<le> 65536"
    using assms(3) by (auto simp: page_sizes_def)
  have ck: "walChecksumBytes True h 24 None = c" using lb by (simp add: c_def h walChecksumBytes_def)
  have "recover_header h v = (True, v\<lparr>hdr := (hdr v)\<lparr>bigEndCksum := False, aSalt := aSalt (hdr w0), aFrameCksum := c\<rparr>,
      szPage := sz, nCkpt := unat (sqlite3Get4byte (drop 12 h))\<rparr>)"
    unfolding recover_header_def Let_def g g2 m sz using sz(3,4) ck
    by (simp add: WAL_MAGIC_def SQLITE_MAX_PAGE_SIZE_def SQLITE_BIGENDIAN_def WAL_HDRSIZE_def)
  then show "\<exists>v1. recover_header h v = (True, v1) \<and> same_decode v1 w1" by (simp add: same_decode_def w1)
qed

section \<open>Properties\<close>

lemma encode_frames_length:
  "frames_ok w xs \<Longrightarrow> encode_frames w xs = (fs, w') \<Longrightarrow> length fs = length xs * (szPage w + WAL_FRAME_HDRSIZE)"
proof (induction xs arbitrary: w fs)
  case Nil
  then show ?case by simp
next
  case (Cons x xs)
  obtain p t d where x: "x = (p, t, d)" by (cases x) auto
  obtain f w1 where f: "walEncodeFrame w p t d = (f, w1)" by (metis surj_pair)
  obtain gs w2 where g: "encode_frames w1 xs = (gs, w2)" by (metis surj_pair)
  have a: "length (aSalt (hdr w)) = 8" "iReCksum w = 0" "length d = szPage w"
    using Cons.prems(1) by (auto simp: frames_ok_def x)
  have w1: "w1 = set_cksum w (aFrameCksum (hdr w1))" and lf: "length f = 24"
    using f a(1,2) by (auto simp: walEncodeFrame_def Let_def)
  have "frames_ok w1 xs" using Cons.prems(1) a(2) by (subst w1) (auto simp: frames_ok_def set_cksum_def)
  then have "length gs = length xs * (szPage w1 + WAL_FRAME_HDRSIZE)" using Cons.IH g Cons.prems(2) f by (auto simp: x)
  moreover have "szPage w1 = szPage w" using w1 by (metis set_cksum_frame(3))
  moreover have "fs = f @ d @ gs" using Cons.prems(2) f g by (simp add: x)
  ultimately show ?case using lf a(3) by (simp add: WAL_FRAME_HDRSIZE_def)
qed

lemma last_commit_ge: "fst st < i \<Longrightarrow> fst st \<le> fst (last_commit i st vs)"
proof (induction vs arbitrary: i st)
  case Nil
  then show ?case by simp
next
  case (Cons v vs)
  obtain p t ck where v: "v = (p, t, ck)" by (cases v) auto
  define st' where "st' = (if t \<noteq> 0 then (i, unat t, ck) else st)"
  have "fst st' \<le> fst (last_commit (i + 1) st' vs)" by (rule Cons.IH) (use Cons.prems in \<open>auto simp: st'_def\<close>)
  moreover have "fst st \<le> fst st'" using Cons.prems by (simp add: st'_def)
  ultimately show ?case by (simp add: v st'_def)
qed

definition example_recover :: recover_env where
  "example_recover = \<lparr>rv_lock = SQLITE_OK, rv_size = SQLITE_OK, rv_read_hdr = SQLITE_OK, rv_mem = True, rv_map = (\<lambda>_. SQLITE_OK),
     rv_read = (\<lambda>_. SQLITE_OK), rv_private = zero_page, rv_mark_lock = (\<lambda>_. SQLITE_OK)\<rparr>"

lemma example_recover_well: "recover_well example_recover"
  by (simp add: recover_well_def example_recover_def page_shape_zero)

text \<open>C6.  Recovery rebuilds the index from the log file: it ends at the last commit before the first frame that is not valid,
  with the size of the database and the running checksum of that commit, the shared header agrees, and every lookup
  gives the newest frame of the page up to that commit.
\<close>

theorem recovery_ends_at_last_commit:
  assumes "recover_well e" "\<forall>h < length (apWiData w). page_shape (page_room h) (apWiData w ! h)" "WAL_HDRSIZE < length file"
    "recover_header (take WAL_HDRSIZE file) (w\<lparr>hdr := zero_hdr\<rparr>) = (True, w1)"
    "unat (sqlite3Get4byte (drop 4 (take WAL_HDRSIZE file))) = WAL_MAX_VERSION"
    "walIndexRecover e w file = (rc, w')"
    "vf = valid_frames w1 ((length file - WAL_HDRSIZE) div (szPage w1 + WAL_FRAME_HDRSIZE)) (drop WAL_HDRSIZE file)"
  shows "rc \<in> {SQLITE_OK, SQLITE_BUSY} \<and> shm_hdr w' = hdr w'
    \<and> (mxFrame (hdr w'), nPage (hdr w'), aFrameCksum (hdr w')) = last_commit 1 (0, 0, 0, 0) vf
    \<and> walFindFrame (\<lambda>_. SQLITE_OK) (w'\<lparr>readLock := 1, minFrame := 1\<rparr>) pgno
        = (SQLITE_OK, last_hit (in_log (map (\<lambda>v. unat (fst v)) vf) pgno 1) (mxFrame (hdr w')))"
proof -
  note R = walIndexRecover_ok [OF assms]
  then have "index_ok w' (map (\<lambda>v. unat (fst v)) vf)" by simp
  from walFindFrame_log [OF this, of "w'\<lparr>readLock := 1, minFrame := 1\<rparr>" pgno] index_okD(1) [OF this]
  show ?thesis using R by simp
qed

theorem recovery_ends_at_last_commit_witness:
  "\<exists>rc w'. walIndexRecover example_recover wal_fresh (fst (new_log wal_fresh 512 (replicate 8 7)) @ [1, 2, 3]) = (rc, w')
    \<and> mxFrame (hdr w') = 0 \<and> shm_hdr w' = hdr w'"
proof -
  obtain h w1 where n: "new_log wal_fresh 512 (replicate 8 7) = (h, w1)" by (metis surj_pair)
  have "length (aSalt (hdr wal_fresh)) = 8" "(512 :: nat) \<in> page_sizes" by (simp_all add: wal_fresh_def Let_def page_sizes_def)
  note L = new_log_recovered [OF length_replicate this n]
  obtain v1 where v1: "recover_header h (wal_fresh\<lparr>hdr := zero_hdr\<rparr>) = (True, v1)" "same_decode v1 w1" using L(3) by blast
  obtain rc w' where r: "walIndexRecover example_recover wal_fresh (h @ [1, 2, 3]) = (rc, w')" by (metis surj_pair)
  have t: "take WAL_HDRSIZE (h @ [1, 2, 3]) = h" "length (h @ [1, 2, 3]) - WAL_HDRSIZE = 3" using L(1) by simp_all
  have "\<forall>k < length (apWiData wal_fresh). page_shape (page_room k) (apWiData wal_fresh ! k)" by (simp add: wal_fresh_def Let_def)
  from recovery_ends_at_last_commit [OF example_recover_well this _ _ _ r refl, unfolded t, OF _ v1(1)]
  have "mxFrame (hdr w') = 0 \<and> shm_hdr w' = hdr w'" using L(1,2) by (simp add: WAL_FRAME_HDRSIZE_def)
  then show ?thesis using n r by simp
qed

text \<open>C1.  What was committed survives: if a log that was begun by a commit holds frames that end with a commit mark, then
  recovery keeps all of them, whatever bytes follow - a torn write, frames without a commit, an older log.
\<close>

theorem recovery_keeps_commits:
  assumes "recover_well e" "\<forall>h < length (apWiData v). page_shape (page_room h) (apWiData v ! h)"
    "length salt = 8" "length (aSalt (hdr w)) = 8" "sz \<in> page_sizes" "iReCksum w = 0"
    "new_log w sz salt = (h, w1)" "\<forall>(p, t, d) \<in> set (xs @ [(p1, t1, d1)]). p \<noteq> 0 \<and> length d = sz" "t1 \<noteq> 0"
    "encode_frames w1 (xs @ [(p1, t1, d1)]) = (fs, w2)" "walIndexRecover e v (h @ fs @ junk) = (rc, w')"
  shows "rc \<in> {SQLITE_OK, SQLITE_BUSY} \<and> length xs + 1 \<le> mxFrame (hdr w')
    \<and> (\<forall>i \<le> length xs. walFramePgno w' (i + 1) = unat (fst ((xs @ [(p1, t1, d1)]) ! i)))"
proof -
  let ?xs = "xs @ [(p1, t1, d1)]" and ?file = "h @ fs @ junk"
  note L = new_log_recovered [OF assms(3-5,7)]
  obtain v1 where v1: "recover_header h (v\<lparr>hdr := zero_hdr\<rparr>) = (True, v1)" "same_decode v1 w1" using L(3) by blast
  have sz: "szPage v1 = sz" using v1(2) assms(7) by (auto simp: same_decode_def new_log_def Let_def)
  have fok: "frames_ok w1 ?xs"
    using assms(3,4,6-8) by (auto simp: frames_ok_def new_log_def Let_def split: if_splits)
  let ?k = "sz + WAL_FRAME_HDRSIZE"
  have szw: "szPage w1 = sz" using assms(7) by (auto simp: new_log_def Let_def)
  have lfs: "length fs = length ?xs * ?k" using encode_frames_length [OF fok assms(10)] szw by simp
  define m where "m = length junk div ?k"
  have n: "(length ?file - WAL_HDRSIZE) div (szPage v1 + WAL_FRAME_HDRSIZE) = length ?xs + m"
  proof -
    have "length ?file - WAL_HDRSIZE = length ?xs * ?k + length junk" using L(1) lfs by simp
    moreover have "?k \<noteq> 0" by (simp add: WAL_FRAME_HDRSIZE_def)
    ultimately show ?thesis unfolding sz m_def by (simp only: div_mult_self3 not_False_eq_True)
  qed
  obtain vs where vs: "valid_frames w1 (length ?xs + m) (fs @ junk) = vs @ valid_frames w2 m junk"
      "map (\<lambda>v. (fst v, fst (snd v))) vs = map (\<lambda>x. (fst x, fst (snd x))) ?xs"
    using valid_frames_encoded [OF fok assms(10)] by blast
  define vf where "vf = valid_frames v1 ((length ?file - WAL_HDRSIZE) div (szPage v1 + WAL_FRAME_HDRSIZE)) (drop WAL_HDRSIZE ?file)"
  have vf: "vf = vs @ valid_frames w2 m junk"
  proof -
    have "drop WAL_HDRSIZE ?file = fs @ junk" using L(1) by simp
    then show ?thesis unfolding vf_def n valid_frames_cong [OF v1(2)] using vs(1) by (simp only:)
  qed
  have t: "take WAL_HDRSIZE ?file = h" using L(1) by simp
  have "WAL_HDRSIZE < length ?file" using L(1) lfs by (simp add: WAL_FRAME_HDRSIZE_def)
  note R = walIndexRecover_ok [OF assms(1,2) this _ _ assms(11) vf_def, unfolded t, OF v1(1) L(2)]
  have len: "length vs = length ?xs" using arg_cong [OF vs(2), of length] by simp
  then obtain us u where us: "vs = us @ [u]" by (cases vs rule: rev_cases) simp_all
  have "fst (snd u) = t1" using vs(2) by (simp add: us)
  then have "fst (last_commit 1 (0, 0, 0, 0) vs) = length vs"
    using assms(9) by (cases u) (simp add: us last_commit_append)
  then have "length vs \<le> fst (last_commit 1 (0, 0, 0, 0) vf)"
    using last_commit_ge [of "last_commit 1 (0, 0, 0, 0) vs" "1 + length vs" "valid_frames w2 m junk"] by (simp add: vf last_commit_append)
  then have mx: "length xs + 1 \<le> mxFrame (hdr w')" using R len by (metis fst_conv length_append_singleton Suc_eq_plus1)
  have "walFramePgno w' (i + 1) = unat (fst (?xs ! i))" if "i \<le> length xs" for i
  proof -
    have "walFramePgno w' (i + 1) = map (\<lambda>v. unat (fst v)) vf ! (i + 1 - 1)"
      using R len that by (intro walFramePgno_log) (auto simp: vf)
    also have "\<dots> = unat (fst (vs ! i))" using len that by (simp add: vf nth_append)
    also have "fst (vs ! i) = fst (?xs ! i)"
    proof -
      have "map (\<lambda>v. (fst v, fst (snd v))) vs ! i = map (\<lambda>x. (fst x, fst (snd x))) ?xs ! i" by (simp only: vs(2))
      then show ?thesis using len that by (simp del: map_append)
    qed
    finally show ?thesis .
  qed
  then show ?thesis using R mx by simp
qed

theorem recovery_keeps_commits_witness:
  "\<exists>h w1 fs w2 rc w'. new_log wal_fresh 512 (replicate 8 7) = (h, w1) \<and> encode_frames w1 [(5, 0, replicate 512 1), (8, 9, replicate 512 2)] = (fs, w2)
    \<and> walIndexRecover example_recover wal_fresh (h @ fs @ [1, 2, 3]) = (rc, w') \<and> 2 \<le> mxFrame (hdr w') \<and> walFramePgno w' 1 = 5"
proof -
  let ?xs = "[(5, 0, replicate 512 1)] @ [(8, 9, replicate 512 2)] :: (u32 \<times> u32 \<times> bytes) list"
  obtain h w1 where n: "new_log wal_fresh 512 (replicate 8 7) = (h, w1)" by (metis surj_pair)
  obtain fs w2 where f: "encode_frames w1 ?xs = (fs, w2)" by (metis surj_pair)
  obtain rc w' where r: "walIndexRecover example_recover wal_fresh (h @ fs @ [1, 2, 3]) = (rc, w')" by (metis surj_pair)
  have a: "\<forall>k < length (apWiData wal_fresh). page_shape (page_room k) (apWiData wal_fresh ! k)"
    "length (aSalt (hdr wal_fresh)) = 8" "(512 :: nat) \<in> page_sizes" "iReCksum wal_fresh = 0" "length (replicate 8 (7 :: 8 word)) = 8"
    "\<forall>(p, t, d) \<in> set ?xs. p \<noteq> 0 \<and> length d = 512"
    by (simp_all add: wal_fresh_def Let_def page_sizes_def)
  have "2 \<le> mxFrame (hdr w') \<and> walFramePgno w' 1 = 5"
    using recovery_keeps_commits [OF example_recover_well a(1,5,2,3,4) n a(6) _ f r] by auto
  then show ?thesis using n f r by auto
qed

end
