(* ===== verification/Spec2Isabelle.thy ===== *)
theory Spec2Isabelle
  imports BitvecTest CipherChaCha20 DemoVfs HashTable Integers Like LogEst MemDb Randomness RowSet RunParser WalPromises WalRecover
begin

text \<open>
  A verification development for the storage engine of Springtale: the encrypting build of SQLite
  (SQLite3 Multiple Ciphers) that is compiled from \<open>src/crates/libsqlite3-sys-mc\<close> and used by the Rust
  code through its SQL interface.  The C source is one amalgamation, \<open>sqlite3/sqlite3.c\<close>; a file named
  below is the part of it between the markers \<open>Begin file\<close> and \<open>End of\<close> of that name.

  Conventions.  A buffer is a list of bytes, a machine integer a word of its width or, where it
  cannot wrap, a natural number or an integer with its range in the statement, a pointer into a buffer an
  offset or the rest of the buffer, a C string the list of its bytes with zero read at its end
  (\<open>zat\<close>).  A structure is a record, a tagged union a datatype, a result code a constructor of \<open>rc\<close> or
  an option.  State is passed and returned.  A definition has the name of the C function it translates; a
  loop or block inside a function has a name of its own.  Loops that end are functions with their
  termination proof; \<open>demo_write_loop\<close>, which need not, is a partial function whose return is a theorem.
  What is outside the repository is a parameter: the answers of the allocator (a boolean, an address or a
  size for each request), the system calls of WASI (\<open>posix_file\<close> states what is relied on), the entropy
  source, the grammar and its actions (the parser driver), what other threads do to the interrupt flag.

  The parts and their theories, from the bottom of the engine to its top:

  \<^item> \<open>Prelude\<close>: types, result codes, byte buffers and the facts all theories share.  \<open>CString\<close>: the
    character tables, case folding, dequoting and hexadecimal digits of \<open>util.c\<close> and \<open>global.c\<close>.

  \<^item> Numbers.  \<open>Varint\<close>: the variable-length integers of records and cells (\<open>util.c\<close>); the unrolled
    decoder is equal to a byte-at-a-time one and inverts the encoder.  \<open>Integers\<close>: checked 64-bit
    arithmetic, text to integer and back (\<open>util.c\<close>); exact values, saturation and codes.  \<open>LogEst\<close>: the
    planner's logarithmic estimates.  \<open>Utf\<close>: characters and encodings (\<open>utf.c\<close>); round trips, and the
    bound of the buffer the translation allocates.

  \<^item> Containers.  \<open>HashTable\<close>: the symbol table (\<open>hash.c\<close>), a record of the element list and the
    buckets, refined to a map by the locale \<open>symbol_table\<close>.  \<open>RowSet\<close>: sets of rowids (\<open>rowset.c\<close>), a
    queue and a forest of trees, refined by the locale \<open>batched_set\<close>.  \<open>Bitvec\<close> and \<open>BitvecTest\<close>: the
    bitmaps of pages (\<open>bitvec.c\<close>), a datatype for the three representations; the locale \<open>bit_set\<close> states
    the interface and is interpreted on the bitmap and on the linear array of SQLite's own check, which
    therefore passes.  The fuel \<open>BITVEC_FUEL\<close> bounds the nesting of parts for every 32-bit size
    (\<open>fuel_enough\<close>).

  \<^item> Files.  \<open>IoFile\<close>: the contract of an open file, a locale.  \<open>MemDb\<close>: the in-memory file system
    (\<open>memdb.c\<close>); its store refines the contract, its locks exclude one another in every reachable state of
    the step relation \<open>memfs_step\<close>, its reference counts are right.  \<open>DemoVfs\<close>: the VFS for WASI
    (\<open>wasm32-wasi-vfs.c\<close>), whose write buffer is invisible to readers.

  \<^item> The write-ahead log (\<open>wal.c\<close>).  \<open>WalIndex\<close>: the shared index, tables of page numbers with open
    addressing, as a list of pages in a record with the private and the shared header; the invariant
    \<open>index_ok\<close> relates it to the list of frames.  \<open>WalLog\<close>: the life of a log as a step relation
    (\<open>writer_step\<close>: append, commit, failure, savepoints, rollback, death of the writer; \<open>log_reachable\<close>
    adds the restart); a lookup is the linear search of SQLite's self-test, and readers keep their
    snapshot.  \<open>WalSort\<close> and \<open>WalIter\<close>: the merge sort and the iterator of the checkpointer.
    \<open>WalCheckpoint\<close>: the checkpoint, with the answers of locks and files as a parameter; no reader sees
    it happen, whichever of the five read slots it holds and whatever fails.  Its loop has
    \<open>mxFrame + 1\<close> rounds, one more than there can be pages.
    \<open>WalFrame\<close>: the frames of the log file and their running checksum, whose three loops are one
    specification; what is encoded is accepted, damage within a unit of eight bytes is noticed.
    \<open>WalRecover\<close>: the recovery of the index from the bytes of the log file; it ends at the last commit
    before the first invalid frame, and keeps everything committed whatever bytes follow.
    These theories run one call at a time.  \<open>WalProtocol\<close>: the protocol of the locks between any number of
    connections, a step relation (\<open>wal_step\<close>) whose steps are single accesses to shared memory, locks or
    pages, on frames and headers reduced to what the protocol looks at; it covers the start of a read
    (\<open>walTryBeginRead\<close>), writing, the restart of the log, checkpoints in every mode, and the death of a
    process at any point but one.  \<open>WalProtocolInv\<close>: its invariant \<open>wal_inv\<close>, with a part for the shared state,
    for each place of a connection and for each pair of connections.  \<open>WalIsolation\<close> and \<open>WalPromises\<close>: readers
    keep their snapshot under every interleaving, the one writer works on the latest commit, a reader alone
    gets to read, and the one death that the protocol does not survive.

  \<^item> Randomness.  \<open>Randomness\<close>: the generator of \<open>random.c\<close>, ChaCha20 blocks under the entropy of the
    operating system, each byte handed out once.

  \<^item> SQL text.  \<open>Tokenize\<close>: the tokenizer (\<open>tokenize.c\<close>).  \<open>Keywords\<close>: the generated perfect hash
    (\<open>keywordhash.h\<close>); the fuel of \<open>keyword_loop\<close> is more than any of its chains needs
    (\<open>keyword_loop_enough\<close>).  \<open>Complete\<close>: \<open>sqlite3_complete\<close> (\<open>complete.c\<close>) against the language of whole
    statements.  \<open>RunParser\<close>: the driver that feeds the parser.  \<open>Like\<close>: LIKE and GLOB (\<open>func.c\<close>),
    a matcher that gives up early, against the meaning of patterns.

  \<^item> Encryption.  \<open>ChaCha20\<close>, \<open>Poly1305\<close>, \<open>Poly1305_Correct\<close>, \<open>Md5\<close>, \<open>Sha256\<close>: the
    primitives (\<open>chacha20poly1305.c\<close>, \<open>md5.c\<close>, \<open>sha2.c\<close>), the limb arithmetic of Poly1305 proved to be
    the RFC's.  \<open>Pbkdf2\<close>: HMAC and the key derivation (\<open>fastpbkdf2.c\<close>) over any hash that satisfies the
    locale \<open>md_hash\<close>, interpreted on SHA-256.  \<open>RawKey\<close>: keys given in the passphrase (\<open>codec_algos.c\<close>).
    \<open>Config\<close>: cipher parameters (\<open>cipher_common.c\<close>, \<open>cipher_config.c\<close>).  \<open>CipherChaCha20\<close>: the page
    cipher Springtale selects (\<open>cipher_chacha20.c\<close>); pages round-trip and are accepted exactly when
    their tag is right.  This code is the last third of the amalgamation (\<open>sqlite3.c\<close> from line 283,000);
    the theories stand beside the others, and of the others only \<open>Randomness\<close> refers to them, for the keystream.

  How the parts interact: \<open>RunParser\<close> calls \<open>Tokenize\<close>, which calls \<open>Keywords\<close>, all over \<open>CString\<close>;
  \<open>Like\<close> reads its characters with \<open>Utf\<close>; \<open>WalCheckpoint\<close> runs \<open>WalIter\<close> over the tables that
  \<open>WalIndex\<close> fills; \<open>CipherChaCha20\<close> is composed from \<open>Config\<close>, \<open>RawKey\<close>,
  \<open>Pbkdf2\<close>, \<open>ChaCha20\<close> and \<open>Poly1305\<close>.

  Not modelled, and why.  Of the log, connections without shared memory and the reading of a header while
  it is written.  The b-tree, the pager, the virtual machine and the code generator mutate shared
  structures through tens of thousands of lines; a faithful model of a part of them needs the invariants of
  all.  The parser tables are generated.  Floating point (\<open>printf.c\<close>, \<open>date.c\<close>, number parsing) follows
  the compiler's rounding.  Allocators, mutexes and the other VFS layers are the system's.  The extensions,
  the other ciphers and the second copy of SQLite are not used by Springtale.  The Rust code is in another
  language.  Inside a modelled part, code that only frees memory, debug output, and code that another
  build configuration compiles has no counterpart.
\<close>

end
